(* ===== verification/Prelude.thy ===== *)
theory Prelude
  imports Main "HOL-Library.Monad_Syntax" "HOL-Library.Multiset"
begin

text \<open>
  What the component theories share: the reading of Go that the model uses, its simplification
  rules, and the generic lemmas on lists, majorities and step relations.

  A Go computation that may panic (an index out of range, a nil dereference, \<^verbatim>\<open>log.Fatal\<close>)
  is a value of an \<open>option\<close> type: \<open>None\<close> is the panic, and the \<open>do\<close> notation of the option
  monad propagates it as the runtime does.  A slice is a list; its accesses are the functions
  \<open>go_nth\<close>, \<open>go_set\<close>, \<open>go_from\<close> and \<open>go_upto\<close> below, which check the bounds the Go runtime
  checks.  A slice or pointer that the source compares with \<^verbatim>\<open>nil\<close> is an \<open>option\<close>.
  Go's \<^verbatim>\<open>int\<close> is \<open>int\<close> where the code only counts log positions, terms and time (2 ^ 63 steps
  are out of reach), and a \<open>64 word\<close> or \<open>32 word\<close> where the source's type is unsigned.
\<close>

named_theorems go_simps \<open>evaluation rules of the Go primitives\<close>
named_theorems step_invs \<open>preservation of an invariant by one step\<close>

section \<open>Slices\<close>

text \<open>\<open>xs[i]\<close>: a panic outside \<open>0 \<le> i < len(xs)\<close>.\<close>

definition go_nth :: "'a list \<Rightarrow> int \<Rightarrow> 'a option" where
  "go_nth xs i = (if 0 \<le> i \<and> i < int (length xs) then Some (xs ! nat i) else None)"

text \<open>\<open>xs[i] = v\<close>.\<close>

definition go_set :: "'a list \<Rightarrow> int \<Rightarrow> 'a \<Rightarrow> 'a list option" where
  "go_set xs i v = (if 0 \<le> i \<and> i < int (length xs) then Some (xs[nat i := v]) else None)"

text \<open>\<open>xs[i:]\<close>: a panic outside \<open>0 \<le> i \<le> len(xs)\<close>.\<close>

definition go_from :: "'a list \<Rightarrow> int \<Rightarrow> 'a list option" where
  "go_from xs i = (if 0 \<le> i \<and> i \<le> int (length xs) then Some (drop (nat i) xs) else None)"

text \<open>
  \<open>xs[0:i]\<close>.  Go allows \<open>i\<close> up to the capacity of the slice; every use in the source has
  \<open>i \<le> len(xs)\<close>, and the model takes the stricter bound.
\<close>

definition go_upto :: "'a list \<Rightarrow> int \<Rightarrow> 'a list option" where
  "go_upto xs i = (if 0 \<le> i \<and> i \<le> int (length xs) then Some (take (nat i) xs) else None)"

text \<open>The last element, \<open>xs[len(xs)-1]\<close>.\<close>

definition go_last :: "'a list \<Rightarrow> 'a option" where
  "go_last xs = go_nth xs (int (length xs) - 1)"

lemma go_nth_Some_iff [go_simps]:
  "go_nth xs i = Some x \<longleftrightarrow> 0 \<le> i \<and> i < int (length xs) \<and> x = xs ! nat i"
  by (auto simp: go_nth_def)

lemma go_nth_0 [simp]: "go_nth (x # xs) 0 = Some x"
  by (simp add: go_nth_def)

lemma go_nth_int [simp]: "i < length xs \<Longrightarrow> go_nth xs (int i) = Some (xs ! i)"
  by (simp add: go_nth_def)

lemma go_nth_hd: "xs \<noteq> [] \<Longrightarrow> go_nth xs 0 = Some (hd xs)"
  by (cases xs) auto

lemma go_nth_Nil [simp]: "go_nth [] i = None"
  by (simp add: go_nth_def)

lemma go_last_eq: "xs \<noteq> [] \<Longrightarrow> go_last xs = Some (last xs)"
  by (auto simp: go_last_def go_nth_def last_conv_nth nat_diff_distrib')

lemma go_last_Nil [simp]: "go_last [] = None"
  by (simp add: go_last_def)

lemma go_last_Some_iff [go_simps]: "go_last xs = Some x \<longleftrightarrow> xs \<noteq> [] \<and> x = last xs"
  by (cases "xs = []") (auto simp: go_last_eq)

lemma go_last_snoc [simp]: "go_last (xs @ [x]) = Some x"
  by (simp add: go_last_eq)

lemma go_set_Some_iff [go_simps]:
  "go_set xs i v = Some ys \<longleftrightarrow> 0 \<le> i \<and> i < int (length xs) \<and> ys = xs[nat i := v]"
  by (auto simp: go_set_def)

lemma go_set_int [simp]: "i < length xs \<Longrightarrow> go_set xs (int i) v = Some (xs[i := v])"
  by (simp add: go_set_def)

lemma go_from_Some_iff [go_simps]:
  "go_from xs i = Some ys \<longleftrightarrow> 0 \<le> i \<and> i \<le> int (length xs) \<and> ys = drop (nat i) xs"
  by (auto simp: go_from_def)

lemma go_upto_Some_iff [go_simps]:
  "go_upto xs i = Some ys \<longleftrightarrow> 0 \<le> i \<and> i \<le> int (length xs) \<and> ys = take (nat i) xs"
  by (auto simp: go_upto_def)

section \<open>The option monad\<close>

text \<open>
  A successful computation is taken apart one binding at a time; \<open>bindE\<close> is the elimination
  rule that the proofs about handlers use, together with a split of the conditions.
\<close>

lemma bindE:
  assumes "Option.bind m f = Some y"
  obtains x where "m = Some x" and "f x = Some y"
  using assms by (cases m) auto

lemma bind_Some_iff: "(Option.bind m f = Some y) \<longleftrightarrow> (\<exists>x. m = Some x \<and> f x = Some y)"
  by (cases m) auto

section \<open>Majorities\<close>

text \<open>Two majorities of the same finite set of servers have a server in common.\<close>

lemma majorities_meet:
  assumes "finite P" and "A \<subseteq> P" and "B \<subseteq> P"
    and "2 * card A > card P" and "2 * card B > card P"
  shows "\<exists>x. x \<in> A \<and> x \<in> B"
proof (rule ccontr)
  assume "\<nexists>x. x \<in> A \<and> x \<in> B"
  then have disj: "A \<inter> B = {}" by blast
  have "finite A" "finite B" using assms(1-3) finite_subset by blast+
  then have "card (A \<union> B) = card A + card B" using disj by (simp add: card_Un_disjoint)
  moreover have "card (A \<union> B) \<le> card P" using assms(1-3) by (intro card_mono) auto
  ultimately show False using assms(4,5) by linarith
qed

section \<open>Transition systems\<close>

text \<open>
  The interface every state machine of the development has: an initial-state predicate and a
  step relation.  The reachable states and the invariant rule are proved once, here.
\<close>

locale transition_system =
  fixes init :: "'s \<Rightarrow> bool"
    and step :: "'s \<Rightarrow> 's \<Rightarrow> bool"
  assumes has_init: "\<exists>s. init s"
begin

inductive reach :: "'s \<Rightarrow> bool" where
  reach_init: "init s \<Longrightarrow> reach s"
| reach_step: "reach s \<Longrightarrow> step s t \<Longrightarrow> reach t"

lemma reach_invariant:
  assumes "reach s"
    and "\<And>s. init s \<Longrightarrow> I s"
    and "\<And>s t. reach s \<Longrightarrow> I s \<Longrightarrow> step s t \<Longrightarrow> I t"
  shows "I s"
  using assms(1) by induction (auto intro: assms(2,3))

lemma reach_run: "reach s \<Longrightarrow> step\<^sup>*\<^sup>* s t \<Longrightarrow> reach t"
  by (erule rtranclp_induct) (auto intro: reach_step)

lemma run_mono:
  fixes f :: "'s \<Rightarrow> 'o :: preorder"
  assumes "step\<^sup>*\<^sup>* s t"
    and "\<And>s t. step s t \<Longrightarrow> f s \<le> f t"
  shows "f s \<le> f t"
  using assms(1) by (induction rule: rtranclp_induct) (auto intro: order_trans assms(2))

end

text \<open>
  History variables: an observer follows every run and computes a ghost value from the states
  it sees.  It never restricts the runs (\<open>reach_oreach\<close>), so an invariant of the pairs is a
  fact about every reachable state.
\<close>

locale observed_system = transition_system init step
  for init :: "'s \<Rightarrow> bool" and step :: "'s \<Rightarrow> 's \<Rightarrow> bool" +
  fixes obs0 :: "'s \<Rightarrow> 'g"
    and obs :: "'s \<Rightarrow> 's \<Rightarrow> 'g \<Rightarrow> 'g"
begin

inductive oreach :: "'s \<Rightarrow> 'g \<Rightarrow> bool" where
  oreach_init: "init s \<Longrightarrow> oreach s (obs0 s)"
| oreach_step: "oreach s g \<Longrightarrow> step s t \<Longrightarrow> oreach t (obs s t g)"

lemma reach_oreach: "reach s \<Longrightarrow> \<exists>g. oreach s g"
  by (induction rule: reach.induct) (blast intro: oreach.intros)+

lemma observed_invariant:
  assumes "reach s"
    and "\<And>s. init s \<Longrightarrow> I s (obs0 s)"
    and "\<And>s t g. I s g \<Longrightarrow> step s t \<Longrightarrow> I t (obs s t g)"
  shows "\<exists>g. I s g"
proof -
  from reach_oreach[OF assms(1)] obtain g where "oreach s g" ..
  then have "I s g" by induction (auto intro: assms(2,3))
  then show ?thesis ..
qed

end

end
