(* ===== verification/Persister.thy ===== *)
theory Persister
  imports Prelude
begin

text \<open>
  Stable storage: labgob streams (\<^verbatim>\<open>src/src/labgob/labgob.go\<close>, the Encoder and Decoder
  wrappers) and the persister (\<^verbatim>\<open>src/src/tester1/persister.go\<close>).

  A byte slice that was written by a labgob encoder is modelled by the list of the values
  encoded into it, in order: \<open>Encode\<close> appends one value, \<open>Decode\<close> takes the first value
  off the stream and fails when there is none or when it has another type.  What the byte
  format is plays no role in the code, which only ever encodes, decodes and measures.
  The persister keeps two byte slices and copies them on the way in and out; \<open>None\<close> is the
  nil slice, and \<open>clone\<close> shows why a slice read back is never nil.
\<close>

section \<open>labgob encoders and decoders\<close>

definition Encode :: "'v list \<Rightarrow> 'v \<Rightarrow> 'v list" where
  "Encode w v = w @ [v]"

fun Decode :: "('v \<Rightarrow> 'a option) \<Rightarrow> 'v list \<Rightarrow> ('a \<times> 'v list) option" where
  "Decode as [] = None"
| "Decode as (v # r) = (case as v of None \<Rightarrow> None | Some x \<Rightarrow> Some (x, r))"

lemma Decode_Encode:
  assumes "as v = Some x"
  shows "Decode as (Encode [] v) = Some (x, [])"
  using assms by (simp add: Encode_def)

section \<open>The persister\<close>

record ('r, 'b) Persister =
  raftstate :: "'r list option"
  snapshot_bytes :: "'b list option"

definition MakePersister :: "('r, 'b) Persister" where
  "MakePersister = \<lparr>raftstate = None, snapshot_bytes = None\<rparr>"

text \<open>\<open>make([]byte, len(orig))\<close> and \<open>copy\<close>: never nil, also for a nil argument.\<close>

definition clone :: "'a list option \<Rightarrow> 'a list option" where
  "clone orig = Some (case orig of None \<Rightarrow> [] | Some xs \<Rightarrow> xs)"

definition Checkpoint :: "('r, 'b) Persister \<Rightarrow> ('r, 'b) Persister" where
  "Checkpoint ps = MakePersister\<lparr>raftstate := clone (raftstate ps),
                                 snapshot_bytes := clone (snapshot_bytes ps)\<rparr>"

definition ReadRaftState :: "('r, 'b) Persister \<Rightarrow> 'r list option" where
  "ReadRaftState ps = clone (raftstate ps)"

text \<open>The sizes in bytes: \<open>size_of\<close> is the length of the encoding of a stream.\<close>

definition RaftStateSize :: "('r list \<Rightarrow> int) \<Rightarrow> ('r, 'b) Persister \<Rightarrow> int" where
  "RaftStateSize size_of ps = (case raftstate ps of None \<Rightarrow> 0 | Some xs \<Rightarrow> size_of xs)"

definition Save :: "'r list option \<Rightarrow> 'b list option \<Rightarrow> ('r, 'b) Persister \<Rightarrow> ('r, 'b) Persister" where
  "Save rs sn ps = ps\<lparr>raftstate := clone rs, snapshot_bytes := clone sn\<rparr>"

definition ReadSnapshot :: "('r, 'b) Persister \<Rightarrow> 'b list option" where
  "ReadSnapshot ps = clone (snapshot_bytes ps)"

definition SnapshotSize :: "('b list \<Rightarrow> int) \<Rightarrow> ('r, 'b) Persister \<Rightarrow> int" where
  "SnapshotSize size_of ps = (case snapshot_bytes ps of None \<Rightarrow> 0 | Some xs \<Rightarrow> size_of xs)"

lemma clone_not_None [simp]: "clone xs \<noteq> None"
  by (simp add: clone_def)

lemma clone_Some [simp]: "clone (Some xs) = Some xs"
  by (simp add: clone_def)

lemma clone_None [simp]: "clone None = Some []"
  by (simp add: clone_def)

lemma clone_clone [simp]: "clone (clone xs) = clone xs"
  by (simp add: clone_def)

lemma Read_Save [simp]:
  "ReadRaftState (Save rs sn ps) = clone rs"
  "ReadSnapshot (Save rs sn ps) = clone sn"
  by (simp_all add: ReadRaftState_def ReadSnapshot_def Save_def)

lemma Read_Checkpoint [simp]:
  "ReadRaftState (Checkpoint ps) = ReadRaftState ps"
  "ReadSnapshot (Checkpoint ps) = ReadSnapshot ps"
  by (simp_all add: ReadRaftState_def ReadSnapshot_def Checkpoint_def)

lemma Read_MakePersister [simp]:
  "ReadRaftState MakePersister = Some []" "ReadSnapshot MakePersister = Some []"
  by (simp_all add: ReadRaftState_def ReadSnapshot_def MakePersister_def)

end
