(* ===== verification/RaftNode.thy ===== *)
theory RaftNode
  imports Persister
begin

text \<open>
  One Raft peer: \<^verbatim>\<open>src/src/raft1/raft.go\<close>, the whole file.

  The record \<open>Raft\<close> is the Go struct.  Every method that runs with \<^verbatim>\<open>rf.mu\<close> held is one
  function on it, and the critical sections of a goroutine that drops and retakes the lock are
  one function each: what the goroutine does between them is in the theory \<open>RaftCluster\<close>.
  A function takes the clock reading (\<open>now\<close>, in nanoseconds: the calls of \<^verbatim>\<open>time.Now()\<close> inside
  one critical section are taken as one reading) and returns, beside the new state and the RPC
  reply, the goroutines it starts (\<open>spawn\<close>).  \<open>None\<close> is a Go panic; only out-of-range slice
  accesses can cause one here.

  \<^verbatim>\<open>peers\<close> is its length.  \<^verbatim>\<open>applyCh\<close>, \<^verbatim>\<open>applyCond\<close> and the goroutine \<^verbatim>\<open>applyLog\<close> that uses
  them are the field \<open>applier\<close>: where that goroutine is, and, while it is sending on the
  channel, what it still has to send.  The tracing calls \<^verbatim>\<open>tester.Annotate\<close> are left out.
\<close>

section \<open>Data\<close>

datatype ServerState = Follower | Candidate | Leader

record 'c LogEntry =
  eTerm :: int
  eIndex :: int
  eCommand :: "'c option"
  eStart :: int

text \<open>What \<open>persist\<close> encodes and \<open>readPersist\<close> decodes, and the two type tests of Decode.\<close>

datatype 'c gobval = GInt int | GLog "'c LogEntry list"

fun as_int :: "'c gobval \<Rightarrow> int option" where
  "as_int (GInt i) = Some i"
| "as_int (GLog _) = None"

fun as_log :: "'c gobval \<Rightarrow> 'c LogEntry list option" where
  "as_log (GLog l) = Some l"
| "as_log (GInt _) = None"

text \<open>The message type of \<^verbatim>\<open>raftapi.go\<close>: exactly one of the two kinds is valid.\<close>

datatype ('c, 'b) ApplyMsg =
  CommandMsg (cmd: "'c option") (cmdIndex: int)
| SnapshotMsg (snapData: "'b list") (snapTerm: int) (snapIndex: int)

datatype ('c, 'b) applier_pc =
  Checking
| Waiting
| Woken
| Sending "('c, 'b) ApplyMsg list"

record ('c, 'b) Raft =
  npeers :: nat
  persister :: "('c gobval, 'b) Persister"
  me :: int
  currentTerm :: int
  votedFor :: int
  rlog :: "'c LogEntry list"
  commitIndex :: int
  lastApplied :: int
  leader :: int
  rstate :: ServerState
  lastRecivedTime :: int
  electionTimeout :: int
  nextIndex :: "int list"
  matchIndex :: "int list"
  lastSendAppendEntry :: "int list"
  rsnapshot :: "'b list option"
  startTime :: int
  applier :: "('c, 'b) applier_pc"
  voteGrantedCount :: "int \<rightharpoonup> nat"

text \<open>
  \<open>voteGrantedCount\<close> is not a field of the struct: it is the local variable of
  \<^verbatim>\<open>startVoteWithLocked\<close> that the goroutines of one election share, one variable per election,
  kept here under the term of the election.
\<close>

record RequestVoteArgs =
  rvTerm :: int
  rvCandidateId :: int
  rvLastLogIndex :: int
  rvLastLogTerm :: int

record RequestVoteReply =
  rrTerm :: int
  rrVoteGranted :: bool

record 'c AppendEntryArgs =
  aeTerm :: int
  aeLeaderId :: int
  aePrevLogIndex :: int
  aePrevLogTerm :: int
  aeEntries :: "'c LogEntry list"
  aeLeaderCommit :: int

record AppendEntryReply =
  arTerm :: int
  arSuccess :: bool
  arXTerm :: int
  arXIndex :: int
  arXLen :: int

record 'b Snapshot =
  LastIncludeLogIndex :: int
  LastIncludeLogTerm :: int
  snData :: "'b list option"

record 'b InstallSnapshotArgs =
  isTerm :: int
  isLeaderId :: int
  isSnapshot :: "'b Snapshot"

record InstallSnapshotReply =
  irSuccess :: bool
  irTerm :: int

text \<open>The goroutines the code starts: one per RPC, with the peer it talks to.\<close>

datatype 'c spawn =
  GoRequestVote nat RequestVoteArgs
| GoAppendEntry nat "'c AppendEntryArgs"
| GoInstallSnapshot nat

section \<open>Persistence\<close>

definition encode_state :: "('c, 'b) Raft \<Rightarrow> 'c gobval list" where
  "encode_state rf =
     Encode (Encode (Encode [] (GInt (currentTerm rf))) (GInt (votedFor rf))) (GLog (rlog rf))"

definition persist :: "('c, 'b) Raft \<Rightarrow> ('c, 'b) Raft" where
  "persist rf =
     (let raftstate = encode_state rf in
      if rsnapshot rf \<noteq> None
      then rf\<lparr>persister := Save (Some raftstate) (rsnapshot rf) (persister rf)\<rparr>
      else rf\<lparr>persister := Save (Some raftstate) None (persister rf)\<rparr>)"

definition decode_state :: "'c gobval list \<Rightarrow> (int \<times> int \<times> 'c LogEntry list) option" where
  "decode_state data = do {
     (term, d1) \<leftarrow> Decode as_int data;
     (voteFor, d2) \<leftarrow> Decode as_int d1;
     (logs, d3) \<leftarrow> Decode as_log d2;
     Some (term, voteFor, logs) }"

definition readPersist :: "'c gobval list option \<Rightarrow> ('c, 'b) Raft \<Rightarrow> ('c, 'b) Raft" where
  "readPersist data rf =
     (case data of
        None \<Rightarrow> rf
      | Some d \<Rightarrow>
          (if length d < 1 then rf
           else case decode_state d of
                  None \<Rightarrow> rf
                | Some (term, voteFor, logs) \<Rightarrow>
                    rf\<lparr>currentTerm := term, votedFor := voteFor, rlog := logs\<rparr>))"

definition PersistBytes :: "('c gobval list \<Rightarrow> int) \<Rightarrow> ('c, 'b) Raft \<Rightarrow> int" where
  "PersistBytes size_of rf = RaftStateSize size_of (persister rf)"

section \<open>Small steps of the struct\<close>

text \<open>\<^verbatim>\<open>rf.applyCond.Signal()\<close>: wakes the applier when it waits, and is lost otherwise.\<close>

definition signal :: "('c, 'b) Raft \<Rightarrow> ('c, 'b) Raft" where
  "signal rf = (if applier rf = Waiting then rf\<lparr>applier := Woken\<rparr> else rf)"

definition checkAndMaySetTermAndState :: "int \<Rightarrow> ('c, 'b) Raft \<Rightarrow> ('c, 'b) Raft" where
  "checkAndMaySetTermAndState term rf =
     (if currentTerm rf < term
      then persist (let rf1 = rf\<lparr>currentTerm := term, votedFor := -1\<rparr> in
                    if rstate rf1 \<noteq> Follower then rf1\<lparr>rstate := Follower\<rparr> else rf1)
      else rf)"

definition GetState :: "('c, 'b) Raft \<Rightarrow> int \<times> bool" where
  "GetState rf = (currentTerm rf, rstate rf = Leader)"

definition getLastLogIndexAndTerm :: "('c, 'b) Raft \<Rightarrow> (int \<times> int) option" where
  "getLastLogIndexAndTerm rf = do {
     lastLog \<leftarrow> go_last (rlog rf);
     Some (eIndex lastLog, eTerm lastLog) }"

text \<open>The randomised timeout: \<open>rnd\<close> is the result of \<^verbatim>\<open>rand.Intn(200)\<close>.\<close>

definition resetElectTimeout :: "int \<Rightarrow> ('c, 'b) Raft \<Rightarrow> ('c, 'b) Raft" where
  "resetElectTimeout rnd rf = rf\<lparr>electionTimeout := (300 + rnd) * 1000000\<rparr>"

definition UnixMilli :: "int \<Rightarrow> int" where
  "UnixMilli now = now div 1000000"

section \<open>Sending: heartbeats and log replication\<close>

text \<open>One iteration of the loop of \<open>sendHeatbeatWithLocked\<close>, for the peer \<open>peer\<close>.\<close>

definition sendHeatbeat_peer ::
  "int \<Rightarrow> bool \<Rightarrow> nat \<Rightarrow> ('c, 'b) Raft \<Rightarrow> (('c, 'b) Raft \<times> 'c spawn list) option" where
  "sendHeatbeat_peer now force peer rf =
     (if int peer = me rf then Some (rf, [])
      else do {
        next \<leftarrow> go_nth (nextIndex rf) (int peer);
        lastLog \<leftarrow> go_last (rlog rf);
        first \<leftarrow> go_nth (rlog rf) 0;
        skip \<leftarrow> (if \<not> force \<and> next + 2 > eIndex lastLog
                then do { lastSend \<leftarrow> go_nth (lastSendAppendEntry rf) (int peer);
                          Some (now - lastSend < 100 * 1000000) }
                else Some False);
        if skip
        then Some (rf, [])
        else if rsnapshot rf \<noteq> None \<and> next \<le> eIndex first
        then Some (rf, [GoInstallSnapshot peer])
        else do {
          let logBeginIndex = next - eIndex first;
          preLog \<leftarrow> go_nth (rlog rf) (logBeginIndex - 1);
          entries \<leftarrow> (if next \<le> eIndex lastLog then go_from (rlog rf) logBeginIndex else Some []);
          sends \<leftarrow> go_set (lastSendAppendEntry rf) (int peer) now;
          Some (rf\<lparr>lastSendAppendEntry := sends\<rparr>,
                [GoAppendEntry peer
                   \<lparr>aeTerm = currentTerm rf, aeLeaderId = me rf, aePrevLogIndex = eIndex preLog,
                    aePrevLogTerm = eTerm preLog, aeEntries = entries,
                    aeLeaderCommit = commitIndex rf\<rparr>]) } })"

fun sendHeatbeat_loop ::
  "int \<Rightarrow> bool \<Rightarrow> nat list \<Rightarrow> ('c, 'b) Raft \<Rightarrow> (('c, 'b) Raft \<times> 'c spawn list) option" where
  "sendHeatbeat_loop now force [] rf = Some (rf, [])"
| "sendHeatbeat_loop now force (peer # ps) rf = do {
     (rf1, s1) \<leftarrow> sendHeatbeat_peer now force peer rf;
     (rf2, s2) \<leftarrow> sendHeatbeat_loop now force ps rf1;
     Some (rf2, s1 @ s2) }"

definition sendHeatbeat ::
  "int \<Rightarrow> bool \<Rightarrow> ('c, 'b) Raft \<Rightarrow> (('c, 'b) Raft \<times> 'c spawn list) option" where
  "sendHeatbeat now force rf = sendHeatbeat_loop now force [0..<npeers rf] rf"

text \<open>The body of the goroutine \<open>heatbeat\<close>, which runs every 100 ms.\<close>

definition heatbeat :: "int \<Rightarrow> ('c, 'b) Raft \<Rightarrow> (('c, 'b) Raft \<times> 'c spawn list) option" where
  "heatbeat now rf = (if rstate rf = Leader then sendHeatbeat now False rf else Some (rf, []))"

section \<open>Elections\<close>

text \<open>
  \<open>becomeLeaderWithLocked\<close>: the loop sets the three arrays for every peer but \<open>me\<close>; then
  the no-op entry of the new term is appended and replicated.
\<close>

fun becomeLeader_loop ::
  "int \<Rightarrow> int \<Rightarrow> nat list \<Rightarrow> ('c, 'b) Raft \<Rightarrow> ('c, 'b) Raft option" where
  "becomeLeader_loop now lastLogIndex [] rf = Some rf"
| "becomeLeader_loop now lastLogIndex (server # ss) rf =
     (if int server = me rf then becomeLeader_loop now lastLogIndex ss rf
      else do {
        ni \<leftarrow> go_set (nextIndex rf) (int server) (lastLogIndex + 1);
        mi \<leftarrow> go_set (matchIndex rf) (int server) 0;
        ls \<leftarrow> go_set (lastSendAppendEntry rf) (int server) (now - 24 * 3600 * 1000000000);
        becomeLeader_loop now lastLogIndex ss
          (rf\<lparr>nextIndex := ni, matchIndex := mi, lastSendAppendEntry := ls\<rparr>) })"

definition becomeLeader ::
  "int \<Rightarrow> ('c, 'b) Raft \<Rightarrow> (('c, 'b) Raft \<times> 'c spawn list) option" where
  "becomeLeader now rf =
     (if rstate rf = Leader \<or> rstate rf \<noteq> Candidate then Some (rf, [])
      else do {
        (lastLogIndex, _) \<leftarrow> getLastLogIndexAndTerm rf;
        rf1 \<leftarrow> becomeLeader_loop now lastLogIndex [0..<npeers rf] rf;
        let rf2 = rf1\<lparr>rstate := Leader\<rparr>;
        lastLog \<leftarrow> go_last (rlog rf2);
        let rf3 = rf2\<lparr>rlog := rlog rf2 @
              [\<lparr>eTerm = currentTerm rf2, eIndex = eIndex lastLog + 1, eCommand = None,
                eStart = UnixMilli now\<rparr>]\<rparr>;
        sendHeatbeat now True (persist rf3) })"

definition startVote :: "('c, 'b) Raft \<Rightarrow> (('c, 'b) Raft \<times> 'c spawn list) option" where
  "startVote rf = do {
     (lastLogIndex, lastLogTerm) \<leftarrow> getLastLogIndexAndTerm rf;
     let args = \<lparr>rvTerm = currentTerm rf, rvCandidateId = me rf,
                 rvLastLogIndex = lastLogIndex, rvLastLogTerm = lastLogTerm\<rparr>;
     Some (rf\<lparr>voteGrantedCount := (voteGrantedCount rf)(rvTerm args \<mapsto> 1)\<rparr>,
           map (\<lambda>server. GoRequestVote server args)
               (filter (\<lambda>server. int server \<noteq> me rf) [0..<npeers rf])) }"

text \<open>The body of the goroutine \<open>ticker\<close>: start an election when the timeout has passed.\<close>

definition ticker :: "int \<Rightarrow> int \<Rightarrow> ('c, 'b) Raft \<Rightarrow> (('c, 'b) Raft \<times> 'c spawn list) option" where
  "ticker now rnd rf =
     (if rstate rf \<noteq> Leader \<and> now - lastRecivedTime rf > electionTimeout rf
      then do {
        let rf1 = persist (rf\<lparr>currentTerm := currentTerm rf + 1, votedFor := me rf,
                              rstate := Candidate\<rparr>);
        (rf2, spawns) \<leftarrow> startVote rf1;
        Some (resetElectTimeout rnd (rf2\<lparr>lastRecivedTime := now\<rparr>), spawns) }
      else Some (rf, []))"

definition RequestVote ::
  "int \<Rightarrow> RequestVoteArgs \<Rightarrow> ('c, 'b) Raft \<Rightarrow> (('c, 'b) Raft \<times> RequestVoteReply) option" where
  "RequestVote now args rf =
     (if currentTerm rf > rvTerm args
      then Some (rf, \<lparr>rrTerm = currentTerm rf, rrVoteGranted = False\<rparr>)
      else do {
        let rf1 = (if rvTerm args > currentTerm rf
                   then checkAndMaySetTermAndState (rvTerm args) rf else rf);
        (lastLogIndex, lastLogTerm) \<leftarrow> getLastLogIndexAndTerm rf1;
        if rvLastLogTerm args < lastLogTerm \<or>
           (rvLastLogTerm args = lastLogTerm \<and> rvLastLogIndex args < lastLogIndex)
        then Some (rf1, \<lparr>rrTerm = currentTerm rf1, rrVoteGranted = False\<rparr>)
        else do {
          let rf2 = rf1\<lparr>lastRecivedTime := now\<rparr>;
          if votedFor rf2 = -1 \<or> votedFor rf2 = rvCandidateId args
          then Some (persist (rf2\<lparr>votedFor := rvCandidateId args\<rparr>),
                     \<lparr>rrTerm = currentTerm rf2, rrVoteGranted = True\<rparr>)
          else Some (rf2, \<lparr>rrTerm = currentTerm rf2, rrVoteGranted = False\<rparr>) } })"

text \<open>
  The second critical section of the goroutine that \<open>startVoteWithLocked\<close> starts, after
  \<open>Call\<close> has returned true.
\<close>

definition RequestVote_done ::
  "int \<Rightarrow> RequestVoteArgs \<Rightarrow> RequestVoteReply \<Rightarrow> ('c, 'b) Raft \<Rightarrow>
     (('c, 'b) Raft \<times> 'c spawn list) option" where
  "RequestVote_done now args reply rf =
     (if rvTerm args \<noteq> currentTerm rf \<or> rstate rf \<noteq> Candidate then Some (rf, [])
      else if rrVoteGranted reply
      then do {
        old \<leftarrow> voteGrantedCount rf (rvTerm args);
        let count = Suc old;
        let rf1 = rf\<lparr>voteGrantedCount := (voteGrantedCount rf)(rvTerm args \<mapsto> count)\<rparr>;
        if count > npeers rf div 2 then becomeLeader now rf1 else Some (rf1, []) }
      else Some (checkAndMaySetTermAndState (rrTerm reply) rf, []))"

end
