(* ===== verification/RaftReplication.thy ===== *)
theory RaftReplication
  imports RaftNode
begin

text \<open>
  The second half of \<^verbatim>\<open>src/src/raft1/raft.go\<close>: log replication, snapshots, the applier and
  \<^verbatim>\<open>Make\<close>.  Conventions as in \<open>RaftNode\<close>.
\<close>

section \<open>AppendEntry\<close>

text \<open>
  The conflict search: from position \<open>n\<close> down, the first entry of another term; the reply
  names the entry after it, or the first entry of the log when there is none.
\<close>

fun conflict_loop :: "'c LogEntry list \<Rightarrow> int \<Rightarrow> int \<Rightarrow> nat \<Rightarrow> int option" where
  "conflict_loop l t xindex n = do {
     e \<leftarrow> go_nth l (int n);
     if eTerm e \<noteq> t then do { e' \<leftarrow> go_nth l (int n + 1); Some (eIndex e') }
     else (case n of 0 \<Rightarrow> Some xindex | Suc m \<Rightarrow> conflict_loop l t xindex m) }"

declare conflict_loop.simps [simp del]

text \<open>
  The loop over \<open>args.Entries\<close> that skips the entries the log already has.  It returns the log
  (cut at the first mismatch), \<open>argsLogIndex\<close> and \<open>needPersist\<close>.
\<close>

fun match_loop ::
  "'c LogEntry list \<Rightarrow> int \<Rightarrow> int \<Rightarrow> int \<Rightarrow> 'c LogEntry list \<Rightarrow> ('c LogEntry list \<times> int \<times> bool) option" where
  "match_loop l curLogIndex argsLogIndex index [] = Some (l, argsLogIndex, False)"
| "match_loop l curLogIndex argsLogIndex index (entry # es) =
     (if curLogIndex \<ge> int (length l) then Some (l, argsLogIndex, False)
      else do {
        e \<leftarrow> go_nth l curLogIndex;
        if eIndex e \<noteq> eIndex entry \<or> eTerm e \<noteq> eTerm entry
        then do { l' \<leftarrow> go_upto l curLogIndex; Some (l', argsLogIndex, True) }
        else match_loop l (curLogIndex + 1) index (index + 1) es })"

text \<open>What follows once the previous entry is known to match: store the entries, then commit.\<close>

definition store_entries ::
  "'c LogEntry list \<Rightarrow> int \<Rightarrow> ('c, 'b) Raft \<Rightarrow> ('c, 'b) Raft option" where
  "store_entries entries preLogIndex rf =
     (if length entries > 0
      then do {
        (l1, argsLogIndex, cut) \<leftarrow> match_loop (rlog rf) (preLogIndex + 1) (-1) 0 entries;
        let rf1 = rf\<lparr>rlog := l1\<rparr>;
        if argsLogIndex + 1 < int (length entries)
        then do {
          rest \<leftarrow> go_from entries (argsLogIndex + 1);
          Some (persist (rf1\<lparr>rlog := l1 @ rest\<rparr>)) }
        else Some (if cut then persist rf1 else rf1) }
      else Some rf)"

definition AppendEntry_accept ::
  "'c AppendEntryArgs \<Rightarrow> 'c LogEntry list \<Rightarrow> int \<Rightarrow> ('c, 'b) Raft \<Rightarrow>
     (('c, 'b) Raft \<times> AppendEntryReply) option" where
  "AppendEntry_accept args entries preLogIndex rf = do {
     rf1 \<leftarrow> store_entries entries preLogIndex rf;
     let rf2 = rf1\<lparr>leader := aeLeaderId args\<rparr>;
     rf3 \<leftarrow> (if aeLeaderCommit args > commitIndex rf2
            then do {
              lastLog \<leftarrow> go_last (rlog rf2);
              Some (signal (rf2\<lparr>commitIndex := min (aeLeaderCommit args) (eIndex lastLog)\<rparr>)) }
            else Some rf2);
     Some (rf3, \<lparr>arTerm = currentTerm rf3, arSuccess = True,
                 arXTerm = 0, arXIndex = 0, arXLen = 0\<rparr>) }"

definition AppendEntry ::
  "int \<Rightarrow> 'c AppendEntryArgs \<Rightarrow> ('c, 'b) Raft \<Rightarrow> (('c, 'b) Raft \<times> AppendEntryReply) option" where
  "AppendEntry now args rf =
     (if currentTerm rf > aeTerm args
      then Some (rf, \<lparr>arTerm = currentTerm rf, arSuccess = False,
                      arXTerm = 0, arXIndex = 0, arXLen = 0\<rparr>)
      else do {
        let rf1 = checkAndMaySetTermAndState (aeTerm args) (rf\<lparr>lastRecivedTime := now\<rparr>);
        let rf2 = (if rstate rf1 \<noteq> Follower then rf1\<lparr>rstate := Follower\<rparr> else rf1);
        first \<leftarrow> go_nth (rlog rf2) 0;
        if aePrevLogIndex args < eIndex first
        then do {
          let endIndex = aePrevLogIndex args + int (length (aeEntries args));
          if endIndex > eIndex first
          then do {
            let leftLen = endIndex - eIndex first;
            entries \<leftarrow> go_from (aeEntries args) (int (length (aeEntries args)) - leftLen);
            entry0 \<leftarrow> go_nth entries 0;
            AppendEntry_accept args entries (eIndex entry0 - eIndex first - 1) rf2 }
          else AppendEntry_accept args [] 0 rf2 }
        else do {
          let preLogIndex = aePrevLogIndex args - eIndex first;
          lastLog \<leftarrow> go_last (rlog rf2);
          if preLogIndex \<ge> int (length (rlog rf2))
          then Some (rf2, \<lparr>arTerm = currentTerm rf2, arSuccess = False, arXTerm = -1,
                           arXIndex = -1, arXLen = eIndex lastLog\<rparr>)
          else do {
            pre \<leftarrow> go_nth (rlog rf2) preLogIndex;
            if eTerm pre \<noteq> aePrevLogTerm args
            then do {
              xindex \<leftarrow> conflict_loop (rlog rf2) (eTerm pre) (eIndex first) (nat preLogIndex);
              Some (rf2, \<lparr>arTerm = currentTerm rf2, arSuccess = False, arXTerm = eTerm pre,
                          arXIndex = xindex, arXLen = eIndex lastLog\<rparr>) }
            else AppendEntry_accept args (aeEntries args) preLogIndex rf2 } } })"

section \<open>The leader's side\<close>

definition matchCount :: "('c, 'b) Raft \<Rightarrow> int \<Rightarrow> nat list \<Rightarrow> nat option" where
  "matchCount rf index peers =
     foldr (\<lambda>peer acc. do {
         n \<leftarrow> acc;
         if int peer = me rf then Some n
         else do { m \<leftarrow> go_nth (matchIndex rf) (int peer);
                   Some (if m \<ge> index then Suc n else n) } }) peers (Some 1)"

fun updateCommit_loop ::
  "int \<Rightarrow> nat \<Rightarrow> ('c, 'b) Raft \<Rightarrow> (('c, 'b) Raft \<times> 'c spawn list) option" where
  "updateCommit_loop now i rf = do {
     e \<leftarrow> go_nth (rlog rf) (int i);
     if eTerm e \<noteq> currentTerm rf
     then (case i of 0 \<Rightarrow> Some (rf, []) | Suc j \<Rightarrow> updateCommit_loop now j rf)
     else do {
       count \<leftarrow> matchCount rf (eIndex e) [0..<npeers rf];
       if count > npeers rf div 2 \<and> eIndex e > commitIndex rf
       then sendHeatbeat now True (signal (rf\<lparr>commitIndex := eIndex e\<rparr>))
       else (case i of 0 \<Rightarrow> Some (rf, []) | Suc j \<Rightarrow> updateCommit_loop now j rf) } }"

declare updateCommit_loop.simps [simp del]

definition updateCommitIndex ::
  "int \<Rightarrow> int \<Rightarrow> ('c, 'b) Raft \<Rightarrow> (('c, 'b) Raft \<times> 'c spawn list) option" where
  "updateCommitIndex now logIndex rf = do {
     first \<leftarrow> go_nth (rlog rf) 0;
     let i = logIndex - eIndex first;
     if i \<ge> 0 then updateCommit_loop now (nat i) rf else Some (rf, []) }"

fun lastConflict_loop :: "'c LogEntry list \<Rightarrow> int \<Rightarrow> nat \<Rightarrow> int option" where
  "lastConflict_loop l term 0 = Some (-1)"
| "lastConflict_loop l term (Suc i) = do {
     e \<leftarrow> go_nth l (int i);
     if eTerm e = term then Some (int i)
     else if eTerm e < term then Some (-1)
     else lastConflict_loop l term i }"

definition getLastConflictTerm :: "int \<Rightarrow> ('c, 'b) Raft \<Rightarrow> int option" where
  "getLastConflictTerm term rf = lastConflict_loop (rlog rf) term (length (rlog rf))"

text \<open>The reply part of the goroutine that \<open>sendHeatbeatWithLocked\<close> starts.\<close>

definition AppendEntry_done ::
  "int \<Rightarrow> nat \<Rightarrow> 'c AppendEntryArgs \<Rightarrow> AppendEntryReply \<Rightarrow> ('c, 'b) Raft \<Rightarrow>
     (('c, 'b) Raft \<times> 'c spawn list) option" where
  "AppendEntry_done now server args reply rf =
     (if aeTerm args \<noteq> currentTerm rf \<or> rstate rf \<noteq> Leader then Some (rf, [])
      else do {
        next \<leftarrow> go_nth (nextIndex rf) (int server);
        if aePrevLogIndex args + 1 < next then Some (rf, [])
        else if arSuccess reply
        then do {
          let lastIndex = aePrevLogIndex args + int (length (aeEntries args));
          m \<leftarrow> go_nth (matchIndex rf) (int server);
          if lastIndex > m
          then do {
            mi \<leftarrow> go_set (matchIndex rf) (int server) lastIndex;
            ni \<leftarrow> go_set (nextIndex rf) (int server) (lastIndex + 1);
            updateCommitIndex now lastIndex (rf\<lparr>matchIndex := mi, nextIndex := ni\<rparr>) }
          else Some (rf, []) }
        else if arTerm reply > currentTerm rf
        then Some (checkAndMaySetTermAndState (arTerm reply) rf, [])
        else if arXTerm reply = -1
        then do {
          ni \<leftarrow> go_set (nextIndex rf) (int server) (arXLen reply + 1);
          Some (rf\<lparr>nextIndex := ni\<rparr>, []) }
        else do {
          conflictLogIndex \<leftarrow> getLastConflictTerm (arXTerm reply) rf;
          if conflictLogIndex = -1
          then do {
            ni \<leftarrow> go_set (nextIndex rf) (int server) (arXIndex reply);
            Some (rf\<lparr>nextIndex := ni\<rparr>, []) }
          else do {
            e \<leftarrow> go_nth (rlog rf) conflictLogIndex;
            ni \<leftarrow> go_set (nextIndex rf) (int server) (eIndex e + 1);
            Some (rf\<lparr>nextIndex := ni\<rparr>, []) } } })"

definition StartCommand ::
  "int \<Rightarrow> 'c \<Rightarrow> ('c, 'b) Raft \<Rightarrow> (('c, 'b) Raft \<times> 'c spawn list \<times> (int \<times> int \<times> bool)) option" where
  "StartCommand now command rf =
     (if rstate rf \<noteq> Leader then Some (rf, [], (0, 0, False))
      else do {
        lastLog \<leftarrow> go_last (rlog rf);
        let lastLogIndex = eIndex lastLog;
        let rf1 = persist (rf\<lparr>rlog := rlog rf @
              [\<lparr>eTerm = currentTerm rf, eIndex = lastLogIndex + 1, eCommand = Some command,
                eStart = UnixMilli now\<rparr>]\<rparr>);
        (rf2, spawns) \<leftarrow> sendHeatbeat now True rf1;
        Some (rf2, spawns, (lastLogIndex + 1, currentTerm rf2, rstate rf2 = Leader)) })"

section \<open>Snapshots\<close>

text \<open>The service's call, \<open>Snapshot(index, snapshot)\<close>.\<close>

definition SnapshotService ::
  "int \<Rightarrow> int \<Rightarrow> 'b list option \<Rightarrow> ('c, 'b) Raft \<Rightarrow> (('c, 'b) Raft \<times> 'c spawn list) option" where
  "SnapshotService now index snapshot rf =
     (if index > commitIndex rf then Some (rf, [])
      else do {
        skip \<leftarrow> (if rsnapshot rf \<noteq> None
                 then do { first \<leftarrow> go_nth (rlog rf) 0; Some (index \<le> eIndex first) }
                 else Some False);
        skip2 \<leftarrow> (if skip \<or> length (rlog rf) = 0 then Some True
                  else do { lastLog \<leftarrow> go_last (rlog rf); Some (index > eIndex lastLog) });
        if skip2 then Some (rf, [])
        else do {
          first \<leftarrow> go_nth (rlog rf) 0;
          let logIndex = min (index - eIndex first) (int (length (rlog rf)) - 1);
          l \<leftarrow> go_from (rlog rf) logIndex;
          let rf1 = signal (persist (rf\<lparr>rsnapshot := snapshot, rlog := l\<rparr>));
          if rstate rf1 = Leader then sendHeatbeat now True rf1 else Some (rf1, []) } })"

definition InstallSnapshot ::
  "int \<Rightarrow> 'b InstallSnapshotArgs \<Rightarrow> ('c, 'b) Raft \<Rightarrow>
     (('c, 'b) Raft \<times> InstallSnapshotReply) option" where
  "InstallSnapshot now args rf =
     (let reply = \<lparr>irSuccess = True, irTerm = currentTerm rf\<rparr>;
          sn = isSnapshot args in
      if isTerm args < currentTerm rf then Some (rf, reply\<lparr>irSuccess := False\<rparr>)
      else do {
        let rf1 = checkAndMaySetTermAndState (isTerm args) (rf\<lparr>lastRecivedTime := now\<rparr>);
        first \<leftarrow> go_nth (rlog rf1) 0;
        if LastIncludeLogIndex sn \<le> eIndex first
        then Some (rf1, reply\<lparr>irSuccess := False\<rparr>)
        else do {
          let logIndex = LastIncludeLogIndex sn - eIndex first;
          lastLog \<leftarrow> go_last (rlog rf1);
          reset \<leftarrow> (if LastIncludeLogIndex sn \<ge> eIndex lastLog then Some True
                    else do { e \<leftarrow> go_nth (rlog rf1) logIndex;
                              Some (eTerm e \<noteq> LastIncludeLogTerm sn) });
          if reset
          then Some (signal (persist
                 (rf1\<lparr>rlog := [\<lparr>eTerm = LastIncludeLogTerm sn, eIndex = LastIncludeLogIndex sn,
                               eCommand = None, eStart = 0\<rparr>],
                      commitIndex := max (commitIndex rf1) (LastIncludeLogIndex sn),
                      rsnapshot := snData sn\<rparr>)), reply)
          else do {
            l \<leftarrow> go_from (rlog rf1) logIndex;
            first' \<leftarrow> go_nth l 0;
            Some (signal (persist
                 (rf1\<lparr>rlog := l, rsnapshot := snData sn, leader := isLeaderId args,
                      commitIndex := max (commitIndex rf1) (eIndex first')\<rparr>)), reply) } } })"

text \<open>
  The goroutine \<open>reqeustInstallSnapshot\<close>: its first critical section builds the arguments from
  the state it finds when it gets the lock, the second one handles the reply.
\<close>

definition requestInstallSnapshot_args :: "('c, 'b) Raft \<Rightarrow> 'b InstallSnapshotArgs option" where
  "requestInstallSnapshot_args rf = do {
     first \<leftarrow> go_nth (rlog rf) 0;
     Some \<lparr>isTerm = currentTerm rf, isLeaderId = me rf,
           isSnapshot = \<lparr>LastIncludeLogIndex = eIndex first, LastIncludeLogTerm = eTerm first,
                         snData = rsnapshot rf\<rparr>\<rparr> }"

definition InstallSnapshot_done ::
  "int \<Rightarrow> nat \<Rightarrow> 'b InstallSnapshotArgs \<Rightarrow> InstallSnapshotReply \<Rightarrow> ('c, 'b) Raft \<Rightarrow>
     (('c, 'b) Raft \<times> 'c spawn list) option" where
  "InstallSnapshot_done now server args reply rf =
     (if isTerm args \<noteq> currentTerm rf \<or> rstate rf \<noteq> Leader then Some (rf, [])
      else if irTerm reply > currentTerm rf
      then Some (checkAndMaySetTermAndState (irTerm reply) rf, [])
      else if irSuccess reply
      then do {
        next \<leftarrow> go_nth (nextIndex rf) (int server);
        m \<leftarrow> go_nth (matchIndex rf) (int server);
        let last = LastIncludeLogIndex (isSnapshot args);
        ni \<leftarrow> go_set (nextIndex rf) (int server) (max next (last + 1));
        mi \<leftarrow> go_set (matchIndex rf) (int server) (max m last);
        sendHeatbeat now True (rf\<lparr>nextIndex := ni, matchIndex := mi\<rparr>) }
      else Some (rf, []))"

section \<open>The applier\<close>

text \<open>
  The loop body of \<open>applyLog\<close> after the possible wait: the batch of messages, the snapshot
  first when the applier is behind it.  The loop over the entries runs from position \<open>i\<close> for
  \<open>n\<close> entries.
\<close>

fun apply_loop :: "'c LogEntry list \<Rightarrow> int \<Rightarrow> nat \<Rightarrow> ('c, 'b) ApplyMsg list option" where
  "apply_loop l i 0 = Some []"
| "apply_loop l i (Suc n) = do {
     e \<leftarrow> go_nth l i;
     msgs \<leftarrow> apply_loop l (i + 1) n;
     Some (CommandMsg (eCommand e) (eIndex e) # msgs) }"

definition applyLog_batch :: "('c, 'b) Raft \<Rightarrow> (('c, 'b) Raft \<times> ('c, 'b) ApplyMsg list) option" where
  "applyLog_batch rf = do {
     first \<leftarrow> go_nth (rlog rf) 0;
     let (rf1, msgs1) =
       (case rsnapshot rf of
          Some data \<Rightarrow>
            (if lastApplied rf < eIndex first
             then (rf\<lparr>lastApplied := eIndex first\<rparr>, [SnapshotMsg data (eTerm first) (eIndex first)])
             else (rf, []))
        | None \<Rightarrow> (rf, []));
     let logStartIndex = lastApplied rf1 - eIndex first;
     let logEndIndex = commitIndex rf1 - eIndex first;
     msgs2 \<leftarrow> apply_loop (rlog rf1) (logStartIndex + 1) (nat (logEndIndex - logStartIndex));
     Some (rf1\<lparr>lastApplied := commitIndex rf1\<rparr>, msgs1 @ msgs2) }"

text \<open>One step of the goroutine: the test, the batch, or one send on \<open>applyCh\<close>.\<close>

definition applyLog :: "('c, 'b) Raft \<Rightarrow> (('c, 'b) Raft \<times> ('c, 'b) ApplyMsg list) option" where
  "applyLog rf =
     (case applier rf of
        Checking \<Rightarrow> do {
          first \<leftarrow> go_nth (rlog rf) 0;
          if lastApplied rf \<ge> commitIndex rf \<and> lastApplied rf \<ge> eIndex first
          then Some (rf\<lparr>applier := Waiting\<rparr>, [])
          else do { (rf1, msgs) \<leftarrow> applyLog_batch rf; Some (rf1\<lparr>applier := Sending msgs\<rparr>, []) } }
      | Waiting \<Rightarrow> Some (rf, [])
      | Woken \<Rightarrow> do { (rf1, msgs) \<leftarrow> applyLog_batch rf; Some (rf1\<lparr>applier := Sending msgs\<rparr>, []) }
      | Sending [] \<Rightarrow> Some (rf\<lparr>applier := Checking\<rparr>, [])
      | Sending (m # ms) \<Rightarrow> Some (rf\<lparr>applier := Sending ms\<rparr>, [m]))"

section \<open>Make\<close>

definition Make ::
  "nat \<Rightarrow> int \<Rightarrow> ('c gobval, 'b) Persister \<Rightarrow> int \<Rightarrow> int \<Rightarrow> ('c, 'b) Raft option" where
  "Make n i ps now rnd =
     (let rf0 = resetElectTimeout rnd
            \<lparr>npeers = n, persister = ps, me = i, currentTerm = 0, votedFor = -1, rlog = [],
             commitIndex = 0, lastApplied = 0, leader = -1, rstate = Follower,
             lastRecivedTime = 0, electionTimeout = 0, nextIndex = replicate n 0,
             matchIndex = replicate n 0, lastSendAppendEntry = replicate n 0,
             rsnapshot = None, startTime = 0, applier = Checking,
             voteGrantedCount = Map.empty\<rparr>;
          rf1 = readPersist (ReadRaftState ps) rf0;
          rf2 = rf1\<lparr>rsnapshot := ReadSnapshot ps\<rparr> in
      if length (rlog rf2) = 0
      then Some (rf2\<lparr>rlog := [\<lparr>eTerm = 0, eIndex = 0, eCommand = None, eStart = 0\<rparr>],
                     startTime := now\<rparr>)
      else do {
        first \<leftarrow> go_nth (rlog rf2) 0;
        Some (rf2\<lparr>lastApplied := eIndex first, commitIndex := eIndex first, startTime := now\<rparr>) })"

end
