(* ===== verification/RaftTree.thy ===== *)
theory RaftTree
  imports RaftLog
begin

text \<open>
  The tree of all log entries.  In the whole life of a cluster an index and a term name one entry,
  and an entry is always appended behind the same predecessor; so the logs of all servers are
  paths in one tree whose nodes are pairs of index and term.  This theory has the tree and its paths;
  \<open>RaftGhost\<close> relates it to the cluster.
\<close>

section \<open>Nodes and ancestors\<close>

type_synonym node = "int \<times> int"

text \<open>A node knows the term of its predecessor, whose index is one less, and its command.\<close>

type_synonym 'c tree = "node \<rightharpoonup> int \<times> 'c option"

definition enode :: "'c LogEntry \<Rightarrow> node" where
  "enode e = (eIndex e, eTerm e)"

lemma enode_simps [simp]: "fst (enode e) = eIndex e" "snd (enode e) = eTerm e"
  by (simp_all add: enode_def)

abbreviation root :: node where
  "root \<equiv> (0, 0)"

definition nodes :: "'c tree \<Rightarrow> node set" where
  "nodes H = insert root (dom H)"

definition up :: "'c tree \<Rightarrow> node \<Rightarrow> node \<Rightarrow> bool" where
  "up H x y \<longleftrightarrow> (\<exists>c. H y = Some (snd x, c)) \<and> fst y = fst x + 1"

abbreviation anc :: "'c tree \<Rightarrow> node \<Rightarrow> node \<Rightarrow> bool" where
  "anc H \<equiv> (up H)\<^sup>*\<^sup>*"

definition tree_ok :: "'c tree \<Rightarrow> bool" where
  "tree_ok H \<longleftrightarrow> (\<forall>y T c. H y = Some (T, c) \<longrightarrow> 1 \<le> fst y \<and> T \<le> snd y \<and> (fst y - 1, T) \<in> nodes H)"

lemma tree_okD:
  assumes "tree_ok H" and "H y = Some (T, c)"
  shows "1 \<le> fst y" "T \<le> snd y" "(fst y - 1, T) \<in> nodes H"
  using assms unfolding tree_ok_def by blast+

lemma root_node [simp]: "root \<in> nodes H"
  by (simp add: nodes_def)

lemma dom_node: "y \<in> dom H \<Longrightarrow> y \<in> nodes H"
  by (simp add: nodes_def)

lemma tree_dom: "tree_ok H \<Longrightarrow> y \<in> dom H \<Longrightarrow> 1 \<le> fst y"
  by (auto dest: tree_okD(1) simp: dom_def)

lemma node_dom: "y \<in> nodes H \<Longrightarrow> 1 \<le> fst y \<Longrightarrow> y \<in> dom H"
  by (auto simp: nodes_def)

lemma node_index: "tree_ok H \<Longrightarrow> y \<in> nodes H \<Longrightarrow> 0 \<le> fst y"
  using tree_dom[of H y] by (fastforce simp: nodes_def)

lemma anc_index: "anc H x y \<Longrightarrow> fst x \<le> fst y"
  by (induction rule: rtranclp_induct) (auto simp: up_def)

lemma anc_same: "anc H x y \<Longrightarrow> fst y \<le> fst x \<Longrightarrow> x = y"
  by (induction rule: rtranclp_induct) (use anc_index in \<open>fastforce simp: up_def\<close>)+

lemma up_node: "tree_ok H \<Longrightarrow> up H x y \<Longrightarrow> x \<in> nodes H"
  using tree_okD(3)[of H y "snd x"] by (auto simp: up_def)

lemma anc_node: "anc H x y \<Longrightarrow> tree_ok H \<Longrightarrow> y \<in> nodes H \<Longrightarrow> x \<in> nodes H"
  by (erule converse_rtranclpE) (auto dest: up_node)

lemma anc_term: "anc H x y \<Longrightarrow> tree_ok H \<Longrightarrow> snd x \<le> snd y"
proof (induction rule: rtranclp_induct)
  case (step y z)
  then have "snd y \<le> snd z" using tree_okD(2)[of H z] by (auto simp: up_def)
  with step show ?case by simp
qed simp

lemma up_unique: "up H x z \<Longrightarrow> up H y z \<Longrightarrow> x = y"
  by (auto simp: up_def prod_eq_iff)

lemma anc_linear:
  assumes "anc H x z" and "anc H y z" and "fst x \<le> fst y"
  shows "anc H x y"
  using assms
proof (induction rule: rtranclp_induct)
  case base
  with anc_same[of H y x] show ?case by auto
next
  case (step y' z)
  from step.prems(1) show ?case
  proof (cases rule: rtranclp.cases)
    case rtrancl_refl
    with step.hyps show ?thesis by (metis rtranclp.rtrancl_into_rtrancl)
  next
    case (rtrancl_into_rtrancl w)
    with up_unique[OF step.hyps(2)] have "w = y'" by blast
    with step.IH rtrancl_into_rtrancl step.prems(2) show ?thesis by blast
  qed
qed

text \<open>Two nodes below a common node lie on one path.\<close>

lemma anc_comparable: "anc H x z \<Longrightarrow> anc H y z \<Longrightarrow> anc H x y \<or> anc H y x"
  using anc_linear by (cases "fst x \<le> fst y") (blast, meson linear)

lemma anc_unique: "anc H x z \<Longrightarrow> anc H y z \<Longrightarrow> fst x = fst y \<Longrightarrow> x = y"
  using anc_linear anc_same by (metis order_refl)

lemma anc_root:
  assumes "tree_ok H" and "y \<in> nodes H"
  shows "anc H root y"
  using assms(2)
proof (induction "nat (fst y)" arbitrary: y rule: less_induct)
  case less
  show ?case
  proof (cases "y = root")
    case False
    with less.prems obtain T c where y: "H y = Some (T, c)" by (auto simp: nodes_def)
    note p = tree_okD[OF assms(1) y]
    with less.hyps[of "(fst y - 1, T)"] have "anc H root (fst y - 1, T)" by simp
    moreover have "up H (fst y - 1, T) y" using y by (simp add: up_def)
    ultimately show ?thesis by (rule rtranclp.rtrancl_into_rtrancl)
  qed simp
qed

section \<open>Growing the tree\<close>

lemma map_leD: "H \<subseteq>\<^sub>m H' \<Longrightarrow> H y = Some z \<Longrightarrow> H' y = Some z"
  by (metis domI map_le_def)

lemma up_mono: "H \<subseteq>\<^sub>m H' \<Longrightarrow> up H x y \<Longrightarrow> up H' x y"
  by (auto simp: up_def dest: map_leD)

lemma anc_mono: "H \<subseteq>\<^sub>m H' \<Longrightarrow> anc H x y \<Longrightarrow> anc H' x y"
  by (erule rtranclp_mono[THEN predicate2D, rotated]) (auto intro: up_mono)

lemma nodes_mono: "H \<subseteq>\<^sub>m H' \<Longrightarrow> x \<in> nodes H \<Longrightarrow> x \<in> nodes H'"
  using map_le_implies_dom_le[of H H'] by (auto simp: nodes_def)

lemma anc_back:
  assumes "H \<subseteq>\<^sub>m H'" and "tree_ok H" and "tree_ok H'"
  shows "anc H' x y \<Longrightarrow> y \<in> nodes H \<Longrightarrow> anc H x y"
proof (induction rule: rtranclp_induct)
  case (step y z)
  have "z \<in> dom H'" using step.hyps(2) by (auto simp: up_def)
  with tree_dom[OF assms(3)] have "1 \<le> fst z" by blast
  with step.prems have "z \<in> dom H" by (rule node_dom)
  with assms(1) have "H' z = H z" by (simp add: map_le_def)
  with step.hyps(2) have u: "up H y z" by (simp add: up_def)
  with step.IH up_node[OF assms(2)] show ?case by (meson rtranclp.rtrancl_into_rtrancl)
qed simp

lemma anc_stable:
  "H \<subseteq>\<^sub>m H' \<Longrightarrow> tree_ok H \<Longrightarrow> tree_ok H' \<Longrightarrow> y \<in> nodes H \<Longrightarrow> anc H' x y \<longleftrightarrow> anc H x y"
  using anc_back anc_mono by blast

text \<open>A leader appends: a new node behind an old one.\<close>

definition grow :: "'c tree \<Rightarrow> node \<Rightarrow> int \<Rightarrow> 'c option \<Rightarrow> 'c tree" where
  "grow H x T c = H((fst x + 1, T) \<mapsto> (snd x, c))"

lemma grow_ok:
  assumes "tree_ok H" and "x \<in> nodes H" and "snd x \<le> T" and "(fst x + 1, T) \<notin> dom H"
  shows "tree_ok (grow H x T c)" and "H \<subseteq>\<^sub>m grow H x T c" and "up (grow H x T c) x (fst x + 1, T)"
proof -
  have "nodes (grow H x T c) = insert (fst x + 1, T) (nodes H)"
    by (auto simp: nodes_def grow_def)
  then show "tree_ok (grow H x T c)"
    using assms node_index[OF assms(1,2)] unfolding tree_ok_def by (auto simp: grow_def)
  show "H \<subseteq>\<^sub>m grow H x T c" using assms(4) by (auto simp: grow_def map_le_def)
  show "up (grow H x T c) x (fst x + 1, T)" by (simp add: up_def grow_def)
qed

lemma grow_dom [simp]: "dom (grow H x T c) = insert (fst x + 1, T) (dom H)"
  by (simp add: grow_def)

section \<open>Logs are paths\<close>

fun chain :: "'c tree \<Rightarrow> node \<Rightarrow> 'c LogEntry list \<Rightarrow> bool" where
  "chain H x [] \<longleftrightarrow> True"
| "chain H x (e # es) \<longleftrightarrow> eIndex e = fst x + 1 \<and> H (enode e) = Some (snd x, eCommand e) \<and> chain H (enode e) es"

definition endn :: "node \<Rightarrow> 'c LogEntry list \<Rightarrow> node" where
  "endn x es = (if es = [] then x else enode (last es))"

lemma endn_simps [simp]: "endn x [] = x" "endn x (e # es) = endn (enode e) es"
  by (simp_all add: endn_def)

lemma endn_append [simp]: "endn x (es @ fs) = endn (endn x es) fs"
  by (induction es arbitrary: x) auto

lemma chain_append [simp]: "chain H x (es @ fs) \<longleftrightarrow> chain H x es \<and> chain H (endn x es) fs"
  by (induction es arbitrary: x) auto

lemma chain_mono: "H \<subseteq>\<^sub>m H' \<Longrightarrow> chain H x es \<Longrightarrow> chain H' x es"
  by (induction es arbitrary: x) (auto dest: map_leD)

lemma chain_consec: "chain H x es \<Longrightarrow> consec (fst x + 1) es"
  by (induction es arbitrary: x) fastforce+

lemma chain_anc: "chain H x es \<Longrightarrow> anc H x (endn x es)"
proof (induction es arbitrary: x)
  case (Cons e es)
  then have "up H x (enode e)" by (auto simp: up_def)
  moreover have "anc H (enode e) (endn (enode e) es)" using Cons by simp
  ultimately show ?case by (simp add: converse_rtranclp_into_rtranclp)
qed simp

lemma chain_end_index: "chain H x es \<Longrightarrow> fst (endn x es) = fst x + int (length es)"
  by (induction es arbitrary: x) auto

lemma chain_end_node: "chain H x es \<Longrightarrow> x \<in> nodes H \<Longrightarrow> endn x es \<in> nodes H"
proof (induction es arbitrary: x)
  case (Cons e es)
  then have "enode e \<in> nodes H" by (auto simp: nodes_def)
  with Cons show ?case by simp
qed simp

lemma chain_take_drop: "chain H x es \<longleftrightarrow> chain H x (take k es) \<and> chain H (endn x (take k es)) (drop k es)"
  by (metis append_take_drop_id chain_append)

lemma endn_take: "k < length es \<Longrightarrow> endn x (take (Suc k) es) = enode (es ! k)"
  by (simp add: endn_def take_Suc_conv_app_nth)

text \<open>The nodes of a chain are the ancestors of its end from its start on.\<close>

lemma chain_at:
  assumes "chain H x es" and "anc H y (endn x es)" and "fst x \<le> fst y"
  shows "y = endn x (take (nat (fst y - fst x)) es)"
proof -
  let ?k = "nat (fst y - fst x)"
  from assms(1) have c: "chain H x (take ?k es)" "chain H (endn x (take ?k es)) (drop ?k es)"
    using chain_take_drop[of H x es ?k] by auto
  have "endn (endn x (take ?k es)) (drop ?k es) = endn x es" by (metis append_take_drop_id endn_append)
  with chain_anc[OF c(2)] have a: "anc H (endn x (take ?k es)) (endn x es)" by simp
  have "fst y \<le> fst x + int (length es)" using anc_index[OF assms(2)] chain_end_index[OF assms(1)] by simp
  then have "fst (endn x (take ?k es)) = fst y" using chain_end_index[OF c(1)] assms(3) by simp
  with anc_unique[OF assms(2) a] show ?thesis by simp
qed

lemma chain_nth:
  assumes "chain H x es" and "k < length es"
  shows "anc H (enode (es ! k)) (endn x es)" and "enode (es ! k) \<in> dom H"
    and "\<exists>T. H (enode (es ! k)) = Some (T, eCommand (es ! k))"
proof -
  from assms(1) have "chain H (endn x (take (Suc k) es)) (drop (Suc k) es)"
    using chain_take_drop[of H x es "Suc k"] by auto
  from chain_anc[OF this] show "anc H (enode (es ! k)) (endn x es)"
    using assms(2) by (metis append_take_drop_id endn_append endn_take)
  from assms(1) have "chain H (endn x (take k es)) (drop k es)"
    using chain_take_drop[of H x es k] by auto
  with assms(2) show "\<exists>T. H (enode (es ! k)) = Some (T, eCommand (es ! k))"
    by (auto simp: Cons_nth_drop_Suc[symmetric])
  then show "enode (es ! k) \<in> dom H" by auto
qed

text \<open>
  A log: the first entry stands for the end of the snapshot and may have lost its command; the
  others form a chain behind it.
\<close>

definition first_ok :: "'c tree \<Rightarrow> 'c LogEntry \<Rightarrow> bool" where
  "first_ok H e \<longleftrightarrow> enode e \<in> nodes H \<and>
     (\<forall>c. eCommand e = Some c \<longrightarrow> (\<exists>T. H (enode e) = Some (T, Some c)))"

definition log_path :: "'c tree \<Rightarrow> 'c LogEntry list \<Rightarrow> bool" where
  "log_path H l \<longleftrightarrow> l \<noteq> [] \<and> first_ok H (hd l) \<and> chain H (enode (hd l)) (tl l)"

definition tip :: "'c LogEntry list \<Rightarrow> node" where
  "tip l = enode (last l)"

lemma tip_simps [simp]: "fst (tip l) = lastIndex l" "snd (tip l) = eTerm (last l)"
  by (simp_all add: tip_def)

lemma tip_endn: "l \<noteq> [] \<Longrightarrow> tip l = endn (enode (hd l)) (tl l)"
  by (cases l) (auto simp: tip_def endn_def)

lemma first_ok_mono: "H \<subseteq>\<^sub>m H' \<Longrightarrow> first_ok H e \<Longrightarrow> first_ok H' e"
  unfolding first_ok_def using nodes_mono map_leD by metis

lemma log_path_mono: "H \<subseteq>\<^sub>m H' \<Longrightarrow> log_path H l \<Longrightarrow> log_path H' l"
  by (auto simp: log_path_def intro: first_ok_mono chain_mono)

lemma log_path_wf: "log_path H l \<Longrightarrow> wf_log l"
  using chain_consec[of H "enode (hd l)" "tl l"] by (cases l) (auto simp: log_path_def wf_log_def add.commute)

lemma log_path_tip: "log_path H l \<Longrightarrow> tip l \<in> nodes H"
  by (auto simp: log_path_def tip_endn first_ok_def intro: chain_end_node)

lemma log_path_anc:
  assumes "log_path H l" and "k < length l"
  shows "anc H (enode (l ! k)) (tip l)"
proof (cases k)
  case 0
  with assms chain_anc[of H "enode (hd l)" "tl l"] show ?thesis
    by (auto simp: log_path_def tip_endn hd_conv_nth[symmetric])
next
  case (Suc j)
  with assms have "tl l ! j = l ! k" "j < length (tl l)" by (auto simp: nth_tl)
  with chain_nth(1)[of H "enode (hd l)" "tl l" j] assms(1) show ?thesis
    by (auto simp: log_path_def tip_endn)
qed

lemma log_path_cmd:
  assumes "log_path H l" and "0 < k" and "k < length l"
  shows "\<exists>T. H (enode (l ! k)) = Some (T, eCommand (l ! k))"
proof -
  from assms have "tl l ! (k - 1) = l ! k" "k - 1 < length (tl l)" by (auto simp: nth_tl)
  with chain_nth(3)[of H "enode (hd l)" "tl l" "k - 1"] assms(1) show ?thesis by (auto simp: log_path_def)
qed

text \<open>The entry of a log at the index of an ancestor of its tip is that ancestor.\<close>

lemma log_path_at:
  assumes "log_path H l" and "anc H y (tip l)" and "firstIndex l \<le> fst y"
  shows "nat (fst y - firstIndex l) < length l" and "enode (l ! nat (fst y - firstIndex l)) = y"
proof -
  note wf = log_path_wf[OF assms(1)]
  let ?k = "nat (fst y - firstIndex l)"
  have "fst y \<le> lastIndex l" using anc_index[OF assms(2)] by simp
  with wf_log_last[OF wf] assms(3) show k: "?k < length l" using wf_log_nonempty[OF wf] by (simp add: nat_less_iff)
  have "anc H (enode (l ! ?k)) (tip l)" by (rule log_path_anc[OF assms(1) k])
  moreover have "fst (enode (l ! ?k)) = fst y" using wf_log_nth[OF wf k] assms(3) by simp
  ultimately show "enode (l ! ?k) = y" using anc_unique assms(2) by blast
qed

lemma log_path_snoc:
  assumes "log_path H l" and "chain H (tip l) es"
  shows "log_path H (l @ es)" and "tip (l @ es) = endn (tip l) es"
proof -
  from assms show "log_path H (l @ es)" by (auto simp: log_path_def tip_endn)
  from assms show "tip (l @ es) = endn (tip l) es" by (auto simp: tip_def endn_def)
qed

lemma log_path_take:
  assumes "log_path H l" and "0 < k" and "k \<le> length l"
  shows "log_path H (take k l)" and "tip (take k l) = enode (l ! (k - 1))"
proof -
  from assms obtain e es j where l: "l = e # es" "k = Suc j" by (cases l; cases k) (auto simp: log_path_def)
  with assms(1) chain_take_drop[of H "enode e" es j] show "log_path H (take k l)" by (auto simp: log_path_def)
  show "tip (take k l) = enode (l ! (k - 1))"
    using assms(2,3) wf_log_nonempty[OF log_path_wf[OF assms(1)]] by (auto simp: tip_def last_conv_nth min_def)
qed

lemma log_path_drop:
  assumes "log_path H l" and "k < length l"
  shows "log_path H (drop k l)" and "tip (drop k l) = tip l"
proof -
  show "tip (drop k l) = tip l" using assms(2) by (simp add: tip_def)
  show "log_path H (drop k l)"
  proof (cases k)
    case 0
    with assms show ?thesis by simp
  next
    case (Suc j)
    from assms(1) obtain e es where l: "l = e # es" by (cases l) (auto simp: log_path_def)
    with assms Suc have j: "j < length es" by simp
    from assms(1) l have c: "chain H (enode e) es" by (simp add: log_path_def)
    then have "chain H (enode (es ! j)) (drop (Suc j) es)"
      using chain_take_drop[of H "enode e" es "Suc j"] endn_take[OF j] by metis
    moreover have "first_ok H (es ! j)" using chain_nth[OF c j] by (auto simp: first_ok_def nodes_def)
    moreover have "drop k l = es ! j # drop (Suc j) es" using l Suc j by (simp add: Cons_nth_drop_Suc)
    ultimately show ?thesis by (simp add: log_path_def)
  qed
qed

end
