(* ===== verification/RaftFacts.thy ===== *)
theory RaftFacts
  imports RaftLog
begin

text \<open>
  Facts about the operations of one Raft peer: what each of them leaves unchanged, that
  everything it changes of the persistent state is on stable storage when it returns, and how
  it may change the term, the vote and the role.
\<close>

section \<open>Stable storage\<close>

definition boot_entry :: "'c LogEntry" where
  "boot_entry = \<lparr>eTerm = 0, eIndex = 0, eCommand = None, eStart = 0\<rparr>"

text \<open>What a restart finds: term, vote and log as \<open>readPersist\<close> and \<open>Make\<close> rebuild them.\<close>

definition recovered :: "('c gobval, 'b) Persister \<Rightarrow> int \<times> int \<times> 'c LogEntry list" where
  "recovered ps =
     (case decode_state (the (ReadRaftState ps)) of
        None \<Rightarrow> (0, -1, [boot_entry])
      | Some (t, v, l) \<Rightarrow> (t, v, if l = [] then [boot_entry] else l))"

definition durable :: "('c, 'b) Raft \<Rightarrow> bool" where
  "durable rf \<longleftrightarrow> recovered (persister rf) = (currentTerm rf, votedFor rf, rlog rf) \<and>
                  ReadSnapshot (persister rf) = clone (rsnapshot rf)"

lemma persist_eq:
  "persist rf = rf\<lparr>persister := Save (Some (encode_state rf)) (rsnapshot rf) (persister rf)\<rparr>"
  by (cases "rsnapshot rf") (simp_all add: persist_def Let_def)

lemma persist_frame [simp]:
  "npeers (persist rf) = npeers rf" "me (persist rf) = me rf"
  "currentTerm (persist rf) = currentTerm rf" "votedFor (persist rf) = votedFor rf"
  "rlog (persist rf) = rlog rf" "commitIndex (persist rf) = commitIndex rf"
  "lastApplied (persist rf) = lastApplied rf" "leader (persist rf) = leader rf"
  "rstate (persist rf) = rstate rf" "rsnapshot (persist rf) = rsnapshot rf"
  "nextIndex (persist rf) = nextIndex rf" "matchIndex (persist rf) = matchIndex rf"
  "lastSendAppendEntry (persist rf) = lastSendAppendEntry rf"
  "lastRecivedTime (persist rf) = lastRecivedTime rf"
  "electionTimeout (persist rf) = electionTimeout rf"
  "applier (persist rf) = applier rf" "voteGrantedCount (persist rf) = voteGrantedCount rf"
  by (simp_all add: persist_eq)

lemma decode_encode_state:
  "decode_state (encode_state rf) = Some (currentTerm rf, votedFor rf, rlog rf)"
  by (simp add: decode_state_def encode_state_def Encode_def)

lemma durable_persist [simp]: "rlog rf \<noteq> [] \<Longrightarrow> durable (persist rf)"
  by (simp add: durable_def persist_eq recovered_def decode_encode_state)

lemma decode_state_Nil [simp]: "decode_state [] = None"
  by (simp add: decode_state_def)

lemma ReadRaftState_Some: "ReadRaftState ps = Some (the (ReadRaftState ps))"
  by (simp add: ReadRaftState_def)

text \<open>
  \<open>Make\<close> always succeeds, restores the term, the vote, the log and the snapshot of the
  persister, and is a follower whose own persistent state is on storage.
\<close>

lemma Make_Some:
  obtains rf where "Make n i ps now rnd = Some rf"
    and "(currentTerm rf, votedFor rf, rlog rf) = recovered ps"
    and "rsnapshot rf = ReadSnapshot ps" and "persister rf = ps"
    and "me rf = i" and "npeers rf = n" and "rstate rf = Follower"
    and "voteGrantedCount rf = Map.empty" and "applier rf = Checking"
    and "commitIndex rf = eIndex (hd (rlog rf))" and "lastApplied rf = eIndex (hd (rlog rf))"
    and "nextIndex rf = replicate n 0" and "matchIndex rf = replicate n 0"
    and "lastSendAppendEntry rf = replicate n 0"
proof -
  obtain d where d: "ReadRaftState ps = Some d" using ReadRaftState_Some by blast
  show thesis
  proof (cases "decode_state d")
    case None
    then show ?thesis
      by (intro that[of "the (Make n i ps now rnd)"])
        (auto simp: Make_def Let_def readPersist_def d resetElectTimeout_def recovered_def
          boot_entry_def)
  next
    case (Some x)
    then obtain t v l where x: "decode_state d = Some (t, v, l)" by (cases x) auto
    then have "d \<noteq> []" by auto
    then show ?thesis
      by (intro that[of "the (Make n i ps now rnd)"])
        (auto simp: Make_def Let_def readPersist_def d x resetElectTimeout_def recovered_def
          boot_entry_def go_nth_hd Suc_le_eq split: if_splits)
  qed
qed

lemma recovered_log_nonempty: "recovered ps = (t, v, l) \<Longrightarrow> l \<noteq> []"
  by (auto simp: recovered_def split: option.splits prod.splits if_splits)

lemma durable_log_nonempty: "durable rf \<Longrightarrow> rlog rf \<noteq> []"
  by (auto simp: durable_def dest: recovered_log_nonempty)

section \<open>Frames\<close>

lemma signal_eq: "signal rf = rf\<lparr>applier := (if applier rf = Waiting then Woken else applier rf)\<rparr>"
  by (simp add: signal_def)

lemma signal_frame [simp]:
  "npeers (signal rf) = npeers rf" "me (signal rf) = me rf" "persister (signal rf) = persister rf"
  "currentTerm (signal rf) = currentTerm rf" "votedFor (signal rf) = votedFor rf"
  "rlog (signal rf) = rlog rf" "commitIndex (signal rf) = commitIndex rf"
  "lastApplied (signal rf) = lastApplied rf" "rstate (signal rf) = rstate rf"
  "rsnapshot (signal rf) = rsnapshot rf" "nextIndex (signal rf) = nextIndex rf"
  "matchIndex (signal rf) = matchIndex rf" "voteGrantedCount (signal rf) = voteGrantedCount rf"
  "lastSendAppendEntry (signal rf) = lastSendAppendEntry rf"
  "applier (signal rf) \<noteq> Waiting"
  by (simp_all add: signal_def)

lemma durable_signal [simp]: "durable (signal rf) = durable rf"
  by (simp add: durable_def)

text \<open>
  The goroutines that a replication handler starts: never a vote request, only to other
  servers, and every AppendEntry call carries the sender's term and name.
\<close>

definition calm_spawns :: "int \<Rightarrow> int \<Rightarrow> nat \<Rightarrow> 'c spawn list \<Rightarrow> bool" where
  "calm_spawns i t n sp \<longleftrightarrow>
     (\<forall>g \<in> set sp. case g of
        GoRequestVote p a \<Rightarrow> False
      | GoAppendEntry p a \<Rightarrow> p < n \<and> int p \<noteq> i \<and> aeTerm a = t \<and> aeLeaderId a = i
      | GoInstallSnapshot p \<Rightarrow> p < n \<and> int p \<noteq> i)"

lemma calm_spawns_Nil [simp]: "calm_spawns i t n []"
  by (simp add: calm_spawns_def)

lemma calm_spawns_append [simp]:
  "calm_spawns i t n (xs @ ys) \<longleftrightarrow> calm_spawns i t n xs \<and> calm_spawns i t n ys"
  by (auto simp: calm_spawns_def)

text \<open>A frame is stated as an equation with the fields that may change blanked out.\<close>

lemma sendHeatbeat_peer_facts:
  assumes "sendHeatbeat_peer now force p rf = Some (rf', sp)"
  shows "rf'\<lparr>lastSendAppendEntry := []\<rparr> = rf\<lparr>lastSendAppendEntry := []\<rparr>"
    and "length (lastSendAppendEntry rf') = length (lastSendAppendEntry rf)"
    and "p < n \<Longrightarrow> calm_spawns (me rf) (currentTerm rf) n sp"
  using assms unfolding sendHeatbeat_peer_def Let_def
  by (auto elim!: bindE simp: go_set_Some_iff calm_spawns_def split: if_split_asm)

lemma blank_sends:
  assumes "rf'\<lparr>lastSendAppendEntry := []\<rparr> = rf\<lparr>lastSendAppendEntry := []\<rparr>"
  shows "rf' = rf\<lparr>lastSendAppendEntry := lastSendAppendEntry rf'\<rparr>"
  using arg_cong[OF assms, of "\<lambda>r. r\<lparr>lastSendAppendEntry := lastSendAppendEntry rf'\<rparr>"] by simp

lemma sendHeatbeat_peer_frame:
  assumes "sendHeatbeat_peer now force p rf = Some (rf', sp)" and "p < n"
  obtains ls where "rf' = rf\<lparr>lastSendAppendEntry := ls\<rparr>" "length ls = length (lastSendAppendEntry rf)"
    and "calm_spawns (me rf) (currentTerm rf) n sp"
  using that blank_sends sendHeatbeat_peer_facts[OF assms(1)] assms(2) by metis

lemma sendHeatbeat_loop_frame:
  assumes "sendHeatbeat_loop now force ps rf = Some (rf', sp)" and "\<forall>p \<in> set ps. p < n"
  obtains ls where "rf' = rf\<lparr>lastSendAppendEntry := ls\<rparr>" "length ls = length (lastSendAppendEntry rf)"
    and "calm_spawns (me rf) (currentTerm rf) n sp"
  using assms
proof (induction ps arbitrary: rf sp thesis)
  case Nil
  from Nil.prems(2) show ?case by (intro Nil(1)[of "lastSendAppendEntry rf"]) simp_all
next
  case (Cons p ps)
  from Cons.prems(2) obtain rf1 s1 s2 where 1: "sendHeatbeat_peer now force p rf = Some (rf1, s1)"
    and 2: "sendHeatbeat_loop now force ps rf1 = Some (rf', s2)" and sp: "sp = s1 @ s2"
    by (auto elim!: bindE)
  from Cons.prems(3) have "p < n" and ps: "\<forall>p \<in> set ps. p < n" by auto
  from sendHeatbeat_peer_frame[OF 1 this(1)] obtain ls where
    ls: "rf1 = rf\<lparr>lastSendAppendEntry := ls\<rparr>" "length ls = length (lastSendAppendEntry rf)"
    and s1: "calm_spawns (me rf) (currentTerm rf) n s1" .
  from Cons.IH[OF _ 2 ps] obtain ls' where "rf' = rf1\<lparr>lastSendAppendEntry := ls'\<rparr>"
    "length ls' = length (lastSendAppendEntry rf1)" "calm_spawns (me rf1) (currentTerm rf1) n s2"
    by blast
  with ls s1 sp show ?case by (intro Cons.prems(1)[of ls']) simp_all
qed

lemma sendHeatbeat_frame:
  assumes "sendHeatbeat now force rf = Some (rf', sp)"
  obtains ls where "rf' = rf\<lparr>lastSendAppendEntry := ls\<rparr>" "length ls = length (lastSendAppendEntry rf)"
    and "calm_spawns (me rf) (currentTerm rf) (npeers rf) sp"
proof (rule sendHeatbeat_loop_frame[OF assms[unfolded sendHeatbeat_def]])
  show "\<forall>p \<in> set [0..<npeers rf]. p < npeers rf" by simp
qed (rule that)

text \<open>The arrays after the loop of \<open>becomeLeaderWithLocked\<close>.\<close>

definition leader_arrays :: "int \<Rightarrow> int \<Rightarrow> nat list \<Rightarrow> int list \<Rightarrow> int list \<Rightarrow> int list \<Rightarrow> int list \<Rightarrow> bool" where
  "leader_arrays i l ps ni mi ni' mi' \<longleftrightarrow>
     length ni' = length ni \<and> length mi' = length mi \<and>
     (\<forall>k < length ni. ni' ! k = (if k \<in> set ps \<and> int k \<noteq> i then l + 1 else ni ! k)) \<and>
     (\<forall>k < length mi. mi' ! k = (if k \<in> set ps \<and> int k \<noteq> i then 0 else mi ! k))"

lemma becomeLeader_loop_frame:
  assumes "becomeLeader_loop now l ps rf = Some rf'"
  obtains ni mi ls where
    "rf' = rf\<lparr>nextIndex := ni, matchIndex := mi, lastSendAppendEntry := ls\<rparr>"
    "leader_arrays (me rf) l ps (nextIndex rf) (matchIndex rf) ni mi"
    "length ls = length (lastSendAppendEntry rf)"
  using assms
proof (induction ps arbitrary: rf thesis)
  case Nil
  from Nil.prems(2) show ?case
    by (intro Nil(1)[of "lastSendAppendEntry rf" "matchIndex rf" "nextIndex rf"])
      (simp_all add: leader_arrays_def)
next
  case (Cons p ps)
  show ?case
  proof (cases "int p = me rf")
    case True
    with Cons.prems(2) have "becomeLeader_loop now l ps rf = Some rf'" by simp
    from Cons.IH[OF _ this] obtain ni mi ls where
      "rf' = rf\<lparr>nextIndex := ni, matchIndex := mi, lastSendAppendEntry := ls\<rparr>"
      "leader_arrays (me rf) l ps (nextIndex rf) (matchIndex rf) ni mi"
      "length ls = length (lastSendAppendEntry rf)" by blast
    with True show ?thesis by (intro Cons.prems(1)[of ls mi ni]) (auto simp: leader_arrays_def)
  next
    case False
    define ni1 mi1 ls1 where "ni1 = (nextIndex rf)[p := l + 1]" and "mi1 = (matchIndex rf)[p := 0]"
      and "ls1 = (lastSendAppendEntry rf)[p := now - 24 * 3600 * 1000000000]"
    let ?rf = "rf\<lparr>nextIndex := ni1, matchIndex := mi1, lastSendAppendEntry := ls1\<rparr>"
    from False Cons.prems(2) have b: "p < length (nextIndex rf)" "p < length (matchIndex rf)"
      and "becomeLeader_loop now l ps ?rf = Some rf'"
      by (auto elim!: bindE simp: go_simps ni1_def mi1_def ls1_def)
    from Cons.IH[OF _ this(3)] obtain ni mi ls where
      1: "rf' = ?rf\<lparr>nextIndex := ni, matchIndex := mi, lastSendAppendEntry := ls\<rparr>"
      and 2: "leader_arrays (me ?rf) l ps (nextIndex ?rf) (matchIndex ?rf) ni mi"
      and 3: "length ls = length (lastSendAppendEntry ?rf)" by blast
    have "leader_arrays (me rf) l (p # ps) (nextIndex rf) (matchIndex rf) ni mi"
      using 2 b False by (auto simp: leader_arrays_def ni1_def mi1_def nth_list_update)
    with 1 3 show ?thesis by (intro Cons.prems(1)[of ls mi ni]) (simp_all add: ls1_def)
  qed
qed

lemma match_loop_bounds:
  assumes "match_loop l cur ai idx es = Some (l', ai', ct)" and "ai < idx"
  shows "(ct \<longrightarrow> ai' + 1 < idx + int (length es)) \<and> (\<not> ct \<longrightarrow> l' = l)"
  using assms
proof (induction es arbitrary: cur ai idx)
  case (Cons e es)
  show ?case
  proof (cases "match_loop l (cur + 1) idx (idx + 1) es = Some (l', ai', ct)")
    case True
    from Cons.IH[OF True] show ?thesis by auto
  next
    case False
    with Cons.prems show ?thesis by (auto elim!: bindE split: if_split_asm)
  qed
qed auto

lemma store_entries_frame:
  assumes "store_entries es p rf = Some rf'"
  shows "rf' = rf \<or> rf' = persist (rf\<lparr>rlog := rlog rf'\<rparr>) \<and> rlog rf' \<noteq> []"
proof (cases "es = []")
  case True
  with assms show ?thesis by (simp add: store_entries_def)
next
  case False
  with assms obtain l1 ai ct where m: "match_loop (rlog rf) (p + 1) (-1) 0 es = Some (l1, ai, ct)"
    and r: "(let rf1 = rf\<lparr>rlog := l1\<rparr>
             in if ai + 1 < int (length es)
                then go_from es (ai + 1) \<bind> (\<lambda>rest. Some (persist (rf1\<lparr>rlog := l1 @ rest\<rparr>)))
                else Some (if ct then persist rf1 else rf1)) = Some rf'"
    by (auto simp: store_entries_def elim!: bindE)
  show ?thesis
  proof (cases "ai + 1 < int (length es)")
    case True
    with r have "rf' = persist (rf\<lparr>rlog := l1 @ drop (nat (ai + 1)) es\<rparr>)" and "0 \<le> ai + 1"
      by (auto simp: Let_def go_from_def split: if_split_asm)
    moreover from True this(2) have "drop (nat (ai + 1)) es \<noteq> []" by auto
    ultimately show ?thesis by simp
  next
    case False
    with match_loop_bounds[OF m] have "\<not> ct" "l1 = rlog rf" by auto
    with False r show ?thesis by simp
  qed
qed

lemma store_entries_fields:
  assumes "store_entries es p rf = Some rf'"
  shows "applier rf' = applier rf" "lastApplied rf' = lastApplied rf"
    "commitIndex rf' = commitIndex rf" "currentTerm rf' = currentTerm rf" "rsnapshot rf' = rsnapshot rf"
proof -
  have *: "f rf' = f rf" if "\<And>l. f (persist (rf\<lparr>rlog := l\<rparr>)) = f rf" for f :: "('a, 'b) Raft \<Rightarrow> 'z"
    using store_entries_frame[OF assms] that[of "rlog rf'"] by (elim disjE conjE) (simp, metis)
  show "applier rf' = applier rf" "lastApplied rf' = lastApplied rf"
    "commitIndex rf' = commitIndex rf" "currentTerm rf' = currentTerm rf" "rsnapshot rf' = rsnapshot rf"
    by (rule *; simp)+
qed

section \<open>Terms, votes and roles\<close>

text \<open>
  A handler is calm when it neither starts nor wins an election.  In the same term it keeps
  the vote once it is cast and can only fall back to follower; in a newer term it is a follower.
  Everything persistent that it changed is on stable storage.
\<close>

definition calm :: "('c, 'b) Raft \<Rightarrow> ('c, 'b) Raft \<Rightarrow> bool" where
  "calm rf rf' \<longleftrightarrow>
     me rf' = me rf \<and> npeers rf' = npeers rf \<and> voteGrantedCount rf' = voteGrantedCount rf \<and>
     (durable rf \<longrightarrow> durable rf') \<and>
     (if currentTerm rf' = currentTerm rf
      then (votedFor rf \<noteq> -1 \<longrightarrow> votedFor rf' = votedFor rf) \<and>
           (rstate rf' = rstate rf \<or> rstate rf' = Follower)
      else currentTerm rf < currentTerm rf' \<and> rstate rf' = Follower)"

lemma calm_refl [simp]: "calm rf rf"
  by (simp add: calm_def)

lemma calm_trans: "calm rf rf' \<Longrightarrow> calm rf' rf'' \<Longrightarrow> calm rf rf''"
  by (auto simp: calm_def split: if_splits)

text \<open>Changes of the volatile fields that no election depends on.\<close>

lemma calm_volatile [simp]:
  "calm rf (rf\<lparr>lastSendAppendEntry := x1\<rparr>)" "calm rf (rf\<lparr>nextIndex := x2\<rparr>)"
  "calm rf (rf\<lparr>matchIndex := x2\<rparr>)" "calm rf (rf\<lparr>commitIndex := x3\<rparr>)"
  "calm rf (rf\<lparr>lastApplied := x3\<rparr>)" "calm rf (rf\<lparr>leader := x3\<rparr>)"
  "calm rf (rf\<lparr>applier := x4\<rparr>)" "calm rf (rf\<lparr>lastRecivedTime := x3\<rparr>)"
  "calm rf (signal rf)"
  by (simp_all add: calm_def durable_def signal_def)

lemma calm_persist: "rlog rf \<noteq> [] \<Longrightarrow> calm rf (persist rf)"
  by (simp add: calm_def)

lemma calm_check: "rlog rf \<noteq> [] \<Longrightarrow> calm rf (checkAndMaySetTermAndState t rf)"
  by (auto simp: checkAndMaySetTermAndState_def calm_def Let_def)

lemma check_frame [simp]:
  "rlog (checkAndMaySetTermAndState t rf) = rlog rf"
  "npeers (checkAndMaySetTermAndState t rf) = npeers rf"
  "me (checkAndMaySetTermAndState t rf) = me rf"
  "commitIndex (checkAndMaySetTermAndState t rf) = commitIndex rf"
  "lastApplied (checkAndMaySetTermAndState t rf) = lastApplied rf"
  "applier (checkAndMaySetTermAndState t rf) = applier rf"
  "rsnapshot (checkAndMaySetTermAndState t rf) = rsnapshot rf"
  "nextIndex (checkAndMaySetTermAndState t rf) = nextIndex rf"
  "matchIndex (checkAndMaySetTermAndState t rf) = matchIndex rf"
  "lastSendAppendEntry (checkAndMaySetTermAndState t rf) = lastSendAppendEntry rf"
  "voteGrantedCount (checkAndMaySetTermAndState t rf) = voteGrantedCount rf"
  "currentTerm (checkAndMaySetTermAndState t rf) = max (currentTerm rf) t"
  by (auto simp: checkAndMaySetTermAndState_def Let_def)

lemma calm_sendHeatbeat:
  assumes "sendHeatbeat now force rf = Some (rf', sp)"
  shows "calm rf rf' \<and> calm_spawns (me rf) (currentTerm rf) (npeers rf) sp"
  using assms by (rule sendHeatbeat_frame) simp

lemma calm_store_entries:
  assumes "store_entries es p rf = Some rf'" and "rlog rf \<noteq> []"
  shows "calm rf rf' \<and> rlog rf' \<noteq> []"
proof (cases "rf' = rf")
  case False
  with store_entries_frame[OF assms(1)] have "rf' = persist (rf\<lparr>rlog := rlog rf'\<rparr>)" "rlog rf' \<noteq> []"
    by auto
  moreover from this(2) have "calm rf (persist (rf\<lparr>rlog := rlog rf'\<rparr>))" by (simp add: calm_def)
  ultimately show ?thesis by simp
qed (use assms in simp)

lemma calm_AppendEntry_accept:
  assumes "AppendEntry_accept args es p rf = Some (rf', reply)" and "rlog rf \<noteq> []"
  shows "calm rf rf' \<and> rlog rf' \<noteq> []"
proof -
  from assms(1) obtain rf1 where st: "store_entries es p rf = Some rf1"
    and r: "(let rf2 = rf1\<lparr>leader := aeLeaderId args\<rparr> in
             (if aeLeaderCommit args > commitIndex rf2
              then go_last (rlog rf2) \<bind>
                (\<lambda>lastLog. Some (signal (rf2\<lparr>commitIndex := min (aeLeaderCommit args) (eIndex lastLog)\<rparr>)))
              else Some rf2) \<bind>
             (\<lambda>rf3. Some (rf3, \<lparr>arTerm = currentTerm rf3, arSuccess = True, arXTerm = 0,
                               arXIndex = 0, arXLen = 0\<rparr>))) = Some (rf', reply)"
    by (auto simp: AppendEntry_accept_def elim!: bindE)
  from calm_store_entries[OF st assms(2)] have c: "calm rf rf1" and "rlog rf1 \<noteq> []" by auto
  moreover from r have "calm rf1 rf' \<and> rlog rf' = rlog rf1"
    by (auto simp: Let_def calm_def durable_def split: if_split_asm elim!: bindE)
  ultimately show ?thesis by (auto intro: calm_trans)
qed

lemma calm_follow: "calm rf (if rstate rf \<noteq> Follower then rf\<lparr>rstate := Follower\<rparr> else rf)"
  by (simp add: calm_def durable_def)

lemma AppendEntry_cases:
  assumes "AppendEntry now args rf = Some (rf', reply)"
  obtains (stale) "currentTerm rf > aeTerm args" "rf' = rf"
      "reply = \<lparr>arTerm = currentTerm rf, arSuccess = False, arXTerm = 0, arXIndex = 0, arXLen = 0\<rparr>"
  | (live) rf1 rf2 where "currentTerm rf \<le> aeTerm args"
      "rf1 = checkAndMaySetTermAndState (aeTerm args) (rf\<lparr>lastRecivedTime := now\<rparr>)"
      "rf2 = (if rstate rf1 \<noteq> Follower then rf1\<lparr>rstate := Follower\<rparr> else rf1)"
      "(rf' = rf2 \<and> \<not> arSuccess reply \<and> arTerm reply = currentTerm rf2) \<or>
       (\<exists>es p. AppendEntry_accept args es p rf2 = Some (rf', reply))"
proof (cases "currentTerm rf > aeTerm args")
  case True
  with assms show ?thesis by (intro stale) (auto simp: AppendEntry_def)
next
  case False
  define rf1 where "rf1 = checkAndMaySetTermAndState (aeTerm args) (rf\<lparr>lastRecivedTime := now\<rparr>)"
  define rf2 where "rf2 = (if rstate rf1 \<noteq> Follower then rf1\<lparr>rstate := Follower\<rparr> else rf1)"
  have "(rf' = rf2 \<and> \<not> arSuccess reply \<and> arTerm reply = currentTerm rf2) \<or>
       (\<exists>es p. AppendEntry_accept args es p rf2 = Some (rf', reply))"
    using assms False unfolding AppendEntry_def Let_def rf1_def[symmetric] rf2_def[symmetric]
    by (auto elim!: bindE split: if_split_asm)
  with False rf1_def rf2_def show ?thesis by (intro live[of rf1 rf2]) simp_all
qed

lemma calm_AppendEntry:
  assumes "AppendEntry now args rf = Some (rf', reply)" and "rlog rf \<noteq> []"
  shows "calm rf rf' \<and> rlog rf' \<noteq> [] \<and> arTerm reply = currentTerm rf'"
  using assms(1)
proof (cases rule: AppendEntry_cases)
  case stale
  with assms(2) show ?thesis by simp
next
  case (live rf1 rf2)
  let ?rf0 = "rf\<lparr>lastRecivedTime := now\<rparr>"
  have log2: "rlog rf2 \<noteq> []" using live assms(2) by auto
  have "calm rf ?rf0" by simp
  moreover have "calm ?rf0 rf1" using live(2) assms(2) by (simp add: calm_check)
  moreover have "calm rf1 rf2" unfolding live(3) by (rule calm_follow)
  ultimately have c: "calm rf rf2" by (blast intro: calm_trans)
  from live(4) show ?thesis
  proof (elim disjE exE)
    fix es p assume "AppendEntry_accept args es p rf2 = Some (rf', reply)"
    from calm_AppendEntry_accept[OF this log2] c this show ?thesis
      by (auto simp: AppendEntry_accept_def Let_def elim!: bindE intro: calm_trans)
  qed (use c log2 in simp)
qed

text \<open>The count of \<open>updateCommitIndexWithLocked\<close>: the leader and the peers that have matched.\<close>

lemma matchCount_defined:
  assumes "matchCount rf idx ps = Some n" and "p \<in> set ps" and "int p \<noteq> me rf"
  shows "go_nth (matchIndex rf) (int p) = Some (matchIndex rf ! p)"
  using assms
proof (induction ps arbitrary: n)
  case (Cons q ps)
  from Cons.prems(1) obtain m where m: "matchCount rf idx ps = Some m"
    and n: "(if int q = me rf then Some m
        else go_nth (matchIndex rf) (int q) \<bind> (\<lambda>k. Some (if k \<ge> idx then Suc m else m))) = Some n"
    by (auto simp: matchCount_def elim!: bindE)
  from n Cons.IH[OF m] Cons.prems(2,3) show ?case
    by (auto split: if_split_asm elim!: bindE simp: go_simps)
qed simp

lemma matchCount_eq:
  assumes "matchCount rf idx ps = Some n" and "distinct ps"
  shows "n = 1 + card {p \<in> set ps. int p \<noteq> me rf \<and> matchIndex rf ! p \<ge> idx}"
  using assms
proof (induction ps arbitrary: n)
  case Nil
  then show ?case by (simp add: matchCount_def)
next
  case (Cons p ps)
  let ?A = "{q \<in> set ps. int q \<noteq> me rf \<and> matchIndex rf ! q \<ge> idx}"
  from Cons.prems(1) obtain m where m: "matchCount rf idx ps = Some m"
    and n: "(if int p = me rf then Some m
        else go_nth (matchIndex rf) (int p) \<bind> (\<lambda>k. Some (if k \<ge> idx then Suc m else m))) = Some n"
    by (auto simp: matchCount_def elim!: bindE)
  have IH: "m = 1 + card ?A" using Cons.IH[OF m] Cons.prems(2) by simp
  have eq: "{q \<in> set (p # ps). int q \<noteq> me rf \<and> matchIndex rf ! q \<ge> idx} =
      (if int p \<noteq> me rf \<and> matchIndex rf ! p \<ge> idx then insert p ?A else ?A)" by auto
  have "p \<notin> ?A" using Cons.prems(2) by simp
  with n IH show ?case unfolding eq by (auto split: if_split_asm elim!: bindE simp: go_simps)
qed

lemma acknowledged:
  assumes "matchCount rf idx [0..<npeers rf] = Some n" and "me rf = int i" and "i < npeers rf"
  shows "n = card {p. p < npeers rf \<and> (p = i \<or> matchIndex rf ! p \<ge> idx)}"
proof -
  let ?A = "{p \<in> set [0..<npeers rf]. int p \<noteq> me rf \<and> matchIndex rf ! p \<ge> idx}"
  have "{p. p < npeers rf \<and> (p = i \<or> matchIndex rf ! p \<ge> idx)} = insert i ?A"
    using assms(2,3) by auto
  moreover have "i \<notin> ?A" using assms(2) by simp
  ultimately show ?thesis using matchCount_eq[OF assms(1)] by simp
qed

text \<open>What a leader needs to advance its commit index.\<close>

lemma updateCommit_loop_cases:
  assumes "updateCommit_loop now i rf = Some (rf', sp)"
  obtains (same) "rf' = rf" "sp = []"
  | (commit) j e count where "j \<le> i" "go_nth (rlog rf) (int j) = Some e"
      "eTerm e = currentTerm rf" "matchCount rf (eIndex e) [0..<npeers rf] = Some count"
      "count > npeers rf div 2" "eIndex e > commitIndex rf"
      "sendHeatbeat now True (signal (rf\<lparr>commitIndex := eIndex e\<rparr>)) = Some (rf', sp)"
proof -
  define commits where "commits j \<longleftrightarrow> (\<exists>e count. go_nth (rlog rf) (int j) = Some e \<and>
       eTerm e = currentTerm rf \<and>
       matchCount rf (eIndex e) [0..<npeers rf] = Some count \<and> count > npeers rf div 2 \<and>
       eIndex e > commitIndex rf \<and>
       sendHeatbeat now True (signal (rf\<lparr>commitIndex := eIndex e\<rparr>)) = Some (rf', sp))" for j
  have step: "(rf' = rf \<and> sp = []) \<or> commits i \<or> (\<exists>j. i = Suc j \<and> updateCommit_loop now j rf = Some (rf', sp))"
    if "updateCommit_loop now i rf = Some (rf', sp)" for i
    using that
    by (subst (asm) updateCommit_loop.simps)
      (auto elim!: bindE split: if_split_asm nat.splits simp: commits_def)
  have "(rf' = rf \<and> sp = []) \<or> (\<exists>j\<le>i. commits j)"
    using assms
  proof (induction i)
    case 0
    from step[OF this] show ?case by auto
  next
    case (Suc i)
    from step[OF Suc.prems] Suc.IH show ?case using le_SucI by blast
  qed
  then show thesis using same commit unfolding commits_def by blast
qed

text \<open>A calm handler with the goroutines it starts.\<close>

definition quiet :: "('c, 'b) Raft \<Rightarrow> ('c, 'b) Raft \<Rightarrow> 'c spawn list \<Rightarrow> bool" where
  "quiet rf rf' sp \<longleftrightarrow> calm rf rf' \<and> calm_spawns (me rf') (currentTerm rf') (npeers rf') sp"

lemma quiet_calm [simp]: "quiet rf rf' [] \<longleftrightarrow> calm rf rf'"
  by (simp add: quiet_def)

lemma calm_quiet: "calm rf rf' \<Longrightarrow> quiet rf' rf'' sp \<Longrightarrow> quiet rf rf'' sp"
  by (auto simp: quiet_def intro: calm_trans)

lemma quiet_sendHeatbeat:
  assumes "sendHeatbeat now force rf = Some (rf', sp)"
  shows "quiet rf rf' sp"
  using assms by (rule sendHeatbeat_frame) (simp add: quiet_def)

lemma quiet_updateCommitIndex:
  assumes "updateCommitIndex now idx rf = Some (rf', sp)"
  shows "quiet rf rf' sp"
proof -
  have "quiet rf rf' sp" if "updateCommit_loop now i rf = Some (rf', sp)" for i
    using that
  proof (cases rule: updateCommit_loop_cases)
    case (commit j e count)
    have "calm rf (rf\<lparr>commitIndex := eIndex e\<rparr>)" by simp
    then have "calm rf (signal (rf\<lparr>commitIndex := eIndex e\<rparr>))" by (rule calm_trans) simp
    then show ?thesis using quiet_sendHeatbeat[OF commit(7)] by (rule calm_quiet)
  qed simp
  with assms show ?thesis
    by (auto simp: updateCommitIndex_def Let_def elim!: bindE split: if_split_asm)
qed

lemma quiet_heatbeat:
  assumes "heatbeat now rf = Some (rf', sp)"
  shows "quiet rf rf' sp"
  using assms by (auto simp: heatbeat_def split: if_split_asm intro: quiet_sendHeatbeat)

lemma quiet_AppendEntry_done:
  assumes "AppendEntry_done now p args reply rf = Some (rf', sp)" and "rlog rf \<noteq> []"
  shows "quiet rf rf' sp"
proof -
  have "quiet rf rf' sp" if "quiet (rf\<lparr>matchIndex := mi, nextIndex := ni\<rparr>) rf' sp" for mi ni
    by (rule calm_quiet[OF _ that]) (simp add: calm_def durable_def)
  with assms show ?thesis unfolding AppendEntry_done_def Let_def
    by (auto elim!: bindE split: if_split_asm intro: calm_check
        dest!: quiet_updateCommitIndex)
qed

lemma quiet_InstallSnapshot_done:
  assumes "InstallSnapshot_done now p args reply rf = Some (rf', sp)" and "rlog rf \<noteq> []"
  shows "quiet rf rf' sp"
proof -
  have "quiet rf rf' sp" if "quiet (rf\<lparr>nextIndex := ni, matchIndex := mi\<rparr>) rf' sp" for mi ni
    by (rule calm_quiet[OF _ that]) (simp add: calm_def durable_def)
  with assms show ?thesis unfolding InstallSnapshot_done_def Let_def
    by (auto elim!: bindE split: if_split_asm intro: calm_check dest!: quiet_sendHeatbeat)
qed

lemma quiet_StartCommand:
  assumes "StartCommand now c rf = Some (rf', sp, r)"
  shows "quiet rf rf' sp"
proof -
  have "quiet rf rf' sp" if "quiet (persist (rf\<lparr>rlog := rlog rf @ [e]\<rparr>)) rf' sp" for e
    by (rule calm_quiet[OF _ that]) (simp add: calm_def)
  with assms show ?thesis unfolding StartCommand_def Let_def
    by (auto elim!: bindE split: if_split_asm dest!: quiet_sendHeatbeat)
qed

lemma go_from_nonempty: "go_from l i = Some l' \<Longrightarrow> i < int (length l) \<Longrightarrow> l' \<noteq> []"
  by (auto simp: go_simps)

lemma SnapshotService_cases:
  assumes "SnapshotService now idx sn rf = Some (rf', sp)"
  obtains (skip) "rf' = rf" "sp = []"
  | (trim) first l where "idx \<le> commitIndex rf" "go_nth (rlog rf) 0 = Some first"
      "rsnapshot rf \<noteq> None \<longrightarrow> eIndex first < idx"
      "go_from (rlog rf) (min (idx - eIndex first) (int (length (rlog rf)) - 1)) = Some l"
      "(if rstate rf = Leader
        then sendHeatbeat now True (signal (persist (rf\<lparr>rsnapshot := sn, rlog := l\<rparr>)))
        else Some (signal (persist (rf\<lparr>rsnapshot := sn, rlog := l\<rparr>)), [])) = Some (rf', sp)"
  using assms unfolding SnapshotService_def Let_def
  by (auto elim!: bindE split: if_split_asm)

lemma quiet_SnapshotService:
  assumes "SnapshotService now idx sn rf = Some (rf', sp)"
  shows "quiet rf rf' sp"
  using assms
proof (cases rule: SnapshotService_cases)
  case (trim first l)
  let ?rf = "signal (persist (rf\<lparr>rsnapshot := sn, rlog := l\<rparr>))"
  from go_from_nonempty[OF trim(4)] have "calm rf ?rf" by (simp add: calm_def)
  with trim(5) show ?thesis
    by (auto split: if_split_asm intro: calm_quiet dest!: quiet_sendHeatbeat)
qed simp

lemma go_nth_nonempty: "go_nth l i = Some x \<Longrightarrow> l \<noteq> []"
  by (auto simp: go_simps)

lemma calm_InstallSnapshot:
  assumes "InstallSnapshot now args rf = Some (rf', reply)" and "rlog rf \<noteq> []"
  shows "calm rf rf' \<and> irTerm reply = currentTerm rf"
proof -
  define rf1 where "rf1 = checkAndMaySetTermAndState (isTerm args) (rf\<lparr>lastRecivedTime := now\<rparr>)"
  have "calm rf (rf\<lparr>lastRecivedTime := now\<rparr>)" by simp
  moreover have "calm (rf\<lparr>lastRecivedTime := now\<rparr>) rf1"
    using assms(2) by (simp add: rf1_def calm_check)
  ultimately have 1: "calm rf rf1" by (rule calm_trans)
  have 2: "calm rf1 (signal (persist (rf1\<lparr>rlog := l, commitIndex := c, rsnapshot := s\<rparr>)))"
    "calm rf1 (signal (persist (rf1\<lparr>rlog := l, rsnapshot := s, leader := x, commitIndex := c\<rparr>)))"
    if "l \<noteq> []" for l c s x
    using that by (simp_all add: calm_def)
  show ?thesis
    using assms(1) 1 unfolding InstallSnapshot_def rf1_def[symmetric] Let_def
    by (auto elim!: bindE split: if_split_asm
        intro!: calm_trans[OF 1 2(1)] calm_trans[OF 1 2(2)] simp: go_nth_nonempty)
qed

lemma applyLog_calm:
  assumes "applyLog rf = Some (rf', msgs)"
  shows "calm rf rf'"
  using assms unfolding applyLog_def applyLog_batch_def Let_def
  by (auto elim!: bindE simp: calm_def durable_def
      split: applier_pc.splits if_split_asm list.splits option.splits)

section \<open>Elections\<close>

lemma RequestVote_facts:
  assumes "RequestVote now args rf = Some (rf', reply)" and "rlog rf \<noteq> []"
  shows "calm rf rf'"
    and "rrVoteGranted reply \<Longrightarrow> currentTerm rf' = rvTerm args \<and> votedFor rf' = rvCandidateId args"
    and "rlog rf' = rlog rf" and "rrTerm reply = currentTerm rf'"
proof -
  define rf1 where "rf1 = (if rvTerm args > currentTerm rf
                           then checkAndMaySetTermAndState (rvTerm args) rf else rf)"
  have 1: "calm rf rf1" "rlog rf1 = rlog rf" using assms(2) by (auto simp: rf1_def intro: calm_check)
  have 2: "calm rf1 (rf1\<lparr>lastRecivedTime := now\<rparr>)" by simp
  have 3: "calm rf1 (persist (rf1\<lparr>lastRecivedTime := now, votedFor := c\<rparr>))"
    if "votedFor rf1 = -1 \<or> votedFor rf1 = c" for c
    using that 1(2) assms(2) by (auto simp: calm_def)
  note cases = assms(1)[unfolded RequestVote_def, folded rf1_def, unfolded Let_def]
  show "calm rf rf'" using cases 1(1)
    by (auto elim!: bindE split: if_split_asm
        intro!: calm_trans[OF 1(1) 3] calm_trans[OF 1(1) 2])
  show "rrVoteGranted reply \<Longrightarrow> currentTerm rf' = rvTerm args \<and> votedFor rf' = rvCandidateId args"
    using cases by (auto elim!: bindE split: if_split_asm simp: rf1_def)
  show "rlog rf' = rlog rf" using cases 1(2) by (auto elim!: bindE split: if_split_asm)
  show "rrTerm reply = currentTerm rf'" using cases by (auto elim!: bindE split: if_split_asm)
qed

text \<open>The start of an election: the term that is entered, the vote, and the requests.\<close>

definition elect_args :: "int \<Rightarrow> ('c, 'b) Raft \<Rightarrow> RequestVoteArgs" where
  "elect_args t rf = \<lparr>rvTerm = t, rvCandidateId = me rf,
      rvLastLogIndex = eIndex (last (rlog rf)), rvLastLogTerm = eTerm (last (rlog rf))\<rparr>"

definition elect_requests :: "int \<Rightarrow> ('c, 'b) Raft \<Rightarrow> 'c spawn list" where
  "elect_requests t rf = map (\<lambda>server. GoRequestVote server (elect_args t rf))
      (filter (\<lambda>server. int server \<noteq> me rf) [0..<npeers rf])"

lemma ticker_cases:
  assumes "ticker now rnd rf = Some (rf', sp)"
  obtains (idle) "rf' = rf" "sp = []"
  | (elect) "rstate rf \<noteq> Leader" "now - lastRecivedTime rf > electionTimeout rf" "rlog rf \<noteq> []"
      "rf' = (persist (rf\<lparr>currentTerm := currentTerm rf + 1, votedFor := me rf,
                         rstate := Candidate\<rparr>))
              \<lparr>voteGrantedCount := (voteGrantedCount rf)(currentTerm rf + 1 \<mapsto> 1),
               lastRecivedTime := now, electionTimeout := (300 + rnd) * 1000000\<rparr>"
      "sp = elect_requests (currentTerm rf + 1) rf"
proof (cases "rstate rf \<noteq> Leader \<and> now - lastRecivedTime rf > electionTimeout rf")
  case True
  note unfolds = ticker_def startVote_def getLastLogIndexAndTerm_def Let_def
  show thesis
  proof (cases "rlog rf = []")
    case True
    with \<open>rstate rf \<noteq> Leader \<and> _\<close> assms have False by (simp add: unfolds)
    then show thesis ..
  next
    case False
    with True assms show thesis
      by (intro elect) (simp_all add: unfolds go_last_eq elect_requests_def elect_args_def
          resetElectTimeout_def)
  qed
next
  case False
  with assms show thesis by (intro idle) (simp_all add: ticker_def)
qed

text \<open>Winning an election: the no-op entry is in the log and on storage, the arrays are reset.\<close>

definition noop_entry :: "int \<Rightarrow> ('c, 'b) Raft \<Rightarrow> 'c LogEntry" where
  "noop_entry now rf = \<lparr>eTerm = currentTerm rf, eIndex = eIndex (last (rlog rf)) + 1,
                        eCommand = None, eStart = UnixMilli now\<rparr>"

lemma becomeLeader_cases:
  assumes "becomeLeader now rf = Some (rf', sp)" and "rstate rf = Candidate"
  obtains ni mi ls where "rlog rf \<noteq> []"
    "rf' = (persist (rf\<lparr>nextIndex := ni, matchIndex := mi, lastSendAppendEntry := [], rstate := Leader,
                       rlog := rlog rf @ [noop_entry now rf]\<rparr>))\<lparr>lastSendAppendEntry := ls\<rparr>"
    "leader_arrays (me rf) (eIndex (last (rlog rf))) [0..<npeers rf] (nextIndex rf) (matchIndex rf) ni mi"
    "length ls = length (lastSendAppendEntry rf)"
    "calm_spawns (me rf) (currentTerm rf) (npeers rf) sp"
proof -
  from assms obtain rf1 where log: "rlog rf \<noteq> []"
    and 1: "becomeLeader_loop now (eIndex (last (rlog rf))) [0..<npeers rf] rf = Some rf1"
    and 2: "go_last (rlog rf1) \<bind> (\<lambda>lastLog. sendHeatbeat now True (persist (rf1\<lparr>rstate := Leader,
      rlog := rlog rf1 @ [\<lparr>eTerm = currentTerm rf1, eIndex = eIndex lastLog + 1, eCommand = None,
                eStart = UnixMilli now\<rparr>]\<rparr>))) = Some (rf', sp)"
    unfolding becomeLeader_def Let_def getLastLogIndexAndTerm_def
    by (auto elim!: bindE simp: go_last_Some_iff go_last_eq)
  from becomeLeader_loop_frame[OF 1] obtain ni mi ls where
    rf1: "rf1 = rf\<lparr>nextIndex := ni, matchIndex := mi, lastSendAppendEntry := ls\<rparr>"
    and arr: "leader_arrays (me rf) (eIndex (last (rlog rf))) [0..<npeers rf] (nextIndex rf) (matchIndex rf) ni mi"
    and ls: "length ls = length (lastSendAppendEntry rf)" .
  define rf2 where "rf2 = persist (rf1\<lparr>rstate := Leader, rlog := rlog rf @ [noop_entry now rf]\<rparr>)"
  from 2 log have "sendHeatbeat now True rf2 = Some (rf', sp)"
    by (simp add: rf1 rf2_def noop_entry_def go_last_eq)
  from sendHeatbeat_frame[OF this] obtain ls' where "rf' = rf2\<lparr>lastSendAppendEntry := ls'\<rparr>"
    "length ls' = length (lastSendAppendEntry rf2)"
    "calm_spawns (me rf2) (currentTerm rf2) (npeers rf2) sp" .
  with log arr ls show thesis
    by (intro that[of ls' mi ni]) (simp_all add: rf2_def rf1 persist_eq encode_state_def)
qed

lemma durable_sends [simp]: "durable (rf\<lparr>lastSendAppendEntry := ls\<rparr>) = durable rf"
  by (simp add: durable_def)

lemma becomeLeader_facts:
  assumes "becomeLeader now rf = Some (rf', sp)" and "rstate rf = Candidate"
  shows "rstate rf' = Leader" "me rf' = me rf" "npeers rf' = npeers rf"
    "currentTerm rf' = currentTerm rf" "votedFor rf' = votedFor rf"
    "voteGrantedCount rf' = voteGrantedCount rf" "durable rf'"
    "calm_spawns (me rf) (currentTerm rf) (npeers rf) sp"
proof -
  from assms obtain ni mi ls where
    *: "rf' = (persist (rf\<lparr>nextIndex := ni, matchIndex := mi, lastSendAppendEntry := [], rstate := Leader,
                       rlog := rlog rf @ [noop_entry now rf]\<rparr>))\<lparr>lastSendAppendEntry := ls\<rparr>"
    and sp: "calm_spawns (me rf) (currentTerm rf) (npeers rf) sp"
    by (rule becomeLeader_cases)
  show "rstate rf' = Leader" "me rf' = me rf" "npeers rf' = npeers rf"
    "currentTerm rf' = currentTerm rf" "votedFor rf' = votedFor rf"
    "voteGrantedCount rf' = voteGrantedCount rf" "durable rf'"
    unfolding * by simp_all
  show "calm_spawns (me rf) (currentTerm rf) (npeers rf) sp" by (fact sp)
qed

lemma RequestVote_done_cases:
  assumes "RequestVote_done now args reply rf = Some (rf', sp)"
  obtains (stale) "rf' = rf" "sp = []" "rvTerm args \<noteq> currentTerm rf \<or> rstate rf \<noteq> Candidate"
  | (refused) "rf' = checkAndMaySetTermAndState (rrTerm reply) rf" "sp = []" "\<not> rrVoteGranted reply"
  | (counted) k where "rvTerm args = currentTerm rf" "rstate rf = Candidate" "rrVoteGranted reply"
      "voteGrantedCount rf (currentTerm rf) = Some k" "Suc k \<le> npeers rf div 2" "sp = []"
      "rf' = rf\<lparr>voteGrantedCount := (voteGrantedCount rf)(currentTerm rf \<mapsto> Suc k)\<rparr>"
  | (won) k where "rvTerm args = currentTerm rf" "rstate rf = Candidate" "rrVoteGranted reply"
      "voteGrantedCount rf (currentTerm rf) = Some k" "Suc k > npeers rf div 2"
      "becomeLeader now (rf\<lparr>voteGrantedCount := (voteGrantedCount rf)(currentTerm rf \<mapsto> Suc k)\<rparr>)
        = Some (rf', sp)"
  using assms unfolding RequestVote_done_def Let_def
  by (auto elim!: bindE split: if_split_asm simp: not_less)

end
