(* ===== verification/RaftCluster.thy ===== *)
theory RaftCluster
  imports RaftFacts "HOL-Library.Multiset"
begin

text \<open>
  The cluster: the Raft peers of \<open>RaftNode\<close> and \<open>RaftReplication\<close> and the calls between them.

  A goroutine that makes an RPC is a packet of \<open>net\<close>: first the request, then, when the server
  has run the handler, the reply, then gone when the caller has handled it.  The network of
  \<^verbatim>\<open>labrpc\<close> may delay, reorder and lose requests and replies, and delivers each at most once.
  Every event runs one critical section of one server.  An event whose handler panics has no
  result: a run of the model is a run of the program up to its first panic.

  A crash is a \<open>Restart\<close>: the server starts again from the checkpoint of its persister, and the
  replies and goroutines it waited for are gone.  Its requests in the network stay; a reply to
  one of them reaches the new process in the model though not in the program, which only adds
  runs.
\<close>

section \<open>State\<close>

datatype ('c, 'b) packet =
  VoteReq nat nat RequestVoteArgs
| VoteRep nat nat RequestVoteArgs RequestVoteReply
| AppReq nat nat "'c AppendEntryArgs"
| AppRep nat nat "'c AppendEntryArgs" AppendEntryReply
| SnapGo nat nat
| SnapReq nat nat "'b InstallSnapshotArgs"
| SnapRep nat nat "'b InstallSnapshotArgs" InstallSnapshotReply

text \<open>The first number is the caller, the second the server that is called.\<close>

record ('c, 'b) cluster =
  nsrv :: nat
  srv :: "nat \<Rightarrow> ('c, 'b) Raft"
  net :: "('c, 'b) packet multiset"
  delivered :: "nat \<Rightarrow> ('c, 'b) ApplyMsg list"

text \<open>\<open>delivered i\<close> is what server \<open>i\<close> has sent on its \<open>applyCh\<close> since it started.\<close>

fun packet_of :: "nat \<Rightarrow> 'c spawn \<Rightarrow> ('c, 'b) packet" where
  "packet_of i (GoRequestVote server args) = VoteReq i server args"
| "packet_of i (GoAppendEntry server args) = AppReq i server args"
| "packet_of i (GoInstallSnapshot server) = SnapGo i server"

text \<open>The encoder sends an empty byte slice and a nil one alike; the receiver sees nil.\<close>

definition gob_bytes :: "'b list option \<Rightarrow> 'b list option" where
  "gob_bytes d = (if d = Some [] then None else d)"

definition gob_snapshot :: "'b InstallSnapshotArgs \<Rightarrow> 'b InstallSnapshotArgs" where
  "gob_snapshot a = a\<lparr>isSnapshot := (isSnapshot a)\<lparr>snData := gob_bytes (snData (isSnapshot a))\<rparr>\<rparr>"

section \<open>Events\<close>

datatype ('c, 'b) event =
  Tick nat int int
| Heartbeat nat int
| Applier nat
| Command nat int 'c
| Compact nat int int "'b list option"
| Handle "('c, 'b) packet" int
| Lose "('c, 'b) packet"
| Restart nat int int

definition put :: "nat \<Rightarrow> ('c, 'b) Raft \<Rightarrow> ('c, 'b) packet multiset \<Rightarrow> ('c, 'b) cluster \<Rightarrow> ('c, 'b) cluster" where
  "put i rf ps s = s\<lparr>srv := (srv s)(i := rf), net := net s + ps\<rparr>"

abbreviation started :: "nat \<Rightarrow> 'c spawn list \<Rightarrow> ('c, 'b) packet multiset" where
  "started i sp \<equiv> mset (map (packet_of i) sp)"

text \<open>One packet, already taken out of the network.\<close>

fun handle :: "int \<Rightarrow> ('c, 'b) packet \<Rightarrow> ('c, 'b) cluster \<Rightarrow> ('c, 'b) cluster option" where
  "handle now (VoteReq c v args) s = do {
     (rf, reply) \<leftarrow> RequestVote now args (srv s v);
     Some (put v rf {#VoteRep c v args reply#} s) }"
| "handle now (VoteRep c v args reply) s = do {
     (rf, sp) \<leftarrow> RequestVote_done now args reply (srv s c);
     Some (put c rf (started c sp) s) }"
| "handle now (AppReq c v args) s = do {
     (rf, reply) \<leftarrow> AppendEntry now args (srv s v);
     Some (put v rf {#AppRep c v args reply#} s) }"
| "handle now (AppRep c v args reply) s = do {
     (rf, sp) \<leftarrow> AppendEntry_done now v args reply (srv s c);
     Some (put c rf (started c sp) s) }"
| "handle now (SnapGo c v) s = do {
     args \<leftarrow> requestInstallSnapshot_args (srv s c);
     Some (put c (srv s c) {#SnapReq c v args#} s) }"
| "handle now (SnapReq c v args) s = do {
     (rf, reply) \<leftarrow> InstallSnapshot now (gob_snapshot args) (srv s v);
     Some (put v rf {#SnapRep c v args reply#} s) }"
| "handle now (SnapRep c v args reply) s = do {
     (rf, sp) \<leftarrow> InstallSnapshot_done now v args reply (srv s c);
     Some (put c rf (started c sp) s) }"

text \<open>What a crash of server \<open>i\<close> leaves of a packet: requests already sent, and the others'.\<close>

fun survives :: "nat \<Rightarrow> ('c, 'b) packet \<Rightarrow> bool" where
  "survives i (VoteRep c v args reply) \<longleftrightarrow> c \<noteq> i"
| "survives i (AppRep c v args reply) \<longleftrightarrow> c \<noteq> i"
| "survives i (SnapRep c v args reply) \<longleftrightarrow> c \<noteq> i"
| "survives i (SnapGo c v) \<longleftrightarrow> c \<noteq> i"
| "survives i _ \<longleftrightarrow> True"

fun raft_exec :: "('c, 'b) event \<Rightarrow> ('c, 'b) cluster \<Rightarrow> ('c, 'b) cluster option" where
  "raft_exec (Tick i now rnd) s =
     (if i < nsrv s
      then do { (rf, sp) \<leftarrow> ticker now rnd (srv s i); Some (put i rf (started i sp) s) } else None)"
| "raft_exec (Heartbeat i now) s =
     (if i < nsrv s
      then do { (rf, sp) \<leftarrow> heatbeat now (srv s i); Some (put i rf (started i sp) s) } else None)"
| "raft_exec (Applier i) s =
     (if i < nsrv s
      then do { (rf, ms) \<leftarrow> applyLog (srv s i);
                Some ((put i rf {#} s)\<lparr>delivered := (delivered s)(i := delivered s i @ ms)\<rparr>) }
      else None)"
| "raft_exec (Command i now c) s =
     (if i < nsrv s
      then do { (rf, sp, res) \<leftarrow> StartCommand now c (srv s i); Some (put i rf (started i sp) s) }
      else None)"
| "raft_exec (Compact i now index snapshot) s =
     (if i < nsrv s
      then do { (rf, sp) \<leftarrow> SnapshotService now index snapshot (srv s i);
                Some (put i rf (started i sp) s) }
      else None)"
| "raft_exec (Handle p now) s =
     (if p \<in># net s then handle now p (s\<lparr>net := net s - {#p#}\<rparr>) else None)"
| "raft_exec (Lose p) s = (if p \<in># net s then Some (s\<lparr>net := net s - {#p#}\<rparr>) else None)"
| "raft_exec (Restart i now rnd) s =
     (if i < nsrv s
      then do { rf \<leftarrow> Make (nsrv s) (int i) (Checkpoint (persister (srv s i))) now rnd;
                Some (s\<lparr>srv := (srv s)(i := rf), net := filter_mset (survives i) (net s),
                        delivered := (delivered s)(i := [])\<rparr>) }
      else None)"

definition boot :: "nat \<Rightarrow> (nat \<Rightarrow> int) \<Rightarrow> (nat \<Rightarrow> int) \<Rightarrow> ('c, 'b) cluster" where
  "boot n now rnd =
     \<lparr>nsrv = n, srv = (\<lambda>i. the (Make n (int i) MakePersister (now i) (rnd i))),
      net = {#}, delivered = (\<lambda>_. [])\<rparr>"

inductive raft_init :: "('c, 'b) cluster \<Rightarrow> bool" where
  "raft_init (boot n now rnd)"

inductive raft_step :: "('c, 'b) cluster \<Rightarrow> ('c, 'b) cluster \<Rightarrow> bool" where
  "raft_exec ev s = Some t \<Longrightarrow> raft_step s t"

inductive_simps raft_step_iff: "raft_step s t"

interpretation raft: transition_system raft_init raft_step
  by unfold_locales (blast intro: raft_init.intros)

text \<open>Runs of the executable events are runs of the step relation.\<close>

fun run :: "('c, 'b) event list \<Rightarrow> ('c, 'b) cluster \<Rightarrow> ('c, 'b) cluster option" where
  "run [] s = Some s"
| "run (ev # evs) s = do { t \<leftarrow> raft_exec ev s; run evs t }"

lemma run_reach: "raft.reach s \<Longrightarrow> run evs s = Some t \<Longrightarrow> raft.reach t"
proof (induction evs arbitrary: s)
  case (Cons ev evs)
  from Cons.prems(2) obtain u where "raft_exec ev s = Some u" and u: "run evs u = Some t"
    by (auto elim!: bindE)
  then have "raft.reach u" by (blast intro: raft.reach_step Cons.prems(1) raft_step.intros)
  then show ?case by (rule Cons.IH[OF _ u])
qed simp

end
