(* ===== verification/RaftElection.thy ===== *)
theory RaftElection
  imports RaftCluster
begin

text \<open>
  Elections in the cluster: every persistent change survives a crash, a server votes once per
  term, and a term has at most one leader.  The votes of past terms are a history variable.
\<close>

section \<open>What an event does to a server\<close>

text \<open>Terms only grow, and a vote once cast in a term is kept.\<close>

definition evolves :: "('c, 'b) Raft \<Rightarrow> ('c, 'b) Raft \<Rightarrow> bool" where
  "evolves rf rf' \<longleftrightarrow> me rf' = me rf \<and> npeers rf' = npeers rf \<and> (durable rf \<longrightarrow> durable rf') \<and>
     currentTerm rf \<le> currentTerm rf' \<and>
     (currentTerm rf' = currentTerm rf \<longrightarrow> votedFor rf \<noteq> -1 \<longrightarrow> votedFor rf' = votedFor rf)"

lemma evolves_refl [simp]: "evolves rf rf"
  by (simp add: evolves_def)

lemma calm_evolves: "calm rf rf' \<Longrightarrow> evolves rf rf'"
  by (auto simp: calm_def evolves_def split: if_split_asm)

fun ends :: "('c, 'b) packet \<Rightarrow> nat \<times> nat" where
  "ends (VoteReq c v a) = (c, v)"
| "ends (VoteRep c v a r) = (c, v)"
| "ends (AppReq c v aa) = (c, v)"
| "ends (AppRep c v aa ar) = (c, v)"
| "ends (SnapGo c v) = (c, v)"
| "ends (SnapReq c v ia) = (c, v)"
| "ends (SnapRep c v ia ir) = (c, v)"

fun is_vote :: "('c, 'b) packet \<Rightarrow> bool" where
  "is_vote (VoteReq c v a) \<longleftrightarrow> True"
| "is_vote (VoteRep c v a r) \<longleftrightarrow> True"
| "is_vote _ \<longleftrightarrow> False"

definition routed :: "nat \<Rightarrow> ('c, 'b) packet multiset \<Rightarrow> bool" where
  "routed n M \<longleftrightarrow> (\<forall>p \<in># M. fst (ends p) < n \<and> snd (ends p) < n \<and> fst (ends p) \<noteq> snd (ends p))"

abbreviation votes_in :: "('c, 'b) packet multiset \<Rightarrow> ('c, 'b) packet multiset" where
  "votes_in M \<equiv> filter_mset is_vote M"

text \<open>Every server is who it is, and its persistent state is on its persister.\<close>

definition basic :: "('c, 'b) cluster \<Rightarrow> bool" where
  "basic s \<longleftrightarrow> routed (nsrv s) (net s) \<and>
     (\<forall>i < nsrv s. me (srv s i) = int i \<and> npeers (srv s i) = nsrv s \<and> durable (srv s i))"

lemma routed_simps [simp]:
  "routed n {#}"
  "routed n (M + N) \<longleftrightarrow> routed n M \<and> routed n N"
  "routed n (add_mset p M) \<longleftrightarrow>
     fst (ends p) < n \<and> snd (ends p) < n \<and> fst (ends p) \<noteq> snd (ends p) \<and> routed n M"
  by (auto simp: routed_def)

lemma routed_sub: "routed n M \<Longrightarrow> N \<subseteq># M \<Longrightarrow> routed n N"
  by (auto simp: routed_def dest: mset_subset_eqD)

lemma calm_spawns_started:
  assumes "calm_spawns (int i) t n sp" and "i < n"
  shows "routed n (started i sp) \<and> votes_in (started i sp) = {#}"
  using assms by (induction sp) (auto simp: calm_spawns_def split: spawn.splits)

lemma elect_requests_started:
  assumes "me rf = int i" and "npeers rf = n" and "i < n"
  shows "routed n (started i (elect_requests t rf))"
  using assms by (auto simp: elect_requests_def routed_def)

lemma basicD:
  assumes "basic s" and "i < nsrv s"
  shows "me (srv s i) = int i" "npeers (srv s i) = nsrv s" "durable (srv s i)" "rlog (srv s i) \<noteq> []"
  using assms durable_log_nonempty by (auto simp: basic_def)

lemma basic_ends:
  assumes "basic s" and "p \<in># net s" and "ends p = (c, v)"
  shows "c < nsrv s" "v < nsrv s" "c \<noteq> v"
  using assms by (fastforce simp: basic_def routed_def)+

text \<open>
  The shape of a step: one server changes and packets come and go.  \<open>calm_event\<close> covers the
  events that neither start nor decide an election nor answer a vote request.
\<close>

definition changes ::
  "('c, 'b) cluster \<Rightarrow> nat \<Rightarrow> ('c, 'b) Raft \<Rightarrow> ('c, 'b) packet multiset \<Rightarrow> ('c, 'b) cluster \<Rightarrow> bool" where
  "changes s i rf M t \<longleftrightarrow> i < nsrv s \<and> nsrv t = nsrv s \<and> srv t = (srv s)(i := rf) \<and> net t = M"

definition calm_event :: "('c, 'b) cluster \<Rightarrow> ('c, 'b) cluster \<Rightarrow> bool" where
  "calm_event s t \<longleftrightarrow> (\<exists>i rf M. changes s i rf M t \<and> calm (srv s i) rf \<and> routed (nsrv s) M \<and>
      votes_in M \<subseteq># votes_in (net s))"

lemma calm_event_quiet:
  assumes "basic s" and "i < nsrv s" and "quiet (srv s i) rf sp" and "M \<subseteq># net s"
    and "nsrv t = nsrv s" "srv t = (srv s)(i := rf)" "net t = M + started i sp"
  shows "calm_event s t"
proof -
  have c: "calm (srv s i) rf" and sp: "calm_spawns (int i) (currentTerm rf) (nsrv s) sp"
    using assms(3) basicD[OF assms(1,2)] by (auto simp: quiet_def calm_def)
  from calm_spawns_started[OF sp assms(2)] have r: "routed (nsrv s) (started i sp)"
    and v: "votes_in (started i sp) = {#}" by auto
  have "routed (nsrv s) (net t)"
    unfolding assms(7) using r assms(1,4) by (auto simp: basic_def intro: routed_sub)
  moreover have "votes_in (net t) \<subseteq># votes_in (net s)"
    unfolding assms(7) filter_union_mset v using assms(4) by (simp add: multiset_filter_mono)
  ultimately show ?thesis unfolding calm_event_def changes_def using assms(2,5,6) c by blast
qed

lemma calm_event_put:
  assumes "basic s" and "i < nsrv s" and "quiet (srv s i) rf sp"
  shows "calm_event s (put i rf (started i sp) s)"
    and "calm_event s (put i rf (started i sp) (s\<lparr>net := net s - {#p#}\<rparr>))"
    and "sp = [] \<Longrightarrow> calm_event s ((put i rf {#} s)\<lparr>delivered := d\<rparr>)"
proof -
  have *: "calm_event s t" if "M \<subseteq># net s" "nsrv t = nsrv s" "srv t = (srv s)(i := rf)"
    "net t = M + started i sp" for M t
    by (rule calm_event_quiet[OF assms that])
  show "calm_event s (put i rf (started i sp) s)"
    by (rule *[of "net s"]) (simp_all add: put_def)
  show "calm_event s (put i rf (started i sp) (s\<lparr>net := net s - {#p#}\<rparr>))"
    by (rule *[of "net s - {#p#}"]) (simp_all add: put_def)
  show "calm_event s ((put i rf {#} s)\<lparr>delivered := d\<rparr>)" if "sp = []"
    by (rule *[of "net s"]) (simp_all add: put_def that)
qed

lemma calm_event_reply:
  assumes "basic s" and "p \<in># net s" and "ends p = (c, v)" and "calm (srv s i) rf"
    and "i = c \<or> i = v" and "ends q = (c, v)" and "\<not> is_vote q"
    and "nsrv t = nsrv s" "srv t = (srv s)(i := rf)" "net t = net s - {#p#} + {#q#}"
  shows "calm_event s t"
proof -
  note e = basic_ends[OF assms(1-3)]
  have "routed (nsrv s) (net s - {#p#})" using assms(1) by (auto simp: basic_def intro: routed_sub)
  moreover have "votes_in (net s - {#p#} + {#q#}) \<subseteq># votes_in (net s)"
    using assms(7) by (simp add: multiset_filter_mono)
  ultimately show ?thesis unfolding calm_event_def changes_def
    using assms e by (intro exI[of _ i] exI[of _ rf] exI[of _ "net t"]) auto
qed


lemma Lose_calm:
  assumes "basic s" and "raft_exec (Lose p) s = Some t"
  shows "calm_event s t"
proof -
  from assms(2) have p: "p \<in># net s" and t: "t = s\<lparr>net := net s - {#p#}\<rparr>"
    by (auto split: if_split_asm)
  obtain c v where "ends p = (c, v)" by fastforce
  with basic_ends[OF assms(1) p] have "c < nsrv s" by blast
  with t show ?thesis
    by (intro calm_event_quiet[OF assms(1), of c "srv s c" "[]" "net s - {#p#}"]) auto
qed

text \<open>The events of one server that are not an election.\<close>

lemma local_calm:
  assumes "basic s" and "raft_exec ev s = Some t"
    and "\<exists>i now c idx sn. ev \<in> {Heartbeat i now, Applier i, Command i now c, Compact i now idx sn}"
  shows "calm_event s t"
  using assms(2,3) calm_event_put[OF assms(1)]
  by (cases ev) (auto elim!: bindE split: if_split_asm
      dest!: quiet_heatbeat quiet_StartCommand quiet_SnapshotService applyLog_calm)

text \<open>The packets of log replication and of snapshot transfer.\<close>

lemma replication_calm:
  assumes "basic s" and "p \<in># net s" and "\<not> is_vote p"
    and "handle now p (s\<lparr>net := net s - {#p#}\<rparr>) = Some t"
  shows "calm_event s t"
proof (cases p)
  case (AppReq c v args)
  with assms(4) obtain rf reply where "AppendEntry now args (srv s v) = Some (rf, reply)"
    and t: "t = put v rf {#AppRep c v args reply#} (s\<lparr>net := net s - {#p#}\<rparr>)"
    by (auto elim!: bindE)
  moreover have "v < nsrv s" using basic_ends[OF assms(1,2)] AppReq by simp
  ultimately have "calm (srv s v) rf" using calm_AppendEntry basicD(4)[OF assms(1)] by blast
  then show ?thesis using AppReq t
    by (intro calm_event_reply[OF assms(1,2), of c v v rf "AppRep c v args reply"]) (simp_all add: put_def)
next
  case (AppRep c v args reply)
  with assms(4) obtain rf sp where "AppendEntry_done now v args reply (srv s c) = Some (rf, sp)"
    and t: "t = put c rf (started c sp) (s\<lparr>net := net s - {#p#}\<rparr>)"
    by (auto elim!: bindE)
  moreover have c: "c < nsrv s" using basic_ends[OF assms(1,2)] AppRep by simp
  ultimately have "quiet (srv s c) rf sp" using quiet_AppendEntry_done basicD(4)[OF assms(1)] by blast
  then show ?thesis unfolding t by (rule calm_event_put(2)[OF assms(1) c])
next
  case (SnapGo c v)
  with assms(4) obtain args where
    t: "t = put c (srv s c) {#SnapReq c v args#} (s\<lparr>net := net s - {#p#}\<rparr>)"
    by (auto elim!: bindE)
  then show ?thesis using SnapGo
    by (intro calm_event_reply[OF assms(1,2), of c v c "srv s c" "SnapReq c v args"])
      (simp_all add: put_def)
next
  case (SnapReq c v args)
  with assms(4) obtain rf reply where "InstallSnapshot now (gob_snapshot args) (srv s v) = Some (rf, reply)"
    and t: "t = put v rf {#SnapRep c v args reply#} (s\<lparr>net := net s - {#p#}\<rparr>)"
    by (auto elim!: bindE)
  moreover have "v < nsrv s" using basic_ends[OF assms(1,2)] SnapReq by simp
  ultimately have "calm (srv s v) rf" using calm_InstallSnapshot basicD(4)[OF assms(1)] by blast
  then show ?thesis using SnapReq t
    by (intro calm_event_reply[OF assms(1,2), of c v v rf "SnapRep c v args reply"]) (simp_all add: put_def)
next
  case (SnapRep c v args reply)
  with assms(4) obtain rf sp where "InstallSnapshot_done now v args reply (srv s c) = Some (rf, sp)"
    and t: "t = put c rf (started c sp) (s\<lparr>net := net s - {#p#}\<rparr>)"
    by (auto elim!: bindE)
  moreover have c: "c < nsrv s" using basic_ends[OF assms(1,2)] SnapRep by simp
  ultimately have "quiet (srv s c) rf sp" using quiet_InstallSnapshot_done basicD(4)[OF assms(1)] by blast
  then show ?thesis unfolding t by (rule calm_event_put(2)[OF assms(1) c])
qed (use assms(3) in simp_all)

text \<open>All events, by what they mean for an election.\<close>

lemma step_cases:
  assumes "basic s" and "raft_step s t"
  obtains (calm) "calm_event s t"
  | (vote) c v args reply now rf where "VoteReq c v args \<in># net s"
      "RequestVote now args (srv s v) = Some (rf, reply)"
      "changes s v rf (add_mset (VoteRep c v args reply) (net s - {#VoteReq c v args#})) t"
  | (elect) i now rnd rf where "i < nsrv s" "rstate (srv s i) \<noteq> Leader"
      "ticker now rnd (srv s i) = Some (rf, elect_requests (currentTerm (srv s i) + 1) (srv s i))"
      "rf = (persist ((srv s i)\<lparr>currentTerm := currentTerm (srv s i) + 1, votedFor := int i,
                         rstate := Candidate\<rparr>))
              \<lparr>voteGrantedCount := (voteGrantedCount (srv s i))(currentTerm (srv s i) + 1 \<mapsto> 1),
               lastRecivedTime := now, electionTimeout := (300 + rnd) * 1000000\<rparr>"
      "changes s i rf (net s + started i (elect_requests (currentTerm (srv s i) + 1) (srv s i))) t"
  | (reply) c v args reply now rf sp where "VoteRep c v args reply \<in># net s"
      "RequestVote_done now args reply (srv s c) = Some (rf, sp)"
      "changes s c rf (net s - {#VoteRep c v args reply#} + started c sp) t"
  | (restart) i now rnd rf where
      "Make (nsrv s) (int i) (Checkpoint (persister (srv s i))) now rnd = Some rf"
      "changes s i rf (filter_mset (survives i) (net s)) t"
proof -
  from assms(2) obtain ev where ex: "raft_exec ev s = Some t" by (auto simp: raft_step_iff)
  show thesis
  proof (cases ev)
    case (Tick i now rnd)
    with ex obtain rf sp where i: "i < nsrv s" and tk: "ticker now rnd (srv s i) = Some (rf, sp)"
      and t: "t = put i rf (started i sp) s"
      by (auto elim!: bindE split: if_split_asm)
    from tk show thesis
    proof (cases rule: ticker_cases)
      case idle
      then show thesis using calm_event_put(1)[OF assms(1) i, of rf sp] t calm by simp
    next
      case elect
      note me = basicD(1)[OF assms(1) i]
      show thesis
        by (rule that(3)[OF i elect(1)]) (use elect tk t i me in \<open>simp_all add: put_def changes_def\<close>)
    qed
  next
    case (Handle p now)
    with ex have p: "p \<in># net s" and h: "handle now p (s\<lparr>net := net s - {#p#}\<rparr>) = Some t"
      by (auto split: if_split_asm)
    show thesis
    proof (cases p)
      case (VoteReq c v args)
      with h obtain rf reply where "RequestVote now args (srv s v) = Some (rf, reply)"
        and "t = put v rf {#VoteRep c v args reply#} (s\<lparr>net := net s - {#p#}\<rparr>)"
        by (auto elim!: bindE)
      moreover have "v < nsrv s" using basic_ends[OF assms(1) p] VoteReq by simp
      ultimately show thesis using p VoteReq by (intro vote[of c v args]) (auto simp: put_def changes_def)
    next
      case (VoteRep c v args rep)
      with h obtain rf sp where "RequestVote_done now args rep (srv s c) = Some (rf, sp)"
        and "t = put c rf (started c sp) (s\<lparr>net := net s - {#p#}\<rparr>)"
        by (auto elim!: bindE)
      moreover have "c < nsrv s" using basic_ends[OF assms(1) p] VoteRep by simp
      ultimately show thesis using p VoteRep by (intro reply[of c v args rep]) (auto simp: put_def changes_def)
    qed (use replication_calm[OF assms(1) p _ h] calm in auto)
  next
    case (Restart i now rnd)
    with ex obtain rf where "Make (nsrv s) (int i) (Checkpoint (persister (srv s i))) now rnd = Some rf"
      and "changes s i rf (filter_mset (survives i) (net s)) t"
      by (auto elim!: bindE split: if_split_asm simp: changes_def)
    then show thesis by (rule restart)
  next
    case (Lose p)
    with ex show thesis using Lose_calm[OF assms(1)] calm by blast
  qed (use local_calm[OF assms(1) ex] calm in auto)
qed

section \<open>Stable storage across crashes\<close>

lemma restart_evolves:
  assumes "durable (srv s i)" and "Make n (int i) (Checkpoint (persister (srv s i))) now rnd = Some rf"
    and "me (srv s i) = int i" and "npeers (srv s i) = n"
  shows "evolves (srv s i) rf" "durable rf" "rstate rf = Follower"
    "(currentTerm rf, votedFor rf, rlog rf) = (currentTerm (srv s i), votedFor (srv s i), rlog (srv s i))"
    "rsnapshot rf = clone (rsnapshot (srv s i))"
proof -
  let ?ps = "Checkpoint (persister (srv s i))"
  from assms(2) Make_Some[of n "int i" ?ps now rnd] have
    r: "(currentTerm rf, votedFor rf, rlog rf) = recovered ?ps" "rsnapshot rf = ReadSnapshot ?ps"
      "persister rf = ?ps" "me rf = int i" "npeers rf = n" "rstate rf = Follower"
    by (metis option.inject)+
  have "recovered ?ps = recovered (persister (srv s i))" by (simp add: recovered_def)
  with r assms show eq: "(currentTerm rf, votedFor rf, rlog rf) =
      (currentTerm (srv s i), votedFor (srv s i), rlog (srv s i))"
    and "rsnapshot rf = clone (rsnapshot (srv s i))" and "durable rf" and "rstate rf = Follower"
    by (simp_all add: durable_def)
  from eq r(4,5) \<open>durable rf\<close> assms(3,4) show "evolves (srv s i) rf" by (simp add: evolves_def)
qed

lemma durable_volatile:
  "durable (rf\<lparr>voteGrantedCount := f, lastRecivedTime := x, electionTimeout := y\<rparr>) = durable rf"
  "durable (rf\<lparr>voteGrantedCount := f\<rparr>) = durable rf"
  by (simp_all add: durable_def)

lemma RequestVote_done_evolves:
  assumes "RequestVote_done now args reply rf = Some (rf', sp)" and "rlog rf \<noteq> []"
  shows "evolves rf rf'" and "calm_spawns (me rf) (currentTerm rf) (npeers rf) sp"
  using assms(1)
proof (induction rule: RequestVote_done_cases)
  case stale
  case 1 from stale show ?case by simp
  case 2 from stale show ?case by simp
next
  case refused
  case 1 from refused(1) show ?case using calm_evolves[OF calm_check[OF assms(2)]] by simp
  case 2 from refused show ?case by simp
next
  case (counted k)
  case 1 from counted show ?case by (simp add: evolves_def durable_volatile)
  case 2 from counted show ?case by simp
next
  case (won k)
  note facts = becomeLeader_facts[OF won(6)]
  case 1 from won(2) show ?case using facts by (simp add: evolves_def)
  case 2 from won(2) show ?case using facts(8) by simp
qed

lemma step_server:
  assumes "basic s" and "raft_step s t"
  shows "\<exists>i rf M. changes s i rf M t \<and> evolves (srv s i) rf \<and> routed (nsrv s) M"
  using assms
proof (cases rule: step_cases)
  case calm
  then show ?thesis by (auto simp: calm_event_def intro: calm_evolves)
next
  case (vote c v args reply now rf)
  note e = basic_ends[OF assms(1) vote(1)]
  from RequestVote_facts(1)[OF vote(2)] basicD(4)[OF assms(1)] e have "evolves (srv s v) rf"
    by (auto intro: calm_evolves)
  moreover have "routed (nsrv s) (net s - {#VoteReq c v args#})"
    using assms(1) by (auto simp: basic_def intro: routed_sub)
  ultimately show ?thesis using vote(3) e by fastforce
next
  case (elect i now rnd rf)
  note b = basicD[OF assms(1) elect(1)]
  have "evolves (srv s i) rf" unfolding elect(4) using b by (simp add: evolves_def durable_volatile)
  moreover have "routed (nsrv s) (net s)" using assms(1) by (simp add: basic_def)
  ultimately show ?thesis
    using elect(5) elect_requests_started[OF b(1,2) elect(1)] by (fastforce simp del: mset_map)
next
  case (reply c v args reply now rf sp)
  note e = basic_ends[OF assms(1) reply(1)]
  note b = basicD[OF assms(1) e(1)]
  have "routed (nsrv s) (started c sp)"
    using RequestVote_done_evolves(2)[OF reply(2) b(4)] calm_spawns_started e b by fastforce
  moreover have "routed (nsrv s) (net s - {#VoteRep c v args reply#})"
    using assms(1) by (auto simp: basic_def intro: routed_sub)
  ultimately show ?thesis using reply(3) RequestVote_done_evolves(1)[OF reply(2) b(4)]
    by (fastforce simp del: mset_map)
next
  case (restart i now rnd rf)
  then have "i < nsrv s" by (simp add: changes_def)
  note b = basicD[OF assms(1) this]
  have "routed (nsrv s) (filter_mset (survives i) (net s))"
    using assms(1) by (auto simp: basic_def intro: routed_sub)
  with restart(2) restart_evolves(1)[OF b(3) restart(1) b(1,2)] show ?thesis by blast
qed

lemma boot_frame [simp]: "nsrv (boot n now rnd) = n" "net (boot n now rnd) = {#}"
  by (simp_all add: boot_def)

lemma boot_server:
  fixes n i :: nat and now rnd :: "nat \<Rightarrow> int"
  defines "rf \<equiv> srv (boot n now rnd :: ('c, 'b) cluster) i"
  shows "Make n (int i) MakePersister (now i) (rnd i) = Some rf" and "me rf = int i"
    and "npeers rf = n" and "durable rf" and "rstate rf = Follower" and "currentTerm rf = 0"
    and "votedFor rf = -1" and "rlog rf = [boot_entry]" and "applier rf = Checking"
  by (rule Make_Some[of n "int i" "MakePersister :: ('c gobval, 'b) Persister" "now i" "rnd i"],
      simp add: boot_def rf_def durable_def recovered_def)+

lemma basic_init:
  assumes "raft_init s"
  shows "basic s"
  using assms
proof (induction rule: raft_init.induct)
  case (1 n now rnd)
  show ?case by (simp add: basic_def boot_server)
qed

lemma basic_step:
  assumes "basic s" and "raft_step s t"
  shows "basic t"
proof -
  from step_server[OF assms] obtain i rf M
    where "changes s i rf M t" "evolves (srv s i) rf" "routed (nsrv s) M" by blast
  with assms(1) show ?thesis by (auto simp: basic_def changes_def evolves_def)
qed

lemma basic_reach: "raft.reach s \<Longrightarrow> basic s"
  by (rule raft.reach_invariant) (auto intro: basic_init basic_step)

lemma step_evolves:
  assumes "basic s" and "raft_step s t"
  shows "nsrv t = nsrv s" and "evolves (srv s i) (srv t i)"
  using step_server[OF assms] by (auto simp: changes_def)

section \<open>The votes of all terms\<close>

text \<open>
  The history variable: for every server and term the last value of \<open>votedFor\<close> that was seen
  while the server was in that term.
\<close>

type_synonym vote_history = "nat \<Rightarrow> int \<Rightarrow> int"

definition see_votes :: "('c, 'b) cluster \<Rightarrow> vote_history \<Rightarrow> vote_history" where
  "see_votes s g = (\<lambda>i T. if i < nsrv s \<and> currentTerm (srv s i) = T then votedFor (srv s i) else g i T)"

interpretation election: observed_system raft_init raft_step "\<lambda>s. see_votes s (\<lambda>_ _. -1)" "\<lambda>_ t. see_votes t"
  by unfold_locales

fun vote_of :: "('c, 'b) packet \<Rightarrow> (nat \<times> nat \<times> int) option" where
  "vote_of (VoteReq c v a) = Some (c, v, rvTerm a)"
| "vote_of (VoteRep c v a r) = Some (c, v, rvTerm a)"
| "vote_of _ = None"

text \<open>The calls of candidate \<open>c\<close> to server \<open>v\<close> for term \<open>T\<close> that are not yet decided.\<close>

definition pending :: "('c, 'b) packet multiset \<Rightarrow> nat \<Rightarrow> nat \<Rightarrow> int \<Rightarrow> nat" where
  "pending M c v T = size (filter_mset (\<lambda>p. vote_of p = Some (c, v, T)) M)"

text \<open>The servers whose vote candidate \<open>c\<close> has counted at most: itself, and those that voted
  for it and owe it no answer.\<close>

definition supporters :: "nat \<Rightarrow> vote_history \<Rightarrow> ('c, 'b) packet multiset \<Rightarrow> nat \<Rightarrow> int \<Rightarrow> nat set" where
  "supporters n g M c T = {v. v < n \<and> (v = c \<or> g v T = int c \<and> pending M c v T = 0)}"

fun vote_ok :: "('c, 'b) cluster \<Rightarrow> vote_history \<Rightarrow> ('c, 'b) packet \<Rightarrow> bool" where
  "vote_ok s g (VoteReq c v a) \<longleftrightarrow> rvCandidateId a = int c \<and> rvTerm a \<le> currentTerm (srv s c)"
| "vote_ok s g (VoteRep c v a r) \<longleftrightarrow> rvCandidateId a = int c \<and> rvTerm a \<le> currentTerm (srv s c) \<and>
     (rrVoteGranted r \<longrightarrow> g v (rvTerm a) = int c)"
| "vote_ok s g _ \<longleftrightarrow> True"

definition campaign_ok :: "('c, 'b) cluster \<Rightarrow> vote_history \<Rightarrow> nat \<Rightarrow> bool" where
  "campaign_ok s g c \<longleftrightarrow> (let rf = srv s c; T = currentTerm rf in
     (rstate rf \<noteq> Follower \<longrightarrow> votedFor rf = int c) \<and>
     (rstate rf = Candidate \<longrightarrow>
        (\<exists>k. voteGrantedCount rf T = Some k \<and> k \<le> card (supporters (nsrv s) g (net s) c T))) \<and>
     (rstate rf = Leader \<longrightarrow> nsrv s div 2 < card {v. v < nsrv s \<and> g v T = int c}))"

definition election_inv :: "('c, 'b) cluster \<Rightarrow> vote_history \<Rightarrow> bool" where
  "election_inv s g \<longleftrightarrow> basic s \<and>
     (\<forall>i < nsrv s. g i (currentTerm (srv s i)) = votedFor (srv s i)) \<and>
     (\<forall>i < nsrv s. \<forall>T > currentTerm (srv s i). g i T = -1) \<and>
     (\<forall>p \<in># net s. vote_ok s g p) \<and>
     (\<forall>c v T. pending (net s) c v T \<le> 1) \<and>
     (\<forall>c < nsrv s. campaign_ok s g c)"

lemma pending_simps [simp]:
  "pending {#} c v T = 0"
  "pending (M + N) c v T = pending M c v T + pending N c v T"
  "pending (add_mset p M) c v T = (if vote_of p = Some (c, v, T) then Suc (pending M c v T) else pending M c v T)"
  by (simp_all add: pending_def)

lemma pending_mono: "M \<subseteq># N \<Longrightarrow> pending M c v T \<le> pending N c v T"
  unfolding pending_def by (intro size_mset_mono multiset_filter_mono)

lemma pending_votes_in:
  fixes M :: "('c, 'd) packet multiset"
  shows "pending (votes_in M) c v T = pending M c v T"
proof -
  have "(is_vote p \<and> vote_of p = Some (c, v, T)) \<longleftrightarrow> vote_of p = Some (c, v, T)"
    for p :: "('c, 'd) packet" by (cases p) auto
  then show ?thesis by (simp add: pending_def filter_filter_mset conj_commute)
qed

lemma pending_remove:
  assumes "p \<in># M"
  shows "pending M c v T = (if vote_of p = Some (c, v, T) then 1 else 0) + pending (M - {#p#}) c v T"
  using arg_cong[OF insert_DiffM[OF assms], of "\<lambda>M. pending M c v T"] by (auto split: if_splits)

lemma pending_none: "(\<forall>p \<in># M. vote_of p \<noteq> Some (c, v, T)) \<Longrightarrow> pending M c v T = 0"
  by (auto simp: pending_def)

lemma supporters_mono:
  assumes "\<And>v. v < n \<Longrightarrow> g v T = int c \<Longrightarrow> g' v T = int c"
    and "\<And>v. pending M' c v T \<le> pending M c v T"
  shows "card (supporters n g M c T) \<le> card (supporters n g' M' c T)"
proof (rule card_mono)
  show "finite (supporters n g' M' c T)" by (simp add: supporters_def)
  have "pending M' c v T = 0" if "pending M c v T = 0" for v
    using assms(2)[of v] that by simp
  then show "supporters n g M c T \<subseteq> supporters n g' M' c T"
    using assms(1) by (auto simp: supporters_def)
qed

lemma see_votes_stable:
  assumes "election_inv s g" and "raft_step s t" and "i < nsrv s" and "g i T \<noteq> -1"
  shows "see_votes t g i T = g i T"
proof -
  have b: "basic s" using assms(1) by (simp add: election_inv_def)
  note ev = step_evolves[OF b assms(2)]
  have "g i (currentTerm (srv s i)) = votedFor (srv s i)" "T \<le> currentTerm (srv s i)"
    using assms(1,3,4) by (auto simp: election_inv_def not_le[symmetric])
  with ev(2)[of i] assms(4) show ?thesis by (auto simp: see_votes_def evolves_def)
qed

lemma vote_ok_stable:
  assumes "election_inv s g" and "raft_step s t" and "vote_ok s g p"
    and "snd (ends p) < nsrv s"
  shows "vote_ok t (see_votes t g) p"
proof -
  have "basic s" using assms(1) by (simp add: election_inv_def)
  from step_evolves(2)[OF this assms(2)] have "currentTerm (srv s i) \<le> currentTerm (srv t i)" for i
    by (simp add: evolves_def)
  note later = order_trans[OF _ this]
  show ?thesis using assms(3,4) see_votes_stable[OF assms(1,2)]
    by (cases p) (auto intro: later)
qed

text \<open>
  The invariant after a step of server \<open>i\<close>, given what the step does to its own campaign and to
  the undecided calls; the other campaigns only gain supporters.
\<close>

lemma election_change:
  assumes inv: "election_inv s g" and st: "raft_step s t" and ch: "changes s i rf M t"
    and single: "\<And>c v T. pending M c v T \<le> 1"
    and others: "\<And>c v T. c \<noteq> i \<Longrightarrow> pending M c v T \<le> pending (net s) c v T"
    and ok: "\<And>p. p \<in># M \<Longrightarrow> vote_ok t (see_votes t g) p"
    and own: "campaign_ok t (see_votes t g) i"
  shows "election_inv t (see_votes t g)"
proof -
  have b: "basic s" using inv by (simp add: election_inv_def)
  note ev = step_evolves[OF b st]
  have fresh: "see_votes t g j T = -1" if "j < nsrv t" "T > currentTerm (srv t j)" for j T
    using inv that ev(1) ev(2)[of j] by (auto simp: election_inv_def see_votes_def evolves_def)
  have "campaign_ok t (see_votes t g) c" if c: "c < nsrv t" for c
  proof (cases "c = i")
    case False
    then have same: "srv t c = srv s c" using ch by (simp add: changes_def)
    let ?T = "currentTerm (srv s c)"
    have keep: "see_votes t g v ?T = int c" if "v < nsrv s" "g v ?T = int c" for v
      using see_votes_stable[OF inv st that(1), of ?T] that(2) by simp
    have "card (supporters (nsrv s) g (net s) c ?T) \<le>
        card (supporters (nsrv s) (see_votes t g) (net t) c ?T)"
      using keep others[OF False] ch by (intro supporters_mono) (auto simp: changes_def)
    moreover have "card {v. v < nsrv s \<and> g v ?T = int c} \<le>
        card {v. v < nsrv s \<and> see_votes t g v ?T = int c}"
      using keep by (intro card_mono) auto
    moreover have "campaign_ok s g c" using inv c ev(1) by (simp add: election_inv_def)
    ultimately show ?thesis
      unfolding campaign_ok_def Let_def same ev(1) by (meson le_trans less_le_trans)
  qed (use own in simp)
  then show ?thesis unfolding election_inv_def
    using basic_step[OF b st] fresh ok single ch
    by (auto simp: changes_def see_votes_def)
qed

text \<open>A step that leaves the campaign of the server as it was, or ends it.\<close>

lemma election_keep:
  assumes inv: "election_inv s g" and st: "raft_step s t" and ch: "changes s i rf M t"
    and fewer: "\<And>c v T. pending M c v T \<le> pending (net s) c v T"
    and ok: "\<And>p. p \<in># M \<Longrightarrow> vote_ok t (see_votes t g) p"
    and keep: "rstate rf = Follower \<or> rstate rf = rstate (srv s i) \<and>
       currentTerm rf = currentTerm (srv s i) \<and> votedFor rf = votedFor (srv s i) \<and>
       voteGrantedCount rf = voteGrantedCount (srv s i)"
  shows "election_inv t (see_votes t g)"
proof (rule election_change[OF inv st ch _ fewer ok])
  show "pending M c v T \<le> 1" for c v T
    using fewer[of c v T] inv by (auto simp: election_inv_def intro: order_trans)
  have t: "srv t i = rf" "nsrv t = nsrv s" "net t = M" and i: "i < nsrv s"
    using ch by (auto simp: changes_def)
  let ?T = "currentTerm (srv s i)"
  have "see_votes t g v ?T = int i" if "v < nsrv s" "g v ?T = int i" for v
    using see_votes_stable[OF inv st that(1), of ?T] that(2) by simp
  note stable = this
  have "card (supporters (nsrv s) g (net s) i ?T) \<le>
      card (supporters (nsrv s) (see_votes t g) M i ?T)"
    using stable fewer by (intro supporters_mono)
  moreover have "card {v. v < nsrv s \<and> g v ?T = int i} \<le>
      card {v. v < nsrv s \<and> see_votes t g v ?T = int i}"
    using stable by (intro card_mono) auto
  moreover have "campaign_ok s g i" using inv i by (simp add: election_inv_def)
  ultimately show "campaign_ok t (see_votes t g) i"
    using keep unfolding campaign_ok_def Let_def t
    by (elim disjE) (auto intro: le_trans less_le_trans)
qed

lemma calm_keep:
  assumes "calm rf rf'" and "rstate rf \<noteq> Follower \<longrightarrow> votedFor rf = int i"
  shows "rstate rf' = Follower \<or> rstate rf' = rstate rf \<and> currentTerm rf' = currentTerm rf \<and>
     votedFor rf' = votedFor rf \<and> voteGrantedCount rf' = voteGrantedCount rf"
  using assms by (cases "rstate rf") (auto simp: calm_def split: if_split_asm)

lemma election_inv_campaign:
  assumes "election_inv s g" and "i < nsrv s"
  shows "rstate (srv s i) \<noteq> Follower \<longrightarrow> votedFor (srv s i) = int i"
  using assms by (auto simp: election_inv_def campaign_ok_def Let_def)

text \<open>Old packets stay well-formed.\<close>

lemma old_votes_ok:
  assumes "election_inv s g" and "raft_step s t" and "p \<in># net s"
  shows "vote_ok t (see_votes t g) p"
proof (rule vote_ok_stable[OF assms(1,2)])
  show "vote_ok s g p" using assms(1,3) by (simp add: election_inv_def)
  show "snd (ends p) < nsrv s" using assms(1,3) by (simp add: election_inv_def basic_def routed_def)
qed

lemma not_vote_ok: "\<not> is_vote p \<Longrightarrow> vote_ok s g p"
  by (cases p) auto

lemma election_calm_event:
  assumes inv: "election_inv s g" and st: "raft_step s t" and "calm_event s t"
  shows "election_inv t (see_votes t g)"
proof -
  from assms(3) obtain i rf M where ch: "changes s i rf M t" and c: "calm (srv s i) rf"
    and sub: "votes_in M \<subseteq># votes_in (net s)"
    by (auto simp: calm_event_def)
  show ?thesis
  proof (rule election_keep[OF inv st ch])
    show "pending M c v T \<le> pending (net s) c v T" for c v T
      using pending_mono[OF sub, of c v T] by (simp add: pending_votes_in)
    show "vote_ok t (see_votes t g) p" if "p \<in># M" for p
    proof (cases "is_vote p")
      case True
      with that have "p \<in># votes_in M" by simp
      from mset_subset_eqD[OF sub this] show ?thesis by (auto intro: old_votes_ok[OF inv st])
    qed (rule not_vote_ok)
    show "rstate rf = Follower \<or> rstate rf = rstate (srv s i) \<and>
       currentTerm rf = currentTerm (srv s i) \<and> votedFor rf = votedFor (srv s i) \<and>
       voteGrantedCount rf = voteGrantedCount (srv s i)"
      by (rule calm_keep[OF c election_inv_campaign[OF inv]]) (use ch in \<open>simp add: changes_def\<close>)
  qed
qed

lemma election_vote:
  assumes inv: "election_inv s g" and st: "raft_step s t"
    and req: "VoteReq c v args \<in># net s" and rv: "RequestVote now args (srv s v) = Some (rf, reply)"
    and ch: "changes s v rf (add_mset (VoteRep c v args reply) (net s - {#VoteReq c v args#})) t"
  shows "election_inv t (see_votes t g)"
proof -
  have b: "basic s" using inv by (simp add: election_inv_def)
  have v: "v < nsrv s" using basic_ends[OF b req] by simp
  note facts = RequestVote_facts[OF rv basicD(4)[OF b v]]
  have old: "vote_ok t (see_votes t g) (VoteReq c v args)" by (rule old_votes_ok[OF inv st req])
  show ?thesis
  proof (rule election_keep[OF inv st ch])
    show "pending (add_mset (VoteRep c v args reply) (net s - {#VoteReq c v args#})) c' v' T
        \<le> pending (net s) c' v' T" for c' v' T
      using pending_remove[OF req, of c' v' T] by simp
    have "rrVoteGranted reply \<longrightarrow> see_votes t g v (rvTerm args) = int c"
      using facts(2) old ch v by (auto simp: see_votes_def changes_def)
    with old have "vote_ok t (see_votes t g) (VoteRep c v args reply)" by simp
    then show "vote_ok t (see_votes t g) p"
      if "p \<in># add_mset (VoteRep c v args reply) (net s - {#VoteReq c v args#})" for p
      using that old_votes_ok[OF inv st] by (auto dest: in_diffD)
    show "rstate rf = Follower \<or> rstate rf = rstate (srv s v) \<and>
       currentTerm rf = currentTerm (srv s v) \<and> votedFor rf = votedFor (srv s v) \<and>
       voteGrantedCount rf = voteGrantedCount (srv s v)"
      by (rule calm_keep[OF facts(1) election_inv_campaign[OF inv v]])
  qed
qed

lemma election_restart:
  assumes inv: "election_inv s g" and st: "raft_step s t"
    and mk: "Make (nsrv s) (int i) (Checkpoint (persister (srv s i))) now rnd = Some rf"
    and ch: "changes s i rf (filter_mset (survives i) (net s)) t"
  shows "election_inv t (see_votes t g)"
proof -
  have b: "basic s" using inv by (simp add: election_inv_def)
  have i: "i < nsrv s" using ch by (simp add: changes_def)
  note bi = basicD[OF b i]
  show ?thesis
    by (rule election_keep[OF inv st ch])
      (use restart_evolves(3)[OF bi(3) mk bi(1,2)] in
        \<open>auto intro: pending_mono old_votes_ok[OF inv st]\<close>)
qed

lemma pending_elect:
  assumes "me rf = int i" and "npeers rf = n"
  shows "pending (started i (elect_requests T rf)) c v T' =
     (if c = i \<and> T' = T \<and> v < n \<and> v \<noteq> i then 1 else 0)"
proof -
  let ?xs = "filter (\<lambda>v. v \<noteq> i) [0..<n]"
  have "pending (started i (elect_requests T rf)) c v T' =
      length (filter (\<lambda>x. c = i \<and> T' = T \<and> x = v) ?xs)"
    using assms by (auto simp: pending_def elect_requests_def elect_args_def o_def
        filter_mset_image_mset simp flip: mset_map mset_filter intro!: arg_cong[of _ _ length] filter_cong)
  also have "\<dots> = card ({x. c = i \<and> T' = T \<and> x = v} \<inter> set ?xs)"
    by (rule distinct_length_filter) simp
  also have "{x. c = i \<and> T' = T \<and> x = v} \<inter> set ?xs =
      (if c = i \<and> T' = T \<and> v < n \<and> v \<noteq> i then {v} else {})" by auto
  also have "card \<dots> = (if c = i \<and> T' = T \<and> v < n \<and> v \<noteq> i then 1 else 0)" by simp
  finally show ?thesis .
qed

lemma election_elect:
  assumes inv: "election_inv s g" and st: "raft_step s t" and i: "i < nsrv s"
    and rf: "rf = (persist ((srv s i)\<lparr>currentTerm := currentTerm (srv s i) + 1, votedFor := int i,
                         rstate := Candidate\<rparr>))
              \<lparr>voteGrantedCount := (voteGrantedCount (srv s i))(currentTerm (srv s i) + 1 \<mapsto> 1),
               lastRecivedTime := now, electionTimeout := (300 + rnd) * 1000000\<rparr>"
    and ch: "changes s i rf (net s + started i (elect_requests (currentTerm (srv s i) + 1) (srv s i))) t"
  shows "election_inv t (see_votes t g)"
proof -
  have b: "basic s" using inv by (simp add: election_inv_def)
  note bi = basicD[OF b i]
  let ?T = "currentTerm (srv s i) + 1"
  have old: "pending (net s) i v ?T = 0" for v
  proof (rule pending_none, rule ballI)
    fix p assume "p \<in># net s"
    then have "vote_ok s g p" using inv by (simp add: election_inv_def)
    then show "vote_of p \<noteq> Some (i, v, ?T)" by (cases p) auto
  qed
  have t: "srv t i = rf" "nsrv t = nsrv s" using ch by (auto simp: changes_def)
  show ?thesis
  proof (rule election_change[OF inv st ch])
    show "pending (net s + started i (elect_requests ?T (srv s i))) c v T \<le> 1" for c v T
      using old[of v] inv by (auto simp: pending_elect[OF bi(1,2)] election_inv_def simp del: mset_map)
    show "pending (net s + started i (elect_requests ?T (srv s i))) c v T \<le> pending (net s) c v T"
      if "c \<noteq> i" for c v T
      using that by (simp add: pending_elect[OF bi(1,2)] del: mset_map)
    show "vote_ok t (see_votes t g) p" if "p \<in># net s + started i (elect_requests ?T (srv s i))" for p
      using that old_votes_ok[OF inv st, of p] bi(1)
      by (auto simp: elect_requests_def elect_args_def t rf)
    have "i \<in> supporters (nsrv t) (see_votes t g) (net t) i ?T"
      using i t(2) by (simp add: supporters_def)
    then have "1 \<le> card (supporters (nsrv t) (see_votes t g) (net t) i ?T)"
      by (simp add: Suc_le_eq card_gt_0_iff supporters_def) blast
    then show "campaign_ok t (see_votes t g) i"
      by (simp add: campaign_ok_def Let_def t(1) rf)
  qed
qed

lemma election_count:
  assumes inv: "election_inv s g" and st: "raft_step s t"
    and rep: "VoteRep c v args reply \<in># net s" and granted: "rrVoteGranted reply"
    and T: "rvTerm args = currentTerm (srv s c)" and cand: "rstate (srv s c) = Candidate"
    and k: "voteGrantedCount (srv s c) (currentTerm (srv s c)) = Some k"
    and t: "nsrv t = nsrv s"
    and M: "\<And>v'. pending M c v' (currentTerm (srv s c)) \<le>
          pending (net s - {#VoteRep c v args reply#}) c v' (currentTerm (srv s c))"
  shows "Suc k \<le> card (supporters (nsrv s) (see_votes t g) M c (currentTerm (srv s c)))"
proof -
  let ?T = "currentTerm (srv s c)" and ?p = "VoteRep c v args reply"
  have b: "basic s" using inv by (simp add: election_inv_def)
  note e = basic_ends[OF b rep, of c v, simplified]
  have "pending (net s) c v ?T \<le> 1" using inv by (simp add: election_inv_def)
  with pending_remove[OF rep, of c v ?T] T have p1: "pending (net s) c v ?T = 1"
    and p0: "pending (net s - {#?p#}) c v ?T = 0" by auto
  have "vote_ok s g ?p" using inv rep unfolding election_inv_def by blast
  with granted T have gv: "g v ?T = int c" by simp
  have stable: "see_votes t g w ?T = int c" if "w < nsrv s" "g w ?T = int c" for w
    using see_votes_stable[OF inv st that(1), of ?T] that(2) by simp
  have sub: "supporters (nsrv s) g (net s) c ?T \<subseteq> supporters (nsrv s) (see_votes t g) M c ?T"
  proof -
    have "pending M c w ?T = 0" if "pending (net s) c w ?T = 0" for w
      using M[of w] pending_mono[of "net s - {#?p#}" "net s" c w ?T] that by simp
    then show ?thesis using stable by (auto simp: supporters_def)
  qed
  moreover have "v \<notin> supporters (nsrv s) g (net s) c ?T" using p1 e by (simp add: supporters_def)
  moreover have "v \<in> supporters (nsrv s) (see_votes t g) M c ?T"
    using M[of v] p0 e gv stable by (simp add: supporters_def)
  moreover have "finite (supporters (nsrv s) (see_votes t g) M c ?T)" by (simp add: supporters_def)
  ultimately have "card (supporters (nsrv s) g (net s) c ?T) < card (supporters (nsrv s) (see_votes t g) M c ?T)"
    by (intro psubset_card_mono) auto
  moreover have "k \<le> card (supporters (nsrv s) g (net s) c ?T)"
    using inv e cand k by (auto simp: election_inv_def campaign_ok_def Let_def)
  ultimately show ?thesis by simp
qed

lemma election_reply:
  assumes inv: "election_inv s g" and st: "raft_step s t"
    and rep: "VoteRep c v args reply \<in># net s"
    and rd: "RequestVote_done now args reply (srv s c) = Some (rf, sp)"
    and ch: "changes s c rf (net s - {#VoteRep c v args reply#} + started c sp) t"
  shows "election_inv t (see_votes t g)"
proof -
  let ?M = "net s - {#VoteRep c v args reply#} + started c sp"
  have b: "basic s" using inv by (simp add: election_inv_def)
  have c: "c < nsrv s" using ch by (simp add: changes_def)
  note bc = basicD[OF b c]
  have "calm_spawns (int c) (currentTerm (srv s c)) (nsrv s) sp"
    using RequestVote_done_evolves(2)[OF rd bc(4)] bc by simp
  then have "votes_in (started c sp) = {#}" using calm_spawns_started[OF _ c] by blast
  then have nv: "pending (started c sp) c' v' T = 0" and new: "p \<in># started c sp \<Longrightarrow> \<not> is_vote p"
    for c' v' T p
    using pending_votes_in[of "started c sp"] by (metis pending_simps(1), force)
  then have pend: "pending ?M c' v' T = pending (net s - {#VoteRep c v args reply#}) c' v' T" for c' v' T
    by simp
  have fewer: "pending ?M c' v' T \<le> pending (net s) c' v' T" for c' v' T
    unfolding pend by (rule pending_mono) simp
  have ok: "vote_ok t (see_votes t g) p" if "p \<in># ?M" for p
    using that new[of p] old_votes_ok[OF inv st] by (auto intro: not_vote_ok dest: in_diffD simp del: mset_map)
  have t: "srv t c = rf" "nsrv t = nsrv s" "net t = ?M" using ch by (simp_all add: changes_def)
  have count: "Suc k \<le> card (supporters (nsrv s) (see_votes t g) ?M c (currentTerm (srv s c)))"
    if "rvTerm args = currentTerm (srv s c)" "rstate (srv s c) = Candidate" "rrVoteGranted reply"
      "voteGrantedCount (srv s c) (currentTerm (srv s c)) = Some k" for k
    by (rule election_count[OF inv st rep that(3,1,2,4) t(2)]) (simp only: pend order_refl)
  have one: "pending ?M c' v' T \<le> 1" for c' v' T
    using fewer[of c' v' T] inv unfolding election_inv_def by (meson order_trans)
  have own: "votedFor (srv s c) = int c" if "rstate (srv s c) = Candidate"
    using election_inv_campaign[OF inv c] that by simp
  from rd show ?thesis
  proof (cases rule: RequestVote_done_cases)
    case stale
    then show ?thesis by (intro election_keep[OF inv st ch fewer ok]) simp_all
  next
    case refused
    have "calm (srv s c) rf" unfolding refused(1) by (rule calm_check[OF bc(4)])
    then show ?thesis
      by (intro election_keep[OF inv st ch fewer ok] calm_keep[OF _ election_inv_campaign[OF inv c]])
  next
    case (counted k)
    have "campaign_ok t (see_votes t g) c"
      using count[OF counted(1-4)] own[OF counted(2)] counted(2)
      by (simp add: campaign_ok_def Let_def t counted(7) del: mset_map)
    then show ?thesis by (intro election_change[OF inv st ch one fewer ok])
  next
    case (won k)
    note facts = becomeLeader_facts[OF won(6)]
    have term': "currentTerm rf = currentTerm (srv s c)" "votedFor rf = int c" "rstate rf = Leader"
      using facts won(2) own[OF won(2)] by simp_all
    have sub: "supporters (nsrv s) (see_votes t g) ?M c (currentTerm rf)
        \<subseteq> {w. w < nsrv s \<and> see_votes t g w (currentTerm rf) = int c}"
      using t term' c by (auto simp: supporters_def see_votes_def)
    have "nsrv s div 2 < Suc k" using won(5) bc(2) by simp
    also have "\<dots> \<le> card (supporters (nsrv s) (see_votes t g) ?M c (currentTerm rf))"
      using count[OF won(1-4)] term'(1) by simp
    also have "\<dots> \<le> card {w. w < nsrv s \<and> see_votes t g w (currentTerm rf) = int c}"
      by (rule card_mono[OF _ sub]) simp
    finally have "campaign_ok t (see_votes t g) c"
      using term' by (simp add: campaign_ok_def Let_def t)
    then show ?thesis by (intro election_change[OF inv st ch one fewer ok])
  qed
qed

lemma election_inv_step:
  assumes inv: "election_inv s g" and st: "raft_step s t"
  shows "election_inv t (see_votes t g)"
proof -
  have "basic s" using inv by (simp add: election_inv_def)
  from this st show ?thesis
  proof (cases rule: step_cases)
    case calm
    then show ?thesis by (rule election_calm_event[OF inv st])
  next
    case (vote c v args reply now rf)
    then show ?thesis by (rule election_vote[OF inv st])
  next
    case (elect i now rnd rf)
    then show ?thesis by (intro election_elect[OF inv st elect(1,4,5)])
  next
    case (reply c v args reply now rf sp)
    then show ?thesis by (rule election_reply[OF inv st])
  next
    case (restart i now rnd rf)
    then show ?thesis by (rule election_restart[OF inv st])
  qed
qed

lemma election_inv_init: "raft_init s \<Longrightarrow> election_inv s (see_votes s (\<lambda>_ _. -1))"
proof (induction rule: raft_init.induct)
  case (1 n now rnd)
  show ?case
    using basic_init[OF raft_init.intros[of n now rnd]]
    by (simp add: election_inv_def campaign_ok_def see_votes_def boot_server)
qed

lemma election_inv_reach: "raft.reach s \<Longrightarrow> \<exists>g. election_inv s g"
  by (rule election.observed_invariant) (auto intro: election_inv_init election_inv_step)

section \<open>Election safety\<close>

lemma leader_unique:
  assumes "raft.reach s" and "i < nsrv s" and "j < nsrv s"
    and "rstate (srv s i) = Leader" and "rstate (srv s j) = Leader"
    and "currentTerm (srv s i) = currentTerm (srv s j)"
  shows "i = j"
proof -
  from election_inv_reach[OF assms(1)] obtain g where inv: "election_inv s g" ..
  let ?V = "\<lambda>c. {v. v < nsrv s \<and> g v (currentTerm (srv s j)) = int c}"
  have "nsrv s div 2 < card (?V i)" "nsrv s div 2 < card (?V j)"
    using inv assms by (auto simp: election_inv_def campaign_ok_def Let_def)
  then have "\<exists>v. v \<in> ?V i \<and> v \<in> ?V j"
    by (intro majorities_meet[of "{v. v < nsrv s}"]) auto
  then show ?thesis by auto
qed

end
