(* ===== verification/RaftLogInv.thy ===== *)
theory RaftLogInv
  imports RaftElection
begin

text \<open>
  The log of every server has consecutive indices in every reachable state, every AppendEntry
  call in the network carries consecutive entries, and with this the three RPC handlers never
  access a slice out of range.
\<close>

section \<open>Handlers keep the log well-formed\<close>

definition app_ok :: "'c AppendEntryArgs \<Rightarrow> bool" where
  "app_ok a \<longleftrightarrow> consec (aePrevLogIndex a + 1) (aeEntries a)"

definition wf_out :: "('c, 'b) Raft \<Rightarrow> 'c spawn list \<Rightarrow> bool" where
  "wf_out rf sp \<longleftrightarrow> wf_log (rlog rf) \<and> (\<forall>p a. GoAppendEntry p a \<in> set sp \<longrightarrow> app_ok a)"

lemma wf_out_Nil [simp]: "wf_out rf [] \<longleftrightarrow> wf_log (rlog rf)"
  by (simp add: wf_out_def)

lemma sendHeatbeat_peer_app:
  assumes "sendHeatbeat_peer now force p rf = Some (rf', sp)" and "wf_log (rlog rf)"
    and "GoAppendEntry q a \<in> set sp"
  shows "app_ok a"
proof -
  define l b where "l = rlog rf" and "b = firstIndex l"
  have cb: "consec b l" and ne: "l \<noteq> []" using assms(2) by (auto simp: wf_log_def l_def b_def)
  from assms(1,3) obtain nxt pre es where
    pre: "go_nth l (nxt - b - 1) = Some pre" and prev: "aePrevLogIndex a = eIndex pre"
    and es: "(if nxt \<le> lastIndex l then go_from l (nxt - b) else Some []) = Some es"
    and a: "aeEntries a = es"
    unfolding sendHeatbeat_peer_def Let_def
    by (auto elim!: bindE split: if_split_asm simp: l_def b_def go_last_Some_iff go_nth_hd go_nth_0)
  from pre have k: "nxt - b - 1 \<ge> 0" "nat (nxt - b - 1) < length l"
    and "pre = l ! nat (nxt - b - 1)" by (auto simp: go_simps)
  with consec_nth[OF cb] have "eIndex pre = nxt - 1" by simp
  moreover have "consec nxt es"
  proof (cases "nxt \<le> lastIndex l")
    case True
    with es have "es = drop (nat (nxt - b)) l" by (simp add: go_simps)
    then show ?thesis using consec_drop[OF cb, of "nat (nxt - b)"] k
      by (auto simp: min_def split: if_split_asm)
  qed (use es in simp)
  ultimately show ?thesis by (simp add: app_ok_def prev a)
qed

lemma sendHeatbeat_loop_app:
  assumes "sendHeatbeat_loop now force ps rf = Some (rf', sp)" and "wf_log (rlog rf)"
    and "GoAppendEntry q a \<in> set sp"
  shows "app_ok a"
  using assms
proof (induction ps arbitrary: rf sp)
  case (Cons p ps)
  from Cons.prems(1) obtain rf1 s1 s2 where 1: "sendHeatbeat_peer now force p rf = Some (rf1, s1)"
    and 2: "sendHeatbeat_loop now force ps rf1 = Some (rf', s2)" and sp: "sp = s1 @ s2"
    by (auto elim!: bindE)
  have "rlog rf1 = rlog rf" using blank_sends[OF sendHeatbeat_peer_facts(1)[OF 1]]
    by (metis Raft.select_convs(6) Raft.surjective Raft.update_convs(15))
  with Cons.IH[OF 2] Cons.prems(2,3) sendHeatbeat_peer_app[OF 1] sp show ?case by auto
qed simp

lemma wf_sendHeatbeat:
  assumes "sendHeatbeat now force rf = Some (rf', sp)" and "wf_log (rlog rf)"
  shows "wf_out rf' sp"
proof -
  from assms(1) have "rlog rf' = rlog rf" by (rule sendHeatbeat_frame) simp
  with assms show ?thesis
    by (auto simp: wf_out_def sendHeatbeat_def dest: sendHeatbeat_loop_app)
qed

lemma wf_updateCommitIndex:
  assumes "updateCommitIndex now idx rf = Some (rf', sp)" and "wf_log (rlog rf)"
  shows "wf_out rf' sp"
proof -
  have "wf_out rf' sp" if "updateCommit_loop now i rf = Some (rf', sp)" for i
    using that
  proof (cases rule: updateCommit_loop_cases)
    case (commit j e count)
    from wf_sendHeatbeat[OF commit(7)] assms(2) show ?thesis by simp
  qed (use assms(2) in simp)
  with assms show ?thesis
    by (auto simp: updateCommitIndex_def Let_def elim!: bindE split: if_split_asm)
qed

lemma wf_snoc: "wf_log l \<Longrightarrow> eIndex e = lastIndex l + 1 \<Longrightarrow> wf_log (l @ [e])"
  by (simp add: wf_log_append)

lemma wf_becomeLeader:
  assumes "becomeLeader now rf = Some (rf', sp)" and "wf_log (rlog rf)"
  shows "wf_out rf' sp"
proof (cases "rstate rf = Candidate")
  case True
  with assms(1) obtain rf1 where 1: "becomeLeader_loop now (lastIndex (rlog rf)) [0..<npeers rf] rf = Some rf1"
    and 2: "go_last (rlog rf1) \<bind> (\<lambda>lastLog. sendHeatbeat now True (persist (rf1\<lparr>rstate := Leader,
      rlog := rlog rf1 @ [\<lparr>eTerm = currentTerm rf1, eIndex = eIndex lastLog + 1, eCommand = None,
                eStart = UnixMilli now\<rparr>]\<rparr>))) = Some (rf', sp)"
    unfolding becomeLeader_def Let_def getLastLogIndexAndTerm_def
    by (auto elim!: bindE simp: go_last_Some_iff go_last_eq)
  from 1 have "rlog rf1 = rlog rf" by (rule becomeLeader_loop_frame) simp
  with assms(2) 2 show ?thesis
    by (auto simp: go_last_Some_iff elim!: bindE intro!: wf_sendHeatbeat wf_snoc)
qed (use assms in \<open>auto simp: becomeLeader_def\<close>)

lemma wf_RequestVote_done:
  assumes "RequestVote_done now args reply rf = Some (rf', sp)" and "wf_log (rlog rf)"
  shows "wf_out rf' sp"
  using assms(1)
proof (cases rule: RequestVote_done_cases)
  case (won k)
  from wf_becomeLeader[OF won(6)] assms(2) show ?thesis by simp
qed (use assms(2) in simp_all)

lemma wf_AppendEntry_done:
  assumes "AppendEntry_done now p args reply rf = Some (rf', sp)" and "wf_log (rlog rf)"
  shows "wf_out rf' sp"
  using assms unfolding AppendEntry_done_def Let_def
  by (auto elim!: bindE split: if_split_asm dest!: wf_updateCommitIndex)

lemma wf_InstallSnapshot_done:
  assumes "InstallSnapshot_done now p args reply rf = Some (rf', sp)" and "wf_log (rlog rf)"
  shows "wf_out rf' sp"
  using assms unfolding InstallSnapshot_done_def Let_def
  by (auto elim!: bindE split: if_split_asm dest!: wf_sendHeatbeat)

lemma wf_StartCommand:
  assumes "StartCommand now c rf = Some (rf', sp, r)" and "wf_log (rlog rf)"
  shows "wf_out rf' sp"
  using assms unfolding StartCommand_def Let_def
  by (auto elim!: bindE split: if_split_asm simp: go_last_Some_iff wf_snoc dest!: wf_sendHeatbeat)

lemma wf_SnapshotService:
  assumes "SnapshotService now idx sn rf = Some (rf', sp)" and "wf_log (rlog rf)"
  shows "wf_out rf' sp"
  using assms(1)
proof (cases rule: SnapshotService_cases)
  case (trim first l)
  have "nat (min (idx - eIndex first) (int (length (rlog rf)) - 1)) < length (rlog rf)"
    using wf_log_nonempty[OF assms(2)] by (cases "rlog rf") (auto simp: min_def)
  with trim(4) assms(2) have "wf_log l" by (auto simp: go_from_Some_iff wf_log_drop)
  with trim(5) show ?thesis by (auto split: if_split_asm dest!: wf_sendHeatbeat)
qed (use assms(2) in simp)

lemma wf_InstallSnapshot:
  assumes "InstallSnapshot now args rf = Some (rf', reply)" and "wf_log (rlog rf)"
  shows "wf_log (rlog rf')"
  using assms unfolding InstallSnapshot_def Let_def
  by (auto elim!: bindE split: if_split_asm simp: go_simps wf_log_drop)

lemma wf_RequestVote:
  assumes "RequestVote now args rf = Some (rf', reply)" and "wf_log (rlog rf)"
  shows "wf_log (rlog rf')"
  using RequestVote_facts(3)[OF assms(1) wf_log_nonempty[OF assms(2)]] assms(2) by simp

lemma wf_ticker:
  assumes "ticker now rnd rf = Some (rf', sp)" and "wf_log (rlog rf)"
  shows "wf_out rf' sp"
  using assms(1)
proof (cases rule: ticker_cases)
  case elect
  then show ?thesis using assms(2) by (auto simp: wf_out_def elect_requests_def)
qed (use assms(2) in simp)

lemma applyLog_log:
  assumes "applyLog rf = Some (rf', msgs)"
  shows "rlog rf' = rlog rf"
  using assms unfolding applyLog_def applyLog_batch_def Let_def
  by (auto elim!: bindE split: applier_pc.splits if_split_asm list.splits option.splits)

section \<open>AppendEntry, case by case\<close>

text \<open>What the handler does before it looks at the log.\<close>

definition AppendEntry_enter :: "int \<Rightarrow> 'c AppendEntryArgs \<Rightarrow> ('c, 'b) Raft \<Rightarrow> ('c, 'b) Raft" where
  "AppendEntry_enter now args rf =
     (let rf1 = checkAndMaySetTermAndState (aeTerm args) (rf\<lparr>lastRecivedTime := now\<rparr>)
      in if rstate rf1 \<noteq> Follower then rf1\<lparr>rstate := Follower\<rparr> else rf1)"

lemma AppendEntry_enter_frame [simp]:
  "rlog (AppendEntry_enter now args rf) = rlog rf"
  "commitIndex (AppendEntry_enter now args rf) = commitIndex rf"
  "rstate (AppendEntry_enter now args rf) = Follower"
  "currentTerm (AppendEntry_enter now args rf) = max (currentTerm rf) (aeTerm args)"
  by (simp_all add: AppendEntry_enter_def Let_def)

lemma conflict_loop_total:
  assumes "n < length l" and "eTerm (l ! n) = t \<or> Suc n < length l"
  shows "\<exists>x. conflict_loop l t xi n = Some x"
  using assms
proof (induction n)
  case 0
  then show ?case
    by (subst conflict_loop.simps) (auto simp: go_nth_def)
next
  case (Suc n)
  then show ?case
    by (subst conflict_loop.simps) (auto simp: go_nth_def nat_add_distrib)
qed

text \<open>
  In the current or a newer term the handler refuses because its log is too short, refuses
  because the previous entry has another term, or stores the entries that follow position
  \<open>pre\<close> of its log: all of them, or those behind its snapshot.
\<close>

lemma AppendEntry_body:
  fixes rf :: "('c, 'b) Raft"
  defines "l \<equiv> rlog rf"
  assumes "wf_log l" and "app_ok args" and "currentTerm rf \<le> aeTerm args"
  obtains (short) "AppendEntry now args rf = Some (AppendEntry_enter now args rf,
      \<lparr>arTerm = aeTerm args, arSuccess = False, arXTerm = -1, arXIndex = -1, arXLen = lastIndex l\<rparr>)"
      "aePrevLogIndex args > lastIndex l"
  | (conflict) pre x where "AppendEntry now args rf = Some (AppendEntry_enter now args rf,
      \<lparr>arTerm = aeTerm args, arSuccess = False, arXTerm = eTerm (l ! pre), arXIndex = x,
       arXLen = lastIndex l\<rparr>)" "pre < length l" "aePrevLogIndex args = firstIndex l + int pre"
      "eTerm (l ! pre) \<noteq> aePrevLogTerm args"
  | (accept) pre es where
      "AppendEntry now args rf = AppendEntry_accept args es (int pre) (AppendEntry_enter now args rf)"
      "pre < length l" "consec (firstIndex l + int pre + 1) es"
      "es = drop (nat (firstIndex l + int pre - aePrevLogIndex args)) (aeEntries args)"
      "aePrevLogIndex args < firstIndex l \<and> pre = 0 \<or>
       aePrevLogIndex args = firstIndex l + int pre \<and> eTerm (l ! pre) = aePrevLogTerm args"
proof -
  define rf2 where "rf2 = AppendEntry_enter now args rf"
  define b p es where "b = firstIndex l" and "p = aePrevLogIndex args" and "es = aeEntries args"
  have ne: "l \<noteq> []" using assms(2) by (rule wf_log_nonempty)
  have l2: "rlog rf2 = l" and t2: "currentTerm rf2 = aeTerm args"
    using assms(4) by (simp_all add: rf2_def l_def)
  have es: "consec (p + 1) es" using assms(3) by (simp add: app_ok_def p_def es_def)
  have last: "lastIndex l = b + int (length l) - 1" using wf_log_last[OF assms(2)] by (simp add: b_def)
  have len: "0 < length l" using ne by simp
  note unfold = AppendEntry_def Let_def
  note fold = AppendEntry_enter_def[unfolded Let_def, symmetric]
  have eq: "AppendEntry now args rf =
     (if p < b
      then (if p + int (length es) > b
            then go_from es (int (length es) - (p + int (length es) - b)) \<bind> (\<lambda>entries.
                 go_nth entries 0 \<bind> (\<lambda>entry0.
                 AppendEntry_accept args entries (eIndex entry0 - b - 1) rf2))
            else AppendEntry_accept args [] 0 rf2)
      else if p - b \<ge> int (length l)
      then Some (rf2, \<lparr>arTerm = aeTerm args, arSuccess = False, arXTerm = -1,
                       arXIndex = -1, arXLen = lastIndex l\<rparr>)
      else go_nth l (p - b) \<bind> (\<lambda>pre.
           if eTerm pre \<noteq> aePrevLogTerm args
           then conflict_loop l (eTerm pre) b (nat (p - b)) \<bind> (\<lambda>xindex.
                Some (rf2, \<lparr>arTerm = aeTerm args, arSuccess = False, arXTerm = eTerm pre,
                            arXIndex = xindex, arXLen = lastIndex l\<rparr>))
           else AppendEntry_accept args es (p - b) rf2))"
    using assms(4) ne unfolding unfold fold rf2_def[symmetric] l2 t2 b_def p_def es_def
    by (simp add: go_nth_hd go_last_eq)
  show thesis
  proof (cases "p < b")
    case True
    define k where "k = nat (b - p)"
    have c: "consec (b + 1) (drop k es)"
    proof (cases "k < length es")
      case True
      with consec_drop[OF es, of k] \<open>p < b\<close> show ?thesis by (simp add: k_def add.commute)
    qed simp
    have "AppendEntry now args rf = AppendEntry_accept args (drop k es) (int 0) rf2"
    proof (cases "p + int (length es) > b")
      case True
      then have kl: "k < length es" using \<open>p < b\<close> by (simp add: k_def nat_less_iff)
      then have "go_from es (b - p) = Some (drop k es)"
        using \<open>p < b\<close> by (auto simp: go_from_Some_iff k_def)
      moreover have "go_nth (drop k es) 0 = Some (drop k es ! 0)" using kl by (simp add: go_nth_def)
      moreover have "eIndex (drop k es ! 0) = b + 1" using consec_nth[OF c, of 0] kl by simp
      ultimately show ?thesis using True \<open>p < b\<close> by (simp add: eq)
    next
      case False
      then have "length es \<le> k" using \<open>p < b\<close> by (simp add: k_def le_nat_iff)
      with False \<open>p < b\<close> show ?thesis by (simp add: eq)
    qed
    with c True len show thesis
      by (intro accept[of "drop k es" 0]) (simp_all add: rf2_def b_def p_def es_def k_def)
  next
    case False
    define pre where "pre = nat (p - b)"
    have p: "p = b + int pre" using False by (simp add: pre_def)
    show thesis
    proof (cases "pre < length l")
      case True
      show thesis
      proof (cases "eTerm (l ! pre) = aePrevLogTerm args")
        case teq: True
        with True p es show thesis
          by (intro accept[of es pre]) (simp_all add: eq rf2_def b_def p_def es_def add.assoc)
      next
        case False
        from conflict_loop_total[OF True] obtain x where "conflict_loop l (eTerm (l ! pre)) b pre = Some x"
          by blast
        with True p False show thesis
          by (intro conflict[of pre x]) (simp_all add: eq rf2_def b_def p_def)
      qed
    next
      case False
      with p last show thesis by (intro short) (simp_all add: eq rf2_def p_def)
    qed
  qed
qed

lemma AppendEntry_accept_total:
  assumes "pre < length (rlog rf)"
  shows "\<exists>r. AppendEntry_accept args es (int pre) rf = Some r"
proof -
  from store_entries_total[OF assms] obtain rf1 where st: "store_entries es (int pre) rf = Some rf1" ..
  have "rlog rf \<noteq> []" using assms by auto
  with calm_store_entries[OF st] have "rlog rf1 \<noteq> []" by blast
  with st show ?thesis by (simp add: AppendEntry_accept_def Let_def go_last_eq)
qed

lemma AppendEntry_accept_log:
  assumes "AppendEntry_accept args es p rf = Some (rf', reply)"
  obtains rf1 where "store_entries es p rf = Some rf1" "rlog rf' = rlog rf1"
    "commitIndex rf' = (if aeLeaderCommit args > commitIndex rf1
       then min (aeLeaderCommit args) (lastIndex (rlog rf1)) else commitIndex rf1)"
    "arSuccess reply" "arTerm reply = currentTerm rf'"
  using assms unfolding AppendEntry_accept_def Let_def
  by (auto elim!: bindE split: if_split_asm simp: go_last_Some_iff)

lemma wf_AppendEntry:
  assumes "AppendEntry now args rf = Some (rf', reply)" and "wf_log (rlog rf)" and "app_ok args"
  shows "wf_log (rlog rf')"
proof (cases "currentTerm rf \<le> aeTerm args")
  case True
  from assms(2,3) True show ?thesis
  proof (cases rule: AppendEntry_body[where now = now])
    case (accept pre es)
    with assms(1) have "AppendEntry_accept args es (int pre) (AppendEntry_enter now args rf) = Some (rf', reply)"
      by simp
    then obtain rf1 where "store_entries es (int pre) (AppendEntry_enter now args rf) = Some rf1"
      and "rlog rf' = rlog rf1" by (rule AppendEntry_accept_log)
    with store_entries_wf[OF this(1)] accept(2,3) assms(2) show ?thesis by simp
  qed (use assms in simp_all)
qed (use assms in \<open>auto simp: AppendEntry_def\<close>)

section \<open>The RPC handlers do not panic\<close>

lemma AppendEntry_total:
  assumes "wf_log (rlog rf)" and "app_ok args"
  shows "\<exists>r. AppendEntry now args rf = Some r"
proof (cases "currentTerm rf \<le> aeTerm args")
  case True
  from assms True show ?thesis
  proof (cases rule: AppendEntry_body[where now = now])
    case (accept pre es)
    with AppendEntry_accept_total[of pre "AppendEntry_enter now args rf"] show ?thesis by simp
  qed simp_all
qed (simp add: AppendEntry_def)

lemma RequestVote_total:
  assumes "rlog rf \<noteq> []"
  shows "\<exists>r. RequestVote now args rf = Some r"
  using assms by (simp add: RequestVote_def getLastLogIndexAndTerm_def go_last_eq Let_def)

lemma InstallSnapshot_total:
  assumes "wf_log (rlog rf)"
  shows "\<exists>r. InstallSnapshot now args rf = Some r"
proof -
  define l where "l = rlog rf"
  have ne: "l \<noteq> []" and last: "lastIndex l = firstIndex l + int (length l) - 1"
    using assms wf_log_last by (auto simp: l_def wf_log_nonempty)
  let ?i = "LastIncludeLogIndex (isSnapshot args) - firstIndex l"
  have "go_nth l ?i = Some (l ! nat ?i)" "go_from l ?i = Some (drop (nat ?i) l)"
    "go_nth (drop (nat ?i) l) 0 = Some (l ! nat ?i)"
    if "0 < ?i" "?i < int (length l)"
    using that by (auto simp: go_simps)
  with ne last show ?thesis
    by (auto simp: InstallSnapshot_def Let_def go_nth_hd go_last_eq l_def)
qed

section \<open>The cluster invariant\<close>

fun entries_ok :: "('c, 'b) packet \<Rightarrow> bool" where
  "entries_ok (AppReq c v a) \<longleftrightarrow> app_ok a"
| "entries_ok (AppRep c v a r) \<longleftrightarrow> app_ok a"
| "entries_ok _ \<longleftrightarrow> True"

definition log_inv :: "('c, 'b) cluster \<Rightarrow> bool" where
  "log_inv s \<longleftrightarrow> basic s \<and> (\<forall>i < nsrv s. wf_log (rlog (srv s i))) \<and> (\<forall>p \<in># net s. entries_ok p)"

lemma log_inv_change:
  assumes "log_inv s" and "raft_step s t" and "nsrv t = nsrv s" and "srv t = (srv s)(i := rf)"
    and "wf_log (rlog rf)" and "\<And>p. p \<in># net t \<Longrightarrow> p \<in># net s \<or> entries_ok p"
  shows "log_inv t"
  using assms basic_step[of s t] by (auto simp: log_inv_def)

lemma entries_ok_started:
  assumes "wf_out rf sp" and "p \<in># started i sp"
  shows "entries_ok p"
proof -
  from assms(2) obtain g where "g \<in> set sp" "p = packet_of i g" by auto
  with assms(1) show ?thesis by (cases g) (auto simp: wf_out_def)
qed

lemma log_inv_put:
  assumes "log_inv s" and "raft_step s t" and "wf_out rf sp" and "M \<subseteq># net s"
    and "nsrv t = nsrv s" "srv t = (srv s)(i := rf)" "net t = M + started i sp"
  shows "log_inv t"
proof (rule log_inv_change[OF assms(1,2,5,6)])
  show "wf_log (rlog rf)" using assms(3) by (simp add: wf_out_def)
  show "p \<in># net s \<or> entries_ok p" if "p \<in># net t" for p
    using that entries_ok_started[OF assms(3)] mset_subset_eqD[OF assms(4)]
    unfolding assms(7) union_iff by blast
qed

lemma log_inv_reply:
  assumes "log_inv s" and "raft_step s t" and "wf_log (rlog rf)" and "entries_ok q"
    and "nsrv t = nsrv s" "srv t = (srv s)(i := rf)" "net t = net s - {#p#} + {#q#}"
  shows "log_inv t"
  by (rule log_inv_change[OF assms(1,2,5,6,3)]) (use assms(4,7) in \<open>auto dest: in_diffD\<close>)

lemma log_inv_handle:
  assumes inv: "log_inv s" and st: "raft_step s t" and p: "p \<in># net s"
    and h: "handle now p (s\<lparr>net := net s - {#p#}\<rparr>) = Some t"
  shows "log_inv t"
proof -
  have b: "basic s" using inv by (simp add: log_inv_def)
  obtain c v where e: "ends p = (c, v)" by fastforce
  note b_ends = basic_ends[OF b p e]
  have wf: "wf_log (rlog (srv s c))" "wf_log (rlog (srv s v))" and ok: "entries_ok p"
    using inv b_ends p by (auto simp: log_inv_def)
  note put = log_inv_put[OF inv st, of _ _ "net s - {#p#}"] log_inv_reply[OF inv st]
  show ?thesis
  proof (cases p)
    case (VoteReq _ _ args)
    with h e obtain rf r where "RequestVote now args (srv s v) = Some (rf, r)"
      and "t = put v rf {#VoteRep c v args r#} (s\<lparr>net := net s - {#p#}\<rparr>)" by (auto elim!: bindE)
    with wf_RequestVote[OF this(1) wf(2)] show ?thesis
      by (intro put(2)[of rf "VoteRep c v args r"]) (simp_all add: put_def)
  next
    case (VoteRep _ _ args reply)
    with h e obtain rf sp where "RequestVote_done now args reply (srv s c) = Some (rf, sp)"
      and "t = put c rf (started c sp) (s\<lparr>net := net s - {#p#}\<rparr>)" by (auto elim!: bindE)
    with wf_RequestVote_done[OF this(1) wf(1)] show ?thesis by (intro put(1)) (simp_all add: put_def)
  next
    case (AppReq _ _ args)
    with h e obtain rf r where "AppendEntry now args (srv s v) = Some (rf, r)"
      and "t = put v rf {#AppRep c v args r#} (s\<lparr>net := net s - {#p#}\<rparr>)" by (auto elim!: bindE)
    with wf_AppendEntry[OF this(1) wf(2)] ok AppReq show ?thesis
      by (intro put(2)[of rf "AppRep c v args r"]) (simp_all add: put_def)
  next
    case (AppRep _ _ args reply)
    with h e obtain rf sp where "AppendEntry_done now v args reply (srv s c) = Some (rf, sp)"
      and "t = put c rf (started c sp) (s\<lparr>net := net s - {#p#}\<rparr>)" by (auto elim!: bindE)
    with wf_AppendEntry_done[OF this(1) wf(1)] show ?thesis by (intro put(1)) (simp_all add: put_def)
  next
    case (SnapGo _ _)
    with h e obtain args where "t = put c (srv s c) {#SnapReq c v args#} (s\<lparr>net := net s - {#p#}\<rparr>)"
      by (auto elim!: bindE)
    with wf(1) show ?thesis by (intro put(2)[of "srv s c" "SnapReq c v args" c]) (simp_all add: put_def)
  next
    case (SnapReq _ _ args)
    with h e obtain rf r where "InstallSnapshot now (gob_snapshot args) (srv s v) = Some (rf, r)"
      and "t = put v rf {#SnapRep c v args r#} (s\<lparr>net := net s - {#p#}\<rparr>)" by (auto elim!: bindE)
    with wf_InstallSnapshot[OF this(1) wf(2)] show ?thesis
      by (intro put(2)[of rf "SnapRep c v args r"]) (simp_all add: put_def)
  next
    case (SnapRep _ _ args reply)
    with h e obtain rf sp where "InstallSnapshot_done now v args reply (srv s c) = Some (rf, sp)"
      and "t = put c rf (started c sp) (s\<lparr>net := net s - {#p#}\<rparr>)" by (auto elim!: bindE)
    with wf_InstallSnapshot_done[OF this(1) wf(1)] show ?thesis by (intro put(1)) (simp_all add: put_def)
  qed
qed

lemma log_inv_step:
  assumes inv: "log_inv s" and st: "raft_step s t"
  shows "log_inv t"
proof -
  have b: "basic s" using inv by (simp add: log_inv_def)
  have wf: "wf_log (rlog (srv s i))" if "i < nsrv s" for i using inv that by (simp add: log_inv_def)
  have put: "log_inv t" if "wf_out rf sp" "t = put i rf (started i sp) s" for i rf sp
    by (rule log_inv_put[OF inv st that(1), of "net s" i]) (simp_all add: that(2) put_def)
  from st obtain ev where ex: "raft_exec ev s = Some t" by (auto simp: raft_step_iff)
  then show ?thesis
  proof (cases ev)
    case (Tick i now rnd)
    with ex obtain rf sp where i: "i < nsrv s" and h: "ticker now rnd (srv s i) = Some (rf, sp)"
      and t: "t = put i rf (started i sp) s" by (auto elim!: bindE split: if_split_asm)
    show ?thesis by (rule put[OF wf_ticker[OF h wf[OF i]] t])
  next
    case (Heartbeat i now)
    with ex obtain rf sp where i: "i < nsrv s" and h: "heatbeat now (srv s i) = Some (rf, sp)"
      and t: "t = put i rf (started i sp) s" by (auto elim!: bindE split: if_split_asm)
    have "wf_out rf sp" using h wf[OF i] by (auto simp: heatbeat_def split: if_split_asm intro: wf_sendHeatbeat)
    then show ?thesis using t by (rule put)
  next
    case (Applier i)
    with ex obtain rf ms where i: "i < nsrv s" and "applyLog (srv s i) = Some (rf, ms)"
      and "nsrv t = nsrv s" "srv t = (srv s)(i := rf)" "net t = net s"
      by (auto elim!: bindE split: if_split_asm simp: put_def)
    with applyLog_log[OF this(2)] wf[OF i] show ?thesis by (intro log_inv_change[OF inv st, of i rf]) simp_all
  next
    case (Command i now c)
    with ex obtain rf sp r where i: "i < nsrv s" and h: "StartCommand now c (srv s i) = Some (rf, sp, r)"
      and t: "t = put i rf (started i sp) s" by (auto elim!: bindE split: if_split_asm)
    show ?thesis by (rule put[OF wf_StartCommand[OF h wf[OF i]] t])
  next
    case (Compact i now index sn)
    with ex obtain rf sp where i: "i < nsrv s" and h: "SnapshotService now index sn (srv s i) = Some (rf, sp)"
      and t: "t = put i rf (started i sp) s" by (auto elim!: bindE split: if_split_asm)
    show ?thesis by (rule put[OF wf_SnapshotService[OF h wf[OF i]] t])
  next
    case (Handle p now)
    with ex show ?thesis by (auto split: if_split_asm intro: log_inv_handle[OF inv st])
  next
    case (Lose p)
    with ex have t: "t = s\<lparr>net := net s - {#p#}\<rparr>" by (simp split: if_split_asm)
    have "\<forall>q \<in># net t. entries_ok q" using inv by (auto simp: t log_inv_def dest!: in_diffD)
    then show ?thesis using inv basic_step[OF b st] by (auto simp: t log_inv_def)
  next
    case (Restart i now rnd)
    with ex obtain rf where i: "i < nsrv s" and
      mk: "Make (nsrv s) (int i) (Checkpoint (persister (srv s i))) now rnd = Some rf"
      and t: "t = s\<lparr>srv := (srv s)(i := rf), net := filter_mset (survives i) (net s),
                        delivered := (delivered s)(i := [])\<rparr>"
      by (auto elim!: bindE split: if_split_asm)
    note bi = basicD[OF b i]
    have "rlog rf = rlog (srv s i)" using restart_evolves(4)[OF bi(3) mk bi(1,2)] by simp
    then show ?thesis using t wf[OF i] by (intro log_inv_change[OF inv st, of i rf]) simp_all
  qed
qed

lemma log_inv_init:
  assumes "raft_init s"
  shows "log_inv s"
  using assms
proof (induction rule: raft_init.induct)
  case (1 n now rnd)
  show ?case using basic_init[OF raft_init.intros[of n now rnd]]
    by (simp add: log_inv_def boot_server)
qed

lemma log_inv_reach: "raft.reach s \<Longrightarrow> log_inv s"
  by (rule raft.reach_invariant) (auto intro: log_inv_init log_inv_step)

end
