(* ===== verification/RaftGhost.thy ===== *)
theory RaftGhost
  imports RaftTree RaftLogInv
begin

text \<open>
  History variables for the safety of the replicated log, and what follows from them: the tree of
  all entries, who stored an entry of the term he was in, who won which term with which votes and
  which log, and with which log a server entered a term.  A committed entry is on the log of every
  later leader (\<open>leader_completeness\<close>).
\<close>

section \<open>History variables\<close>

record 'c ghost =
  votes :: vote_history
  tree :: "'c tree"
  acks :: "nat \<Rightarrow> node set"
  wins :: "int \<rightharpoonup> nat \<times> nat set \<times> node"
  cands :: "nat \<Rightarrow> int \<Rightarrow> node"

text \<open>
  \<open>acks g v\<close>: the nodes that server \<open>v\<close> had in its log while it was in the term of the node.
  \<open>wins g T = Some (c, Q, b)\<close>: server \<open>c\<close> won term \<open>T\<close> with the votes of \<open>Q\<close> when its log ended in \<open>b\<close>.
  \<open>cands g c T\<close>: the end of the log of server \<open>c\<close> when it entered term \<open>T\<close>.
\<close>

definition lacks :: "'c ghost \<Rightarrow> int \<Rightarrow> node \<Rightarrow> bool" where
  "lacks g T y \<longleftrightarrow> (\<exists>c Q b. wins g T = Some (c, Q, b) \<and> \<not> anc (tree g) y b)"

text \<open>Node \<open>y\<close> is on the path to \<open>x\<close>, unless a leader up to term \<open>T\<close> had already lost it.\<close>

definition kept :: "'c ghost \<Rightarrow> node \<Rightarrow> node \<Rightarrow> int \<Rightarrow> bool" where
  "kept g y x T \<longleftrightarrow> anc (tree g) y x \<or> (\<exists>T'. snd y < T' \<and> T' \<le> T \<and> lacks g T' y)"

text \<open>A majority stored the node in its own term; committed is what lies on a path to such a node.\<close>

definition direct :: "nat \<Rightarrow> 'c ghost \<Rightarrow> node \<Rightarrow> bool" where
  "direct n g y \<longleftrightarrow> y \<in> dom (tree g) \<and> n div 2 < card {v. v < n \<and> y \<in> acks g v}"

definition committed :: "nat \<Rightarrow> 'c ghost \<Rightarrow> int \<Rightarrow> node \<Rightarrow> bool" where
  "committed n g T x \<longleftrightarrow> x = root \<or> (\<exists>y. direct n g y \<and> snd y \<le> T \<and> anc (tree g) x y)"

definition win_ok :: "nat \<Rightarrow> 'c ghost \<Rightarrow> int \<Rightarrow> nat \<Rightarrow> nat set \<Rightarrow> node \<Rightarrow> bool" where
  "win_ok n g T c Q b \<longleftrightarrow> c < n \<and> Q \<subseteq> {v. v < n} \<and> n div 2 < card Q \<and> (\<forall>v \<in> Q. votes g v T = int c) \<and>
     b \<in> nodes (tree g) \<and> snd b < T \<and>
     (\<forall>v \<in> Q. \<forall>y \<in> acks g v. snd y < T \<longrightarrow> kept g y b (T - 1))"

definition hist_ok :: "nat \<Rightarrow> 'c ghost \<Rightarrow> bool" where
  "hist_ok n g \<longleftrightarrow> tree_ok (tree g) \<and>
     (\<forall>y \<in> dom (tree g). \<exists>c Q b. wins g (snd y) = Some (c, Q, b) \<and> anc (tree g) b y) \<and>
     (\<forall>x \<in> dom (tree g). \<forall>y \<in> dom (tree g). snd x = snd y \<longrightarrow> fst x \<le> fst y \<longrightarrow> anc (tree g) x y) \<and>
     (\<forall>T c Q b. wins g T = Some (c, Q, b) \<longrightarrow> win_ok n g T c Q b)"

lemma hist_okD:
  assumes "hist_ok n g"
  shows "tree_ok (tree g)"
    and "y \<in> dom (tree g) \<Longrightarrow> \<exists>c Q b. wins g (snd y) = Some (c, Q, b) \<and> anc (tree g) b y"
    and "x \<in> dom (tree g) \<Longrightarrow> y \<in> dom (tree g) \<Longrightarrow> snd x = snd y \<Longrightarrow> fst x \<le> fst y \<Longrightarrow> anc (tree g) x y"
    and "wins g T = Some (c, Q, b) \<Longrightarrow> win_ok n g T c Q b"
  using assms unfolding hist_ok_def by blast+

section \<open>Leader completeness\<close>

lemma leader_completeness:
  assumes h: "hist_ok n g" and y: "direct n g y"
    and "wins g T = Some (c, Q, b)" and "snd y < T"
  shows "anc (tree g) y b"
  using assms(3,4)
proof (induction "nat (T - snd y)" arbitrary: T c Q b rule: less_induct)
  case less
  note w = hist_okD(4)[OF h less.prems(1), unfolded win_ok_def]
  let ?A = "{v. v < n \<and> y \<in> acks g v}"
  have "\<exists>v. v \<in> ?A \<and> v \<in> Q"
    by (rule majorities_meet[of "{v. v < n}"]) (use w y in \<open>auto simp: direct_def\<close>)
  then obtain v where "v \<in> Q" "y \<in> acks g v" by blast
  with w less.prems(2) have "kept g y b (T - 1)" by blast
  moreover have False if l: "snd y < T'" "T' \<le> T - 1" "lacks g T' y" for T'
  proof -
    from l(3) obtain c' Q' b' where "wins g T' = Some (c', Q', b')" "\<not> anc (tree g) y b'"
      by (auto simp: lacks_def)
    with less.hyps[of T' c' Q' b'] l(1,2) show False by simp
  qed
  ultimately show ?case unfolding kept_def by blast
qed

lemma direct_not_lacked:
  assumes "hist_ok n g" and "direct n g y" and "snd y < T"
  shows "\<not> lacks g T y"
  using leader_completeness[OF assms(1,2)] assms(3) by (auto simp: lacks_def)

text \<open>Two nodes of one term lie on one path.\<close>

lemma term_comparable:
  assumes "hist_ok n g" and "x \<in> dom (tree g)" "y \<in> dom (tree g)" and "snd x = snd y"
  shows "anc (tree g) x y \<or> anc (tree g) y x"
  using hist_okD(3)[OF assms(1)] assms(2-4) by (metis linear)

text \<open>What is committed up to a term is on the path of that term's leader.\<close>

lemma committed_on_term:
  assumes h: "hist_ok n g" and x: "committed n g T x" and w: "w \<in> dom (tree g)" "snd w = T"
  obtains w' where "w' \<in> dom (tree g)" "snd w' = T" "anc (tree g) x w'" "anc (tree g) w w'"
proof (cases "x = root")
  case True
  then show thesis using that[OF w] anc_root[OF hist_okD(1)[OF h] dom_node[OF w(1)]] by simp
next
  case False
  with x obtain y where y: "direct n g y" "snd y \<le> T" "anc (tree g) x y" by (auto simp: committed_def)
  then have yd: "y \<in> dom (tree g)" by (simp add: direct_def)
  show thesis
  proof (cases "snd y = T")
    case True
    with term_comparable[OF h yd w(1)] w(2) have "anc (tree g) y w \<or> anc (tree g) w y" by simp
    then show thesis
    proof
      assume "anc (tree g) y w"
      with y(3) show thesis using that[OF w] by (meson rtranclp.rtrancl_refl rtranclp_trans)
    next
      assume "anc (tree g) w y"
      with y(3) show thesis using that[OF yd True] by blast
    qed
  next
    case False
    from hist_okD(2)[OF h w(1)] w(2) obtain c Q b where "wins g T = Some (c, Q, b)"
      and b: "anc (tree g) b w" by blast
    with leader_completeness[OF h y(1)] False y(2) have "anc (tree g) y b" by simp
    with y(3) b have "anc (tree g) x w" by (meson rtranclp_trans)
    with that[OF w] show thesis by blast
  qed
qed

lemma committed_mono: "committed n g T x \<Longrightarrow> T \<le> T' \<Longrightarrow> committed n g T' x"
  unfolding committed_def by (meson order_trans)

lemma direct_committed: "direct n g y \<Longrightarrow> snd y \<le> T \<Longrightarrow> committed n g T y"
  unfolding committed_def by blast

lemma committed_anc: "committed n g T x \<Longrightarrow> anc (tree g) z x \<Longrightarrow> tree_ok (tree g) \<Longrightarrow> committed n g T z"
  unfolding committed_def using anc_same anc_index anc_node node_index
  by (metis fst_conv root_node rtranclp_trans)

lemma committed_node: "hist_ok n g \<Longrightarrow> committed n g T x \<Longrightarrow> x \<in> nodes (tree g)"
  unfolding committed_def direct_def using anc_node hist_okD(1) dom_node root_node by metis

text \<open>A committed node and a stored one lie on one path, or some leader in between lost the latter.\<close>

lemma committed_comparable:
  assumes h: "hist_ok n g" and x: "committed n g T x" and y: "y \<in> dom (tree g)"
    and "\<And>T'. snd y < T' \<Longrightarrow> T' \<le> T \<Longrightarrow> \<not> lacks g T' y"
  shows "anc (tree g) x y \<or> anc (tree g) y x"
proof (cases "x = root")
  case True
  with anc_root[OF hist_okD(1)[OF h] dom_node[OF y]] show ?thesis by simp
next
  case False
  with x obtain z where z: "direct n g z" "snd z \<le> T" "anc (tree g) x z" by (auto simp: committed_def)
  then have zd: "z \<in> dom (tree g)" by (simp add: direct_def)
  consider "snd z < snd y" | "snd z = snd y" | "snd y < snd z" by linarith
  then show ?thesis
  proof cases
    case 1
    from hist_okD(2)[OF h y] obtain c Q b where "wins g (snd y) = Some (c, Q, b)"
      and b: "anc (tree g) b y" by blast
    with leader_completeness[OF h z(1) _ 1] have "anc (tree g) z b" by blast
    with z(3) b show ?thesis by (meson rtranclp_trans)
  next
    case 2
    from term_comparable[OF h zd y 2] z(3) show ?thesis
      by (meson anc_comparable rtranclp_trans)
  next
    case 3
    from hist_okD(2)[OF h zd] obtain c Q b where "wins g (snd z) = Some (c, Q, b)"
      and b: "anc (tree g) b z" by blast
    with assms(4)[OF 3 z(2)] have "anc (tree g) y b" by (auto simp: lacks_def)
    with b z(3) show ?thesis by (meson anc_comparable rtranclp_trans)
  qed
qed

text \<open>Two committed nodes lie on one path.\<close>

lemma committed_linear:
  assumes h: "hist_ok n g" and x: "committed n g T x" and y: "committed n g T' y"
  shows "anc (tree g) x y \<or> anc (tree g) y x"
proof (cases "y = root")
  case True
  with anc_root[OF hist_okD(1)[OF h] committed_node[OF h x]] show ?thesis by simp
next
  case False
  with y obtain z where z: "direct n g z" "anc (tree g) y z" by (auto simp: committed_def)
  then have "z \<in> dom (tree g)" by (simp add: direct_def)
  from committed_comparable[OF h x this] direct_not_lacked[OF h z(1)]
  have "anc (tree g) x z \<or> anc (tree g) z x" by blast
  with z(2) show ?thesis by (meson anc_comparable rtranclp_trans)
qed

section \<open>Histories only grow\<close>

definition extends :: "'c ghost \<Rightarrow> 'c ghost \<Rightarrow> bool" where
  "extends g g' \<longleftrightarrow> tree g \<subseteq>\<^sub>m tree g' \<and> tree_ok (tree g') \<and> wins g \<subseteq>\<^sub>m wins g' \<and> (\<forall>v. acks g v \<subseteq> acks g' v)"

lemma extendsD:
  assumes "extends g g'"
  shows "tree g \<subseteq>\<^sub>m tree g'" "tree_ok (tree g')" "wins g \<subseteq>\<^sub>m wins g'" "y \<in> acks g v \<Longrightarrow> y \<in> acks g' v"
    "anc (tree g) x y \<Longrightarrow> anc (tree g') x y"
  using assms anc_mono[of "tree g" "tree g'" x y] by (auto simp: extends_def)

lemma extends_anc:
  assumes "extends g g'" and "hist_ok n g" and "y \<in> nodes (tree g)"
  shows "anc (tree g') x y \<longleftrightarrow> anc (tree g) x y"
  by (rule anc_stable) (use assms extendsD hist_okD(1) in blast)+

lemma extends_lacks:
  assumes "extends g g'" and "hist_ok n g" and "lacks g T y"
  shows "lacks g' T y"
proof -
  from assms(3) obtain c Q b where w: "wins g T = Some (c, Q, b)" and b: "\<not> anc (tree g) y b"
    by (auto simp: lacks_def)
  from hist_okD(4)[OF assms(2) w] have "b \<in> nodes (tree g)" by (simp add: win_ok_def)
  with b extends_anc[OF assms(1,2)] have "\<not> anc (tree g') y b" by blast
  with map_leD[OF extendsD(3)[OF assms(1)] w] show ?thesis by (auto simp: lacks_def)
qed

lemma kept_term: "kept g y x T \<Longrightarrow> T \<le> T' \<Longrightarrow> kept g y x T'"
  unfolding kept_def by (meson order_trans)

lemma extends_kept:
  assumes "extends g g'" and "hist_ok n g" and "kept g y x T" and "T \<le> T'"
  shows "kept g' y x T'"
  using kept_term[OF assms(3,4)] extends_lacks[OF assms(1,2)] extendsD(5)[OF assms(1)]
  unfolding kept_def by blast

lemma extends_direct:
  assumes "extends g g'" and "direct n g y"
  shows "direct n g' y"
proof -
  have "{v. v < n \<and> y \<in> acks g v} \<subseteq> {v. v < n \<and> y \<in> acks g' v}"
    using extendsD(4)[OF assms(1)] by blast
  then have "card {v. v < n \<and> y \<in> acks g v} \<le> card {v. v < n \<and> y \<in> acks g' v}"
    by (intro card_mono) auto
  moreover have "y \<in> dom (tree g')"
    using map_le_implies_dom_le[OF extendsD(1)[OF assms(1)]] assms(2) by (auto simp: direct_def)
  ultimately show ?thesis using assms(2) by (simp add: direct_def)
qed

lemma extends_committed: "extends g g' \<Longrightarrow> committed n g T x \<Longrightarrow> committed n g' T x"
  unfolding committed_def using extends_direct extendsD(5) by metis

end
