(* ===== verification/RaftInv.thy ===== *)
theory RaftInv
  imports RaftGhost
begin

text \<open>
  The safety invariant of the cluster over the history variables of \<open>RaftGhost\<close>, and the rule
  \<open>safe_change\<close>: an event changes one server, so only that server and the packets it sends are
  left to check.
\<close>

section \<open>The invariant\<close>

definition commit_ok :: "nat \<Rightarrow> 'c ghost \<Rightarrow> ('c, 'b) Raft \<Rightarrow> bool" where
  "commit_ok n g rf \<longleftrightarrow> firstIndex (rlog rf) \<le> commitIndex rf \<and>
     (\<exists>x. fst x = commitIndex rf \<and> anc (tree g) x (tip (rlog rf)) \<and> committed n g (currentTerm rf) x)"

lemma commit_okI:
  assumes "firstIndex (rlog rf) \<le> commitIndex rf" and "fst x = commitIndex rf"
    and "anc (tree g) x (tip (rlog rf))" and "committed n g (currentTerm rf) x"
  shows "commit_ok n g rf"
  using assms unfolding commit_ok_def by blast

definition server_ok :: "nat \<Rightarrow> 'c ghost \<Rightarrow> nat \<Rightarrow> ('c, 'b) Raft \<Rightarrow> bool" where
  "server_ok n g v rf \<longleftrightarrow> log_path (tree g) (rlog rf) \<and> snd (tip (rlog rf)) \<le> currentTerm rf \<and>
     0 \<le> currentTerm rf \<and> commit_ok n g rf \<and>
     (\<forall>y \<in> acks g v. y \<in> dom (tree g) \<and> snd y \<le> currentTerm rf \<and> kept g y (tip (rlog rf)) (currentTerm rf)) \<and>
     (\<forall>y \<in> dom (tree g). snd y = currentTerm rf \<longrightarrow> anc (tree g) y (tip (rlog rf)) \<longrightarrow> y \<in> acks g v)"

text \<open>A candidate that asks for votes without a committed entry.\<close>

definition beaten :: "nat \<Rightarrow> 'c ghost \<Rightarrow> nat \<Rightarrow> int \<Rightarrow> bool" where
  "beaten n g v T \<longleftrightarrow> (\<exists>y. direct n g y \<and> snd y \<le> T \<and> \<not> anc (tree g) y (cands g v T))"

text \<open>A candidate's log is the one it asked votes for, unless it cannot win any more.\<close>

definition cand_ok :: "nat \<Rightarrow> 'c ghost \<Rightarrow> nat \<Rightarrow> ('c, 'b) Raft \<Rightarrow> bool" where
  "cand_ok n g v rf \<longleftrightarrow> (let T = currentTerm rf; k = cands g v T in
     0 < T \<and> k \<in> nodes (tree g) \<and> snd k < T \<and> (tip (rlog rf) = k \<or> beaten n g v T))"

text \<open>Server \<open>p\<close> has stored all entries of term \<open>T\<close> up to index \<open>m\<close>.\<close>

definition matched :: "'c ghost \<Rightarrow> nat \<Rightarrow> int \<Rightarrow> int \<Rightarrow> bool" where
  "matched g p T m \<longleftrightarrow> (\<forall>y \<in> dom (tree g). snd y = T \<longrightarrow> fst y \<le> m \<longrightarrow> y \<in> acks g p)"

definition leader_ok :: "nat \<Rightarrow> 'c ghost \<Rightarrow> nat \<Rightarrow> ('c, 'b) Raft \<Rightarrow> bool" where
  "leader_ok n g v rf \<longleftrightarrow> (let T = currentTerm rf; e = tip (rlog rf) in
     (\<exists>Q b. wins g T = Some (v, Q, b)) \<and> e \<in> dom (tree g) \<and> snd e = T \<and>
     (\<forall>y \<in> dom (tree g). snd y = T \<longrightarrow> anc (tree g) y e) \<and>
     (\<forall>p < n. p \<noteq> v \<longrightarrow> (\<forall>m. go_nth (matchIndex rf) (int p) = Some m \<longrightarrow> m \<le> fst e \<and> matched g p T m)))"

definition role_ok :: "nat \<Rightarrow> 'c ghost \<Rightarrow> nat \<Rightarrow> ('c, 'b) Raft \<Rightarrow> bool" where
  "role_ok n g v rf \<longleftrightarrow> (rstate rf = Candidate \<longrightarrow> cand_ok n g v rf) \<and> (rstate rf = Leader \<longrightarrow> leader_ok n g v rf) \<and>
     (\<forall>T Q b. wins g T = Some (v, Q, b) \<longrightarrow> T < currentTerm rf \<or> T = currentTerm rf \<and> rstate rf \<noteq> Candidate)"

definition ae_prev :: "'c AppendEntryArgs \<Rightarrow> node" where
  "ae_prev a = (aePrevLogIndex a, aePrevLogTerm a)"

definition ae_end :: "'c AppendEntryArgs \<Rightarrow> node" where
  "ae_end a = endn (ae_prev a) (aeEntries a)"

definition sn_node :: "'b InstallSnapshotArgs \<Rightarrow> node" where
  "sn_node a = (LastIncludeLogIndex (isSnapshot a), LastIncludeLogTerm (isSnapshot a))"

text \<open>A request to append carries a piece of its leader's log up to its end, and what it says is
  committed lies within.\<close>

definition app_req_ok :: "nat \<Rightarrow> 'c ghost \<Rightarrow> nat \<Rightarrow> 'c AppendEntryArgs \<Rightarrow> bool" where
  "app_req_ok n g c a \<longleftrightarrow> ae_prev a \<in> nodes (tree g) \<and> chain (tree g) (ae_prev a) (aeEntries a) \<and>
     (\<exists>Q b. wins g (aeTerm a) = Some (c, Q, b)) \<and>
     (\<exists>w \<in> dom (tree g). snd w = aeTerm a \<and> anc (tree g) (ae_end a) w) \<and>
     (\<exists>x. fst x = aeLeaderCommit a \<and> anc (tree g) x (ae_end a) \<and> committed n g (aeTerm a) x)"

fun packet_ok :: "nat \<Rightarrow> 'c ghost \<Rightarrow> ('c, 'b) packet \<Rightarrow> bool" where
  "packet_ok n g (VoteReq c v a) \<longleftrightarrow> cands g c (rvTerm a) = (rvLastLogIndex a, rvLastLogTerm a) \<and>
     cands g c (rvTerm a) \<in> nodes (tree g) \<and> rvLastLogTerm a < rvTerm a"
| "packet_ok n g (AppReq c v aa) \<longleftrightarrow> app_req_ok n g c aa"
| "packet_ok n g (AppRep c v aa ar) \<longleftrightarrow> app_req_ok n g c aa \<and>
     (arSuccess ar \<longrightarrow> matched g v (aeTerm aa) (fst (ae_end aa)))"
| "packet_ok n g (SnapReq c v ia) \<longleftrightarrow> committed n g (isTerm ia) (sn_node ia)"
| "packet_ok n g (SnapRep c v ia ir) \<longleftrightarrow> committed n g (isTerm ia) (sn_node ia) \<and>
     (irSuccess ir \<longrightarrow> matched g v (isTerm ia) (fst (sn_node ia)))"
| "packet_ok n g _ \<longleftrightarrow> True"

text \<open>A vote was given to a log that had all the voter had stored, as far as later leaders kept it.\<close>

definition ballots_ok :: "('c, 'b) cluster \<Rightarrow> 'c ghost \<Rightarrow> bool" where
  "ballots_ok s g \<longleftrightarrow> (\<forall>v < nsrv s. \<forall>c < nsrv s. \<forall>T. votes g v T = int c \<longrightarrow> T \<le> currentTerm (srv s c) \<and>
     (wins g T \<noteq> None \<or> (\<forall>y \<in> acks g v. snd y < T \<longrightarrow> kept g y (cands g c T) (T - 1))))"

definition safe :: "('c, 'b) cluster \<Rightarrow> 'c ghost \<Rightarrow> bool" where
  "safe s g \<longleftrightarrow> election_inv s (votes g) \<and> hist_ok (nsrv s) g \<and> ballots_ok s g \<and>
     (\<forall>v < nsrv s. server_ok (nsrv s) g v (srv s v) \<and> role_ok (nsrv s) g v (srv s v)) \<and>
     (\<forall>p \<in># net s. packet_ok (nsrv s) g p)"

lemma safeD:
  assumes "safe s g"
  shows "election_inv s (votes g)" "basic s" "hist_ok (nsrv s) g" "ballots_ok s g"
    "v < nsrv s \<Longrightarrow> server_ok (nsrv s) g v (srv s v)" "v < nsrv s \<Longrightarrow> role_ok (nsrv s) g v (srv s v)"
    "p \<in># net s \<Longrightarrow> packet_ok (nsrv s) g p" "tree_ok (tree g)"
  using assms by (auto simp: safe_def election_inv_def hist_ok_def)

lemma server_okD:
  assumes "server_ok n g v rf"
  shows "log_path (tree g) (rlog rf)" "snd (tip (rlog rf)) \<le> currentTerm rf" "0 \<le> currentTerm rf"
    "commit_ok n g rf" "tip (rlog rf) \<in> nodes (tree g)" "wf_log (rlog rf)"
    "y \<in> acks g v \<Longrightarrow> y \<in> dom (tree g)" "y \<in> acks g v \<Longrightarrow> snd y \<le> currentTerm rf"
    "y \<in> acks g v \<Longrightarrow> kept g y (tip (rlog rf)) (currentTerm rf)"
    "y \<in> dom (tree g) \<Longrightarrow> snd y = currentTerm rf \<Longrightarrow> anc (tree g) y (tip (rlog rf)) \<Longrightarrow> y \<in> acks g v"
  using assms log_path_tip log_path_wf unfolding server_ok_def by blast+

lemma leader_okD:
  assumes "leader_ok n g v rf"
  shows "\<exists>Q b. wins g (currentTerm rf) = Some (v, Q, b)" "tip (rlog rf) \<in> dom (tree g)"
    "snd (tip (rlog rf)) = currentTerm rf"
    "y \<in> dom (tree g) \<Longrightarrow> snd y = currentTerm rf \<Longrightarrow> anc (tree g) y (tip (rlog rf))"
    "p < n \<Longrightarrow> p \<noteq> v \<Longrightarrow> go_nth (matchIndex rf) (int p) = Some m \<Longrightarrow> m \<le> lastIndex (rlog rf)"
    "p < n \<Longrightarrow> p \<noteq> v \<Longrightarrow> go_nth (matchIndex rf) (int p) = Some m \<Longrightarrow> matched g p (currentTerm rf) m"
  using assms unfolding leader_ok_def Let_def tip_simps(1) by blast+

lemma leader_okI:
  assumes "\<exists>Q b. wins g (currentTerm rf) = Some (v, Q, b)" "tip (rlog rf) \<in> dom (tree g)"
    "snd (tip (rlog rf)) = currentTerm rf"
    "\<And>y. y \<in> dom (tree g) \<Longrightarrow> snd y = currentTerm rf \<Longrightarrow> anc (tree g) y (tip (rlog rf))"
    "\<And>p m. p < n \<Longrightarrow> p \<noteq> v \<Longrightarrow> go_nth (matchIndex rf) (int p) = Some m \<Longrightarrow> m \<le> lastIndex (rlog rf)"
    "\<And>p m. p < n \<Longrightarrow> p \<noteq> v \<Longrightarrow> go_nth (matchIndex rf) (int p) = Some m \<Longrightarrow> matched g p (currentTerm rf) m"
  shows "leader_ok n g v rf"
  using assms unfolding leader_ok_def Let_def tip_simps(1) by blast

section \<open>Growing histories keep old facts\<close>

lemma extends_commit_ok: "extends g g' \<Longrightarrow> commit_ok n g rf \<Longrightarrow> commit_ok n g' rf"
  unfolding commit_ok_def using extends_committed extendsD(5) by metis

lemma extends_app_req_ok:
  assumes "extends g g'" and "app_req_ok n g c a"
  shows "app_req_ok n g' c a"
proof -
  note e = extendsD[OF assms(1)]
  from assms(2) obtain Q b w x where
    a: "ae_prev a \<in> nodes (tree g)" "chain (tree g) (ae_prev a) (aeEntries a)"
    "wins g (aeTerm a) = Some (c, Q, b)" "w \<in> dom (tree g)" "snd w = aeTerm a" "anc (tree g) (ae_end a) w"
    "fst x = aeLeaderCommit a" "anc (tree g) x (ae_end a)" "committed n g (aeTerm a) x"
    unfolding app_req_ok_def by blast
  have "w \<in> dom (tree g')" using map_le_implies_dom_le[OF e(1)] a(4) by blast
  moreover note nodes_mono[OF e(1) a(1)] chain_mono[OF e(1) a(2)] map_leD[OF e(3) a(3)]
    a(5,7) e(5)[OF a(6)] e(5)[OF a(8)] extends_committed[OF assms(1) a(9)]
  ultimately show ?thesis unfolding app_req_ok_def by blast
qed

section \<open>One event\<close>

text \<open>What the history variables record of an event, for the new tree and the new wins.\<close>

definition observe ::
  "('c, 'b) cluster \<Rightarrow> ('c, 'b) cluster \<Rightarrow> 'c tree \<Rightarrow> (int \<rightharpoonup> nat \<times> nat set \<times> node) \<Rightarrow> 'c ghost \<Rightarrow> 'c ghost" where
  "observe s t H W g =
     \<lparr>votes = see_votes t (votes g), tree = H,
      acks = (\<lambda>v. acks g v \<union> {y. v < nsrv t \<and> y \<in> dom H \<and> snd y = currentTerm (srv t v) \<and>
                                anc H y (tip (rlog (srv t v)))}),
      wins = W,
      cands = (\<lambda>c T. if currentTerm (srv s c) < T \<and> currentTerm (srv t c) = T
                      then tip (rlog (srv s c)) else cands g c T)\<rparr>"

lemma observe_simps [simp]:
  "votes (observe s t H W g) = see_votes t (votes g)" "tree (observe s t H W g) = H"
  "wins (observe s t H W g) = W"
  "cands (observe s t H W g) c T = (if currentTerm (srv s c) < T \<and> currentTerm (srv t c) = T
     then tip (rlog (srv s c)) else cands g c T)"
  by (simp_all add: observe_def)

lemma observe_acks:
  "y \<in> acks (observe s t H W g) v \<longleftrightarrow> y \<in> acks g v \<or> v < nsrv t \<and> y \<in> dom H \<and>
     snd y = currentTerm (srv t v) \<and> anc H y (tip (rlog (srv t v)))"
  by (simp add: observe_def)

lemma observe_extends:
  "tree g \<subseteq>\<^sub>m H \<Longrightarrow> tree_ok H \<Longrightarrow> wins g \<subseteq>\<^sub>m W \<Longrightarrow> extends g (observe s t H W g)"
  by (auto simp: extends_def observe_acks)


definition grown ::
  "('c, 'b) cluster \<Rightarrow> 'c ghost \<Rightarrow> nat \<Rightarrow> ('c, 'b) Raft \<Rightarrow> ('c, 'b) packet multiset \<Rightarrow> ('c, 'b) cluster \<Rightarrow>
     'c tree \<Rightarrow> (int \<rightharpoonup> nat \<times> nat set \<times> node) \<Rightarrow> bool" where
  "grown s g i rf M t H W \<longleftrightarrow> safe s g \<and> raft_step s t \<and> changes s i rf M t \<and>
     tree_ok H \<and> tree g \<subseteq>\<^sub>m H \<and> wins g \<subseteq>\<^sub>m W \<and>
     (\<forall>y. y \<in> dom H \<longrightarrow> y \<notin> dom (tree g) \<longrightarrow> y = tip (rlog rf) \<and> snd y = currentTerm rf \<and>
        (\<exists>Q b. W (currentTerm rf) = Some (i, Q, b) \<and> anc H b y) \<and>
        (\<forall>w \<in> dom (tree g). snd w = snd y \<longrightarrow> anc H w y \<and> fst w < fst y)) \<and>
     (\<forall>T c Q b. W T = Some (c, Q, b) \<longrightarrow> wins g T = None \<longrightarrow>
        c = i \<and> T = currentTerm rf \<and> rstate rf = Leader \<and> win_ok (nsrv s) (observe s t H W g) T c Q b)"

lemma grownD:
  assumes "grown s g i rf M t H W"
  shows "safe s g" "raft_step s t" "changes s i rf M t" "tree_ok H" "tree g \<subseteq>\<^sub>m H" "wins g \<subseteq>\<^sub>m W"
    "i < nsrv s" "nsrv t = nsrv s" "srv t = (srv s)(i := rf)" "net t = M"
    "extends g (observe s t H W g)" "currentTerm (srv s v) \<le> currentTerm (srv t v)"
proof -
  show *: "safe s g" "raft_step s t" "changes s i rf M t" "tree_ok H" "tree g \<subseteq>\<^sub>m H" "wins g \<subseteq>\<^sub>m W"
    using assms unfolding grown_def by blast+
  from *(3) show "i < nsrv s" "nsrv t = nsrv s" "srv t = (srv s)(i := rf)" "net t = M"
    by (simp_all add: changes_def)
  show "extends g (observe s t H W g)" using * by (intro observe_extends)
  show "currentTerm (srv s v) \<le> currentTerm (srv t v)"
    using step_evolves(2)[OF safeD(2)[OF *(1)] *(2)] by (simp add: evolves_def)
qed

lemma grown_new:
  assumes "grown s g i rf M t H W" and "y \<in> dom H" and "y \<notin> dom (tree g)"
  shows "y = tip (rlog rf)" "snd y = currentTerm rf" "\<exists>Q b. W (currentTerm rf) = Some (i, Q, b) \<and> anc H b y"
    "w \<in> dom (tree g) \<Longrightarrow> snd w = snd y \<Longrightarrow> anc H w y \<and> fst w < fst y"
  using assms unfolding grown_def by blast+

lemma grown_win:
  assumes "grown s g i rf M t H W" and "W T = Some (c, Q, b)" and "wins g T = None"
  shows "c = i" "T = currentTerm rf" "rstate rf = Leader" "win_ok (nsrv s) (observe s t H W g) T c Q b"
  using assms unfolding grown_def by blast+

text \<open>Votes of the past are about terms the voter has reached: what he stores now is newer.\<close>

lemma vote_term:
  assumes "safe s g" and "v < nsrv s" and "votes g v T = int c"
  shows "T \<le> currentTerm (srv s v)"
proof (rule ccontr)
  assume "\<not> T \<le> currentTerm (srv s v)"
  with safeD(1)[OF assms(1)] assms(2) have "votes g v T = -1" by (simp add: election_inv_def)
  with assms(3) show False by simp
qed

lemma grown_vote:
  assumes gr: "grown s g i rf M t H W" and v: "v < nsrv s" and "votes g v T = int c"
  shows "see_votes t (votes g) v T = int c"
    and "y \<in> acks (observe s t H W g) v \<Longrightarrow> snd y < T \<Longrightarrow> y \<in> acks g v"
proof -
  note D = grownD[OF gr]
  from see_votes_stable[OF safeD(1)[OF D(1)] D(2) v, of T] assms(3)
  show "see_votes t (votes g) v T = int c" by simp
  show "y \<in> acks g v" if "y \<in> acks (observe s t H W g) v" "snd y < T"
    using that vote_term[OF D(1) v assms(3)] D(12)[of v] by (auto simp: observe_acks)
qed

lemma grown_win_ok:
  assumes gr: "grown s g i rf M t H W" and w: "W T = Some (c, Q, b)"
  shows "win_ok (nsrv s) (observe s t H W g) T c Q b"
proof (cases "wins g T")
  case None
  from grown_win(4)[OF gr w None] show ?thesis .
next
  case (Some a)
  note D = grownD[OF gr]
  note h = safeD(3)[OF D(1)]
  from Some map_leD[OF D(6) Some] w have "wins g T = Some (c, Q, b)" by simp
  note k = hist_okD(4)[OF h this, unfolded win_ok_def]
  have "kept (observe s t H W g) y b (T - 1)"
    if "v \<in> Q" "y \<in> acks (observe s t H W g) v" "snd y < T" for v y
  proof (rule extends_kept[OF D(11) h _ order_refl])
    from that k have "v < nsrv s" "votes g v T = int c" by auto
    from grown_vote(2)[OF gr this that(2,3)] k that(1,3) show "kept g y b (T - 1)" by blast
  qed
  moreover have "see_votes t (votes g) v T = int c" if "v \<in> Q" for v
    using grown_vote(1)[OF gr] k that by blast
  ultimately show ?thesis using k nodes_mono[OF D(5)] unfolding win_ok_def by simp
qed

lemma grown_hist:
  assumes gr: "grown s g i rf M t H W"
  shows "hist_ok (nsrv s) (observe s t H W g)"
proof -
  note D = grownD[OF gr]
  note h = hist_okD[OF safeD(3)[OF D(1)]]
  have "\<exists>c Q b. W (snd y) = Some (c, Q, b) \<and> anc H b y" if y: "y \<in> dom H" for y
  proof (cases "y \<in> dom (tree g)")
    case True
    from h(2)[OF True] obtain c Q b where "wins g (snd y) = Some (c, Q, b)" "anc (tree g) b y" by blast
    with map_leD[OF D(6)] anc_mono[OF D(5)] show ?thesis by blast
  next
    case False
    from grown_new(2,3)[OF gr y False] show ?thesis by auto
  qed
  moreover have "anc H x y" if x: "x \<in> dom H" and y: "y \<in> dom H" and "snd x = snd y" "fst x \<le> fst y" for x y
  proof (cases "y \<in> dom (tree g)")
    case True
    have "x \<in> dom (tree g)"
      using grown_new(4)[OF gr x _ True] that(3,4) by (metis linorder_not_less)
    from h(3)[OF this True that(3,4)] show ?thesis by (rule anc_mono[OF D(5)])
  next
    case False
    note n = grown_new[OF gr y False]
    show ?thesis
    proof (cases "x \<in> dom (tree g)")
      case True
      with n(4) that(3) show ?thesis by blast
    next
      case False
      from grown_new(1)[OF gr x False] n(1) show ?thesis by simp
    qed
  qed
  ultimately show ?thesis using D(4) grown_win_ok[OF gr] unfolding hist_ok_def by simp
qed

text \<open>The other servers.\<close>

lemma grown_other_acks:
  assumes gr: "grown s g i rf M t H W" and v: "v < nsrv s" "v \<noteq> i"
  shows "y \<in> acks (observe s t H W g) v \<longleftrightarrow> y \<in> acks g v"
proof -
  note D = grownD[OF gr]
  note so = server_okD[OF safeD(5)[OF D(1) v(1)]]
  have "y \<in> acks g v" if y: "y \<in> dom H" "snd y = currentTerm (srv s v)" "anc H y (tip (rlog (srv s v)))"
  proof -
    from y(3) have a: "anc (tree g) y (tip (rlog (srv s v)))"
      using anc_stable[OF D(5) safeD(8)[OF D(1)] D(4) so(5)] by blast
    then have "y \<in> nodes (tree g)" using anc_node safeD(8)[OF D(1)] so(5) by blast
    with tree_dom[OF D(4) y(1)] node_dom have "y \<in> dom (tree g)" by blast
    with so(10) y(2) a show ?thesis by blast
  qed
  then show ?thesis using v D(9) by (auto simp: observe_acks)
qed

lemma grown_other_server:
  assumes gr: "grown s g i rf M t H W" and v: "v < nsrv s" "v \<noteq> i"
  shows "server_ok (nsrv s) (observe s t H W g) v (srv s v)"
proof -
  note D = grownD[OF gr]
  note so = server_okD[OF safeD(5)[OF D(1) v(1)]]
  have dom: "y \<in> dom H" if "y \<in> dom (tree g)" for y
    using map_le_implies_dom_le[OF D(5)] that by blast
  have "y \<in> acks (observe s t H W g) v"
    if "y \<in> dom H" "snd y = currentTerm (srv s v)" "anc H y (tip (rlog (srv s v)))" for y
    using that v D(8,9) by (simp add: observe_acks)
  moreover have "kept (observe s t H W g) y (tip (rlog (srv s v))) (currentTerm (srv s v))"
    if "y \<in> acks g v" for y
    using extends_kept[OF D(11) safeD(3)[OF D(1)] so(9)[OF that]] by simp
  ultimately show ?thesis
    using so(2,3) log_path_mono[OF D(5) so(1)] extends_commit_ok[OF D(11) so(4)] so(7,8) dom
    unfolding server_ok_def by (simp add: grown_other_acks[OF gr v])
qed

lemma grown_new_term:
  assumes gr: "grown s g i rf M t H W" and "y \<in> dom H" "wins g (snd y) = Some (c, Q, b)" "c \<noteq> i"
  shows "y \<in> dom (tree g)"
proof (rule ccontr)
  assume "y \<notin> dom (tree g)"
  from grown_new(2,3)[OF gr assms(2) this] obtain Q' b' where "W (snd y) = Some (i, Q', b')" by auto
  with map_leD[OF grownD(6)[OF gr] assms(3)] assms(4) show False by simp
qed

text \<open>A candidate whose term and log stay is the candidate it was, and so is one that cannot win.\<close>

lemma grown_cand:
  assumes gr: "grown s g i rf M t H W" and c: "cand_ok (nsrv s) g v (srv s v)"
    and "currentTerm rf' = currentTerm (srv s v)"
    and "tip (rlog rf') = tip (rlog (srv s v)) \<or> beaten (nsrv s) g v (currentTerm (srv s v))"
    and "currentTerm (srv t v) = currentTerm (srv s v)"
  shows "cand_ok (nsrv s) (observe s t H W g) v rf'"
proof -
  note D = grownD[OF gr]
  let ?T = "currentTerm (srv s v)" and ?g = "observe s t H W g"
  let ?k = "cands g v ?T"
  from c have k: "?k \<in> nodes (tree g)" "0 < ?T" "snd ?k < ?T"
    and alt: "tip (rlog (srv s v)) = ?k \<or> beaten (nsrv s) g v ?T"
    by (simp_all add: cand_ok_def Let_def)
  have "direct (nsrv s) ?g y \<and> \<not> anc H y ?k" if "direct (nsrv s) g y" "\<not> anc (tree g) y ?k" for y
    using that extends_direct[OF D(11)] extends_anc[OF D(11) safeD(3)[OF D(1)] k(1)]
    by (metis observe_simps(2))
  then have "beaten (nsrv s) ?g v ?T" if "beaten (nsrv s) g v ?T"
    using that assms(5) unfolding beaten_def by (auto simp del: split_paired_Ex)
  with k nodes_mono[OF D(5)] assms(3-5) alt show ?thesis by (auto simp add: cand_ok_def Let_def)
qed

text \<open>A leader whose term and log stay, in a term without new nodes.\<close>

lemma grown_matched:
  assumes gr: "grown s g i rf M t H W" and "matched g p T m"
    and "\<And>y. y \<in> dom H \<Longrightarrow> snd y = T \<Longrightarrow> fst y \<le> m \<Longrightarrow> y \<in> dom (tree g)"
  shows "matched (observe s t H W g) p T m"
  using assms(2,3) unfolding matched_def by (auto simp: observe_acks)

lemma grown_leader:
  assumes gr: "grown s g i rf M t H W" and l: "leader_ok (nsrv s) g v (srv s v)"
    and T: "currentTerm rf' = currentTerm (srv s v)" and tp: "tip (rlog rf') = tip (rlog (srv s v))"
    and old: "\<And>y. y \<in> dom H \<Longrightarrow> snd y = currentTerm (srv s v) \<Longrightarrow> y \<in> dom (tree g)"
    and m: "\<And>p m. p < nsrv s \<Longrightarrow> p \<noteq> v \<Longrightarrow> go_nth (matchIndex rf') (int p) = Some m \<Longrightarrow>
      m \<le> lastIndex (rlog (srv s v)) \<and> matched g p (currentTerm (srv s v)) m"
  shows "leader_ok (nsrv s) (observe s t H W g) v rf'"
proof -
  note D = grownD[OF gr]
  note L = leader_okD[OF l]
  have e: "lastIndex (rlog rf') = lastIndex (rlog (srv s v))" using arg_cong[OF tp, of fst] by simp
  from L(1) obtain Q b where w: "wins g (currentTerm (srv s v)) = Some (v, Q, b)" by blast
  show ?thesis
  proof (rule leader_okI, goal_cases)
    case 1
    from map_leD[OF D(6) w] show ?case by (simp add: T)
  next
    case 2
    from L(2) map_le_implies_dom_le[OF D(5)] show ?case by (auto simp: tp)
  next
    case 3
    from L(3) show ?case by (simp only: T tp)
  next
    case (4 y)
    with old L(4) have "anc (tree g) y (tip (rlog (srv s v)))" by (simp add: T)
    with anc_mono[OF D(5)] tp show ?case by simp
  next
    case (5 p m)
    with m show ?case by (simp add: e)
  next
    case (6 p m)
    with m old show ?case unfolding T by (intro grown_matched[OF gr]) auto
  qed
qed

lemma grown_other_role:
  assumes gr: "grown s g i rf M t H W" and v: "v < nsrv s" "v \<noteq> i"
  shows "role_ok (nsrv s) (observe s t H W g) v (srv s v)"
proof -
  note D = grownD[OF gr]
  note r = safeD(6)[OF D(1) v(1), unfolded role_ok_def]
  let ?T = "currentTerm (srv s v)" and ?g = "observe s t H W g"
  have tv: "srv t v = srv s v" using D(9) v(2) by simp
  have "cand_ok (nsrv s) ?g v (srv s v)" if "rstate (srv s v) = Candidate"
    using r that tv grown_cand[OF gr _ refl disjI1[OF refl]] by metis
  moreover have "leader_ok (nsrv s) ?g v (srv s v)" if "rstate (srv s v) = Leader"
  proof -
    from that r have l: "leader_ok (nsrv s) g v (srv s v)" by blast
    have old: "y \<in> dom (tree g)" if "y \<in> dom H" "snd y = ?T" for y
      using grown_new_term[OF gr that(1)] leader_okD(1)[OF l] that(2) v(2) by auto
    show ?thesis by (rule grown_leader[OF gr l refl refl old]) (use leader_okD(5,6)[OF l] in auto)
  qed
  moreover have "wins g T = Some (v, Q, b)" if "W T = Some (v, Q, b)" for T Q b
    using grown_win(1)[OF gr that] map_leD[OF D(6)] that v(2) by (cases "wins g T") auto
  ultimately show ?thesis using r unfolding role_ok_def by auto
qed

text \<open>Votes and packets of the past.\<close>

definition new_vote_ok ::
  "('c, 'b) cluster \<Rightarrow> 'c ghost \<Rightarrow> 'c ghost \<Rightarrow> nat \<Rightarrow> ('c, 'b) Raft \<Rightarrow> ('c, 'b) cluster \<Rightarrow> bool" where
  "new_vote_ok s g g' i rf t \<longleftrightarrow> (let T = currentTerm rf in \<forall>c < nsrv s. votedFor rf = int c \<longrightarrow>
     votes g i T \<noteq> int c \<longrightarrow> T \<le> currentTerm (srv t c) \<and>
     (wins g' T \<noteq> None \<or> (\<forall>y \<in> acks g i. snd y < T \<longrightarrow> kept g' y (cands g' c T) (T - 1))))"

lemma grown_ballots:
  assumes gr: "grown s g i rf M t H W" and new: "new_vote_ok s g (observe s t H W g) i rf t"
  shows "ballots_ok t (observe s t H W g)"
proof -
  note D = grownD[OF gr]
  let ?g = "observe s t H W g"
  have "T \<le> currentTerm (srv t c) \<and>
     (W T \<noteq> None \<or> (\<forall>y \<in> acks ?g v. snd y < T \<longrightarrow> kept ?g y (cands ?g c T) (T - 1)))"
    if v: "v < nsrv s" and c: "c < nsrv s" and vt: "see_votes t (votes g) v T = int c" for v c T
  proof (cases "votes g v T = int c")
    case True
    from safeD(4)[OF D(1)] v c True have b: "T \<le> currentTerm (srv s c)"
      "wins g T \<noteq> None \<or> (\<forall>y \<in> acks g v. snd y < T \<longrightarrow> kept g y (cands g c T) (T - 1))"
      unfolding ballots_ok_def by blast+
    from b(1) have "cands ?g c T = cands g c T" by simp
    moreover have "W T \<noteq> None" if "wins g T \<noteq> None" using that map_leD[OF D(6)] by fastforce
    ultimately show ?thesis
      using b grown_vote(2)[OF gr v True] extends_kept[OF D(11) safeD(3)[OF D(1)]] D(12)[of c]
      by (metis order_refl order_trans)
  next
    case False
    with vt have T: "T = currentTerm (srv t v)" "votedFor (srv t v) = int c"
      by (auto simp: see_votes_def split: if_split_asm)
    have "v = i"
    proof (rule ccontr)
      assume "v \<noteq> i"
      with T D(9) have "T = currentTerm (srv s v)" "votedFor (srv s v) = int c" by simp_all
      with safeD(1)[OF D(1)] v False show False by (simp add: election_inv_def)
    qed
    with T D(9) have rf: "T = currentTerm rf" "votedFor rf = int c" by simp_all
    have "y \<in> acks g v" if "y \<in> acks ?g v" "snd y < T" for y
      using that T(1) by (auto simp: observe_acks)
    with new rf False c \<open>v = i\<close> show ?thesis unfolding new_vote_ok_def Let_def by auto
  qed
  then show ?thesis unfolding ballots_ok_def D(8) by simp
qed

text \<open>A new node lies behind everything that was sent or committed in its term before.\<close>

lemma grown_beyond:
  assumes gr: "grown s g i rf M t H W" and y: "y \<in> dom H" "y \<notin> dom (tree g)"
  shows "w \<in> dom (tree g) \<Longrightarrow> snd w = snd y \<Longrightarrow> anc (tree g) z w \<Longrightarrow> fst z < fst y"
    and "committed (nsrv s) g (snd y) z \<Longrightarrow> fst z < fst y"
proof -
  note D = grownD[OF gr]
  let ?g = "observe s t H W g"
  show "fst z < fst y" if "w \<in> dom (tree g)" "snd w = snd y" "anc (tree g) z w"
    using grown_new(4)[OF gr y that(1,2)] anc_index[OF that(3)] by simp
  assume z: "committed (nsrv s) g (snd y) z"
  from extends_committed[OF D(11) z] y obtain w where w: "w \<in> dom H" "snd w = snd y" "anc H z w" "anc H y w"
    by (elim committed_on_term[OF grown_hist[OF gr], where w = y]) auto
  have "w = y"
  proof (rule ccontr)
    assume "w \<noteq> y"
    with grown_new(1)[OF gr y] grown_new(1)[OF gr w(1)] have "w \<in> dom (tree g)" by blast
    with grown_new(4)[OF gr y _ w(2)] anc_index[OF w(4)] show False by fastforce
  qed
  moreover have "z \<in> nodes (tree g)" by (rule committed_node[OF safeD(3)[OF D(1)] z])
  then have "z \<noteq> y" using y(2) tree_dom[OF D(4) y(1)] by (auto simp: nodes_def)
  ultimately show "fst z < fst y" using anc_index[OF w(3)] anc_same[OF w(3)] by fastforce
qed

lemma grown_packet:
  assumes gr: "grown s g i rf M t H W" and p: "p \<in># net s"
  shows "packet_ok (nsrv s) (observe s t H W g) p"
proof -
  note D = grownD[OF gr]
  note ok = safeD(7)[OF D(1) p]
  show ?thesis
  proof (cases p)
    case (VoteReq c v a)
    have "rvTerm a \<le> currentTerm (srv s c)"
      using safeD(1)[OF D(1)] p unfolding election_inv_def VoteReq by fastforce
    then show ?thesis using ok nodes_mono[OF D(5)] by (auto simp: VoteReq)
  next
    case (AppReq c v aa)
    with ok extends_app_req_ok[OF D(11)] show ?thesis by simp
  next
    case (AppRep c v aa ar)
    have "matched (observe s t H W g) v (aeTerm aa) (fst (ae_end aa))" if "arSuccess ar"
    proof (rule grown_matched[OF gr])
      from ok that show "matched g v (aeTerm aa) (fst (ae_end aa))" by (simp add: AppRep)
      from ok obtain w where "w \<in> dom (tree g)" "snd w = aeTerm aa" "anc (tree g) (ae_end aa) w"
        by (auto simp: AppRep app_req_ok_def)
      then show "y \<in> dom (tree g)" if "y \<in> dom H" "snd y = aeTerm aa" "fst y \<le> fst (ae_end aa)" for y
        using grown_beyond(1)[OF gr that(1), of w "ae_end aa"] that(2,3) by fastforce
    qed
    with ok extends_app_req_ok[OF D(11)] show ?thesis by (simp add: AppRep)
  next
    case (SnapReq c v ia)
    with ok extends_committed[OF D(11)] show ?thesis by simp
  next
    case (SnapRep c v ia ir)
    from ok have c: "committed (nsrv s) g (isTerm ia) (sn_node ia)" by (simp add: SnapRep)
    have "matched (observe s t H W g) v (isTerm ia) (fst (sn_node ia))" if "irSuccess ir"
    proof (rule grown_matched[OF gr])
      from ok that show "matched g v (isTerm ia) (fst (sn_node ia))" by (simp add: SnapRep)
      show "y \<in> dom (tree g)" if "y \<in> dom H" "snd y = isTerm ia" "fst y \<le> fst (sn_node ia)" for y
        using grown_beyond(2)[OF gr that(1), of "sn_node ia"] c that(2,3) by fastforce
    qed
    with extends_committed[OF D(11) c] show ?thesis by (simp add: SnapRep)
  qed simp_all
qed

text \<open>
  The rule for an event: the changed server has a log of the tree, keeps what it stored, knows
  only committed entries, plays its role and votes rightly; the new packets are in order.
\<close>

lemma safe_change:
  fixes g :: "'c ghost"
  assumes gr: "grown s g i rf M t H W"
    and log: "log_path H (rlog rf)" "snd (tip (rlog rf)) \<le> currentTerm rf"
    and com: "commit_ok (nsrv s) (observe s t H W g) rf"
    and keep: "\<And>y. y \<in> acks g i \<Longrightarrow> kept (observe s t H W g) y (tip (rlog rf)) (currentTerm rf)"
    and cand: "rstate rf = Candidate \<Longrightarrow> cand_ok (nsrv s) (observe s t H W g) i rf \<and>
      (rstate (srv s i) = Candidate \<or> currentTerm (srv s i) < currentTerm rf)"
    and lead: "rstate rf = Leader \<Longrightarrow> leader_ok (nsrv s) (observe s t H W g) i rf"
    and vote: "new_vote_ok s g (observe s t H W g) i rf t"
    and pkt: "\<And>p. p \<in># M \<Longrightarrow> p \<in># net s \<or> packet_ok (nsrv s) (observe s t H W g) p"
  shows "safe t (observe s t H W g)"
proof -
  note D = grownD[OF gr]
  let ?g = "observe s t H W g" and ?n = "nsrv s"
  note so = server_okD[OF safeD(5)[OF D(1,7)]]
  have ti: "srv t i = rf" using D(9) by simp
  have Ti: "currentTerm (srv s i) \<le> currentTerm rf" using D(12)[of i] ti by simp
  have dom: "dom (tree g) \<subseteq> dom H" by (rule map_le_implies_dom_le[OF D(5)])
  have "server_ok ?n ?g i rf"
  proof -
    have "y \<in> dom H \<and> snd y \<le> currentTerm rf \<and> kept ?g y (tip (rlog rf)) (currentTerm rf)"
      if "y \<in> acks ?g i" for y
    proof (cases "y \<in> acks g i")
      case True
      from keep[OF True] so(7,8)[OF True] dom Ti show ?thesis by auto
    next
      case False
      with that show ?thesis by (auto simp: observe_acks ti kept_def)
    qed
    moreover have "y \<in> acks ?g i" if "y \<in> dom H" "snd y = currentTerm rf" "anc H y (tip (rlog rf))" for y
      using that D(7,8) by (simp add: observe_acks ti)
    ultimately show ?thesis unfolding server_ok_def using log com so(3) Ti by simp
  qed
  moreover have "role_ok ?n ?g i rf"
  proof -
    have "T < currentTerm rf \<or> T = currentTerm rf \<and> rstate rf \<noteq> Candidate" if w: "W T = Some (i, Q, b)" for T Q b
    proof (cases "wins g T")
      case None
      from grown_win(2,3)[OF gr w None] show ?thesis by simp
    next
      case (Some a)
      with map_leD[OF D(6) Some] w have "wins g T = Some (i, Q, b)" by simp
      with safeD(6)[OF D(1,7)] have "T < currentTerm (srv s i) \<or>
        T = currentTerm (srv s i) \<and> rstate (srv s i) \<noteq> Candidate" unfolding role_ok_def by blast
      with Ti cand show ?thesis by force
    qed
    with cand lead show ?thesis unfolding role_ok_def by auto
  qed
  ultimately have "\<forall>v < ?n. server_ok ?n ?g v (srv t v) \<and> role_ok ?n ?g v (srv t v)"
    using grown_other_server[OF gr] grown_other_role[OF gr] D(9) by auto
  moreover have "\<forall>p \<in># net t. packet_ok ?n ?g p" using pkt grown_packet[OF gr] D(10) by blast
  ultimately show ?thesis
    using election_inv_step[OF safeD(1)[OF D(1)] D(2)] grown_hist[OF gr] grown_ballots[OF gr vote] D(8)
    unfolding safe_def by simp
qed

end
