(* ===== verification/RaftSteps.thy ===== *)
theory RaftSteps
  imports RaftInv
begin

text \<open>
  Every event keeps the invariant \<open>safe\<close>, where no entry is created: replies, votes, snapshots,
  restarts and AppendEntry.  The events of a leader that create entries follow in \<open>RaftSafety\<close>.
\<close>

section \<open>Events without new entries\<close>

abbreviation seen :: "('c, 'b) cluster \<Rightarrow> ('c, 'b) cluster \<Rightarrow> 'c ghost \<Rightarrow> 'c ghost" where
  "seen s t g \<equiv> observe s t (tree g) (wins g) g"

lemma seen_simps [simp]:
  "lacks (seen s t g) T y = lacks g T y" "kept (seen s t g) y x T = kept g y x T"
  by (simp_all add: lacks_def kept_def)

lemma grown_plain:
  assumes "safe s g" and "raft_step s t" and "changes s i rf M t"
  shows "grown s g i rf M t (tree g) (wins g)"
  using assms safeD(8)[OF assms(1)] by (auto simp: grown_def)

text \<open>In the same term a server keeps its vote and at most steps down; in a newer term it follows
  and has not voted.\<close>

definition tame :: "('c, 'b) Raft \<Rightarrow> ('c, 'b) Raft \<Rightarrow> bool" where
  "tame rf rf' \<longleftrightarrow>
     currentTerm rf' = currentTerm rf \<and> votedFor rf' = votedFor rf \<and> (rstate rf' = rstate rf \<or> rstate rf' = Follower) \<or>
     currentTerm rf < currentTerm rf' \<and> votedFor rf' = -1 \<and> rstate rf' = Follower"

lemma tame_vote:
  assumes "safe s g" and "i < nsrv s" and "tame (srv s i) rf"
  shows "new_vote_ok s g g' i rf t"
proof -
  have "votes g i (currentTerm (srv s i)) = votedFor (srv s i)"
    using safeD(1)[OF assms(1)] assms(2) by (simp add: election_inv_def)
  with assms(3) show ?thesis unfolding new_vote_ok_def Let_def tame_def by auto
qed

lemma safe_plain:
  assumes sf: "safe s g" and st: "raft_step s t" and ch: "changes s i rf M t"
    and log: "log_path (tree g) (rlog rf)" "snd (tip (rlog rf)) \<le> currentTerm rf"
    and com: "commit_ok (nsrv s) g rf"
    and keep: "\<And>y. y \<in> acks g i \<Longrightarrow> kept g y (tip (rlog rf)) (currentTerm rf)"
    and role: "rstate rf \<noteq> Follower \<Longrightarrow> rstate rf = rstate (srv s i) \<and> currentTerm rf = currentTerm (srv s i) \<and>
      (tip (rlog rf) = tip (rlog (srv s i)) \<or> rstate rf = Candidate \<and> beaten (nsrv s) g i (currentTerm rf))"
    and mtch: "\<And>p m. rstate rf = Leader \<Longrightarrow> p < nsrv s \<Longrightarrow> p \<noteq> i \<Longrightarrow> go_nth (matchIndex rf) (int p) = Some m \<Longrightarrow>
      m \<le> lastIndex (rlog rf) \<and> matched g p (currentTerm rf) m"
    and vote: "new_vote_ok s g (seen s t g) i rf t"
    and pkt: "\<And>p. p \<in># M \<Longrightarrow> p \<in># net s \<or> packet_ok (nsrv s) (seen s t g) p"
  shows "safe t (seen s t g)"
proof -
  note gr = grown_plain[OF sf st ch]
  note D = grownD[OF gr]
  note r = safeD(6)[OF sf D(7), unfolded role_ok_def]
  show ?thesis
  proof (rule safe_change[OF gr log extends_commit_ok[OF D(11) com] _ _ _ vote pkt])
    show "kept (seen s t g) y (tip (rlog rf)) (currentTerm rf)" if "y \<in> acks g i" for y
      using keep[OF that] by simp
    show "cand_ok (nsrv s) (seen s t g) i rf \<and>
        (rstate (srv s i) = Candidate \<or> currentTerm (srv s i) < currentTerm rf)" if c: "rstate rf = Candidate"
    proof -
      from role c have same: "rstate (srv s i) = Candidate" "currentTerm rf = currentTerm (srv s i)"
        "tip (rlog rf) = tip (rlog (srv s i)) \<or> beaten (nsrv s) g i (currentTerm (srv s i))" by auto
      with r have "cand_ok (nsrv s) g i (srv s i)" by blast
      from grown_cand[OF gr this same(2,3)] same D(9) show ?thesis by simp
    qed
    show "leader_ok (nsrv s) (seen s t g) i rf" if c: "rstate rf = Leader"
    proof -
      from role c have same: "rstate (srv s i) = Leader" "currentTerm rf = currentTerm (srv s i)"
        "tip (rlog rf) = tip (rlog (srv s i))" by simp_all
      then have "lastIndex (rlog rf) = lastIndex (rlog (srv s i))" by (metis tip_simps(1))
      with same mtch[OF c] r show ?thesis by (intro grown_leader[OF gr]) auto
    qed
  qed
qed

text \<open>A server whose log and commit index stay.\<close>

definition still :: "('c, 'b) Raft \<Rightarrow> ('c, 'b) Raft \<Rightarrow> bool" where
  "still rf rf' \<longleftrightarrow> tame rf rf' \<and> rlog rf' = rlog rf \<and> commitIndex rf' = commitIndex rf \<and>
     (rstate rf' = Leader \<longrightarrow> matchIndex rf' = matchIndex rf)"

lemma still_refl [simp]: "still rf rf"
  by (simp add: still_def tame_def)

lemma commit_ok_later:
  assumes "commit_ok n g rf" and "currentTerm rf \<le> currentTerm rf'" and "rlog rf' = rlog rf"
    and "commitIndex rf' = commitIndex rf"
  shows "commit_ok n g rf'"
  using assms committed_mono unfolding commit_ok_def by metis

lemma tame_term: "tame rf rf' \<Longrightarrow> currentTerm rf \<le> currentTerm rf'"
  by (auto simp: tame_def)

text \<open>The same when a vote may be new.\<close>

lemma safe_log_kept:
  assumes sf: "safe s g" and st: "raft_step s t" and ch: "changes s i rf M t"
    and same: "rlog rf = rlog (srv s i)" "commitIndex rf = commitIndex (srv s i)"
      "currentTerm (srv s i) \<le> currentTerm rf" "rstate rf = Leader \<longrightarrow> matchIndex rf = matchIndex (srv s i)"
      "rstate rf \<noteq> Follower \<longrightarrow> rstate rf = rstate (srv s i) \<and> currentTerm rf = currentTerm (srv s i)"
    and vote: "new_vote_ok s g (seen s t g) i rf t"
    and pkt: "\<And>p. p \<in># M \<Longrightarrow> p \<in># net s \<or> packet_ok (nsrv s) (seen s t g) p"
  shows "safe t (seen s t g)"
proof -
  have i: "i < nsrv s" using ch by (simp add: changes_def)
  note so = server_okD[OF safeD(5)[OF sf i]]
  show ?thesis
  proof (rule safe_plain[OF sf st ch _ _ _ _ _ _ vote pkt])
    show "log_path (tree g) (rlog rf)" "snd (tip (rlog rf)) \<le> currentTerm rf" using so(1,2) same by simp_all
    show "commit_ok (nsrv s) g rf" using so(4) same by (auto intro: commit_ok_later)
    show "kept g y (tip (rlog rf)) (currentTerm rf)" if "y \<in> acks g i" for y
      using so(9)[OF that] kept_term same(1,3) by metis
    show "rstate rf = rstate (srv s i) \<and> currentTerm rf = currentTerm (srv s i) \<and>
        (tip (rlog rf) = tip (rlog (srv s i)) \<or> rstate rf = Candidate \<and> beaten (nsrv s) g i (currentTerm rf))"
      if "rstate rf \<noteq> Follower"
      using same that by simp
    show "m \<le> lastIndex (rlog rf) \<and> matched g p (currentTerm rf) m"
      if "rstate rf = Leader" "p < nsrv s" "p \<noteq> i" "go_nth (matchIndex rf) (int p) = Some m" for p m
    proof -
      from that(1) same have "rstate (srv s i) = Leader" "currentTerm rf = currentTerm (srv s i)"
        "matchIndex rf = matchIndex (srv s i)" by auto
      with safeD(6)[OF sf i] leader_okD(5,6)[of "nsrv s" g i "srv s i"] that(2-4) same(1) show ?thesis
        unfolding role_ok_def by auto
    qed
  qed
qed

lemma safe_still:
  assumes "safe s g" and "raft_step s t" and "changes s i rf M t" and "still (srv s i) rf"
    and "\<And>p. p \<in># M \<Longrightarrow> p \<in># net s \<or> packet_ok (nsrv s) (seen s t g) p"
  shows "safe t (seen s t g)"
proof (rule safe_log_kept[OF assms(1-3) _ _ _ _ _ _ assms(5)])
  have i: "i < nsrv s" using assms(3) by (simp add: changes_def)
  show "new_vote_ok s g (seen s t g) i rf t"
    using assms(4) by (intro tame_vote[OF assms(1) i]) (simp add: still_def)
qed (use assms(4) tame_term in \<open>auto simp: still_def tame_def\<close>)

section \<open>What a leader sends\<close>

lemma sends_simps [simp]:
  "commit_ok n g (rf\<lparr>lastSendAppendEntry := ls\<rparr>) = commit_ok n g rf"
  "leader_ok n g v (rf\<lparr>lastSendAppendEntry := ls\<rparr>) = leader_ok n g v rf"
  "cand_ok n g v (rf\<lparr>lastSendAppendEntry := ls\<rparr>) = cand_ok n g v rf"
  by (simp_all add: commit_ok_def leader_ok_def cand_ok_def)

lemma sendHeatbeat_peer_args:
  assumes "sendHeatbeat_peer now force p rf = Some (rf', sp)" and "wf_log (rlog rf)"
    and "GoAppendEntry q a \<in> set sp"
  obtains k where "0 < k" "k \<le> length (rlog rf)" "ae_prev a = enode (rlog rf ! (k - 1))"
    "aeEntries a = drop k (rlog rf)" "aeTerm a = currentTerm rf" "aeLeaderCommit a = commitIndex rf"
proof -
  define l b where "l = rlog rf" and "b = firstIndex l"
  have ne: "l \<noteq> []" and last: "lastIndex l = b + int (length l) - 1"
    using assms(2) wf_log_last wf_log_nonempty by (auto simp: l_def b_def)
  from assms(1,3) obtain nxt pre es where
    pre: "go_nth l (nxt - b - 1) = Some pre" and prev: "ae_prev a = enode pre"
    and es: "(if nxt \<le> lastIndex l then go_from l (nxt - b) else Some []) = Some es"
    and a: "aeEntries a = es" "aeTerm a = currentTerm rf" "aeLeaderCommit a = commitIndex rf"
    unfolding sendHeatbeat_peer_def Let_def
    by (auto elim!: bindE split: if_split_asm
        simp: l_def b_def go_last_Some_iff go_nth_hd go_nth_0 ae_prev_def enode_def)
  define k where "k = nat (nxt - b)"
  from pre have k: "0 < k" "k \<le> length l" "pre = l ! (k - 1)"
    by (auto simp: go_simps k_def nat_diff_distrib')
  from es k last have "es = drop k l" by (auto simp: go_simps k_def split: if_split_asm)
  with k prev a show thesis by (intro that[of k]) (simp_all add: l_def)
qed

lemma sendHeatbeat_loop_args:
  assumes "sendHeatbeat_loop now force ps rf = Some (rf', sp)" and "wf_log (rlog rf)"
    and "GoAppendEntry q a \<in> set sp"
  shows "\<exists>k > 0. k \<le> length (rlog rf) \<and> ae_prev a = enode (rlog rf ! (k - 1)) \<and>
    aeEntries a = drop k (rlog rf) \<and> aeTerm a = currentTerm rf \<and> aeLeaderCommit a = commitIndex rf"
  using assms
proof (induction ps arbitrary: rf sp)
  case (Cons p ps)
  from Cons.prems(1) obtain rf1 s1 s2 where 1: "sendHeatbeat_peer now force p rf = Some (rf1, s1)"
    and 2: "sendHeatbeat_loop now force ps rf1 = Some (rf', s2)" and sp: "sp = s1 @ s2"
    by (auto elim!: bindE)
  obtain ls where rf1: "rf1 = rf\<lparr>lastSendAppendEntry := ls\<rparr>"
    using blank_sends[OF sendHeatbeat_peer_facts(1)[OF 1]] by metis
  show ?case
  proof (cases "GoAppendEntry q a \<in> set s1")
    case True
    from 1 Cons.prems(2) True show ?thesis by (rule sendHeatbeat_peer_args) blast
  next
    case False
    with Cons.IH[OF 2] Cons.prems(2,3) sp show ?thesis by (simp add: rf1)
  qed
qed simp

lemma leader_sends:
  assumes "sendHeatbeat now force rf = Some (rf', sp)" and "GoAppendEntry q a \<in> set sp"
    and log: "log_path (tree g) (rlog rf)" and com: "commit_ok n g rf" and lead: "leader_ok n g v rf"
  shows "app_req_ok n g v a"
proof -
  note L = leader_okD[OF lead]
  from sendHeatbeat_loop_args[OF assms(1)[unfolded sendHeatbeat_def] log_path_wf[OF log] assms(2)]
  obtain k where k: "0 < k" "k \<le> length (rlog rf)" "ae_prev a = enode (rlog rf ! (k - 1))"
    and a: "aeEntries a = drop k (rlog rf)" "aeTerm a = currentTerm rf" "aeLeaderCommit a = commitIndex rf"
    by blast
  have pre: "log_path (tree g) (drop (k - 1) (rlog rf))" "tip (drop (k - 1) (rlog rf)) = tip (rlog rf)"
    using log_path_drop[OF log, of "k - 1"] k by auto
  have split: "drop (k - 1) (rlog rf) = rlog rf ! (k - 1) # drop k (rlog rf)"
    using k by (metis Cons_nth_drop_Suc Suc_diff_1 diff_less less_le_trans less_one)
  from pre(1) have c: "chain (tree g) (ae_prev a) (aeEntries a)" and pn: "ae_prev a \<in> nodes (tree g)"
    unfolding split k(3) a(1) by (simp_all add: log_path_def first_ok_def)
  have e: "ae_end a = tip (rlog rf)"
    using pre tip_endn[of "drop (k - 1) (rlog rf)"] unfolding split ae_end_def k(3) a(1) by simp
  from com obtain x where "fst x = commitIndex rf" "anc (tree g) x (tip (rlog rf))"
    "committed n g (currentTerm rf) x" by (auto simp: commit_ok_def)
  with c pn L(1-3) show ?thesis unfolding app_req_ok_def e a(2,3) by blast
qed

lemma started_packets:
  assumes "sendHeatbeat now force rf = Some (rf', sp)" and "p \<in># started i sp"
    and "log_path (tree g) (rlog rf)" "commit_ok n g rf" "leader_ok n g i rf"
  shows "packet_ok n g p"
proof -
  from assms(1) have calm: "calm_spawns (me rf) (currentTerm rf) (npeers rf) sp"
    by (rule sendHeatbeat_frame)
  from assms(2) obtain x where "x \<in> set sp" "p = packet_of i x" by auto
  with calm leader_sends[OF assms(1) _ assms(3-5)] show ?thesis
    by (cases x) (auto simp: calm_spawns_def)
qed

section \<open>Events of a leader that keeps its log\<close>

text \<open>A leader that updates its arrays or its commit index and then sends.\<close>

lemma safe_plain_sends:
  assumes sf: "safe s g" and st: "raft_step s t" and ch: "changes s i rf (N + started i sp) t"
    and N: "\<And>p. p \<in># N \<Longrightarrow> p \<in># net s"
    and send: "sendHeatbeat now force rf1 = Some (rf, sp)"
    and lead: "rstate rf1 = Leader" "rstate (srv s i) = Leader" "currentTerm rf1 = currentTerm (srv s i)"
      "votedFor rf1 = votedFor (srv s i)"
    and log: "log_path (tree g) (rlog rf1)" "tip (rlog rf1) = tip (rlog (srv s i))"
    and com: "commit_ok (nsrv s) g rf1"
    and mtch: "\<And>p m. p < nsrv s \<Longrightarrow> p \<noteq> i \<Longrightarrow> go_nth (matchIndex rf1) (int p) = Some m \<Longrightarrow>
      m \<le> lastIndex (rlog (srv s i)) \<and> matched g p (currentTerm (srv s i)) m"
  shows "safe t (seen s t g)"
proof -
  note gr = grown_plain[OF sf st ch]
  note D = grownD[OF gr]
  note so = server_okD[OF safeD(5)[OF sf D(7)]]
  from safeD(6)[OF sf D(7)] lead(2) have l: "leader_ok (nsrv s) g i (srv s i)" by (simp add: role_ok_def)
  from send obtain ls where rf: "rf = rf1\<lparr>lastSendAppendEntry := ls\<rparr>" by (rule sendHeatbeat_frame)
  have li: "lastIndex (rlog rf1) = lastIndex (rlog (srv s i))" using log(2) by (metis tip_simps(1))
  have "leader_ok (nsrv s) (seen s t g) i rf1" by (rule grown_leader[OF gr l lead(3) log(2)]) (use mtch in auto)
  moreover have "log_path (tree (seen s t g)) (rlog rf1)" using log(1) by simp
  ultimately have pkt: "packet_ok (nsrv s) (seen s t g) p" if "p \<in># started i sp" for p
    using started_packets[OF send that] extends_commit_ok[OF D(11) com] by blast
  show ?thesis
  proof (rule safe_plain[OF sf st ch])
    show "log_path (tree g) (rlog rf)" using log(1) by (simp add: rf)
    show "snd (tip (rlog rf)) \<le> currentTerm rf" using so(2) log(2) lead(3) by (simp add: rf tip_def enode_def)
    show "commit_ok (nsrv s) g rf" using com by (simp add: rf)
    show "kept g y (tip (rlog rf)) (currentTerm rf)" if "y \<in> acks g i" for y
      using so(9)[OF that] log(2) lead(3) by (simp add: rf)
    show "new_vote_ok s g (seen s t g) i rf t"
      by (rule tame_vote[OF sf D(7)]) (use lead in \<open>simp add: tame_def rf\<close>)
    show "p \<in># net s \<or> packet_ok (nsrv s) (seen s t g) p" if "p \<in># N + started i sp" for p
      using that N pkt by auto
  qed (use lead log mtch li in \<open>auto simp: rf\<close>)
qed

lemma safe_heatbeat:
  assumes sf: "safe s g" and st: "raft_step s t" and i: "i < nsrv s"
    and h: "heatbeat now (srv s i) = Some (rf, sp)" and t: "t = put i rf (started i sp) s"
  shows "safe t (seen s t g)"
proof (cases "rstate (srv s i) = Leader")
  case True
  with h have send: "sendHeatbeat now False (srv s i) = Some (rf, sp)" by (simp add: heatbeat_def)
  have ch: "changes s i rf (net s + started i sp) t" using t i by (simp add: changes_def put_def)
  note so = server_okD[OF safeD(5)[OF sf i]]
  from safeD(6)[OF sf i] True have l: "leader_ok (nsrv s) g i (srv s i)" by (simp add: role_ok_def)
  show ?thesis
    by (rule safe_plain_sends[OF sf st ch _ send]) (use True so leader_okD(5,6)[OF l] in auto)
next
  case False
  with h t i have "changes s i (srv s i) (net s) t" by (simp add: heatbeat_def changes_def put_def)
  then show ?thesis by (rule safe_still[OF sf st]) simp_all
qed

text \<open>The commit index of a leader: a majority has stored the entry in the leader's term.\<close>

lemma matchCount_direct:
  assumes sf: "safe s g" and i: "i < nsrv s" and lead: "rstate (srv s i) = Leader"
    and rf1: "rlog rf1 = rlog (srv s i)" "currentTerm rf1 = currentTerm (srv s i)"
      "me rf1 = int i" "npeers rf1 = nsrv s"
    and mtch: "\<And>p m. p < nsrv s \<Longrightarrow> p \<noteq> i \<Longrightarrow> go_nth (matchIndex rf1) (int p) = Some m \<Longrightarrow>
      m \<le> lastIndex (rlog (srv s i)) \<and> matched g p (currentTerm (srv s i)) m"
    and e: "go_nth (rlog rf1) (int j) = Some e" "eTerm e = currentTerm rf1" "0 < eIndex e"
    and count: "matchCount rf1 (eIndex e) [0..<npeers rf1] = Some cnt" "npeers rf1 div 2 < cnt"
  shows "direct (nsrv s) g (enode e)"
proof -
  note so = server_okD[OF safeD(5)[OF sf i]]
  from e(1) have j: "j < length (rlog (srv s i))" "e = rlog (srv s i) ! j" by (auto simp: go_simps rf1(1))
  have a: "anc (tree g) (enode e) (tip (rlog (srv s i)))" using log_path_anc[OF so(1) j(1)] j(2) by simp
  then have "enode e \<in> nodes (tree g)" using anc_node[OF _ safeD(8)[OF sf] so(5)] by blast
  then have d: "enode e \<in> dom (tree g)" using e(3) by (intro node_dom) simp_all
  have "enode e \<in> acks g p" if p: "p < nsrv s" "p = i \<or> eIndex e \<le> matchIndex rf1 ! p" for p
  proof (cases "p = i")
    case True
    with so(10)[OF d _ a] e(2) rf1(2) show ?thesis by simp
  next
    case False
    from matchCount_defined[OF count(1), of p] p(1) False rf1(3,4)
    have "go_nth (matchIndex rf1) (int p) = Some (matchIndex rf1 ! p)" by simp
    from mtch[OF p(1) False this] d e(2) rf1(2) p(2) False show ?thesis
      unfolding matched_def by (metis enode_simps)
  qed
  then have "{p. p < nsrv s \<and> (p = i \<or> eIndex e \<le> matchIndex rf1 ! p)} \<subseteq> {v. v < nsrv s \<and> enode e \<in> acks g v}"
    by blast
  then have "card {p. p < nsrv s \<and> (p = i \<or> eIndex e \<le> matchIndex rf1 ! p)} \<le>
      card {v. v < nsrv s \<and> enode e \<in> acks g v}" by (intro card_mono) auto
  with acknowledged[OF count(1) rf1(3)] rf1(4) i count(2) d show ?thesis by (simp add: direct_def)
qed

lemma safe_commit:
  assumes sf: "safe s g" and st: "raft_step s t" and ch: "changes s i rf (N + started i sp) t"
    and N: "\<And>p. p \<in># N \<Longrightarrow> p \<in># net s"
    and lead: "rstate (srv s i) = Leader"
    and rf1: "rf1 = (srv s i)\<lparr>matchIndex := mi, nextIndex := ni\<rparr>"
    and mtch: "\<And>p m. p < nsrv s \<Longrightarrow> p \<noteq> i \<Longrightarrow> go_nth mi (int p) = Some m \<Longrightarrow>
      m \<le> lastIndex (rlog (srv s i)) \<and> matched g p (currentTerm (srv s i)) m"
    and up: "updateCommitIndex now idx rf1 = Some (rf, sp)"
  shows "safe t (seen s t g)"
proof -
  have i: "i < nsrv s" using ch by (simp add: changes_def)
  note so = server_okD[OF safeD(5)[OF sf i]] and b = basicD[OF safeD(2)[OF sf] i]
  have com: "commit_ok (nsrv s) g rf1" using so(4) by (simp add: rf1 commit_ok_def)
  have keep: ?thesis if "rf = rf1" "sp = []"
    by (rule safe_plain[OF sf st ch _ _ _ _ _ _ tame_vote[OF sf i]])
      (use so com mtch lead N in \<open>auto simp: that rf1 tame_def\<close>)
  have ?thesis if "updateCommit_loop now j rf1 = Some (rf, sp)" for j
    using that
  proof (cases rule: updateCommit_loop_cases)
    case (commit j e cnt)
    from so(4) have fi: "firstIndex (rlog (srv s i)) \<le> commitIndex rf1" by (simp add: commit_ok_def rf1)
    have "enode (hd (rlog (srv s i))) \<in> nodes (tree g)"
      using so(1) by (simp add: log_path_def first_ok_def)
    from node_index[OF safeD(8)[OF sf] this] fi commit(6) have pos: "0 < eIndex e" by simp
    have d: "direct (nsrv s) g (enode e)"
      by (rule matchCount_direct[OF sf i lead _ _ _ _ _ commit(2,3) pos commit(4,5)])
        (use b mtch in \<open>simp_all add: rf1\<close>)
    from commit(2) have "anc (tree g) (enode e) (tip (rlog (srv s i)))"
      using log_path_anc[OF so(1)] by (auto simp: go_simps rf1)
    with direct_committed[OF d] commit(3,6) fi
    have "commit_ok (nsrv s) g (signal (rf1\<lparr>commitIndex := eIndex e\<rparr>))"
      by (intro commit_okI[of _ "enode e"]) (simp_all add: rf1)
    then show ?thesis
      by (intro safe_plain_sends[OF sf st ch N commit(7)]) (use lead so mtch in \<open>simp_all add: rf1\<close>)
  qed (use keep in blast)
  moreover from up have "(\<exists>j. updateCommit_loop now j rf1 = Some (rf, sp)) \<or> rf = rf1 \<and> sp = []"
    by (auto simp: updateCommitIndex_def Let_def elim!: bindE split: if_split_asm)
  ultimately show ?thesis using keep by blast
qed

section \<open>Replies\<close>

lemma tame_check: "tame rf (checkAndMaySetTermAndState T rf)"
  by (auto simp: tame_def checkAndMaySetTermAndState_def Let_def)

lemma still_check: "still rf (checkAndMaySetTermAndState T rf)"
  using tame_check[of rf T] by (auto simp: still_def)

text \<open>An array with one entry raised keeps what is said of all entries.\<close>

lemma matched_update:
  assumes "go_set mi (int q) x = Some mi'" and "go_nth mi' (int p) = Some m"
  shows "p = q \<and> m = x \<or> p \<noteq> q \<and> go_nth mi (int p) = Some m"
  using assms by (auto simp: go_simps nth_list_update split: if_split_asm)

lemma matched_max: "matched g p T a \<Longrightarrow> matched g p T b \<Longrightarrow> matched g p T (max a b)"
  by (auto simp: matched_def max_def)

text \<open>What was sent or committed in the term of a leader is within its log.\<close>

lemma leader_bounds:
  assumes sf: "safe s g" and i: "i < nsrv s" and lead: "rstate (srv s i) = Leader"
  shows "app_req_ok (nsrv s) g c a \<Longrightarrow> aeTerm a = currentTerm (srv s i) \<Longrightarrow> fst (ae_end a) \<le> lastIndex (rlog (srv s i))"
    and "committed (nsrv s) g (currentTerm (srv s i)) x \<Longrightarrow> anc (tree g) x (tip (rlog (srv s i)))"
proof -
  from safeD(6)[OF sf i] lead have "leader_ok (nsrv s) g i (srv s i)" by (simp add: role_ok_def)
  note L = leader_okD[OF this]
  show "fst (ae_end a) \<le> lastIndex (rlog (srv s i))"
    if "app_req_ok (nsrv s) g c a" "aeTerm a = currentTerm (srv s i)"
  proof -
    from that obtain w where "w \<in> dom (tree g)" "snd w = currentTerm (srv s i)" "anc (tree g) (ae_end a) w"
      by (auto simp: app_req_ok_def)
    with L(4) anc_index[of "tree g" "ae_end a" w] anc_index[of "tree g" w "tip (rlog (srv s i))"]
    show ?thesis by fastforce
  qed
  assume "committed (nsrv s) g (currentTerm (srv s i)) x"
  from committed_on_term[OF safeD(3)[OF sf] this L(2,3)] obtain w where
    "w \<in> dom (tree g)" "snd w = currentTerm (srv s i)" "anc (tree g) x w" .
  with L(4)[of w] show "anc (tree g) x (tip (rlog (srv s i)))" by (meson rtranclp_trans)
qed

lemma ae_end_index:
  "app_req_ok n g c a \<Longrightarrow> fst (ae_end a) = aePrevLogIndex a + int (length (aeEntries a))"
  using chain_end_index[of "tree g" "ae_prev a" "aeEntries a"]
  by (auto simp: app_req_ok_def ae_end_def ae_prev_def)

lemma AppendEntry_done_cases:
  assumes "AppendEntry_done now q a reply rf = Some (rf', sp)"
  obtains (still) "still rf rf'" "sp = []"
  | (stored) mi ni where "aeTerm a = currentTerm rf" "rstate rf = Leader" "arSuccess reply"
      "go_set (matchIndex rf) (int q) (aePrevLogIndex a + int (length (aeEntries a))) = Some mi"
      "updateCommitIndex now (aePrevLogIndex a + int (length (aeEntries a)))
         (rf\<lparr>matchIndex := mi, nextIndex := ni\<rparr>) = Some (rf', sp)"
proof -
  have n: "still rf (rf\<lparr>nextIndex := ni\<rparr>)" for ni by (simp add: still_def tame_def)
  let ?last = "aePrevLogIndex a + int (length (aeEntries a))"
  from assms have "still rf rf' \<and> sp = [] \<or>
      aeTerm a = currentTerm rf \<and> rstate rf = Leader \<and> arSuccess reply \<and>
      (\<exists>mi ni. go_set (matchIndex rf) (int q) ?last = Some mi \<and>
        updateCommitIndex now ?last (rf\<lparr>matchIndex := mi, nextIndex := ni\<rparr>) = Some (rf', sp))"
    unfolding AppendEntry_done_def Let_def
    by (auto elim!: bindE split: if_split_asm simp: still_check n)
  with still stored show thesis by blast
qed

lemma safe_AppRep:
  assumes sf: "safe s g" and st: "raft_step s t" and p: "AppRep c v a reply \<in># net s"
    and h: "AppendEntry_done now v a reply (srv s c) = Some (rf, sp)"
    and ch: "changes s c rf (net s - {#AppRep c v a reply#} + started c sp) t"
  shows "safe t (seen s t g)"
  using h
proof (cases rule: AppendEntry_done_cases)
  case still
  show ?thesis by (rule safe_still[OF sf st ch still(1)]) (use still(2) in \<open>auto dest: in_diffD\<close>)
next
  case (stored mi ni)
  have c: "c < nsrv s" "v \<noteq> c" "v < nsrv s" using basic_ends[OF safeD(2)[OF sf] p] by auto
  from safeD(7)[OF sf p] stored(3) have a: "app_req_ok (nsrv s) g c a"
    and mt: "matched g v (aeTerm a) (fst (ae_end a))" by simp_all
  from safeD(6)[OF sf c(1)] stored(2) have "leader_ok (nsrv s) g c (srv s c)" by (simp add: role_ok_def)
  note L = leader_okD[OF this]
  show ?thesis
  proof (rule safe_commit[OF sf st ch _ stored(2) refl _ stored(5)])
    fix q m assume q: "q < nsrv s" "q \<noteq> c" "go_nth mi (int q) = Some m"
    from matched_update[OF stored(4) q(3)] show "m \<le> lastIndex (rlog (srv s c)) \<and> matched g q (currentTerm (srv s c)) m"
      using mt leader_bounds(1)[OF sf c(1) stored(2) a stored(1)] ae_end_index[OF a] stored(1) L(5,6)[OF q(1,2)]
      by auto
  qed (auto dest: in_diffD)
qed

lemma InstallSnapshot_done_cases:
  assumes "InstallSnapshot_done now q a reply rf = Some (rf', sp)"
  obtains (still) "still rf rf'" "sp = []"
  | (stored) mi ni m where "isTerm a = currentTerm rf" "rstate rf = Leader" "irSuccess reply"
      "go_nth (matchIndex rf) (int q) = Some m"
      "go_set (matchIndex rf) (int q) (max m (fst (sn_node a))) = Some mi"
      "sendHeatbeat now True (rf\<lparr>nextIndex := ni, matchIndex := mi\<rparr>) = Some (rf', sp)"
  using assms unfolding InstallSnapshot_done_def Let_def
  by (auto elim!: bindE split: if_split_asm intro: still stored simp: still_check sn_node_def)

lemma safe_SnapRep:
  assumes sf: "safe s g" and st: "raft_step s t" and p: "SnapRep c v a reply \<in># net s"
    and h: "InstallSnapshot_done now v a reply (srv s c) = Some (rf, sp)"
    and ch: "changes s c rf (net s - {#SnapRep c v a reply#} + started c sp) t"
  shows "safe t (seen s t g)"
  using h
proof (cases rule: InstallSnapshot_done_cases)
  case still
  show ?thesis by (rule safe_still[OF sf st ch still(1)]) (use still(2) in \<open>auto dest: in_diffD\<close>)
next
  case (stored mi ni m0)
  have c: "c < nsrv s" "v \<noteq> c" "v < nsrv s" using basic_ends[OF safeD(2)[OF sf] p] by auto
  from safeD(7)[OF sf p] stored(3) have cm: "committed (nsrv s) g (isTerm a) (sn_node a)"
    and mt: "matched g v (isTerm a) (fst (sn_node a))" by simp_all
  from safeD(6)[OF sf c(1)] stored(2) have "leader_ok (nsrv s) g c (srv s c)" by (simp add: role_ok_def)
  note L = leader_okD[OF this]
  note so = server_okD[OF safeD(5)[OF sf c(1)]]
  have bound: "fst (sn_node a) \<le> lastIndex (rlog (srv s c))"
    using anc_index[OF leader_bounds(2)[OF sf c(1) stored(2)]] cm stored(1) by simp
  show ?thesis
  proof (rule safe_plain_sends[OF sf st ch _ stored(6)])
    fix q m assume q: "q < nsrv s" "q \<noteq> c"
      "go_nth (matchIndex ((srv s c)\<lparr>nextIndex := ni, matchIndex := mi\<rparr>)) (int q) = Some m"
    then have "go_nth mi (int q) = Some m" by simp
    from matched_update[OF stored(5) this] consider "q = v" "m = max m0 (fst (sn_node a))"
      | "go_nth (matchIndex (srv s c)) (int q) = Some m" by blast
    then show "m \<le> lastIndex (rlog (srv s c)) \<and> matched g q (currentTerm (srv s c)) m"
    proof cases
      case 1
      with matched_max[OF L(6)[OF c(3,2) stored(4)] mt[unfolded stored(1)]] L(5)[OF c(3,2) stored(4)] bound
      show ?thesis by simp
    next
      case 2
      with L(5,6)[OF q(1,2)] show ?thesis by blast
    qed
  next
    show "commit_ok (nsrv s) g ((srv s c)\<lparr>nextIndex := ni, matchIndex := mi\<rparr>)"
      using so(4) by (simp add: commit_ok_def)
  qed (use stored(2) so(1) in \<open>auto dest: in_diffD\<close>)
qed

section \<open>Snapshots of the service\<close>

lemma first_committed:
  assumes "server_ok n g v rf" and "tree_ok (tree g)"
  shows "committed n g (currentTerm rf) (enode (hd (rlog rf)))"
proof -
  note so = server_okD[OF assms(1)]
  from so(4) obtain x where x: "firstIndex (rlog rf) \<le> fst x" "anc (tree g) x (tip (rlog rf))"
    "committed n g (currentTerm rf) x" by (auto simp: commit_ok_def)
  have "anc (tree g) (enode (hd (rlog rf))) (tip (rlog rf))"
    using log_path_anc[OF so(1), of 0] wf_log_nonempty[OF so(6)] by (simp add: hd_conv_nth)
  from anc_linear[OF this x(2)] x(1) have "anc (tree g) (enode (hd (rlog rf))) x" by simp
  with committed_anc[OF x(3)] assms(2) show ?thesis by blast
qed

lemma safe_SnapGo:
  assumes sf: "safe s g" and st: "raft_step s t" and p: "SnapGo c v \<in># net s"
    and h: "requestInstallSnapshot_args (srv s c) = Some a"
    and ch: "changes s c (srv s c) (net s - {#SnapGo c v#} + {#SnapReq c v a#}) t"
  shows "safe t (seen s t g)"
proof (rule safe_still[OF sf st ch still_refl])
  have c: "c < nsrv s" using ch by (simp add: changes_def)
  note gr = grown_plain[OF sf st ch]
  note D = grownD[OF gr]
  have "hd (rlog (srv s c)) = rlog (srv s c) ! 0" using basicD(4)[OF safeD(2)[OF sf] c] by (rule hd_conv_nth)
  with h have a: "isTerm a = currentTerm (srv s c)" "sn_node a = enode (hd (rlog (srv s c)))"
    by (auto simp: requestInstallSnapshot_args_def sn_node_def enode_def go_simps elim!: bindE)
  have "committed (nsrv s) (seen s t g) (isTerm a) (sn_node a)"
    unfolding a by (rule extends_committed[OF D(11) first_committed[OF safeD(5)[OF sf c] safeD(8)[OF sf]]])
  then show "q \<in># net s \<or> packet_ok (nsrv s) (seen s t g) q"
    if "q \<in># net s - {#SnapGo c v#} + {#SnapReq c v a#}" for q
    using that by (auto dest: in_diffD)
qed

lemma safe_Compact:
  assumes sf: "safe s g" and st: "raft_step s t" and i: "i < nsrv s"
    and h: "SnapshotService now idx sn (srv s i) = Some (rf, sp)" and t: "t = put i rf (started i sp) s"
  shows "safe t (seen s t g)"
proof -
  have ch: "changes s i rf (net s + started i sp) t" using t i by (simp add: changes_def put_def)
  note so = server_okD[OF safeD(5)[OF sf i]]
  from h show ?thesis
  proof (cases rule: SnapshotService_cases)
    case skip
    then show ?thesis by (intro safe_still[OF sf st ch]) auto
  next
    case (trim first l)
    let ?l = "rlog (srv s i)" and ?rf = "signal (persist ((srv s i)\<lparr>rsnapshot := sn, rlog := l\<rparr>))"
    have hd: "first = hd ?l" using trim(2) wf_log_nonempty[OF so(6)] by (simp add: go_nth_hd)
    define k where "k = nat (min (idx - eIndex first) (int (length ?l) - 1))"
    have "0 < length ?l" using wf_log_nonempty[OF so(6)] by simp
    with trim(4) have k: "k < length ?l" "l = drop k ?l" "0 \<le> idx - eIndex first"
      by (auto simp: go_simps k_def min_def nat_less_iff split: if_split_asm)
    note path = log_path_drop[OF so(1) k(1)]
    have "firstIndex l = eIndex first + int k"
      using wf_log_nth[OF so(6) k(1)] k hd by (simp add: hd_drop_conv_nth)
    also have "\<dots> \<le> commitIndex (srv s i)" using trim(1) k(1,3) by (simp add: k_def min_def)
    finally have com: "commit_ok (nsrv s) g ?rf" using so(4) path(2) k(2) by (auto simp: commit_ok_def)
    show ?thesis
    proof (cases "rstate (srv s i) = Leader")
      case True
      with trim(5) have send: "sendHeatbeat now True ?rf = Some (rf, sp)" by simp
      from safeD(6)[OF sf i] True have "leader_ok (nsrv s) g i (srv s i)" by (simp add: role_ok_def)
      from leader_okD(5,6)[OF this] show ?thesis
        by (intro safe_plain_sends[OF sf st ch _ send]) (use True com path k in auto)
    next
      case False
      with trim(5) have rf: "rf = ?rf" "sp = []" by auto
      show ?thesis
        by (rule safe_plain[OF sf st ch _ _ _ _ _ _ tame_vote[OF sf i]])
          (use so False com path k in \<open>auto simp: rf tame_def\<close>)
    qed
  qed
qed

section \<open>Elections\<close>

text \<open>Starting an election: the candidate asks with the log it has, and votes for itself.\<close>

lemma safe_elect:
  assumes sf: "safe s g" and st: "raft_step s t" and i: "i < nsrv s"
    and rf: "rlog rf = rlog (srv s i)" "commitIndex rf = commitIndex (srv s i)"
      "currentTerm rf = currentTerm (srv s i) + 1" "votedFor rf = int i" "rstate rf = Candidate"
    and ch: "changes s i rf (net s + started i (elect_requests (currentTerm (srv s i) + 1) (srv s i))) t"
  shows "safe t (seen s t g)"
proof -
  note gr = grown_plain[OF sf st ch]
  note D = grownD[OF gr]
  note so = server_okD[OF safeD(5)[OF sf i]]
  let ?T = "currentTerm (srv s i) + 1" and ?e = "tip (rlog (srv s i))"
  have k: "cands (seen s t g) i ?T = ?e" using D(9) rf(3) by simp
  have kp: "kept g y ?e (currentTerm (srv s i))" if "y \<in> acks g i" for y by (rule so(9)[OF that])
  show ?thesis
  proof (rule safe_change[OF gr])
    show "log_path (tree g) (rlog rf)" using so(1) rf(1) by simp
    show "snd (tip (rlog rf)) \<le> currentTerm rf" using so(2) rf by simp
    show "commit_ok (nsrv s) (seen s t g) rf"
      by (rule extends_commit_ok[OF D(11) commit_ok_later[OF so(4)]]) (use rf in simp_all)
    show "kept (seen s t g) y (tip (rlog rf)) (currentTerm rf)" if "y \<in> acks g i" for y
      using kept_term[OF kp[OF that], of ?T] rf(1,3) by simp
    show "cand_ok (nsrv s) (seen s t g) i rf \<and>
        (rstate (srv s i) = Candidate \<or> currentTerm (srv s i) < currentTerm rf)"
      using so(2,3,5) rf k by (simp add: cand_ok_def Let_def del: observe_simps(4))
    show "new_vote_ok s g (seen s t g) i rf t"
      unfolding new_vote_ok_def Let_def using rf(3,4) k kp D(9) by (auto simp del: observe_simps(4))
    show "p \<in># net s \<or> packet_ok (nsrv s) (seen s t g) p"
      if "p \<in># net s + started i (elect_requests ?T (srv s i))" for p
      using that k so(2,5)
      by (auto simp: elect_requests_def elect_args_def tip_def enode_def simp del: observe_simps(4))
  qed (use rf(5) in simp)
qed

text \<open>An up-to-date log has all that the voter has stored, unless a leader in between lost it.\<close>

lemma up_to_date:
  assumes h: "hist_ok n g" and k: "k \<in> nodes (tree g)" "snd k < T" and e: "e \<in> nodes (tree g)"
    and y: "y \<in> dom (tree g)" "anc (tree g) y e"
    and up: "snd e < snd k \<or> snd e = snd k \<and> fst e \<le> fst k"
  shows "kept g y k (T - 1)"
proof -
  have pos: "1 \<le> fst y" using tree_dom[OF hist_okD(1)[OF h] y(1)] .
  have ed: "e \<in> dom (tree g)" using node_dom[OF e] anc_index[OF y(2)] pos by linarith
  have te: "snd y \<le> snd e" by (rule anc_term[OF y(2) hist_okD(1)[OF h]])
  show ?thesis
  proof (cases "snd e = snd k \<and> fst e \<le> fst k")
    case True
    then have "k \<in> dom (tree g)" using node_dom[OF k(1)] anc_index[OF y(2)] pos by linarith
    with hist_okD(3)[OF h ed this] True have "anc (tree g) e k" by blast
    with y(2) have "anc (tree g) y k" by (meson rtranclp_trans)
    then show ?thesis by (simp add: kept_def)
  next
    case False
    with up have lt: "snd e < snd k" by blast
    have "k \<noteq> root"
    proof
      assume "k = root"
      with lt te have "snd y < 0" by simp
      from hist_okD(2)[OF h y(1)] obtain c Q b where "wins g (snd y) = Some (c, Q, b)" by blast
      from hist_okD(4)[OF h this] have "b \<in> nodes (tree g)" "snd b < snd y" by (simp_all add: win_ok_def)
      with anc_term[OF anc_root[OF hist_okD(1)[OF h]] hist_okD(1)[OF h]] have "0 < snd y" by fastforce
      with \<open>snd y < 0\<close> show False by simp
    qed
    with k(1) have kd: "k \<in> dom (tree g)" by (simp add: nodes_def)
    from hist_okD(2)[OF h kd] obtain c Q b where w: "wins g (snd k) = Some (c, Q, b)"
      and b: "anc (tree g) b k" by blast
    show ?thesis
    proof (cases "anc (tree g) y b")
      case True
      with b have "anc (tree g) y k" by (meson rtranclp_trans)
      then show ?thesis by (simp add: kept_def)
    next
      case False
      with w have "lacks g (snd k) y" by (auto simp: lacks_def)
      with lt te k(2) show ?thesis unfolding kept_def by (intro disjI2 exI[of _ "snd k"]) simp
    qed
  qed
qed

lemma RequestVote_result:
  assumes "RequestVote now args rf = Some (rf', reply)" and "rlog rf \<noteq> []"
  shows "rlog rf' = rlog rf \<and> commitIndex rf' = commitIndex rf \<and> matchIndex rf' = matchIndex rf \<and>
    currentTerm rf \<le> currentTerm rf' \<and>
    (rstate rf' \<noteq> Follower \<longrightarrow> rstate rf' = rstate rf \<and> currentTerm rf' = currentTerm rf) \<and>
    (tame rf rf' \<or> currentTerm rf' = rvTerm args \<and> votedFor rf' = rvCandidateId args \<and>
       \<not> (rvLastLogTerm args < eTerm (last (rlog rf)) \<or>
          rvLastLogTerm args = eTerm (last (rlog rf)) \<and> rvLastLogIndex args < lastIndex (rlog rf)))"
proof -
  define rf1 where "rf1 = (if rvTerm args > currentTerm rf
                           then checkAndMaySetTermAndState (rvTerm args) rf else rf)"
  have f: "rlog rf1 = rlog rf" "commitIndex rf1 = commitIndex rf" "matchIndex rf1 = matchIndex rf"
    "tame rf rf1" "tame rf (rf1\<lparr>lastRecivedTime := now\<rparr>)"
    "currentTerm rf \<le> rvTerm args \<Longrightarrow> currentTerm rf1 = rvTerm args" "currentTerm rf \<le> currentTerm rf1"
    "rstate rf1 \<noteq> Follower \<longrightarrow> rstate rf1 = rstate rf \<and> currentTerm rf1 = currentTerm rf"
    using tame_check[of rf "rvTerm args"] by (auto simp: rf1_def tame_def)
  note cases = assms(1)[unfolded RequestVote_def, folded rf1_def, unfolded Let_def]
  have go: "getLastLogIndexAndTerm rf1 = Some (lastIndex (rlog rf), eTerm (last (rlog rf)))"
    using assms(2) f(1) by (simp add: getLastLogIndexAndTerm_def go_last_eq)
  have "tame rf rf" by (simp add: tame_def)
  then show ?thesis using cases f by (auto simp: go split: if_split_asm)
qed

lemma safe_vote:
  assumes sf: "safe s g" and st: "raft_step s t" and p: "VoteReq c v a \<in># net s"
    and h: "RequestVote now a (srv s v) = Some (rf, reply)"
    and ch: "changes s v rf (add_mset (VoteRep c v a reply) (net s - {#VoteReq c v a#})) t"
  shows "safe t (seen s t g)"
proof -
  note gr = grown_plain[OF sf st ch]
  note D = grownD[OF gr]
  note so = server_okD[OF safeD(5)[OF sf D(7)]]
  note r = RequestVote_result[OF h wf_log_nonempty[OF so(6)]]
  from safeD(7)[OF sf p] have k: "cands g c (rvTerm a) = (rvLastLogIndex a, rvLastLogTerm a)"
    "cands g c (rvTerm a) \<in> nodes (tree g)" "snd (cands g c (rvTerm a)) < rvTerm a" by auto
  have ct: "rvCandidateId a = int c" "rvTerm a \<le> currentTerm (srv s c)"
    using safeD(1)[OF sf] p unfolding election_inv_def by fastforce+
  have "new_vote_ok s g (seen s t g) v rf t"
  proof (cases "tame (srv s v) rf")
    case True
    then show ?thesis by (rule tame_vote[OF sf D(7)])
  next
    case False
    with r have T: "currentTerm rf = rvTerm a" and vf: "votedFor rf = int c"
      and up: "eTerm (last (rlog (srv s v))) < rvLastLogTerm a \<or>
        eTerm (last (rlog (srv s v))) = rvLastLogTerm a \<and> lastIndex (rlog (srv s v)) \<le> rvLastLogIndex a"
      using ct(1) by auto
    have "wins g (rvTerm a) \<noteq> None \<or> kept g y (cands g c (rvTerm a)) (rvTerm a - 1)"
      if y: "y \<in> acks g v" "snd y < rvTerm a" for y
    proof (cases "anc (tree g) y (tip (rlog (srv s v)))")
      case True
      then show ?thesis using up_to_date[OF safeD(3)[OF sf] k(2,3) so(5) so(7)[OF y(1)]] up k(1) by simp
    next
      case False
      have "currentTerm (srv s v) \<le> rvTerm a" using r T by simp
      from False kept_term[OF so(9)[OF y(1)] this] obtain T' where
        T': "snd y < T'" "T' \<le> rvTerm a" "lacks g T' y" unfolding kept_def by blast
      show ?thesis
      proof (cases "T' = rvTerm a")
        case True
        with T'(3) show ?thesis by (auto simp: lacks_def)
      next
        case False
        with T' have "T' \<le> rvTerm a - 1" by simp
        with T' show ?thesis unfolding kept_def by blast
      qed
    qed
    moreover have "cands (seen s t g) c (rvTerm a) = cands g c (rvTerm a)" using ct(2) by simp
    moreover have "rvTerm a \<le> currentTerm (srv t c)" using ct(2) D(12)[of c] by simp
    ultimately show ?thesis unfolding new_vote_ok_def Let_def T using vf by (auto simp del: observe_simps(4))
  qed
  moreover have "q \<in># net s \<or> packet_ok (nsrv s) (seen s t g) q"
    if "q \<in># add_mset (VoteRep c v a reply) (net s - {#VoteReq c v a#})" for q
    using that by (auto dest: in_diffD)
  ultimately show ?thesis using r by (intro safe_log_kept[OF sf st ch]) blast+
qed

section \<open>Restart and loss\<close>

lemma safe_Lose:
  assumes sf: "safe s g" and st: "raft_step s t" and ch: "changes s i (srv s i) M t" and "M \<subseteq># net s"
  shows "safe t (seen s t g)"
  by (rule safe_still[OF sf st ch still_refl disjI1]) (rule mset_subset_eqD[OF assms(4)])

text \<open>A restarted server has its term, vote and log; it takes the snapshot as committed.\<close>

lemma safe_restart:
  assumes sf: "safe s g" and st: "raft_step s t"
    and mk: "Make (nsrv s) (int i) (Checkpoint (persister (srv s i))) now rnd = Some rf"
    and ch: "changes s i rf (filter_mset (survives i) (net s)) t"
  shows "safe t (seen s t g)"
proof -
  have i: "i < nsrv s" using ch by (simp add: changes_def)
  note b = basicD[OF safeD(2)[OF sf] i] and ok = safeD(5)[OF sf i]
  note so = server_okD[OF ok]
  note r = restart_evolves[OF b(3) mk b(1,2)]
  have log: "rlog rf = rlog (srv s i)" "currentTerm rf = currentTerm (srv s i)" "votedFor rf = votedFor (srv s i)"
    using r(4) by simp_all
  have ci: "commitIndex rf = firstIndex (rlog rf)"
    using Make_Some[of "nsrv s" "int i" "Checkpoint (persister (srv s i))" now rnd] mk by (metis option.inject)
  have anc: "anc (tree g) (enode (hd (rlog rf))) (tip (rlog rf))"
    using log_path_anc[OF so(1), of 0] wf_log_nonempty[OF so(6)] by (simp add: log hd_conv_nth)
  have com: "commit_ok (nsrv s) g rf"
    by (rule commit_okI[OF _ _ anc]) (use first_committed[OF ok safeD(8)[OF sf]] in \<open>simp_all add: ci log\<close>)
  show ?thesis
    by (rule safe_plain[OF sf st ch _ _ com _ _ _ tame_vote[OF sf i]])
      (use so(1,2,9) r(3) in \<open>simp_all add: log tame_def\<close>)
qed

end
