(* ===== verification/RaftSafety.thy ===== *)
theory RaftSafety
  imports RaftSteps
begin

text \<open>
  The events that change a log: AppendEntry, InstallSnapshot, and a leader that creates entries.
  With them the invariant \<open>safe\<close> holds in every reachable state.
\<close>

section \<open>AppendEntry\<close>

text \<open>The merged log is a path again; it has the whole request, and it changed only when it did not
  have it before.\<close>

lemma merge_path:
  assumes path: "log_path H l" and pre: "pre < length l" and es: "chain H (enode (l ! pre)) es"
    and k: "k \<le> length es" "\<forall>j < k. Suc pre + j < length l \<and> same_entry (l ! (Suc pre + j)) (es ! j)"
      "l' = (if k = length es then l else take (Suc pre + k) l @ drop k es)"
      "k < length es \<longrightarrow> length l \<le> Suc pre + k \<or> \<not> same_entry (l ! (Suc pre + k)) (es ! k)"
  shows "log_path H l' \<and> anc H (endn (enode (l ! pre)) es) (tip l') \<and>
    (l' = l \<or> tip l' = endn (enode (l ! pre)) es \<and> \<not> anc H (endn (enode (l ! pre)) es) (tip l))"
proof -
  let ?x = "enode (l ! pre)"
  have at: "pre + k < length l \<and> endn ?x (take k es) = enode (l ! (pre + k))"
  proof (cases k)
    case 0
    with pre show ?thesis by simp
  next
    case (Suc j)
    with k(2) have "Suc pre + j < length l" "same_entry (l ! (Suc pre + j)) (es ! j)" by auto
    with Suc k(1) endn_take[of j es ?x] show ?thesis by (simp add: enode_def)
  qed
  show ?thesis
  proof (cases "k = length es")
    case True
    with at log_path_anc[OF path, of "pre + k"] k(3) path show ?thesis by simp
  next
    case False
    with k(1) have lt: "k < length es" by simp
    let ?t = "take (Suc pre + k) l"
    have t: "log_path H ?t" "tip ?t = endn ?x (take k es)" using log_path_take[OF path, of "Suc pre + k"] at by auto
    have c: "chain H (tip ?t) (drop k es)" using chain_take_drop[of H ?x es k] es t(2) by simp
    have l': "l' = ?t @ drop k es" using lt k(3) by simp
    have "tip l' = endn ?x es"
      unfolding l' log_path_snoc(2)[OF t(1) c] t(2) by (metis append_take_drop_id endn_append)
    moreover have "log_path H l'" unfolding l' by (rule log_path_snoc(1)[OF t(1) c])
    moreover have False if a: "anc H (endn ?x es) (tip l)"
    proof -
      have y: "anc H (enode (es ! k)) (tip l)" using chain_nth(1)[OF es lt] a by (meson rtranclp_trans)
      have "eIndex (es ! k) = eIndex (l ! pre) + 1 + int k"
        using consec_nth[OF chain_consec[OF es] lt] by simp
      then have idx: "eIndex (es ! k) - firstIndex l = int (Suc pre + k)"
        using wf_log_nth[OF log_path_wf[OF path] pre] by simp
      then have "nat (eIndex (es ! k) - firstIndex l) = Suc pre + k" by (metis nat_int)
      with log_path_at[OF path y] idx have "Suc pre + k < length l" "enode (l ! (Suc pre + k)) = enode (es ! k)"
        by simp_all
      with k(4) lt show False by (simp add: enode_def)
    qed
    ultimately show ?thesis by auto
  qed
qed

text \<open>Two nodes below nodes of one term.\<close>

lemma on_term_comparable:
  assumes h: "hist_ok n g" and "anc (tree g) y w" "w \<in> dom (tree g)" and "anc (tree g) z w'" "w' \<in> dom (tree g)"
    and "snd w = snd w'"
  shows "anc (tree g) y z \<or> anc (tree g) z y"
proof -
  have "anc (tree g) w w' \<or> anc (tree g) w' w" by (rule term_comparable[OF h assms(3,5,6)])
  then show ?thesis
  proof
    assume "anc (tree g) w w'"
    with assms(2) have "anc (tree g) y w'" by (rule rtranclp_trans)
    with assms(4) show ?thesis using anc_comparable by blast
  next
    assume "anc (tree g) w' w"
    with assms(4) have "anc (tree g) z w" by (rule rtranclp_trans)
    with assms(2) show ?thesis using anc_comparable by blast
  qed
qed

lemma stored_on_term:
  assumes h: "hist_ok n g" and w: "w \<in> dom (tree g)" and y: "y \<in> dom (tree g)" "snd y \<le> snd w"
    and "\<not> lacks g (snd w) y"
  shows "\<exists>w' \<in> dom (tree g). snd w' = snd w \<and> anc (tree g) y w'"
proof (cases "snd y = snd w")
  case True
  with y(1) show ?thesis by blast
next
  case False
  from hist_okD(2)[OF h w] obtain c Q b where "wins g (snd w) = Some (c, Q, b)" "anc (tree g) b w" by blast
  with assms(5) have "anc (tree g) y w" unfolding lacks_def by (meson rtranclp_trans)
  with w show ?thesis by blast
qed

text \<open>The entries a server stores continue its log where they match, also behind its snapshot, which
  is committed and so lies on the path of the leader.\<close>

lemma request_continues:
  assumes sf: "safe s g" and v: "v < nsrv s" and a: "app_req_ok (nsrv s) g c a"
    and T: "currentTerm (srv s v) \<le> aeTerm a"
    and pre: "pre < length l" "l = rlog (srv s v)"
    and es: "es = drop (nat (firstIndex l + int pre - aePrevLogIndex a)) (aeEntries a)"
    and alt: "aePrevLogIndex a < firstIndex l \<and> pre = 0 \<or>
       aePrevLogIndex a = firstIndex l + int pre \<and> eTerm (l ! pre) = aePrevLogTerm a"
  shows "chain (tree g) (enode (l ! pre)) es" and "anc (tree g) (ae_end a) (endn (enode (l ! pre)) es)"
    and "es \<noteq> [] \<Longrightarrow> endn (enode (l ! pre)) es = ae_end a"
proof -
  note ok = safeD(5)[OF sf v] and h = safeD(3)[OF sf]
  note so = server_okD[OF ok, folded pre(2)]
  from a have c: "chain (tree g) (ae_prev a) (aeEntries a)" by (simp add: app_req_ok_def)
  let ?x = "enode (l ! pre)"
  have "chain (tree g) ?x es \<and> anc (tree g) (ae_end a) (endn ?x es) \<and> (es \<noteq> [] \<longrightarrow> endn ?x es = ae_end a)"
    using alt
  proof
    assume eq: "aePrevLogIndex a = firstIndex l + int pre \<and> eTerm (l ! pre) = aePrevLogTerm a"
    then have "?x = ae_prev a" using wf_log_nth[OF so(6) pre(1)] by (simp add: enode_def ae_prev_def)
    with eq c es show ?thesis by (simp add: ae_end_def)
  next
    assume lt: "aePrevLogIndex a < firstIndex l \<and> pre = 0"
    let ?k = "nat (firstIndex l - aePrevLogIndex a)"
    from lt es have es': "es = drop ?k (aeEntries a)" and hd: "l ! pre = hd l"
      using wf_log_nonempty[OF so(6)] by (simp_all add: hd_conv_nth)
    have fx: "fst ?x = firstIndex l" by (simp add: hd)
    from a obtain w where w: "w \<in> dom (tree g)" "snd w = aeTerm a" "anc (tree g) (ae_end a) w"
      by (auto simp: app_req_ok_def)
    have "committed (nsrv s) g (aeTerm a) ?x"
      using committed_mono[OF first_committed[OF ok safeD(8)[OF sf]] T] unfolding hd unfolding pre(2) .
    from committed_on_term[OF h this w(1,2)] obtain w' where
      w': "w' \<in> dom (tree g)" "snd w' = aeTerm a" "anc (tree g) ?x w'" .
    have cmp: "anc (tree g) ?x (ae_end a) \<or> anc (tree g) (ae_end a) ?x"
      by (rule on_term_comparable[OF h w'(3,1) w(3,1)]) (simp add: w w')
    note ei = ae_end_index[OF a]
    show ?thesis
    proof (cases "es = []")
      case True
      then have "fst (ae_end a) \<le> fst ?x" using es' lt ei fx by (auto simp: le_nat_iff)
      with cmp anc_same[of "tree g" ?x "ae_end a"] have "anc (tree g) (ae_end a) ?x" by auto
      with True show ?thesis by simp
    next
      case False
      then have "fst ?x < fst (ae_end a)" using es' lt ei fx by simp
      with cmp anc_index[of "tree g" "ae_end a" ?x] have "anc (tree g) ?x (ae_end a)" by auto
      with chain_at[OF c, of ?x] lt have x: "?x = endn (ae_prev a) (take ?k (aeEntries a))"
        using fx by (simp add: ae_end_def ae_prev_def)
      with c chain_take_drop[of "tree g" "ae_prev a" "aeEntries a" ?k] have "chain (tree g) ?x es" by (simp add: es')
      moreover have "endn ?x es = ae_end a" unfolding x es' ae_end_def by (metis append_take_drop_id endn_append)
      ultimately show ?thesis by simp
    qed
  qed
  then show "chain (tree g) ?x es" "anc (tree g) (ae_end a) (endn ?x es)" "es \<noteq> [] \<Longrightarrow> endn ?x es = ae_end a"
    by blast+
qed

lemma tame_enter: "currentTerm rf \<le> aeTerm a \<Longrightarrow> tame rf (AppendEntry_enter now a rf)"
  using tame_check[of "rf\<lparr>lastRecivedTime := now\<rparr>" "aeTerm a"]
  by (auto simp: tame_def AppendEntry_enter_def Let_def)

lemma AppendEntry_accept_result:
  assumes "AppendEntry_accept a es (int pre) rf = Some (rf', reply)" and "pre < length (rlog rf)"
  obtains k where "k \<le> length es"
    "\<forall>j < k. Suc pre + j < length (rlog rf) \<and> same_entry (rlog rf ! (Suc pre + j)) (es ! j)"
    "rlog rf' = (if k = length es then rlog rf else take (Suc pre + k) (rlog rf) @ drop k es)"
    "k < length es \<longrightarrow> length (rlog rf) \<le> Suc pre + k \<or> \<not> same_entry (rlog rf ! (Suc pre + k)) (es ! k)"
    "commitIndex rf' = (if aeLeaderCommit a > commitIndex rf
       then min (aeLeaderCommit a) (lastIndex (rlog rf')) else commitIndex rf)"
    "currentTerm rf' = currentTerm rf" "votedFor rf' = votedFor rf" "rstate rf' = rstate rf"
proof -
  from assms(1) obtain rf1 where st: "store_entries es (int pre) rf = Some rf1" and
    eq: "(if aeLeaderCommit a > commitIndex rf1
       then do { lastLog \<leftarrow> go_last (rlog (rf1\<lparr>leader := aeLeaderId a\<rparr>));
                 Some (signal (rf1\<lparr>leader := aeLeaderId a, commitIndex := min (aeLeaderCommit a) (eIndex lastLog)\<rparr>)) }
       else Some (rf1\<lparr>leader := aeLeaderId a\<rparr>)) = Some rf'"
    unfolding AppendEntry_accept_def Let_def by (auto elim!: bindE)
  from st assms(2) obtain k where k: "k \<le> length es"
    "\<forall>j < k. Suc pre + j < length (rlog rf) \<and> same_entry (rlog rf ! (Suc pre + j)) (es ! j)"
    "rlog rf1 = (if k = length es then rlog rf else take (Suc pre + k) (rlog rf) @ drop k es)"
    "k < length es \<longrightarrow> length (rlog rf) \<le> Suc pre + k \<or> \<not> same_entry (rlog rf ! (Suc pre + k)) (es ! k)"
    and "rf1 = rf \<or> rf1 = persist (rf\<lparr>rlog := rlog rf1\<rparr>)" by (rule store_entries_spec)
  then have same: "commitIndex rf1 = commitIndex rf" "currentTerm rf1 = currentTerm rf"
    "votedFor rf1 = votedFor rf" "rstate rf1 = rstate rf" by (auto dest: arg_cong[where f = commitIndex]
      arg_cong[where f = currentTerm] arg_cong[where f = votedFor] arg_cong[where f = rstate])
  from eq have "rlog rf' = rlog rf1" "currentTerm rf' = currentTerm rf1" "votedFor rf' = votedFor rf1"
    "rstate rf' = rstate rf1" "commitIndex rf' = (if aeLeaderCommit a > commitIndex rf1
       then min (aeLeaderCommit a) (lastIndex (rlog rf1)) else commitIndex rf1)"
    by (auto elim!: bindE split: if_split_asm simp: go_last_Some_iff)
  with k same show thesis by (intro that[of k]) simp_all
qed

text \<open>A follower that accepts.\<close>

lemma safe_accept:
  assumes sf: "safe s g" and st: "raft_step s t" and a: "app_req_ok (nsrv s) g c a"
    and ch: "changes s v rf (add_mset (AppRep c v a reply) M) t" and M: "\<And>p. p \<in># M \<Longrightarrow> p \<in># net s"
    and T: "currentTerm (srv s v) \<le> aeTerm a" "currentTerm rf = aeTerm a" "rstate rf = Follower" "tame (srv s v) rf"
    and path: "log_path (tree g) (rlog rf)" and has: "anc (tree g) (ae_end a) (tip (rlog rf))"
    and change: "rlog rf = rlog (srv s v) \<or>
      tip (rlog rf) = ae_end a \<and> \<not> anc (tree g) (ae_end a) (tip (rlog (srv s v)))"
    and first: "firstIndex (rlog rf) = firstIndex (rlog (srv s v))"
    and ci: "commitIndex rf = (if aeLeaderCommit a > commitIndex (srv s v)
       then min (aeLeaderCommit a) (lastIndex (rlog rf)) else commitIndex (srv s v))"
  shows "safe t (seen s t g)"
proof -
  note gr = grown_plain[OF sf st ch]
  note D = grownD[OF gr]
  note so = server_okD[OF safeD(5)[OF sf D(7)]] and h = safeD(3)[OF sf]
  from a obtain w x where w: "w \<in> dom (tree g)" "snd w = aeTerm a" "anc (tree g) (ae_end a) w"
    and x: "fst x = aeLeaderCommit a" "anc (tree g) x (ae_end a)" "committed (nsrv s) g (aeTerm a) x"
    unfolding app_req_ok_def by blast
  have cmp: "anc (tree g) y (ae_end a) \<or> anc (tree g) (ae_end a) y"
    if "w' \<in> dom (tree g)" "snd w' = aeTerm a" "anc (tree g) y w'" for y w'
    by (rule on_term_comparable[OF h that(3,1) w(3,1)]) (simp add: that w)
  have stays: "anc (tree g) y (tip (rlog rf))"
    if "w' \<in> dom (tree g)" "snd w' = aeTerm a" "anc (tree g) y w'" "anc (tree g) y (tip (rlog (srv s v)))" for y w'
    using change
  proof
    assume n: "tip (rlog rf) = ae_end a \<and> \<not> anc (tree g) (ae_end a) (tip (rlog (srv s v)))"
    with that(4) have "\<not> anc (tree g) (ae_end a) y" by (meson rtranclp_trans)
    with cmp[OF that(1-3)] n show ?thesis by simp
  qed (use that in simp)
  show ?thesis
  proof (rule safe_plain[OF sf st ch path _ _ _ _ _ tame_vote[OF sf D(7) T(4)]])
    show "snd (tip (rlog rf)) \<le> currentTerm rf"
      using change so(2) T anc_term[OF w(3) safeD(8)[OF sf]] w(2) by (auto simp del: tip_simps)
    show "kept g y (tip (rlog rf)) (currentTerm rf)" if y: "y \<in> acks g v" for y
    proof (cases "lacks g (aeTerm a) y \<and> snd y < aeTerm a")
      case True
      then show ?thesis unfolding kept_def T(2) by blast
    next
      case False
      have yT: "snd y \<le> aeTerm a" using so(8)[OF y] T(1) by simp
      from False yT have "snd y = aeTerm a \<or> \<not> lacks g (aeTerm a) y" by auto
      then obtain w' where w': "w' \<in> dom (tree g)" "snd w' = aeTerm a" "anc (tree g) y w'"
        using stored_on_term[OF h w(1) so(7)[OF y]] w(2) yT so(7)[OF y] by (metis rtranclp.rtrancl_refl)
      from kept_term[OF so(9)[OF y] T(1)] stays[OF w'] show ?thesis unfolding kept_def T(2) by blast
    qed
    show "commit_ok (nsrv s) g rf"
    proof (cases "aeLeaderCommit a > commitIndex (srv s v)")
      case True
      have xt: "anc (tree g) x (tip (rlog rf))" using x(2) has by (rule rtranclp_trans)
      then have "commitIndex rf = fst x" using ci True x(1) anc_index[OF xt] by simp
      with xt x(3) True so(4) first x(1) show ?thesis
        by (intro commit_okI[of rf x]) (simp_all add: T(2) commit_ok_def)
    next
      case False
      from so(4) obtain x' where x': "fst x' = commitIndex (srv s v)" "anc (tree g) x' (tip (rlog (srv s v)))"
        "committed (nsrv s) g (currentTerm (srv s v)) x'" and fi: "firstIndex (rlog (srv s v)) \<le> commitIndex (srv s v)"
        by (auto simp: commit_ok_def)
      note c' = committed_mono[OF x'(3) T(1)]
      from committed_on_term[OF h c' w(1,2)] obtain w' where
        "w' \<in> dom (tree g)" "snd w' = aeTerm a" "anc (tree g) x' w'" .
      from stays[OF this x'(2)] c' x'(1) fi False ci first show ?thesis
        by (intro commit_okI[of rf x']) (simp_all add: T(2))
    qed
    have "matched (seen s t g) v (aeTerm a) (fst (ae_end a))"
      unfolding matched_def
    proof (intro ballI impI)
      fix y assume y: "y \<in> dom (tree (seen s t g))" "snd y = aeTerm a" "fst y \<le> fst (ae_end a)"
      then have "anc (tree g) y (ae_end a) \<or> anc (tree g) (ae_end a) y" by (intro cmp[of y]) simp_all
      with anc_same[of "tree g" "ae_end a" y] y(3) have "anc (tree g) y (ae_end a)" by auto
      then have "anc (tree g) y (tip (rlog rf))" using has by (rule rtranclp_trans)
      with y D(7-9) T(2) show "y \<in> acks (seen s t g) v" by (simp add: observe_acks)
    qed
    with extends_app_req_ok[OF D(11) a] show "p \<in># net s \<or> packet_ok (nsrv s) (seen s t g) p"
      if "p \<in># add_mset (AppRep c v a reply) M" for p using that M by auto
  qed (use T(3) in simp_all)
qed

text \<open>What a follower does with an AppendEntry call of the network.\<close>

lemma AppReq_cases:
  assumes sf: "safe s g" and v: "v < nsrv s" and a: "app_req_ok (nsrv s) g c a"
    and h: "AppendEntry now a (srv s v) = Some (rf, reply)"
  obtains (refuse) "still (srv s v) rf" "\<not> arSuccess reply"
  | (accept) "currentTerm (srv s v) \<le> aeTerm a" "currentTerm rf = aeTerm a" "rstate rf = Follower"
      "tame (srv s v) rf" "log_path (tree g) (rlog rf)" "anc (tree g) (ae_end a) (tip (rlog rf))"
      "rlog rf = rlog (srv s v) \<or>
        tip (rlog rf) = ae_end a \<and> \<not> anc (tree g) (ae_end a) (tip (rlog (srv s v)))"
      "firstIndex (rlog rf) = firstIndex (rlog (srv s v))"
      "commitIndex rf = (if aeLeaderCommit a > commitIndex (srv s v)
        then min (aeLeaderCommit a) (lastIndex (rlog rf)) else commitIndex (srv s v))"
proof -
  note so = server_okD[OF safeD(5)[OF sf v]]
  show thesis
  proof (cases "currentTerm (srv s v) \<le> aeTerm a")
    case False
    with h have "rf = srv s v" "\<not> arSuccess reply" by (auto simp: AppendEntry_def)
    then show ?thesis using refuse by simp
  next
    case True
    note en = tame_enter[OF True, of now]
    have still: "still (srv s v) (AppendEntry_enter now a (srv s v))" using en by (simp add: still_def)
    have "app_ok a" using a chain_consec[of "tree g" "ae_prev a" "aeEntries a"]
      by (simp add: app_ok_def app_req_ok_def ae_prev_def)
    from so(6) this True show ?thesis
    proof (cases rule: AppendEntry_body[where now = now])
      case short
      with h refuse still show ?thesis by auto
    next
      case conflict
      with h refuse still show ?thesis by auto
    next
      case (accept pre es)
      let ?l = "rlog (srv s v)"
      from h accept(1) have acc: "AppendEntry_accept a es (int pre) (AppendEntry_enter now a (srv s v)) = Some (rf, reply)"
        by simp
      note req = request_continues[OF sf v a True accept(2) refl accept(4,5)]
      have pl: "pre < length (rlog (AppendEntry_enter now a (srv s v)))" using accept(2) by simp
      obtain k where
        k: "k \<le> length es" "\<forall>j < k. Suc pre + j < length ?l \<and> same_entry (?l ! (Suc pre + j)) (es ! j)"
          "rlog rf = (if k = length es then ?l else take (Suc pre + k) ?l @ drop k es)"
          "k < length es \<longrightarrow> length ?l \<le> Suc pre + k \<or> \<not> same_entry (?l ! (Suc pre + k)) (es ! k)"
        and ci: "commitIndex rf = (if aeLeaderCommit a > commitIndex (srv s v)
           then min (aeLeaderCommit a) (lastIndex (rlog rf)) else commitIndex (srv s v))"
        and "currentTerm rf = max (currentTerm (srv s v)) (aeTerm a)"
        and rf: "votedFor rf = votedFor (AppendEntry_enter now a (srv s v))" "rstate rf = Follower"
        by (rule AppendEntry_accept_result[OF acc pl, unfolded AppendEntry_enter_frame])
      then have T: "currentTerm rf = aeTerm a" using True by simp
      note m = merge_path[OF so(1) accept(2) req(1) k]
      have "anc (tree g) (ae_end a) (tip (rlog rf))" using req(2) m by (meson rtranclp_trans)
      moreover have "log_path (tree g) (rlog rf)" using m by blast
      moreover have "rlog rf = ?l \<or> tip (rlog rf) = ae_end a \<and> \<not> anc (tree g) (ae_end a) (tip ?l)"
        using m req(3) k(1,3) by (cases "es = []") auto
      moreover have "firstIndex (rlog rf) = firstIndex ?l"
        using k(3) wf_log_nonempty[OF so(6)] by (simp add: hd_append)
      moreover have "tame (srv s v) rf" using en rf T True by (auto simp: tame_def)
      ultimately show ?thesis using T rf(2) True ci by (intro that(2)) assumption+
    qed
  qed
qed

lemma safe_AppReq:
  assumes sf: "safe s g" and st: "raft_step s t" and p: "AppReq c v a \<in># net s"
    and h: "AppendEntry now a (srv s v) = Some (rf, reply)"
    and ch: "changes s v rf (add_mset (AppRep c v a reply) (net s - {#AppReq c v a#})) t"
  shows "safe t (seen s t g)"
proof -
  have v: "v < nsrv s" using ch by (simp add: changes_def)
  note D = grownD[OF grown_plain[OF sf st ch]]
  from safeD(7)[OF sf p] have a: "app_req_ok (nsrv s) g c a" by simp
  from sf v a h show ?thesis
  proof (cases rule: AppReq_cases)
    case refuse
    show ?thesis
      by (rule safe_still[OF sf st ch refuse(1)])
        (use extends_app_req_ok[OF D(11) a] refuse(2) in \<open>auto dest: in_diffD\<close>)
  next
    case accept
    from accept show ?thesis by (intro safe_accept[OF sf st a ch in_diffD]) assumption+
  qed
qed

text \<open>The commit index never goes back: the leader's commit index is in the stored request.\<close>

lemma AppReq_commit:
  assumes "safe s g" and "v < nsrv s" and a: "app_req_ok (nsrv s) g c a"
    and "AppendEntry now a (srv s v) = Some (rf, reply)"
  shows "commitIndex (srv s v) \<le> commitIndex rf"
  using assms
proof (cases rule: AppReq_cases)
  case accept
  from a obtain x where x: "fst x = aeLeaderCommit a" "anc (tree g) x (ae_end a)" by (auto simp: app_req_ok_def)
  from anc_index[OF rtranclp_trans[OF x(2) accept(6)]] x(1) accept(9) show ?thesis by simp
qed (simp add: still_def)

section \<open>InstallSnapshot\<close>

lemma InstallSnapshot_cases:
  fixes rf :: "('c, 'b) Raft"
  defines "l \<equiv> rlog rf"
  assumes "InstallSnapshot now a rf = Some (rf', reply)" and "wf_log l"
  obtains (refused) "still rf rf'" "\<not> irSuccess reply"
  | (reset) e where "currentTerm rf \<le> isTerm a" "currentTerm rf' = isTerm a" "tame rf rf'" "matchIndex rf' = matchIndex rf"
      "rlog rf' = [e]" "enode e = sn_node a" "eCommand e = None" "firstIndex l < fst (sn_node a)"
      "lastIndex l \<le> fst (sn_node a) \<or> eTerm (l ! nat (fst (sn_node a) - firstIndex l)) \<noteq> snd (sn_node a)"
      "commitIndex rf' = max (commitIndex rf) (fst (sn_node a))"
  | (trim) k where "currentTerm rf \<le> isTerm a" "currentTerm rf' = isTerm a" "tame rf rf'" "matchIndex rf' = matchIndex rf"
      "k < length l" "rlog rf' = drop k l" "enode (l ! k) = sn_node a"
      "commitIndex rf' = max (commitIndex rf) (fst (sn_node a))"
proof (cases "isTerm a < currentTerm rf")
  case True
  with assms(2) have "rf' = rf" "\<not> irSuccess reply" by (auto simp: InstallSnapshot_def Let_def)
  then show thesis using refused by simp
next
  case False
  define rf1 where "rf1 = checkAndMaySetTermAndState (isTerm a) (rf\<lparr>lastRecivedTime := now\<rparr>)"
  have r1: "rlog rf1 = l" "commitIndex rf1 = commitIndex rf" "matchIndex rf1 = matchIndex rf"
    "currentTerm rf1 = isTerm a" using False by (simp_all add: rf1_def l_def)
  have tm: "tame rf rf1" using tame_check[of "rf\<lparr>lastRecivedTime := now\<rparr>" "isTerm a"]
    by (simp add: rf1_def tame_def)
  have ne: "l \<noteq> []" and last: "lastIndex l = firstIndex l + int (length l) - 1"
    using assms(3) wf_log_last by (auto simp: wf_log_nonempty)
  let ?i = "fst (sn_node a) - firstIndex l"
  note eqs = assms(2)[unfolded InstallSnapshot_def, folded rf1_def]
  have go: "go_nth l ?i = Some (l ! nat ?i)" "go_from l ?i = Some (drop (nat ?i) l)"
    "go_nth (drop (nat ?i) l) 0 = Some (l ! nat ?i)" if "0 < ?i" "?i < int (length l)"
    using that by (auto simp: go_simps)
  show thesis
  proof (cases "fst (sn_node a) \<le> firstIndex l")
    case True
    with eqs False ne have "rf' = rf1" "\<not> irSuccess reply"
      by (auto simp: Let_def r1 go_nth_hd sn_node_def)
    moreover from this have "still rf rf'" using tm r1 by (simp add: still_def l_def)
    ultimately show thesis using refused by blast
  next
    case pos: False
    show thesis
    proof (cases "lastIndex l \<le> fst (sn_node a) \<or> eTerm (l ! nat ?i) \<noteq> snd (sn_node a)")
      case True
      let ?e = "\<lparr>eTerm = snd (sn_node a), eIndex = fst (sn_node a), eCommand = None, eStart = 0\<rparr>"
      have "rf' = signal (persist (rf1\<lparr>rlog := [?e],
            commitIndex := max (commitIndex rf1) (fst (sn_node a)), rsnapshot := snData (isSnapshot a)\<rparr>))"
      proof (cases "lastIndex l \<le> fst (sn_node a)")
        case True
        with eqs False pos ne show ?thesis by (auto simp: Let_def r1 go_nth_hd go_last_eq sn_node_def)
      next
        case less: False
        with True eqs False pos ne go(1) last show ?thesis
          by (auto simp: Let_def r1 go_nth_hd go_last_eq sn_node_def)
      qed
      note rf' = this
      show thesis
        by (rule reset[of ?e]) (use False pos True tm r1 in \<open>simp_all add: rf' enode_def tame_def\<close>)
    next
      case keep: False
      then have i: "0 < ?i" "?i < int (length l)" using pos last by auto
      note go = go[OF this]
      have idx: "eIndex (l ! nat ?i) = fst (sn_node a)" using wf_log_nth[OF assms(3), of "nat ?i"] i by simp
      from keep eqs False pos ne go idx have rf': "rf' = signal (persist (rf1\<lparr>rlog := drop (nat ?i) l,
            rsnapshot := snData (isSnapshot a), leader := isLeaderId a,
            commitIndex := max (commitIndex rf1) (fst (sn_node a))\<rparr>))"
        by (auto simp: Let_def r1 go_nth_hd go_last_eq sn_node_def split: if_split_asm)
      show thesis
        by (rule trim[of "nat ?i"])
          (use False keep idx i tm r1 in \<open>simp_all add: rf' tame_def nat_less_iff prod_eq_iff\<close>)
    qed
  qed
qed

text \<open>A candidate that can still win, or a leader, has what is committed.\<close>

lemma contender_has:
  assumes sf: "safe s g" and v: "v < nsrv s" and x: "committed (nsrv s) g (currentTerm (srv s v)) x"
    and r: "rstate (srv s v) \<noteq> Follower"
  shows "anc (tree g) x (tip (rlog (srv s v))) \<or>
    rstate (srv s v) = Candidate \<and> beaten (nsrv s) g v (currentTerm (srv s v))"
proof (cases "rstate (srv s v) = Leader")
  case True
  from leader_bounds(2)[OF sf v True x] show ?thesis ..
next
  case False
  with r have c: "rstate (srv s v) = Candidate" by (cases "rstate (srv s v)") simp_all
  with safeD(6)[OF sf v] have co: "cand_ok (nsrv s) g v (srv s v)" by (simp add: role_ok_def)
  show ?thesis
  proof (cases "beaten (nsrv s) g v (currentTerm (srv s v))")
    case False
    with co have k: "tip (rlog (srv s v)) = cands g v (currentTerm (srv s v))"
      by (simp add: cand_ok_def Let_def)
    show ?thesis
    proof (cases "x = root")
      case True
      with anc_root[OF safeD(8)[OF sf] server_okD(5)[OF safeD(5)[OF sf v]]] show ?thesis by simp
    next
      case rt: False
      with x obtain y where "direct (nsrv s) g y" "snd y \<le> currentTerm (srv s v)" "anc (tree g) x y"
        by (auto simp: committed_def)
      moreover from this False have "anc (tree g) y (tip (rlog (srv s v)))" unfolding beaten_def k by blast
      ultimately show ?thesis by (meson rtranclp_trans)
    qed
  qed (simp add: c)
qed

text \<open>A server that now has snapshot \<open>x\<close> and otherwise kept its log or what is committed of it.\<close>

lemma safe_snapshot:
  assumes sf: "safe s g" and st: "raft_step s t" and cm: "committed (nsrv s) g (isTerm a) (sn_node a)"
    and ch: "changes s v rf (add_mset (SnapRep c v a reply) M) t" and M: "\<And>p. p \<in># M \<Longrightarrow> p \<in># net s"
    and T: "currentTerm (srv s v) \<le> isTerm a" "currentTerm rf = isTerm a" "tame (srv s v) rf"
      "matchIndex rf = matchIndex (srv s v)"
    and path: "log_path (tree g) (rlog rf)" and fi: "firstIndex (rlog rf) = fst (sn_node a)"
    and has: "anc (tree g) (sn_node a) (tip (rlog rf))"
    and ci: "commitIndex rf = max (commitIndex (srv s v)) (fst (sn_node a))"
    and change: "tip (rlog rf) = tip (rlog (srv s v)) \<or> tip (rlog rf) = sn_node a \<and>
      (anc (tree g) (sn_node a) (tip (rlog (srv s v))) \<longrightarrow> lastIndex (rlog (srv s v)) \<le> fst (sn_node a))"
  shows "safe t (seen s t g)"
proof -
  note gr = grown_plain[OF sf st ch]
  note D = grownD[OF gr]
  note so = server_okD[OF safeD(5)[OF sf D(7)]] and h = safeD(3)[OF sf] and tok = safeD(8)[OF sf]
  let ?x = "sn_node a" and ?e = "tip (rlog (srv s v))"
  have stays: "anc (tree g) y (tip (rlog rf))"
    if "anc (tree g) y ?e" "anc (tree g) ?x y \<or> anc (tree g) y ?x" for y
  proof (cases "tip (rlog rf) = ?e")
    case False
    with change have n: "tip (rlog rf) = ?x" "anc (tree g) ?x ?e \<longrightarrow> lastIndex (rlog (srv s v)) \<le> fst ?x" by blast+
    show ?thesis
    proof (cases "anc (tree g) y ?x")
      case False
      with that(2) have xy: "anc (tree g) ?x y" by blast
      with that(1) have "anc (tree g) ?x ?e" by (meson rtranclp_trans)
      with n(2) anc_index[OF that(1)] have "fst y \<le> fst ?x" by simp
      with anc_same[OF xy] n(1) show ?thesis by simp
    qed (simp add: n)
  qed (use that in simp)
  have same_tip: "tip (rlog rf) = ?e" if "anc (tree g) ?x ?e"
    using change that anc_same[OF that] by auto
  show ?thesis
  proof (rule safe_plain[OF sf st ch path _ _ _ _ _ tame_vote[OF sf D(7) T(3)]])
    have "snd ?x \<le> isTerm a" using cm anc_term[OF _ tok] so(3) T(1)
      unfolding committed_def by (metis order_trans snd_conv)
    with change so(2) T(1,2) show "snd (tip (rlog rf)) \<le> currentTerm rf" by (auto simp del: tip_simps)
    show "kept g y (tip (rlog rf)) (currentTerm rf)" if y: "y \<in> acks g v" for y
    proof (rule ccontr)
      assume "\<not> kept g y (tip (rlog rf)) (currentTerm rf)"
      then have n: "\<not> anc (tree g) y (tip (rlog rf))" "\<And>T'. snd y < T' \<Longrightarrow> T' \<le> isTerm a \<Longrightarrow> \<not> lacks g T' y"
        unfolding kept_def T(2) by blast+
      from kept_term[OF so(9)[OF y] T(1)] n(2) have "anc (tree g) y ?e" unfolding kept_def by blast
      with stays committed_comparable[OF h cm so(7)[OF y] n(2)] n(1) show False by blast
    qed
    show "commit_ok (nsrv s) g rf"
    proof (cases "commitIndex (srv s v) \<le> fst ?x")
      case True
      with ci fi has cm show ?thesis by (intro commit_okI[of rf ?x]) (simp_all add: T(2))
    next
      case False
      from so(4) obtain y where y: "fst y = commitIndex (srv s v)" "anc (tree g) y ?e"
        "committed (nsrv s) g (currentTerm (srv s v)) y" by (auto simp: commit_ok_def)
      from stays[OF y(2) committed_linear[OF h cm y(3)]] committed_mono[OF y(3) T(1)] False y(1) ci fi
      show ?thesis by (intro commit_okI[of rf y]) (simp_all add: T(2))
    qed
    show role: "rstate rf = rstate (srv s v) \<and> currentTerm rf = currentTerm (srv s v) \<and>
      (tip (rlog rf) = ?e \<or> rstate rf = Candidate \<and> beaten (nsrv s) g v (currentTerm rf))"
      if r: "rstate rf \<noteq> Follower"
    proof -
      from T(3) r have eq: "rstate rf = rstate (srv s v)" "currentTerm rf = currentTerm (srv s v)"
        by (auto simp: tame_def)
      with contender_has[OF sf D(7), of ?x] cm T(2) r same_tip show ?thesis by auto
    qed
    show "m \<le> lastIndex (rlog rf) \<and> matched g p (currentTerm rf) m"
      if l: "rstate rf = Leader" and p: "p < nsrv s" "p \<noteq> v" "go_nth (matchIndex rf) (int p) = Some m" for p m
    proof -
      from role l have eq: "rstate (srv s v) = Leader" "currentTerm rf = currentTerm (srv s v)"
        "tip (rlog rf) = ?e" by auto
      with safeD(6)[OF sf D(7)] have "leader_ok (nsrv s) g v (srv s v)" by (simp add: role_ok_def)
      from leader_okD(5,6)[OF this p(1,2)] p(3) T(4) eq(2) arg_cong[OF eq(3), of fst] show ?thesis by simp
    qed
    have "matched (seen s t g) v (isTerm a) (fst ?x)"
      unfolding matched_def
    proof (intro ballI impI)
      fix y assume y: "y \<in> dom (tree (seen s t g))" "snd y = isTerm a" "fst y \<le> fst ?x"
      then have yd: "y \<in> dom (tree g)" by simp
      from committed_on_term[OF h cm yd y(2)] obtain w where "anc (tree g) ?x w" "anc (tree g) y w" .
      with anc_linear y(3) have "anc (tree g) y ?x" by blast
      then have "anc (tree g) y (tip (rlog rf))" using has by (rule rtranclp_trans)
      with y D(7-9) T(2) show "y \<in> acks (seen s t g) v" by (simp add: observe_acks)
    qed
    with extends_committed[OF D(11) cm] show "p \<in># net s \<or> packet_ok (nsrv s) (seen s t g) p"
      if "p \<in># add_mset (SnapRep c v a reply) M" for p using that M by auto
  qed
qed

lemma gob_snapshot_node [simp]: "sn_node (gob_snapshot a) = sn_node a" "isTerm (gob_snapshot a) = isTerm a"
  by (simp_all add: sn_node_def gob_snapshot_def)

lemma safe_SnapReq:
  assumes sf: "safe s g" and st: "raft_step s t" and p: "SnapReq c v a \<in># net s"
    and h: "InstallSnapshot now (gob_snapshot a) (srv s v) = Some (rf, reply)"
    and ch: "changes s v rf (add_mset (SnapRep c v a reply) (net s - {#SnapReq c v a#})) t"
  shows "safe t (seen s t g)"
proof -
  note D = grownD[OF grown_plain[OF sf st ch]]
  note so = server_okD[OF safeD(5)[OF sf D(7)]]
  let ?x = "sn_node a" and ?l = "rlog (srv s v)"
  from safeD(7)[OF sf p] have cm: "committed (nsrv s) g (isTerm a) ?x" by simp
  from h so(6) show ?thesis
  proof (cases rule: InstallSnapshot_cases)
    case refused
    show ?thesis
      by (rule safe_still[OF sf st ch refused(1)])
        (use extends_committed[OF D(11) cm] refused(2) in \<open>auto dest: in_diffD\<close>)
  next
    case (reset e)
    have "lastIndex ?l \<le> fst ?x" if "anc (tree g) ?x (tip ?l)"
      using log_path_at(2)[OF so(1) that] reset(8,9) by (auto simp: enode_def prod_eq_iff)
    then show ?thesis
      using reset committed_node[OF safeD(3)[OF sf] cm]
      by (intro safe_snapshot[OF sf st cm ch in_diffD])
        (simp_all add: log_path_def first_ok_def tip_def flip: enode_simps(1))
  next
    case (trim k)
    note d = log_path_drop[OF so(1) trim(5)]
    show ?thesis
      using trim d log_path_anc[OF so(1) trim(5)]
      by (intro safe_snapshot[OF sf st cm ch in_diffD]) (simp_all add: hd_drop_conv_nth flip: enode_simps(1))
  qed
qed

section \<open>A leader creates an entry\<close>

lemma same_vote:
  assumes "safe s g" and "i < nsrv s" and "currentTerm rf = currentTerm (srv s i)" "votedFor rf = votedFor (srv s i)"
  shows "new_vote_ok s g g' i rf t"
proof -
  have "votes g i (currentTerm (srv s i)) = votedFor (srv s i)"
    using safeD(1)[OF assms(1)] assms(2) by (simp add: election_inv_def)
  with assms(3,4) show ?thesis unfolding new_vote_ok_def Let_def by simp
qed

lemma safe_append:
  fixes s :: "('c, 'b) cluster" and i :: nat and rf1 :: "('c, 'b) Raft"
  defines "x \<equiv> tip (rlog (srv s i))" and "T \<equiv> currentTerm (srv s i)"
  assumes sf: "safe s g" and st: "raft_step s t" and ch: "changes s i rf (N + started i sp) t"
    and N: "\<And>p. p \<in># N \<Longrightarrow> p \<in># net s" and send: "sendHeatbeat now force rf1 = Some (rf, sp)"
    and rf1: "rlog rf1 = rlog (srv s i) @ [e]" "currentTerm rf1 = T" "votedFor rf1 = votedFor (srv s i)"
      "commitIndex rf1 = commitIndex (srv s i)" "rstate rf1 = Leader"
    and e: "enode e = (fst (x) + 1, T)"
    and fresh: "\<And>w. w \<in> dom (tree g) \<Longrightarrow> snd w = T \<Longrightarrow> anc (tree g) w (x)"
    and W: "wins g \<subseteq>\<^sub>m W" "W (T) = Some (i, Q, b)" "anc (tree g) b (x)"
    and H: "H = grow (tree g) (x) (T) (eCommand e)"
    and win: "\<And>T' c' Q' b'. W T' = Some (c', Q', b') \<Longrightarrow> wins g T' = None \<Longrightarrow>
      c' = i \<and> T' = T \<and> win_ok (nsrv s) (observe s t H W g) T' c' Q' b'"
    and mtch: "\<And>p m. p < nsrv s \<Longrightarrow> p \<noteq> i \<Longrightarrow> go_nth (matchIndex rf1) (int p) = Some m \<Longrightarrow>
      m \<le> lastIndex (rlog (srv s i)) \<and> matched g p (T) m"
  shows "safe t (observe s t H W g)"
proof -
  let ?x = "x" and ?T = "T" and ?g = "observe s t H W g"
  have i: "i < nsrv s" using ch by (simp add: changes_def)
  note so = server_okD[OF safeD(5)[OF sf i], folded x_def T_def]
  from send obtain ls where rf: "rf = rf1\<lparr>lastSendAppendEntry := ls\<rparr>" by (rule sendHeatbeat_frame)
  have new: "(fst ?x + 1, ?T) \<notin> dom (tree g)"
    using anc_index[OF fresh[of "(fst ?x + 1, ?T)"]] by auto
  have "snd ?x \<le> ?T" using so(2) .
  note gk = grow_ok[OF safeD(8)[OF sf] so(5) this new, of "eCommand e", folded H]
  have tip1: "tip (rlog rf1) = enode e" by (simp add: rf1 tip_def)
  have up: "anc H ?x (enode e)" using gk(3) e by auto
  have old: "anc H y (enode e)" if "anc (tree g) y ?x" for y
    using anc_mono[OF gk(2) that] up by (rule rtranclp_trans)
  have gr: "grown s g i rf (N + started i sp) t H W"
    unfolding grown_def
  proof (intro conjI allI impI ballI sf st ch gk(1,2) W(1))
    fix y assume "y \<in> dom H" "y \<notin> dom (tree g)"
    then have y: "y = enode e" using e by (auto simp: H)
    then show "y = tip (rlog rf)" "snd y = currentTerm rf" using tip1 e rf1(2) by (simp_all add: rf)
    show "\<exists>Q b. W (currentTerm rf) = Some (i, Q, b) \<and> anc H b y" using W(2,3) old y rf1(2) by (auto simp: rf)
    fix w assume w: "w \<in> dom (tree g)" "snd w = snd y"
    with fresh e y have a: "anc (tree g) w ?x" by simp
    with old y show "anc H w y" by blast
    show "fst w < fst y" using anc_index[OF a] y e by simp
  qed (use win rf1 in \<open>simp_all add: rf\<close>)
  note D = grownD[OF gr]
  have path: "log_path H (rlog rf1)"
    unfolding rf1(1)
  proof (rule log_path_snoc(1)[OF log_path_mono[OF gk(2) so(1)]])
    have "H (enode e) = Some (snd ?x, eCommand e)" by (simp add: H grow_def e)
    moreover have "eIndex e = fst ?x + 1" using e by (simp add: enode_def)
    ultimately show "chain H (tip (rlog (srv s i))) [e]" by (simp add: x_def)
  qed
  have com: "commit_ok (nsrv s) ?g rf1"
  proof -
    from so(4) obtain y where y: "firstIndex (rlog (srv s i)) \<le> commitIndex (srv s i)" "fst y = commitIndex (srv s i)"
      "anc (tree g) y ?x" "committed (nsrv s) g ?T y" by (auto simp: commit_ok_def x_def T_def)
    have "firstIndex (rlog rf1) = firstIndex (rlog (srv s i))"
      using wf_log_nonempty[OF so(6)] by (simp add: rf1(1))
    with y old extends_committed[OF D(11)] tip1 show ?thesis
      by (intro commit_okI[of rf1 y]) (simp_all add: rf1)
  qed
  have lead: "leader_ok (nsrv s) ?g i rf1"
  proof (rule leader_okI, goal_cases)
    case 1
    from W(2) show ?case by (simp add: rf1(2))
  next
    case 2
    show ?case by (simp add: tip1 e H)
  next
    case 3
    show ?case using e by (simp add: tip1 rf1(2) del: tip_simps)
  next
    case (4 y)
    then have "y = enode e \<or> y \<in> dom (tree g) \<and> snd y = ?T" using e rf1(2) by (auto simp: H)
    with old[OF fresh[of y]] show ?case unfolding tip1 observe_simps by blast
  next
    case (5 p m)
    from mtch[OF this] have "m \<le> fst ?x" by (simp add: x_def)
    with e show ?case by (simp add: rf1(1) enode_def)
  next
    case (6 p m)
    from mtch[OF this] have m: "m \<le> fst ?x" "matched g p ?T m" by (simp_all add: x_def)
    have "y \<in> dom (tree g)" if "y \<in> dom H" "fst y \<le> m" for y using that m(1) by (auto simp: H)
    with grown_matched[OF gr m(2)] show ?case by (simp add: rf1(2))
  qed
  show ?thesis
  proof (rule safe_change[OF gr])
    show "log_path H (rlog rf)" using path by (simp add: rf)
    show "snd (tip (rlog rf)) \<le> currentTerm rf" using e rf1(2) tip1 by (simp add: rf del: tip_simps)
    show "commit_ok (nsrv s) ?g rf" using com by (simp add: rf)
    show "kept ?g y (tip (rlog rf)) (currentTerm rf)" if "y \<in> acks g i" for y
    proof -
      have "tip (rlog rf) = enode e" "currentTerm rf = T" using tip1 rf1(2) by (simp_all add: rf)
      with so(9)[OF that] old[of y] extends_lacks[OF D(11) safeD(3)[OF sf], of _ y] show ?thesis
        unfolding kept_def by auto
    qed
    show "leader_ok (nsrv s) ?g i rf" using lead by (simp add: rf)
    show "new_vote_ok s g ?g i rf t" by (rule same_vote[OF sf i]) (use rf1 in \<open>simp_all add: rf T_def\<close>)
    show "p \<in># net s \<or> packet_ok (nsrv s) ?g p" if "p \<in># N + started i sp" for p
      using that N started_packets[OF send _ _ com lead] path by auto
  qed (use rf1(5) in \<open>simp add: rf\<close>)
qed

lemma StartCommand_cases:
  assumes "StartCommand now c rf = Some (rf', sp, r)"
  obtains (refused) "rstate rf \<noteq> Leader" "rf' = rf" "sp = []"
  | (appended) rf1 e where "rstate rf = Leader" "sendHeatbeat now True rf1 = Some (rf', sp)"
      "rf1 = persist (rf\<lparr>rlog := rlog rf @ [e]\<rparr>)" "enode e = (lastIndex (rlog rf) + 1, currentTerm rf)"
      "eCommand e = Some c"
proof (cases "rstate rf = Leader")
  case True
  let ?e = "\<lparr>eTerm = currentTerm rf, eIndex = lastIndex (rlog rf) + 1, eCommand = Some c, eStart = UnixMilli now\<rparr>"
  from True assms have "sendHeatbeat now True (persist (rf\<lparr>rlog := rlog rf @ [?e]\<rparr>)) = Some (rf', sp)"
    unfolding StartCommand_def Let_def by (auto elim!: bindE simp: go_last_Some_iff)
  with True show thesis by (intro appended[of _ ?e]) (simp_all add: enode_def)
next
  case False
  with assms have "rf' = rf" "sp = []" by (auto simp: StartCommand_def)
  with False show thesis by (rule refused)
qed

lemma safe_Command:
  assumes sf: "safe s g" and st: "raft_step s t" and i: "i < nsrv s"
    and h: "StartCommand now c (srv s i) = Some (rf, sp, r)" and t: "t = put i rf (started i sp) s"
  shows "\<exists>g'. safe t g' \<and> extends g g'"
proof -
  have ch: "changes s i rf (net s + started i sp) t" using t i by (simp add: changes_def put_def)
  from h show ?thesis
  proof (cases rule: StartCommand_cases)
    case refused
    have "safe t (seen s t g)" by (rule safe_still[OF sf st ch]) (use refused in simp_all)
    with grownD(11)[OF grown_plain[OF sf st ch]] show ?thesis by blast
  next
    case (appended rf1 e)
    from safeD(6)[OF sf i] appended(1) have "leader_ok (nsrv s) g i (srv s i)" by (simp add: role_ok_def)
    note L = leader_okD[OF this]
    from L(1) obtain Q b where w: "wins g (currentTerm (srv s i)) = Some (i, Q, b)" by blast
    have b: "anc (tree g) b (tip (rlog (srv s i)))"
      using hist_okD(2)[OF safeD(3)[OF sf] L(2)] L(3) w by auto
    let ?H = "grow (tree g) (tip (rlog (srv s i))) (currentTerm (srv s i)) (eCommand e)"
    have "safe t (observe s t ?H (wins g) g)"
      by (rule safe_append[OF sf st ch _ appended(2) _ _ _ _ _ _ _ map_le_refl w b refl])
        (use appended L in \<open>simp_all add: enode_def\<close>)
    moreover have "extends g (observe s t ?H (wins g) g)"
    proof (rule observe_extends[OF _ _ map_le_refl])
      have n: "(fst (tip (rlog (srv s i))) + 1, currentTerm (srv s i)) \<notin> dom (tree g)"
        using anc_index[OF L(4)] by fastforce
      note so = server_okD[OF safeD(5)[OF sf i]]
      from grow_ok[OF safeD(8)[OF sf] so(5,2) n] show "tree g \<subseteq>\<^sub>m ?H" "tree_ok ?H" by blast+
    qed
    ultimately show ?thesis by blast
  qed
qed

section \<open>Winning an election\<close>

lemma becomeLeader_sends:
  assumes "becomeLeader now rf = Some (rf', sp)" and "rstate rf = Candidate"
  obtains rf1 where "sendHeatbeat now True rf1 = Some (rf', sp)" "rlog rf1 = rlog rf @ [noop_entry now rf]"
    "currentTerm rf1 = currentTerm rf" "votedFor rf1 = votedFor rf" "commitIndex rf1 = commitIndex rf"
    "rstate rf1 = Leader"
    "\<And>p m. p < npeers rf \<Longrightarrow> int p \<noteq> me rf \<Longrightarrow> go_nth (matchIndex rf1) (int p) = Some m \<Longrightarrow> m = 0"
proof -
  from assms obtain rf1 where log: "rlog rf \<noteq> []"
    and 1: "becomeLeader_loop now (eIndex (last (rlog rf))) [0..<npeers rf] rf = Some rf1"
    and 2: "go_last (rlog rf1) \<bind> (\<lambda>lastLog. sendHeatbeat now True (persist (rf1\<lparr>rstate := Leader,
      rlog := rlog rf1 @ [\<lparr>eTerm = currentTerm rf1, eIndex = eIndex lastLog + 1, eCommand = None,
                eStart = UnixMilli now\<rparr>]\<rparr>))) = Some (rf', sp)"
    unfolding becomeLeader_def Let_def getLastLogIndexAndTerm_def
    by (auto elim!: bindE simp: go_last_Some_iff go_last_eq)
  from 1 obtain ni mi ls where rf1: "rf1 = rf\<lparr>nextIndex := ni, matchIndex := mi, lastSendAppendEntry := ls\<rparr>"
    and arr: "leader_arrays (me rf) (eIndex (last (rlog rf))) [0..<npeers rf] (nextIndex rf) (matchIndex rf) ni mi"
    by (rule becomeLeader_loop_frame)
  define rf2 where "rf2 = persist (rf1\<lparr>rstate := Leader, rlog := rlog rf @ [noop_entry now rf]\<rparr>)"
  from 2 log have "sendHeatbeat now True rf2 = Some (rf', sp)"
    by (simp add: rf1 rf2_def noop_entry_def go_last_eq)
  moreover have "m = 0" if "p < npeers rf" "int p \<noteq> me rf" "go_nth mi (int p) = Some m" for p m
    using arr that by (auto simp: leader_arrays_def go_simps)
  ultimately show thesis by (intro that[of rf2]) (auto simp: rf2_def rf1)
qed

text \<open>The votes of a winner come from a majority, so no one else has won, and its log has what is
  committed: the voters have checked it.\<close>

lemma winner_first:
  assumes sf: "safe s g" and c: "c < nsrv s" "rstate (srv s c) = Candidate" and T: "T = currentTerm (srv s c)"
    and maj: "nsrv s div 2 < card {v. v < nsrv s \<and> votes g v T = int c}"
  shows "wins g T = None" and "tip (rlog (srv s c)) = cands g c T"
proof -
  let ?Q = "{v. v < nsrv s \<and> votes g v T = int c}"
  note h = safeD(3)[OF sf] and r = safeD(6)[OF sf c(1)]
  show none: "wins g T = None"
  proof (rule ccontr)
    assume "wins g T \<noteq> None"
    then obtain c' Q' b' where w: "wins g T = Some (c', Q', b')" by auto
    note ok = hist_okD(4)[OF h w, unfolded win_ok_def]
    have "\<exists>v. v \<in> ?Q \<and> v \<in> Q'"
      by (rule majorities_meet[of "{v. v < nsrv s}"]) (use ok maj in auto)
    with ok have "c' = c" by fastforce
    with r w c(2) T show False unfolding role_ok_def by fastforce
  qed
  have "\<not> beaten (nsrv s) g c T"
  proof
    assume "beaten (nsrv s) g c T"
    then obtain y where y: "direct (nsrv s) g y" "snd y \<le> T" "\<not> anc (tree g) y (cands g c T)"
      unfolding beaten_def by blast
    have "snd y \<noteq> T" using hist_okD(2)[OF h, of y] y(1) none by (auto simp: direct_def)
    with y(2) have lt: "snd y < T" by simp
    have "\<exists>v. v \<in> {v. v < nsrv s \<and> y \<in> acks g v} \<and> v \<in> ?Q"
      by (rule majorities_meet[of "{v. v < nsrv s}"]) (use y(1) maj in \<open>auto simp: direct_def\<close>)
    then obtain v where "v < nsrv s" "y \<in> acks g v" "votes g v T = int c" by blast
    with safeD(4)[OF sf] c(1) none lt have "kept g y (cands g c T) (T - 1)" unfolding ballots_ok_def by blast
    with y(3) direct_not_lacked[OF h y(1)] show False unfolding kept_def by blast
  qed
  with r c(2) T show "tip (rlog (srv s c)) = cands g c T" by (simp add: role_ok_def cand_ok_def Let_def)
qed

lemma safe_win:
  assumes sf: "safe s g" and st: "raft_step s t" and c: "rstate (srv s c) = Candidate"
    and N: "\<And>p. p \<in># N \<Longrightarrow> p \<in># net s"
    and h: "becomeLeader now ((srv s c)\<lparr>voteGrantedCount := k\<rparr>) = Some (rf, sp)"
    and ch: "changes s c rf (N + started c sp) t"
  shows "\<exists>g'. safe t g' \<and> extends g g'"
proof -
  let ?rf = "(srv s c)\<lparr>voteGrantedCount := k\<rparr>" and ?T = "currentTerm (srv s c)" and ?x = "tip (rlog (srv s c))"
  have ci: "c < nsrv s" and tc: "nsrv t = nsrv s" "srv t = (srv s)(c := rf)" using ch by (simp_all add: changes_def)
  note b = basicD[OF safeD(2)[OF sf] ci] and so = server_okD[OF safeD(5)[OF sf ci]] and hk = safeD(3)[OF sf]
  have cc: "rstate ?rf = Candidate" using c by simp
  obtain rf1 where send: "sendHeatbeat now True rf1 = Some (rf, sp)"
    and rf1: "rlog rf1 = rlog (srv s c) @ [noop_entry now ?rf]" "currentTerm rf1 = ?T"
      "votedFor rf1 = votedFor (srv s c)" "commitIndex rf1 = commitIndex (srv s c)" "rstate rf1 = Leader"
    and m: "\<And>p m. p < npeers (srv s c) \<Longrightarrow> int p \<noteq> me (srv s c) \<Longrightarrow> go_nth (matchIndex rf1) (int p) = Some m \<Longrightarrow> m = 0"
    by (rule becomeLeader_sends[OF h cc, unfolded Raft.select_convs Raft.update_convs]) simp
  from send obtain ls where rf: "rf = rf1\<lparr>lastSendAppendEntry := ls\<rparr>" by (rule sendHeatbeat_frame)
  have ei: "election_inv t (see_votes t (votes g))" by (rule election_inv_step[OF safeD(1)[OF sf] st])
  have now: "votes g v ?T = int c" if "v < nsrv s" "see_votes t (votes g) v ?T = int c" for v
    using that safeD(1)[OF sf] tc rf1 unfolding election_inv_def
    by (auto simp: see_votes_def rf split: if_split_asm)
  define Q where "Q = {v. v < nsrv s \<and> see_votes t (votes g) v ?T = int c}"
  have maj: "nsrv s div 2 < card Q"
    using ei ci tc rf1 unfolding election_inv_def campaign_ok_def Let_def Q_def by (auto simp: rf)
  also have "\<dots> \<le> card {v. v < nsrv s \<and> votes g v ?T = int c}"
    by (rule card_mono) (use now in \<open>auto simp: Q_def\<close>)
  finally have majs: "nsrv s div 2 < card {v. v < nsrv s \<and> votes g v ?T = int c}" .
  note first = winner_first[OF sf ci c refl this]
  from safeD(6)[OF sf ci] c have co: "0 < ?T" "snd ?x < ?T"
    unfolding role_ok_def cand_ok_def Let_def first(2) by auto
  have fresh: "snd w \<noteq> ?T" if "w \<in> dom (tree g)" for w using hist_okD(2)[OF hk that] first(1) by auto
  let ?H = "grow (tree g) ?x ?T (eCommand (noop_entry now ?rf))" and ?W = "(wins g)(?T \<mapsto> (c, Q, ?x))"
  have n: "(fst ?x + 1, ?T) \<notin> dom (tree g)" using fresh by force
  note gk = grow_ok[OF safeD(8)[OF sf] so(5,2) n, of "eCommand (noop_entry now ?rf)"]
  have le: "wins g \<subseteq>\<^sub>m ?W" using first(1) by (auto simp: map_le_def)
  have ext: "extends g (observe s t ?H ?W g)" by (rule observe_extends[OF gk(2,1) le])
  have "kept (observe s t ?H ?W g) y ?x (?T - 1)"
    if v: "v \<in> Q" and y: "y \<in> acks (observe s t ?H ?W g) v" "snd y < ?T" for v y
  proof (rule extends_kept[OF ext hk _ order_refl])
    from v have v': "v < nsrv s" "votes g v ?T = int c" using now by (auto simp: Q_def)
    have "?T \<le> currentTerm (srv t v)"
      using vote_term[OF sf v'] step_evolves(2)[OF safeD(2)[OF sf] st, of v] by (simp add: evolves_def)
    with y have "y \<in> acks g v" by (auto simp: observe_acks)
    with safeD(4)[OF sf] v' ci first y(2) show "kept g y ?x (?T - 1)" unfolding ballots_ok_def by force
  qed
  then have win: "win_ok (nsrv s) (observe s t ?H ?W g) ?T c Q ?x"
    using ci maj nodes_mono[OF gk(2) so(5)] co unfolding win_ok_def by (auto simp: Q_def)
  have "safe t (observe s t ?H ?W g)"
  proof (rule safe_append[OF sf st ch N send rf1 _ _ le _ rtranclp.rtrancl_refl refl])
    show "enode (noop_entry now ?rf) = (fst ?x + 1, ?T)" by (simp add: noop_entry_def enode_def)
    show "m \<le> lastIndex (rlog (srv s c)) \<and> matched g p ?T m"
      if "p < nsrv s" "p \<noteq> c" "go_nth (matchIndex rf1) (int p) = Some m" for p m
      using m[of p] that b(1,2) node_index[OF safeD(8)[OF sf] so(5)] fresh by (auto simp: matched_def)
    show "c' = c \<and> T' = ?T \<and> win_ok (nsrv s) (observe s t ?H ?W g) T' c' Q' b'"
      if "?W T' = Some (c', Q', b')" "wins g T' = None" for T' c' Q' b'
      using that win by (auto split: if_split_asm)
  qed (use fresh in auto)
  with ext show ?thesis by blast
qed

section \<open>Every event\<close>

lemma seen_extends: "safe s g \<Longrightarrow> extends g (seen s t g)"
  by (rule observe_extends) (simp_all add: safeD(8))

lemma safe_VoteRep:
  assumes sf: "safe s g" and st: "raft_step s t" and p: "VoteRep c v a reply \<in># net s"
    and h: "RequestVote_done now a reply (srv s c) = Some (rf, sp)"
    and ch: "changes s c rf (net s - {#VoteRep c v a reply#} + started c sp) t"
  shows "\<exists>g'. safe t g' \<and> extends g g'"
proof -
  have still: ?thesis if "still (srv s c) rf" "sp = []"
  proof -
    have "safe t (seen s t g)" by (rule safe_still[OF sf st ch that(1)]) (use that(2) in \<open>auto dest: in_diffD\<close>)
    with seen_extends[OF sf] show ?thesis by blast
  qed
  from h show ?thesis
  proof (cases rule: RequestVote_done_cases)
    case (won k)
    show ?thesis by (rule safe_win[OF sf st won(2) _ won(6) ch]) (rule in_diffD)
  next
    case refused
    show ?thesis by (rule still) (simp_all add: refused still_check)
  next
    case (counted k)
    then show ?thesis using still by (simp add: still_def tame_def)
  qed (use still in simp)
qed

lemma safe_handle:
  assumes sf: "safe s g" and st: "raft_step s t" and p: "p \<in># net s"
    and h: "handle now p (s\<lparr>net := net s - {#p#}\<rparr>) = Some t"
  shows "\<exists>g'. safe t g' \<and> extends g g'"
proof -
  obtain c v where e: "ends p = (c, v)" by fastforce
  note b = basic_ends[OF safeD(2)[OF sf] p e]
  have seen: ?thesis if "safe t (seen s t g)" using that seen_extends[OF sf] by blast
  show ?thesis
  proof (cases p)
    case (VoteReq _ _ a)
    with h e obtain rf r where hd: "RequestVote now a (srv s v) = Some (rf, r)"
      and "t = put v rf {#VoteRep c v a r#} (s\<lparr>net := net s - {#p#}\<rparr>)" by (auto elim!: bindE)
    with VoteReq e b have "changes s v rf (add_mset (VoteRep c v a r) (net s - {#VoteReq c v a#})) t"
      by (simp add: changes_def put_def)
    from safe_vote[OF sf st _ hd this] p VoteReq e show ?thesis by (intro seen) simp
  next
    case (VoteRep _ _ a r)
    with h e obtain rf sp where hd: "RequestVote_done now a r (srv s c) = Some (rf, sp)"
      and "t = put c rf (started c sp) (s\<lparr>net := net s - {#p#}\<rparr>)" by (auto elim!: bindE)
    with VoteRep e b have "changes s c rf (net s - {#VoteRep c v a r#} + started c sp) t"
      by (simp add: changes_def put_def)
    from safe_VoteRep[OF sf st _ hd this] p VoteRep e show ?thesis by simp
  next
    case (AppReq _ _ a)
    with h e obtain rf r where hd: "AppendEntry now a (srv s v) = Some (rf, r)"
      and "t = put v rf {#AppRep c v a r#} (s\<lparr>net := net s - {#p#}\<rparr>)" by (auto elim!: bindE)
    with AppReq e b have "changes s v rf (add_mset (AppRep c v a r) (net s - {#AppReq c v a#})) t"
      by (simp add: changes_def put_def)
    from safe_AppReq[OF sf st _ hd this] p AppReq e show ?thesis by (intro seen) simp
  next
    case (AppRep _ _ a r)
    with h e obtain rf sp where hd: "AppendEntry_done now v a r (srv s c) = Some (rf, sp)"
      and "t = put c rf (started c sp) (s\<lparr>net := net s - {#p#}\<rparr>)" by (auto elim!: bindE)
    with AppRep e b have "changes s c rf (net s - {#AppRep c v a r#} + started c sp) t"
      by (simp add: changes_def put_def)
    from safe_AppRep[OF sf st _ hd this] p AppRep e show ?thesis by (intro seen) simp
  next
    case (SnapGo _ _)
    with h e obtain a where hd: "requestInstallSnapshot_args (srv s c) = Some a"
      and "t = put c (srv s c) {#SnapReq c v a#} (s\<lparr>net := net s - {#p#}\<rparr>)" by (auto elim!: bindE)
    with SnapGo e b have "changes s c (srv s c) (net s - {#SnapGo c v#} + {#SnapReq c v a#}) t"
      by (simp add: changes_def put_def)
    from safe_SnapGo[OF sf st _ hd this] p SnapGo e show ?thesis by (intro seen) simp
  next
    case (SnapReq _ _ a)
    with h e obtain rf r where hd: "InstallSnapshot now (gob_snapshot a) (srv s v) = Some (rf, r)"
      and "t = put v rf {#SnapRep c v a r#} (s\<lparr>net := net s - {#p#}\<rparr>)" by (auto elim!: bindE)
    with SnapReq e b have "changes s v rf (add_mset (SnapRep c v a r) (net s - {#SnapReq c v a#})) t"
      by (simp add: changes_def put_def)
    from safe_SnapReq[OF sf st _ hd this] p SnapReq e show ?thesis by (intro seen) simp
  next
    case (SnapRep _ _ a r)
    with h e obtain rf sp where hd: "InstallSnapshot_done now v a r (srv s c) = Some (rf, sp)"
      and "t = put c rf (started c sp) (s\<lparr>net := net s - {#p#}\<rparr>)" by (auto elim!: bindE)
    with SnapRep e b have "changes s c rf (net s - {#SnapRep c v a r#} + started c sp) t"
      by (simp add: changes_def put_def)
    from safe_SnapRep[OF sf st _ hd this] p SnapRep e show ?thesis by (intro seen) simp
  qed
qed

lemma applyLog_still:
  assumes "applyLog rf = Some (rf', msgs)"
  shows "still rf rf'"
  using assms unfolding applyLog_def applyLog_batch_def Let_def
  by (auto elim!: bindE simp: still_def tame_def
      split: applier_pc.splits if_split_asm list.splits option.splits)

lemma safe_step:
  assumes sf: "safe s g" and st: "raft_step s t"
  shows "\<exists>g'. safe t g' \<and> extends g g'"
proof -
  have seen: ?thesis if "safe t (seen s t g)" using that seen_extends[OF sf] by blast
  from st obtain ev where ex: "raft_exec ev s = Some t" by (auto simp: raft_step_iff)
  then show ?thesis
  proof (cases ev)
    case (Tick i now rnd)
    with ex obtain rf sp where i: "i < nsrv s" and h: "ticker now rnd (srv s i) = Some (rf, sp)"
      and t: "t = put i rf (started i sp) s" by (auto elim!: bindE split: if_split_asm)
    have ch: "changes s i rf (net s + started i sp) t" using t i by (simp add: changes_def put_def)
    from h show ?thesis
    proof (cases rule: ticker_cases)
      case idle
      then show ?thesis by (intro seen safe_still[OF sf st ch]) simp_all
    next
      case elect
      from basicD(1)[OF safeD(2)[OF sf] i] elect(4,5) ch show ?thesis
        by (intro seen safe_elect[OF sf st i]) simp_all
    qed
  next
    case (Heartbeat i now)
    with ex obtain rf sp where i: "i < nsrv s" and h: "heatbeat now (srv s i) = Some (rf, sp)"
      and t: "t = put i rf (started i sp) s" by (auto elim!: bindE split: if_split_asm)
    show ?thesis by (rule seen[OF safe_heatbeat[OF sf st i h t]])
  next
    case (Applier i)
    with ex obtain rf ms where i: "i < nsrv s" and h: "applyLog (srv s i) = Some (rf, ms)"
      and ch: "changes s i rf (net s) t"
      by (auto elim!: bindE split: if_split_asm simp: put_def changes_def)
    show ?thesis by (rule seen[OF safe_still[OF sf st ch applyLog_still[OF h]]]) simp
  next
    case (Command i now c)
    with ex obtain rf sp r where i: "i < nsrv s" and h: "StartCommand now c (srv s i) = Some (rf, sp, r)"
      and t: "t = put i rf (started i sp) s" by (auto elim!: bindE split: if_split_asm)
    show ?thesis by (rule safe_Command[OF sf st i h t])
  next
    case (Compact i now index sn)
    with ex obtain rf sp where i: "i < nsrv s" and h: "SnapshotService now index sn (srv s i) = Some (rf, sp)"
      and t: "t = put i rf (started i sp) s" by (auto elim!: bindE split: if_split_asm)
    show ?thesis by (rule seen[OF safe_Compact[OF sf st i h t]])
  next
    case (Handle p now)
    with ex show ?thesis by (auto split: if_split_asm intro: safe_handle[OF sf st])
  next
    case (Lose p)
    with ex have p: "p \<in># net s" and t: "t = s\<lparr>net := net s - {#p#}\<rparr>" by (simp_all split: if_split_asm)
    obtain c v where "ends p = (c, v)" by fastforce
    with basic_ends[OF safeD(2)[OF sf] p] have "changes s c (srv s c) (net s - {#p#}) t"
      by (simp add: changes_def t)
    from safe_Lose[OF sf st this] show ?thesis by (intro seen) simp
  next
    case (Restart i now rnd)
    with ex obtain rf where mk: "Make (nsrv s) (int i) (Checkpoint (persister (srv s i))) now rnd = Some rf"
      and "changes s i rf (filter_mset (survives i) (net s)) t"
      by (auto elim!: bindE split: if_split_asm simp: changes_def)
    from safe_restart[OF sf st this] show ?thesis by (rule seen)
  qed
qed

definition no_history :: "('c, 'b) cluster \<Rightarrow> 'c ghost" where
  "no_history s = \<lparr>votes = see_votes s (\<lambda>_ _. -1), tree = Map.empty, acks = (\<lambda>_. {}), wins = Map.empty,
     cands = (\<lambda>_ _. root)\<rparr>"

lemma safe_init:
  assumes "raft_init s"
  shows "safe s (no_history s)"
  using assms
proof (induction rule: raft_init.induct)
  case (1 n now rnd)
  let ?s = "boot n now rnd :: ('a, 'b) cluster"
  have ci: "commitIndex (srv ?s i) = 0" for i
    using Make_Some[of n "int i" "MakePersister :: ('a gobval, 'b) Persister" "now i" "rnd i"]
      boot_server(1,8)[where n = n and i = i and now = now and rnd = rnd] by (metis boot_entry_def LogEntry.select_convs(2) list.sel(1) option.inject)
  have "ballots_ok ?s (no_history ?s)"
    by (simp add: ballots_ok_def no_history_def see_votes_def boot_server)
  moreover have "commit_ok n (no_history ?s) (srv ?s i)" for i
    by (rule commit_okI[of _ root]) (simp_all add: ci boot_server boot_entry_def tip_def enode_def committed_def)
  ultimately show ?case
    using election_inv_init[OF raft_init.intros[of n now rnd]]
    by (simp add: safe_def no_history_def hist_ok_def tree_ok_def server_ok_def role_ok_def log_path_def
        first_ok_def boot_server boot_entry_def enode_def tip_def)
qed

lemma extends_trans: "extends g g' \<Longrightarrow> extends g' g'' \<Longrightarrow> extends g g''"
  using map_le_trans[of "tree g" "tree g'" "tree g''"] map_le_trans[of "wins g" "wins g'" "wins g''"]
  unfolding extends_def by blast

lemma safe_run:
  assumes "raft_step\<^sup>*\<^sup>* s t" and "safe s g"
  shows "\<exists>g'. safe t g' \<and> extends g g'"
  using assms
proof (induction rule: rtranclp_induct)
  case base
  have "extends g g" using safeD(8)[OF base] by (simp add: extends_def)
  with base show ?case by blast
next
  case (step t u)
  then show ?case using safe_step extends_trans by blast
qed

lemma safe_reach: "raft.reach s \<Longrightarrow> \<exists>g. safe s g"
  by (rule raft.reach_invariant) (use safe_init safe_step in blast)+

end
