(* ===== verification/RaftApply.thy ===== *)
theory RaftApply
  imports RaftLogInv
begin

text \<open>
  The applier goroutine: what a batch sends to the service, and that a wake-up is never lost.
\<close>

section \<open>The batch\<close>

lemma apply_loop_eq:
  assumes "0 \<le> i" and "nat i + n \<le> length l"
  shows "apply_loop l i n = Some (map (\<lambda>e. CommandMsg (eCommand e) (eIndex e)) (take n (drop (nat i) l)))"
  using assms
proof (induction n arbitrary: i)
  case (Suc n)
  have "nat (i + 1) = Suc (nat i)" using Suc.prems(1) by simp
  moreover have "nat i < length l" using Suc.prems by simp
  moreover have "take (Suc n) (drop (nat i) l) = l ! nat i # take n (drop (Suc (nat i)) l)"
    using \<open>nat i < length l\<close> by (simp add: Cons_nth_drop_Suc[symmetric])
  moreover have "go_nth l i = Some (l ! nat i)"
    using Suc.prems(1) \<open>nat i < length l\<close> by (simp add: go_simps nat_less_iff)
  moreover note Suc.IH[of "i + 1"]
  ultimately show ?case using Suc.prems by simp
qed simp

text \<open>The committed entries after index \<open>a\<close>, as messages.\<close>

definition committed_after :: "int \<Rightarrow> ('c, 'b) Raft \<Rightarrow> ('c, 'b) ApplyMsg list" where
  "committed_after a rf = map (\<lambda>e. CommandMsg (eCommand e) (eIndex e))
     (filter (\<lambda>e. a < eIndex e \<and> eIndex e \<le> commitIndex rf) (rlog rf))"

lemma consec_filter:
  assumes "consec b l"
  shows "filter (\<lambda>e. a < eIndex e \<and> eIndex e \<le> c) l = take (nat (c - max a (b - 1))) (drop (nat (a + 1 - b)) l)"
  using assms
proof (induction l arbitrary: b)
  case (Cons e l)
  then have b: "eIndex e = b" and IH: "filter (\<lambda>e. a < eIndex e \<and> eIndex e \<le> c) l =
      take (nat (c - max a b)) (drop (nat (a + 1 - (b + 1))) l)"
    using Cons.IH[of "b + 1"] by simp_all
  consider "b \<le> a" | "a < b" "b \<le> c" | "a < b" "c < b" by linarith
  then show ?case
  proof cases
    case 1
    then have "nat (a + 1 - b) = Suc (nat (a + 1 - (b + 1)))" by simp
    with 1 b IH show ?thesis by simp
  next
    case 2
    then have "nat (c - max a (b - 1)) = Suc (nat (c - max a b))" by simp
    with 2 b IH show ?thesis by simp
  next
    case 3
    with b IH show ?thesis by simp
  qed
qed simp

lemma applyLog_batch_eq:
  assumes wf: "wf_log (rlog rf)" and ci: "commitIndex rf \<le> lastIndex (rlog rf)"
    and la: "firstIndex (rlog rf) \<le> lastApplied rf \<or> rsnapshot rf \<noteq> None"
  defines "b \<equiv> firstIndex (rlog rf)"
  shows "applyLog_batch rf = Some (rf\<lparr>lastApplied := commitIndex rf\<rparr>,
     (if lastApplied rf < b
      then SnapshotMsg (the (rsnapshot rf)) (eTerm (hd (rlog rf))) b # committed_after b rf
      else committed_after (lastApplied rf) rf))"
proof -
  define l where "l = rlog rf"
  have cb: "consec b l" and ne: "l \<noteq> []" using wf by (auto simp: wf_log_def l_def b_def)
  have last: "lastIndex l = b + int (length l) - 1" using wf wf_log_last by (auto simp: l_def b_def)
  have bl: "firstIndex l = b" by (simp add: l_def b_def)
  have loop: "apply_loop l (a - b + 1) (nat (commitIndex rf - b - (a - b))) = Some (committed_after a rf)"
    if "b \<le> a" for a
  proof -
    have "nat (a - b + 1) + nat (commitIndex rf - a) \<le> length l \<or> commitIndex rf \<le> a"
      using that ci last by (auto simp: l_def)
    then show ?thesis
    proof
      assume "nat (a - b + 1) + nat (commitIndex rf - a) \<le> length l"
      then show ?thesis using that
        by (simp add: apply_loop_eq committed_after_def consec_filter[OF cb] flip: l_def)
          (simp add: algebra_simps)
    next
      assume "commitIndex rf \<le> a"
      then show ?thesis using that
        by (simp add: committed_after_def consec_filter[OF cb] flip: l_def)
    qed
  qed
  show ?thesis
  proof (cases "lastApplied rf < b")
    case True
    with la obtain d where "rsnapshot rf = Some d" by (auto simp: b_def)
    with True ne loop[of b] show ?thesis
      by (simp add: applyLog_batch_def Let_def go_nth_hd bl flip: l_def)
  next
    case False
    with ne loop[of "lastApplied rf"] show ?thesis
      by (cases "rsnapshot rf") (simp_all add: applyLog_batch_def Let_def go_nth_hd bl flip: l_def)
  qed
qed

section \<open>Wake-ups\<close>

text \<open>
  A handler keeps a waiting applier's business: when the applier still waits afterwards, the
  commit index and the start of the log are what they were.
\<close>

definition undisturbed :: "('c, 'b) Raft \<Rightarrow> ('c, 'b) Raft \<Rightarrow> bool" where
  "undisturbed rf rf' \<longleftrightarrow> (applier rf' = Waiting \<longrightarrow> applier rf = Waiting \<and>
     lastApplied rf' = lastApplied rf \<and> commitIndex rf' = commitIndex rf \<and>
     firstIndex (rlog rf') = firstIndex (rlog rf))"

lemma undisturbed_refl [simp]: "undisturbed rf rf"
  by (simp add: undisturbed_def)

lemma undisturbed_signal [simp]: "undisturbed rf (signal rf')"
  by (simp add: undisturbed_def)

lemma undisturbed_sendHeatbeat:
  assumes "sendHeatbeat now force rf = Some (rf', sp)"
  shows "undisturbed rf0 rf' = undisturbed rf0 rf"
  using assms by (rule sendHeatbeat_frame) (simp add: undisturbed_def)

lemma undisturbed_check [simp]: "undisturbed rf (checkAndMaySetTermAndState t rf)"
  by (simp add: undisturbed_def)

lemma undisturbed_updateCommitIndex:
  assumes "updateCommitIndex now idx rf = Some (rf', sp)" and "undisturbed rf0 rf"
  shows "undisturbed rf0 rf'"
proof -
  have "undisturbed rf0 rf'" if "updateCommit_loop now i rf = Some (rf', sp)" for i
    using that
  proof (cases rule: updateCommit_loop_cases)
    case (commit j e count)
    then show ?thesis by (simp add: undisturbed_sendHeatbeat)
  qed (use assms(2) in simp)
  with assms show ?thesis
    by (auto simp: updateCommitIndex_def Let_def elim!: bindE split: if_split_asm)
qed

lemma undisturbed_AppendEntry_done:
  assumes "AppendEntry_done now p args reply rf = Some (rf', sp)"
  shows "undisturbed rf rf'"
proof -
  have vol: "undisturbed rf (rf\<lparr>matchIndex := mi, nextIndex := ni\<rparr>)"
    "undisturbed rf (rf\<lparr>nextIndex := ni\<rparr>)" for mi ni
    by (simp_all add: undisturbed_def)
  show ?thesis using assms vol(2) unfolding AppendEntry_done_def Let_def
    by (auto elim!: bindE split: if_split_asm dest!: undisturbed_updateCommitIndex[OF _ vol(1)])
qed

lemma undisturbed_InstallSnapshot_done:
  assumes "InstallSnapshot_done now p args reply rf = Some (rf', sp)"
  shows "undisturbed rf rf'"
  using assms unfolding InstallSnapshot_done_def Let_def
  by (auto elim!: bindE split: if_split_asm dest!: undisturbed_sendHeatbeat[of _ _ _ _ _ rf]
      simp: undisturbed_def[of rf "rf\<lparr>nextIndex := ni, matchIndex := mi\<rparr>" for mi ni])

lemma undisturbed_StartCommand:
  assumes "StartCommand now c rf = Some (rf', sp, r)" and "rlog rf \<noteq> []"
  shows "undisturbed rf rf'"
  using assms unfolding StartCommand_def Let_def
  by (auto elim!: bindE split: if_split_asm dest!: undisturbed_sendHeatbeat[of _ _ _ _ _ rf])
    (simp add: undisturbed_def)

lemma undisturbed_SnapshotService:
  assumes "SnapshotService now idx sn rf = Some (rf', sp)"
  shows "undisturbed rf rf'"
  using assms
proof (cases rule: SnapshotService_cases)
  case (trim first l)
  from trim(5) show ?thesis by (auto split: if_split_asm dest!: undisturbed_sendHeatbeat[of _ _ _ _ _ rf])
qed simp

lemma undisturbed_InstallSnapshot:
  assumes "InstallSnapshot now args rf = Some (rf', reply)"
  shows "undisturbed rf rf'"
  using assms unfolding InstallSnapshot_def Let_def
  by (auto elim!: bindE split: if_split_asm simp: undisturbed_def)

lemma undisturbed_RequestVote:
  assumes "RequestVote now args rf = Some (rf', reply)"
  shows "undisturbed rf rf'"
  using assms unfolding RequestVote_def Let_def
  by (auto elim!: bindE split: if_split_asm simp: undisturbed_def)

lemma undisturbed_ticker:
  assumes "ticker now rnd rf = Some (rf', sp)"
  shows "undisturbed rf rf'"
  using assms
proof (cases rule: ticker_cases)
  case elect
  then show ?thesis by (simp add: undisturbed_def)
qed simp

lemma undisturbed_RequestVote_done:
  assumes "RequestVote_done now args reply rf = Some (rf', sp)" and "rlog rf \<noteq> []"
  shows "undisturbed rf rf'"
  using assms(1)
proof (cases rule: RequestVote_done_cases)
  case (won k)
  let ?rf = "rf\<lparr>voteGrantedCount := (voteGrantedCount rf)(currentTerm rf \<mapsto> Suc k)\<rparr>"
  have "rstate ?rf = Candidate" using won(2) by simp
  from becomeLeader_cases[OF won(6) this] obtain ni mi ls where
    "rf' = (persist (?rf\<lparr>nextIndex := ni, matchIndex := mi, lastSendAppendEntry := [], rstate := Leader,
                       rlog := rlog ?rf @ [noop_entry now ?rf]\<rparr>))\<lparr>lastSendAppendEntry := ls\<rparr>" .
  then show ?thesis using assms(2) by (simp add: undisturbed_def)
next
  case (counted k)
  then show ?thesis by (simp add: undisturbed_def)
qed simp_all

lemma undisturbed_AppendEntry:
  assumes "AppendEntry now args rf = Some (rf', reply)" and "wf_log (rlog rf)" and "app_ok args"
  shows "undisturbed rf rf'"
proof (cases "currentTerm rf \<le> aeTerm args")
  case True
  let ?rf = "AppendEntry_enter now args rf"
  have enter: "undisturbed rf ?rf" by (simp add: undisturbed_def AppendEntry_enter_def Let_def)
  from assms(2,3) True show ?thesis
  proof (cases rule: AppendEntry_body[where now = now])
    case (accept pre es)
    with assms(1) have "AppendEntry_accept args es (int pre) ?rf = Some (rf', reply)" by simp
    then obtain rf1 where st: "store_entries es (int pre) ?rf = Some rf1"
      and rf': "rf' = (let rf2 = rf1\<lparr>leader := aeLeaderId args\<rparr> in if aeLeaderCommit args > commitIndex rf2
        then signal (rf2\<lparr>commitIndex := min (aeLeaderCommit args) (lastIndex (rlog rf2))\<rparr>) else rf2)"
      unfolding AppendEntry_accept_def Let_def by (auto elim!: bindE split: if_split_asm simp: go_last_Some_iff)
    have "pre < length (rlog ?rf)" using accept(2) by simp
    from store_entries_spec[OF st this] obtain k where
      "rlog rf1 = (if k = length es then rlog ?rf else take (Suc pre + k) (rlog ?rf) @ drop k es)" .
    then have "hd (rlog rf1) = hd (rlog ?rf)" using wf_log_nonempty[OF assms(2)]
      by (auto simp: hd_append)
    note store_entries_fields(1-3)[OF st] this
    with enter have "undisturbed rf rf1" by (auto simp: undisturbed_def)
    then show ?thesis unfolding rf' Let_def by (auto simp: undisturbed_def)
  qed (use assms(1) enter in simp_all)
qed (use assms in \<open>auto simp: AppendEntry_def\<close>)

section \<open>The wake-up invariant\<close>

text \<open>While the applier waits, there is nothing for it to do.\<close>

definition awake :: "('c, 'b) Raft \<Rightarrow> bool" where
  "awake rf \<longleftrightarrow> (applier rf = Waiting \<longrightarrow>
     commitIndex rf \<le> lastApplied rf \<and> firstIndex (rlog rf) \<le> lastApplied rf)"

lemma awake_undisturbed: "undisturbed rf rf' \<Longrightarrow> awake rf \<Longrightarrow> awake rf'"
  by (auto simp: awake_def undisturbed_def)

lemma awake_applyLog:
  assumes "applyLog rf = Some (rf', msgs)" and "awake rf" and "rlog rf \<noteq> []"
  shows "awake rf'"
  using assms unfolding applyLog_def
  by (auto elim!: bindE simp: awake_def go_nth_hd split: applier_pc.splits if_split_asm list.splits)

lemma handle_undisturbed:
  assumes inv: "log_inv s" and p: "p \<in># net s"
    and h: "handle now p (s\<lparr>net := net s - {#p#}\<rparr>) = Some t"
  obtains i rf where "i < nsrv s" "srv t = (srv s)(i := rf)" "undisturbed (srv s i) rf"
proof -
  have b: "basic s" using inv by (simp add: log_inv_def)
  obtain c v where e: "ends p = (c, v)" by fastforce
  note be = basic_ends[OF b p e]
  note ne = basicD(4)[OF b be(1)] basicD(4)[OF b be(2)]
  have wf: "wf_log (rlog (srv s v))" and ok: "entries_ok p" using inv be p by (auto simp: log_inv_def)
  have "(\<exists>rf. srv t = (srv s)(c := rf) \<and> undisturbed (srv s c) rf) \<or>
        (\<exists>rf. srv t = (srv s)(v := rf) \<and> undisturbed (srv s v) rf)"
  proof (cases p)
    case (SnapGo _ _)
    then show ?thesis using h e
      by (intro disjI1 exI[of _ "srv s c"]) (auto elim!: bindE simp: put_def)
  qed (use h e ne wf ok in \<open>auto elim!: bindE simp: put_def fun_upd_def
      dest!: undisturbed_RequestVote undisturbed_RequestVote_done undisturbed_AppendEntry
        undisturbed_AppendEntry_done undisturbed_InstallSnapshot undisturbed_InstallSnapshot_done\<close>)
  with be show thesis using that by blast
qed

lemma step_awake:
  assumes inv: "log_inv s" and st: "raft_step s t" and aw: "\<forall>i < nsrv s. awake (srv s i)"
  shows "\<forall>i < nsrv t. awake (srv t i)"
proof -
  have b: "basic s" using inv by (simp add: log_inv_def)
  have ne: "rlog (srv s i) \<noteq> []" if "i < nsrv s" for i by (rule basicD(4)[OF b that])
  note n = step_evolves(1)[OF b st]
  from st obtain ev where ex: "raft_exec ev s = Some t" by (auto simp: raft_step_iff)
  have "\<exists>i rf. i < nsrv s \<and> srv t = (srv s)(i := rf) \<and> (awake (srv s i) \<longrightarrow> awake rf)
        \<or> srv t = srv s"
  proof (cases ev)
    case (Tick i now rnd)
    with ex show ?thesis by (auto elim!: bindE split: if_split_asm simp: put_def fun_upd_def
        dest!: undisturbed_ticker intro!: exI[of _ i] intro: awake_undisturbed)
  next
    case (Heartbeat i now)
    with ex show ?thesis by (auto elim!: bindE split: if_split_asm simp: put_def heatbeat_def fun_upd_def
        dest!: undisturbed_sendHeatbeat[where rf0 = "srv s i"] intro!: exI[of _ i] intro: awake_undisturbed)
  next
    case (Applier i)
    with ex ne[of i] show ?thesis by (auto elim!: bindE split: if_split_asm simp: put_def fun_upd_def
        intro!: exI[of _ i] dest: awake_applyLog)
  next
    case (Command i now c)
    with ex ne[of i] show ?thesis by (auto elim!: bindE split: if_split_asm simp: put_def fun_upd_def
        dest!: undisturbed_StartCommand intro!: exI[of _ i] intro: awake_undisturbed)
  next
    case (Compact i now index sn)
    with ex show ?thesis by (auto elim!: bindE split: if_split_asm simp: put_def fun_upd_def
        dest!: undisturbed_SnapshotService intro!: exI[of _ i] intro: awake_undisturbed)
  next
    case (Handle p now)
    with ex have p: "p \<in># net s" and h: "handle now p (s\<lparr>net := net s - {#p#}\<rparr>) = Some t"
      by (auto split: if_split_asm)
    show ?thesis by (rule handle_undisturbed[OF inv p h]) (blast intro: awake_undisturbed)
  next
    case (Lose p)
    with ex show ?thesis by (auto split: if_split_asm)
  next
    case (Restart i now rnd)
    with ex obtain rf where i: "i < nsrv s" and t: "srv t = (srv s)(i := rf)"
      and mk: "Make (nsrv s) (int i) (Checkpoint (persister (srv s i))) now rnd = Some rf"
      by (auto elim!: bindE split: if_split_asm)
    from Make_Some[of "nsrv s" "int i" "Checkpoint (persister (srv s i))" now rnd] mk
    have "applier rf = Checking" by (metis option.inject)
    then show ?thesis using i t by (intro exI[of _ i] exI[of _ rf]) (simp add: awake_def)
  qed
  then show ?thesis using aw n by auto
qed

lemma awake_reach:
  assumes "raft.reach s" and "i < nsrv s"
  shows "awake (srv s i)"
proof -
  from assms(1) have "\<forall>i < nsrv s. awake (srv s i)"
  proof (rule raft.reach_invariant)
    fix s :: "('a, 'b) cluster"
    assume "raft_init s"
    then show "\<forall>i < nsrv s. awake (srv s i)"
    proof (induction rule: raft_init.induct)
      case (1 n now rnd)
      show ?case by (simp add: awake_def boot_server)
    qed
  qed (rule step_awake[OF log_inv_reach])
  with assms(2) show ?thesis by blast
qed

end
