(* ===== verification/RaftProps.thy ===== *)
theory RaftProps
  imports RaftApply
begin

text \<open>
  The properties of Raft, each with a run or an input at which its hypotheses hold.
\<close>

section \<open>What AppendEntry leaves in the log\<close>

lemma nth_merge:
  assumes k: "k \<le> length es" and pre: "pre < length l"
    and m: "\<forall>j < k. Suc pre + j < length l \<and> same_entry (l ! (Suc pre + j)) (es ! j)"
    and l': "l' = (if k = length es then l else take (Suc pre + k) l @ drop k es)"
    and long: "k \<noteq> 0 \<or> Suc pre \<le> length l" and j: "j < length es"
  shows "Suc pre + j < length l' \<and> same_entry (l' ! (Suc pre + j)) (es ! j)"
proof (cases "j < k")
  case True
  with m l' j show ?thesis by (auto simp: nth_append)
next
  case False
  have len: "Suc pre + k \<le> length l"
  proof (cases k)
    case 0
    then show ?thesis using pre by simp
  next
    case (Suc k')
    with m have "Suc pre + k' < length l" by blast
    with Suc show ?thesis by simp
  qed
  have "k \<noteq> length es" using False j by simp
  with l' have "l' = take (Suc pre + k) l @ drop k es" by simp
  with len False j show ?thesis by (simp add: nth_append)
qed

lemma take_merge:
  assumes "l' = (if k = length es then l else take (Suc pre + k) l @ drop k es)" and "pre < length l"
    and "\<forall>j < k. Suc pre + j < length l"
  shows "take (Suc pre) l' = take (Suc pre) l"
proof (cases "k = length es")
  case False
  have "Suc pre \<le> length (take (Suc pre + k) l)" using assms(2) by simp
  with assms(1) False show ?thesis by simp
qed (use assms(1) in simp)

lemma AppendEntry_merge:
  assumes "AppendEntry now args rf = Some (rf', reply)" and "arSuccess reply"
    and "wf_log (rlog rf)" and "app_ok args"
  obtains pre es k where "pre < length (rlog rf)" "k \<le> length es"
    "es = drop (nat (firstIndex (rlog rf) + int pre - aePrevLogIndex args)) (aeEntries args)"
    "\<forall>j < k. Suc pre + j < length (rlog rf) \<and> same_entry (rlog rf ! (Suc pre + j)) (es ! j)"
    "rlog rf' = (if k = length es then rlog rf else take (Suc pre + k) (rlog rf) @ drop k es)"
    "k < length es \<longrightarrow> length (rlog rf) \<le> Suc pre + k \<or> \<not> same_entry (rlog rf ! (Suc pre + k)) (es ! k)"
    "aePrevLogIndex args < firstIndex (rlog rf) \<and> pre = 0 \<or>
       aePrevLogIndex args = firstIndex (rlog rf) + int pre \<and> eTerm (rlog rf ! pre) = aePrevLogTerm args"
    "currentTerm rf \<le> aeTerm args"
proof -
  have newer: "currentTerm rf \<le> aeTerm args"
    using assms(1,2) by (auto simp: AppendEntry_def split: if_split_asm)
  from assms(3,4) newer show thesis
  proof (cases rule: AppendEntry_body[where now = now])
    case (accept pre es)
    let ?rf = "AppendEntry_enter now args rf"
    from accept(1) assms(1) have "AppendEntry_accept args es (int pre) ?rf = Some (rf', reply)" by simp
    then obtain rf1 where st: "store_entries es (int pre) ?rf = Some rf1" and eq: "rlog rf' = rlog rf1"
      by (rule AppendEntry_accept_log)
    have pre: "pre < length (rlog ?rf)" using accept(2) by simp
    from store_entries_spec[OF st pre] show thesis
    proof (cases)
      case (1 k)
      show thesis
        by (rule that[of pre k es]) (use 1 eq accept newer in simp_all)
    qed
  qed (use assms(1,2) in auto)
qed

section \<open>A run\<close>

text \<open>
  Three servers; server 0 times out, asks for votes, gets the vote of server 1, becomes the
  leader of term 1 and has its no-op entry accepted by server 1.
\<close>

definition demo_args :: RequestVoteArgs where
  "demo_args = \<lparr>rvTerm = 1, rvCandidateId = 0, rvLastLogIndex = 0, rvLastLogTerm = 0\<rparr>"

definition demo_boot :: "(nat, nat) cluster" where
  "demo_boot = boot 3 (\<lambda>_. 0) (\<lambda>_. 0)"

definition demo_append :: "nat AppendEntryArgs" where
  "demo_append = \<lparr>aeTerm = 1, aeLeaderId = 0, aePrevLogIndex = 0, aePrevLogTerm = 0,
     aeEntries = [\<lparr>eTerm = 1, eIndex = 1, eCommand = None, eStart = 400\<rparr>], aeLeaderCommit = 0\<rparr>"

definition demo_events :: "(nat, nat) event list" where
  "demo_events =
     [Applier 2, Tick 0 400000000 0, Handle (VoteReq 0 1 demo_args) 400000000,
      Handle (VoteRep 0 1 demo_args \<lparr>rrTerm = 1, rrVoteGranted = True\<rparr>) 400000000]"

definition demo :: "(nat, nat) cluster" where
  "demo = the (run demo_events demo_boot)"

lemma demo_run: "run demo_events demo_boot = Some demo"
proof -
  have "run demo_events demo_boot \<noteq> None"
  proof -
    have "case run demo_events demo_boot of None \<Rightarrow> False | Some s \<Rightarrow> True" by code_simp
    then show ?thesis by (auto split: option.splits)
  qed
  then show ?thesis by (simp add: demo_def)
qed

lemma demo_reach: "raft.reach demo_boot" "raft.reach demo"
proof -
  show "raft.reach demo_boot"
    unfolding demo_boot_def by (intro raft.reach_init raft_init.intros)
  then show "raft.reach demo" using demo_run by (rule run_reach)
qed

lemma run_steps: "run evs s = Some t \<Longrightarrow> raft_step\<^sup>*\<^sup>* s t"
  by (induction evs arbitrary: s)
    (auto elim!: bindE intro: converse_rtranclp_into_rtranclp raft_step.intros)

lemma demo_run_steps: "raft_step\<^sup>*\<^sup>* demo_boot demo"
  using demo_run by (rule run_steps)

lemma demo_facts:
  "nsrv demo = 3" "rstate (srv demo 0) = Leader" "currentTerm (srv demo 0) = 1"
  "votedFor (srv demo 1) = 0" "currentTerm (srv demo 1) = 1" "applier (srv demo 2) = Waiting"
  "length (rlog (srv demo 0)) = 2" "nsrv demo_boot = 3" "votedFor (srv demo_boot 1) = -1"
  by code_simp+

lemma demo_packet: "AppReq 0 1 demo_append \<in># net demo"
proof -
  have "filter_mset (\<lambda>p. ends p = (0, 1)) (net demo) = {#AppReq 0 1 demo_append#}"
    by code_simp
  then have "AppReq 0 1 demo_append \<in># filter_mset (\<lambda>p. ends p = (0, 1)) (net demo)" by simp
  then show ?thesis by simp
qed

section \<open>Properties of the cluster\<close>

text \<open>
  C9. Election safety: in every reachable state of a cluster of any size, two servers that are
  leaders in the same term are the same server, whatever was delayed, reordered, lost, and
  whichever servers crashed and restarted.
\<close>

theorem election_safety:
  assumes "raft.reach s" and "i < nsrv s" and "j < nsrv s"
    and "rstate (srv s i) = Leader" and "rstate (srv s j) = Leader"
    and "currentTerm (srv s i) = currentTerm (srv s j)"
  shows "i = j"
  using assms by (rule leader_unique)

theorem election_safety_witness:
  "raft.reach demo \<and> {j. j < 3 \<and> rstate (srv demo j) = Leader \<and> currentTerm (srv demo j) = 1} = {0}"
proof
  have "j = 0" if "j < 3" "rstate (srv demo j) = Leader" "currentTerm (srv demo j) = 1" for j
    using election_safety[OF demo_reach(2), of j 0] that by (simp add: demo_facts)
  then show "{j. j < 3 \<and> rstate (srv demo j) = Leader \<and> currentTerm (srv demo j) = 1} = {0}"
    by (auto simp: demo_facts)
qed (rule demo_reach)

text \<open>
  C10. A crash loses nothing: in every reachable state a server that restarts from a checkpoint
  of its persister comes back as a follower with exactly the term, the vote, the log and the
  snapshot it had.
\<close>

theorem crash_recovery:
  assumes "raft.reach s" and "i < nsrv s"
  shows "\<exists>rf. Make (nsrv s) (int i) (Checkpoint (persister (srv s i))) now rnd = Some rf \<and>
     currentTerm rf = currentTerm (srv s i) \<and> votedFor rf = votedFor (srv s i) \<and>
     rlog rf = rlog (srv s i) \<and> rsnapshot rf = clone (rsnapshot (srv s i)) \<and> rstate rf = Follower"
proof -
  note b = basicD[OF basic_reach[OF assms(1)] assms(2)]
  obtain rf where mk: "Make (nsrv s) (int i) (Checkpoint (persister (srv s i))) now rnd = Some rf"
    by (rule Make_Some)
  from restart_evolves(3-5)[OF b(3) mk b(1,2)] mk show ?thesis by auto
qed

theorem crash_recovery_witness:
  "\<exists>rf. Make 3 (int 1) (Checkpoint (persister (srv demo 1))) 0 0 = Some rf \<and>
     currentTerm rf = 1 \<and> votedFor rf = 0 \<and> rstate rf = Follower"
  using crash_recovery[OF demo_reach(2), of 1 0 0] by (auto simp: demo_facts simp del: One_nat_def)

text \<open>
  C11. One vote per term: along every run the term of a server never decreases, and while it
  stays in a term in which it has voted, its vote does not change, also across crashes.
\<close>

theorem one_vote_per_term:
  assumes "raft.reach s" and "raft_step\<^sup>*\<^sup>* s t"
  shows "currentTerm (srv s i) \<le> currentTerm (srv t i) \<and>
     (currentTerm (srv t i) = currentTerm (srv s i) \<and> votedFor (srv s i) \<noteq> -1
      \<longrightarrow> votedFor (srv t i) = votedFor (srv s i))"
  using assms(2)
proof (induction rule: rtranclp_induct)
  case (step u t)
  have "basic u" using basic_reach raft.reach_run[OF assms(1) step(1)] by blast
  from step_evolves(2)[OF this step(2), of i] step.IH show ?case by (auto simp: evolves_def)
qed simp

theorem one_vote_per_term_witness:
  "currentTerm (srv demo_boot 1) \<le> currentTerm (srv demo 1)"
  using one_vote_per_term[OF demo_reach(1), of demo 1] demo_run_steps by blast

text \<open>
  C12. The indices of every log are consecutive, starting with the entry that stands for the
  snapshot, and every log has at least that entry.
\<close>

theorem log_indices:
  assumes "raft.reach s" and "i < nsrv s"
  shows "rlog (srv s i) \<noteq> [] \<and>
     (\<forall>k < length (rlog (srv s i)). eIndex (rlog (srv s i) ! k) = eIndex (rlog (srv s i) ! 0) + int k)"
proof -
  have wf: "wf_log (rlog (srv s i))" using log_inv_reach[OF assms(1)] assms(2) by (simp add: log_inv_def)
  then have ne: "rlog (srv s i) \<noteq> []" by (rule wf_log_nonempty)
  show ?thesis using ne wf_log_nth[OF wf] unfolding hd_conv_nth[OF ne] by blast
qed

theorem log_indices_witness:
  "eIndex (rlog (srv demo 0) ! 1) = eIndex (rlog (srv demo 0) ! 0) + 1"
proof -
  have "0 < nsrv demo" by (simp add: demo_facts)
  from log_indices[OF demo_reach(2) this] have "1 < length (rlog (srv demo 0)) \<longrightarrow>
      eIndex (rlog (srv demo 0) ! 1) = eIndex (rlog (srv demo 0) ! 0) + int 1" by blast
  then show ?thesis unfolding demo_facts(7) by simp
qed

text \<open>
  C13. The RPC handlers never access a slice out of range: in every reachable state every
  request in the network can be handled by the server it is for.
\<close>

theorem rpc_handlers_total:
  assumes "raft.reach s" and "p \<in># net s"
    and "(\<exists>c v a. p = VoteReq c v a) \<or> (\<exists>c v a. p = AppReq c v a) \<or> (\<exists>c v a. p = SnapReq c v a)"
  shows "\<exists>t. raft_exec (Handle p now) s = Some t"
proof -
  have inv: "log_inv s" by (rule log_inv_reach[OF assms(1)])
  then have b: "basic s" by (simp add: log_inv_def)
  have wf: "wf_log (rlog (srv s v))" if "ends p = (c, v)" for c v
    using inv basic_ends(2)[OF b assms(2) that] by (simp add: log_inv_def)
  have ok: "entries_ok p" using inv assms(2) by (simp add: log_inv_def)
  from assms(3) consider c v a where "p = VoteReq c v a" | c v a where "p = AppReq c v a"
    | c v a where "p = SnapReq c v a" by blast
  then show ?thesis
  proof cases
    case 1
    with RequestVote_total[OF wf_log_nonempty[OF wf], of c v now a] assms(2) show ?thesis by auto
  next
    case 2
    with AppendEntry_total[OF wf, of c v a now] ok assms(2) show ?thesis by auto
  next
    case 3
    with InstallSnapshot_total[OF wf, of c v now "gob_snapshot a"] assms(2) show ?thesis by auto
  qed
qed

theorem rpc_handlers_total_witness:
  "\<exists>t. raft_exec (Handle (AppReq 0 1 demo_append) 400000000) demo = Some t"
  using rpc_handlers_total[OF demo_reach(2) demo_packet] by blast

text \<open>
  C14. No lost wake-up: in every reachable state a server whose applier goroutine waits on the
  condition variable has nothing to apply, neither committed entries nor a newer snapshot.
\<close>

theorem no_lost_wakeup:
  assumes "raft.reach s" and "i < nsrv s" and "applier (srv s i) = Waiting"
  shows "commitIndex (srv s i) \<le> lastApplied (srv s i) \<and>
     eIndex (hd (rlog (srv s i))) \<le> lastApplied (srv s i)"
  using awake_reach[OF assms(1,2)] assms(3) by (simp add: awake_def)

theorem no_lost_wakeup_witness:
  "applier (srv demo 2) = Waiting \<and> commitIndex (srv demo 2) \<le> lastApplied (srv demo 2)"
  using no_lost_wakeup[OF demo_reach(2), of 2] by (simp add: demo_facts)

section \<open>Properties of the handlers\<close>

text \<open>
  After a successful AppendEntry the log holds every entry of the call that is not covered
  by the snapshot, at its index and with its term, and the log up to the previous entry of the
  call is untouched.
\<close>

theorem AppendEntry_stores:
  assumes "AppendEntry now args rf = Some (rf', reply)" and "arSuccess reply"
    and "wf_log (rlog rf)" and "app_ok args"
    and "k < length (aeEntries args)" and "eIndex (aeEntries args ! k) > firstIndex (rlog rf)"
  shows "\<exists>q < length (rlog rf'). same_entry (rlog rf' ! q) (aeEntries args ! k) \<and>
     int q = eIndex (aeEntries args ! k) - firstIndex (rlog rf)"
proof -
  define b p where "b = firstIndex (rlog rf)" and "p = aePrevLogIndex args"
  obtain pre m es where
    pre: "pre < length (rlog rf)" and m: "m \<le> length es"
    and es: "es = drop (nat (b + int pre - p)) (aeEntries args)"
    and eq: "\<forall>j < m. Suc pre + j < length (rlog rf) \<and> same_entry (rlog rf ! (Suc pre + j)) (es ! j)"
    and l': "rlog rf' = (if m = length es then rlog rf else take (Suc pre + m) (rlog rf) @ drop m es)"
    and stop: "m < length es \<longrightarrow> length (rlog rf) \<le> Suc pre + m \<or> \<not> same_entry (rlog rf ! (Suc pre + m)) (es ! m)"
    and pos: "p < b \<and> pre = 0 \<or> p = b + int pre \<and> eTerm (rlog rf ! pre) = aePrevLogTerm args"
    unfolding b_def p_def by (rule AppendEntry_merge[OF assms(1-4)])
  have k: "eIndex (aeEntries args ! k) = p + 1 + int k"
    using assms(4,5) consec_nth by (auto simp: app_ok_def p_def)
  define d where "d = nat (b + int pre - p)"
  have "d \<le> k" using k assms(6) pos by (auto simp: d_def b_def)
  then have j: "k - d < length es" and ej: "es ! (k - d) = aeEntries args ! k"
    using assms(5) by (auto simp: es d_def)
  have "Suc pre + (k - d) < length (rlog rf') \<and> same_entry (rlog rf' ! (Suc pre + (k - d))) (es ! (k - d))"
    by (rule nth_merge[OF m pre eq l' _ j]) (use pre in auto)
  moreover have "int (Suc pre + (k - d)) = eIndex (aeEntries args ! k) - b"
    using k pos \<open>d \<le> k\<close> by (auto simp: d_def)
  ultimately show ?thesis unfolding ej b_def by blast
qed

definition demo_log :: "nat LogEntry list" where
  "demo_log = [\<lparr>eTerm = 0, eIndex = 0, eCommand = None, eStart = 0\<rparr>,
               \<lparr>eTerm = 1, eIndex = 1, eCommand = Some 7, eStart = 0\<rparr>,
               \<lparr>eTerm = 1, eIndex = 2, eCommand = Some 8, eStart = 0\<rparr>]"

definition demo_node :: "(nat, nat) Raft" where
  "demo_node = (srv demo_boot 1)\<lparr>rlog := demo_log, currentTerm := 2, commitIndex := 2\<rparr>"

definition demo_write :: "nat AppendEntryArgs" where
  "demo_write = \<lparr>aeTerm = 2, aeLeaderId = 0, aePrevLogIndex = 1, aePrevLogTerm = 1,
     aeEntries = [\<lparr>eTerm = 2, eIndex = 2, eCommand = Some 9, eStart = 5\<rparr>], aeLeaderCommit = 2\<rparr>"

lemma demo_node_facts:
  "rlog demo_node = demo_log" "wf_log demo_log" "app_ok demo_write" "currentTerm demo_node = 2"
  "firstIndex demo_log = 0" "lastIndex demo_log = 2" "commitIndex demo_node = 2"
  "rsnapshot demo_node = Some []" "lastApplied demo_node = 0" "votedFor demo_node = -1"
  "rstate demo_node = Follower"
  by code_simp+

lemma demo_write_ok:
  "AppendEntry 0 demo_write demo_node = Some (the (AppendEntry 0 demo_write demo_node))"
  "arSuccess (snd (the (AppendEntry 0 demo_write demo_node)))"
proof -
  have "case AppendEntry 0 demo_write demo_node of None \<Rightarrow> False | Some (rf, r) \<Rightarrow> arSuccess r" by code_simp
  then show "AppendEntry 0 demo_write demo_node = Some (the (AppendEntry 0 demo_write demo_node))"
    and "arSuccess (snd (the (AppendEntry 0 demo_write demo_node)))"
    by (auto split: option.splits)
qed

theorem AppendEntry_stores_witness:
  "\<exists>q < length (rlog (fst (the (AppendEntry 0 demo_write demo_node)))).
     same_entry (rlog (fst (the (AppendEntry 0 demo_write demo_node))) ! q) (aeEntries demo_write ! 0) \<and> int q = 2"
proof -
  have "AppendEntry 0 demo_write demo_node = Some (fst (the (AppendEntry 0 demo_write demo_node)),
      snd (the (AppendEntry 0 demo_write demo_node)))" using demo_write_ok(1) by simp
  from AppendEntry_stores[OF this demo_write_ok(2), of 0] show ?thesis
    unfolding demo_node_facts(1) using demo_node_facts(2,3,5) by (simp add: demo_write_def)
qed

text \<open>
  A delayed or duplicated AppendEntry does no harm: a successful call whose entries the log
  already has (same index, same term, position by position) leaves the log as it is, so later
  entries are not lost.
\<close>

theorem AppendEntry_duplicate:
  assumes "AppendEntry now args rf = Some (rf', reply)" and "arSuccess reply"
    and "wf_log (rlog rf)" and "app_ok args"
    and "\<forall>k < length (aeEntries args). eIndex (aeEntries args ! k) > firstIndex (rlog rf) \<longrightarrow>
       (\<exists>q < length (rlog rf). same_entry (rlog rf ! q) (aeEntries args ! k))"
  shows "rlog rf' = rlog rf"
proof -
  define b p where "b = firstIndex (rlog rf)" and "p = aePrevLogIndex args"
  obtain pre m es where
    pre: "pre < length (rlog rf)" and m: "m \<le> length es"
    and es: "es = drop (nat (b + int pre - p)) (aeEntries args)"
    and eq: "\<forall>j < m. Suc pre + j < length (rlog rf) \<and> same_entry (rlog rf ! (Suc pre + j)) (es ! j)"
    and l': "rlog rf' = (if m = length es then rlog rf else take (Suc pre + m) (rlog rf) @ drop m es)"
    and stop: "m < length es \<longrightarrow> length (rlog rf) \<le> Suc pre + m \<or> \<not> same_entry (rlog rf ! (Suc pre + m)) (es ! m)"
    and pos: "p < b \<and> pre = 0 \<or> p = b + int pre \<and> eTerm (rlog rf ! pre) = aePrevLogTerm args"
    unfolding b_def p_def by (rule AppendEntry_merge[OF assms(1-4)])
  have "\<not> m < length es"
  proof
    assume lt: "m < length es"
    define d where "d = nat (b + int pre - p)"
    have k: "d + m < length (aeEntries args)" and em: "es ! m = aeEntries args ! (d + m)"
      using lt by (auto simp: es d_def)
    have idx: "eIndex (es ! m) = b + int (Suc pre + m)"
      using consec_nth[of "p + 1" "aeEntries args" "d + m"] assms(4) k pos
      by (auto simp: app_ok_def p_def em d_def)
    then obtain q where q: "q < length (rlog rf)" "same_entry (rlog rf ! q) (es ! m)"
      using assms(5) k em by (auto simp: b_def)
    have "eIndex (rlog rf ! q) = b + int q" using wf_log_nth[OF assms(3) q(1)] by (simp add: b_def)
    with idx q have "q = Suc pre + m" by simp
    with stop lt q show False by auto
  qed
  with m l' show ?thesis by simp
qed

definition demo_repeat :: "nat AppendEntryArgs" where
  "demo_repeat = demo_write\<lparr>aeEntries := [demo_log ! 2], aeLeaderCommit := 0\<rparr>"

theorem AppendEntry_duplicate_witness:
  "rlog (fst (the (AppendEntry 0 demo_repeat demo_node))) = demo_log"
proof -
  have "case AppendEntry 0 demo_repeat demo_node of None \<Rightarrow> False | Some (rf, r) \<Rightarrow> arSuccess r" by code_simp
  then obtain rf r where r: "AppendEntry 0 demo_repeat demo_node = Some (rf, r)" "arSuccess r"
    by (auto split: option.splits)
  have "rlog rf = rlog demo_node"
  proof (rule AppendEntry_duplicate[OF r])
    show "wf_log (rlog demo_node)" by (simp add: demo_node_facts)
    show "app_ok demo_repeat" by code_simp
    show "\<forall>k < length (aeEntries demo_repeat). eIndex (aeEntries demo_repeat ! k) > firstIndex (rlog demo_node) \<longrightarrow>
       (\<exists>q < length (rlog demo_node). same_entry (rlog demo_node ! q) (aeEntries demo_repeat ! k))"
      by code_simp
  qed
  with r show ?thesis by (simp add: demo_node_facts)
qed

text \<open>
  C15. A leader commits only what a majority has: when \<open>updateCommitIndex\<close> moves the commit
  index, it moves it forward to an entry of the leader's own term that the leader and the peers
  with a sufficient \<open>matchIndex\<close>, together more than half of the cluster, hold.
\<close>

theorem commit_needs_majority:
  assumes "updateCommitIndex now idx rf = Some (rf', sp)" and "me rf = int i" and "i < npeers rf"
    and "commitIndex rf' \<noteq> commitIndex rf"
  shows "commitIndex rf < commitIndex rf' \<and>
     (\<exists>e \<in> set (rlog rf). eIndex e = commitIndex rf' \<and> eTerm e = currentTerm rf) \<and>
     2 * card {p. p < npeers rf \<and> (p = i \<or> matchIndex rf ! p \<ge> commitIndex rf')} > npeers rf"
proof -
  from assms(1,4) obtain k where "updateCommit_loop now k rf = Some (rf', sp)"
    by (auto simp: updateCommitIndex_def Let_def elim!: bindE split: if_split_asm)
  then show ?thesis
  proof (cases rule: updateCommit_loop_cases)
    case (commit j e count)
    from commit(7) have c: "commitIndex rf' = eIndex e" by (rule sendHeatbeat_frame) simp
    from commit(2) have "e \<in> set (rlog rf)" by (auto simp: go_simps)
    moreover have "count = card {p. p < npeers rf \<and> (p = i \<or> matchIndex rf ! p \<ge> eIndex e)}"
      by (rule acknowledged[OF commit(4) assms(2,3)])
    ultimately show ?thesis using commit(3,5,6) c by auto
  qed (use assms(4) in simp)
qed

definition demo_leader :: "(nat, nat) Raft" where
  "demo_leader = (srv demo 0)\<lparr>matchIndex := [0, 1, 0], nextIndex := [1, 2, 2]\<rparr>"

theorem commit_needs_majority_witness:
  "\<exists>rf' sp. updateCommitIndex 0 1 demo_leader = Some (rf', sp) \<and> commitIndex demo_leader < commitIndex rf'"
proof -
  have "case updateCommitIndex 0 1 demo_leader of None \<Rightarrow> False
        | Some (rf', sp) \<Rightarrow> commitIndex rf' \<noteq> commitIndex demo_leader" by code_simp
  then obtain rf' sp where r: "updateCommitIndex 0 1 demo_leader = Some (rf', sp)"
    "commitIndex rf' \<noteq> commitIndex demo_leader" by (auto split: option.splits)
  have "me demo_leader = int 0" "0 < npeers demo_leader" by code_simp+
  from commit_needs_majority[OF r(1) this r(2)] r(1) show ?thesis by blast
qed

text \<open>
  The batch that the applier sends is exactly what the service is owed: the snapshot when
  the applier is behind the start of the log, then the entries after what was applied up to the
  commit index, each once and in order; \<open>lastApplied\<close> then equals the commit index.
\<close>

theorem applier_batch:
  assumes "wf_log (rlog rf)" and "commitIndex rf \<le> lastIndex (rlog rf)"
    and "firstIndex (rlog rf) \<le> lastApplied rf \<or> rsnapshot rf \<noteq> None"
  shows "applyLog_batch rf = Some (rf\<lparr>lastApplied := commitIndex rf\<rparr>,
     (if lastApplied rf < firstIndex (rlog rf)
      then [SnapshotMsg (the (rsnapshot rf)) (eTerm (hd (rlog rf))) (firstIndex (rlog rf))] else []) @
     map (\<lambda>e. CommandMsg (eCommand e) (eIndex e))
       (filter (\<lambda>e. max (lastApplied rf) (firstIndex (rlog rf)) < eIndex e \<and> eIndex e \<le> commitIndex rf)
          (rlog rf)))"
  using applyLog_batch_eq[OF assms] by (auto simp: committed_after_def max_def)

theorem applier_batch_witness:
  "snd (the (applyLog_batch demo_node)) = [CommandMsg (Some 7) 1, CommandMsg (Some 8) 2]"
proof -
  have "wf_log (rlog demo_node)" "commitIndex demo_node \<le> lastIndex (rlog demo_node)"
    "firstIndex (rlog demo_node) \<le> lastApplied demo_node \<or> rsnapshot demo_node \<noteq> None"
    by (simp_all add: demo_node_facts)
  from applier_batch[OF this] show ?thesis by (simp add: demo_node_facts demo_log_def)
qed

text \<open>
  When a vote is granted: the candidate's term is not old, its log is at least as
  up-to-date as the voter's (last term first, then last index), and in that term the voter has
  not voted for anyone else; and in all these cases it is granted.
\<close>

theorem vote_granted_iff:
  assumes "rlog rf \<noteq> []"
  shows "\<exists>rf' reply. RequestVote now args rf = Some (rf', reply) \<and>
     (rrVoteGranted reply \<longleftrightarrow>
        currentTerm rf \<le> rvTerm args \<and>
        (eTerm (last (rlog rf)) < rvLastLogTerm args \<or>
         eTerm (last (rlog rf)) = rvLastLogTerm args \<and> lastIndex (rlog rf) \<le> rvLastLogIndex args) \<and>
        (currentTerm rf < rvTerm args \<or> votedFor rf = -1 \<or> votedFor rf = rvCandidateId args))"
proof -
  have vote: "votedFor (checkAndMaySetTermAndState t rf) = -1" if "currentTerm rf < t" for t
    using that by (simp add: checkAndMaySetTermAndState_def Let_def)
  show ?thesis
    using assms vote[of "rvTerm args"]
    by (auto simp: RequestVote_def getLastLogIndexAndTerm_def Let_def go_last_eq)
qed

theorem vote_granted_iff_witness:
  "\<exists>rf' reply. RequestVote 0 \<lparr>rvTerm = 2, rvCandidateId = 0, rvLastLogIndex = 2, rvLastLogTerm = 1\<rparr> demo_node
     = Some (rf', reply) \<and> rrVoteGranted reply"
proof -
  have "rlog demo_node \<noteq> []" by (simp add: demo_node_facts demo_log_def)
  from vote_granted_iff[OF this, of 0 "\<lparr>rvTerm = 2, rvCandidateId = 0, rvLastLogIndex = 2, rvLastLogTerm = 1\<rparr>"]
  show ?thesis by (auto simp: demo_node_facts demo_log_def)
qed

text \<open>
  The service's \<open>Snapshot(index, data)\<close> at a committed index inside the log drops exactly
  the entries before \<open>index\<close>, keeps the entry at \<open>index\<close> as the new start of the log, and puts
  log and snapshot on storage together; every other call changes nothing.
\<close>

theorem snapshot_trims:
  assumes "wf_log (rlog rf)" and "SnapshotService now idx sn rf = Some (rf', sp)"
  shows "if idx \<le> commitIndex rf \<and> idx \<le> lastIndex (rlog rf) \<and>
            (firstIndex (rlog rf) < idx \<or> rsnapshot rf = None \<and> firstIndex (rlog rf) = idx)
         then rlog rf' = filter (\<lambda>e. idx \<le> eIndex e) (rlog rf) \<and> rsnapshot rf' = sn \<and> durable rf'
         else rf' = rf \<and> sp = []"
proof -
  define l b where "l = rlog rf" and "b = firstIndex l"
  have cb: "consec b l" and ne: "l \<noteq> []" and last: "lastIndex l = b + int (length l) - 1"
    using assms(1) wf_log_last by (auto simp: wf_log_def l_def b_def)
  have ne': "rlog rf \<noteq> []" using ne by (simp add: l_def)
  show ?thesis
  proof (cases "idx \<le> commitIndex rf \<and> idx \<le> lastIndex l \<and> \<not> (rsnapshot rf \<noteq> None \<and> idx \<le> b)")
    case False
    then have "SnapshotService now idx sn rf = Some (rf, [])"
      using ne' by (auto simp: SnapshotService_def go_nth_hd go_last_eq l_def b_def)
    with assms(2) False show ?thesis by (auto simp: l_def b_def)
  next
    case True
    then have min: "min (idx - b) (int (length l) - 1) = idx - b" using last by simp
    have "SnapshotService now idx sn rf = go_from l (idx - b) \<bind> (\<lambda>l'.
        let rf1 = signal (persist (rf\<lparr>rsnapshot := sn, rlog := l'\<rparr>)) in
        if rstate rf1 = Leader then sendHeatbeat now True rf1 else Some (rf1, []))"
      using True ne' min by (auto simp: SnapshotService_def go_nth_hd go_last_eq Let_def l_def b_def)
    with assms(2) obtain l' where gf: "go_from l (idx - b) = Some l'" and
      r: "(let rf1 = signal (persist (rf\<lparr>rsnapshot := sn, rlog := l'\<rparr>)) in
        if rstate rf1 = Leader then sendHeatbeat now True rf1 else Some (rf1, [])) = Some (rf', sp)"
      by (auto elim!: bindE)
    from gf have i: "b \<le> idx" and l': "l' = drop (nat (idx - b)) l" by (auto simp: go_simps)
    have "filter (\<lambda>e. idx - 1 < eIndex e \<and> eIndex e \<le> lastIndex l) l = l'"
      using consec_filter[OF cb, of "idx - 1" "lastIndex l"] i last by (simp add: l' le_nat_iff)
    moreover have "\<forall>e \<in> set l. eIndex e \<le> lastIndex l"
      using consec_nth[OF cb] last by (auto simp: in_set_conv_nth)
    then have "filter (\<lambda>e. idx \<le> eIndex e) l =
        filter (\<lambda>e. idx - 1 < eIndex e \<and> eIndex e \<le> lastIndex l) l"
      by (intro filter_cong) auto
    ultimately have f: "filter (\<lambda>e. idx \<le> eIndex e) l = l'" by simp
    have "l' \<noteq> []" using gf True last by (auto simp: go_simps)
    have "rlog rf' = l' \<and> rsnapshot rf' = sn \<and> durable rf'"
    proof (cases "rstate rf = Leader")
      case True
      with r have "sendHeatbeat now True (signal (persist (rf\<lparr>rsnapshot := sn, rlog := l'\<rparr>))) = Some (rf', sp)"
        by simp
      then show ?thesis by (rule sendHeatbeat_frame) (simp add: \<open>l' \<noteq> []\<close>)
    next
      case False
      with r show ?thesis using \<open>l' \<noteq> []\<close> by auto
    qed
    with True i f show ?thesis by (auto simp: l_def b_def)
  qed
qed

theorem snapshot_trims_witness:
  "\<exists>rf' sp. SnapshotService 0 1 (Some [4]) demo_node = Some (rf', sp) \<and> rlog rf' = drop 1 demo_log"
proof -
  have "case SnapshotService 0 1 (Some [4]) demo_node of None \<Rightarrow> False | Some _ \<Rightarrow> True" by code_simp
  then obtain rf' sp where r: "SnapshotService 0 1 (Some [4]) demo_node = Some (rf', sp)"
    by (auto split: option.splits)
  have "wf_log (rlog demo_node)" by (simp add: demo_node_facts)
  from snapshot_trims[OF this r] r show ?thesis by (auto simp: demo_node_facts demo_log_def)
qed

text \<open>
  An accepted InstallSnapshot leaves a log that starts at the last included entry, with its
  index and term, and the snapshot data, both on storage, and the commit index at least there.
  The entries after it are kept if the log has the included entry itself, and dropped otherwise.
\<close>

theorem install_snapshot:
  assumes "wf_log (rlog rf)" and "InstallSnapshot now args rf = Some (rf', reply)" and "irSuccess reply"
  defines "idx \<equiv> LastIncludeLogIndex (isSnapshot args)" and "t \<equiv> LastIncludeLogTerm (isSnapshot args)"
  shows "firstIndex (rlog rf) < idx \<and> firstIndex (rlog rf') = idx \<and> eTerm (hd (rlog rf')) = t \<and>
     rsnapshot rf' = snData (isSnapshot args) \<and> durable rf' \<and>
     commitIndex rf' = max (commitIndex rf) idx \<and>
     rlog rf' = (if \<exists>e \<in> set (butlast (rlog rf)). eIndex e = idx \<and> eTerm e = t
                 then filter (\<lambda>e. idx \<le> eIndex e) (rlog rf)
                 else [\<lparr>eTerm = t, eIndex = idx, eCommand = None, eStart = 0\<rparr>])"
proof -
  define l b rf1 where "l = rlog rf" and "b = firstIndex l"
    and "rf1 = checkAndMaySetTermAndState (isTerm args) (rf\<lparr>lastRecivedTime := now\<rparr>)"
  have cb: "consec b l" and ne: "l \<noteq> []" and last: "lastIndex l = b + int (length l) - 1"
    using assms(1) wf_log_last by (auto simp: wf_log_def l_def b_def)
  have l1: "rlog rf1 = l" "commitIndex rf1 = commitIndex rf" by (simp_all add: rf1_def l_def)
  note body = assms(2,3)[unfolded InstallSnapshot_def Let_def, folded rf1_def idx_def t_def, unfolded l1]
  have gt: "b < idx" using body ne by (auto simp: go_nth_hd b_def split: if_split_asm)
  define k where "k = nat (idx - b)"
  have match: "(\<exists>e \<in> set (butlast l). eIndex e = idx \<and> eTerm e = t) \<longleftrightarrow>
      idx < lastIndex l \<and> eTerm (l ! k) = t"
  proof
    assume "\<exists>e \<in> set (butlast l). eIndex e = idx \<and> eTerm e = t"
    then obtain j where j: "j < length l - 1" "eIndex (l ! j) = idx" "eTerm (l ! j) = t"
      by (auto simp: in_set_conv_nth nth_butlast)
    with consec_nth[OF cb, of j] have "k = j" "idx < lastIndex l" by (auto simp: k_def last)
    with j show "idx < lastIndex l \<and> eTerm (l ! k) = t" by simp
  next
    assume "idx < lastIndex l \<and> eTerm (l ! k) = t"
    moreover from this have "k < length (butlast l)" using gt last by (auto simp: k_def nat_less_iff of_nat_diff)
    moreover from this have "butlast l ! k = l ! k" by (simp add: nth_butlast)
    moreover have "eIndex (l ! k) = idx"
      using consec_nth[OF cb, of k] \<open>k < length (butlast l)\<close> gt by (auto simp: k_def)
    ultimately show "\<exists>e \<in> set (butlast l). eIndex e = idx \<and> eTerm e = t" by (metis nth_mem)
  qed
  show ?thesis
  proof (cases "idx < lastIndex l \<and> eTerm (l ! k) = t")
    case True
    then have kl: "k < length l" using gt last by (simp add: k_def nat_less_iff)
    have gk: "go_nth l (idx - b) = Some (l ! k)" "go_from l (idx - b) = Some (drop k l)"
      "go_nth (drop k l) 0 = Some (l ! k)" "eIndex (l ! k) = idx" "hd (drop k l) = l ! k"
      using gt kl consec_nth[OF cb kl] by (auto simp: go_simps k_def hd_drop_conv_nth)
    have "\<forall>e \<in> set l. eIndex e \<le> lastIndex l"
      using consec_nth[OF cb] last by (auto simp: in_set_conv_nth)
    then have "filter (\<lambda>e. idx \<le> eIndex e) l = filter (\<lambda>e. idx - 1 < eIndex e \<and> eIndex e \<le> lastIndex l) l"
      by (intro filter_cong) auto
    also have "\<dots> = drop k l" using consec_filter[OF cb, of "idx - 1" "lastIndex l"] gt last
      by (simp add: k_def le_nat_iff)
    finally have f: "filter (\<lambda>e. idx \<le> eIndex e) l = drop k l" .
    from body True gt ne gk have "rf' = signal (persist (rf1\<lparr>rlog := drop k l,
        rsnapshot := snData (isSnapshot args), leader := isLeaderId args,
        commitIndex := max (commitIndex rf) idx\<rparr>))"
      by (auto simp: go_nth_hd go_last_eq b_def split: if_split_asm)
    moreover have "drop k l \<noteq> []" using kl by simp
    ultimately show ?thesis using True match gt gk f by (simp flip: l_def b_def)
  next
    case False
    have reset: "idx \<ge> lastIndex l \<or> go_nth l (idx - b) = Some (l ! k) \<and> eTerm (l ! k) \<noteq> t"
      using False gt last by (auto simp: go_simps k_def)
    from body gt ne reset have "rf' = signal (persist (rf1\<lparr>rlog := [\<lparr>eTerm = t, eIndex = idx,
        eCommand = None, eStart = 0\<rparr>], commitIndex := max (commitIndex rf) idx,
        rsnapshot := snData (isSnapshot args)\<rparr>))"
      by (auto simp: go_nth_hd go_last_eq b_def split: if_split_asm)
    then show ?thesis unfolding l_def[symmetric] b_def[symmetric] match using False gt by auto
  qed
qed

definition demo_install :: "nat InstallSnapshotArgs" where
  "demo_install = \<lparr>isTerm = 2, isLeaderId = 0,
     isSnapshot = \<lparr>LastIncludeLogIndex = 1, LastIncludeLogTerm = 1, snData = Some [3]\<rparr>\<rparr>"

theorem install_snapshot_witness:
  "\<exists>rf' reply. InstallSnapshot 0 demo_install demo_node = Some (rf', reply) \<and> rlog rf' = drop 1 demo_log"
proof -
  have "case InstallSnapshot 0 demo_install demo_node of None \<Rightarrow> False | Some (rf, r) \<Rightarrow> irSuccess r" by code_simp
  then obtain rf' r where r: "InstallSnapshot 0 demo_install demo_node = Some (rf', r)" "irSuccess r"
    by (auto split: option.splits)
  have "wf_log (rlog demo_node)" by (simp add: demo_node_facts)
  from install_snapshot[OF this r] r show ?thesis
    by (auto simp: demo_node_facts demo_log_def demo_install_def)
qed

end
