(* ===== verification/RaftAgree.thy ===== *)
theory RaftAgree
  imports RaftSafety RaftProps
begin

text \<open>
  What the safety invariant means for the users of Raft: logs match, committed entries are the
  same everywhere and at all times, later leaders have them, and the servers hand the same commands
  to their services.
\<close>

section \<open>What is handed to the service\<close>

text \<open>The messages the applier still has to send.\<close>

definition outbox :: "('c, 'b) Raft \<Rightarrow> ('c, 'b) ApplyMsg list" where
  "outbox rf = (case applier rf of Sending ms \<Rightarrow> ms | _ \<Rightarrow> [])"

lemma outbox_cong: "applier rf' = applier rf \<Longrightarrow> outbox rf' = outbox rf"
  by (simp add: outbox_def)

lemma outbox_simps [simp]:
  "outbox (signal rf) = outbox rf" "outbox (persist rf) = outbox rf"
  "outbox (checkAndMaySetTermAndState T rf) = outbox rf"
  "outbox (rf\<lparr>rlog := l\<rparr>) = outbox rf" "outbox (rf\<lparr>commitIndex := x\<rparr>) = outbox rf"
  "outbox (rf\<lparr>lastRecivedTime := x\<rparr>) = outbox rf" "outbox (rf\<lparr>votedFor := x\<rparr>) = outbox rf"
  "outbox (rf\<lparr>rstate := st\<rparr>) = outbox rf" "outbox (rf\<lparr>leader := x\<rparr>) = outbox rf"
  "outbox (rf\<lparr>nextIndex := xs\<rparr>) = outbox rf" "outbox (rf\<lparr>matchIndex := xs\<rparr>) = outbox rf"
  "outbox (rf\<lparr>lastSendAppendEntry := xs\<rparr>) = outbox rf" "outbox (rf\<lparr>rsnapshot := d\<rparr>) = outbox rf"
  "outbox (rf\<lparr>currentTerm := x\<rparr>) = outbox rf" "outbox (rf\<lparr>electionTimeout := x\<rparr>) = outbox rf"
  "outbox (rf\<lparr>voteGrantedCount := f\<rparr>) = outbox rf"
  by (simp_all add: outbox_def signal_def)

lemma outbox_sendHeatbeat:
  assumes "sendHeatbeat now force rf = Some (rf', sp)"
  shows "outbox rf' = outbox rf"
  using assms by (rule sendHeatbeat_frame) simp

lemma outbox_updateCommitIndex:
  assumes "updateCommitIndex now idx rf = Some (rf', sp)"
  shows "outbox rf' = outbox rf"
proof -
  have "outbox rf' = outbox rf" if "updateCommit_loop now i rf = Some (rf', sp)" for i
    using that by (cases rule: updateCommit_loop_cases) (auto dest: outbox_sendHeatbeat)
  with assms show ?thesis
    by (auto simp: updateCommitIndex_def Let_def elim!: bindE split: if_split_asm)
qed

lemma outbox_local:
  "ticker now rnd rf = Some (rf', sp) \<Longrightarrow> outbox rf' = outbox rf"
  "heatbeat now rf = Some (rf', sp) \<Longrightarrow> outbox rf' = outbox rf"
  "StartCommand now c rf = Some (rf', sp, r) \<Longrightarrow> outbox rf' = outbox rf"
  "SnapshotService now idx sn rf = Some (rf', sp) \<Longrightarrow> outbox rf' = outbox rf"
proof -
  show "ticker now rnd rf = Some (rf', sp) \<Longrightarrow> outbox rf' = outbox rf" by (erule ticker_cases) simp_all
  show "heatbeat now rf = Some (rf', sp) \<Longrightarrow> outbox rf' = outbox rf"
    by (auto simp: heatbeat_def split: if_split_asm dest: outbox_sendHeatbeat)
  show "StartCommand now c rf = Some (rf', sp, r) \<Longrightarrow> outbox rf' = outbox rf"
    by (erule StartCommand_cases) (auto dest: outbox_sendHeatbeat)
  show "SnapshotService now idx sn rf = Some (rf', sp) \<Longrightarrow> outbox rf' = outbox rf"
    by (erule SnapshotService_cases) (auto split: if_split_asm dest: outbox_sendHeatbeat)
qed

lemma outbox_AppendEntry_accept:
  assumes "AppendEntry_accept a es p rf = Some (rf', reply)"
  shows "outbox rf' = outbox rf"
proof -
  from assms obtain rf1 where st: "store_entries es p rf = Some rf1" and "outbox rf' = outbox rf1"
    unfolding AppendEntry_accept_def Let_def by (auto elim!: bindE split: if_split_asm)
  with outbox_cong[OF store_entries_fields(1)[OF st]] show ?thesis by simp
qed

lemma outbox_becomeLeader:
  assumes "becomeLeader now rf = Some (rf', sp)" and "rstate rf = Candidate"
  shows "outbox rf' = outbox rf"
proof -
  from assms obtain ni mi ls where
    "rf' = (persist (rf\<lparr>nextIndex := ni, matchIndex := mi, lastSendAppendEntry := [], rstate := Leader,
                       rlog := rlog rf @ [noop_entry now rf]\<rparr>))\<lparr>lastSendAppendEntry := ls\<rparr>"
    by (rule becomeLeader_cases)
  then show ?thesis by simp
qed

lemma outbox_rpc:
  "RequestVote now va rf = Some (rf', vr) \<Longrightarrow> outbox rf' = outbox rf"
  "RequestVote_done now va vr rf = Some (rf', sp) \<Longrightarrow> outbox rf' = outbox rf"
  "AppendEntry now a rf = Some (rf', reply) \<Longrightarrow> outbox rf' = outbox rf"
  "AppendEntry_done now p a reply rf = Some (rf', sp) \<Longrightarrow> outbox rf' = outbox rf"
  "InstallSnapshot now ia rf = Some (rf', ir) \<Longrightarrow> outbox rf' = outbox rf"
  "InstallSnapshot_done now p ia ir rf = Some (rf', sp) \<Longrightarrow> outbox rf' = outbox rf"
proof -
  show "RequestVote now va rf = Some (rf', vr) \<Longrightarrow> outbox rf' = outbox rf"
    unfolding RequestVote_def Let_def by (auto elim!: bindE split: if_split_asm)
  show "RequestVote_done now va vr rf = Some (rf', sp) \<Longrightarrow> outbox rf' = outbox rf"
    by (erule RequestVote_done_cases) (auto dest: outbox_becomeLeader)
  show "AppendEntry now a rf = Some (rf', reply) \<Longrightarrow> outbox rf' = outbox rf"
    unfolding AppendEntry_def Let_def
    by (auto elim!: bindE split: if_split_asm dest!: outbox_AppendEntry_accept)
  show "AppendEntry_done now p a reply rf = Some (rf', sp) \<Longrightarrow> outbox rf' = outbox rf"
    unfolding AppendEntry_done_def Let_def
    by (auto elim!: bindE split: if_split_asm dest!: outbox_updateCommitIndex)
  show "InstallSnapshot now ia rf = Some (rf', ir) \<Longrightarrow> outbox rf' = outbox rf"
    unfolding InstallSnapshot_def Let_def by (auto elim!: bindE split: if_split_asm)
  show "InstallSnapshot_done now p ia ir rf = Some (rf', sp) \<Longrightarrow> outbox rf' = outbox rf"
    unfolding InstallSnapshot_done_def Let_def
    by (auto elim!: bindE split: if_split_asm dest!: outbox_sendHeatbeat)
qed

text \<open>All messages of a server that have been handed over or will be.\<close>

definition told :: "('c, 'b) cluster \<Rightarrow> nat \<Rightarrow> ('c, 'b) ApplyMsg set" where
  "told s j = set (delivered s j) \<union> set (outbox (srv s j))"

lemma told_put:
  "outbox rf = outbox (srv s i) \<Longrightarrow> told (put i rf M s) j = told s j"
  "outbox rf = outbox (srv s i) \<Longrightarrow> told (put i rf M (s\<lparr>net := N\<rparr>)) j = told s j"
  by (simp_all add: told_def put_def)

lemma told_handle:
  assumes "handle now p (s\<lparr>net := N\<rparr>) = Some t"
  shows "told t j = told s j"
  using assms by (cases p) (auto elim!: bindE intro!: told_put(2) intro: outbox_rpc)

lemma applyLog_outbox:
  assumes "applyLog rf = Some (rf', ms)"
  shows "set ms \<union> set (outbox rf') \<subseteq> set (outbox rf) \<or>
    ms = [] \<and> (\<exists>rf1. applyLog_batch rf = Some (rf1, outbox rf'))"
  using assms unfolding applyLog_def
  by (auto elim!: bindE simp: outbox_def split: applier_pc.splits if_split_asm list.splits)

lemma told_step:
  assumes "raft_step s t" and "m \<in> told t j"
  shows "m \<in> told s j \<or> j < nsrv s \<and> (\<exists>rf1 ms. applyLog_batch (srv s j) = Some (rf1, ms) \<and> m \<in> set ms)"
proof -
  from assms(1) obtain ev where ex: "raft_exec ev s = Some t" by (auto simp: raft_step_iff)
  have eq: ?thesis if "told t j = told s j" using that assms(2) by simp
  show ?thesis
  proof (cases ev)
    case (Applier i)
    with ex obtain rf ms where i: "i < nsrv s" and h: "applyLog (srv s i) = Some (rf, ms)"
      and t: "srv t = (srv s)(i := rf)" "delivered t = (delivered s)(i := delivered s i @ ms)"
      by (auto elim!: bindE split: if_split_asm simp: put_def)
    show ?thesis
    proof (cases "j = i")
      case True
      with assms(2) t have "m \<in> set (delivered s i) \<or> m \<in> set ms \<union> set (outbox rf)" by (auto simp: told_def)
      with applyLog_outbox[OF h] i True show ?thesis by (auto simp: told_def)
    next
      case False
      with t eq show ?thesis by (simp add: told_def)
    qed
  next
    case (Handle p now)
    with ex have "handle now p (s\<lparr>net := net s - {#p#}\<rparr>) = Some t" by (simp split: if_split_asm)
    from eq[OF told_handle[OF this]] show ?thesis .
  next
    case (Lose p)
    with ex have "t = s\<lparr>net := net s - {#p#}\<rparr>" by (simp split: if_split_asm)
    then show ?thesis by (intro eq) (simp add: told_def)
  next
    case (Restart i now rnd)
    with ex obtain rf where
      mk: "Make (nsrv s) (int i) (Checkpoint (persister (srv s i))) now rnd = Some rf"
      and t: "srv t = (srv s)(i := rf)" "delivered t = (delivered s)(i := [])"
      by (auto elim!: bindE split: if_split_asm)
    from Make_Some[of "nsrv s" "int i" "Checkpoint (persister (srv s i))" now rnd] mk
    have "applier rf = Checking" by (metis option.inject)
    with t assms(2) show ?thesis by (auto simp: told_def outbox_def split: if_split_asm)
  qed (use ex in \<open>auto elim!: bindE split: if_split_asm intro!: eq told_put(1) intro: outbox_local\<close>)
qed

lemma apply_loop_entries:
  assumes "apply_loop l i n = Some ms" and "CommandMsg c k \<in> set ms"
  shows "\<exists>p. i \<le> int p \<and> int p < i + int n \<and> p < length l \<and> eIndex (l ! p) = k \<and> eCommand (l ! p) = c"
  using assms
proof (induction n arbitrary: i ms)
  case (Suc n)
  from Suc.prems(1) obtain e ms' where e: "go_nth l i = Some e" and r: "apply_loop l (i + 1) n = Some ms'"
    and ms: "ms = CommandMsg (eCommand e) (eIndex e) # ms'" by (auto elim!: bindE)
  show ?case
  proof (cases "CommandMsg c k \<in> set ms'")
    case True
    from Suc.IH[OF r True] show ?thesis by force
  next
    case False
    with Suc.prems(2) ms e show ?thesis by (auto simp: go_simps intro!: exI[of _ "nat i"])
  qed
qed simp

text \<open>The applier takes the committed part of the log.\<close>

lemma batch_entries:
  fixes rf :: "('c, 'b) Raft"
  assumes "applyLog_batch rf = Some (rf1, ms)" and "CommandMsg c k \<in> set ms"
    and wf: "wf_log (rlog rf)"
  obtains p where "p < length (rlog rf)" "eIndex (rlog rf ! p) = k" "eCommand (rlog rf ! p) = c"
    "k \<le> commitIndex rf"
proof -
  let ?b = "firstIndex (rlog rf)"
  have first: "go_nth (rlog rf) 0 = Some (hd (rlog rf))" by (rule go_nth_hd[OF wf_log_nonempty[OF wf]])
  let ?loop = "\<lambda>la. apply_loop (rlog rf) (la - ?b + 1) (nat (commitIndex rf - la)) :: ('c, 'b) ApplyMsg list option"
  from assms(1,2) have "\<exists>ms'. (?loop ?b = Some ms' \<or> ?loop (lastApplied rf) = Some ms') \<and> CommandMsg c k \<in> set ms'"
    unfolding applyLog_batch_def Let_def first
    by (auto elim!: bindE split: option.splits if_split_asm)
  then obtain la ms' where "?loop la = Some ms'" and "CommandMsg c k \<in> set ms'" by blast
  from apply_loop_entries[OF this] obtain p where
    p: "int p \<le> commitIndex rf - ?b" "p < length (rlog rf)" "eIndex (rlog rf ! p) = k" "eCommand (rlog rf ! p) = c"
    by (force split: if_split_asm)
  with wf_log_nth[OF wf p(2)] show thesis by (intro that[of p]) simp_all
qed

section \<open>Agreement\<close>

text \<open>Command \<open>c\<close> is committed at index \<open>k\<close>.\<close>

definition agreed :: "nat \<Rightarrow> 'c ghost \<Rightarrow> int \<Rightarrow> 'c option \<Rightarrow> bool" where
  "agreed n g k c \<longleftrightarrow> (\<exists>T x T0. committed n g T x \<and> fst x = k \<and> tree g x = Some (T0, c))"

lemma agreed_unique:
  assumes h: "hist_ok n g" and "agreed n g k c" and "agreed n g k d"
  shows "c = d"
proof -
  from assms(2) obtain T x T0 where x: "committed n g T x" "fst x = k" "tree g x = Some (T0, c)"
    by (auto simp: agreed_def)
  from assms(3) obtain T' y T1 where y: "committed n g T' y" "fst y = k" "tree g y = Some (T1, d)"
    by (auto simp: agreed_def)
  from committed_linear[OF h x(1) y(1)] x(2) y(2) have "x = y"
    using anc_same[of "tree g" x y] anc_same[of "tree g" y x] by auto
  with x(3) y(3) show ?thesis by simp
qed

lemma agreed_extends:
  assumes "extends g g'" and "agreed n g k c"
  shows "agreed n g' k c"
proof -
  from assms(2) obtain T x T0 where x: "committed n g T x" "fst x = k" "tree g x = Some (T0, c)"
    by (auto simp: agreed_def)
  from extends_committed[OF assms(1) x(1)] map_leD[OF extendsD(1)[OF assms(1)] x(3)] x(2)
  show ?thesis unfolding agreed_def by blast
qed

text \<open>Every entry of a log up to the commit index is committed.\<close>

lemma committed_entry:
  assumes sf: "safe s g" and i: "i < nsrv s" and p: "p < length (rlog (srv s i))"
    and c: "eIndex (rlog (srv s i) ! p) \<le> commitIndex (srv s i)"
  shows "committed (nsrv s) g (currentTerm (srv s i)) (enode (rlog (srv s i) ! p))"
proof -
  note so = server_okD[OF safeD(5)[OF sf i]]
  from so(4) obtain x where x: "fst x = commitIndex (srv s i)" "anc (tree g) x (tip (rlog (srv s i)))"
    "committed (nsrv s) g (currentTerm (srv s i)) x" by (auto simp: commit_ok_def)
  from anc_linear[OF log_path_anc[OF so(1) p] x(2)] x(1) c
  have "anc (tree g) (enode (rlog (srv s i) ! p)) x" by simp
  with committed_anc[OF x(3)] safeD(8)[OF sf] show ?thesis by blast
qed

lemma agreed_entry:
  assumes sf: "safe s g" and i: "i < nsrv s" and p: "p < length (rlog (srv s i))"
    and c: "eIndex (rlog (srv s i) ! p) \<le> commitIndex (srv s i)"
    and real: "0 < p \<or> eCommand (rlog (srv s i) ! p) \<noteq> None"
  shows "agreed (nsrv s) g (eIndex (rlog (srv s i) ! p)) (eCommand (rlog (srv s i) ! p))"
proof -
  note so = server_okD[OF safeD(5)[OF sf i]]
  let ?e = "rlog (srv s i) ! p"
  have "\<exists>T0. tree g (enode ?e) = Some (T0, eCommand ?e)"
  proof (cases "p = 0")
    case True
    with so(1) real show ?thesis
      by (auto simp: log_path_def first_ok_def hd_conv_nth)
  next
    case False
    with log_path_cmd[OF so(1) _ p] show ?thesis by simp
  qed
  with committed_entry[OF sf i p c] show ?thesis unfolding agreed_def by (metis enode_simps(1))
qed

definition told_ok :: "('c, 'b) cluster \<Rightarrow> 'c ghost \<Rightarrow> bool" where
  "told_ok s g \<longleftrightarrow> (\<forall>j < nsrv s. \<forall>c k. CommandMsg (Some c) k \<in> told s j \<longrightarrow> agreed (nsrv s) g k (Some c))"

lemma told_ok_step:
  assumes sf: "safe s g" and ok: "told_ok s g" and st: "raft_step s t"
  shows "\<exists>g'. safe t g' \<and> told_ok t g' \<and> extends g g'"
proof -
  from safe_step[OF sf st] obtain g' where g': "safe t g'" "extends g g'" by blast
  have n: "nsrv t = nsrv s" by (rule step_evolves(1)[OF safeD(2)[OF sf] st])
  have "agreed (nsrv s) g k (Some c)" if j: "j < nsrv s" and m: "CommandMsg (Some c) k \<in> told t j" for j c k
    using told_step[OF st m]
  proof
    assume "CommandMsg (Some c) k \<in> told s j"
    with ok j show ?thesis by (auto simp: told_ok_def)
  next
    assume "j < nsrv s \<and> (\<exists>rf1 ms. applyLog_batch (srv s j) = Some (rf1, ms) \<and> CommandMsg (Some c) k \<in> set ms)"
    then obtain rf1 ms where b: "applyLog_batch (srv s j) = Some (rf1, ms)" "CommandMsg (Some c) k \<in> set ms"
      by blast
    from b server_okD(6)[OF safeD(5)[OF sf j]] obtain p where "p < length (rlog (srv s j))"
      "eIndex (rlog (srv s j) ! p) = k" "eCommand (rlog (srv s j) ! p) = Some c" "k \<le> commitIndex (srv s j)"
      by (rule batch_entries)
    with agreed_entry[OF sf j, of p] show ?thesis by simp
  qed
  with g' n agreed_extends show ?thesis unfolding told_ok_def by metis
qed

lemma told_ok_run:
  assumes "raft_step\<^sup>*\<^sup>* s t" and "safe s g" and "told_ok s g"
  shows "\<exists>g'. safe t g' \<and> told_ok t g' \<and> extends g g'"
  using assms
proof (induction rule: rtranclp_induct)
  case base
  have "extends g g" using safeD(8)[OF base(1)] by (simp add: extends_def)
  with base show ?case by blast
next
  case (step t u)
  then show ?case using told_ok_step extends_trans by blast
qed

lemma told_ok_reach: "raft.reach s \<Longrightarrow> \<exists>g. safe s g \<and> told_ok s g"
proof (rule raft.reach_invariant[where s = s])
  fix s :: "('a, 'b) cluster" assume init: "raft_init s"
  then have "told_ok s (no_history s)"
    by (induction rule: raft_init.induct)
      (auto simp: told_ok_def told_def outbox_def boot_server, simp add: boot_def)
  with safe_init[OF init] show "\<exists>g. safe s g \<and> told_ok s g" by blast
next
  fix s t :: "('a, 'b) cluster" assume "\<exists>g. safe s g \<and> told_ok s g" and "raft_step s t"
  then show "\<exists>g. safe t g \<and> told_ok t g" using told_ok_step by blast
qed

lemma run_nsrv:
  assumes "raft.reach s" and "raft_step\<^sup>*\<^sup>* s t"
  shows "nsrv t = nsrv s"
  using assms(2)
proof (induction rule: rtranclp_induct)
  case (step t u)
  from basic_reach[OF raft.reach_run[OF assms(1) step.hyps(1)]] step show ?case using step_evolves(1) by metis
qed simp

section \<open>A run with a committed command\<close>

text \<open>
  The leader of \<open>demo\<close> takes command 7, server 1 stores it, both apply it; later server 1 wins term 2
  with the vote of server 2.
\<close>

definition agree_request :: "'c \<Rightarrow> 'c AppendEntryArgs" where
  "agree_request c = \<lparr>aeTerm = 1, aeLeaderId = 0, aePrevLogIndex = 0, aePrevLogTerm = 0,
     aeEntries = [\<lparr>eTerm = 1, eIndex = 1, eCommand = None, eStart = 400\<rparr>,
                  \<lparr>eTerm = 1, eIndex = 2, eCommand = Some c, eStart = 500\<rparr>], aeLeaderCommit = 0\<rparr>"

definition agree_beat :: "'c AppendEntryArgs" where
  "agree_beat = \<lparr>aeTerm = 1, aeLeaderId = 0, aePrevLogIndex = 2, aePrevLogTerm = 1, aeEntries = [],
     aeLeaderCommit = 2\<rparr>"

definition agree_events :: "(nat, nat) event list" where
  "agree_events =
     [Command 0 500000000 7, Handle (AppReq 0 1 (agree_request 7)) 500000000,
      Handle (AppRep 0 1 (agree_request 7)
        \<lparr>arTerm = 1, arSuccess = True, arXTerm = 0, arXIndex = 0, arXLen = 0\<rparr>) 500000000,
      Handle (AppReq 0 1 agree_beat) 600000000,
      Applier 0, Applier 0, Applier 0, Applier 1, Applier 1, Applier 1]"

definition agree_vote :: RequestVoteArgs where
  "agree_vote = \<lparr>rvTerm = 2, rvCandidateId = 1, rvLastLogIndex = 2, rvLastLogTerm = 1\<rparr>"

definition later_events :: "(nat, nat) event list" where
  "later_events =
     [Tick 1 9000000000 0, Handle (VoteReq 1 2 agree_vote) 9000000000,
      Handle (VoteRep 1 2 agree_vote \<lparr>rrTerm = 2, rrVoteGranted = True\<rparr>) 9000000000]"

definition agreed_state :: "(nat, nat) cluster" where
  "agreed_state = the (run agree_events demo)"

definition later_state :: "(nat, nat) cluster" where
  "later_state = the (run later_events agreed_state)"

lemma agree_runs: "run agree_events demo = Some agreed_state" "run later_events agreed_state = Some later_state"
proof -
  have "case run agree_events demo of None \<Rightarrow> False
     | Some s \<Rightarrow> (case run later_events s of None \<Rightarrow> False | Some t \<Rightarrow> True)" by code_simp
  then show "run agree_events demo = Some agreed_state" "run later_events agreed_state = Some later_state"
    by (auto simp: agreed_state_def later_state_def split: option.splits)
qed

lemma agree_reach: "raft.reach agreed_state" "raft_step\<^sup>*\<^sup>* agreed_state later_state"
  using run_reach[OF demo_reach(2) agree_runs(1)] run_steps[OF agree_runs(2)] by auto

lemma agree_facts:
  "nsrv agreed_state = 3" "length (rlog (srv agreed_state 0)) = 3" "length (rlog (srv agreed_state 1)) = 3"
  "commitIndex (srv agreed_state 0) = 2" "commitIndex (srv agreed_state 1) = 2"
  "enode (rlog (srv agreed_state 0) ! 2) = (2, 1)" "enode (rlog (srv agreed_state 1) ! 2) = (2, 1)"
  "delivered agreed_state 0 = [CommandMsg None 1, CommandMsg (Some 7) 2]"
  "delivered agreed_state 1 = [CommandMsg None 1, CommandMsg (Some 7) 2]"
  "currentTerm (srv agreed_state 0) = 1"
  by code_simp+

lemma later_facts:
  "rstate (srv later_state 1) = Leader" "currentTerm (srv later_state 1) = 2"
  "length (rlog (srv later_state 1)) = 4" "commitIndex (srv later_state 1) = 2"
  "enode (rlog (srv later_state 1) ! 2) = (2, 1)" "firstIndex (rlog (srv later_state 1)) = 0"
  "delivered later_state 1 = [CommandMsg None 1, CommandMsg (Some 7) 2]"
  by code_simp+

section \<open>The properties\<close>

text \<open>
  C7. Log matching.  In every reachable state, when the logs of two servers have an entry with the same
  index and term, then all entries before it that both logs still have are the same: index, term
  and command.  The first entry of a log stands for the snapshot and is not compared.
\<close>

theorem log_matching:
  assumes "raft.reach s" and "i < nsrv s" "j < nsrv s"
    and "p < length (rlog (srv s i))" "q < length (rlog (srv s j))"
    and "same_entry (rlog (srv s i) ! p) (rlog (srv s j) ! q)" and "d < p" "d < q"
  shows "same_entry (rlog (srv s i) ! (p - d)) (rlog (srv s j) ! (q - d)) \<and>
    eCommand (rlog (srv s i) ! (p - d)) = eCommand (rlog (srv s j) ! (q - d))"
proof -
  from safe_reach[OF assms(1)] obtain g where sf: "safe s g" ..
  let ?li = "rlog (srv s i)" and ?lj = "rlog (srv s j)"
  note si = server_okD[OF safeD(5)[OF sf assms(2)]] and sj = server_okD[OF safeD(5)[OF sf assms(3)]]
  have earlier: "anc (tree g) (enode (l ! (k - d))) (enode (l ! k)) \<and> eIndex (l ! (k - d)) = eIndex (l ! k) - int d"
    if "log_path (tree g) l" "k < length l" "d < k" for l k
  proof -
    have ix: "eIndex (l ! (k - d)) = eIndex (l ! k) - int d"
      using wf_log_nth[OF log_path_wf[OF that(1)], of "k - d"] wf_log_nth[OF log_path_wf[OF that(1)], of k] that
      by simp
    with anc_linear[OF log_path_anc[OF that(1), of "k - d"] log_path_anc[OF that(1,2)]] that show ?thesis by simp
  qed
  have same: "enode (?li ! p) = enode (?lj ! q)" using assms(6) by (simp add: enode_def)
  from earlier[OF si(1) assms(4,7)] earlier[OF sj(1) assms(5,8)] assms(6)
  have eq: "enode (?li ! (p - d)) = enode (?lj ! (q - d))" using same by (auto intro: anc_unique)
  have "\<exists>T. tree g (enode (?li ! (p - d))) = Some (T, eCommand (?li ! (p - d)))"
    "\<exists>T. tree g (enode (?lj ! (q - d))) = Some (T, eCommand (?lj ! (q - d)))"
    using log_path_cmd[OF si(1), of "p - d"] log_path_cmd[OF sj(1), of "q - d"] assms(4,5,7,8) by auto
  with eq show ?thesis by (auto simp: enode_def)
qed

theorem log_matching_witness:
  "same_entry (rlog (srv agreed_state 0) ! 1) (rlog (srv agreed_state 1) ! 1) \<and>
   eCommand (rlog (srv agreed_state 0) ! 1) = eCommand (rlog (srv agreed_state 1) ! 1)"
  using log_matching[OF agree_reach(1), of 0 1 2 2 1] agree_facts by (simp add: enode_def)

text \<open>
  C5. State machine safety.  Two committed entries with the same index, in the logs of any two
  servers, at the same or at different times of a run, have the same term and the same command.
  Crashes, lost, late and reordered messages, elections and snapshots are part of the runs.
\<close>

theorem committed_agree:
  assumes "raft.reach s" and "raft_step\<^sup>*\<^sup>* s t" and "i < nsrv s" "j < nsrv s"
    and "0 < p" "p < length (rlog (srv s i))" "eIndex (rlog (srv s i) ! p) \<le> commitIndex (srv s i)"
    and "0 < q" "q < length (rlog (srv t j))" "eIndex (rlog (srv t j) ! q) \<le> commitIndex (srv t j)"
    and "eIndex (rlog (srv s i) ! p) = eIndex (rlog (srv t j) ! q)"
  shows "eTerm (rlog (srv s i) ! p) = eTerm (rlog (srv t j) ! q) \<and>
    eCommand (rlog (srv s i) ! p) = eCommand (rlog (srv t j) ! q)"
proof -
  from safe_reach[OF assms(1)] obtain g where sf: "safe s g" ..
  from safe_run[OF assms(2) sf] obtain g' where sf': "safe t g'" and ext: "extends g g'" by blast
  note n = run_nsrv[OF assms(1,2)]
  with assms(4) have j: "j < nsrv t" by simp
  note h = safeD(3)[OF sf', unfolded n]
  have a: "committed (nsrv s) g' (currentTerm (srv s i)) (enode (rlog (srv s i) ! p))"
    by (rule extends_committed[OF ext committed_entry[OF sf assms(3,6,7)]])
  have b: "committed (nsrv s) g' (currentTerm (srv t j)) (enode (rlog (srv t j) ! q))"
    using committed_entry[OF sf' j assms(9,10)] by (simp add: n)
  from committed_linear[OF h a b] assms(11) have "enode (rlog (srv s i) ! p) = enode (rlog (srv t j) ! q)"
    using anc_same[of "tree g'" "enode (rlog (srv s i) ! p)" "enode (rlog (srv t j) ! q)"]
      anc_same[of "tree g'" "enode (rlog (srv t j) ! q)" "enode (rlog (srv s i) ! p)"] by auto
  moreover have "agreed (nsrv s) g' (eIndex (rlog (srv s i) ! p)) (eCommand (rlog (srv s i) ! p))"
    using agreed_extends[OF ext agreed_entry[OF sf assms(3,6,7)]] assms(5) by simp
  moreover have "agreed (nsrv s) g' (eIndex (rlog (srv t j) ! q)) (eCommand (rlog (srv t j) ! q))"
    using agreed_entry[OF sf' j assms(9,10)] assms(8) n by simp
  ultimately show ?thesis using agreed_unique[OF h] assms(11) by (auto simp: enode_def)
qed

theorem committed_agree_witness:
  "raft_step\<^sup>*\<^sup>* agreed_state later_state \<and>
   eTerm (rlog (srv agreed_state 0) ! 2) = eTerm (rlog (srv later_state 1) ! 2) \<and>
   eCommand (rlog (srv agreed_state 0) ! 2) = eCommand (rlog (srv later_state 1) ! 2)"
  using committed_agree[OF agree_reach, of 0 1 2 2] agree_reach(2) agree_facts later_facts by (simp add: enode_def)

text \<open>
  C8. Leader completeness.  What a server knows to be committed is in the log of every leader of the
  same or a later term: the leader's log reaches that index, and either its snapshot covers it or
  the entry at that index is the same.
\<close>

theorem leader_has_committed:
  assumes "raft.reach s" and "raft_step\<^sup>*\<^sup>* s t" and "i < nsrv s" "j < nsrv s"
    and "p < length (rlog (srv s i))" "eIndex (rlog (srv s i) ! p) \<le> commitIndex (srv s i)"
    and "rstate (srv t j) = Leader" "currentTerm (srv s i) \<le> currentTerm (srv t j)"
  shows "eIndex (rlog (srv s i) ! p) \<le> lastIndex (rlog (srv t j)) \<and>
    (eIndex (rlog (srv s i) ! p) < firstIndex (rlog (srv t j)) \<or>
     same_entry (rlog (srv t j) ! nat (eIndex (rlog (srv s i) ! p) - firstIndex (rlog (srv t j)))) (rlog (srv s i) ! p))"
proof -
  from safe_reach[OF assms(1)] obtain g where sf: "safe s g" ..
  from safe_run[OF assms(2) sf] obtain g' where sf': "safe t g'" and ext: "extends g g'" by blast
  note n = run_nsrv[OF assms(1,2)]
  with assms(4) have j: "j < nsrv t" by simp
  let ?x = "enode (rlog (srv s i) ! p)" and ?l = "rlog (srv t j)"
  have "committed (nsrv t) g' (currentTerm (srv t j)) ?x"
    using committed_mono[OF extends_committed[OF ext committed_entry[OF sf assms(3,5,6)]] assms(8)] by (simp add: n)
  from leader_bounds(2)[OF sf' j assms(7) this] have a: "anc (tree g') ?x (tip ?l)" .
  have "same_entry (?l ! nat (fst ?x - firstIndex ?l)) (rlog (srv s i) ! p)" if "firstIndex ?l \<le> fst ?x"
    using log_path_at(2)[OF server_okD(1)[OF safeD(5)[OF sf' j]] a that] by (simp add: enode_def)
  with anc_index[OF a] show ?thesis by fastforce
qed

theorem leader_has_committed_witness:
  "rstate (srv later_state 1) = Leader \<and> eIndex (rlog (srv agreed_state 0) ! 2) \<le> lastIndex (rlog (srv later_state 1)) \<and>
   same_entry (rlog (srv later_state 1) ! 2) (rlog (srv agreed_state 0) ! 2)"
  using leader_has_committed[OF agree_reach, of 0 1 2] agree_facts later_facts by (simp add: enode_def)



end
