(* ===== verification/RaftStream.thy ===== *)
theory RaftStream
  imports RaftAgree "HOL-Library.Sublist"
begin

text \<open>
  The messages on \<^verbatim>\<open>applyCh\<close> follow the sequence of committed commands: every command has the next
  index, every snapshot is that of a later prefix of the sequence.  The condition is that the
  services hand truthful snapshots to Raft, which \<open>RaftService\<close> shows for services that keep
  their contract.
\<close>

section \<open>The sequence of committed commands\<close>

definition committed_list :: "nat \<Rightarrow> 'c ghost \<Rightarrow> 'c option list \<Rightarrow> bool" where
  "committed_list n g Cs \<longleftrightarrow> (\<forall>k < length Cs. agreed n g (int k + 1) (Cs ! k))"

lemma committed_list_extends: "extends g g' \<Longrightarrow> committed_list n g Cs \<Longrightarrow> committed_list n g' Cs"
  by (auto simp: committed_list_def intro: agreed_extends)

lemma committed_list_prefix:
  assumes "hist_ok n g" and "committed_list n g Cs" "committed_list n g Ds" and "length Cs \<le> length Ds"
  shows "prefix Cs Ds"
proof -
  have "Cs = take (length Cs) Ds"
    by (rule nth_equalityI) (use assms agreed_unique[OF assms(1)] in \<open>auto simp: committed_list_def\<close>)
  then show ?thesis by (metis take_is_prefix)
qed

text \<open>Below a node of the tree there is one at every index.\<close>

lemma node_below:
  assumes "tree_ok H" and "x \<in> nodes H" and "1 \<le> k" "k \<le> fst x"
  shows "\<exists>y \<in> dom H. fst y = k \<and> anc H y x"
  using assms(2,4)
proof (induction "nat (fst x - k)" arbitrary: x)
  case 0
  with node_dom[OF 0(2)] assms(3) show ?case by force
next
  case (Suc d)
  then have "x \<in> dom H" using node_dom[OF Suc.prems(1)] assms(3) by simp
  then obtain T c where x: "H x = Some (T, c)" by auto
  let ?x = "(fst x - 1, T)"
  from Suc.hyps(2) have d: "d = nat (fst ?x - k)" "k \<le> fst ?x" by auto
  from Suc.hyps(1)[OF d(1) tree_okD(3)[OF assms(1) x] d(2)] obtain y where
    "y \<in> dom H" "fst y = k" "anc H y ?x" by blast
  moreover have "up H ?x x" using x by (simp add: up_def)
  ultimately show ?case by (blast intro: rtranclp.rtrancl_into_rtrancl)
qed

lemma commit_agreed:
  assumes sf: "safe s g" and i: "i < nsrv s" and k: "1 \<le> k" "k \<le> commitIndex (srv s i)"
  shows "\<exists>c. agreed (nsrv s) g k c"
proof -
  from server_okD(4)[OF safeD(5)[OF sf i]] obtain x where x: "fst x = commitIndex (srv s i)"
    "committed (nsrv s) g (currentTerm (srv s i)) x" by (auto simp: commit_ok_def)
  note node = committed_node[OF safeD(3)[OF sf] x(2)]
  from k(2) x(1) have "k \<le> fst x" by simp
  from node_below[OF safeD(8)[OF sf] node k(1) this] obtain y T0 c where
    y: "fst y = k" "anc (tree g) y x" "tree g y = Some (T0, c)" by auto
  with committed_anc[OF x(2) y(2) safeD(8)[OF sf]] show ?thesis unfolding agreed_def by blast
qed

lemma committed_list_exists:
  assumes "\<And>k. 1 \<le> k \<Longrightarrow> k \<le> m \<Longrightarrow> \<exists>c. agreed n g k c"
  shows "\<exists>Cs. committed_list n g Cs \<and> length Cs = nat m"
proof -
  from assms obtain f where f: "\<And>k. 1 \<le> k \<Longrightarrow> k \<le> m \<Longrightarrow> agreed n g k (f k)" by metis
  have "committed_list n g (map (\<lambda>k. f (int k + 1)) [0 ..< nat m])"
    using f by (auto simp: committed_list_def)
  then show ?thesis by (intro exI[of _ "map (\<lambda>k. f (int k + 1)) [0 ..< nat m]"]) simp
qed

text \<open>The sequence can be continued as far as any server knows it.\<close>

definition covers :: "'c option list \<Rightarrow> ('c, 'b) cluster \<Rightarrow> bool" where
  "covers Cs s \<longleftrightarrow> (\<forall>i < nsrv s. commitIndex (srv s i) \<le> int (length Cs))"

lemma committed_list_continue:
  assumes sf: "safe s g" and cl: "committed_list (nsrv s) g Cs"
  shows "\<exists>Ds. prefix Cs Ds \<and> committed_list (nsrv s) g Ds \<and> covers Ds s"
proof (cases "covers Cs s")
  case False
  then obtain j where j: "j < nsrv s" "int (length Cs) < commitIndex (srv s j)" by (auto simp: covers_def not_le)
  define m where "m = Max ((\<lambda>i. commitIndex (srv s i)) ` {..<nsrv s})"
  have le: "commitIndex (srv s i) \<le> m" if "i < nsrv s" for i using that by (simp add: m_def)
  have "m \<in> (\<lambda>i. commitIndex (srv s i)) ` {..<nsrv s}" unfolding m_def using j(1) by (intro Max_in) auto
  then obtain i where i: "i < nsrv s" "commitIndex (srv s i) = m" by auto
  from committed_list_exists[of m "nsrv s" g] commit_agreed[OF sf i(1)] i(2) obtain Ds where
    Ds: "committed_list (nsrv s) g Ds" "length Ds = nat m" by blast
  have "length Cs \<le> length Ds" using le[OF j(1)] j(2) Ds(2) by simp
  from committed_list_prefix[OF safeD(3)[OF sf] cl Ds(1) this] have "prefix Cs Ds" .
  moreover have "covers Ds s" using le Ds(2) by (fastforce simp: covers_def)
  ultimately show ?thesis using Ds(1) by blast
qed (use cl in blast)

section \<open>Streams of messages\<close>

text \<open>
  A stream of messages that brings a service from index \<open>n\<close> to index \<open>m\<close> of the sequence \<open>Cs\<close>; \<open>img\<close> is
  the snapshot a service takes after a list of commands.
\<close>

fun stream ::
  "('c option list \<Rightarrow> 'b list) \<Rightarrow> 'c option list \<Rightarrow> nat \<Rightarrow> ('c, 'b) ApplyMsg list \<Rightarrow> nat \<Rightarrow> bool" where
  "stream img Cs n [] m \<longleftrightarrow> m = n"
| "stream img Cs n (CommandMsg c i # ms) m \<longleftrightarrow>
     i = int n + 1 \<and> n < length Cs \<and> c = Cs ! n \<and> stream img Cs (Suc n) ms m"
| "stream img Cs n (SnapshotMsg d t i # ms) m \<longleftrightarrow>
     int n < i \<and> nat i \<le> length Cs \<and> d = img (take (nat i) Cs) \<and> stream img Cs (nat i) ms m"

lemma prefix_nth: "prefix xs ys \<Longrightarrow> k < length xs \<Longrightarrow> ys ! k = xs ! k"
  by (auto simp: prefix_def nth_append)

lemma prefix_take: "prefix xs ys \<Longrightarrow> k \<le> length xs \<Longrightarrow> take k ys = take k xs"
  by (auto simp: prefix_def)

lemma stream_prefix: "stream img Cs n ms m \<Longrightarrow> prefix Cs Ds \<Longrightarrow> stream img Ds n ms m"
proof (induction img Cs n ms m rule: stream.induct)
  case (2 img Cs n c i ms m)
  then show ?case using prefix_length_le[OF 2(3)] prefix_nth[OF 2(3)] by simp
next
  case (3 img Cs n d t i ms m)
  then show ?case using prefix_length_le[OF 3(3)] prefix_take[OF 3(3)] by simp
qed simp

lemma stream_commands:
  assumes "consec (int n + 1) es" and "n + length es \<le> length Cs"
    and "\<And>e. e \<in> set es \<Longrightarrow> eCommand e = Cs ! nat (eIndex e - 1)"
  shows "stream img Cs n (map (\<lambda>e. CommandMsg (eCommand e) (eIndex e)) es) (n + length es)"
  using assms
proof (induction es arbitrary: n)
  case (Cons e es)
  from Cons.IH[of "Suc n"] Cons.prems show ?case by (simp add: ac_simps)
qed simp

section \<open>What a server keeps\<close>

lemma commit_bounds:
  assumes "server_ok n g v rf"
  shows "firstIndex (rlog rf) \<le> commitIndex rf" "commitIndex rf \<le> lastIndex (rlog rf)"
proof -
  from server_okD(4)[OF assms] obtain x where "fst x = commitIndex rf" "anc (tree g) x (tip (rlog rf))"
    and first: "firstIndex (rlog rf) \<le> commitIndex rf" by (auto simp: commit_ok_def)
  with anc_index[of "tree g" x "tip (rlog rf)"] show "commitIndex rf \<le> lastIndex (rlog rf)" by simp
  show "firstIndex (rlog rf) \<le> commitIndex rf" by (fact first)
qed


text \<open>The stored snapshot is that of the prefix up to the first index of the log.\<close>

definition snap_at :: "('c option list \<Rightarrow> 'b list) \<Rightarrow> 'c option list \<Rightarrow> int \<Rightarrow> 'b list option \<Rightarrow> bool" where
  "snap_at img Cs k d \<longleftrightarrow>
     (if k = 0 then d = Some [] else 0 < k \<and> k \<le> int (length Cs) \<and> d = Some (img (take (nat k) Cs)))"

lemma snap_at_prefix: "snap_at img Cs k d \<Longrightarrow> prefix Cs Ds \<Longrightarrow> snap_at img Ds k d"
  using prefix_length_le[of Cs Ds] by (auto simp: snap_at_def prefix_take split: if_split_asm)

definition keeps :: "('c option list \<Rightarrow> 'b list) \<Rightarrow> 'c option list \<Rightarrow> ('c, 'b) Raft \<Rightarrow> bool" where
  "keeps img Cs rf \<longleftrightarrow> 0 \<le> lastApplied rf \<and> lastApplied rf \<le> commitIndex rf \<and>
     snap_at img Cs (firstIndex (rlog rf)) (rsnapshot rf)"

lemma keeps_prefix: "keeps img Cs rf \<Longrightarrow> prefix Cs Ds \<Longrightarrow> keeps img Ds rf"
  by (auto simp: keeps_def intro: snap_at_prefix)

lemma committed_command:
  assumes sf: "safe s g" and cl: "committed_list (nsrv s) g Cs" and cv: "covers Cs s" and i: "i < nsrv s"
    and p: "0 < p" "p < length (rlog (srv s i))" "eIndex (rlog (srv s i) ! p) \<le> commitIndex (srv s i)"
  shows "eCommand (rlog (srv s i) ! p) = Cs ! nat (eIndex (rlog (srv s i) ! p) - 1)"
proof -
  let ?e = "rlog (srv s i) ! p"
  note so = server_okD[OF safeD(5)[OF sf i]]
  have "0 \<le> firstIndex (rlog (srv s i))"
    using so(1) node_index[OF safeD(8)[OF sf]] by (fastforce simp: log_path_def first_ok_def)
  with wf_log_nth[OF so(6) p(2)] p(1) have ix: "1 \<le> eIndex ?e" by simp
  from agreed_entry[OF sf i p(2,3)] p(1) have "agreed (nsrv s) g (eIndex ?e) (eCommand ?e)" by simp
  moreover have "agreed (nsrv s) g (eIndex ?e) (Cs ! nat (eIndex ?e - 1))"
  proof -
    from cv i p(3) ix have "nat (eIndex ?e - 1) < length Cs" by (fastforce simp: covers_def)
    with cl have "agreed (nsrv s) g (int (nat (eIndex ?e - 1)) + 1) (Cs ! nat (eIndex ?e - 1))"
      unfolding committed_list_def by blast
    then show ?thesis using ix by simp
  qed
  ultimately show ?thesis using agreed_unique[OF safeD(3)[OF sf]] by blast
qed

text \<open>A batch of the applier continues the stream up to the commit index.\<close>

lemma committed_after_stream:
  assumes sf: "safe s g" and cl: "committed_list (nsrv s) g Cs" and cv: "covers Cs s" and i: "i < nsrv s"
    and a: "firstIndex (rlog (srv s i)) \<le> a" "0 \<le> a" "a \<le> commitIndex (srv s i)"
  shows "stream img Cs (nat a) (committed_after a (srv s i)) (nat (commitIndex (srv s i)))"
proof -
  let ?l = "rlog (srv s i)" and ?c = "commitIndex (srv s i)"
  note so = server_okD[OF safeD(5)[OF sf i]]
  define b es where "b = firstIndex ?l" and "es = take (nat (?c - a)) (drop (nat (a + 1 - b)) ?l)"
  have last: "lastIndex ?l = b + int (length ?l) - 1" and cb: "consec b ?l"
    using so(6) wf_log_last by (auto simp: wf_log_def b_def)
  from commit_bounds(2)[OF safeD(5)[OF sf i]] have len: "nat (a + 1 - b) + nat (?c - a) \<le> length ?l" using last a by (simp add: b_def)
  then have els: "length es = nat (?c - a)" by (simp add: es_def)
  have "max a (b - 1) = a" using a by (simp add: b_def)
  then have eq: "committed_after a (srv s i) = map (\<lambda>e. CommandMsg (eCommand e) (eIndex e)) es"
    by (simp add: committed_after_def consec_filter[OF cb] es_def)
  have at: "es ! q = ?l ! (nat (a + 1 - b) + q)" "nat (a + 1 - b) + q < length ?l"
      "eIndex (?l ! (nat (a + 1 - b) + q)) = a + 1 + int q" if "q < length es" for q
    using that els len consec_nth[OF cb, of "nat (a + 1 - b) + q"] a by (simp_all add: es_def b_def)
  have "consec (int (nat a) + 1) es"
    by (rule consec_nthI) (use at a in auto)
  moreover have "nat a + length es \<le> length Cs" using els cv i a by (force simp: covers_def)
  moreover have "eCommand e = Cs ! nat (eIndex e - 1)" if "e \<in> set es" for e
  proof -
    from that obtain q where q: "q < length es" "e = es ! q" by (auto simp: in_set_conv_nth)
    have "0 < nat (a + 1 - b) + q" using a by (simp add: b_def)
    moreover have "eIndex (?l ! (nat (a + 1 - b) + q)) \<le> ?c" using at(3)[OF q(1)] q(1) els a by simp
    ultimately show ?thesis using committed_command[OF sf cl cv i _ at(2)[OF q(1)]] at(1)[OF q(1)] q(2) by simp
  qed
  ultimately have "stream img Cs (nat a) (committed_after a (srv s i)) (nat a + length es)"
    unfolding eq by (rule stream_commands)
  moreover have "nat a + length es = nat ?c" using els a by simp
  ultimately show ?thesis by simp
qed

lemma batch_stream:
  assumes sf: "safe s g" and cl: "committed_list (nsrv s) g Cs" and cv: "covers Cs s" and i: "i < nsrv s"
    and kp: "keeps img Cs (srv s i)" and b: "applyLog_batch (srv s i) = Some (rf, ms)"
  shows "stream img Cs (nat (lastApplied (srv s i))) ms (nat (lastApplied rf)) \<and> keeps img Cs rf"
proof -
  let ?rf = "srv s i"
  let ?b = "firstIndex (rlog ?rf)"
  note so = server_okD[OF safeD(5)[OF sf i]]
  have K: "0 \<le> lastApplied ?rf" "lastApplied ?rf \<le> commitIndex ?rf" "snap_at img Cs ?b (rsnapshot ?rf)"
    using kp by (auto simp: keeps_def)
  have bc: "?b \<le> commitIndex ?rf" "commitIndex ?rf \<le> lastIndex (rlog ?rf)"
    using commit_bounds[OF safeD(5)[OF sf i]] .
  have "rsnapshot ?rf \<noteq> None" using K(3) by (auto simp: snap_at_def split: if_split_asm)
  with applyLog_batch_eq[OF so(6) bc(2)] b have rf: "rf = ?rf\<lparr>lastApplied := commitIndex ?rf\<rparr>"
    and ms: "ms = (if lastApplied ?rf < ?b
      then SnapshotMsg (the (rsnapshot ?rf)) (eTerm (hd (rlog ?rf))) ?b # committed_after ?b ?rf
      else committed_after (lastApplied ?rf) ?rf)" by auto
  note after = committed_after_stream[OF sf cl cv i, where img = img]
  have "stream img Cs (nat (lastApplied ?rf)) ms (nat (commitIndex ?rf))"
  proof (cases "lastApplied ?rf < ?b")
    case True
    with K have "0 < ?b" "?b \<le> int (length Cs)" "rsnapshot ?rf = Some (img (take (nat ?b) Cs))"
      by (auto simp: snap_at_def split: if_split_asm)
    with True K(1) after[of ?b] bc(1) show ?thesis by (simp add: ms)
  next
    case False
    with after[of "lastApplied ?rf"] K show ?thesis by (simp add: ms)
  qed
  with K bc(1) show ?thesis by (simp add: rf keeps_def)
qed

text \<open>One step of the applier, with the message it sends, if any.\<close>

lemma applyLog_stream:
  assumes sf: "safe s g" and cl: "committed_list (nsrv s) g Cs" and cv: "covers Cs s" and i: "i < nsrv s"
    and kp: "keeps img Cs (srv s i)" and ap: "applyLog (srv s i) = Some (rf, ms)"
    and sm: "stream img Cs n (outbox (srv s i)) (nat (lastApplied (srv s i)))"
  shows "keeps img Cs rf \<and>
    (ms = [] \<and> stream img Cs n (outbox rf) (nat (lastApplied rf)) \<or>
     (\<exists>m. ms = [m] \<and> stream img Cs n (m # outbox rf) (nat (lastApplied rf))))"
proof -
  have batch: ?thesis if "applyLog_batch (srv s i) = Some (rf1, ms1)" "rf = rf1\<lparr>applier := Sending ms1\<rparr>"
      "ms = []" "outbox (srv s i) = []" for rf1 ms1
    using batch_stream[OF sf cl cv i kp that(1)] that sm by (simp add: outbox_def keeps_def)
  have idle: "keeps img Cs (srv s i\<lparr>applier := x\<rparr>)" for x using kp by (simp add: keeps_def)
  show ?thesis
  proof (cases "applier (srv s i)")
    case Checking
    with ap batch idle sm show ?thesis unfolding applyLog_def
      by (auto elim!: bindE split: if_split_asm simp: outbox_def)
  next
    case Waiting
    with ap kp sm show ?thesis unfolding applyLog_def by auto
  next
    case Woken
    with ap batch show ?thesis unfolding applyLog_def by (auto elim!: bindE simp: outbox_def)
  next
    case (Sending os)
    with ap idle sm show ?thesis unfolding applyLog_def by (cases os) (auto simp: outbox_def)
  qed
qed

section \<open>What the events change\<close>

text \<open>A handler that leaves the applier's business and the snapshot alone.\<close>

definition steady :: "('c, 'b) Raft \<Rightarrow> ('c, 'b) Raft \<Rightarrow> bool" where
  "steady rf rf' \<longleftrightarrow> lastApplied rf' = lastApplied rf \<and> rsnapshot rf' = rsnapshot rf \<and>
     firstIndex (rlog rf') = firstIndex (rlog rf) \<and> commitIndex rf \<le> commitIndex rf'"

lemma steady_refl [simp]: "steady rf rf"
  by (simp add: steady_def)

lemma check_snap [simp]:
  "lastApplied (checkAndMaySetTermAndState T rf) = lastApplied rf"
  "rsnapshot (checkAndMaySetTermAndState T rf) = rsnapshot rf"
  by (simp_all add: checkAndMaySetTermAndState_def Let_def)

lemma steady_sendHeatbeat:
  assumes "sendHeatbeat now force rf = Some (rf', sp)"
  shows "steady rf0 rf' = steady rf0 rf"
  using assms by (rule sendHeatbeat_frame) (simp add: steady_def)

lemma steady_updateCommitIndex:
  assumes "updateCommitIndex now idx rf = Some (rf', sp)" and "steady rf0 rf"
  shows "steady rf0 rf'"
proof -
  have "steady rf0 rf'" if "updateCommit_loop now i rf = Some (rf', sp)" for i
    using that
  proof (cases rule: updateCommit_loop_cases)
    case (commit j e count)
    with assms(2) steady_sendHeatbeat[OF commit(7), of rf0] show ?thesis by (simp add: steady_def)
  qed (use assms(2) in simp)
  with assms show ?thesis
    by (auto simp: updateCommitIndex_def Let_def elim!: bindE split: if_split_asm)
qed

lemma steady_local:
  "ticker now rnd rf = Some (rf', sp) \<Longrightarrow> steady rf rf'"
  "heatbeat now rf = Some (rf', sp) \<Longrightarrow> steady rf rf'"
  "StartCommand now c rf = Some (rf', sp, r) \<Longrightarrow> rlog rf \<noteq> [] \<Longrightarrow> steady rf rf'"
proof -
  show "ticker now rnd rf = Some (rf', sp) \<Longrightarrow> steady rf rf'" by (erule ticker_cases) (simp_all add: steady_def)
  show "heatbeat now rf = Some (rf', sp) \<Longrightarrow> steady rf rf'"
    by (auto simp: heatbeat_def split: if_split_asm dest: steady_sendHeatbeat[of _ _ _ _ _ rf])
  show "StartCommand now c rf = Some (rf', sp, r) \<Longrightarrow> rlog rf \<noteq> [] \<Longrightarrow> steady rf rf'"
    by (erule StartCommand_cases) (auto dest!: steady_sendHeatbeat[of _ _ _ _ _ rf] simp: steady_def)
qed

lemma steady_RequestVote: "RequestVote now va rf = Some (rf', vr) \<Longrightarrow> steady rf rf'"
  unfolding RequestVote_def Let_def by (auto elim!: bindE split: if_split_asm simp: steady_def)

lemma steady_RequestVote_done:
  assumes "RequestVote_done now va vr rf = Some (rf', sp)" and "rlog rf \<noteq> []"
  shows "steady rf rf'"
  using assms(1)
proof (cases rule: RequestVote_done_cases)
  case (won k)
  let ?rf = "rf\<lparr>voteGrantedCount := (voteGrantedCount rf)(currentTerm rf \<mapsto> Suc k)\<rparr>"
  have "rstate ?rf = Candidate" using won(2) by simp
  from becomeLeader_cases[OF won(6) this] obtain ni mi ls where
    "rf' = (persist (?rf\<lparr>nextIndex := ni, matchIndex := mi, lastSendAppendEntry := [], rstate := Leader,
                       rlog := rlog ?rf @ [noop_entry now ?rf]\<rparr>))\<lparr>lastSendAppendEntry := ls\<rparr>" .
  with assms(2) show ?thesis by (simp add: steady_def)
qed (simp_all add: steady_def)

lemma steady_AppendEntry_done:
  assumes "AppendEntry_done now p a reply rf = Some (rf', sp)"
  shows "steady rf rf'"
proof -
  have vol: "steady rf (rf\<lparr>matchIndex := mi, nextIndex := ni\<rparr>)" "steady rf (rf\<lparr>nextIndex := ni\<rparr>)" for mi ni
    by (simp_all add: steady_def)
  show ?thesis using assms vol(2) unfolding AppendEntry_done_def Let_def
    by (auto elim!: bindE split: if_split_asm dest!: steady_updateCommitIndex[OF _ vol(1)]) (simp add: steady_def)
qed

lemma steady_InstallSnapshot_done:
  assumes "InstallSnapshot_done now p ia ir rf = Some (rf', sp)"
  shows "steady rf rf'"
  using assms unfolding InstallSnapshot_done_def Let_def
  by (auto elim!: bindE split: if_split_asm dest!: steady_sendHeatbeat[of _ _ _ _ _ rf] simp: steady_def)

lemma AppendEntry_snap:
  assumes "AppendEntry now a rf = Some (rf', reply)"
  shows "lastApplied rf' = lastApplied rf \<and> rsnapshot rf' = rsnapshot rf"
proof -
  have acc: "lastApplied rf2 = lastApplied rf1 \<and> rsnapshot rf2 = rsnapshot rf1"
    if acc: "AppendEntry_accept a es p rf1 = Some (rf2, r)" for es p rf1 rf2 r
  proof -
    from acc obtain rf3 where st: "store_entries es p rf1 = Some rf3"
      and "lastApplied rf2 = lastApplied rf3 \<and> rsnapshot rf2 = rsnapshot rf3"
      unfolding AppendEntry_accept_def Let_def by (auto elim!: bindE split: if_split_asm)
    with store_entries_fields[OF st] show ?thesis by simp
  qed
  show ?thesis using assms unfolding AppendEntry_def Let_def
    by (auto elim!: bindE split: if_split_asm dest!: acc)
qed

lemma steady_AppendEntry:
  assumes sf: "safe s g" and v: "v < nsrv s" and a: "app_req_ok (nsrv s) g c a"
    and h: "AppendEntry now a (srv s v) = Some (rf, reply)"
  shows "steady (srv s v) rf"
proof -
  from assms have "firstIndex (rlog rf) = firstIndex (rlog (srv s v))"
    by (cases rule: AppReq_cases) (simp_all add: still_def)
  with AppReq_commit[OF assms] AppendEntry_snap[OF h] show ?thesis by (simp add: steady_def)
qed

text \<open>The two handlers that replace the snapshot.\<close>

lemma SnapshotService_snap:
  assumes h: "SnapshotService now idx sn rf = Some (rf', sp)" and wf: "wf_log (rlog rf)"
    and c: "commitIndex rf \<le> lastIndex (rlog rf)"
  shows "steady rf rf' \<or> lastApplied rf' = lastApplied rf \<and> commitIndex rf' = commitIndex rf \<and>
    rsnapshot rf' = sn \<and> firstIndex (rlog rf') = idx \<and> idx \<le> commitIndex rf \<and>
    (rsnapshot rf \<noteq> None \<longrightarrow> firstIndex (rlog rf) < idx)"
  using h
proof (cases rule: SnapshotService_cases)
  case (trim first l)
  have first: "first = hd (rlog rf)" using trim(2) wf_log_nonempty[OF wf] by (simp add: go_nth_hd)
  have "min (idx - eIndex first) (int (length (rlog rf)) - 1) = idx - eIndex first"
    using trim(1) c wf_log_last[OF wf] first by simp
  with trim(4) have k: "0 \<le> idx - eIndex first" "nat (idx - eIndex first) < length (rlog rf)"
    "l = drop (nat (idx - eIndex first)) (rlog rf)"
    using trim(1) c wf_log_last[OF wf] first by (auto simp: go_simps nat_less_iff)
  then have "firstIndex l = idx" using wf_log_nth[OF wf k(2)] first by (simp add: hd_drop_conv_nth)
  moreover have "rf' = signal (persist (rf\<lparr>rsnapshot := sn, rlog := l\<rparr>)) \<or>
      (\<exists>ls. rf' = (signal (persist (rf\<lparr>rsnapshot := sn, rlog := l\<rparr>)))\<lparr>lastSendAppendEntry := ls\<rparr>)"
    using trim(5) by (auto split: if_split_asm elim: sendHeatbeat_frame)
  ultimately show ?thesis using trim(1,3) first by auto
qed simp

lemma InstallSnapshot_snap:
  assumes h: "InstallSnapshot now a rf = Some (rf', reply)" and wf: "wf_log (rlog rf)"
  shows "steady rf rf' \<or> lastApplied rf' = lastApplied rf \<and> commitIndex rf \<le> commitIndex rf' \<and>
    rsnapshot rf' = snData (isSnapshot a) \<and> firstIndex (rlog rf') = LastIncludeLogIndex (isSnapshot a) \<and>
    firstIndex (rlog rf) < LastIncludeLogIndex (isSnapshot a)"
proof -
  let ?k = "LastIncludeLogIndex (isSnapshot a)" and ?l = "rlog rf"
  have ne: "?l \<noteq> []" by (rule wf_log_nonempty[OF wf])
  have at: "firstIndex (drop (nat (?k - firstIndex ?l)) ?l) = ?k"
    if "firstIndex ?l < ?k" "nat (?k - firstIndex ?l) < length ?l"
    using wf_log_nth[OF wf that(2)] that by (simp add: hd_drop_conv_nth)
  have inside: "nat (?k - firstIndex ?l) < length ?l" if "firstIndex ?l < ?k" "?k < lastIndex ?l"
    using that wf_log_last[OF wf] by (simp add: nat_less_iff)
  show ?thesis using h ne unfolding InstallSnapshot_def Let_def
    by (auto elim!: bindE split: if_split_asm
        simp: go_nth_hd go_last_eq go_from_Some_iff steady_def not_le at inside)
qed

section \<open>The invariant of the cluster\<close>

text \<open>
  An event keeps the applier's business of every server but its own, and there only the applier
  and a restart change it; the snapshot stays or is again one of the sequence.
\<close>

definition advances :: "('c option list \<Rightarrow> 'b list) \<Rightarrow> 'c option list \<Rightarrow> ('c, 'b) Raft \<Rightarrow> ('c, 'b) Raft \<Rightarrow> bool" where
  "advances img Cs rf rf' \<longleftrightarrow> outbox rf' = outbox rf \<and> lastApplied rf' = lastApplied rf \<and>
     (keeps img Cs rf \<longrightarrow> keeps img Cs rf')"

lemma steady_advances: "steady rf rf' \<Longrightarrow> outbox rf' = outbox rf \<Longrightarrow> advances img Cs rf rf'"
  by (auto simp: steady_def advances_def keeps_def)

fun snap_packet :: "('c option list \<Rightarrow> 'b list) \<Rightarrow> 'c option list \<Rightarrow> ('c, 'b) packet \<Rightarrow> bool" where
  "snap_packet img Cs (SnapReq c v a) \<longleftrightarrow>
     snap_at img Cs (LastIncludeLogIndex (isSnapshot a)) (snData (isSnapshot a))"
| "snap_packet img Cs _ \<longleftrightarrow> True"

lemma snap_packet_prefix: "snap_packet img Cs p \<Longrightarrow> prefix Cs Ds \<Longrightarrow> snap_packet img Ds p"
  by (cases p) (auto intro: snap_at_prefix)

lemma snap_packet_of: "snap_packet img Cs (packet_of i x)"
  by (cases x) simp_all

lemma snap_packet_started: "p \<in># started i sp \<Longrightarrow> snap_packet img Cs p"
  by (auto intro: snap_packet_of)

definition sound :: "('c option list \<Rightarrow> 'b list) \<Rightarrow> 'c option list \<Rightarrow> 'c ghost \<Rightarrow> ('c, 'b) cluster \<Rightarrow> bool" where
  "sound img Cs g s \<longleftrightarrow> safe s g \<and> committed_list (nsrv s) g Cs \<and> covers Cs s \<and>
     (\<forall>i < nsrv s. keeps img Cs (srv s i)) \<and> (\<forall>p \<in># net s. snap_packet img Cs p)"

text \<open>A call of \<open>Snapshot\<close> that brings the snapshot of a prefix; a call with index 0 is ignored.\<close>

definition call_ok :: "('c option list \<Rightarrow> 'b list) \<Rightarrow> 'c option list \<Rightarrow> int \<Rightarrow> 'b list \<Rightarrow> bool" where
  "call_ok img Cs k d \<longleftrightarrow> k \<le> 0 \<or> k \<le> int (length Cs) \<and> d = img (take (nat k) Cs)"

lemma call_ok_prefix: "call_ok img Cs k d \<Longrightarrow> prefix Cs Ds \<Longrightarrow> call_ok img Ds k d"
  using prefix_length_le[of Cs Ds] by (auto simp: call_ok_def prefix_take)

fun truthful :: "('c option list \<Rightarrow> 'b list) \<Rightarrow> 'c option list \<Rightarrow> ('c, 'b) event \<Rightarrow> bool" where
  "truthful img Cs (Compact i now k d) \<longleftrightarrow> (\<exists>x. d = Some x \<and> call_ok img Cs k x)"
| "truthful img Cs (Applier i) \<longleftrightarrow> False"
| "truthful img Cs (Restart i now rnd) \<longleftrightarrow> False"
| "truthful img Cs _ \<longleftrightarrow> True"

lemma keeps_snap: "keeps img Cs rf \<Longrightarrow> rsnapshot rf \<noteq> None \<and> 0 \<le> firstIndex (rlog rf)"
  by (auto simp: keeps_def snap_at_def split: if_split_asm)

lemma advances_Compact:
  assumes "SnapshotService now k (Some d) rf = Some (rf', sp)" and "server_ok n g v rf"
    and "call_ok img Cs k d"
  shows "advances img Cs rf rf'"
proof (cases "steady rf rf'")
  case False
  with SnapshotService_snap[OF assms(1) server_okD(6)[OF assms(2)] commit_bounds(2)[OF assms(2)]]
  have new: "lastApplied rf' = lastApplied rf" "commitIndex rf' = commitIndex rf" "rsnapshot rf' = Some d"
    "firstIndex (rlog rf') = k" "rsnapshot rf \<noteq> None \<longrightarrow> firstIndex (rlog rf) < k" by auto
  have "keeps img Cs rf'" if "keeps img Cs rf"
  proof -
    from keeps_snap[OF that] new(5) have "0 < k" by simp
    with assms(3) that new show ?thesis by (simp add: keeps_def snap_at_def call_ok_def)
  qed
  with new outbox_local(4)[OF assms(1)] show ?thesis by (simp add: advances_def)
qed (use steady_advances outbox_local(4)[OF assms(1)] in blast)

lemma advances_InstallSnapshot:
  assumes "InstallSnapshot now (gob_snapshot a) rf = Some (rf', reply)" and "wf_log (rlog rf)"
    and "snap_at img Cs (LastIncludeLogIndex (isSnapshot a)) (snData (isSnapshot a))" and img: "\<And>cs. img cs \<noteq> []"
  shows "advances img Cs rf rf'"
proof (cases "steady rf rf'")
  case False
  let ?k = "LastIncludeLogIndex (isSnapshot a)"
  from False InstallSnapshot_snap[OF assms(1,2)] have new: "lastApplied rf' = lastApplied rf"
    "commitIndex rf \<le> commitIndex rf'" "rsnapshot rf' = gob_bytes (snData (isSnapshot a))"
    "firstIndex (rlog rf') = ?k" "firstIndex (rlog rf) < ?k" by (auto simp: gob_snapshot_def)
  have "keeps img Cs rf'" if "keeps img Cs rf"
  proof -
    from keeps_snap[OF that] new(5) have "0 < ?k" by simp
    with assms(3) that new img show ?thesis by (auto simp: keeps_def snap_at_def gob_bytes_def)
  qed
  with new outbox_rpc(5)[OF assms(1)] show ?thesis by (simp add: advances_def)
qed (use steady_advances outbox_rpc(5)[OF assms(1)] in blast)

lemma handle_advances:
  assumes so: "sound img Cs g s" and p: "p \<in># net s" and img: "\<And>cs. img cs \<noteq> []"
    and h: "handle now p (s\<lparr>net := net s - {#p#}\<rparr>) = Some t"
  obtains i rf M where "changes s i rf M t" "advances img Cs (srv s i) rf"
    "\<forall>q \<in># M. q \<in># net s \<or> snap_packet img Cs q"
proof -
  note result = that
  have sf: "safe s g" and pk: "snap_packet img Cs p" using so p by (auto simp: sound_def)
  obtain c v where e: "ends p = (c, v)" by fastforce
  note b = basic_ends[OF safeD(2)[OF sf] p e]
  note ne = basicD(4)[OF safeD(2)[OF sf] b(1)]
  have caller: thesis if "t = put c rf M (s\<lparr>net := net s - {#p#}\<rparr>)" "advances img Cs (srv s c) rf"
      "\<forall>q \<in># M. snap_packet img Cs q" for rf M
    by (rule result[of c rf "net s - {#p#} + M"]) (use b that in \<open>auto simp: changes_def put_def dest: in_diffD\<close>)
  have server: thesis if "t = put v rf M (s\<lparr>net := net s - {#p#}\<rparr>)" "advances img Cs (srv s v) rf"
      "\<forall>q \<in># M. snap_packet img Cs q" for rf M
    by (rule result[of v rf "net s - {#p#} + M"]) (use b that in \<open>auto simp: changes_def put_def dest: in_diffD\<close>)
  note started = snap_packet_started[where img = img and Cs = Cs]
  show thesis
  proof (cases p)
    case (VoteReq _ _ a)
    with h e obtain rf r where hd: "RequestVote now a (srv s v) = Some (rf, r)"
      and t: "t = put v rf {#VoteRep c v a r#} (s\<lparr>net := net s - {#p#}\<rparr>)" by (auto elim!: bindE)
    show ?thesis by (rule server[OF t steady_advances[OF steady_RequestVote[OF hd] outbox_rpc(1)[OF hd]]]) simp
  next
    case (VoteRep _ _ a r)
    with h e obtain rf sp where hd: "RequestVote_done now a r (srv s c) = Some (rf, sp)"
      and t: "t = put c rf (started c sp) (s\<lparr>net := net s - {#p#}\<rparr>)" by (auto elim!: bindE)
    show ?thesis
      by (rule caller[OF t steady_advances[OF steady_RequestVote_done[OF hd ne] outbox_rpc(2)[OF hd]]]) (use started in blast)
  next
    case (AppReq _ _ a)
    with h e obtain rf r where hd: "AppendEntry now a (srv s v) = Some (rf, r)"
      and t: "t = put v rf {#AppRep c v a r#} (s\<lparr>net := net s - {#p#}\<rparr>)" by (auto elim!: bindE)
    from safeD(7)[OF sf p] AppReq e have a: "app_req_ok (nsrv s) g c a" by simp
    show ?thesis by (rule server[OF t steady_advances[OF steady_AppendEntry[OF sf b(2) a hd] outbox_rpc(3)[OF hd]]]) simp
  next
    case (AppRep _ _ a r)
    with h e obtain rf sp where hd: "AppendEntry_done now v a r (srv s c) = Some (rf, sp)"
      and t: "t = put c rf (started c sp) (s\<lparr>net := net s - {#p#}\<rparr>)" by (auto elim!: bindE)
    show ?thesis
      by (rule caller[OF t steady_advances[OF steady_AppendEntry_done[OF hd] outbox_rpc(4)[OF hd]]]) (use started in blast)
  next
    case (SnapGo _ _)
    with h e obtain a where hd: "requestInstallSnapshot_args (srv s c) = Some a"
      and t: "t = put c (srv s c) {#SnapReq c v a#} (s\<lparr>net := net s - {#p#}\<rparr>)" by (auto elim!: bindE)
    have "keeps img Cs (srv s c)" using so b(1) by (simp add: sound_def)
    with hd ne have "snap_packet img Cs (SnapReq c v a)"
      by (auto simp: requestInstallSnapshot_args_def keeps_def go_nth_hd elim!: bindE)
    then show ?thesis by (intro caller[OF t steady_advances]) simp_all
  next
    case (SnapReq _ _ a)
    with h e obtain rf r where hd: "InstallSnapshot now (gob_snapshot a) (srv s v) = Some (rf, r)"
      and t: "t = put v rf {#SnapRep c v a r#} (s\<lparr>net := net s - {#p#}\<rparr>)" by (auto elim!: bindE)
    from pk SnapReq have sn: "snap_at img Cs (LastIncludeLogIndex (isSnapshot a)) (snData (isSnapshot a))" by simp
    show ?thesis
      by (rule server[OF t advances_InstallSnapshot[OF hd server_okD(6)[OF safeD(5)[OF sf b(2)]] sn img]]) simp
  next
    case (SnapRep _ _ a r)
    with h e obtain rf sp where hd: "InstallSnapshot_done now v a r (srv s c) = Some (rf, sp)"
      and t: "t = put c rf (started c sp) (s\<lparr>net := net s - {#p#}\<rparr>)" by (auto elim!: bindE)
    show ?thesis
      by (rule caller[OF t steady_advances[OF steady_InstallSnapshot_done[OF hd] outbox_rpc(6)[OF hd]]]) (use started in blast)
  qed
qed

lemma event_advances:
  assumes so: "sound img Cs g s" and img: "\<And>cs. img cs \<noteq> []"
    and ex: "raft_exec ev s = Some t" and tr: "truthful img Cs ev"
  obtains i rf M where "changes s i rf M t" "advances img Cs (srv s i) rf"
    "\<forall>q \<in># M. q \<in># net s \<or> snap_packet img Cs q"
proof -
  note result = that
  have sf: "safe s g" using so by (simp add: sound_def)
  have local: thesis if "i < nsrv s" "t = put i rf (started i sp) s" "advances img Cs (srv s i) rf" for i rf sp
    by (rule result[of i rf "net s + started i sp"])
      (use that in \<open>auto simp: changes_def put_def snap_packet_of\<close>)
  show thesis
  proof (cases ev)
    case (Tick i now rnd)
    with ex obtain rf sp where i: "i < nsrv s" "t = put i rf (started i sp) s"
      and h: "ticker now rnd (srv s i) = Some (rf, sp)" by (auto elim!: bindE split: if_split_asm)
    show ?thesis by (rule local[OF i steady_advances[OF steady_local(1)[OF h] outbox_local(1)[OF h]]])
  next
    case (Heartbeat i now)
    with ex obtain rf sp where i: "i < nsrv s" "t = put i rf (started i sp) s"
      and h: "heatbeat now (srv s i) = Some (rf, sp)" by (auto elim!: bindE split: if_split_asm)
    show ?thesis by (rule local[OF i steady_advances[OF steady_local(2)[OF h] outbox_local(2)[OF h]]])
  next
    case (Command i now c)
    with ex obtain rf sp r where i: "i < nsrv s" "t = put i rf (started i sp) s"
      and h: "StartCommand now c (srv s i) = Some (rf, sp, r)" by (auto elim!: bindE split: if_split_asm)
    note ne = basicD(4)[OF safeD(2)[OF sf] i(1)]
    show ?thesis by (rule local[OF i steady_advances[OF steady_local(3)[OF h ne] outbox_local(3)[OF h]]])
  next
    case (Compact i now k d)
    with ex tr obtain rf sp x where i: "i < nsrv s" "t = put i rf (started i sp) s"
      and h: "SnapshotService now k (Some x) (srv s i) = Some (rf, sp)" and c: "call_ok img Cs k x"
      by (auto elim!: bindE split: if_split_asm)
    show ?thesis by (rule local[OF i advances_Compact[OF h safeD(5)[OF sf i(1)] c]])
  next
    case (Handle p now)
    with ex have p: "p \<in># net s" and h: "handle now p (s\<lparr>net := net s - {#p#}\<rparr>) = Some t"
      by (auto split: if_split_asm)
    show ?thesis by (rule handle_advances[OF so p img h]) (rule that)
  next
    case (Lose p)
    with ex have p: "p \<in># net s" and t: "t = s\<lparr>net := net s - {#p#}\<rparr>" by (simp_all split: if_split_asm)
    obtain c v where "ends p = (c, v)" by fastforce
    with basic_ends[OF safeD(2)[OF sf] p] have "changes s c (srv s c) (net s - {#p#}) t"
      by (simp add: changes_def t)
    then show ?thesis by (rule that) (auto simp: steady_advances dest: in_diffD)
  qed (use tr in simp_all)
qed

text \<open>The three kinds of events: the sequence of committed commands may grow, nothing else moves.\<close>

lemma sound_change:
  assumes so: "sound img Cs g s" and st: "raft_step s t" and ch: "changes s i rf M t"
    and kp: "keeps img Cs rf" and M: "\<forall>q \<in># M. q \<in># net s \<or> snap_packet img Cs q"
  shows "\<exists>Ds g'. prefix Cs Ds \<and> extends g g' \<and> sound img Ds g' t"
proof -
  have sf: "safe s g" and cl: "committed_list (nsrv s) g Cs" using so by (auto simp: sound_def)
  from safe_step[OF sf st] obtain g' where g': "safe t g'" "extends g g'" by blast
  have t: "nsrv t = nsrv s" "srv t = (srv s)(i := rf)" "net t = M" using ch by (simp_all add: changes_def)
  from committed_list_extends[OF g'(2) cl] t(1) have "committed_list (nsrv t) g' Cs" by simp
  from committed_list_continue[OF g'(1) this] obtain Ds where
    Ds: "prefix Cs Ds" "committed_list (nsrv t) g' Ds" "covers Ds t" by blast
  have "keeps img Ds (srv t j)" if "j < nsrv t" for j
    using keeps_prefix[OF _ Ds(1)] kp so that by (auto simp: t sound_def)
  moreover have "snap_packet img Ds p" if "p \<in># net t" for p
    using snap_packet_prefix[OF _ Ds(1)] M so that unfolding t sound_def by blast
  ultimately show ?thesis using Ds g' by (auto simp: sound_def)
qed

lemma sound_event:
  assumes so: "sound img Cs g s" and img: "\<And>cs. img cs \<noteq> []"
    and ex: "raft_exec ev s = Some t" and tr: "truthful img Cs ev"
  shows "(\<exists>Ds g'. prefix Cs Ds \<and> extends g g' \<and> sound img Ds g' t) \<and> nsrv t = nsrv s \<and>
    (\<forall>i < nsrv s. outbox (srv t i) = outbox (srv s i) \<and> lastApplied (srv t i) = lastApplied (srv s i))"
  using so img ex tr
proof (rule event_advances)
  fix i rf M assume ch: "changes s i rf M t" and ad: "advances img Cs (srv s i) rf"
    and M: "\<forall>q \<in># M. q \<in># net s \<or> snap_packet img Cs q"
  from so ch ad have "keeps img Cs rf" by (auto simp: sound_def changes_def advances_def)
  from sound_change[OF so raft_step.intros[OF ex] ch this M] ch ad show ?thesis
    by (auto simp: changes_def advances_def)
qed

lemma sound_Applier:
  assumes so: "sound img Cs g s" and ex: "raft_exec (Applier i) s = Some t"
    and ap: "applyLog (srv s i) = Some (rf, ms)"
    and sm: "stream img Cs n (outbox (srv s i)) (nat (lastApplied (srv s i)))"
  shows "(\<exists>Ds g'. prefix Cs Ds \<and> extends g g' \<and> sound img Ds g' t) \<and> i < nsrv s \<and> nsrv t = nsrv s \<and>
    srv t = (srv s)(i := rf) \<and>
    (ms = [] \<and> stream img Cs n (outbox rf) (nat (lastApplied rf)) \<or>
     (\<exists>m. ms = [m] \<and> stream img Cs n (m # outbox rf) (nat (lastApplied rf))))"
proof -
  from ex ap have i: "i < nsrv s" and ch: "changes s i rf (net s) t"
    by (auto split: if_split_asm simp: put_def changes_def)
  have "safe s g" "committed_list (nsrv s) g Cs" "covers Cs s" "keeps img Cs (srv s i)"
    using so i by (auto simp: sound_def)
  note k = applyLog_stream[OF this(1-3) i this(4) ap sm]
  then have "\<exists>Ds g'. prefix Cs Ds \<and> extends g g' \<and> sound img Ds g' t"
    by (intro sound_change[OF so raft_step.intros[OF ex] ch]) simp_all
  with k i ch show ?thesis by (simp add: changes_def)
qed

text \<open>A restart: the snapshot the server finds is that of the prefix up to its last applied index.\<close>

lemma sound_Restart:
  assumes so: "sound img Cs g s" and ex: "raft_exec (Restart i now rnd) s = Some t"
  shows "(\<exists>Ds g'. prefix Cs Ds \<and> extends g g' \<and> sound img Ds g' t) \<and> i < nsrv s \<and> nsrv t = nsrv s \<and>
    (\<forall>j. j \<noteq> i \<longrightarrow> srv t j = srv s j) \<and> outbox (srv t i) = [] \<and> 0 \<le> lastApplied (srv t i) \<and>
    snap_at img Cs (lastApplied (srv t i)) (ReadSnapshot (persister (srv t i)))"
proof -
  let ?ps = "Checkpoint (persister (srv s i))"
  from ex obtain rf where i: "i < nsrv s" and mk: "Make (nsrv s) (int i) ?ps now rnd = Some rf"
    and ch: "changes s i rf (filter_mset (survives i) (net s)) t"
    by (auto elim!: bindE split: if_split_asm simp: changes_def)
  have sf: "safe s g" and kp: "keeps img Cs (srv s i)" using so i by (auto simp: sound_def)
  have du: "durable (srv s i)" by (rule basicD(3)[OF safeD(2)[OF sf] i])
  from Make_Some[of "nsrv s" "int i" ?ps now rnd] mk have rf:
    "(currentTerm rf, votedFor rf, rlog rf) = recovered ?ps" "rsnapshot rf = ReadSnapshot ?ps" "persister rf = ?ps"
    "applier rf = Checking" "commitIndex rf = firstIndex (rlog rf)" "lastApplied rf = firstIndex (rlog rf)"
    by (metis option.inject)+
  have re: "recovered ?ps = recovered (persister (srv s i))" "ReadSnapshot ?ps = ReadSnapshot (persister (srv s i))"
    by (simp_all add: recovered_def Checkpoint_def ReadRaftState_def ReadSnapshot_def)
  with du rf(1) have log: "rlog rf = rlog (srv s i)" by (simp add: durable_def)
  from kp du re have "snap_at img Cs (firstIndex (rlog (srv s i))) (ReadSnapshot ?ps)"
    using keeps_snap[OF kp] by (auto simp: durable_def keeps_def)
  then have sn: "snap_at img Cs (lastApplied rf) (ReadSnapshot (persister rf))" by (simp add: rf log)
  with rf log keeps_snap[OF kp] have "keeps img Cs rf" by (simp add: keeps_def)
  from sound_change[OF so raft_step.intros[OF ex] ch this] have
    "\<exists>Ds g'. prefix Cs Ds \<and> extends g g' \<and> sound img Ds g' t" by auto
  with i ch sn rf(4,6) keeps_snap[OF kp] log show ?thesis by (simp add: changes_def outbox_def)
qed

lemma sound_init:
  assumes "raft_init s"
  shows "sound img [] (no_history s) s \<and> (\<forall>i. outbox (srv s i) = [] \<and> lastApplied (srv s i) = 0)"
  using assms
proof (induction rule: raft_init.induct)
  case (1 n now rnd)
  let ?s = "boot n now rnd :: ('a, 'b) cluster"
  have mk: "rsnapshot (srv ?s i) = Some []" "lastApplied (srv ?s i) = 0" "commitIndex (srv ?s i) = 0"
      "firstIndex (rlog (srv ?s i)) = 0" "applier (srv ?s i) = Checking" for i
  proof -
    obtain rf where m: "Make n (int i) (MakePersister :: ('a gobval, 'b) Persister) (now i) (rnd i) = Some rf"
      and rf: "(currentTerm rf, votedFor rf, rlog rf) = recovered (MakePersister :: ('a gobval, 'b) Persister)"
      "rsnapshot rf = ReadSnapshot (MakePersister :: ('a gobval, 'b) Persister)"
      "applier rf = Checking" "commitIndex rf = firstIndex (rlog rf)" "lastApplied rf = firstIndex (rlog rf)"
      by (rule Make_Some)
    then show "rsnapshot (srv ?s i) = Some []" "lastApplied (srv ?s i) = 0" "commitIndex (srv ?s i) = 0"
      "firstIndex (rlog (srv ?s i)) = 0" "applier (srv ?s i) = Checking"
      by (simp_all add: boot_def recovered_def MakePersister_def ReadSnapshot_def ReadRaftState_def boot_entry_def)
  qed
  then have "\<forall>i < nsrv ?s. keeps img [] (srv ?s i)" "covers [] ?s"
    by (simp_all add: keeps_def snap_at_def covers_def)
  moreover have "net ?s = {#}" by (simp add: boot_def)
  ultimately show ?case using safe_init[OF raft_init.intros[of n now rnd]] mk
    by (simp add: sound_def committed_list_def outbox_def)
qed

end
