(* ===== verification/RaftService.thy ===== *)
theory RaftService
  imports RaftStream
begin

text \<open>
  A service on top of Raft: the cluster of \<open>RaftCluster\<close> together with the goroutines that read
  \<^verbatim>\<open>applyCh\<close> and call \<^verbatim>\<open>Snapshot\<close>, as the tests of Raft (\<^verbatim>\<open>raft1/server.go\<close>) and the replicated state machine
  (\<^verbatim>\<open>kvraft1/rsm/rsm.go\<close>) put them together.  The contract \<open>replicated_service\<close> says what a service
  does with the messages; from it follows, for every run with crashes, lost messages and
  installed snapshots, that every server's service has executed a prefix of one sequence of
  commands.
\<close>

section \<open>The system\<close>

text \<open>
  The state of all services is one value, because the servers of the Raft tests share the tester.
  \<open>sv_start\<close> starts the service of a server from the snapshot in its persister, \<open>sv_recv\<close>
  handles one message of \<open>applyCh\<close>, \<open>sv_snap\<close> is a round of a goroutine that takes snapshots; the last
  two may end in a call of \<^verbatim>\<open>Snapshot\<close>.  Their \<open>int\<close> argument is what \<^verbatim>\<open>PersistBytes\<close> returns.
  \<open>sv_local\<close> is whatever else the service does.  \<open>None\<close> is a fatal error.
\<close>

type_synonym 'b snap_call = "(int \<times> 'b list) option"

record ('c, 'b, 'e, 'v) service =
  sv_boot :: "nat \<Rightarrow> 'v"
  sv_start :: "nat \<Rightarrow> ('c gobval, 'b) Persister \<Rightarrow> 'v \<Rightarrow> 'v option"
  sv_recv :: "nat \<Rightarrow> int \<Rightarrow> ('c, 'b) ApplyMsg \<Rightarrow> 'v \<Rightarrow> ('v \<times> 'b snap_call) option"
  sv_snap :: "nat \<Rightarrow> int \<Rightarrow> 'v \<Rightarrow> 'v \<times> 'b snap_call"
  sv_local :: "nat \<Rightarrow> 'e \<Rightarrow> 'v \<Rightarrow> 'v"

text \<open>\<open>calls i\<close> is the call of \<^verbatim>\<open>Snapshot\<close> that the service of server \<open>i\<close> is about to make.\<close>

record ('c, 'b, 'v) system =
  cl :: "('c, 'b) cluster"
  svc :: 'v
  calls :: "nat \<Rightarrow> 'b snap_call"

datatype ('c, 'b, 'e) sys_event =
  Net "('c, 'b) event"
| Read nat int
| Snap nat int
| Call nat int
| Reboot nat int int
| Local nat 'e

text \<open>The events of the cluster that the services have no part in.\<close>

fun plain :: "('c, 'b) event \<Rightarrow> bool" where
  "plain (Applier i) \<longleftrightarrow> False"
| "plain (Compact i now k d) \<longleftrightarrow> False"
| "plain (Restart i now rnd) \<longleftrightarrow> False"
| "plain _ \<longleftrightarrow> True"

text \<open>
  A message is received when it is sent, for \<open>applyCh\<close> has no buffer, and not while the service is
  inside \<^verbatim>\<open>Snapshot\<close>.
\<close>

fun sys_exec ::
  "('c, 'b, 'e, 'v) service \<Rightarrow> ('c, 'b, 'e) sys_event \<Rightarrow> ('c, 'b, 'v) system \<Rightarrow> ('c, 'b, 'v) system option" where
  "sys_exec S (Net ev) s = (if plain ev then do { c \<leftarrow> raft_exec ev (cl s); Some (s\<lparr>cl := c\<rparr>) } else None)"
| "sys_exec S (Read i bytes) s = do {
     (rf, ms) \<leftarrow> applyLog (srv (cl s) i);
     c \<leftarrow> raft_exec (Applier i) (cl s);
     (case ms of
        [] \<Rightarrow> Some (s\<lparr>cl := c\<rparr>)
      | m # _ \<Rightarrow>
          if calls s i \<noteq> None then None
          else do { (v, call) \<leftarrow> sv_recv S i bytes m (svc s);
                    Some (s\<lparr>cl := c, svc := v, calls := (calls s)(i := call)\<rparr>) }) }"
| "sys_exec S (Snap i bytes) s =
     (if calls s i \<noteq> None then None
      else case sv_snap S i bytes (svc s) of (v, call) \<Rightarrow> Some (s\<lparr>svc := v, calls := (calls s)(i := call)\<rparr>))"
| "sys_exec S (Call i now) s = do {
     (k, d) \<leftarrow> calls s i;
     c \<leftarrow> raft_exec (Compact i now k (Some d)) (cl s);
     Some (s\<lparr>cl := c, calls := (calls s)(i := None)\<rparr>) }"
| "sys_exec S (Reboot i now rnd) s = do {
     c \<leftarrow> raft_exec (Restart i now rnd) (cl s);
     v \<leftarrow> sv_start S i (persister (srv c i)) (svc s);
     Some (s\<lparr>cl := c, svc := v, calls := (calls s)(i := None)\<rparr>) }"
| "sys_exec S (Local i e) s = Some (s\<lparr>svc := sv_local S i e (svc s)\<rparr>)"

inductive sys_init :: "('c, 'b, 'e, 'v) service \<Rightarrow> ('c, 'b, 'v) system \<Rightarrow> bool" for S where
  "sys_init S \<lparr>cl = boot n now rnd, svc = sv_boot S n, calls = (\<lambda>_. None)\<rparr>"

inductive sys_step :: "('c, 'b, 'e, 'v) service \<Rightarrow> ('c, 'b, 'v) system \<Rightarrow> ('c, 'b, 'v) system \<Rightarrow> bool" for S where
  "sys_exec S ev s = Some t \<Longrightarrow> sys_step S s t"

inductive_simps sys_init_iff: "sys_init S s"
inductive_simps sys_step_iff: "sys_step S s t"

interpretation sys: transition_system "sys_init S" "sys_step S" for S
  by unfold_locales (blast intro: sys_init.intros)

abbreviation sys_reach :: "('c, 'b, 'e, 'v) service \<Rightarrow> ('c, 'b, 'v) system \<Rightarrow> bool" where
  "sys_reach S \<equiv> transition_system.reach (sys_init S) (sys_step S)"

fun sys_run ::
  "('c, 'b, 'e, 'v) service \<Rightarrow> ('c, 'b, 'e) sys_event list \<Rightarrow> ('c, 'b, 'v) system \<Rightarrow> ('c, 'b, 'v) system option" where
  "sys_run S [] s = Some s"
| "sys_run S (ev # evs) s = do { t \<leftarrow> sys_exec S ev s; sys_run S evs t }"

lemma sys_run_steps: "sys_run S evs s = Some t \<Longrightarrow> (sys_step S)\<^sup>*\<^sup>* s t"
  by (induction evs arbitrary: s)
    (auto elim!: bindE intro: sys_step.intros converse_rtranclp_into_rtranclp)

section \<open>The contract\<close>

text \<open>
  \<open>holds Cs a v\<close>: in state \<open>v\<close> the service of every server \<open>i\<close> has executed the first \<open>a i\<close> commands of \<open>Cs\<close>;
  \<open>img\<close> is the snapshot after a list of commands.
\<close>

locale replicated_service =
  fixes S :: "('c, 'b, 'e, 'v) service"
    and img :: "'c option list \<Rightarrow> 'b list"
    and holds :: "'c option list \<Rightarrow> (nat \<Rightarrow> nat) \<Rightarrow> 'v \<Rightarrow> bool"
  assumes img_nonempty: "img cs \<noteq> []"
    and holds_prefix: "holds Cs a v \<Longrightarrow> prefix Cs Ds \<Longrightarrow> holds Ds a v"
    and boot_holds: "holds [] (\<lambda>_. 0) (sv_boot S n)"
    and start_empty: "holds Cs a v \<Longrightarrow> ReadSnapshot ps = Some [] \<Longrightarrow>
      \<exists>v'. sv_start S i ps v = Some v' \<and> holds Cs (a(i := 0)) v'"
    and start_img: "holds Cs a v \<Longrightarrow> 0 < k \<Longrightarrow> k \<le> length Cs \<Longrightarrow> ReadSnapshot ps = Some (img (take k Cs)) \<Longrightarrow>
      \<exists>v'. sv_start S i ps v = Some v' \<and> holds Cs (a(i := k)) v'"
    and recv_command: "holds Cs a v \<Longrightarrow> a i < length Cs \<Longrightarrow>
      sv_recv S i x (CommandMsg (Cs ! a i) (int (a i) + 1)) v = Some (v', call) \<Longrightarrow>
      holds Cs (a(i := Suc (a i))) v' \<and> pred_option (\<lambda>(k, d). call_ok img Cs k d) call"
    and recv_snapshot: "holds Cs a v \<Longrightarrow> a i < k \<Longrightarrow> k \<le> length Cs \<Longrightarrow>
      sv_recv S i x (SnapshotMsg (img (take k Cs)) t (int k)) v = Some (v', call) \<Longrightarrow>
      holds Cs (a(i := k)) v' \<and> pred_option (\<lambda>(k, d). call_ok img Cs k d) call"
    and snap_holds: "holds Cs a v \<Longrightarrow> sv_snap S i x v = (v', call) \<Longrightarrow> (\<forall>j. a j \<le> length Cs) \<Longrightarrow>
      holds Cs a v' \<and> pred_option (\<lambda>(k, d). call_ok img Cs k d) call"
    and local_holds: "holds Cs a v \<Longrightarrow> holds Cs a (sv_local S i e v)"
begin

definition in_step :: "'c option list \<Rightarrow> 'c ghost \<Rightarrow> (nat \<Rightarrow> nat) \<Rightarrow> ('c, 'b, 'v) system \<Rightarrow> bool" where
  "in_step Cs g a s \<longleftrightarrow> sound img Cs g (cl s) \<and> holds Cs a (svc s) \<and> (\<forall>i. a i \<le> length Cs) \<and>
     (\<forall>i < nsrv (cl s). stream img Cs (a i) (outbox (srv (cl s) i)) (nat (lastApplied (srv (cl s) i)))) \<and>
     (\<forall>i k d. calls s i = Some (k, d) \<longrightarrow> call_ok img Cs k d)"

lemma in_step_grow:
  assumes "prefix Cs Ds" "sound img Ds g (cl s)" "holds Cs a (svc s)" "\<forall>i. a i \<le> length Cs"
    and "\<And>i. i < nsrv (cl s) \<Longrightarrow> stream img Cs (a i) (outbox (srv (cl s) i)) (nat (lastApplied (srv (cl s) i)))"
    and "\<And>i k d. calls s i = Some (k, d) \<Longrightarrow> call_ok img Cs k d"
  shows "in_step Ds g a s"
  unfolding in_step_def
  using assms(2,4) prefix_length_le[OF assms(1)] le_trans
    holds_prefix[OF assms(3,1)] stream_prefix[OF assms(5) assms(1)] call_ok_prefix[OF assms(6) assms(1)]
  by blast

lemma in_step_exec:
  assumes inv: "in_step Cs g a s" and ex: "sys_exec S ev s = Some t"
  shows "\<exists>Ds g' a'. prefix Cs Ds \<and> extends g g' \<and> in_step Ds g' a' t"
proof -
  have so: "sound img Cs g (cl s)" and ho: "holds Cs a (svc s)" and le: "\<forall>i. a i \<le> length Cs"
    and sm: "\<And>i. i < nsrv (cl s) \<Longrightarrow> stream img Cs (a i) (outbox (srv (cl s) i)) (nat (lastApplied (srv (cl s) i)))"
    and ca: "\<And>i k d. calls s i = Some (k, d) \<Longrightarrow> call_ok img Cs k d" using inv by (auto simp: in_step_def)
  have refl: "extends g g" using safeD(8)[of "cl s" g] so by (simp add: extends_def sound_def)
  have stay: ?thesis if "in_step Cs g a' t" for a' using that refl by blast
  have quiet: ?thesis if "raft_exec e (cl s) = Some (cl t)" "truthful img Cs e" "svc t = svc s"
      "\<And>i k d. calls t i = Some (k, d) \<Longrightarrow> call_ok img Cs k d" for e
  proof -
    from sound_event[OF so img_nonempty that(1,2)] obtain Ds g' where
      D: "prefix Cs Ds" "extends g g'" "sound img Ds g' (cl t)" "nsrv (cl t) = nsrv (cl s)"
      "\<And>i. i < nsrv (cl s) \<Longrightarrow> outbox (srv (cl t) i) = outbox (srv (cl s) i) \<and>
        lastApplied (srv (cl t) i) = lastApplied (srv (cl s) i)" by blast
    from in_step_grow[OF D(1,3), of a] ho le sm D(4,5) that(3,4) have "in_step Ds g' a t" by simp
    with D show ?thesis by blast
  qed
  show ?thesis
  proof (cases ev)
    case (Net e)
    with ex have "raft_exec e (cl s) = Some (cl t)" "plain e" "svc t = svc s" "calls t = calls s"
      by (auto elim!: bindE split: if_split_asm)
    then show ?thesis using ca by (intro quiet[of e]) (cases e; simp)+
  next
    case (Call i now)
    with ex obtain k d where "calls s i = Some (k, d)" "raft_exec (Compact i now k (Some d)) (cl s) = Some (cl t)"
      "svc t = svc s" "calls t = (calls s)(i := None)" by (auto elim!: bindE)
    then show ?thesis using ca by (intro quiet[of "Compact i now k (Some d)"]) (auto split: if_split_asm)
  next
    case (Snap i bytes)
    with ex obtain v call where v: "sv_snap S i bytes (svc s) = (v, call)"
      and t: "t = s\<lparr>svc := v, calls := (calls s)(i := call)\<rparr>" by (auto split: if_split_asm prod.splits)
    from snap_holds[OF ho v le] have "holds Cs a v" "pred_option (\<lambda>(k, d). call_ok img Cs k d) call" by auto
    then show ?thesis using so le sm ca by (intro stay[of a]) (auto simp: in_step_def t)
  next
    case (Local i e)
    with ex have "t = s\<lparr>svc := sv_local S i e (svc s)\<rparr>" by simp
    then show ?thesis using so le sm ca local_holds[OF ho] by (intro stay[of a]) (simp add: in_step_def)
  next
    case (Reboot i now rnd)
    with ex obtain v where r: "raft_exec (Restart i now rnd) (cl s) = Some (cl t)"
      and v: "sv_start S i (persister (srv (cl t) i)) (svc s) = Some v"
      and t: "svc t = v" "calls t = (calls s)(i := None)" by (auto elim!: bindE)
    from sound_Restart[OF so r] obtain Ds g' where
      D: "prefix Cs Ds" "extends g g'" "sound img Ds g' (cl t)" "nsrv (cl t) = nsrv (cl s)"
      "\<And>j. j \<noteq> i \<Longrightarrow> srv (cl t) j = srv (cl s) j" "outbox (srv (cl t) i) = []"
      and sn: "0 \<le> lastApplied (srv (cl t) i)"
        "snap_at img Cs (lastApplied (srv (cl t) i)) (ReadSnapshot (persister (srv (cl t) i)))" by blast
    let ?k = "nat (lastApplied (srv (cl t) i))"
    have "holds Cs (a(i := ?k)) v \<and> ?k \<le> length Cs"
    proof (cases "lastApplied (srv (cl t) i) = 0")
      case True
      with sn(2) v start_empty[OF ho, of "persister (srv (cl t) i)" i] show ?thesis by (simp add: snap_at_def)
    next
      case False
      with sn v start_img[OF ho, of ?k "persister (srv (cl t) i)" i] show ?thesis
        by (auto simp: snap_at_def nat_le_iff)
    qed
    then have "in_step Ds g' (a(i := ?k)) t"
      using le D ca sm by (intro in_step_grow[OF D(1,3)]) (auto simp: t split: if_split_asm)
    with D show ?thesis by blast
  next
    case (Read i bytes)
    from ex Read obtain rf ms where ap: "applyLog (srv (cl s) i) = Some (rf, ms)"
      and r: "raft_exec (Applier i) (cl s) = Some (cl t)"
      and res: "ms = [] \<and> svc t = svc s \<and> calls t = calls s \<or> (\<exists>m ms' call. ms = m # ms' \<and>
        sv_recv S i bytes m (svc s) = Some (svc t, call) \<and> calls t = (calls s)(i := call))"
      by (auto elim!: bindE split: list.splits if_split_asm)
    have i: "i < nsrv (cl s)" using r by (simp split: if_split_asm)
    from sound_Applier[OF so r ap sm[OF i]] obtain Ds g' where
      D: "prefix Cs Ds" "extends g g'" "sound img Ds g' (cl t)" "nsrv (cl t) = nsrv (cl s)"
        "srv (cl t) = (srv (cl s))(i := rf)"
      and alt: "ms = [] \<and> stream img Cs (a i) (outbox rf) (nat (lastApplied rf)) \<or>
        (\<exists>m. ms = [m] \<and> stream img Cs (a i) (m # outbox rf) (nat (lastApplied rf)))" by blast
    have fin: ?thesis if "holds Cs a' (svc t)" "\<And>j. j \<noteq> i \<Longrightarrow> a' j = a j" "a' i \<le> length Cs"
        "stream img Cs (a' i) (outbox rf) (nat (lastApplied rf))"
        "\<And>j k d. calls t j = Some (k, d) \<Longrightarrow> call_ok img Cs k d" for a'
    proof -
      have "\<forall>j. a' j \<le> length Cs" using that(2,3) le by metis
      then have "in_step Ds g' a' t" using that sm D(4,5) by (intro in_step_grow[OF D(1,3)]) auto
      with D show ?thesis by blast
    qed
    from alt show ?thesis
    proof (elim disjE exE conjE)
      assume "ms = []" "stream img Cs (a i) (outbox rf) (nat (lastApplied rf))"
      then show ?thesis using res ho le ca by (intro fin[of a]) auto
    next
      fix m assume m: "ms = [m]" "stream img Cs (a i) (m # outbox rf) (nat (lastApplied rf))"
      with res obtain call where rc: "sv_recv S i bytes m (svc s) = Some (svc t, call)"
        and ct: "calls t = (calls s)(i := call)" by auto
      have calls: "call_ok img Cs k d" if "pred_option (\<lambda>(k, d). call_ok img Cs k d) call"
          "calls t j = Some (k, d)" for j k d
        using that ca ct by (auto split: if_split_asm)
      show ?thesis
      proof (cases m)
        case (CommandMsg c k)
        with m have k: "a i < length Cs" "m = CommandMsg (Cs ! a i) (int (a i) + 1)"
          "stream img Cs (Suc (a i)) (outbox rf) (nat (lastApplied rf))" by auto
        from recv_command[OF ho k(1) rc[unfolded k(2)]] k calls show ?thesis
          by (intro fin[of "a(i := Suc (a i))"]) auto
      next
        case (SnapshotMsg d tm k)
        with m have k: "a i < nat k" "nat k \<le> length Cs" "m = SnapshotMsg (img (take (nat k) Cs)) tm (int (nat k))"
          "stream img Cs (nat k) (outbox rf) (nat (lastApplied rf))" by auto
        from recv_snapshot[OF ho k(1,2) rc[unfolded k(3)]] k calls show ?thesis
          by (intro fin[of "a(i := nat k)"]) auto
      qed
    qed
  qed
qed

lemma in_step_run:
  assumes "(sys_step S)\<^sup>*\<^sup>* s t" and "in_step Cs g a s"
  shows "\<exists>Ds g' a'. prefix Cs Ds \<and> in_step Ds g' a' t"
  using assms
proof (induction rule: rtranclp_induct)
  case (step t u)
  then obtain Ds g' a' ev where "prefix Cs Ds" "in_step Ds g' a' t" "sys_exec S ev t = Some u"
    by (auto simp: sys_step_iff)
  with in_step_exec[of Ds g' a' t ev u] show ?case using prefix_order.trans by blast
qed blast

lemma in_step_reach:
  assumes "sys_reach S s"
  shows "\<exists>Cs g a. in_step Cs g a s"
proof (rule sys.reach_invariant[OF assms])
  fix s assume "sys_init S s"
  then obtain n now rnd where s: "s = \<lparr>cl = boot n now rnd, svc = sv_boot S n, calls = (\<lambda>_. None)\<rparr>"
    by (auto simp: sys_init_iff)
  then have "raft_init (cl s)" by (simp add: raft_init.intros)
  from sound_init[OF this, of img] boot_holds[of n] have "in_step [] (no_history (cl s)) (\<lambda>_. 0) s"
    by (simp add: in_step_def s)
  then show "\<exists>Cs g a. in_step Cs g a s" by blast
next
  fix s t assume "\<exists>Cs g a. in_step Cs g a s" and "sys_step S s t"
  then show "\<exists>Cs g a. in_step Cs g a t" using in_step_exec by (auto simp: sys_step_iff) blast
qed

text \<open>At two moments of a run the services have executed prefixes of one sequence.\<close>

theorem one_sequence:
  assumes "sys_reach S s" and "(sys_step S)\<^sup>*\<^sup>* s t"
  shows "\<exists>Cs a b. holds Cs a (svc s) \<and> holds Cs b (svc t) \<and> (\<forall>i. a i \<le> length Cs \<and> b i \<le> length Cs)"
proof -
  from in_step_reach[OF assms(1)] obtain Cs g a where a: "in_step Cs g a s" by blast
  from in_step_run[OF assms(2) a] obtain Ds g' b where p: "prefix Cs Ds" and b: "in_step Ds g' b t" by blast
  from a have "holds Ds a (svc s)" "\<forall>i. a i \<le> length Ds"
    using holds_prefix[OF _ p] prefix_length_le[OF p] by (auto simp: in_step_def intro: le_trans)
  with b show ?thesis unfolding in_step_def by blast
qed

text \<open>A crashed server can always start again.\<close>

theorem reboot_works:
  assumes "sys_reach S s" and "i < nsrv (cl s)"
  shows "\<exists>t. sys_exec S (Reboot i now rnd) s = Some t"
proof -
  from in_step_reach[OF assms(1)] obtain Cs g a where so: "sound img Cs g (cl s)" and ho: "holds Cs a (svc s)"
    by (auto simp: in_step_def)
  obtain rf where "Make (nsrv (cl s)) (int i) (Checkpoint (persister (srv (cl s) i))) now rnd = Some rf"
    by (rule Make_Some)
  with assms(2) obtain c where c: "raft_exec (Restart i now rnd) (cl s) = Some c" by auto
  from sound_Restart[OF so c] have sn: "0 \<le> lastApplied (srv c i)"
    "snap_at img Cs (lastApplied (srv c i)) (ReadSnapshot (persister (srv c i)))" by blast+
  have "\<exists>v. sv_start S i (persister (srv c i)) (svc s) = Some v"
  proof (cases "lastApplied (srv c i) = 0")
    case True
    with sn(2) start_empty[OF ho, of "persister (srv c i)" i] show ?thesis by (auto simp: snap_at_def)
  next
    case False
    with sn start_img[OF ho, of "nat (lastApplied (srv c i))" "persister (srv c i)" i] show ?thesis by (auto simp: snap_at_def nat_le_iff)
  qed
  with c show ?thesis by (auto simp del: raft_exec.simps)
qed

end

section \<open>A run\<close>

text \<open>
  Server 0 is elected, takes command \<open>c\<close>, server 1 stores it, and both services execute it, with
  the no-op of the leader before it.
\<close>

definition script :: "'c \<Rightarrow> ('c, 'b, 'e) sys_event list" where
  "script c =
     [Net (Tick 0 400000000 0), Net (Handle (VoteReq 0 1 demo_args) 400000000),
      Net (Handle (VoteRep 0 1 demo_args \<lparr>rrTerm = 1, rrVoteGranted = True\<rparr>) 400000000),
      Net (Command 0 500000000 c), Net (Handle (AppReq 0 1 (agree_request c)) 500000000),
      Net (Handle (AppRep 0 1 (agree_request c)
        \<lparr>arTerm = 1, arSuccess = True, arXTerm = 0, arXIndex = 0, arXLen = 0\<rparr>) 500000000),
      Net (Handle (AppReq 0 1 agree_beat) 600000000),
      Read 0 0, Read 0 0, Read 0 0, Read 1 0, Read 1 0, Read 1 0]"

definition sys_boot :: "('c, 'b, 'e, 'v) service \<Rightarrow> nat \<Rightarrow> ('c, 'b, 'v) system" where
  "sys_boot S n = \<lparr>cl = boot n (\<lambda>_. 0) (\<lambda>_. 0), svc = sv_boot S n, calls = (\<lambda>_. None)\<rparr>"

lemma sys_boot_reach: "sys_reach S (sys_boot S n)"
  unfolding sys_boot_def by (intro sys.reach_init sys_init.intros)

lemma sys_run_reach: "sys_run S evs (sys_boot S n) = Some t \<Longrightarrow> sys_reach S t"
  using sys.reach_run[OF sys_boot_reach sys_run_steps] .

end
