(* ===== verification/RaftServer.thy ===== *)
theory RaftServer
  imports RaftReplication
begin

text \<open>
  The server that runs on top of Raft in the Raft tests (\<^verbatim>\<open>raft1/server.go\<close>), with the checks that
  the tester makes for it (\<open>CheckLogs\<close>, \<open>IngestLog\<close> and \<open>ApplyErr\<close> of \<^verbatim>\<open>raft1/test.go\<close>, reached through
  \<^verbatim>\<open>raft1/proxy.go\<close>).

  A message of the apply channel is handled in one step.  The error strings are a datatype with
  \<open>NoErr\<close> for the empty string; a call to the tester may fail (\<open>reached\<close> is false).  A snapshot is the
  labgob stream of the last index and the commands from index 0 on, with nil at index 0.
\<close>

datatype err_msg =
    NoErr | ErrRPC | ErrMismatch int | ErrOutOfOrder int | ErrExpected int int
  | ErrNilSnapshot | ErrDecode | ErrSnapshotIndex

datatype 'c snapval = SInt int | SLog "'c option list"

fun as_sint :: "'c snapval \<Rightarrow> int option" where
  "as_sint (SInt i) = Some i"
| "as_sint (SLog _) = None"

fun as_slog :: "'c snapval \<Rightarrow> 'c option list option" where
  "as_slog (SLog l) = Some l"
| "as_slog (SInt _) = None"

definition SnapShotInterval :: int where
  "SnapShotInterval = 10"

section \<open>The tester's side\<close>

record 'c tester =
  tn :: nat
  tlogs :: "nat \<Rightarrow> int \<rightharpoonup> 'c option"
  applyErr :: "nat \<Rightarrow> err_msg"
  maxIndex :: int

fun CheckLogs_loop :: "'c option \<Rightarrow> int \<Rightarrow> nat list \<Rightarrow> 'c tester \<Rightarrow> err_msg \<Rightarrow> err_msg" where
  "CheckLogs_loop v index [] ts err = err"
| "CheckLogs_loop v index (j # js) ts err =
     CheckLogs_loop v index js ts
       (case tlogs ts j index of
          None \<Rightarrow> err
        | Some old \<Rightarrow> if old \<noteq> v then ErrMismatch index else err)"

definition CheckLogs :: "nat \<Rightarrow> 'c option \<Rightarrow> int \<Rightarrow> 'c tester \<Rightarrow> err_msg \<times> bool \<times> 'c tester" where
  "CheckLogs i v index ts =
     (let err = CheckLogs_loop v index [0 ..< tn ts] ts NoErr;
          prevok = (tlogs ts i (index - 1) \<noteq> None)
      in (err, prevok,
          ts\<lparr>tlogs := (tlogs ts)(i := (tlogs ts i)(index \<mapsto> v)), maxIndex := max (maxIndex ts) index\<rparr>))"

definition IngestLog :: "nat \<Rightarrow> (int \<rightharpoonup> 'c option) \<Rightarrow> 'c tester \<Rightarrow> 'c tester" where
  "IngestLog i xlog ts = ts\<lparr>tlogs := (tlogs ts)(i := xlog)\<rparr>"

definition ApplyErr :: "nat \<Rightarrow> err_msg \<Rightarrow> 'c tester \<Rightarrow> 'c tester" where
  "ApplyErr i err ts = ts\<lparr>applyErr := (applyErr ts)(i := err)\<rparr>"

text \<open>The proxy: a lost call to \<open>CheckLogs\<close> gives \<open>ErrRPC\<close>, the other lost calls do nothing.\<close>

definition CheckLogs_proxy :: "bool \<Rightarrow> nat \<Rightarrow> 'c option \<Rightarrow> int \<Rightarrow> 'c tester \<Rightarrow> err_msg \<times> bool \<times> 'c tester" where
  "CheckLogs_proxy reached i v index ts = (if reached then CheckLogs i v index ts else (ErrRPC, False, ts))"

definition IngestLog_proxy :: "bool \<Rightarrow> nat \<Rightarrow> (int \<rightharpoonup> 'c option) \<Rightarrow> 'c tester \<Rightarrow> 'c tester" where
  "IngestLog_proxy reached i xlog ts = (if reached then IngestLog i xlog ts else ts)"

definition ApplyErr_proxy :: "bool \<Rightarrow> nat \<Rightarrow> err_msg \<Rightarrow> 'c tester \<Rightarrow> 'c tester" where
  "ApplyErr_proxy reached i err ts = (if reached then ApplyErr i err ts else ts)"

section \<open>The server\<close>

record 'c rfsrv =
  srvme :: nat
  slast :: int
  slog :: "int \<rightharpoonup> 'c option"

definition ingestSnap :: "'c snapval list option \<Rightarrow> int \<Rightarrow> 'c rfsrv \<Rightarrow> err_msg \<times> 'c rfsrv" where
  "ingestSnap snapshot index rs =
     (case snapshot of
        None \<Rightarrow> (ErrNilSnapshot, rs)
      | Some r \<Rightarrow>
          (case Decode as_sint r of
             None \<Rightarrow> (ErrDecode, rs)
           | Some (lastIncludedIndex, r) \<Rightarrow>
               (case Decode as_slog r of
                  None \<Rightarrow> (ErrDecode, rs)
                | Some (xlog, _) \<Rightarrow>
                    if index \<noteq> - 1 \<and> index \<noteq> lastIncludedIndex then (ErrSnapshotIndex, rs)
                    else (NoErr, rs\<lparr>slog := (\<lambda>j. if 0 \<le> j \<and> j < int (length xlog) then Some (xlog ! nat j) else None),
                                    slast := lastIncludedIndex\<rparr>))))"

text \<open>
  \<open>newRfsrv\<close> with its first message to the tester: a stored snapshot is ingested now.  A snapshot that
  cannot be decoded is fatal (\<open>None\<close>).
\<close>

definition newRfsrv :: "bool \<Rightarrow> nat \<Rightarrow> 'c snapval list option \<Rightarrow> bool \<Rightarrow> 'c tester \<Rightarrow> ('c rfsrv \<times> 'c tester) option"
  where
  "newRfsrv reached srv sn snapshot ts =
     (let s = \<lparr>srvme = srv, slast = 0, slog = Map.empty\<rparr> in
      if snapshot then
        (case sn of
           None \<Rightarrow> Some (s, ts)
         | Some b \<Rightarrow>
             if length b > 0 then
               (case ingestSnap sn (- 1) s of
                  (err, s) \<Rightarrow> if err \<noteq> NoErr then None else Some (s, IngestLog_proxy reached srv (slog s) ts))
             else Some (s, ts))
      else Some (s, ts))"

text \<open>One round of \<open>applier\<close>, the loop without snapshots.\<close>

definition applier_round :: "bool \<Rightarrow> ('c, 'b) ApplyMsg \<Rightarrow> nat \<Rightarrow> 'c tester \<Rightarrow> 'c tester" where
  "applier_round reached m i ts =
     (case m of
        SnapshotMsg _ _ _ \<Rightarrow> ts
      | CommandMsg c index \<Rightarrow>
          (case CheckLogs_proxy reached i c index ts of
             (err, prevok, ts) \<Rightarrow>
               let err = (if index > 1 \<and> \<not> prevok then ErrOutOfOrder index else err)
               in if err \<noteq> NoErr then ApplyErr_proxy reached i err ts else ts))"

text \<open>The snapshot of a server after the command at \<open>index\<close>: \<open>rs.log[j]\<close> is nil for a missing key.\<close>

definition snapshot_of :: "int \<Rightarrow> (int \<rightharpoonup> 'c option) \<Rightarrow> 'c snapval list" where
  "snapshot_of index l =
     Encode (Encode [] (SInt index)) (SLog (map (\<lambda>j. case l (int j) of None \<Rightarrow> None | Some v \<Rightarrow> v) [0 ..< nat (index + 1)]))"

text \<open>
  One round of \<open>applierSnap\<close>: the new server, the tester, and the arguments of the call of
  \<^verbatim>\<open>rf.Snapshot\<close> if there is one.
\<close>

definition applierSnap_round :: "bool \<Rightarrow> ('c, 'c snapval) ApplyMsg \<Rightarrow> 'c rfsrv \<Rightarrow> 'c tester
    \<Rightarrow> 'c rfsrv \<times> 'c tester \<times> (int \<times> 'c snapval list) option" where
  "applierSnap_round reached m rs ts =
     (case m of
        SnapshotMsg d t i \<Rightarrow>
          (case ingestSnap (Some d) i rs of
             (err, rs) \<Rightarrow>
               let ts = IngestLog_proxy reached (srvme rs) (slog rs) ts
               in (rs, if err \<noteq> NoErr then ApplyErr_proxy reached (srvme rs) err ts else ts, None))
      | CommandMsg c index \<Rightarrow>
          let err = (if index \<noteq> slast rs + 1 then ErrExpected (slast rs + 1) index else NoErr);
              (err, ts) =
                (if err = NoErr then
                   (case CheckLogs_proxy reached (srvme rs) c index ts of
                      (e, prevok, ts) \<Rightarrow>
                        (if e \<noteq> ErrRPC \<and> index > 1 \<and> \<not> prevok then ErrOutOfOrder index else e, ts))
                 else (err, ts));
              rs = rs\<lparr>slog := (slog rs)(index \<mapsto> c), slast := index\<rparr>;
              sn = (if (index + 1) mod SnapShotInterval = 0 then Some (index, snapshot_of index (slog rs)) else None)
          in (rs, if err \<noteq> NoErr then ApplyErr_proxy reached (srvme rs) err ts else ts, sn))"

section \<open>Servers and tester together\<close>

text \<open>
  Servers that follow a sequence \<open>C\<close> of committed commands (\<open>C j\<close> for the index \<open>j\<close>, nil at 0): a server
  reads the next command or a snapshot that some server took, or restarts from a snapshot that
  some server took, or from nothing.
\<close>

record 'c rsys =
  rtester :: "'c tester"
  rsrvs :: "nat \<Rightarrow> 'c rfsrv"
  taken :: "(int \<times> 'c snapval list) list"

definition deliver :: "nat \<Rightarrow> ('c, 'c snapval) ApplyMsg \<Rightarrow> 'c rsys \<Rightarrow> 'c rsys" where
  "deliver k m s =
     (case applierSnap_round True m (rsrvs s k) (rtester s) of
        (rs, ts, sn) \<Rightarrow>
          s\<lparr>rsrvs := (rsrvs s)(k := rs), rtester := ts,
            taken := (case sn of None \<Rightarrow> taken s | Some p \<Rightarrow> p # taken s)\<rparr>)"

inductive rsrv_step :: "(int \<Rightarrow> 'c option) \<Rightarrow> 'c rsys \<Rightarrow> 'c rsys \<Rightarrow> bool" for C where
  command: "k < tn (rtester s) \<Longrightarrow> i = slast (rsrvs s k) + 1 \<Longrightarrow>
    rsrv_step C s (deliver k (CommandMsg (C i) i) s)"
| snapshot: "k < tn (rtester s) \<Longrightarrow> (i, d) \<in> set (taken s) \<Longrightarrow> slast (rsrvs s k) < i \<Longrightarrow>
    rsrv_step C s (deliver k (SnapshotMsg d t i) s)"
| restart: "k < tn (rtester s) \<Longrightarrow> (i, d) \<in> set (taken s) \<Longrightarrow>
    newRfsrv True k (Some d) True (rtester s) = Some (rs, ts) \<Longrightarrow>
    rsrv_step C s (s\<lparr>rsrvs := (rsrvs s)(k := rs), rtester := ts\<rparr>)"
| restart_empty: "k < tn (rtester s) \<Longrightarrow> newRfsrv True k (Some []) True (rtester s) = Some (rs, ts) \<Longrightarrow>
    rsrv_step C s (s\<lparr>rsrvs := (rsrvs s)(k := rs), rtester := ts\<rparr>)"

definition rsrv_boot :: "nat \<Rightarrow> 'c rsys" where
  "rsrv_boot n =
     \<lparr>rtester = \<lparr>tn = n, tlogs = (\<lambda>_. Map.empty), applyErr = (\<lambda>_. NoErr), maxIndex = 0\<rparr>,
      rsrvs = (\<lambda>k. \<lparr>srvme = k, slast = 0, slog = Map.empty\<rparr>), taken = []\<rparr>"

definition rsrv_init :: "'c rsys \<Rightarrow> bool" where
  "rsrv_init s \<longleftrightarrow> (\<exists>n. s = rsrv_boot n)"

interpretation rsrv: transition_system rsrv_init "rsrv_step C" for C
  by unfold_locales (auto simp: rsrv_init_def)

section \<open>Snapshots\<close>

lemma ingest_snapshot_of:
  assumes "0 \<le> i" and "index = - 1 \<or> index = i"
  shows "ingestSnap (Some (snapshot_of i l)) index rs =
    (NoErr, rs\<lparr>slog := (\<lambda>j. if 0 \<le> j \<and> j \<le> i then Some (case l j of None \<Rightarrow> None | Some v \<Rightarrow> v) else None), slast := i\<rparr>)"
  using assms by (auto simp: ingestSnap_def snapshot_of_def Encode_def fun_eq_iff)

section \<open>The checks never fail\<close>

definition follows :: "(int \<Rightarrow> 'c option) \<Rightarrow> (int \<rightharpoonup> 'c option) \<Rightarrow> int \<Rightarrow> bool" where
  "follows C l n \<longleftrightarrow> (\<forall>j v. l j = Some v \<longrightarrow> v = C j) \<and> (\<forall>j. 1 \<le> j \<and> j \<le> n \<longrightarrow> l j \<noteq> None)"

definition rsrv_inv :: "(int \<Rightarrow> 'c option) \<Rightarrow> 'c rsys \<Rightarrow> bool" where
  "rsrv_inv C s \<longleftrightarrow>
     (\<forall>k. srvme (rsrvs s k) = k \<and> 0 \<le> slast (rsrvs s k) \<and> follows C (slog (rsrvs s k)) (slast (rsrvs s k))
        \<and> follows C (tlogs (rtester s) k) (slast (rsrvs s k)) \<and> applyErr (rtester s) k = NoErr)
     \<and> (\<forall>(i, d) \<in> set (taken s). 0 \<le> i \<and> d = snapshot_of i (\<lambda>j. Some (C j)))"

lemma follows_at: "follows C l n \<Longrightarrow> 1 \<le> j \<Longrightarrow> j \<le> n \<Longrightarrow> l j = Some (C j)"
  by (auto simp: follows_def)

lemma follows_upd: "follows C l n \<Longrightarrow> follows C (l(n + 1 \<mapsto> C (n + 1))) (n + 1)"
  by (auto simp: follows_def)

lemma CheckLogs_loop_NoErr:
  assumes "\<forall>j \<in> set js. \<forall>old. tlogs ts j index = Some old \<longrightarrow> old = v"
  shows "CheckLogs_loop v index js ts err = err"
  using assms by (induction js arbitrary: err) (auto split: option.splits)

text \<open>A server that followed \<open>C\<close> takes the snapshot that every server would take at this index.\<close>

lemma snapshot_of_follows:
  assumes "follows C l n" "C 0 = None"
  shows "snapshot_of n l = snapshot_of n (\<lambda>j. Some (C j))"
proof -
  have "(case l (int j) of None \<Rightarrow> None | Some v \<Rightarrow> v) = C (int j)" if "j < nat (n + 1)" for j
  proof (cases "j = 0")
    case True
    then show ?thesis using assms by (auto simp: follows_def split: option.splits)
  next
    case False
    then have "l (int j) \<noteq> None" using that assms(1) by (simp add: follows_def)
    then show ?thesis using assms(1) by (auto simp: follows_def)
  qed
  then have "map (\<lambda>j. case l (int j) of None \<Rightarrow> None | Some v \<Rightarrow> v) [0 ..< nat (n + 1)] = map (\<lambda>j. C (int j)) [0 ..< nat (n + 1)]"
    by (intro map_cong) simp_all
  then show ?thesis unfolding snapshot_of_def by (simp only: option.case)
qed

lemma command_round:
  assumes inv: "rsrv_inv C s" and i: "i = slast (rsrvs s k) + 1"
  shows "applierSnap_round True (CommandMsg (C i) i) (rsrvs s k) (rtester s) =
      ((rsrvs s k)\<lparr>slog := (slog (rsrvs s k))(i \<mapsto> C i), slast := i\<rparr>,
       (rtester s)\<lparr>tlogs := (tlogs (rtester s))(k := (tlogs (rtester s) k)(i \<mapsto> C i)),
          maxIndex := max (maxIndex (rtester s)) i\<rparr>,
       if (i + 1) mod SnapShotInterval = 0 then Some (i, snapshot_of i ((slog (rsrvs s k))(i \<mapsto> C i))) else None)"
proof -
  let ?ts = "rtester s"
  have me: "srvme (rsrvs s k) = k" and tl: "\<And>j. follows C (tlogs ?ts j) (slast (rsrvs s j))"
    using inv by (auto simp: rsrv_inv_def)
  have "CheckLogs_loop (C i) i [0 ..< tn ?ts] ?ts NoErr = NoErr"
    using tl by (intro CheckLogs_loop_NoErr) (auto simp: follows_def)
  moreover have "i > 1 \<Longrightarrow> tlogs ?ts k (i - 1) \<noteq> None" using tl[of k] i by (simp add: follows_def)
  ultimately show ?thesis
    using i me by (auto simp: applierSnap_round_def CheckLogs_proxy_def CheckLogs_def Let_def)
qed

lemma deliver_command:
  assumes inv: "rsrv_inv C s" and z: "C 0 = None" and i: "i = slast (rsrvs s k) + 1"
  shows "rsrv_inv C (deliver k (CommandMsg (C i) i) s)"
proof -
  let ?rs = "rsrvs s k" and ?ts = "rtester s"
  have ge: "0 \<le> slast ?rs" and fl: "follows C (slog ?rs) (slast ?rs)"
    and tl: "follows C (tlogs ?ts k) (slast ?rs)" using inv by (auto simp: rsrv_inv_def)
  have f': "follows C ((slog ?rs)(i \<mapsto> C i)) i" "follows C ((tlogs ?ts k)(i \<mapsto> C i)) i"
    using follows_upd[OF fl] follows_upd[OF tl] i by simp_all
  have "0 \<le> i" using i ge by simp
  then show ?thesis using inv f' snapshot_of_follows[OF f'(1) z]
    unfolding rsrv_inv_def deliver_def command_round[OF inv i] by auto
qed

text \<open>The log of a server that has read the snapshot at index \<open>i\<close>.\<close>

definition snap_log :: "(int \<Rightarrow> 'c option) \<Rightarrow> int \<Rightarrow> int \<rightharpoonup> 'c option" where
  "snap_log C i = (\<lambda>j. if 0 \<le> j \<and> j \<le> i then Some (C j) else None)"

lemma follows_snapshot: "0 \<le> i \<Longrightarrow> follows C (snap_log C i) i"
  by (auto simp: follows_def snap_log_def)

lemma ingest_taken:
  assumes "0 \<le> i" and "index = - 1 \<or> index = i"
  shows "ingestSnap (Some (snapshot_of i (\<lambda>j. Some (C j)))) index rs = (NoErr, rs\<lparr>slog := snap_log C i, slast := i\<rparr>)"
  unfolding ingest_snapshot_of[OF assms] snap_log_def by (simp cong: if_cong)

lemma deliver_snapshot_eq:
  assumes "0 \<le> i" and "srvme (rsrvs s k) = k"
  shows "applierSnap_round True (SnapshotMsg (snapshot_of i (\<lambda>j. Some (C j))) t i) (rsrvs s k) (rtester s) =
    ((rsrvs s k)\<lparr>slog := snap_log C i, slast := i\<rparr>,
     (rtester s)\<lparr>tlogs := (tlogs (rtester s))(k := snap_log C i)\<rparr>, None)"
  using assms ingest_taken[OF assms(1), of i C "rsrvs s k"]
  by (simp add: applierSnap_round_def IngestLog_proxy_def IngestLog_def)

lemma deliver_snapshot:
  assumes inv: "rsrv_inv C s" and i: "0 \<le> i"
  shows "rsrv_inv C (deliver k (SnapshotMsg (snapshot_of i (\<lambda>j. Some (C j))) t i) s)"
proof -
  have me: "srvme (rsrvs s k) = k" using inv by (simp add: rsrv_inv_def)
  show ?thesis using inv follows_snapshot[OF i, of C] i unfolding deliver_def deliver_snapshot_eq[OF i me]
    by (auto simp: rsrv_inv_def)
qed

lemma restart_eq:
  assumes "0 \<le> i"
  shows "newRfsrv True k (Some (snapshot_of i (\<lambda>j. Some (C j)))) True ts =
    Some (\<lparr>srvme = k, slast = i, slog = snap_log C i\<rparr>, ts\<lparr>tlogs := (tlogs ts)(k := snap_log C i)\<rparr>)"
proof -
  have "snapshot_of i l \<noteq> []" for l :: "int \<rightharpoonup> 'a option" by (simp add: snapshot_of_def Encode_def)
  then show ?thesis
    using ingest_taken[OF assms, of "- 1" C] by (simp add: newRfsrv_def IngestLog_proxy_def IngestLog_def)
qed

lemma restart_inv:
  assumes inv: "rsrv_inv C s" and i: "0 \<le> i"
    and q: "newRfsrv True k (Some (snapshot_of i (\<lambda>j. Some (C j)))) True (rtester s) = Some (rs, ts)"
  shows "rsrv_inv C (s\<lparr>rsrvs := (rsrvs s)(k := rs), rtester := ts\<rparr>)"
  using q inv follows_snapshot[OF i, of C] i unfolding restart_eq[OF i] by (auto simp: rsrv_inv_def)

lemma restart_empty_inv:
  assumes inv: "rsrv_inv C s" and q: "newRfsrv True k (Some []) True (rtester s) = Some (rs, ts)"
  shows "rsrv_inv C (s\<lparr>rsrvs := (rsrvs s)(k := rs), rtester := ts\<rparr>)"
  using q inv by (auto simp: newRfsrv_def rsrv_inv_def follows_def)

lemma rsrv_inv_reach:
  assumes "rsrv.reach C s" and z: "C 0 = None"
  shows "rsrv_inv C s"
  using assms(1)
proof (rule rsrv.reach_invariant)
  fix s :: "'a rsys" assume "rsrv_init s"
  then show "rsrv_inv C s" by (auto simp: rsrv_init_def rsrv_boot_def rsrv_inv_def follows_def)
next
  fix s t assume inv: "rsrv_inv C s" and "rsrv_step C s t"
  have taken: "0 \<le> i \<and> d = snapshot_of i (\<lambda>j. Some (C j))" if "(i, d) \<in> set (taken s)" for i d
    using inv that by (auto simp: rsrv_inv_def)
  from \<open>rsrv_step C s t\<close> show "rsrv_inv C t"
  proof cases
    case (command k i)
    then show ?thesis using deliver_command[where C = C, OF inv z] by simp
  next
    case (snapshot k i d)
    then show ?thesis using deliver_snapshot[OF inv] taken by blast
  next
    case (restart k i d)
    then show ?thesis using restart_inv[OF inv] taken by blast
  qed (use inv restart_empty_inv in blast)
qed

text \<open>
  When the servers follow one sequence of committed commands, the tester finds nothing to complain
  about, whatever the interleaving: no command out of order, no two servers with different commands
  at an index, no bad snapshot, with snapshots taken by one server and installed at others and
  with restarts.  Every server's log is then the sequence up to its last index.
\<close>

theorem apply_checks_pass:
  assumes "rsrv.reach C s" and "C 0 = None"
  shows "applyErr (rtester s) k = NoErr
    \<and> (1 \<le> j \<and> j \<le> slast (rsrvs s k) \<longrightarrow> slog (rsrvs s k) j = Some (C j) \<and> tlogs (rtester s) k j = Some (C j))"
  using rsrv_inv_reach[OF assms] unfolding rsrv_inv_def follows_def by (metis option.exhaust)

theorem apply_checks_pass_witness:
  "\<exists>s. rsrv.reach (\<lambda>j. if j = 0 then None else Some j) s \<and> applyErr (rtester s) 1 = NoErr
     \<and> slast (rsrvs s 1) = 1 \<and> slog (rsrvs s 1) 1 = Some (Some 1) \<and> tlogs (rtester s) 1 1 = Some (Some 1)"
proof -
  let ?C = "\<lambda>j :: int. if j = 0 then None else Some j" and ?s = "rsrv_boot 3 :: int rsys"
  let ?t = "deliver 1 (CommandMsg (?C 1) 1) ?s"
  have "rsrv_step ?C ?s ?t" by (rule rsrv_step.command) (simp_all add: rsrv_boot_def)
  then have r: "rsrv.reach ?C ?t" using rsrv.reach_init[of ?s] rsrv.reach_step by (auto simp: rsrv_init_def)
  have l: "slast (rsrvs ?t 1) = 1"
    by (simp add: deliver_def applierSnap_round_def rsrv_boot_def Let_def CheckLogs_proxy_def CheckLogs_def split: prod.splits)
  show ?thesis using apply_checks_pass[OF r, of 1 1] r l by auto
qed

text \<open>
  A command that differs from what another server has applied at the same index is reported: the
  server's error is set, so a violation of agreement is not missed.
\<close>

lemma disagreement_reported:
  assumes "tlogs ts j i = Some old" "old \<noteq> c" "j < tn ts" and "i = slast rs + 1"
    and "applierSnap_round True (CommandMsg c i) rs ts = (rs', ts', sn)"
  shows "applyErr ts' (srvme rs) \<noteq> NoErr"
proof -
  have stay: "CheckLogs_loop c i js ts (ErrMismatch i) = ErrMismatch i" for js
    by (induction js) (auto split: option.splits)
  have "CheckLogs_loop c i js ts err = ErrMismatch i" if "j \<in> set js" for js err
    using that
  proof (induction js arbitrary: err)
    case (Cons x xs)
    then show ?case using assms(1,2) stay by (cases "x = j") auto
  qed simp
  then have "CheckLogs_loop c i [0 ..< tn ts] ts NoErr = ErrMismatch i" using assms(3) by simp
  then show ?thesis using assms(4,5)
    by (auto simp: applierSnap_round_def CheckLogs_proxy_def CheckLogs_def ApplyErr_proxy_def ApplyErr_def Let_def
        split: if_split_asm)
qed

end
