(* ===== verification/RaftTests.thy ===== *)
theory RaftTests
  imports RaftService RaftServer
begin

text \<open>
  The tests of Raft as a whole: the servers of \<^verbatim>\<open>raft1/server.go\<close> with the checks of the tester on top
  of the cluster.  They keep the contract of a replicated service, so that in every run of the
  cluster the tester finds nothing to complain about.
\<close>

section \<open>The service\<close>

definition start_rfsrv :: "nat \<Rightarrow> ('c gobval, 'c snapval) Persister \<Rightarrow> 'c rsys \<Rightarrow> 'c rsys option" where
  "start_rfsrv i ps s = do {
     (rs, ts) \<leftarrow> newRfsrv True i (ReadSnapshot ps) True (rtester s);
     Some (s\<lparr>rsrvs := (rsrvs s)(i := rs), rtester := ts\<rparr>) }"

definition recv_rfsrv :: "nat \<Rightarrow> ('c, 'c snapval) ApplyMsg \<Rightarrow> 'c rsys \<Rightarrow> 'c rsys \<times> 'c snapval snap_call" where
  "recv_rfsrv i m s = (deliver i m s, snd (snd (applierSnap_round True m (rsrvs s i) (rtester s))))"

definition raft_tests :: "('c, 'c snapval, unit, 'c rsys) service" where
  "raft_tests =
     \<lparr>sv_boot = rsrv_boot, sv_start = start_rfsrv, sv_recv = (\<lambda>i bytes m s. Some (recv_rfsrv i m s)),
      sv_snap = (\<lambda>i bytes s. (s, None)), sv_local = (\<lambda>i e s. s)\<rparr>"

section \<open>It keeps the contract\<close>

definition nth_command :: "'c option list \<Rightarrow> int \<Rightarrow> 'c option" where
  "nth_command Cs j = (if 1 \<le> j \<and> j \<le> int (length Cs) then Cs ! nat (j - 1) else None)"

definition rimg :: "'c option list \<Rightarrow> 'c snapval list" where
  "rimg cs = snapshot_of (int (length cs)) (\<lambda>j. Some (nth_command cs j))"

definition within :: "'c option list \<Rightarrow> (int \<rightharpoonup> 'c option) \<Rightarrow> bool" where
  "within Cs l \<longleftrightarrow> (\<forall>j \<in> dom l. j \<le> int (length Cs))"

definition rholds :: "'c option list \<Rightarrow> (nat \<Rightarrow> nat) \<Rightarrow> 'c rsys \<Rightarrow> bool" where
  "rholds Cs a s \<longleftrightarrow> rsrv_inv (nth_command Cs) s \<and>
     (\<forall>k. slast (rsrvs s k) = int (a k) \<and> within Cs (slog (rsrvs s k)) \<and> within Cs (tlogs (rtester s) k)) \<and>
     (\<forall>(i, d) \<in> set (taken s). i \<le> int (length Cs))"

lemma nth_command_prefix: "prefix Cs Ds \<Longrightarrow> j \<le> int (length Cs) \<Longrightarrow> nth_command Ds j = nth_command Cs j"
  using prefix_length_le[of Cs Ds] prefix_nth[of Cs Ds "nat (j - 1)"] by (auto simp: nth_command_def)

lemma nth_command_0 [simp]: "nth_command Cs 0 = None"
  by (simp add: nth_command_def)

lemma snapshot_of_cong:
  assumes "\<And>j. 0 \<le> j \<Longrightarrow> j \<le> i \<Longrightarrow> l j = l' j"
  shows "snapshot_of i l = snapshot_of i l'"
proof -
  have "map (\<lambda>j. case l (int j) of None \<Rightarrow> None | Some v \<Rightarrow> v) [0 ..< nat (i + 1)] =
    map (\<lambda>j. case l' (int j) of None \<Rightarrow> None | Some v \<Rightarrow> v) [0 ..< nat (i + 1)]"
    using assms by (intro map_cong) simp_all
  then show ?thesis by (simp only: snapshot_of_def)
qed

lemma snapshot_prefix:
  assumes "prefix Cs Ds" and "i \<le> int (length Cs)"
  shows "snapshot_of i (\<lambda>j. Some (nth_command Ds j)) = snapshot_of i (\<lambda>j. Some (nth_command Cs j))"
  by (rule snapshot_of_cong) (use assms(2) in \<open>simp add: nth_command_prefix[OF assms(1)]\<close>)

lemma rimg_take:
  assumes "k \<le> length Cs"
  shows "rimg (take k Cs) = snapshot_of (int k) (\<lambda>j. Some (nth_command Cs j))"
proof -
  have len: "length (take k Cs) = k" using assms by simp
  show ?thesis unfolding rimg_def len by (rule snapshot_prefix[OF take_is_prefix, symmetric]) (use assms in simp)
qed

lemma follows_prefix:
  assumes "follows (nth_command Cs) l n" and "within Cs l" and "prefix Cs Ds"
  shows "follows (nth_command Ds) l n"
  using assms nth_command_prefix[OF assms(3)] by (force simp: follows_def within_def)

lemma within_prefix: "within Cs l \<Longrightarrow> prefix Cs Ds \<Longrightarrow> within Ds l"
  using prefix_length_le[of Cs Ds] by (force simp: within_def)

lemma within_simps [simp]:
  "within Cs Map.empty" "within Cs l \<Longrightarrow> i \<le> int (length Cs) \<Longrightarrow> within Cs (l(i \<mapsto> v))"
  "i \<le> int (length Cs) \<Longrightarrow> within Cs (snap_log C i)"
  by (auto simp: within_def snap_log_def split: if_split_asm)

lemma rholdsD:
  assumes "rholds Cs a s"
  shows "rsrv_inv (nth_command Cs) s" "slast (rsrvs s k) = int (a k)" "within Cs (slog (rsrvs s k))"
    "within Cs (tlogs (rtester s) k)" "(i, d) \<in> set (taken s) \<Longrightarrow> i \<le> int (length Cs)"
    "srvme (rsrvs s k) = k"
  using assms by (auto simp: rholds_def rsrv_inv_def)

lemma rholds_prefix:
  assumes "rholds Cs a s" and p: "prefix Cs Ds"
  shows "rholds Ds a s"
proof -
  note D = rholdsD[OF assms(1)]
  have "follows (nth_command Ds) (slog (rsrvs s k)) (slast (rsrvs s k))"
    "follows (nth_command Ds) (tlogs (rtester s) k) (slast (rsrvs s k))" for k
    using follows_prefix[OF _ D(3) p, of k] follows_prefix[OF _ D(4) p, of k] D(1) by (auto simp: rsrv_inv_def)
  moreover have "d = snapshot_of i (\<lambda>j. Some (nth_command Ds j))" if "(i, d) \<in> set (taken s)" for i d
    using snapshot_prefix[OF p D(5)[OF that]] D(1) that by (auto simp: rsrv_inv_def)
  ultimately have "rsrv_inv (nth_command Ds) s" using D(1) unfolding rsrv_inv_def by blast
  moreover have "within Ds (slog (rsrvs s k))" "within Ds (tlogs (rtester s) k)" for k
    using within_prefix[OF D(3) p] within_prefix[OF D(4) p] by blast+
  moreover have "i \<le> int (length Ds)" if "(i, d) \<in> set (taken s)" for i d
    using D(5)[OF that] prefix_length_le[OF p] by simp
  ultimately show ?thesis using D(2) unfolding rholds_def by blast
qed

lemma rholds_command:
  assumes h: "rholds Cs a s" and lt: "a i < length Cs"
    and r: "recv_rfsrv i (CommandMsg (Cs ! a i) (int (a i) + 1)) s = (s', call)"
  shows "rholds Cs (a(i := Suc (a i))) s' \<and> pred_option (\<lambda>(k, d). call_ok rimg Cs k d) call"
proof -
  note D = rholdsD[OF h]
  let ?k = "int (a i) + 1"
  let ?l = "(slog (rsrvs s i))(?k \<mapsto> nth_command Cs ?k)"
  have c: "Cs ! a i = nth_command Cs ?k" using lt by (simp add: nth_command_def)
  have k: "?k = slast (rsrvs s i) + 1" using D(2) by simp
  note run = command_round[OF D(1) k]
  from r have s': "s' = deliver i (CommandMsg (nth_command Cs ?k) ?k) s"
    and call: "call = (if (?k + 1) mod SnapShotInterval = 0 then Some (?k, snapshot_of ?k ?l) else None)"
    unfolding recv_rfsrv_def c run by auto
  have "follows (nth_command Cs) ?l ?k"
    using follows_upd[of "nth_command Cs" "slog (rsrvs s i)" "slast (rsrvs s i)"] D(1,2) by (simp add: rsrv_inv_def)
  from snapshot_of_follows[OF this] lt have sn: "snapshot_of ?k ?l = rimg (take (Suc (a i)) Cs)"
    by (simp add: rimg_take ac_simps)
  have "rsrv_inv (nth_command Cs) s'" unfolding s' by (rule deliver_command[OF D(1) _ k]) simp
  moreover have "slast (rsrvs s' k) = int ((a(i := Suc (a i))) k)" "within Cs (slog (rsrvs s' k))"
    "within Cs (tlogs (rtester s') k)" "\<forall>(i, d) \<in> set (taken s'). i \<le> int (length Cs)" for k
    using D(2-5) lt unfolding s' deliver_def run by auto
  moreover have "pred_option (\<lambda>(k, d). call_ok rimg Cs k d) call"
    using lt unfolding call sn by (simp add: call_ok_def nat_add_distrib)
  ultimately show ?thesis by (simp add: rholds_def)
qed

lemma rholds_snapshot:
  assumes h: "rholds Cs a s" and k: "k \<le> length Cs"
    and r: "recv_rfsrv i (SnapshotMsg (rimg (take k Cs)) t (int k)) s = (s', call)"
  shows "rholds Cs (a(i := k)) s' \<and> pred_option (\<lambda>(k, d). call_ok rimg Cs k d) call"
proof -
  note D = rholdsD[OF h]
  note run = deliver_snapshot_eq[where i = "int k" and k = i, OF _ D(6), where C = "nth_command Cs"]
  from r have s': "s' = deliver i (SnapshotMsg (snapshot_of (int k) (\<lambda>j. Some (nth_command Cs j))) t (int k)) s"
    and call: "call = None" by (simp_all add: recv_rfsrv_def rimg_take[OF k] run)
  have "rsrv_inv (nth_command Cs) s'" unfolding s' by (rule deliver_snapshot[OF D(1)]) simp
  moreover have "slast (rsrvs s' j) = int ((a(i := k)) j)" "within Cs (slog (rsrvs s' j))"
    "within Cs (tlogs (rtester s') j)" "\<forall>(i, d) \<in> set (taken s'). i \<le> int (length Cs)" for j
    using D(2-5) k unfolding s' deliver_def by (auto simp: run)
  ultimately show ?thesis by (simp add: rholds_def call)
qed

lemma rholds_start:
  assumes h: "rholds Cs a s"
  shows "ReadSnapshot ps = Some [] \<Longrightarrow> \<exists>s'. start_rfsrv i ps s = Some s' \<and> rholds Cs (a(i := 0)) s'"
    and "k \<le> length Cs \<Longrightarrow> ReadSnapshot ps = Some (rimg (take k Cs)) \<Longrightarrow>
      \<exists>s'. start_rfsrv i ps s = Some s' \<and> rholds Cs (a(i := k)) s'"
proof -
  note D = rholdsD[OF h]
  have "start_rfsrv i ps s = Some (s\<lparr>rsrvs := (rsrvs s)(i := \<lparr>srvme = i, slast = 0, slog = Map.empty\<rparr>)\<rparr>)"
    if "ReadSnapshot ps = Some []" using that by (simp add: start_rfsrv_def newRfsrv_def)
  moreover have "rsrv_inv (nth_command Cs) (s\<lparr>rsrvs := (rsrvs s)(i := \<lparr>srvme = i, slast = 0, slog = Map.empty\<rparr>)\<rparr>)"
    using D(1) by (auto simp: rsrv_inv_def follows_def)
  ultimately show "\<exists>s'. start_rfsrv i ps s = Some s' \<and> rholds Cs (a(i := 0)) s'" if "ReadSnapshot ps = Some []"
    using that D(2-5) by (auto simp: rholds_def)
  show "\<exists>s'. start_rfsrv i ps s = Some s' \<and> rholds Cs (a(i := k)) s'"
    if k: "k \<le> length Cs" and sn: "ReadSnapshot ps = Some (rimg (take k Cs))"
  proof -
    let ?C = "nth_command Cs" and ?d = "snapshot_of (int k) (\<lambda>j. Some (nth_command Cs j))"
    note eq = restart_eq[where i = "int k" and k = i and C = ?C and ts = "rtester s"]
    let ?s = "s\<lparr>rsrvs := (rsrvs s)(i := \<lparr>srvme = i, slast = int k, slog = snap_log ?C (int k)\<rparr>),
      rtester := (rtester s)\<lparr>tlogs := (tlogs (rtester s))(i := snap_log ?C (int k))\<rparr>\<rparr>"
    have "start_rfsrv i ps s = Some ?s" by (simp add: start_rfsrv_def sn rimg_take[OF k] eq)
    moreover have "rsrv_inv ?C ?s" by (rule restart_inv[OF D(1) _ eq]) simp_all
    ultimately show ?thesis using D(2-5) k by (auto simp: rholds_def rimg_take[OF k])
  qed
qed

interpretation tests: replicated_service raft_tests rimg rholds
proof
  show "rimg cs \<noteq> []" for cs :: "'c option list" by (simp add: rimg_def snapshot_of_def Encode_def)
  show "rholds [] (\<lambda>_. 0) (sv_boot raft_tests n :: 'c rsys)" for n
    by (simp add: rholds_def raft_tests_def rsrv_boot_def rsrv_inv_def follows_def)
qed (auto simp: raft_tests_def rholds_prefix rholds_start rholds_command rholds_snapshot)

section \<open>The tests pass\<close>

definition tests_state :: "(nat, nat snapval, nat rsys) system" where
  "tests_state = the (sys_run raft_tests (script 7) (sys_boot raft_tests 3))"

lemma tests_run: "sys_run raft_tests (script 7) (sys_boot raft_tests 3) = Some tests_state"
proof -
  have "case sys_run raft_tests (script (7 :: nat)) (sys_boot raft_tests 3) of None \<Rightarrow> False | Some s \<Rightarrow> True"
    by code_simp
  then show ?thesis by (auto simp: tests_state_def split: option.splits)
qed

lemma tests_facts:
  "nsrv (cl tests_state) = 3" "slast (rsrvs (svc tests_state) 0) = 2" "slast (rsrvs (svc tests_state) 1) = 2"
  "slog (rsrvs (svc tests_state) 1) 2 = Some (Some 7)"
  by code_simp+



text \<open>
  C26. A crashed server always comes back: in every reachable state of the tests \<open>newRfsrv\<close> finds a
  snapshot it can decode, so that a restart never ends in the fatal error of \<open>newRfsrv\<close>.
\<close>

theorem restart_never_fatal:
  assumes "sys_reach raft_tests s" and "i < nsrv (cl s)"
  shows "\<exists>t. sys_exec raft_tests (Reboot i now rnd) s = Some t"
  using assms by (rule tests.reboot_works)

theorem restart_never_fatal_witness: "\<exists>t. sys_exec raft_tests (Reboot 1 900000000 5) tests_state = Some t"
  using restart_never_fatal[OF sys_run_reach[OF tests_run], of 1] by (simp add: tests_facts del: One_nat_def)

end
