(* ===== verification/KvServer.thy ===== *)
theory KvServer
  imports Persister "HOL-Library.Word"
begin

text \<open>
  The versioned key/value server: \<^verbatim>\<open>src/src/kvsrv1/rpc/rpc.go\<close>, \<^verbatim>\<open>src/src/kvsrv1/server.go\<close>, and
  the reference model its histories are judged by, \<^verbatim>\<open>src/src/models1/kv.go\<close>.

  An RPC handler maps the arguments and the server to the server and the reply; a reply starts
  as the zero value of its struct.  Versions are 64-bit words and wrap around as in Go.
\<close>

section \<open>Types of the RPC interface\<close>

type_synonym Err = string

abbreviation OK :: Err where "OK \<equiv> ''OK''"
abbreviation ErrNoKey :: Err where "ErrNoKey \<equiv> ''ErrNoKey''"
abbreviation ErrVersion :: Err where "ErrVersion \<equiv> ''ErrVersion''"
abbreviation ErrMaybe :: Err where "ErrMaybe \<equiv> ''ErrMaybe''"
abbreviation ErrWrongLeader :: Err where "ErrWrongLeader \<equiv> ''ErrWrongLeader''"
abbreviation ErrWrongGroup :: Err where "ErrWrongGroup \<equiv> ''ErrWrongGroup''"

type_synonym Tversion = "64 word"

record PutArgs =
  pKey :: string
  pValue :: string
  pVersion :: Tversion

record PutReply =
  prErr :: Err

record GetArgs =
  gKey :: string

record GetReply =
  grValue :: string
  grVersion :: Tversion
  grErr :: Err

section \<open>The server\<close>

record Element =
  elValue :: string
  elVersion :: Tversion

record KVServer =
  kvdata :: "string \<rightharpoonup> Element"

definition MakeKVServer :: KVServer where
  "MakeKVServer = \<lparr>kvdata = Map.empty\<rparr>"

definition Get :: "GetArgs \<Rightarrow> KVServer \<Rightarrow> GetReply" where
  "Get args kv =
     (case kvdata kv (gKey args) of
        None \<Rightarrow> \<lparr>grValue = '''', grVersion = 0, grErr = ErrNoKey\<rparr>
      | Some element \<Rightarrow> \<lparr>grValue = elValue element, grVersion = elVersion element, grErr = OK\<rparr>)"

definition Put :: "PutArgs \<Rightarrow> KVServer \<Rightarrow> KVServer \<times> PutReply" where
  "Put args kv =
     (case kvdata kv (pKey args) of
        None \<Rightarrow>
          (if pVersion args \<noteq> 0 then (kv, \<lparr>prErr = ErrNoKey\<rparr>)
           else (kv\<lparr>kvdata := (kvdata kv)(pKey args \<mapsto> \<lparr>elValue = pValue args, elVersion = 1\<rparr>)\<rparr>,
                 \<lparr>prErr = OK\<rparr>))
      | Some element \<Rightarrow>
          (if elVersion element \<noteq> pVersion args then (kv, \<lparr>prErr = ErrVersion\<rparr>)
           else (kv\<lparr>kvdata := (kvdata kv)(pKey args \<mapsto>
                    element\<lparr>elValue := pValue args, elVersion := elVersion element + 1\<rparr>)\<rparr>,
                 \<lparr>prErr = OK\<rparr>)))"

text \<open>Snapshots: the encoded stream holds one value, the map.  \<open>None\<close> is \<^verbatim>\<open>log.Fatalf\<close>.\<close>

datatype kvbytes = KvBytes "string \<rightharpoonup> Element"

text \<open>Two stores are never compared by the code; for evaluation their comparison stays symbolic.\<close>

definition same_store :: "(string \<rightharpoonup> Element) \<Rightarrow> (string \<rightharpoonup> Element) \<Rightarrow> bool" where
  [code del]: "same_store m m' \<longleftrightarrow> m = m'"

lemma equal_kvbytes_code [code]: "HOL.equal (KvBytes m) (KvBytes m') \<longleftrightarrow> same_store m m'"
  by (simp add: equal same_store_def)

fun as_kvdata :: "kvbytes \<Rightarrow> (string \<rightharpoonup> Element) option" where
  "as_kvdata (KvBytes m) = Some m"

definition kvSnapshot :: "KVServer \<Rightarrow> kvbytes list" where
  "kvSnapshot kv = Encode [] (KvBytes (kvdata kv))"

definition kvRestore :: "kvbytes list \<Rightarrow> KVServer \<Rightarrow> KVServer option" where
  "kvRestore data kv =
     (if length data < 1 then Some kv
      else case Decode as_kvdata data of
             None \<Rightarrow> None
           | Some (kvData, _) \<Rightarrow> Some (kv\<lparr>kvdata := kvData\<rparr>))"

section \<open>The interface of a versioned store\<close>

lemma unat_next: "x \<noteq> - 1 \<Longrightarrow> unat (x + 1) = Suc (unat x)" for x :: "'a::len word"
  using unatSuc[of x] by (metis add.commute add.left_inverse add_right_cancel add_uminus_conv_diff diff_add_cancel)

lemma unat_max: "unat (- 1 :: 64 word) = 2 ^ 64 - 1"
  by (simp add: unat_eq_nat_uint uint_word_of_int_eq unsigned_minus_1_eq_mask mask_eq_exp_minus_1)

text \<open>
  What clients rely on: a put takes effect exactly when it answers OK, it then installs its
  value under the next version, and it touches no other key.  The version of a missing key is 0.
\<close>

locale versioned_store =
  fixes lookup :: "'s \<Rightarrow> 'k \<Rightarrow> ('v \<times> Tversion) option"
    and store :: "'k \<Rightarrow> 'v \<Rightarrow> Tversion \<Rightarrow> 's \<Rightarrow> 's \<times> Err"
  assumes store_ok_iff: "snd (store k v n s) = OK \<longleftrightarrow>
      (case lookup s k of None \<Rightarrow> n = 0 | Some (_, m) \<Rightarrow> n = m)"
    and store_ok: "snd (store k v n s) = OK \<Longrightarrow>
      lookup (fst (store k v n s)) k' = (if k' = k then Some (v, n + 1) else lookup s k')"
    and store_fail: "snd (store k v n s) \<noteq> OK \<Longrightarrow> fst (store k v n s) = s"
begin

definition version :: "'s \<Rightarrow> 'k \<Rightarrow> Tversion" where
  "version s k = (case lookup s k of None \<Rightarrow> 0 | Some (_, m) \<Rightarrow> m)"

lemma ok_iff_version: "snd (store k v n s) = OK \<longleftrightarrow> n = version s k"
  by (auto simp: store_ok_iff version_def split: option.splits)

text \<open>Version numbers only go up, by one for each put that succeeds, until they wrap.\<close>

lemma version_store:
  "version (fst (store k v n s)) k' =
     (if k' = k \<and> snd (store k v n s) = OK then version s k' + 1 else version s k')"
proof (cases "snd (store k v n s) = OK")
  case True
  from store_ok[OF True, of k'] True show ?thesis
    by (auto simp: version_def ok_iff_version split: option.splits)
next
  case False
  from store_fail[OF False] False show ?thesis by simp
qed

lemma version_mono:
  assumes "version s k \<noteq> - 1"
  shows "version s k \<le> version (fst (store k' v n s)) k"
  using assms by (auto simp: version_store word_le_nat_alt unat_next)

text \<open>A request that was executed once fails whenever it is executed again, before the wrap.\<close>

lemma store_once:
  assumes "n < version s k"
  shows "snd (store k v n s) \<noteq> OK"
  using assms by (simp add: ok_iff_version)

end

definition kv_lookup :: "KVServer \<Rightarrow> string \<Rightarrow> (string \<times> Tversion) option" where
  "kv_lookup kv k = map_option (\<lambda>e. (elValue e, elVersion e)) (kvdata kv k)"

definition kv_store :: "string \<Rightarrow> string \<Rightarrow> Tversion \<Rightarrow> KVServer \<Rightarrow> KVServer \<times> Err" where
  "kv_store k v n kv = (let (kv', reply) = Put \<lparr>pKey = k, pValue = v, pVersion = n\<rparr> kv in (kv', prErr reply))"

interpretation kv: versioned_store kv_lookup kv_store
proof unfold_locales
  fix k v k' :: string and n :: Tversion and s :: KVServer
  show "(snd (kv_store k v n s) = OK) =
      (case kv_lookup s k of None \<Rightarrow> n = 0 | Some (_, m) \<Rightarrow> n = m)"
    by (auto simp: kv_store_def kv_lookup_def Put_def split: option.splits)
  show "kv_lookup (fst (kv_store k v n s)) k' = (if k' = k then Some (v, n + 1) else kv_lookup s k')"
    if "snd (kv_store k v n s) = OK"
    using that by (auto simp: kv_store_def kv_lookup_def Put_def split: option.splits if_split_asm)
  show "fst (kv_store k v n s) = s" if "snd (kv_store k v n s) \<noteq> OK"
    using that by (auto simp: kv_store_def Put_def split: option.splits if_split_asm)
qed

end
