(* ===== verification/Rsm.thy ===== *)
theory Rsm
  imports RaftReplication KvServer
begin

text \<open>
  The replicated state machine, \<^verbatim>\<open>src/src/kvraft1/rsm/rsm.go\<close>, between a service and Raft, and the
  service \<^verbatim>\<open>src/src/kvraft1/server.go\<close> built on it.

  The service (the interface \<^verbatim>\<open>StateMachine\<close>) is a state type with three operations, arguments of
  the functions below; \<open>None\<close> is a fatal error of the service.  Raft appears as the results of
  its calls: the triple of \<^verbatim>\<open>Start\<close>, the number of \<^verbatim>\<open>PersistBytes\<close> and the messages of \<^verbatim>\<open>applyCh\<close>.
  Every function is one critical section under \<^verbatim>\<open>rsm.mu\<close>.
\<close>

unbundle bit_operations_syntax

section \<open>Data\<close>

record 'req Op =
  opServer :: nat
  opID :: "64 word"
  opReq :: 'req

record 'res Result =
  rsErr :: Err
  rsValue :: "'res option"

text \<open>
  \<open>wch\<close> is the channel of capacity one, with the result in it.  A \<^verbatim>\<open>Submit\<close> keeps listening on its channel
  when its waiter is no longer in the map, because another \<^verbatim>\<open>Submit\<close> has replaced or deleted it:
  \<open>detached\<close> holds these waiters.
\<close>

record ('req, 'res) WaiterInfo =
  wch :: "'res Result option"
  wterm :: int
  wresult :: "'res Result option"
  wop :: "'req Op"

datatype snap_pc = SnapCheck | SnapWait | SnapWoken

record ('req, 'res, 's) RSM =
  rsme :: nat
  maxraftstate :: int
  sm :: 's
  idc :: "64 word"
  waiters :: "int \<rightharpoonup> ('req, 'res) WaiterInfo"
  detached :: "int \<Rightarrow> ('req, 'res) WaiterInfo list"
  lastAppliedID :: int
  snapper :: snap_pc

definition MakeRSM :: "nat \<Rightarrow> int \<Rightarrow> 's \<Rightarrow> ('req, 'res, 's) RSM" where
  "MakeRSM i maxstate s0 =
     \<lparr>rsme = i, maxraftstate = maxstate, sm = s0, idc = 0, waiters = Map.empty,
      detached = (\<lambda>_. []), lastAppliedID = 0, snapper = SnapCheck\<rparr>"

definition nextID :: "('req, 'res, 's) RSM \<Rightarrow> ('req, 'res, 's) RSM \<times> 64 word" where
  "nextID rsm = (let n = idc rsm + 1 in (rsm\<lparr>idc := n\<rparr>, push_bit 48 (word_of_nat (rsme rsm)) OR n))"

definition isDuplicate :: "int \<Rightarrow> ('req, 'res, 's) RSM \<Rightarrow> bool" where
  "isDuplicate index rsm \<longleftrightarrow> lastAppliedID rsm \<ge> index"

section \<open>The reader\<close>

text \<open>Set the result and send it on the channel if there is room.\<close>

definition offer :: "'res Result \<Rightarrow> ('req, 'res) WaiterInfo \<Rightarrow> ('req, 'res) WaiterInfo" where
  "offer r wi = wi\<lparr>wresult := Some r, wch := (case wch wi of None \<Rightarrow> Some r | Some x \<Rightarrow> Some x)\<rparr>"

definition signal_snapper :: "('req, 'res, 's) RSM \<Rightarrow> ('req, 'res, 's) RSM" where
  "signal_snapper rsm = (if snapper rsm = SnapWait then rsm\<lparr>snapper := SnapWoken\<rparr> else rsm)"

definition wrong_leader :: "'res Result" where
  "wrong_leader = \<lparr>rsErr = ErrWrongLeader, rsValue = None\<rparr>"

text \<open>
  One message of \<open>applyCh\<close>.  A command that is not an \<open>Op\<close>, the no-op of a new leader, is \<open>None\<close>.
\<close>

fun reader ::
  "('req \<Rightarrow> 's \<Rightarrow> ('s \<times> 'res) option) \<Rightarrow> ('b list \<Rightarrow> 's \<Rightarrow> 's option) \<Rightarrow> int \<Rightarrow>
     ('req Op, 'b) ApplyMsg \<Rightarrow> ('req, 'res, 's) RSM \<Rightarrow> ('req, 'res, 's) RSM option" where
  "reader DoOp Restore bytes (CommandMsg command commandIndex) rsm = do {
     (rsm1, value) \<leftarrow>
       (case command of
          Some op \<Rightarrow>
            (if \<not> isDuplicate commandIndex rsm
             then do { (s, res) \<leftarrow> DoOp (opReq op) (sm rsm); Some (rsm\<lparr>sm := s\<rparr>, Some res) }
             else Some (rsm, None))
        | None \<Rightarrow> Some (rsm, None));
     let result = \<lparr>rsErr = OK, rsValue = value\<rparr>;
     let rsm2 = rsm1\<lparr>lastAppliedID := max commandIndex (lastAppliedID rsm1)\<rparr>;
     let rsm3 = (if maxraftstate rsm2 \<noteq> -1 \<and> bytes \<ge> maxraftstate rsm2
                 then signal_snapper rsm2 else rsm2);
     Some (case waiters rsm3 commandIndex of
             None \<Rightarrow> rsm3
           | Some wi \<Rightarrow>
               (if command = Some (wop wi)
                then rsm3\<lparr>waiters := (waiters rsm3)(commandIndex \<mapsto> offer result wi)\<rparr>
                else rsm3\<lparr>waiters := (\<lambda>i. map_option (offer wrong_leader) (waiters rsm3 i))\<rparr>)) }"
| "reader DoOp Restore bytes (SnapshotMsg data snapshotTerm snapshotIndex) rsm = do {
     rsm1 \<leftarrow> (if \<not> isDuplicate snapshotIndex rsm
             then do { s \<leftarrow> Restore data (sm rsm);
                       Some (rsm\<lparr>sm := s, lastAppliedID := snapshotIndex\<rparr>) }
             else Some rsm);
     Some (rsm1\<lparr>waiters := (\<lambda>index. map_option (\<lambda>wi.
             if index \<le> snapshotIndex \<or> wterm wi < snapshotTerm then offer wrong_leader wi else wi)
             (waiters rsm1 index))\<rparr>) }"

section \<open>Snapshots\<close>

text \<open>
  One round of the goroutine \<open>snapshot\<close>: the state and the call of \<open>rf.Snapshot\<close> it makes.
\<close>

definition snapshot_round ::
  "('s \<Rightarrow> 'b list) \<Rightarrow> int \<Rightarrow> ('req, 'res, 's) RSM \<Rightarrow> ('req, 'res, 's) RSM \<times> (int \<times> 'b list) option" where
  "snapshot_round Snapshot bytes rsm =
     (case snapper rsm of
        SnapCheck \<Rightarrow>
          (if bytes < maxraftstate rsm then (rsm\<lparr>snapper := SnapWait\<rparr>, None)
           else (rsm, Some (lastAppliedID rsm, Snapshot (sm rsm))))
      | SnapWait \<Rightarrow> (rsm, None)
      | SnapWoken \<Rightarrow> (rsm\<lparr>snapper := SnapCheck\<rparr>, Some (lastAppliedID rsm, Snapshot (sm rsm))))"

section \<open>Submit\<close>

text \<open>
  The parts of \<open>Submit\<close>: building the \<open>Op\<close>, registering the waiter after \<open>rf.Start\<close> has
  answered, and the two arms of the select.  Identifiers are unique, so the operation tells which
  \<open>Submit\<close> is meant.  \<open>Submit_recv\<close> is enabled while its channel holds a result; \<open>Submit_timeout\<close> looks at
  whatever waiter is registered at the index.  Both delete that waiter, whoever it belongs to.
\<close>

definition Submit_op :: "'req \<Rightarrow> ('req, 'res, 's) RSM \<Rightarrow> ('req, 'res, 's) RSM \<times> 'req Op" where
  "Submit_op req rsm = (let (rsm1, n) = nextID rsm in (rsm1, \<lparr>opServer = rsme rsm1, opID = n, opReq = req\<rparr>))"

definition listeners :: "int \<Rightarrow> ('req, 'res, 's) RSM \<Rightarrow> ('req, 'res) WaiterInfo list" where
  "listeners logIndex rsm =
     (case waiters rsm logIndex of None \<Rightarrow> detached rsm logIndex | Some wi \<Rightarrow> wi # detached rsm logIndex)"

definition Submit_start ::
  "int \<times> int \<times> bool \<Rightarrow> 'req Op \<Rightarrow> ('req, 'res, 's) RSM \<Rightarrow>
     ('req, 'res, 's) RSM + (Err \<times> 'res option)" where
  "Submit_start started op rsm =
     (case started of (logIndex, term, isLeader) \<Rightarrow>
        (if \<not> isLeader then Inr (ErrWrongLeader, None)
         else Inl (rsm\<lparr>waiters := (waiters rsm)(logIndex \<mapsto>
                \<lparr>wch = None, wterm = term, wresult = None, wop = op\<rparr>),
                detached := (detached rsm)(logIndex := listeners logIndex rsm)\<rparr>)))"

text \<open>\<^verbatim>\<open>delete(rsm.waiters, logIndex)\<close> by the \<open>Submit\<close> of \<open>op\<close>, which then returns.\<close>

definition delete_waiter :: "int \<Rightarrow> 'req Op \<Rightarrow> ('req, 'res, 's) RSM \<Rightarrow> ('req, 'res, 's) RSM" where
  "delete_waiter logIndex op rsm =
     rsm\<lparr>waiters := (waiters rsm)(logIndex := None),
         detached := (detached rsm)(logIndex := filter (\<lambda>wi. wop wi \<noteq> op) (listeners logIndex rsm))\<rparr>"

definition Submit_recv ::
  "int \<Rightarrow> 'req Op \<Rightarrow> ('req, 'res, 's) RSM \<Rightarrow> (('req, 'res, 's) RSM \<times> Err \<times> 'res option) option" where
  "Submit_recv logIndex op rsm = do {
     wi \<leftarrow> find (\<lambda>wi. wop wi = op) (listeners logIndex rsm);
     r \<leftarrow> wch wi;
     Some (delete_waiter logIndex op rsm, rsErr r, rsValue r) }"

definition Submit_timeout ::
  "int \<Rightarrow> 'req Op \<Rightarrow> ('req, 'res, 's) RSM \<Rightarrow> (('req, 'res, 's) RSM \<times> Err \<times> 'res option) option" where
  "Submit_timeout logIndex op rsm = do {
     wi \<leftarrow> waiters rsm logIndex;
     r \<leftarrow> wresult wi;
     Some (delete_waiter logIndex op rsm, rsErr r, rsValue r) }"

section \<open>The key/value service\<close>

text \<open>\<open>ReqOther\<close> is a request of any other type, for which \<open>DoOp\<close> ends the process.\<close>

datatype kvreq = ReqGet GetArgs | ReqPut PutArgs | ReqOther

datatype kvres = ResGet GetReply | ResPut PutReply

fun DoOp :: "kvreq \<Rightarrow> KVServer \<Rightarrow> (KVServer \<times> kvres) option" where
  "DoOp (ReqGet args) kv = Some (kv, ResGet (Get args kv))"
| "DoOp (ReqPut args) kv = (let (kv', reply) = Put args kv in Some (kv', ResPut reply))"
| "DoOp ReqOther kv = None"

text \<open>
  The RPC handlers, with the result of \<open>kv.rsm.Submit\<close>; \<open>None\<close> is the panic of a failed type
  assertion.
\<close>

fun kvraft_Get_reply :: "Err \<times> kvres option \<Rightarrow> GetReply option" where
  "kvraft_Get_reply (err, result) =
     (if err \<noteq> OK then Some \<lparr>grValue = '''', grVersion = 0, grErr = err\<rparr>
      else case result of Some (ResGet r) \<Rightarrow> Some r | _ \<Rightarrow> None)"

fun kvraft_Put_reply :: "Err \<times> kvres option \<Rightarrow> PutReply option" where
  "kvraft_Put_reply (err, result) =
     (if err \<noteq> OK then Some \<lparr>prErr = err\<rparr>
      else case result of Some (ResPut r) \<Rightarrow> Some r | _ \<Rightarrow> None)"

definition StartKVServer ::
  "nat \<Rightarrow> ('r, kvbytes) Persister \<Rightarrow> int \<Rightarrow> (kvreq, kvres, KVServer) RSM option" where
  "StartKVServer i ps maxstate = do {
     let rsm = MakeRSM i maxstate MakeKVServer;
     kv \<leftarrow> kvRestore (the (ReadSnapshot ps)) (sm rsm);
     Some (rsm\<lparr>sm := kv\<rparr>) }"

end
