(* ===== verification/RsmProps.thy ===== *)
theory RsmProps
  imports Rsm
begin

text \<open>
  The replicated state machine: replicas that consume the same committed commands are in the same
  state, whether they executed every command or skipped some by a snapshot, and what \<open>Submit\<close>
  returns.
\<close>

section \<open>The interface of a state machine\<close>

locale state_machine =
  fixes do_op :: "'req \<Rightarrow> 's \<Rightarrow> ('s \<times> 'res) option"
    and snap :: "'s \<Rightarrow> 'b list"
    and restore :: "'b list \<Rightarrow> 's \<Rightarrow> 's option"
    and valid :: "'req \<Rightarrow> bool"
  assumes do_op_total: "valid r \<Longrightarrow> \<exists>x. do_op r s = Some x"
    and restore_snap: "restore (snap s) s' = Some s"

text \<open>The specification: the state after the first \<open>k\<close> committed commands.\<close>

definition exec_op :: "('req \<Rightarrow> 's \<Rightarrow> ('s \<times> 'res) option) \<Rightarrow> 'req Op option \<Rightarrow> 's \<Rightarrow> 's" where
  "exec_op do_op c s =
     (case c of None \<Rightarrow> s | Some op \<Rightarrow> (case do_op (opReq op) s of None \<Rightarrow> s | Some (s', _) \<Rightarrow> s'))"

definition state_after ::
  "('req \<Rightarrow> 's \<Rightarrow> ('s \<times> 'res) option) \<Rightarrow> 'req Op option list \<Rightarrow> 's \<Rightarrow> nat \<Rightarrow> 's" where
  "state_after do_op C s0 k = foldl (\<lambda>s c. exec_op do_op c s) s0 (take k C)"

text \<open>
  A message stream that follows the committed commands \<open>C\<close> (index 1 is the first) from index
  \<open>n\<close> to index \<open>m\<close>: the next command, or a snapshot of a later state.
\<close>

fun legal ::
  "('req \<Rightarrow> 's \<Rightarrow> ('s \<times> 'res) option) \<Rightarrow> ('s \<Rightarrow> 'b list) \<Rightarrow> 'req Op option list \<Rightarrow> 's \<Rightarrow>
     nat \<Rightarrow> ('req Op, 'b) ApplyMsg list \<Rightarrow> nat \<Rightarrow> bool" where
  "legal do_op snap C s0 n [] m \<longleftrightarrow> m = n"
| "legal do_op snap C s0 n (CommandMsg c i # ms) m \<longleftrightarrow>
     i = int n + 1 \<and> n < length C \<and> c = C ! n \<and> legal do_op snap C s0 (Suc n) ms m"
| "legal do_op snap C s0 n (SnapshotMsg d t i # ms) m \<longleftrightarrow>
     int n < i \<and> nat i \<le> length C \<and> d = snap (state_after do_op C s0 (nat i)) \<and>
     legal do_op snap C s0 (nat i) ms m"

fun read_all ::
  "('req \<Rightarrow> 's \<Rightarrow> ('s \<times> 'res) option) \<Rightarrow> ('b list \<Rightarrow> 's \<Rightarrow> 's option) \<Rightarrow> int \<Rightarrow>
     ('req Op, 'b) ApplyMsg list \<Rightarrow> ('req, 'res, 's) RSM \<Rightarrow> ('req, 'res, 's) RSM option" where
  "read_all do_op restore bytes [] rsm = Some rsm"
| "read_all do_op restore bytes (msg # ms) rsm = do {
     rsm1 \<leftarrow> reader do_op restore bytes msg rsm;
     read_all do_op restore bytes ms rsm1 }"

lemma state_after_Suc:
  "n < length C \<Longrightarrow> state_after do_op C s0 (Suc n) = exec_op do_op (C ! n) (state_after do_op C s0 n)"
  by (simp add: state_after_def take_Suc_conv_app_nth)

lemma signal_snapper_frame [simp]:
  "sm (signal_snapper rsm) = sm rsm" "lastAppliedID (signal_snapper rsm) = lastAppliedID rsm"
  "waiters (signal_snapper rsm) = waiters rsm" "detached (signal_snapper rsm) = detached rsm"
  by (simp_all add: signal_snapper_def)

context state_machine
begin

lemma reader_command:
  assumes "\<forall>op. c = Some op \<longrightarrow> valid (opReq op)" and "lastAppliedID rsm < i"
  obtains rsm' where "reader do_op restore bytes (CommandMsg c i) rsm = Some rsm'"
    "sm rsm' = exec_op do_op c (sm rsm)" "lastAppliedID rsm' = i"
proof (cases c)
  case None
  show thesis
    by (rule that[of "the (reader do_op restore bytes (CommandMsg c i) rsm)"])
      (use None assms(2) in \<open>auto simp: Let_def exec_op_def split: option.splits\<close>)
next
  case (Some op)
  with assms(1) do_op_total obtain s' res where "do_op (opReq op) (sm rsm) = Some (s', res)" by fast
  with Some assms(2) show thesis
    by (intro that[of "the (reader do_op restore bytes (CommandMsg c i) rsm)"])
      (auto simp: Let_def exec_op_def isDuplicate_def split: option.splits)
qed

lemma reader_snapshot:
  assumes "lastAppliedID rsm < i"
  obtains rsm' where "reader do_op restore bytes (SnapshotMsg (snap s) t i) rsm = Some rsm'"
    "sm rsm' = s" "lastAppliedID rsm' = i"
  using that assms by (auto simp: isDuplicate_def restore_snap)

text \<open>Reading a legal stream never fails and ends in the specified state.\<close>

theorem read_legal:
  assumes "legal do_op snap C s0 n ms m" and "\<forall>op. Some op \<in> set C \<longrightarrow> valid (opReq op)"
    and "sm rsm = state_after do_op C s0 n" and "lastAppliedID rsm \<le> int n"
  shows "\<exists>rsm'. read_all do_op restore bytes ms rsm = Some rsm' \<and>
     sm rsm' = state_after do_op C s0 m \<and> lastAppliedID rsm' \<le> int m \<and>
     (ms \<noteq> [] \<longrightarrow> lastAppliedID rsm' = int m)"
  using assms
proof (induction ms arbitrary: n rsm)
  case (Cons msg ms)
  show ?case
  proof (cases msg)
    case (CommandMsg c i)
    with Cons.prems(1) have i: "i = int n + 1" "n < length C" "c = C ! n"
      and l: "legal do_op snap C s0 (Suc n) ms m" by auto
    have v: "\<forall>op. c = Some op \<longrightarrow> valid (opReq op)" using i Cons.prems(2) nth_mem by metis
    have "lastAppliedID rsm < i" using i Cons.prems(4) by simp
    from reader_command[OF v this] obtain rsm1 where r: "reader do_op restore bytes msg rsm = Some rsm1"
      "sm rsm1 = exec_op do_op c (sm rsm)" "lastAppliedID rsm1 = i" using CommandMsg by blast
    have "sm rsm1 = state_after do_op C s0 (Suc n)" using r i Cons.prems(3) by (simp add: state_after_Suc)
    from Cons.IH[OF l Cons.prems(2) this] r i show ?thesis
      by (cases "ms = []") (use l in auto)
  next
    case (SnapshotMsg d t i)
    with Cons.prems(1) have i: "int n < i" "d = snap (state_after do_op C s0 (nat i))"
      and l: "legal do_op snap C s0 (nat i) ms m" by auto
    have "lastAppliedID rsm < i" using i(1) Cons.prems(4) by simp
    from reader_snapshot[OF this] obtain rsm1 where r: "reader do_op restore bytes msg rsm = Some rsm1"
      "sm rsm1 = state_after do_op C s0 (nat i)" "lastAppliedID rsm1 = i"
      using SnapshotMsg i(2) by blast
    have "lastAppliedID rsm1 \<le> int (nat i)" using r i by simp
    from Cons.IH[OF l Cons.prems(2) r(2) this] r i show ?thesis
      by (cases "ms = []") (use l in auto)
  qed
qed simp

end

fun kv_valid :: "kvreq \<Rightarrow> bool" where
  "kv_valid ReqOther = False"
| "kv_valid _ = True"

interpretation kvsm: state_machine DoOp kvSnapshot kvRestore kv_valid
proof
  show "\<exists>x. DoOp r s = Some x" if "kv_valid r" for r s
    using that by (cases r) (auto simp: case_prod_beta Let_def)
  show "kvRestore (kvSnapshot s) s' = Some s" for s s'
    by (simp add: kvRestore_def kvSnapshot_def Encode_def)
qed

section \<open>Properties of the replicas\<close>

text \<open>
  Replicas agree: two servers of the replicated key/value store that have consumed message
  streams of the same committed commands up to the same index, one command by command, the other
  perhaps skipping commands by snapshots, are in the same state, namely the one in which each
  command was executed once and in order; no message makes a server fail.
\<close>

theorem replicas_agree:
  assumes "\<forall>op. Some op \<in> set C \<longrightarrow> kv_valid (opReq op)"
    and "legal DoOp kvSnapshot C MakeKVServer 0 ms1 m" and "legal DoOp kvSnapshot C MakeKVServer 0 ms2 m"
    and "rsm1 = MakeRSM i1 max1 MakeKVServer" and "rsm2 = MakeRSM i2 max2 MakeKVServer"
  shows "\<exists>r1 r2. read_all DoOp kvRestore b1 ms1 rsm1 = Some r1 \<and> read_all DoOp kvRestore b2 ms2 rsm2 = Some r2 \<and>
     sm r1 = sm r2 \<and> sm r1 = state_after DoOp C MakeKVServer m"
proof -
  have 0: "sm rsm1 = state_after DoOp C MakeKVServer 0" "lastAppliedID rsm1 \<le> int 0"
    "sm rsm2 = state_after DoOp C MakeKVServer 0" "lastAppliedID rsm2 \<le> int 0"
    using assms(4,5) by (simp_all add: MakeRSM_def state_after_def)
  from kvsm.read_legal[OF assms(2,1) 0(1,2), of b1] kvsm.read_legal[OF assms(3,1) 0(3,4), of b2]
  show ?thesis by auto
qed

definition demo_op :: "kvreq Op" where
  "demo_op = \<lparr>opServer = 0, opID = 1, opReq = ReqPut \<lparr>pKey = ''k'', pValue = ''v'', pVersion = 0\<rparr>\<rparr>"

definition demo_log2 :: "kvreq Op option list" where
  "demo_log2 = [None, Some demo_op]"

theorem replicas_agree_witness:
  "\<exists>r1 r2. read_all DoOp kvRestore 0 [CommandMsg None 1, CommandMsg (Some demo_op) 2] (MakeRSM 0 (-1) MakeKVServer) = Some r1 \<and>
     read_all DoOp kvRestore 0 [SnapshotMsg (kvSnapshot (state_after DoOp demo_log2 MakeKVServer 2)) 1 2]
       (MakeRSM 1 (-1) MakeKVServer) = Some r2 \<and> sm r1 = sm r2"
proof -
  have "\<forall>op. Some op \<in> set demo_log2 \<longrightarrow> kv_valid (opReq op)"
    by (simp add: demo_log2_def demo_op_def)
  moreover have "legal DoOp kvSnapshot demo_log2 MakeKVServer 0 [CommandMsg None 1, CommandMsg (Some demo_op) 2] 2"
    "legal DoOp kvSnapshot demo_log2 MakeKVServer 0 [SnapshotMsg (kvSnapshot (state_after DoOp demo_log2 MakeKVServer 2)) 1 2] 2"
    by (simp_all add: demo_log2_def)
  ultimately show ?thesis using replicas_agree[OF _ _ _ refl refl, of demo_log2 _ 2 _ 0 0 "-1" 0 1 "-1"] by blast
qed

text \<open>
  The submitter gets its own result: when the command delivered at an index is the one its
  waiter was registered for, and it was not applied before, both arms of \<open>Submit\<close> return OK with
  the result of executing this very command in the state of that moment.
\<close>

theorem submit_own_result:
  assumes "waiters rsm i = Some wi" and "wop wi = op" and "wch wi = None"
    and "lastAppliedID rsm < i" and "DoOp (opReq op) (sm rsm) = Some (s, res)"
  shows "\<exists>rsm' rsm''. reader DoOp kvRestore bytes (CommandMsg (Some op) i) rsm = Some rsm' \<and> sm rsm' = s \<and>
     Submit_recv i op rsm' = Some (rsm'', OK, Some res) \<and> Submit_timeout i op rsm' = Some (rsm'', OK, Some res)"
  using assms
  by (auto simp: isDuplicate_def Let_def offer_def Submit_recv_def Submit_timeout_def listeners_def)

definition demo_rsm :: "(kvreq, kvres, KVServer) RSM" where
  "demo_rsm = (MakeRSM 0 (-1) MakeKVServer)\<lparr>waiters :=
     [2 \<mapsto> \<lparr>wch = None, wterm = 1, wresult = None, wop = demo_op\<rparr>]\<rparr>"

theorem submit_own_result_witness:
  "\<exists>rsm' rsm''. reader DoOp kvRestore 0 (CommandMsg (Some demo_op) 2) demo_rsm = Some rsm' \<and>
     Submit_recv 2 demo_op rsm' = Some (rsm'', OK, Some (ResPut \<lparr>prErr = OK\<rparr>))"
proof -
  have "waiters demo_rsm 2 = Some \<lparr>wch = None, wterm = 1, wresult = None, wop = demo_op\<rparr>"
    "lastAppliedID demo_rsm < 2"
    by (simp_all add: demo_rsm_def MakeRSM_def)
  moreover obtain s where "DoOp (opReq demo_op) (sm demo_rsm) = Some (s, ResPut \<lparr>prErr = OK\<rparr>)"
    by (auto simp: demo_op_def demo_rsm_def MakeRSM_def MakeKVServer_def Put_def)
  ultimately show ?thesis
    using submit_own_result[of demo_rsm 2 "\<lparr>wch = None, wterm = 1, wresult = None, wop = demo_op\<rparr>" demo_op s _ 0]
    by fastforce
qed

text \<open>
  A command that was replaced is never confirmed: when another command is delivered at the
  index of a waiter, every waiter without an answer is told \<open>ErrWrongLeader\<close>, with no value.
\<close>

theorem replaced_command_refused:
  assumes "waiters rsm i = Some wi" and "command \<noteq> Some (wop wi)"
    and "reader DoOp kvRestore bytes (CommandMsg command i) rsm = Some rsm'"
    and "waiters rsm j = Some wj"
  shows "\<exists>rsm''. Submit_timeout j (wop wj) rsm' = Some (rsm'', ErrWrongLeader, None) \<and>
     (wch wj = None \<longrightarrow> Submit_recv j (wop wj) rsm' = Some (rsm'', ErrWrongLeader, None))"
proof -
  have w: "waiters rsm' j = Some (offer wrong_leader wj)"
    using assms by (auto elim!: bindE split: option.splits if_split_asm simp: Let_def)
  show ?thesis unfolding Submit_timeout_def Submit_recv_def listeners_def w
    by (auto simp: offer_def wrong_leader_def)
qed

theorem replaced_command_refused_witness:
  "\<exists>rsm' rsm''. reader DoOp kvRestore 0 (CommandMsg None 2) demo_rsm = Some rsm' \<and>
     Submit_timeout 2 demo_op rsm' = Some (rsm'', ErrWrongLeader, None)"
proof -
  have w: "waiters demo_rsm 2 = Some \<lparr>wch = None, wterm = 1, wresult = None, wop = demo_op\<rparr>"
    by (simp add: demo_rsm_def)
  obtain rsm' where "reader DoOp kvRestore 0 (CommandMsg None 2) demo_rsm = Some rsm'" by (auto simp: Let_def)
  with replaced_command_refused[OF w _ this w] show ?thesis by auto
qed

lemma nextID_eq:
  assumes "rsme rsm < 2 ^ 16" and "unat (idc rsm) + 1 < 2 ^ 48"
  shows "unat (snd (nextID rsm)) = rsme rsm * 2 ^ 48 + (unat (idc rsm) + 1)"
proof -
  have n1: "unat (idc rsm + 1) = unat (idc rsm) + 1"
  proof -
    have "idc rsm \<noteq> - 1" using assms(2) by (auto simp: unat_max)
    then show ?thesis by (simp add: unat_next)
  qed
  let ?a = "push_bit 48 (word_of_nat (rsme rsm) :: 64 word)" and ?b = "idc rsm + 1"
  have a: "unat ?a = rsme rsm * 2 ^ 48"
  proof -
    have "?a = word_of_nat (rsme rsm * 2 ^ 48)" by (simp add: push_bit_eq_mult)
    then have "unat ?a = rsme rsm * 2 ^ 48 mod 2 ^ 64" by (simp only: unat_of_nat) simp
    then show ?thesis using assms(1) by simp
  qed
  have "?a OR ?b = ?a + ?b"
  proof (rule disjunctive_add[symmetric])
    fix m
    have "\<not> bit ?b m" if "48 \<le> m"
    proof -
      have "take_bit 48 (unat ?b) = unat ?b" using assms(2) n1 by (simp add: take_bit_nat_eq_self)
      then have "\<not> bit (unat ?b) m" using that by (metis bit_take_bit_iff not_le)
      then show ?thesis by (simp add: bit_unsigned_iff)
    qed
    then show "\<not> bit ?a m \<or> \<not> bit ?b m" by (auto simp: bit_push_bit_iff)
  qed
  moreover have "unat (?a + ?b) = unat ?a + unat ?b"
  proof (rule unat_plus_simple[THEN iffD1], subst word_le_nat_alt)
    have "unat ?a + unat ?b < 2 ^ 64" using a n1 assms by simp
    then show "unat ?a \<le> unat (?a + ?b)" by (simp add: unat_plus_if_size word_size)
  qed
  ultimately show ?thesis using a n1 by (simp add: nextID_def Let_def)
qed

text \<open>
  C18. Operation identifiers are unique: two operations that servers numbered below \<open>2\<^sup>1\<^sup>6\<close> give
  out as their \<open>k\<close>th one, \<open>k\<close> below \<open>2\<^sup>4\<^sup>8\<close>, have the same identifier only if server and number agree.
\<close>

theorem nextID_unique:
  assumes "rsme r1 < 2 ^ 16" and "rsme r2 < 2 ^ 16"
    and "unat (idc r1) + 1 < 2 ^ 48" and "unat (idc r2) + 1 < 2 ^ 48"
    and "snd (nextID r1) = snd (nextID r2)"
  shows "rsme r1 = rsme r2 \<and> idc r1 = idc r2"
proof -
  let ?x = "unat (idc r1) + 1" and ?y = "unat (idc r2) + 1"
  have eq: "rsme r1 * 2 ^ 48 + ?x = rsme r2 * 2 ^ 48 + ?y"
    using nextID_eq[OF assms(1,3)] nextID_eq[OF assms(2,4)] assms(5) by simp
  have "(rsme r1 * 2 ^ 48 + ?x) div 2 ^ 48 = rsme r1" "(rsme r2 * 2 ^ 48 + ?y) div 2 ^ 48 = rsme r2"
    using assms(3,4) by (simp_all add: div_add1_eq)
  with eq have "rsme r1 = rsme r2" by simp
  with eq show ?thesis by (simp add: unat_arith_simps)
qed

theorem nextID_unique_witness:
  "snd (nextID (MakeRSM 3 0 MakeKVServer :: (kvreq, kvres, KVServer) RSM)) \<noteq>
   snd (nextID (MakeRSM 4 0 MakeKVServer :: (kvreq, kvres, KVServer) RSM))"
  using nextID_unique[of "MakeRSM 3 0 MakeKVServer :: (kvreq, kvres, KVServer) RSM"
      "MakeRSM 4 0 MakeKVServer :: (kvreq, kvres, KVServer) RSM"]
  by (auto simp: MakeRSM_def)

section \<open>Where Submit goes wrong\<close>

definition demo_op2 :: "kvreq Op" where
  "demo_op2 = \<lparr>opServer = 0, opID = 2, opReq = ReqGet \<lparr>gKey = ''k''\<rparr>\<rparr>"


text \<open>
  \<open>Submit\<close> can wait forever for an operation that was executed: \<open>Start\<close> is called before the
  waiter is registered, so the reader may handle the operation in between; the waiter then gets no
  answer from any number of later commands at indices where nobody waits.
\<close>

theorem submit_lost_answer:
  assumes "reader DoOp kvRestore b (CommandMsg (Some op) i) rsm = Some rsm1"
    and "Submit_start (i, t, True) op rsm1 = Inl rsm2"
    and "\<forall>msg \<in> set ms. \<exists>c j. msg = CommandMsg c j \<and> j \<notin> dom (waiters rsm2)"
    and "read_all DoOp kvRestore b ms rsm2 = Some rsm3"
  shows "Submit_recv i op rsm3 = None \<and> Submit_timeout i op rsm3 = None"
proof -
  have keep: "waiters r' = waiters r"
    if "reader DoOp kvRestore b (CommandMsg c j) r = Some r'" "j \<notin> dom (waiters r)" for c j r r'
    using that by (auto elim!: bindE simp: Let_def split: option.splits if_split_asm)
  have "waiters rsm3 = waiters rsm2"
    using assms(3,4)
  proof (induction ms arbitrary: rsm2)
    case (Cons msg ms)
    from Cons.prems(1) obtain c j where m: "msg = CommandMsg c j" "j \<notin> dom (waiters rsm2)" by auto
    from Cons.prems(2) obtain r where r: "reader DoOp kvRestore b msg rsm2 = Some r"
      "read_all DoOp kvRestore b ms r = Some rsm3" by (auto elim!: bindE)
    have "waiters r = waiters rsm2" using keep r(1) m by blast
    with Cons.IH[OF _ r(2)] Cons.prems(1) show ?case by simp
  qed simp
  with assms(2) show ?thesis by (auto simp: Submit_start_def Submit_recv_def Submit_timeout_def listeners_def)
qed

theorem submit_lost_answer_witness:
  "\<exists>rsm1 rsm2. reader DoOp kvRestore 0 (CommandMsg (Some demo_op) 1) (MakeRSM 0 (-1) MakeKVServer) = Some rsm1 \<and>
     Submit_start (1, 1, True) demo_op rsm1 = Inl rsm2 \<and> Submit_timeout 1 demo_op rsm2 = None \<and>
     kvdata (sm rsm2) ''k'' = Some \<lparr>elValue = ''v'', elVersion = 1\<rparr>"
proof -
  let ?kv = "fst (Put \<lparr>pKey = ''k'', pValue = ''v'', pVersion = 0\<rparr> MakeKVServer)"
  let ?r1 = "(MakeRSM 0 (-1) MakeKVServer)\<lparr>sm := ?kv, lastAppliedID := 1\<rparr> :: (kvreq, kvres, KVServer) RSM"
  have r1: "reader DoOp kvRestore 0 (CommandMsg (Some demo_op) 1) (MakeRSM 0 (-1) MakeKVServer) = Some ?r1"
    by (simp add: MakeRSM_def demo_op_def isDuplicate_def Let_def Put_def MakeKVServer_def)
  moreover obtain rsm2 where r2: "Submit_start (1, 1, True) demo_op ?r1 = Inl rsm2" "sm rsm2 = ?kv"
    by (simp add: Submit_start_def)
  moreover have "Submit_timeout 1 demo_op rsm2 = None"
    using submit_lost_answer[OF r1 r2(1), of "[]" rsm2] by simp
  ultimately show ?thesis by (auto simp: Put_def MakeKVServer_def)
qed

text \<open>
  A \<open>Submit\<close> that returns deletes whatever waiter is at its index.  Here the second operation at
  index 6 has replaced the waiter of the first one; the first \<open>Submit\<close> takes the refusal that was sent
  to it before and deletes the waiter of the second, which is then executed without an answer.
\<close>

theorem submit_deletes_waiter:
  "do { rsm0 \<leftarrow> case_sum Some (\<lambda>_. None) (Submit_start (6, 1, True) demo_op (MakeRSM 0 (-1) MakeKVServer));
        rsm1 \<leftarrow> reader DoOp kvRestore 0 (SnapshotMsg (kvSnapshot MakeKVServer) 2 5) rsm0;
        rsm2 \<leftarrow> case_sum Some (\<lambda>_. None) (Submit_start (6, 3, True) demo_op2 rsm1);
        (rsm3, err, val) \<leftarrow> Submit_recv 6 demo_op rsm2;
        rsm4 \<leftarrow> reader DoOp kvRestore 0 (CommandMsg (Some demo_op2) 6) rsm3;
        Some (err, val, lastAppliedID rsm4, Option.is_none (Submit_recv 6 demo_op2 rsm4),
              Option.is_none (Submit_timeout 6 demo_op2 rsm4)) } =
     Some (ErrWrongLeader, None, 6, True, True)"
  by code_simp

end
