(* ===== verification/KvRaft.thy ===== *)
theory KvRaft
  imports RaftService RsmProps
begin

text \<open>
  The replicated key/value store as a whole: the servers of \<^verbatim>\<open>kvraft1/server.go\<close> with their replicated
  state machines (\<^verbatim>\<open>kvraft1/rsm/rsm.go\<close>) on top of the cluster of Raft peers.  The service keeps the
  contract of \<open>RaftService\<close>, so that the replicas agree, and every answer that a server gives to a
  client is the result of executing the command in one sequence of commands, the same for all
  servers.
\<close>

section \<open>The service\<close>

type_synonym kvrsm = "(kvreq, kvres, KVServer) RSM"

text \<open>
  The steps of \<^verbatim>\<open>Submit\<close> outside Raft; the call of \<^verbatim>\<open>Start\<close> between the first two is the event \<open>Command\<close>
  of the cluster, and its result, the argument of \<open>Register\<close>, may be anything.
\<close>

datatype kv_local =
  NewOp kvreq
| Register "int \<times> int \<times> bool" "kvreq Op"
| Receive int "kvreq Op"
| Expire int "kvreq Op"

fun kv_step :: "kv_local \<Rightarrow> kvrsm \<Rightarrow> kvrsm" where
  "kv_step (NewOp req) rsm = fst (Submit_op req rsm)"
| "kv_step (Register st op) rsm = (case Submit_start st op rsm of Inl rsm' \<Rightarrow> rsm' | Inr _ \<Rightarrow> rsm)"
| "kv_step (Receive k op) rsm = (case Submit_recv k op rsm of None \<Rightarrow> rsm | Some (rsm', _) \<Rightarrow> rsm')"
| "kv_step (Expire k op) rsm = (case Submit_timeout k op rsm of None \<Rightarrow> rsm | Some (rsm', _) \<Rightarrow> rsm')"

definition kv_start ::
  "int \<Rightarrow> nat \<Rightarrow> (kvreq Op gobval, kvbytes) Persister \<Rightarrow> (nat \<Rightarrow> kvrsm) \<Rightarrow> (nat \<Rightarrow> kvrsm) option" where
  "kv_start maxstate i ps v = do { rsm \<leftarrow> StartKVServer i ps maxstate; Some (v(i := rsm)) }"

definition kv_recv ::
  "nat \<Rightarrow> int \<Rightarrow> (kvreq Op, kvbytes) ApplyMsg \<Rightarrow> (nat \<Rightarrow> kvrsm) \<Rightarrow> ((nat \<Rightarrow> kvrsm) \<times> kvbytes snap_call) option" where
  "kv_recv i bytes m v = do { rsm \<leftarrow> reader DoOp kvRestore bytes m (v i); Some (v(i := rsm), None) }"

text \<open>The goroutine that takes snapshots runs unless \<^verbatim>\<open>maxraftstate\<close> is -1.\<close>

definition kv_snap :: "nat \<Rightarrow> int \<Rightarrow> (nat \<Rightarrow> kvrsm) \<Rightarrow> (nat \<Rightarrow> kvrsm) \<times> kvbytes snap_call" where
  "kv_snap i bytes v =
     (if maxraftstate (v i) = -1 then (v, None)
      else case snapshot_round kvSnapshot bytes (v i) of (rsm, call) \<Rightarrow> (v(i := rsm), call))"

definition kv_service :: "int \<Rightarrow> (kvreq Op, kvbytes, kv_local, nat \<Rightarrow> kvrsm) service" where
  "kv_service maxstate =
     \<lparr>sv_boot = (\<lambda>n i. MakeRSM i maxstate MakeKVServer), sv_start = kv_start maxstate, sv_recv = kv_recv,
      sv_snap = kv_snap, sv_local = (\<lambda>i e v. v(i := kv_step e (v i)))\<rparr>"

section \<open>It keeps the contract\<close>

abbreviation kv_after :: "kvreq Op option list \<Rightarrow> nat \<Rightarrow> KVServer" where
  "kv_after Cs k \<equiv> state_after DoOp Cs MakeKVServer k"

definition kv_img :: "kvreq Op option list \<Rightarrow> kvbytes list" where
  "kv_img cs = kvSnapshot (kv_after cs (length cs))"

lemma kv_img_take: "k \<le> length Cs \<Longrightarrow> kv_img (take k Cs) = kvSnapshot (kv_after Cs k)"
  by (simp add: kv_img_def state_after_def)

lemma kv_after_prefix: "prefix Cs Ds \<Longrightarrow> k \<le> length Cs \<Longrightarrow> kv_after Ds k = kv_after Cs k"
  by (simp add: state_after_def prefix_take)

text \<open>The answer \<open>r\<close> to operation \<open>op\<close> at index \<open>k\<close> is right: the operation is the command at this index, and
  the value is what it returns there.\<close>

definition answer_ok :: "kvreq Op option list \<Rightarrow> int \<Rightarrow> kvreq Op \<Rightarrow> kvres option \<Rightarrow> bool" where
  "answer_ok Cs k op val \<longleftrightarrow> 1 \<le> k \<and> k \<le> int (length Cs) \<and> Cs ! nat (k - 1) = Some op \<and>
     (\<exists>kv res. DoOp (opReq op) (kv_after Cs (nat (k - 1))) = Some (kv, res) \<and> val = Some res)"

lemma answer_ok_prefix: "answer_ok Cs k op val \<Longrightarrow> prefix Cs Ds \<Longrightarrow> answer_ok Ds k op val"
  using prefix_length_le[of Cs Ds] prefix_nth[of Cs Ds "nat (k - 1)"] kv_after_prefix[of Cs Ds "nat (k - 1)"]
  by (auto simp: answer_ok_def)

definition waiters_ok :: "kvreq Op option list \<Rightarrow> kvrsm \<Rightarrow> bool" where
  "waiters_ok Cs rsm \<longleftrightarrow> (\<forall>k. \<forall>wi \<in> set (listeners k rsm). \<forall>r. wch wi = Some r \<longrightarrow> rsErr r = OK \<longrightarrow>
     answer_ok Cs k (wop wi) (rsValue r))"

definition kv_ok :: "kvreq Op option list \<Rightarrow> nat \<Rightarrow> kvrsm \<Rightarrow> bool" where
  "kv_ok Cs n rsm \<longleftrightarrow> sm rsm = kv_after Cs n \<and> (lastAppliedID rsm = int n \<or> lastAppliedID rsm = 0) \<and>
     waiters_ok Cs rsm"

definition kv_holds :: "kvreq Op option list \<Rightarrow> (nat \<Rightarrow> nat) \<Rightarrow> (nat \<Rightarrow> kvrsm) \<Rightarrow> bool" where
  "kv_holds Cs a v \<longleftrightarrow> (\<forall>i. a i \<le> length Cs \<and> kv_ok Cs (a i) (v i))"

lemma kv_holds_upd: "kv_holds Cs a v \<Longrightarrow> n \<le> length Cs \<Longrightarrow> kv_ok Cs n rsm \<Longrightarrow> kv_holds Cs (a(i := n)) (v(i := rsm))"
  by (simp add: kv_holds_def)

lemma kv_holds_same: "kv_holds Cs a v \<Longrightarrow> kv_ok Cs (a i) rsm \<Longrightarrow> kv_holds Cs a (v(i := rsm))"
  by (simp add: kv_holds_def)

lemma kv_holdsD: "kv_holds Cs a v \<Longrightarrow> kv_ok Cs (a i) (v i)" "kv_holds Cs a v \<Longrightarrow> a i \<le> length Cs"
  by (simp_all add: kv_holds_def)

lemma kv_holds_prefix:
  assumes "kv_holds Cs a v" and p: "prefix Cs Ds"
  shows "kv_holds Ds a v"
proof -
  have "kv_ok Ds (a i) (v i)" for i
    using kv_holdsD[OF assms(1), of i] kv_after_prefix[OF p] answer_ok_prefix[OF _ p]
    unfolding kv_ok_def waiters_ok_def by auto
  moreover have "a i \<le> length Ds" for i
    using kv_holdsD(2)[OF assms(1), of i] prefix_length_le[OF p] by simp
  ultimately show ?thesis by (simp add: kv_holds_def)
qed

lemma offer_wrong_leader:
  "wch (offer wrong_leader wi) = Some r \<Longrightarrow> rsErr r = OK \<Longrightarrow> wch wi = Some r"
  by (auto simp: offer_def wrong_leader_def split: option.splits)

lemma offer_ok:
  "wch (offer \<lparr>rsErr = OK, rsValue = x\<rparr> wi) = Some r \<Longrightarrow> wch wi = Some r \<or> r = \<lparr>rsErr = OK, rsValue = x\<rparr>"
  by (auto simp: offer_def split: option.splits)

lemma offer_op [simp]: "wop (offer r wi) = wop wi"
  by (simp add: offer_def)

lemma waiters_okD:
  "waiters_ok Cs rsm \<Longrightarrow> wi \<in> set (listeners k rsm) \<Longrightarrow> wch wi = Some r \<Longrightarrow> rsErr r = OK \<Longrightarrow>
     answer_ok Cs k (wop wi) (rsValue r)"
  by (auto simp: waiters_ok_def)

lemma set_listeners: "set (listeners k rsm) = set (detached rsm k) \<union> {wi. waiters rsm k = Some wi}"
  by (auto simp: listeners_def split: option.splits)

lemma waiters_ok_cong:
  "waiters rsm' = waiters rsm \<Longrightarrow> detached rsm' = detached rsm \<Longrightarrow> waiters_ok Cs rsm' = waiters_ok Cs rsm"
  by (simp add: waiters_ok_def set_listeners)

text \<open>Every listener is an old one, one that was refused, or one with a right answer.\<close>

lemma waiters_ok_change:
  assumes ok: "waiters_ok Cs rsm"
    and new: "\<And>k wi. wi \<in> set (listeners k rsm') \<Longrightarrow> wi \<in> set (listeners k rsm) \<or> wch wi = None \<or>
      (\<exists>wi0 \<in> set (listeners k rsm). wi = offer wrong_leader wi0 \<or>
        (\<exists>x. wi = offer \<lparr>rsErr = OK, rsValue = x\<rparr> wi0 \<and> answer_ok Cs k (wop wi0) x))"
  shows "waiters_ok Cs rsm'"
  unfolding waiters_ok_def
proof (intro allI ballI impI)
  fix k wi r assume w: "wi \<in> set (listeners k rsm')" "wch wi = Some r" "rsErr r = OK"
  from new[OF w(1)] show "answer_ok Cs k (wop wi) (rsValue r)"
  proof (elim disjE bexE exE conjE)
    fix wi0 assume "wi0 \<in> set (listeners k rsm)" "wi = offer wrong_leader wi0"
    with w offer_wrong_leader[of wi0 r] waiters_okD[OF ok, of wi0 k r] show ?thesis by simp
  next
    fix wi0 x assume "wi0 \<in> set (listeners k rsm)" "wi = offer \<lparr>rsErr = OK, rsValue = x\<rparr> wi0" "answer_ok Cs k (wop wi0) x"
    with w offer_ok[of x wi0 r] waiters_okD[OF ok, of wi0 k r] show ?thesis by auto
  qed (use w waiters_okD[OF ok] in auto)
qed

lemma waiters_ok_refuse:
  assumes "waiters_ok Cs rsm" and "detached rsm' = detached rsm"
    and "\<And>k. waiters rsm' k = map_option (\<lambda>wi. if P k wi then offer wrong_leader wi else wi) (waiters rsm k)"
  shows "waiters_ok Cs rsm'"
  by (rule waiters_ok_change[OF assms(1)]) (auto simp: set_listeners assms(2,3) split: if_split_asm)

lemma waiters_ok_offer:
  assumes "waiters_ok Cs rsm" and "waiters rsm k = Some wi" and "answer_ok Cs k (wop wi) x"
    and "waiters rsm' = (waiters rsm)(k \<mapsto> offer \<lparr>rsErr = OK, rsValue = x\<rparr> wi)" and "detached rsm' = detached rsm"
  shows "waiters_ok Cs rsm'"
  by (rule waiters_ok_change[OF assms(1)]) (use assms(2,3) in \<open>auto simp: set_listeners assms(4,5) split: if_split_asm\<close>)

lemma waiters_ok_delete: "waiters_ok Cs rsm \<Longrightarrow> waiters_ok Cs (delete_waiter k op rsm)"
  by (erule waiters_ok_change) (auto simp: delete_waiter_def set_listeners split: if_split_asm)

lemma waiters_ok_start:
  assumes "Submit_start st op rsm = Inl rsm'" and "waiters_ok Cs rsm"
  shows "waiters_ok Cs rsm'"
  using assms(1)
  by (intro waiters_ok_change[OF assms(2)]) (auto simp: Submit_start_def set_listeners split: if_split_asm prod.splits)

text \<open>The state and the waiters after one command.\<close>

lemma reader_command_cases:
  assumes "reader DoOp kvRestore bytes (CommandMsg command k) rsm = Some rsm'" and "lastAppliedID rsm < k"
  obtains x where "sm rsm' = exec_op DoOp command (sm rsm)" "lastAppliedID rsm' = k" "detached rsm' = detached rsm"
    "\<forall>op. command = Some op \<longrightarrow> (\<exists>kv res. DoOp (opReq op) (sm rsm) = Some (kv, res) \<and> x = Some res)"
    "waiters rsm' = (case waiters rsm k of None \<Rightarrow> waiters rsm
       | Some wi \<Rightarrow> if command = Some (wop wi) then (waiters rsm)(k \<mapsto> offer \<lparr>rsErr = OK, rsValue = x\<rparr> wi)
          else (\<lambda>i. map_option (offer wrong_leader) (waiters rsm i)))"
proof (cases command)
  case None
  show thesis
    by (rule that[of None]) (use None assms in \<open>auto simp: Let_def exec_op_def split: option.splits if_split_asm\<close>)
next
  case (Some op)
  with assms obtain kv res where d: "DoOp (opReq op) (sm rsm) = Some (kv, res)"
    by (auto simp: isDuplicate_def elim!: bindE)
  show thesis
    by (rule that[of "Some res"])
      (use Some assms d in \<open>auto simp: Let_def exec_op_def isDuplicate_def split: option.splits if_split_asm\<close>)
qed

lemma kv_command:
  assumes ok: "kv_ok Cs n rsm" and n: "n < length Cs"
    and r: "reader DoOp kvRestore bytes (CommandMsg (Cs ! n) (int n + 1)) rsm = Some rsm'"
  shows "kv_ok Cs (Suc n) rsm'"
proof -
  have O: "sm rsm = kv_after Cs n" "lastAppliedID rsm < int n + 1" "waiters_ok Cs rsm"
    using ok by (auto simp: kv_ok_def)
  from r O(2) obtain x where x: "sm rsm' = exec_op DoOp (Cs ! n) (sm rsm)" "lastAppliedID rsm' = int n + 1" "detached rsm' = detached rsm"
    "\<forall>op. Cs ! n = Some op \<longrightarrow> (\<exists>kv res. DoOp (opReq op) (sm rsm) = Some (kv, res) \<and> x = Some res)"
    and w: "waiters rsm' = (case waiters rsm (int n + 1) of None \<Rightarrow> waiters rsm
       | Some wi \<Rightarrow> if Cs ! n = Some (wop wi)
          then (waiters rsm)(int n + 1 \<mapsto> offer \<lparr>rsErr = OK, rsValue = x\<rparr> wi)
          else (\<lambda>i. map_option (offer wrong_leader) (waiters rsm i)))" by (rule reader_command_cases)
  have "waiters_ok Cs rsm'"
  proof (cases "waiters rsm (int n + 1)")
    case None
    with w x(3) O(3) waiters_ok_cong[of rsm' rsm Cs] show ?thesis by simp
  next
    case (Some wi)
    show ?thesis
    proof (cases "Cs ! n = Some (wop wi)")
      case True
      with x(4) n O(1) have "answer_ok Cs (int n + 1) (wop wi) x" by (auto simp: answer_ok_def)
      from waiters_ok_offer[OF O(3) Some this] Some True w x(3) show ?thesis by simp
    next
      case False
      with Some w show ?thesis by (intro waiters_ok_refuse[OF O(3) x(3), where P = "\<lambda>_ _. True"]) simp
    qed
  qed
  with x O(1) n show ?thesis by (simp add: kv_ok_def state_after_Suc)
qed

lemma kv_snapshot_msg:
  assumes ok: "kv_ok Cs n rsm" and k: "n < k" "k \<le> length Cs"
    and r: "reader DoOp kvRestore bytes (SnapshotMsg (kv_img (take k Cs)) t (int k)) rsm = Some rsm'"
  shows "kv_ok Cs k rsm'"
proof -
  have O: "\<not> isDuplicate (int k) rsm" "waiters_ok Cs rsm" using ok k by (auto simp: kv_ok_def isDuplicate_def)
  from r O(1) have s: "sm rsm' = kv_after Cs k" "lastAppliedID rsm' = int k" "detached rsm' = detached rsm"
    "\<And>j. waiters rsm' j = map_option (\<lambda>wi. if j \<le> int k \<or> wterm wi < t then offer wrong_leader wi else wi) (waiters rsm j)"
    by (auto simp: kv_img_take[OF k(2)] kvsm.restore_snap)
  from waiters_ok_refuse[OF O(2), of rsm' "\<lambda>j wi. j \<le> int k \<or> wterm wi < t"] s show ?thesis by (simp add: kv_ok_def)
qed

lemma kv_started:
  assumes "ReadSnapshot ps = Some d" and "kvRestore d MakeKVServer = Some (kv_after Cs n)"
  shows "\<exists>rsm. StartKVServer i ps m = Some rsm \<and> kv_ok Cs n rsm"
  using assms by (simp add: StartKVServer_def MakeRSM_def kv_ok_def waiters_ok_def listeners_def)

lemma kv_step_ok:
  assumes "kv_ok Cs n rsm"
  shows "kv_ok Cs n (kv_step e rsm)"
proof -
  have del: "kv_ok Cs n (delete_waiter k op rsm)" for k op
    using assms waiters_ok_delete by (simp add: kv_ok_def) (simp add: delete_waiter_def)
  show ?thesis
  proof (cases e)
    case (NewOp req)
    with assms show ?thesis
      by (simp add: kv_ok_def Submit_op_def nextID_def Let_def waiters_ok_def set_listeners)
  next
    case (Register st op)
    with assms show ?thesis
      by (auto simp: kv_ok_def split: sum.splits dest: waiters_ok_start)
        (auto simp: Submit_start_def split: if_split_asm prod.splits)
  qed (use assms del in \<open>auto simp: Submit_recv_def Submit_timeout_def split: option.splits elim!: bindE\<close>)
qed

lemma kv_snap_ok:
  assumes "kv_ok Cs n rsm" and "n \<le> length Cs" and "snapshot_round kvSnapshot bytes rsm = (rsm', call)"
  shows "kv_ok Cs n rsm' \<and> pred_option (\<lambda>(k, d). call_ok kv_img Cs k d) call"
  using assms
  by (auto simp: snapshot_round_def kv_ok_def call_ok_def kv_img_take waiters_ok_def set_listeners split: snap_pc.splits if_split_asm)

interpretation kv: replicated_service "kv_service maxstate" kv_img kv_holds for maxstate
proof
  show "kv_img cs \<noteq> []" for cs by (simp add: kv_img_def kvSnapshot_def Encode_def)
  show "kv_holds Ds a v" if "kv_holds Cs a v" "prefix Cs Ds" for Cs Ds a v using that by (rule kv_holds_prefix)
  show "kv_holds [] (\<lambda>_. 0) (sv_boot (kv_service maxstate) n)" for n
    by (simp add: kv_service_def kv_holds_def kv_ok_def MakeRSM_def waiters_ok_def listeners_def state_after_def)
  fix Cs a v i assume h: "kv_holds Cs a v"
  note D = kv_holdsD[OF h]
  show "\<exists>v'. sv_start (kv_service maxstate) i ps v = Some v' \<and> kv_holds Cs (a(i := 0)) v'"
    if "ReadSnapshot ps = Some []" for ps
  proof -
    have "kvRestore [] MakeKVServer = Some (kv_after Cs 0)" by (simp add: kvRestore_def state_after_def)
    from kv_started[OF that this, of i maxstate] kv_holds_upd[OF h, of 0] show ?thesis
      by (auto simp: kv_service_def kv_start_def)
  qed
  show "\<exists>v'. sv_start (kv_service maxstate) i ps v = Some v' \<and> kv_holds Cs (a(i := k)) v'"
    if k: "k \<le> length Cs" and sn: "ReadSnapshot ps = Some (kv_img (take k Cs))" for ps k
  proof -
    have "kvRestore (kv_img (take k Cs)) MakeKVServer = Some (kv_after Cs k)"
      by (simp add: kv_img_take[OF k] kvsm.restore_snap)
    from kv_started[OF sn this, of i maxstate] kv_holds_upd[OF h k] show ?thesis
      by (auto simp: kv_service_def kv_start_def)
  qed
  show "kv_holds Cs (a(i := Suc (a i))) v' \<and> pred_option (\<lambda>(k, d). call_ok kv_img Cs k d) call"
    if "a i < length Cs" "sv_recv (kv_service maxstate) i x (CommandMsg (Cs ! a i) (int (a i) + 1)) v = Some (v', call)"
    for x v' call
    using that kv_command[OF D(1)] by (auto simp: kv_service_def kv_recv_def elim!: bindE intro!: kv_holds_upd[OF h]
        simp del: reader.simps)
  show "kv_holds Cs (a(i := k)) v' \<and> pred_option (\<lambda>(k, d). call_ok kv_img Cs k d) call"
    if "a i < k" "k \<le> length Cs" "sv_recv (kv_service maxstate) i x (SnapshotMsg (kv_img (take k Cs)) t (int k)) v = Some (v', call)"
    for k x t v' call
    using that kv_snapshot_msg[OF D(1)] by (auto simp: kv_service_def kv_recv_def elim!: bindE intro!: kv_holds_upd[OF h]
        simp del: reader.simps)
  show "kv_holds Cs a v' \<and> pred_option (\<lambda>(k, d). call_ok kv_img Cs k d) call"
    if "sv_snap (kv_service maxstate) i x v = (v', call)" for x v' call
    using that h kv_snap_ok[OF D] by (auto simp: kv_service_def kv_snap_def split: if_split_asm prod.splits
        intro!: kv_holds_same[OF h])
  show "kv_holds Cs a (sv_local (kv_service maxstate) i e v)" for e
    by (simp add: kv_service_def kv_holds_same[OF h kv_step_ok[OF D(1)]])
qed

section \<open>A run\<close>

definition kv_events :: "(kvreq Op, kvbytes, kv_local) sys_event list" where
  "kv_events = take 7 (script demo_op) @ Local 0 (Register (2, 1, True) demo_op) # drop 7 (script demo_op)"

definition kv_state :: "(kvreq Op, kvbytes, nat \<Rightarrow> kvrsm) system" where
  "kv_state = the (sys_run (kv_service (-1)) kv_events (sys_boot (kv_service (-1)) 3))"

lemma kv_run: "sys_run (kv_service (-1)) kv_events (sys_boot (kv_service (-1)) 3) = Some kv_state"
proof -
  have "case sys_run (kv_service (-1)) kv_events (sys_boot (kv_service (-1)) 3) of None \<Rightarrow> False | Some s \<Rightarrow> True"
    by code_simp
  then show ?thesis by (auto simp: kv_state_def split: option.splits)
qed

lemma kv_facts:
  "nsrv (cl kv_state) = 3" "lastAppliedID (svc kv_state 0) = 2" "lastAppliedID (svc kv_state 1) = 2"
  "kvdata (sm (svc kv_state 1)) ''k'' = Some \<lparr>elValue = ''v'', elVersion = 1\<rparr>"
  "map_option snd (Submit_recv 2 demo_op (svc kv_state 0)) = Some (OK, Some (ResPut \<lparr>prErr = OK\<rparr>))"
  by code_simp+

section \<open>The properties\<close>

text \<open>
  The sequence \<open>Cs\<close> explains the servers: every replica is in the state after a prefix of it, and every
  answer that waits for a client is the result of its command at its place in the sequence.
\<close>

definition explains :: "kvreq Op option list \<Rightarrow> (nat \<Rightarrow> kvrsm) \<Rightarrow> bool" where
  "explains Cs v \<longleftrightarrow> (\<forall>i. \<exists>n \<le> length Cs. sm (v i) = kv_after Cs n) \<and>
     (\<forall>i k op rsm val. Submit_recv k op (v i) = Some (rsm, OK, val) \<longrightarrow> answer_ok Cs k op val)"

lemma kv_holds_explains:
  assumes "kv_holds Cs a v"
  shows "explains Cs v"
  unfolding explains_def
proof (intro conjI allI impI)
  fix i
  show "\<exists>n \<le> length Cs. sm (v i) = kv_after Cs n" using kv_holdsD[OF assms, of i] by (auto simp: kv_ok_def)
  fix k op rsm val assume "Submit_recv k op (v i) = Some (rsm, OK, val)"
  then obtain wi r where wi: "find (\<lambda>wi. wop wi = op) (listeners k (v i)) = Some wi"
    and "wch wi = Some r" "rsErr r = OK" "rsValue r = val" by (auto simp: Submit_recv_def elim!: bindE)
  moreover from wi have "wi \<in> set (listeners k (v i))" "wop wi = op" by (auto simp: find_Some_iff)
  ultimately show "answer_ok Cs k op val" using kv_holdsD(1)[OF assms, of i] by (auto simp: kv_ok_def waiters_ok_def)
qed





text \<open>
  C19. The handlers' type assertions hold: when \<open>Submit\<close> gets its answer on the channel, the value has
  the type that the handler of the request asserts, so neither \<open>Get\<close> nor \<open>Put\<close> panics.  (The timeout
  arm of \<open>Submit\<close> does not keep this: \<open>submit_foreign_result\<close>.)
\<close>

theorem kv_reply_type:
  assumes "sys_reach (kv_service m) s" and "Submit_recv k op (svc s i) = Some (rsm, err, val)"
  shows "(\<forall>args. opReq op = ReqGet args \<longrightarrow> kvraft_Get_reply (err, val) \<noteq> None) \<and>
    (\<forall>args. opReq op = ReqPut args \<longrightarrow> kvraft_Put_reply (err, val) \<noteq> None)"
proof (cases "err = OK")
  case True
  from kv.one_sequence[OF assms(1) rtranclp.rtrancl_refl] obtain Cs a where "kv_holds Cs a (svc s)" by blast
  from kv_holds_explains[OF this] assms(2) True have "answer_ok Cs k op val" unfolding explains_def by blast
  then show ?thesis by (auto simp: answer_ok_def Let_def split: prod.splits)
qed simp

theorem kv_reply_type_witness:
  "\<exists>rsm err val. Submit_recv 2 demo_op (svc kv_state 0) = Some (rsm, err, val) \<and> kvraft_Put_reply (err, val) \<noteq> None"
proof -
  from kv_facts(5) obtain rsm where r: "Submit_recv 2 demo_op (svc kv_state 0) = Some (rsm, OK, Some (ResPut \<lparr>prErr = OK\<rparr>))"
    by auto
  with kv_reply_type[OF sys_run_reach[OF kv_run] r] show ?thesis by (auto simp: demo_op_def)
qed

end
