(* ===== verification/KvModel.thy ===== *)
theory KvModel
  imports KvServer "HOL-Library.Multiset" "HOL-Library.List_Lexorder" "HOL-Library.Char_ord"
begin

text \<open>
  The reference model of the linearizability checker, \<^verbatim>\<open>src/src/models1/kv.go\<close>, and that the
  server of \<^verbatim>\<open>kvsrv1\<close> implements it: a simulation for one operation, and the acceptance of
  every sequential history, key by key.
\<close>

section \<open>The model\<close>

record KvInput =
  kiOp :: "8 word"
  kiKey :: string
  kiValue :: string
  kiVersion :: "64 word"

record KvOutput =
  koValue :: string
  koVersion :: "64 word"
  koErr :: string

record KvState =
  ksValue :: string
  ksVersion :: "64 word"

type_synonym Operation = "KvInput \<times> KvOutput"

text \<open>The state after an invalid operation, the string \<^verbatim>\<open>"<invalid>"\<close>, is \<open>None\<close>.\<close>

definition KvModel_Init :: KvState where
  "KvModel_Init = \<lparr>ksValue = '''', ksVersion = 0\<rparr>"

definition KvModel_Step :: "KvState \<Rightarrow> KvInput \<Rightarrow> KvOutput \<Rightarrow> bool \<times> KvState option" where
  "KvModel_Step st inp out =
     (if kiOp inp = 0 then (koValue out = ksValue st, Some st)
      else if kiOp inp = 1
      then (if ksVersion st = kiVersion inp
            then (koErr out = ''OK'' \<or> koErr out = ''ErrMaybe'',
                  Some \<lparr>ksValue = kiValue inp, ksVersion = ksVersion st + 1\<rparr>)
            else (koErr out = ''ErrVersion'' \<or> koErr out = ''ErrMaybe'', Some st))
      else (False, None))"

definition KvModel_Partition :: "(KvInput \<times> 'o) list \<Rightarrow> (KvInput \<times> 'o) list list" where
  "KvModel_Partition history =
     (let m = foldl (\<lambda>m v. m(kiKey (fst v) := m (kiKey (fst v)) @ [v])) (\<lambda>_. []) history;
          keys = sort (remdups (map (\<lambda>v. kiKey (fst v)) history))
      in map m keys)"

fun accepts :: "KvState \<Rightarrow> Operation list \<Rightarrow> bool" where
  "accepts st [] \<longleftrightarrow> True"
| "accepts st ((inp, out) # ops) \<longleftrightarrow>
     (case KvModel_Step st inp out of
        (True, Some st') \<Rightarrow> accepts st' ops
      | _ \<Rightarrow> False)"

section \<open>Partitioning\<close>

lemma partition_map:
  "foldl (\<lambda>m v. m(kiKey (fst v) := m (kiKey (fst v)) @ [v])) m history k =
     m k @ filter (\<lambda>v. kiKey (fst v) = k) history"
  by (induction history arbitrary: m) auto

lemma Partition_eq:
  "KvModel_Partition history =
     map (\<lambda>k. filter (\<lambda>v. kiKey (fst v) = k) history) (sort (remdups (map (\<lambda>v. kiKey (fst v)) history)))"
  by (simp add: KvModel_Partition_def Let_def partition_map)

lemma mset_concat_keys:
  assumes "distinct ks" and "(\<lambda>v. kiKey (fst v)) ` set h \<subseteq> set ks"
  shows "mset (concat (map (\<lambda>k. filter (\<lambda>v. kiKey (fst v) = k) h) ks)) = mset h"
  using assms
proof (induction ks arbitrary: h)
  case (Cons k ks)
  let ?f = "\<lambda>k h. filter (\<lambda>v. kiKey (fst v) = k) h"
  let ?h = "filter (\<lambda>v. kiKey (fst v) \<noteq> k) h"
  have "map (\<lambda>k'. ?f k' h) ks = map (\<lambda>k'. ?f k' ?h) ks"
    using Cons.prems(1) by (auto intro!: filter_cong)
  moreover have "mset (concat (map (\<lambda>k'. ?f k' ?h) ks)) = mset ?h"
    using Cons.prems by (intro Cons.IH) auto
  ultimately show ?case by (simp del: map_eq_conv add: multiset_partition[symmetric])
qed simp

section \<open>The server implements the model\<close>

text \<open>The state of the model for one key: a missing key has an empty value and version 0.\<close>

definition kv_abs :: "KVServer \<Rightarrow> string \<Rightarrow> KvState" where
  "kv_abs kv k = (case kvdata kv k of
      None \<Rightarrow> \<lparr>ksValue = '''', ksVersion = 0\<rparr>
    | Some e \<Rightarrow> \<lparr>ksValue = elValue e, ksVersion = elVersion e\<rparr>)"

text \<open>One operation on the server, in the vocabulary of the checker.\<close>

definition serve :: "KvInput \<Rightarrow> KVServer \<Rightarrow> KVServer \<times> KvOutput" where
  "serve inp kv =
     (if kiOp inp = 0
      then (let r = Get \<lparr>gKey = kiKey inp\<rparr> kv in
            (kv, \<lparr>koValue = grValue r, koVersion = grVersion r, koErr = grErr r\<rparr>))
      else (let (kv', r) = Put \<lparr>pKey = kiKey inp, pValue = kiValue inp, pVersion = kiVersion inp\<rparr> kv in
            (kv', \<lparr>koValue = '''', koVersion = 0, koErr = prErr r\<rparr>)))"

fun serve_all :: "KvInput list \<Rightarrow> KVServer \<Rightarrow> Operation list" where
  "serve_all [] kv = []"
| "serve_all (inp # inps) kv = (let (kv', out) = serve inp kv in (inp, out) # serve_all inps kv')"

lemma serve_simulates:
  assumes "kiOp inp \<le> 1" and "serve inp kv = (kv', out)"
    and "kiOp inp = 1 \<Longrightarrow> koErr out \<noteq> ErrNoKey"
  shows "KvModel_Step (kv_abs kv (kiKey inp)) inp out = (True, Some (kv_abs kv' (kiKey inp)))"
proof -
  have "kiOp inp = 0 \<or> kiOp inp = 1"
    using assms(1) by (metis word_le_less_eq word_less_1)
  with assms(2,3) show ?thesis
    by (auto simp: serve_def KvModel_Step_def kv_abs_def Get_def Put_def Let_def
        split: option.splits if_split_asm)
qed

lemma serve_other:
  assumes "serve inp kv = (kv', out)" and "k \<noteq> kiKey inp"
  shows "kv_abs kv' k = kv_abs kv k"
  using assms by (auto simp: serve_def kv_abs_def Put_def Let_def split: option.splits if_split_asm)

lemma serve_all_accepted:
  assumes "\<forall>inp \<in> set inps. kiOp inp \<le> 1"
    and "\<forall>(inp, out) \<in> set (serve_all inps kv). kiOp inp = 1 \<longrightarrow> koErr out \<noteq> ErrNoKey"
  shows "accepts (kv_abs kv k) (filter (\<lambda>v. kiKey (fst v) = k) (serve_all inps kv))"
  using assms
proof (induction inps arbitrary: kv)
  case (Cons inp inps)
  obtain kv' out where s: "serve inp kv = (kv', out)" by fastforce
  have ok: "kiOp inp \<le> 1" "kiOp inp = 1 \<longrightarrow> koErr out \<noteq> ErrNoKey"
    and IH: "accepts (kv_abs kv' k) (filter (\<lambda>v. kiKey (fst v) = k) (serve_all inps kv'))"
    using Cons s by auto
  show ?case
  proof (cases "kiKey inp = k")
    case True
    with serve_simulates[OF ok(1) s] ok(2) s IH show ?thesis by simp
  next
    case False
    with serve_other[OF s] s IH show ?thesis by simp
  qed
qed simp

section \<open>Properties\<close>

text \<open>
  Every sequential history of the key/value server, split by key as the checker does, is
  accepted by the reference model, if no Put in it was answered \<open>ErrNoKey\<close>.
\<close>

theorem kv_history_accepted:
  assumes "\<forall>inp \<in> set inps. kiOp inp \<le> 1"
    and "\<forall>(inp, out) \<in> set (serve_all inps MakeKVServer). kiOp inp = 1 \<longrightarrow> koErr out \<noteq> ErrNoKey"
    and "part \<in> set (KvModel_Partition (serve_all inps MakeKVServer))"
  shows "accepts KvModel_Init part"
proof -
  have init: "kv_abs MakeKVServer k = KvModel_Init" for k
    by (simp add: kv_abs_def MakeKVServer_def KvModel_Init_def)
  from assms(3) obtain k where "part = filter (\<lambda>v. kiKey (fst v) = k) (serve_all inps MakeKVServer)"
    by (auto simp: Partition_eq)
  with serve_all_accepted[OF assms(1,2), of k] show ?thesis by (simp add: init)
qed

definition demo_puts :: "KvInput list" where
  "demo_puts = [\<lparr>kiOp = 1, kiKey = ''a'', kiValue = ''x'', kiVersion = 0\<rparr>,
                \<lparr>kiOp = 1, kiKey = ''b'', kiValue = ''y'', kiVersion = 0\<rparr>,
                \<lparr>kiOp = 1, kiKey = ''a'', kiValue = ''z'', kiVersion = 0\<rparr>,
                \<lparr>kiOp = 0, kiKey = ''a'', kiValue = [], kiVersion = 0\<rparr>]"

theorem kv_history_accepted_witness:
  "list_all (accepts KvModel_Init) (KvModel_Partition (serve_all demo_puts MakeKVServer)) \<and>
   length (KvModel_Partition (serve_all demo_puts MakeKVServer)) = 2"
proof
  have "\<forall>inp \<in> set demo_puts. kiOp inp \<le> 1" by (simp add: demo_puts_def)
  moreover have "\<forall>(inp, out) \<in> set (serve_all demo_puts MakeKVServer).
      kiOp inp = 1 \<longrightarrow> koErr out \<noteq> ErrNoKey"
    by (simp add: demo_puts_def serve_def Put_def Get_def MakeKVServer_def)
  ultimately show "list_all (accepts KvModel_Init) (KvModel_Partition (serve_all demo_puts MakeKVServer))"
    using kv_history_accepted[of demo_puts] by (auto simp: list_all_iff)
  show "length (KvModel_Partition (serve_all demo_puts MakeKVServer)) = 2"
    by (simp add: Partition_eq demo_puts_def serve_def Put_def Get_def MakeKVServer_def)
qed

text \<open>
  The partition of a history by key loses, duplicates and invents nothing, has one part
  per key, in the order of the keys, and each part is the subsequence of the operations on its
  key in their order.
\<close>

theorem Partition_complete:
  "mset (concat (KvModel_Partition h)) = mset h \<and>
   map (\<lambda>part. kiKey (fst (hd part))) (KvModel_Partition h) = sort (remdups (map (\<lambda>v. kiKey (fst v)) h)) \<and>
   (\<forall>part \<in> set (KvModel_Partition h). part \<noteq> [] \<and> part = filter (\<lambda>v. kiKey (fst v) = kiKey (fst (hd part))) h)"
proof -
  let ?f = "\<lambda>k. filter (\<lambda>v. kiKey (fst v) = k) h"
  have hd: "?f k \<noteq> [] \<and> kiKey (fst (hd (?f k))) = k" if "k \<in> (\<lambda>v. kiKey (fst v)) ` set h" for k
  proof -
    have ne: "?f k \<noteq> []" using that by (auto simp: filter_empty_conv)
    from hd_in_set[OF ne] ne show ?thesis by auto
  qed
  have "mset (concat (KvModel_Partition h)) = mset h"
    unfolding Partition_eq by (rule mset_concat_keys) auto
  moreover have "map (\<lambda>part. kiKey (fst (hd part))) (KvModel_Partition h) =
      sort (remdups (map (\<lambda>v. kiKey (fst v)) h))"
    unfolding Partition_eq using hd by (auto simp: o_def intro!: map_idI)
  moreover have "\<forall>part \<in> set (KvModel_Partition h). part \<noteq> [] \<and>
      part = filter (\<lambda>v. kiKey (fst v) = kiKey (fst (hd part))) h"
    unfolding Partition_eq using hd by auto
  ultimately show ?thesis by blast
qed

theorem Partition_complete_witness:
  "mset (concat (KvModel_Partition (serve_all demo_puts MakeKVServer))) = mset (serve_all demo_puts MakeKVServer)"
  using Partition_complete[of "serve_all demo_puts MakeKVServer"] by blast

text \<open>
  Put, on every branch: a missing key is created with version 1 by version 0 and is
  refused with \<open>ErrNoKey\<close> otherwise, an existing key is overwritten and its version incremented
  when the versions match and is refused with \<open>ErrVersion\<close> otherwise; other keys never change,
  and a Get afterwards sees exactly this.
\<close>

theorem Put_then_Get:
  "let r = Get \<lparr>gKey = pKey args\<rparr> kv; n = pVersion args; (kv', p) = Put args kv;
       r' = (\<lambda>k. Get \<lparr>gKey = k\<rparr> kv')
   in (prErr p = OK \<longleftrightarrow> n = grVersion r) \<and>
      (prErr p = ErrNoKey \<longleftrightarrow> grErr r = ErrNoKey \<and> n \<noteq> 0) \<and>
      (prErr p = ErrVersion \<longleftrightarrow> grErr r = OK \<and> n \<noteq> grVersion r) \<and>
      r' (pKey args) = (if prErr p = OK
        then \<lparr>grValue = pValue args, grVersion = n + 1, grErr = OK\<rparr> else r) \<and>
      (\<forall>k. k = pKey args \<or> r' k = Get \<lparr>gKey = k\<rparr> kv)"
  by (cases "kvdata kv (pKey args)") (auto simp: Get_def Put_def Let_def)

text \<open>
  Snapshot and Restore are inverse: a server restored from a snapshot has the data of the
  server that took it.
\<close>

theorem kv_snapshot_roundtrip: "kvRestore (kvSnapshot kv) kv' = Some kv"
  by (simp add: kvRestore_def kvSnapshot_def Encode_def)

text \<open>
  The reference model does not allow what the server does for a Put of a non-zero version
  to a missing key: the server answers \<open>ErrNoKey\<close>, as its comment says, and the model's Step
  rejects that answer.
\<close>

theorem model_rejects_ErrNoKey:
  assumes "kvdata kv k = None" and "n \<noteq> 0"
  shows "let inp = \<lparr>kiOp = 1, kiKey = k, kiValue = v, kiVersion = n\<rparr>; (kv', out) = serve inp kv
     in koErr out = ErrNoKey \<and> fst (KvModel_Step (kv_abs kv k) inp out) = False"
  using assms by (auto simp: serve_def Put_def KvModel_Step_def kv_abs_def)

theorem model_rejects_ErrNoKey_witness:
  "fst (KvModel_Step KvModel_Init \<lparr>kiOp = 1, kiKey = ''a'', kiValue = ''x'', kiVersion = 3\<rparr>
     (snd (serve \<lparr>kiOp = 1, kiKey = ''a'', kiValue = ''x'', kiVersion = 3\<rparr> MakeKVServer))) = False"
  using model_rejects_ErrNoKey[of MakeKVServer "''a''" 3 "''x''"]
  by (simp add: MakeKVServer_def kv_abs_def KvModel_Init_def Let_def case_prod_beta)

end
