(* ===== verification/KvClerk.thy ===== *)
theory KvClerk
  imports KvServer
begin

text \<open>
  The clerks: \<^verbatim>\<open>src/src/kvsrv1/client.go\<close> and \<^verbatim>\<open>src/src/kvraft1/client.go\<close>.

  A clerk repeats a call until it is answered.  What the network and the other clients do is a
  list of attempts, one per call of \<^verbatim>\<open>ck.clnt.Call\<close>: the puts of others that the server executes
  before, whether this request reaches the server, and what comes back.  The list running out
  means that the clerk is still trying (\<open>None\<close>).  Beside the result the functions return the
  server and how often the server executed the request with the answer OK.
\<close>

section \<open>The clerk of kvsrv1\<close>

datatype attempt = Attempt (others: "PutArgs list") (arrives: bool) (answered: bool)

definition exec_puts :: "PutArgs list \<Rightarrow> KVServer \<Rightarrow> KVServer" where
  "exec_puts as kv = foldl (\<lambda>kv a. fst (Put a kv)) kv as"

fun clerk_Get :: "GetArgs \<Rightarrow> attempt list \<Rightarrow> KVServer \<Rightarrow> (string \<times> Tversion \<times> Err) option \<times> KVServer" where
  "clerk_Get args [] kv = (None, kv)"
| "clerk_Get args (a # as) kv =
     (let kv1 = exec_puts (others a) kv; ok = (arrives a \<and> answered a) in
      if \<not> ok then clerk_Get args as kv1
      else (let reply = Get args kv1 in (Some (grValue reply, grVersion reply, grErr reply), kv1)))"

fun clerk_Put :: "PutArgs \<Rightarrow> nat \<Rightarrow> attempt list \<Rightarrow> KVServer \<Rightarrow> nat \<Rightarrow> Err option \<times> KVServer \<times> nat" where
  "clerk_Put args retryCount [] kv cnt = (None, kv, cnt)"
| "clerk_Put args retryCount (a # as) kv cnt =
     (let kv1 = exec_puts (others a) kv;
          (kv2, reply) = (if arrives a then Put args kv1 else (kv1, \<lparr>prErr = ''''\<rparr>));
          cnt2 = (if arrives a \<and> prErr reply = OK then Suc cnt else cnt);
          ok = (arrives a \<and> answered a) in
      if \<not> ok then clerk_Put args (retryCount + 1) as kv2 cnt2
      else (Some (if prErr reply = ErrVersion \<and> retryCount > 0 then ErrMaybe else prErr reply),
            kv2, cnt2))"

section \<open>The clerk of kvraft1\<close>

text \<open>
  The servers are replicas of one key/value state.  An attempt at server \<open>ck.leader\<close> is not
  answered, or answered \<open>ErrWrongLeader\<close>, both possibly although the request is executed (the
  state machine may execute a request whose \<open>Submit\<close> gave up waiting), or answered with the
  reply of the execution.
\<close>

datatype answer = NoAnswer bool | WrongLeader bool | Executed

datatype rattempt = RAttempt (rothers: "PutArgs list") (answer: answer)

record Clerk =
  nservers :: nat
  ckleader :: nat

definition updateLeader :: "Clerk \<Rightarrow> Clerk" where
  "updateLeader ck = ck\<lparr>ckleader := (ckleader ck + 1) mod nservers ck\<rparr>"

fun executes :: "answer \<Rightarrow> bool" where
  "executes (NoAnswer b) = b"
| "executes (WrongLeader b) = b"
| "executes Executed = True"

fun kvraft_Get :: "GetArgs \<Rightarrow> rattempt list \<Rightarrow> Clerk \<Rightarrow> KVServer \<Rightarrow>
    (string \<times> Tversion \<times> Err) option \<times> Clerk \<times> KVServer" where
  "kvraft_Get args [] ck kv = (None, ck, kv)"
| "kvraft_Get args (a # as) ck kv =
     (let kv1 = exec_puts (rothers a) kv in
      case answer a of
        NoAnswer _ \<Rightarrow> kvraft_Get args as (updateLeader ck) kv1
      | WrongLeader _ \<Rightarrow> kvraft_Get args as (updateLeader ck) kv1
      | Executed \<Rightarrow> (let reply = Get args kv1 in
                     (Some (grValue reply, grVersion reply, grErr reply), ck, kv1)))"

fun kvraft_Put :: "PutArgs \<Rightarrow> nat \<Rightarrow> rattempt list \<Rightarrow> Clerk \<Rightarrow> KVServer \<Rightarrow> nat \<Rightarrow>
    Err option \<times> Clerk \<times> KVServer \<times> nat" where
  "kvraft_Put args retryCount [] ck kv cnt = (None, ck, kv, cnt)"
| "kvraft_Put args retryCount (a # as) ck kv cnt =
     (let kv1 = exec_puts (rothers a) kv;
          (kv2, reply) = (if executes (answer a) then Put args kv1 else (kv1, \<lparr>prErr = ''''\<rparr>));
          cnt2 = (if executes (answer a) \<and> prErr reply = OK then Suc cnt else cnt) in
      case answer a of
        NoAnswer _ \<Rightarrow> kvraft_Put args (retryCount + 1) as (updateLeader ck) kv2 cnt2
      | WrongLeader _ \<Rightarrow> kvraft_Put args retryCount as (updateLeader ck) kv2 cnt2
      | Executed \<Rightarrow>
          (Some (if prErr reply = ErrVersion \<and> retryCount > 0 then ErrMaybe else prErr reply),
           ck, kv2, cnt2))"

section \<open>Versions under interference\<close>

abbreviation ver :: "KVServer \<Rightarrow> string \<Rightarrow> Tversion" where
  "ver \<equiv> kv.version"

lemma ver_def2: "ver kv k = (case kvdata kv k of None \<Rightarrow> 0 | Some e \<Rightarrow> elVersion e)"
  by (simp add: kv.version_def kv_lookup_def split: option.splits)

lemma Put_store: "fst (Put a kv) = fst (kv_store (pKey a) (pValue a) (pVersion a) kv)"
  "prErr (snd (Put a kv)) = snd (kv_store (pKey a) (pValue a) (pVersion a) kv)"
  by (cases a; simp add: kv_store_def case_prod_beta)+

lemma Put_ver:
  assumes "unat (ver kv k) + 1 < 2 ^ 64"
  shows "unat (ver kv k) \<le> unat (ver (fst (Put a kv)) k)"
    and "unat (ver (fst (Put a kv)) k) \<le> unat (ver kv k) + 1"
proof -
  have "ver kv k \<noteq> - 1" using assms by (auto simp: unat_max)
  then show "unat (ver kv k) \<le> unat (ver (fst (Put a kv)) k)"
    and "unat (ver (fst (Put a kv)) k) \<le> unat (ver kv k) + 1"
    unfolding Put_store kv.version_store by (auto simp: unat_next)
qed

lemma exec_puts_ver:
  assumes "unat (ver kv k) + length as < 2 ^ 64"
  shows "unat (ver kv k) \<le> unat (ver (exec_puts as kv) k) \<and>
     unat (ver (exec_puts as kv) k) \<le> unat (ver kv k) + length as"
  using assms
proof (induction as arbitrary: kv)
  case (Cons a as)
  have b: "unat (ver kv k) + 1 < 2 ^ 64" using Cons.prems by simp
  from Put_ver[OF b, of a] Cons.prems Cons.IH[of "fst (Put a kv)"] show ?case
    by (auto simp: exec_puts_def)
qed (simp add: exec_puts_def)

lemma Put_applied:
  assumes "prErr (snd (Put a kv)) = OK" and "unat (ver kv (pKey a)) + 1 < 2 ^ 64"
  shows "unat (ver (fst (Put a kv)) (pKey a)) = unat (pVersion a) + 1" "ver kv (pKey a) = pVersion a"
proof -
  from assms(1) show v: "ver kv (pKey a) = pVersion a"
    unfolding Put_store kv.ok_iff_version by simp
  have "ver kv (pKey a) \<noteq> - 1" using assms(2) by (auto simp: unat_max)
  then show "unat (ver (fst (Put a kv)) (pKey a)) = unat (pVersion a) + 1"
    using assms(1) v unfolding Put_store by (simp add: kv.version_store unat_next)
qed

lemma Put_stale:
  assumes "pVersion a < ver kv (pKey a)"
  shows "snd (Put a kv) = \<lparr>prErr = ErrVersion\<rparr>" "fst (Put a kv) = kv"
  using assms by (auto simp: Put_def ver_def2 split: option.splits)

lemma Put_errors: "prErr (snd (Put a kv)) \<in> {OK, ErrNoKey, ErrVersion}"
  by (auto simp: Put_def split: option.splits)

text \<open>
  The state of a put that is being retried: not executed successfully so far, or executed once,
  and then the key is already past the version of the request.
\<close>

definition put_state :: "PutArgs \<Rightarrow> KVServer \<Rightarrow> nat \<Rightarrow> bool" where
  "put_state args kv n \<longleftrightarrow> n = 0 \<or> n = 1 \<and> pVersion args < ver kv (pKey args)"

lemma put_state_others:
  assumes "put_state args kv n" and "unat (ver kv (pKey args)) + length as < 2 ^ 64"
  shows "put_state args (exec_puts as kv) n"
  using assms exec_puts_ver[OF assms(2)] by (auto simp: put_state_def word_less_nat_alt)

lemma put_state_exec:
  assumes "put_state args kv n" and "unat (ver kv (pKey args)) + 1 < 2 ^ 64"
  shows "put_state args (fst (Put args kv)) (if prErr (snd (Put args kv)) = OK then Suc n else n)"
    and "prErr (snd (Put args kv)) = OK \<Longrightarrow> n = 0"
    and "prErr (snd (Put args kv)) = ErrNoKey \<Longrightarrow> n = 0"
proof -
  have stale: "snd (Put args kv) = \<lparr>prErr = ErrVersion\<rparr>" if "n \<noteq> 0"
    using assms(1) that Put_stale(1) by (auto simp: put_state_def)
  then show "prErr (snd (Put args kv)) = OK \<Longrightarrow> n = 0"
    and "prErr (snd (Put args kv)) = ErrNoKey \<Longrightarrow> n = 0"
    by fastforce+
  show "put_state args (fst (Put args kv)) (if prErr (snd (Put args kv)) = OK then Suc n else n)"
  proof (cases "prErr (snd (Put args kv)) = OK")
    case True
    moreover have "n = 0" using True stale by fastforce
    ultimately show ?thesis using Put_applied[OF True assms(2)]
      by (simp add: put_state_def word_less_nat_alt)
  next
    case False
    with assms(1) Put_ver(1)[OF assms(2), of args] show ?thesis
      by (auto simp: put_state_def word_less_nat_alt)
  qed
qed

section \<open>The contract of Put\<close>

text \<open>How many puts can reach the server during the attempts.\<close>

definition traffic :: "attempt list \<Rightarrow> nat" where
  "traffic as = (\<Sum>a \<leftarrow> as. length (others a) + 1)"

text \<open>
  What the result of a put says about how often it was executed: once for OK, never for
  \<open>ErrVersion\<close> and \<open>ErrNoKey\<close>, at most once for \<open>ErrMaybe\<close> and while there is no result.
\<close>

definition put_contract :: "Err option \<Rightarrow> nat \<Rightarrow> bool" where
  "put_contract r n \<longleftrightarrow>
     (case r of
        None \<Rightarrow> n \<le> 1
      | Some err \<Rightarrow> err = OK \<and> n = 1 \<or> err = ErrVersion \<and> n = 0 \<or> err = ErrNoKey \<and> n = 0 \<or>
                    err = ErrMaybe \<and> n \<le> 1)"

lemma clerk_Put_contract:
  assumes "put_state args kv n" and "unat (ver kv (pKey args)) + traffic as < 2 ^ 64"
    and "retry = 0 \<longrightarrow> n = 0" and "clerk_Put args retry as kv n = (r, kv', m)"
  shows "put_contract r m"
  using assms
proof (induction as arbitrary: kv n retry)
  case Nil
  then show ?case by (auto simp: put_contract_def put_state_def)
next
  case (Cons a as)
  let ?k = "pKey args"
  define kv1 where "kv1 = exec_puts (others a) kv"
  have tr: "unat (ver kv ?k) + length (others a) + 1 + traffic as < 2 ^ 64"
    using Cons.prems(2) by (simp add: traffic_def)
  then have v1: "unat (ver kv1 ?k) \<le> unat (ver kv ?k) + length (others a)"
    using exec_puts_ver[of kv ?k "others a"] by (simp add: kv1_def)
  then have b1: "unat (ver kv1 ?k) + 1 < 2 ^ 64 \<or> traffic as = 0" and b1': "unat (ver kv1 ?k) + 1 < 2 ^ 64"
    using tr by auto
  have s1: "put_state args kv1 n"
    unfolding kv1_def using Cons.prems(1) tr by (intro put_state_others) auto
  show ?case
  proof (cases "arrives a")
    case False
    have "clerk_Put args (retry + 1) as kv1 n = (r, kv', m)"
      using Cons.prems(4) False by (simp add: kv1_def Let_def)
    with s1 v1 tr show ?thesis by (intro Cons.IH[of kv1 n "retry + 1"]) auto
  next
    case True
    note ex = put_state_exec[OF s1 b1']
    define kv2 err where "kv2 = fst (Put args kv1)" and "err = prErr (snd (Put args kv1))"
    define n2 where "n2 = (if err = OK then Suc n else n)"
    have s2: "put_state args kv2 n2" using ex(1) by (simp add: kv2_def n2_def err_def)
    have v2: "unat (ver kv2 ?k) \<le> unat (ver kv1 ?k) + 1" using Put_ver(2)[OF b1'] by (simp add: kv2_def)
    have run: "(if \<not> answered a then clerk_Put args (retry + 1) as kv2 n2
        else (Some (if err = ErrVersion \<and> retry > 0 then ErrMaybe else err), kv2, n2)) = (r, kv', m)"
      using Cons.prems(4) True
      by (auto simp: kv1_def kv2_def err_def n2_def Let_def case_prod_beta split: if_splits)
    show ?thesis
    proof (cases "answered a")
      case False
      with run s2 v1 v2 tr show ?thesis by (intro Cons.IH[of kv2 n2 "retry + 1"]) auto
    next
      case True
      have "err = OK \<or> err = ErrNoKey \<or> err = ErrVersion"
        using Put_errors[of args kv1] by (auto simp: err_def)
      moreover have "n2 \<le> 1" using s2 by (auto simp: put_state_def)
      moreover have "err = OK \<Longrightarrow> n2 = 1" "err = ErrNoKey \<Longrightarrow> n2 = 0"
        using ex(2,3) by (auto simp: n2_def err_def)
      ultimately show ?thesis using run True Cons.prems(3)
        by (auto simp: put_contract_def n2_def split: if_split_asm)
    qed
  qed
qed

lemma clerk_Get_current:
  assumes "clerk_Get args as kv = (Some (v, n, err), kv')"
  shows "\<exists>i < length as. \<exists>kv1. kv1 = exec_puts (concat (map others (take (Suc i) as))) kv \<and>
     Get args kv1 = \<lparr>grValue = v, grVersion = n, grErr = err\<rparr> \<and> kv' = kv1"
  using assms
proof (induction as arbitrary: kv)
  case (Cons a as)
  show ?case
  proof (cases "arrives a \<and> answered a")
    case True
    with Cons.prems show ?thesis by (intro exI[of _ 0]) (auto simp: Let_def)
  next
    case False
    with Cons.prems have "clerk_Get args as (exec_puts (others a) kv) = (Some (v, n, err), kv')"
      by (simp add: Let_def)
    from Cons.IH[OF this] obtain i where "i < length as"
      "Get args (exec_puts (concat (map others (take (Suc i) as))) (exec_puts (others a) kv)) =
         \<lparr>grValue = v, grVersion = n, grErr = err\<rparr>"
      "kv' = exec_puts (concat (map others (take (Suc i) as))) (exec_puts (others a) kv)" by auto
    then show ?thesis by (intro exI[of _ "Suc i"]) (simp add: exec_puts_def)
  qed
qed simp

section \<open>Properties\<close>

text \<open>
  The clerk of the single-server store keeps its promise for Put, whatever requests and
  replies are lost and whatever other clients do in between: OK means that the put was executed
  exactly once, \<open>ErrVersion\<close> and \<open>ErrNoKey\<close> that it was not executed, \<open>ErrMaybe\<close> that it was
  executed at most once, and there are no other results (fewer than \<open>2\<^sup>6\<^sup>4\<close> puts on the key).
\<close>

theorem Put_at_most_once:
  assumes "unat (ver kv (pKey args)) + traffic as < 2 ^ 64"
    and "clerk_Put args 0 as kv 0 = (r, kv', n)"
  shows "put_contract r n"
  by (rule clerk_Put_contract[OF _ assms(1) _ assms(2)]) (simp_all add: put_state_def)

definition demo_put :: PutArgs where
  "demo_put = \<lparr>pKey = ''k'', pValue = ''v'', pVersion = 0\<rparr>"

text \<open>The reply to the first request is lost; the second one finds the version changed.\<close>

theorem Put_at_most_once_witness:
  "put_contract (Some ErrMaybe) 1 \<and>
   fst (clerk_Put demo_put 0 [Attempt [] True False, Attempt [] True True] MakeKVServer 0) = Some ErrMaybe"
proof -
  obtain kv' where run: "clerk_Put demo_put 0 [Attempt [] True False, Attempt [] True True] MakeKVServer 0
      = (Some ErrMaybe, kv', 1)"
    by (auto simp: demo_put_def Let_def exec_puts_def Put_def MakeKVServer_def)
  have "unat (ver MakeKVServer (pKey demo_put)) + traffic [Attempt [] True False, Attempt [] True True] < 2 ^ 64"
    by (simp add: ver_def2 MakeKVServer_def traffic_def)
  from Put_at_most_once[OF this run] run show ?thesis by simp
qed

text \<open>
  A Get of the clerk returns the value and version that the server held at the moment one
  of its requests was executed; a Get changes nothing.
\<close>

theorem Get_linearizes:
  assumes "clerk_Get args as kv = (Some (v, n, err), kv')"
  shows "\<exists>i < length as. kv' = exec_puts (concat (map others (take (Suc i) as))) kv \<and>
     Get args kv' = \<lparr>grValue = v, grVersion = n, grErr = err\<rparr>"
  using clerk_Get_current[OF assms] by blast

theorem Get_linearizes_witness:
  "\<exists>i < (2::nat). snd (clerk_Get \<lparr>gKey = ''k''\<rparr> [Attempt [] False False, Attempt [demo_put] True True] MakeKVServer)
     = exec_puts (concat (map others (take (Suc i) [Attempt [] False False, Attempt [demo_put] True True]))) MakeKVServer"
proof -
  obtain kv' where run: "clerk_Get \<lparr>gKey = ''k''\<rparr> [Attempt [] False False, Attempt [demo_put] True True] MakeKVServer
      = (Some (''v'', 1, OK), kv')"
    by (auto simp: demo_put_def Let_def exec_puts_def Put_def Get_def MakeKVServer_def)
  have two: "length [Attempt [] False False, Attempt [demo_put] True True] = 2" by simp
  from Get_linearizes[OF run] show ?thesis unfolding run two snd_conv by blast
qed

section \<open>The replicated clerk\<close>

text \<open>
  Without executions behind an answer \<open>ErrWrongLeader\<close>, the clerk of kvraft1 does what the
  clerk of kvsrv1 does on the attempts that are left when the wrong leaders are skipped.
\<close>

fun skip_wrong :: "PutArgs list \<Rightarrow> rattempt list \<Rightarrow> attempt list" where
  "skip_wrong pend [] = []"
| "skip_wrong pend (a # as) =
     (case answer a of
        NoAnswer b \<Rightarrow> Attempt (pend @ rothers a) b False # skip_wrong [] as
      | WrongLeader b \<Rightarrow> skip_wrong (pend @ rothers a) as
      | Executed \<Rightarrow> Attempt (pend @ rothers a) True True # skip_wrong [] as)"

definition rtraffic :: "rattempt list \<Rightarrow> nat" where
  "rtraffic as = (\<Sum>a \<leftarrow> as. length (rothers a) + 1)"

lemma exec_puts_Nil: "exec_puts [] kv = kv"
  by (simp add: exec_puts_def)

lemma exec_puts_append: "exec_puts (as @ bs) kv = exec_puts bs (exec_puts as kv)"
  by (simp add: exec_puts_def)

lemma traffic_skip: "traffic (skip_wrong pend as) \<le> length pend + rtraffic as"
proof (induction as arbitrary: pend)
  case (Cons a as)
  show ?case using Cons[of "[]"] Cons[of "pend @ rothers a"]
    by (cases "answer a") (auto simp: traffic_def rtraffic_def)
qed (simp add: traffic_def rtraffic_def)

lemma kvraft_Put_skip:
  assumes "\<forall>a \<in> set as. answer a \<noteq> WrongLeader True"
    and "kvraft_Put args retry as ck (exec_puts pend kv) n = (r, ck', kv', m)"
  shows "\<exists>kv''. clerk_Put args retry (skip_wrong pend as) kv n = (r, kv'', m)"
  using assms
proof (induction as arbitrary: retry ck pend kv n)
  case (Cons a as)
  show ?case
  proof (cases "answer a")
    case (WrongLeader b)
    with Cons.prems have "b = False" by auto
    with WrongLeader Cons.prems(2)
    have "kvraft_Put args retry as (updateLeader ck) (exec_puts (pend @ rothers a) kv) n = (r, ck', kv', m)"
      by (simp add: exec_puts_append)
    from Cons.IH[OF _ this] Cons.prems(1) WrongLeader show ?thesis by simp
  next
    case (NoAnswer b)
    let ?kv1 = "exec_puts (pend @ rothers a) kv"
    define kv2 n2 where "kv2 = (if b then fst (Put args ?kv1) else ?kv1)"
      and "n2 = (if b \<and> prErr (snd (Put args ?kv1)) = OK then Suc n else n)"
    have "kvraft_Put args (retry + 1) as (updateLeader ck) (exec_puts [] kv2) n2 = (r, ck', kv', m)"
      using NoAnswer Cons.prems(2)
      by (cases b) (auto simp: kv2_def n2_def exec_puts_append exec_puts_Nil case_prod_beta split: if_splits)
    from Cons.IH[OF _ this] Cons.prems(1) NoAnswer show ?thesis
      by (cases b) (simp_all add: kv2_def n2_def case_prod_beta Let_def)
  next
    case Executed
    with Cons.prems(2) show ?thesis
      by (auto simp: exec_puts_append Let_def case_prod_beta)
  qed
qed auto

text \<open>
  C16. The clerk of the replicated store keeps the same promise for Put as long as no server
  executes a request that it answers with \<open>ErrWrongLeader\<close>.
\<close>

theorem kvraft_Put_at_most_once:
  assumes "unat (ver kv (pKey args)) + rtraffic as < 2 ^ 64"
    and "\<forall>a \<in> set as. answer a \<noteq> WrongLeader True"
    and "kvraft_Put args 0 as ck kv 0 = (r, ck', kv', n)"
  shows "put_contract r n"
proof -
  have "kvraft_Put args 0 as ck (exec_puts [] kv) 0 = (r, ck', kv', n)"
    using assms(3) by (simp add: exec_puts_def)
  from kvraft_Put_skip[OF assms(2) this] obtain kv''
    where run: "clerk_Put args 0 (skip_wrong [] as) kv 0 = (r, kv'', n)" ..
  have tr: "unat (ver kv (pKey args)) + traffic (skip_wrong [] as) < 2 ^ 64"
    using assms(1) traffic_skip[of "[]" as] by simp
  show ?thesis by (rule clerk_Put_contract[OF _ tr _ run]) (simp_all add: put_state_def)
qed

definition demo_clerk :: Clerk where
  "demo_clerk = \<lparr>nservers = 3, ckleader = 0\<rparr>"

theorem kvraft_Put_at_most_once_witness:
  "put_contract (Some ErrMaybe) 1 \<and>
   fst (kvraft_Put demo_put 0 [RAttempt [] (WrongLeader False), RAttempt [] (NoAnswer True), RAttempt [] Executed]
     demo_clerk MakeKVServer 0) = Some ErrMaybe"
proof -
  let ?as = "[RAttempt [] (WrongLeader False), RAttempt [] (NoAnswer True), RAttempt [] Executed]"
  obtain ck' kv' where run: "kvraft_Put demo_put 0 ?as demo_clerk MakeKVServer 0 = (Some ErrMaybe, ck', kv', 1)"
    by (auto simp: demo_put_def Let_def exec_puts_def Put_def MakeKVServer_def)
  have "unat (ver MakeKVServer (pKey demo_put)) + rtraffic ?as < 2 ^ 64"
    by (simp add: ver_def2 MakeKVServer_def rtraffic_def)
  from kvraft_Put_at_most_once[OF this _ run] run show ?thesis by simp
qed

text \<open>
  The promise is broken otherwise: a request that was executed but answered
  \<open>ErrWrongLeader\<close> is not counted as a retry, so the resend's \<open>ErrVersion\<close> is passed on to the
  application, although the put was executed.
\<close>

theorem kvraft_Put_ErrVersion_after_execution:
  "\<exists>as ck' kv'. kvraft_Put demo_put 0 as demo_clerk MakeKVServer 0 = (Some ErrVersion, ck', kv', 1)"
  by (rule exI[of _ "[RAttempt [] (WrongLeader True), RAttempt [] Executed]"])
    (simp add: demo_put_def Let_def exec_puts_def Put_def MakeKVServer_def)

text \<open>
  The clerk's guess of the leader is always one of the servers, and a clerk that keeps being
  turned away asks the servers in turn.
\<close>

theorem clerk_round_robin:
  assumes "ckleader ck < nservers ck" and "\<forall>a \<in> set as. answer a \<noteq> Executed"
  shows "fst (snd (kvraft_Put args retry as ck kv n)) =
     ck\<lparr>ckleader := (ckleader ck + length as) mod nservers ck\<rparr>"
  using assms
proof (induction as arbitrary: retry ck kv n)
  case (Cons a as)
  have "ckleader (updateLeader ck) < nservers (updateLeader ck)"
    using Cons.prems(1) by (simp add: updateLeader_def)
  from Cons.IH[OF this] Cons.prems(2)
  show ?case by (cases "answer a") (auto simp: Let_def case_prod_beta updateLeader_def mod_simps)
qed simp

theorem clerk_round_robin_witness:
  "ckleader (fst (snd (kvraft_Put demo_put 0
     [RAttempt [] (WrongLeader False), RAttempt [] (NoAnswer False), RAttempt [] (NoAnswer False), RAttempt [] (NoAnswer False)]
     demo_clerk MakeKVServer 0))) = 1"
  by (subst clerk_round_robin) (simp_all add: demo_clerk_def)

end
