(* ===== verification/KvClients.thy ===== *)
theory KvClients
  imports KvModel KvClerk
begin

text \<open>
  Test clients of the key/value server (\<^verbatim>\<open>kvtest1\<close>): any number of clients, each with its own program
  and its own clerk (\<^verbatim>\<open>kvsrv1/client.go\<close>), one server, and a network that loses, delays and reorders
  requests and replies; and the log of operations that the linearizability checker reads
  (\<^verbatim>\<open>kvtest1/porcupine.go\<close>).

  A program is a record of functions: its next action and its reaction to what the action returns.  The
  clerk is modelled call by call: every resend is a request of its own, an answer counts only for the
  call that waits for it, and a request may reach the server long after its call was given up.
  The fields \<open>lin\<close>, \<open>nserved\<close> and \<open>retried\<close> of the system only record what happened.
\<close>

section \<open>Programs\<close>

datatype action = ActPoll | ActGet string | ActPut PutArgs | ActStop

text \<open>
  \<open>polled\<close> is a \<^verbatim>\<open>select\<close> on the channel that ends the test: \<open>None\<close> when the signal came, otherwise the
  random number that the default branch may use.  A reaction that is \<open>None\<close> is \<^verbatim>\<open>ts.Fatalf\<close> or a
  panic.
\<close>

record 'p prog =
  act :: "'p \<Rightarrow> action"
  polled :: "nat option \<Rightarrow> 'p \<Rightarrow> 'p option"
  got :: "GetReply \<Rightarrow> 'p \<Rightarrow> 'p option"
  put_done :: "Err \<Rightarrow> 'p \<Rightarrow> 'p option"

section \<open>The log of operations\<close>

record opinfo =
  opOut :: KvOutput
  opCall :: nat
  opReturn :: nat
  opClient :: nat

text \<open>The pair in front says which client logged the operation, and its number among the operations of that client.\<close>

type_synonym OpLog = "((nat \<times> nat) \<times> KvInput \<times> opinfo) list"

definition OpLog_Append :: "(nat \<times> nat) \<times> KvInput \<times> opinfo \<Rightarrow> OpLog \<Rightarrow> OpLog" where
  [simp]: "OpLog_Append op log = log @ [op]"

definition get_input :: "string \<Rightarrow> KvInput" where
  "get_input key = \<lparr>kiOp = 0, kiKey = key, kiValue = '''', kiVersion = 0\<rparr>"

definition put_input :: "PutArgs \<Rightarrow> KvInput" where
  "put_input a = \<lparr>kiOp = 1, kiKey = pKey a, kiValue = pValue a, kiVersion = pVersion a\<rparr>"

text \<open>What \<open>Get\<close> and \<open>Put\<close> of the harness record when the clerk returns.\<close>

definition log_Get :: "string \<Rightarrow> GetReply \<Rightarrow> nat \<Rightarrow> nat \<Rightarrow> nat \<Rightarrow> KvInput \<times> opinfo" where
  "log_Get key r start end cli =
     (get_input key,
      \<lparr>opOut = \<lparr>koValue = grValue r, koVersion = grVersion r, koErr = grErr r\<rparr>,
       opCall = start, opReturn = end, opClient = cli\<rparr>)"

definition log_Put :: "PutArgs \<Rightarrow> Err \<Rightarrow> nat \<Rightarrow> nat \<Rightarrow> nat \<Rightarrow> KvInput \<times> opinfo" where
  "log_Put a err start end cli =
     (put_input a,
      \<lparr>opOut = \<lparr>koValue = '''', koVersion = 0, koErr = err\<rparr>,
       opCall = start, opReturn = end, opClient = cli\<rparr>)"

section \<open>The system\<close>

datatype phase =
    Ready
  | Reading string
  | Got string GetReply
  | Putting PutArgs nat
  | Failed

record 'p client =
  prg :: 'p
  phase :: phase
  opn :: nat
  started :: nat

text \<open>A moment at which an operation took effect, or was seen not to.\<close>

datatype effect = EGet GetReply | EApplied | ERefused

record lop =
  lid :: "nat \<times> nat"
  ltime :: nat
  linp :: KvInput
  leff :: effect

record 'p csys =
  kvs :: KVServer
  clients :: "'p client list"
  requests :: "((nat \<times> nat \<times> nat) \<times> PutArgs) list"
  replies :: "((nat \<times> nat \<times> nat) \<times> Err) list"
  now :: nat
  oplog :: OpLog
  lin :: "lop list"
  nserved :: nat
  retried :: bool

definition set_client :: "nat \<Rightarrow> 'p client \<Rightarrow> 'p csys \<Rightarrow> 'p csys" where
  "set_client i c s = s\<lparr>clients := (clients s)[i := c]\<rparr>"

definition remove_nth :: "nat \<Rightarrow> 'a list \<Rightarrow> 'a list" where
  "remove_nth n xs = take n xs @ drop (Suc n) xs"

definition resume :: "'p option \<Rightarrow> 'p client \<Rightarrow> 'p client" where
  "resume q c = (case q of None \<Rightarrow> c\<lparr>phase := Failed\<rparr> | Some p \<Rightarrow> c\<lparr>prg := p, phase := Ready\<rparr>)"

definition applied :: "nat \<times> nat \<Rightarrow> 'p csys \<Rightarrow> bool" where
  "applied x s \<longleftrightarrow> (\<exists>l \<in> set (lin s). lid l = x)"

text \<open>\<open>Clerk.Get\<close>: the call; the answer of the server to the attempt that gets through; the return.\<close>

definition start_get :: "nat \<Rightarrow> string \<Rightarrow> 'p csys \<Rightarrow> 'p csys" where
  "start_get i key s =
     (let c = clients s ! i in set_client i (c\<lparr>phase := Reading key, opn := Suc (opn c), started := now s\<rparr>) s)"

definition answer_get :: "nat \<Rightarrow> string \<Rightarrow> 'p csys \<Rightarrow> 'p csys" where
  "answer_get i key s =
     (let c = clients s ! i; r = Get \<lparr>gKey = key\<rparr> (kvs s) in
      (set_client i (c\<lparr>phase := Got key r\<rparr>) s)
        \<lparr>lin := lin s @ [\<lparr>lid = (i, opn c), ltime = now s, linp = get_input key, leff = EGet r\<rparr>]\<rparr>)"

definition finish_get :: "'p prog \<Rightarrow> nat \<Rightarrow> string \<Rightarrow> GetReply \<Rightarrow> 'p csys \<Rightarrow> 'p csys" where
  "finish_get P i key r s =
     (let c = clients s ! i in
      (set_client i (resume (got P r (prg c)) c) s)
        \<lparr>oplog := OpLog_Append ((i, opn c), log_Get key r (started c) (now s) i) (oplog s)\<rparr>)"

text \<open>\<open>Clerk.Put\<close>: the first call, a call that failed and is repeated, the server, the return.\<close>

definition start_put :: "nat \<Rightarrow> PutArgs \<Rightarrow> 'p csys \<Rightarrow> 'p csys" where
  "start_put i a s =
     (let c = clients s ! i in
      (set_client i (c\<lparr>phase := Putting a 0, opn := Suc (opn c), started := now s\<rparr>) s)
        \<lparr>requests := requests s @ [((i, Suc (opn c), 0), a)]\<rparr>)"

definition retry_put :: "nat \<Rightarrow> PutArgs \<Rightarrow> nat \<Rightarrow> 'p csys \<Rightarrow> 'p csys" where
  "retry_put i a retryCount s =
     (let c = clients s ! i in
      (set_client i (c\<lparr>phase := Putting a (Suc retryCount)\<rparr>) s)
        \<lparr>requests := requests s @ [((i, opn c, Suc retryCount), a)], retried := True\<rparr>)"

definition serve_put :: "nat \<Rightarrow> 'p csys \<Rightarrow> 'p csys" where
  "serve_put n s =
     (case requests s ! n of
        ((i, k, r), a) \<Rightarrow>
          (let (kv, rep) = Put a (kvs s) in
           s\<lparr>kvs := kv, requests := remove_nth n (requests s),
             replies := replies s @ [((i, k, r), prErr rep)],
             lin := (if prErr rep = OK
                     then lin s @ [\<lparr>lid = (i, k), ltime = now s, linp = put_input a, leff = EApplied\<rparr>]
                     else lin s),
             nserved := Suc (nserved s)\<rparr>))"

definition Put_result :: "nat \<Rightarrow> Err \<Rightarrow> Err" where
  "Put_result retryCount err = (if err = ErrVersion \<and> retryCount > 0 then ErrMaybe else err)"

definition finish_put :: "'p prog \<Rightarrow> nat \<Rightarrow> PutArgs \<Rightarrow> Err \<Rightarrow> 'p csys \<Rightarrow> 'p csys" where
  "finish_put P i a err s =
     (let c = clients s ! i in
      (set_client i (resume (put_done P err (prg c)) c) s)
        \<lparr>oplog := OpLog_Append ((i, opn c), log_Put a err (started c) (now s) i) (oplog s),
         lin := (if applied (i, opn c) s then lin s
                 else lin s @ [\<lparr>lid = (i, opn c), ltime = now s, linp = put_input a, leff = ERefused\<rparr>])\<rparr>)"

datatype cevent =
    CTick nat
  | CStep nat "nat option"
  | CAnswer nat
  | CReturn nat
  | CTimeout nat
  | CServe nat
  | CLoseRequest nat
  | CLoseReply nat
  | CReply nat

fun cexec :: "'p prog \<Rightarrow> cevent \<Rightarrow> 'p csys \<Rightarrow> 'p csys option" where
  "cexec P (CTick d) s = Some (s\<lparr>now := now s + d\<rparr>)"
| "cexec P (CStep i inp) s =
     (if i < length (clients s) \<and> phase (clients s ! i) = Ready
      then (case act P (prg (clients s ! i)) of
              ActPoll \<Rightarrow> Some (set_client i (resume (polled P inp (prg (clients s ! i))) (clients s ! i)) s)
            | ActGet key \<Rightarrow> Some (start_get i key s)
            | ActPut a \<Rightarrow> Some (start_put i a s)
            | ActStop \<Rightarrow> None)
      else None)"
| "cexec P (CAnswer i) s =
     (if i < length (clients s)
      then (case phase (clients s ! i) of Reading key \<Rightarrow> Some (answer_get i key s) | _ \<Rightarrow> None)
      else None)"
| "cexec P (CReturn i) s =
     (if i < length (clients s)
      then (case phase (clients s ! i) of Got key r \<Rightarrow> Some (finish_get P i key r s) | _ \<Rightarrow> None)
      else None)"
| "cexec P (CTimeout i) s =
     (if i < length (clients s)
      then (case phase (clients s ! i) of Putting a r \<Rightarrow> Some (retry_put i a r s) | _ \<Rightarrow> None)
      else None)"
| "cexec P (CServe n) s = (if n < length (requests s) then Some (serve_put n s) else None)"
| "cexec P (CLoseRequest n) s = Some (s\<lparr>requests := remove_nth n (requests s)\<rparr>)"
| "cexec P (CLoseReply n) s = Some (s\<lparr>replies := remove_nth n (replies s)\<rparr>)"
| "cexec P (CReply n) s =
     (if n < length (replies s)
      then (case replies s ! n of
              ((i, k, r), err) \<Rightarrow>
                if i < length (clients s) \<and> opn (clients s ! i) = k
                then (case phase (clients s ! i) of
                        Putting a r' \<Rightarrow> if r' = r then Some (finish_put P i a (Put_result r err) s) else None
                      | _ \<Rightarrow> None)
                else None)
      else None)"

fun crun :: "'p prog \<Rightarrow> cevent list \<Rightarrow> 'p csys \<Rightarrow> 'p csys option" where
  "crun P [] s = Some s"
| "crun P (e # es) s = do { t \<leftarrow> cexec P e s; crun P es t }"

definition csys_boot :: "KVServer \<Rightarrow> 'p list \<Rightarrow> 'p csys" where
  "csys_boot kv ps =
     \<lparr>kvs = kv, clients = map (\<lambda>p. \<lparr>prg = p, phase = Ready, opn = 0, started = 0\<rparr>) ps, requests = [], replies = [],
      now = 0, oplog = [], lin = [], nserved = 0, retried = False\<rparr>"

definition csys_init :: "KVServer \<Rightarrow> 'p list \<Rightarrow> 'p csys \<Rightarrow> bool" where
  "csys_init kv ps s \<longleftrightarrow> s = csys_boot kv ps"

definition csys_step :: "'p prog \<Rightarrow> 'p csys \<Rightarrow> 'p csys \<Rightarrow> bool" where
  "csys_step P s t \<longleftrightarrow> (\<exists>e. cexec P e s = Some t)"

interpretation csys: transition_system "csys_init kv ps" "csys_step P" for kv ps P
  by unfold_locales (auto simp: csys_init_def)

abbreviation csys_reach :: "'p prog \<Rightarrow> KVServer \<Rightarrow> 'p list \<Rightarrow> 'p csys \<Rightarrow> bool" where
  "csys_reach P kv ps \<equiv> transition_system.reach (csys_init kv ps) (csys_step P)"


section \<open>Clerks\<close>

text \<open>
  The invariant of the clerks.  A request that is not the one its client waits for is stale; an answer
  to the call in progress tells the truth about it; with no resend the one request of an operation is
  on its way, or answered, or lost.
\<close>

definition stale :: "KVServer \<Rightarrow> PutArgs \<Rightarrow> bool" where
  "stale kv a \<longleftrightarrow> pVersion a < ver kv (pKey a)"

definition request_ok :: "KVServer \<Rightarrow> 'p client list \<Rightarrow> (nat \<times> nat \<times> nat) \<times> PutArgs \<Rightarrow> bool" where
  "request_ok kv cs q =
     (case q of ((i, k, r), a) \<Rightarrow>
        i < length cs \<and> k \<le> opn (cs ! i) \<and> pVersion a \<le> ver kv (pKey a)
        \<and> (stale kv a \<or> (\<exists>R. phase (cs ! i) = Putting a R))
        \<and> (\<forall>A R. phase (cs ! i) = Putting A R \<longrightarrow> k = opn (cs ! i) \<longrightarrow> a = A \<and> r \<le> R)
        \<and> (k \<noteq> opn (cs ! i) \<longrightarrow> stale kv a))"

definition reply_ok :: "KVServer \<Rightarrow> 'p client list \<Rightarrow> (nat \<times> nat) set \<Rightarrow> (nat \<times> nat \<times> nat) \<times> Err \<Rightarrow> bool" where
  "reply_ok kv cs ids q =
     (case q of ((i, k, r), err) \<Rightarrow>
        i < length cs \<and> k \<le> opn (cs ! i)
        \<and> (\<forall>A R. phase (cs ! i) = Putting A R \<longrightarrow> k = opn (cs ! i) \<longrightarrow>
             r \<le> R \<and> stale kv A \<and> (err = OK \<and> (i, k) \<in> ids \<or> err = ErrVersion \<and> (R = 0 \<longrightarrow> (i, k) \<notin> ids))))"

definition client_ok :: "'p prog \<Rightarrow> (KVServer \<Rightarrow> 'p \<Rightarrow> bool) \<Rightarrow> KVServer \<Rightarrow> ((nat \<times> nat \<times> nat) \<times> PutArgs) list
    \<Rightarrow> (nat \<times> nat) set \<Rightarrow> nat \<Rightarrow> 'p client \<Rightarrow> bool" where
  "client_ok P knows kv qs ids i c \<longleftrightarrow>
     (phase c \<noteq> Failed \<longrightarrow> knows kv (prg c))
     \<and> (\<forall>key. phase c = Reading key \<longrightarrow> act P (prg c) = ActGet key)
     \<and> (\<forall>key r. phase c = Got key r \<longrightarrow> act P (prg c) = ActGet key \<and> grVersion r \<le> ver kv key)
     \<and> (\<forall>A R. phase c = Putting A R \<longrightarrow> act P (prg c) = ActPut A \<and> pVersion A \<le> ver kv (pKey A)
          \<and> ((i, opn c) \<in> ids \<longrightarrow> stale kv A)
          \<and> (R = 0 \<longrightarrow> ((i, opn c, 0), A) \<in> set qs \<longrightarrow> (i, opn c) \<notin> ids))"

definition clerks :: "'p prog \<Rightarrow> (KVServer \<Rightarrow> 'p \<Rightarrow> bool) \<Rightarrow> KVServer \<Rightarrow> 'p client list
    \<Rightarrow> ((nat \<times> nat \<times> nat) \<times> PutArgs) list \<Rightarrow> ((nat \<times> nat \<times> nat) \<times> Err) list \<Rightarrow> (nat \<times> nat) set \<Rightarrow> bool" where
  "clerks P knows kv cs qs rs ids \<longleftrightarrow>
     distinct (map fst qs @ map fst rs)
     \<and> (\<forall>q \<in> set qs. request_ok kv cs q)
     \<and> (\<forall>q \<in> set rs. reply_ok kv cs ids q)
     \<and> (\<forall>i < length cs. client_ok P knows kv qs ids i (cs ! i))
     \<and> (\<forall>i k. (i, k) \<in> ids \<longrightarrow> i < length cs \<and> k \<le> opn (cs ! i))"

definition applied_ids :: "'p csys \<Rightarrow> (nat \<times> nat) set" where
  "applied_ids s = lid ` set (lin s)"

lemma applied_iff: "applied x s \<longleftrightarrow> x \<in> applied_ids s"
  by (auto simp: applied_def applied_ids_def)

definition clerks_ok :: "'p prog \<Rightarrow> (KVServer \<Rightarrow> 'p \<Rightarrow> bool) \<Rightarrow> 'p csys \<Rightarrow> bool" where
  "clerks_ok P knows s \<longleftrightarrow> clerks P knows (kvs s) (clients s) (requests s) (replies s) (applied_ids s)"

definition putting :: "phase \<Rightarrow> bool" where
  "putting p \<longleftrightarrow> (\<exists>A R. p = Putting A R)"

lemma putting_simps [simp]:
  "putting (Putting A R)" "\<not> putting Ready" "\<not> putting (Reading k)" "\<not> putting (Got k r)" "\<not> putting Failed"
  by (auto simp: putting_def)

text \<open>A client moves on, and its old requests can no longer take effect.\<close>

lemma clerks_client:
  assumes cl: "clerks P knows kv cs qs rs ids" and i: "i < length cs"
    and old: "\<And>k r a. ((i, k, r), a) \<in> set qs \<Longrightarrow> stale kv a"
    and opn: "opn (cs ! i) \<le> opn c" "putting (phase c) \<Longrightarrow> opn (cs ! i) < opn c"
    and c: "client_ok P knows kv qs ids' i c"
    and ids: "ids \<subseteq> ids'" "ids' \<subseteq> insert (i, opn c) ids"
  shows "clerks P knows kv (cs[i := c]) qs rs ids'"
proof -
  have "request_ok kv (cs[i := c]) q" if q: "q \<in> set qs" for q
  proof -
    obtain j k r a where [simp]: "q = ((j, k, r), a)" by (metis prod.exhaust)
    have ok: "request_ok kv cs q" using cl q by (auto simp: clerks_def)
    show ?thesis
    proof (cases "j = i")
      case True
      with old q have "stale kv a" by auto
      with ok True opn i show ?thesis by (force simp: request_ok_def putting_def)
    next
      case False
      with ok show ?thesis by (auto simp: request_ok_def)
    qed
  qed
  moreover have "reply_ok kv (cs[i := c]) ids' q" if q: "q \<in> set rs" for q
  proof -
    obtain j k r e where [simp]: "q = ((j, k, r), e)" by (metis prod.exhaust)
    have ok: "reply_ok kv cs ids q" using cl q by (auto simp: clerks_def)
    show ?thesis
    proof (cases "j = i")
      case True
      with ok opn i show ?thesis by (force simp: reply_ok_def putting_def)
    next
      case False
      then have "(j, k) \<in> ids' \<longleftrightarrow> (j, k) \<in> ids" using ids by auto
      with ok False show ?thesis by (auto simp: reply_ok_def)
    qed
  qed
  moreover have "client_ok P knows kv qs ids' j (cs[i := c] ! j)" if "j < length cs" for j
  proof (cases "j = i")
    case False
    then have "(j, k) \<in> ids' \<longleftrightarrow> (j, k) \<in> ids" for k using ids by auto
    with cl that False show ?thesis by (simp add: clerks_def client_ok_def)
  qed (use c i in simp)
  moreover have "j < length cs \<and> k \<le> opn (cs[i := c] ! j)" if "(j, k) \<in> ids'" for j k
  proof -
    have "j < length cs \<and> k \<le> opn (cs ! j) \<or> j = i \<and> k = opn c" using cl ids that unfolding clerks_def by blast
    with opn(1) i show ?thesis by (cases "j = i") auto
  qed
  ultimately show ?thesis using cl by (simp add: clerks_def)
qed

lemma clerks_send:
  assumes cl: "clerks P knows kv cs qs rs ids" and i: "i < length cs" and ph: "phase (cs ! i) = Putting a R"
    and new: "(i, opn (cs ! i), R) \<notin> fst ` set qs \<union> fst ` set rs"
    and R: "R = 0 \<longrightarrow> (i, opn (cs ! i)) \<notin> ids"
  shows "clerks P knows kv cs (qs @ [((i, opn (cs ! i), R), a)]) rs ids"
proof -
  have "client_ok P knows kv qs ids j (cs ! j)" if "j < length cs" for j using cl that by (auto simp: clerks_def)
  then have "client_ok P knows kv (qs @ [((i, opn (cs ! i), R), a)]) ids j (cs ! j)" if "j < length cs" for j
    using that R ph by (auto simp: client_ok_def)
  moreover have "request_ok kv cs ((i, opn (cs ! i), R), a)"
    using cl i ph by (auto simp: clerks_def client_ok_def request_ok_def)
  ultimately show ?thesis using cl new by (auto simp: clerks_def)
qed

lemma client_ok_subset:
  "client_ok P knows kv qs ids i c \<Longrightarrow> set qs' \<subseteq> set qs \<Longrightarrow> client_ok P knows kv qs' ids i c"
  unfolding client_ok_def by blast

lemma clerks_subset:
  assumes "clerks P knows kv cs qs rs ids" and "set qs' \<subseteq> set qs" and "set rs' \<subseteq> set rs"
    and "distinct (map fst qs' @ map fst rs')"
  shows "clerks P knows kv cs qs' rs' ids"
  using assms client_ok_subset[OF _ assms(2)] unfolding clerks_def by blast

lemma remove_nth_facts:
  assumes "n < length xs"
  shows "set xs = insert (xs ! n) (set (remove_nth n xs))"
    and "distinct (map f xs) \<Longrightarrow> distinct (map f (remove_nth n xs)) \<and> f (xs ! n) \<notin> f ` set (remove_nth n xs)"
proof -
  have xs: "xs = take n xs @ xs ! n # drop (Suc n) xs" using assms by (simp add: id_take_nth_drop[symmetric])
  then have "set xs = set (take n xs @ xs ! n # drop (Suc n) xs)" by simp
  then show "set xs = insert (xs ! n) (set (remove_nth n xs))" by (simp add: remove_nth_def)
  assume "distinct (map f xs)"
  then have "distinct (map f (take n xs @ xs ! n # drop (Suc n) xs))" using xs by simp
  then show "distinct (map f (remove_nth n xs)) \<and> f (xs ! n) \<notin> f ` set (remove_nth n xs)"
    by (auto simp: remove_nth_def)
qed

lemma remove_nth_beyond: "length xs \<le> n \<Longrightarrow> remove_nth n xs = xs"
  by (simp add: remove_nth_def)

lemma remove_nth_subset: "set (remove_nth n xs) \<subseteq> set xs"
  by (auto simp: remove_nth_def dest: in_set_takeD in_set_dropD)

lemma remove_nth_distinct: "distinct (map f xs) \<Longrightarrow> distinct (map f (remove_nth n xs))"
  using remove_nth_facts(2)[of n xs f] by (cases "n < length xs") (auto simp: remove_nth_beyond)

text \<open>The server executes a request.\<close>

definition room :: "KVServer \<Rightarrow> bool" where
  "room kv \<longleftrightarrow> (\<forall>k. unat (ver kv k) + 1 < 2 ^ 64)"

lemma Put_advances: "room kv \<Longrightarrow> ver kv k \<le> ver (fst (Put a kv)) k"
  using Put_ver(1)[of kv k a] by (simp add: room_def word_le_nat_alt)

lemma stale_mono: "stale kv a \<Longrightarrow> (\<And>k. ver kv k \<le> ver kv' k) \<Longrightarrow> stale kv' a"
  by (auto simp: stale_def intro: less_le_trans)

lemma Put_current:
  assumes "room kv" and "ver kv (pKey a) = pVersion a"
  shows "prErr (snd (Put a kv)) = OK" and "stale (fst (Put a kv)) a"
proof -
  show ok: "prErr (snd (Put a kv)) = OK" using assms(2) by (simp add: Put_store kv.ok_iff_version)
  have "unat (ver (fst (Put a kv)) (pKey a)) = unat (pVersion a) + 1"
    using Put_applied(1)[OF ok] assms(1) by (simp add: room_def)
  then show "stale (fst (Put a kv)) a" unfolding stale_def word_less_nat_alt by linarith
qed

lemma request_cases:
  assumes "clerks P knows kv cs qs rs ids" and "((i, k, r), a) \<in> set qs"
  obtains (stale) "stale kv a"
  | (current) R where "\<not> stale kv a" and "ver kv (pKey a) = pVersion a" and "phase (cs ! i) = Putting a R"
      and "k = opn (cs ! i)" and "(i, k) \<notin> ids" and "i < length cs"
proof (cases "stale kv a")
  case False
  have q: "request_ok kv cs ((i, k, r), a)" using assms by (auto simp: clerks_def)
  with False obtain R where R: "phase (cs ! i) = Putting a R" "k = opn (cs ! i)" "i < length cs"
      "pVersion a \<le> ver kv (pKey a)" unfolding request_ok_def prod.case by blast
  with False have "ver kv (pKey a) = pVersion a" by (auto simp: stale_def)
  moreover have "(i, k) \<notin> ids" using assms(1) R False by (auto simp: clerks_def client_ok_def)
  ultimately show ?thesis using that(2) R False by auto
qed (use that in auto)


lemma request_ok_mono:
  assumes "request_ok kv cs q" and "\<And>k. ver kv k \<le> ver kv' k"
  shows "request_ok kv' cs q"
proof -
  obtain i k r a where q: "q = ((i, k, r), a)" by (metis prod.exhaust)
  have "pVersion a \<le> ver kv (pKey a) \<Longrightarrow> pVersion a \<le> ver kv' (pKey a)"
    using assms(2) order_trans by blast
  with assms(1) stale_mono[OF _ assms(2)] show ?thesis unfolding q request_ok_def prod.case by blast
qed

lemma clerks_fresh:
  assumes "clerks P knows kv cs qs rs ids" and "n < length qs" and "qs ! n = (x, a)"
  shows "x \<notin> fst ` set (remove_nth n qs)" and "x \<notin> fst ` set rs"
proof -
  have d: "distinct (map fst qs)" "fst ` set qs \<inter> fst ` set rs = {}" using assms(1) by (auto simp: clerks_def)
  show "x \<notin> fst ` set (remove_nth n qs)" using remove_nth_facts(2)[OF assms(2) d(1)] assms(3) by simp
  have "x \<in> fst ` set qs" using assms(2,3) nth_mem[of n qs] by force
  with d(2) show "x \<notin> fst ` set rs" by blast
qed

lemma clerks_keys:
  assumes cl: "clerks P knows kv cs qs rs ids" and x: "(i, k, r) \<in> fst ` set qs \<union> fst ` set rs"
  shows "k \<le> opn (cs ! i)" and "phase (cs ! i) = Putting A R \<Longrightarrow> k = opn (cs ! i) \<Longrightarrow> r \<le> R"
proof -
  have "(\<exists>a. request_ok kv cs ((i, k, r), a)) \<or> (\<exists>e. reply_ok kv cs ids ((i, k, r), e))"
    using cl x unfolding clerks_def by force
  then show "k \<le> opn (cs ! i)" "phase (cs ! i) = Putting A R \<Longrightarrow> k = opn (cs ! i) \<Longrightarrow> r \<le> R"
    unfolding request_ok_def reply_ok_def prod.case by blast+
qed

lemma clerks_reply_stale:
  assumes cl: "clerks P knows kv cs qs rs ids" and n: "n < length qs" and q: "qs ! n = ((i, k, r), a)"
    and st: "stale kv a"
  shows "clerks P knows kv cs (remove_nth n qs) (rs @ [((i, k, r), ErrVersion)]) ids"
proof -
  have mem: "((i, k, r), a) \<in> set qs" using n q nth_mem by metis
  then have ok: "request_ok kv cs ((i, k, r), a)" using cl by (auto simp: clerks_def)
  have "reply_ok kv cs ids ((i, k, r), ErrVersion)"
    unfolding reply_ok_def prod.case
  proof (intro conjI allI impI)
    show "i < length cs" "k \<le> opn (cs ! i)" using ok by (auto simp: request_ok_def)
    fix A R assume ph: "phase (cs ! i) = Putting A R" and k: "k = opn (cs ! i)"
    with ok have A: "a = A" "r \<le> R" unfolding request_ok_def prod.case by blast+
    with st show "r \<le> R" "stale kv A" by simp_all
    have "client_ok P knows kv qs ids i (cs ! i)" using cl ok by (auto simp: clerks_def request_ok_def)
    with A ph k mem have "R = 0 \<longrightarrow> (i, k) \<notin> ids" unfolding client_ok_def by auto
    then show "ErrVersion = OK \<and> (i, k) \<in> ids \<or> ErrVersion = ErrVersion \<and> (R = 0 \<longrightarrow> (i, k) \<notin> ids)" by simp
  qed
  moreover have "clerks P knows kv cs (remove_nth n qs) rs ids"
    using cl remove_nth_subset[of n qs] remove_nth_distinct[of fst qs n]
    by (intro clerks_subset[OF cl]) (auto simp: clerks_def)
  moreover note clerks_fresh[OF cl n q]
  ultimately show ?thesis by (simp add: clerks_def)
qed

lemma clerks_apply:
  assumes cl: "clerks P knows kv cs qs rs ids" and n: "n < length qs" and q: "qs ! n = ((i, k, r), a)"
    and cur: "\<not> stale kv a" and ph: "phase (cs ! i) = Putting a R" and k: "k = opn (cs ! i)"
    and adv: "\<And>k. ver kv k \<le> ver kv' k" and st: "stale kv' a"
    and mono: "\<And>p. knows kv p \<Longrightarrow> knows kv' p"
  shows "clerks P knows kv' cs (remove_nth n qs) (rs @ [((i, k, r), OK)]) (insert (i, k) ids)"
proof -
  have mem: "((i, k, r), a) \<in> set qs" using n q nth_mem by metis
  then have ok: "request_ok kv cs ((i, k, r), a)" using cl by (auto simp: clerks_def)
  with ph k have i: "i < length cs" and r: "r \<le> R" unfolding request_ok_def prod.case by blast+
  note fresh = clerks_fresh[OF cl n q]
  have "reply_ok kv' cs (insert (i, k) ids) p" if p: "p \<in> set rs" for p
  proof -
    obtain j k' r' e where e: "p = ((j, k', r'), e)" by (metis prod.exhaust)
    have "reply_ok kv cs ids p" using cl p by (auto simp: clerks_def)
    then have o: "j < length cs" "k' \<le> opn (cs ! j)" and
      pp: "\<And>A S. phase (cs ! j) = Putting A S \<Longrightarrow> k' = opn (cs ! j) \<Longrightarrow> r' \<le> S \<and> stale kv A
        \<and> (e = OK \<and> (j, k') \<in> ids \<or> e = ErrVersion \<and> (S = 0 \<longrightarrow> (j, k') \<notin> ids))"
      unfolding e reply_ok_def prod.case by blast+
    have "(j, k') \<noteq> (i, k)" if "phase (cs ! j) = Putting A S" "k' = opn (cs ! j)" for A S
      using pp[OF that] ph that cur k by auto
    with o pp stale_mono[OF _ adv] show ?thesis unfolding e reply_ok_def prod.case by blast
  qed
  moreover have "reply_ok kv' cs (insert (i, k) ids) ((i, k, r), OK)"
    using i r ph k st by (auto simp: reply_ok_def)
  moreover have "client_ok P knows kv' (remove_nth n qs) (insert (i, k) ids) j (cs ! j)" if j: "j < length cs" for j
  proof -
    have c: "client_ok P knows kv qs ids j (cs ! j)" using cl j by (auto simp: clerks_def)
    have less: "x \<le> ver kv key \<Longrightarrow> x \<le> ver kv' key" for x key using adv order_trans by blast
    have "pVersion A \<le> ver kv' (pKey A) \<and> ((j, opn (cs ! j)) \<in> insert (i, k) ids \<longrightarrow> stale kv' A)
        \<and> (S = 0 \<longrightarrow> ((j, opn (cs ! j), 0), A) \<in> set (remove_nth n qs) \<longrightarrow> (j, opn (cs ! j)) \<notin> insert (i, k) ids)"
      if A: "phase (cs ! j) = Putting A S" for A S
    proof (cases "j = i")
      case True
      with A ph have "A = a" "S = R" by auto
      moreover have "(i, k, 0) \<notin> fst ` set (remove_nth n qs)" if "R = 0" using fresh r that by simp
      ultimately show ?thesis using True k st c A less[of "pVersion A" "pKey A"] unfolding client_ok_def by force
    next
      case False
      with c A less stale_mono[OF _ adv] remove_nth_subset[of n qs] show ?thesis unfolding client_ok_def by blast
    qed
    with c mono less show ?thesis unfolding client_ok_def by blast
  qed
  moreover have "distinct (map fst (remove_nth n qs) @ map fst (rs @ [((i, k, r), OK)]))"
  proof -
    have "fst ` set (remove_nth n qs) \<subseteq> fst ` set qs" by (rule image_mono[OF remove_nth_subset])
    moreover have "distinct (map fst qs)" "distinct (map fst rs)" "fst ` set qs \<inter> fst ` set rs = {}"
      using cl by (auto simp: clerks_def)
    ultimately show ?thesis using fresh remove_nth_distinct[of fst qs n] by simp blast
  qed
  moreover have "\<forall>q \<in> set (remove_nth n qs). request_ok kv' cs q"
    using cl request_ok_mono[OF _ adv] remove_nth_subset[of n qs] unfolding clerks_def by blast
  ultimately show ?thesis using cl i k unfolding clerks_def by auto
qed


section \<open>The kinds of steps\<close>

lemma cexec_cases:
  assumes "cexec P e s = Some t"
  obtains (tick) d where "t = s\<lparr>now := now s + d\<rparr>"
  | (poll) i inp where "i < length (clients s)" "phase (clients s ! i) = Ready" "act P (prg (clients s ! i)) = ActPoll"
      "t = set_client i (resume (polled P inp (prg (clients s ! i))) (clients s ! i)) s"
  | (start_get) i key where "i < length (clients s)" "phase (clients s ! i) = Ready"
      "act P (prg (clients s ! i)) = ActGet key" "t = start_get i key s"
  | (start_put) i a where "i < length (clients s)" "phase (clients s ! i) = Ready"
      "act P (prg (clients s ! i)) = ActPut a" "t = start_put i a s"
  | (answer_get) i key where "i < length (clients s)" "phase (clients s ! i) = Reading key" "t = answer_get i key s"
  | (finish_get) i key r where "i < length (clients s)" "phase (clients s ! i) = Got key r" "t = finish_get P i key r s"
  | (retry_put) i a r where "i < length (clients s)" "phase (clients s ! i) = Putting a r" "t = retry_put i a r s"
  | (serve_put) n where "n < length (requests s)" "t = serve_put n s"
  | (lose) n m where "t = s\<lparr>requests := remove_nth n (requests s), replies := remove_nth m (replies s)\<rparr>"
  | (finish_put) i a r err where "i < length (clients s)" "phase (clients s ! i) = Putting a r"
      "((i, opn (clients s ! i), r), err) \<in> set (replies s)" "t = finish_put P i a (Put_result r err) s"
proof (cases e)
  case (CStep i inp)
  with assms that(2-4) show ?thesis by (auto split: if_splits action.splits)
next
  case (CAnswer i)
  with assms that(5) show ?thesis by (auto split: if_splits phase.splits)
next
  case (CReturn i)
  with assms that(6) show ?thesis by (auto split: if_splits phase.splits)
next
  case (CTimeout i)
  with assms that(7) show ?thesis by (auto split: if_splits phase.splits)
next
  case (CLoseRequest n)
  with assms have "t = s\<lparr>requests := remove_nth n (requests s), replies := remove_nth (length (replies s)) (replies s)\<rparr>"
    by (auto simp: remove_nth_beyond)
  then show ?thesis by (rule that(9))
next
  case (CLoseReply n)
  with assms have "t = s\<lparr>requests := remove_nth (length (requests s)) (requests s), replies := remove_nth n (replies s)\<rparr>"
    by (auto simp: remove_nth_beyond)
  then show ?thesis by (rule that(9))
next
  case (CReply n)
  obtain i k r err where q: "replies s ! n = ((i, k, r), err)" by (metis prod.exhaust)
  with assms CReply obtain a where "n < length (replies s)" "i < length (clients s)" "opn (clients s ! i) = k"
      "phase (clients s ! i) = Putting a r" "t = finish_put P i a (Put_result r err) s"
    by (auto split: if_splits phase.splits)
  moreover from this q have "((i, k, r), err) \<in> set (replies s)" using nth_mem by metis
  ultimately show ?thesis using that(10) by blast
next
  case (CTick d)
  with assms have "t = s\<lparr>now := now s + d\<rparr>" by simp
  then show ?thesis by (rule that(1))
next
  case (CServe n)
  with assms have "n < length (requests s)" "t = serve_put n s" by (simp_all split: if_splits)
  then show ?thesis by (rule that(8))
qed

section \<open>Programs that use the versions they know\<close>

text \<open>
  What the clerk relies on in its caller: a program never asks for a version that the server has not
  reached yet.  \<open>knows kv p\<close> says that the versions the program remembers are not from the future.
\<close>

locale client_program =
  fixes P :: "'p prog" and knows :: "KVServer \<Rightarrow> 'p \<Rightarrow> bool"
  assumes knows_mono: "knows kv p \<Longrightarrow> (\<And>k. ver kv k \<le> ver kv' k) \<Longrightarrow> knows kv' p"
    and knows_polled: "knows kv p \<Longrightarrow> act P p = ActPoll \<Longrightarrow> polled P inp p = Some q \<Longrightarrow> knows kv q"
    and knows_got: "knows kv p \<Longrightarrow> act P p = ActGet key \<Longrightarrow> grVersion r \<le> ver kv key \<Longrightarrow> got P r p = Some q
      \<Longrightarrow> knows kv q"
    and knows_put: "knows kv p \<Longrightarrow> act P p = ActPut a \<Longrightarrow> pVersion a \<le> ver kv (pKey a)"
    and knows_done: "knows kv p \<Longrightarrow> act P p = ActPut a \<Longrightarrow> pVersion a < ver kv (pKey a) \<Longrightarrow> put_done P err p = Some q
      \<Longrightarrow> knows kv q"
begin

lemma idle_stale:
  assumes "clerks P knows kv cs qs rs ids" and "\<not> putting (phase (cs ! i))" and "((i, k, r), a) \<in> set qs"
  shows "stale kv a"
  using assms by (cases rule: request_cases[OF assms(1,3)]) auto

lemma clerks_ok_client:
  assumes ok: "clerks_ok P knows s" and i: "i < length (clients s)"
    and old: "\<not> putting (phase (clients s ! i)) \<or> (\<forall>k r a. ((i, k, r), a) \<in> set (requests s) \<longrightarrow> stale (kvs s) a)"
    and opn: "opn (clients s ! i) \<le> opn c" "putting (phase c) \<longrightarrow> opn (clients s ! i) < opn c"
    and c: "client_ok P knows (kvs s) (requests s) (applied_ids t) i c"
    and ids: "applied_ids s \<subseteq> applied_ids t" "applied_ids t \<subseteq> insert (i, opn c) (applied_ids s)"
    and t: "kvs t = kvs s" "clients t = (clients s)[i := c]" "requests t = requests s" "replies t = replies s"
  shows "clerks_ok P knows t"
  unfolding clerks_ok_def t
proof (rule clerks_client)
  show "clerks P knows (kvs s) (clients s) (requests s) (replies s) (applied_ids s)"
    using ok by (simp add: clerks_ok_def)
  then show "stale (kvs s) a" if "((i, k, r), a) \<in> set (requests s)" for k r a
    using old that idle_stale by blast
qed (use i opn c ids in auto)

lemma client_holds: "clerks_ok P knows s \<Longrightarrow> i < length (clients s) \<Longrightarrow>
    client_ok P knows (kvs s) (requests s) (applied_ids s) i (clients s ! i)"
  by (simp add: clerks_ok_def clerks_def)

lemma inv_ids: "clerks_ok P knows s \<Longrightarrow> (i, k) \<in> applied_ids s \<Longrightarrow> k \<le> opn (clients s ! i)"
  by (simp add: clerks_ok_def clerks_def)

lemma client_ok_resume:
  assumes "knows kv (prg c)" and "\<And>q. p = Some q \<Longrightarrow> knows kv q"
  shows "client_ok P knows kv qs ids i (resume p c)"
  using assms by (auto simp: client_ok_def resume_def split: option.splits)

lemma clerks_ok_poll:
  assumes "clerks_ok P knows s" and "i < length (clients s)" and "phase (clients s ! i) = Ready"
    and "act P (prg (clients s ! i)) = ActPoll"
  shows "clerks_ok P knows (set_client i (resume (polled P inp (prg (clients s ! i))) (clients s ! i)) s)"
proof -
  have "knows (kvs s) (prg (clients s ! i))" using client_holds[OF assms(1,2)] assms(3) by (simp add: client_ok_def)
  with assms(4) knows_polled have "client_ok P knows (kvs s) (requests s) (applied_ids s) i
      (resume (polled P inp (prg (clients s ! i))) (clients s ! i))" by (intro client_ok_resume)
  with assms(3) show ?thesis
    by (intro clerks_ok_client[OF assms(1,2)])
      (auto simp: set_client_def applied_ids_def resume_def split: option.splits)
qed

lemma clerks_ok_start_get:
  assumes "clerks_ok P knows s" and "i < length (clients s)" and "phase (clients s ! i) = Ready"
    and "act P (prg (clients s ! i)) = ActGet key"
  shows "clerks_ok P knows (start_get i key s)"
  using assms client_holds[OF assms(1,2)] unfolding start_get_def Let_def
  by (intro clerks_ok_client[OF assms(1,2)]) (auto simp: set_client_def applied_ids_def client_ok_def)

lemma clerks_ok_answer_get:
  assumes "clerks_ok P knows s" and "i < length (clients s)" and "phase (clients s ! i) = Reading key"
  shows "clerks_ok P knows (answer_get i key s)"
proof -
  have "grVersion (Get \<lparr>gKey = key\<rparr> (kvs s)) \<le> ver (kvs s) key"
    by (auto simp: Get_def ver_def2 split: option.splits)
  with assms client_holds[OF assms(1,2)] show ?thesis unfolding answer_get_def Let_def
    by (intro clerks_ok_client[OF assms(1,2)]) (auto simp: set_client_def applied_ids_def client_ok_def)
qed

lemma clerks_ok_finish_get:
  assumes "clerks_ok P knows s" and "i < length (clients s)" and "phase (clients s ! i) = Got key r"
  shows "clerks_ok P knows (finish_get P i key r s)"
proof -
  have c: "knows (kvs s) (prg (clients s ! i))" "act P (prg (clients s ! i)) = ActGet key" "grVersion r \<le> ver (kvs s) key"
    using client_holds[OF assms(1,2)] assms(3) by (auto simp: client_ok_def)
  have "client_ok P knows (kvs s) (requests s) (applied_ids s) i (resume (got P r (prg (clients s ! i))) (clients s ! i))"
    using c knows_got[OF c] by (intro client_ok_resume)
  with assms(3) show ?thesis unfolding finish_get_def Let_def
    by (intro clerks_ok_client[OF assms(1,2)])
      (auto simp: set_client_def applied_ids_def resume_def split: option.splits)
qed

lemma clerks_ok_start_put:
  assumes ok: "clerks_ok P knows s" and i: "i < length (clients s)" and ph: "phase (clients s ! i) = Ready"
    and a: "act P (prg (clients s ! i)) = ActPut a"
  shows "clerks_ok P knows (start_put i a s)"
proof -
  let ?c = "(clients s ! i)\<lparr>phase := Putting a 0, opn := Suc (opn (clients s ! i)), started := now s\<rparr>"
  have cl: "clerks P knows (kvs s) (clients s) (requests s) (replies s) (applied_ids s)"
    using ok by (simp add: clerks_ok_def)
  have keys: "(i, Suc (opn (clients s ! i)), 0) \<notin> fst ` set (requests s) \<union> fst ` set (replies s)"
    using clerks_keys(1)[OF cl, of i "Suc (opn (clients s ! i))" 0] by auto
  have ids: "(i, Suc (opn (clients s ! i))) \<notin> applied_ids s" using inv_ids[OF ok] by fastforce
  have c: "client_ok P knows (kvs s) (requests s) (applied_ids s) i ?c"
    using client_holds[OF ok i] ph a knows_put ids by (auto simp: client_ok_def)
  have "clerks_ok P knows (set_client i ?c s)"
    using ph c by (intro clerks_ok_client[OF ok i]) (auto simp: set_client_def applied_ids_def)
  then have "clerks P knows (kvs s) ((clients s)[i := ?c]) (requests s) (replies s) (applied_ids s)"
    by (simp add: clerks_ok_def set_client_def applied_ids_def)
  then have "clerks P knows (kvs s) ((clients s)[i := ?c])
      (requests s @ [((i, opn ((clients s)[i := ?c] ! i), 0), a)]) (replies s) (applied_ids s)"
    using i keys ids by (intro clerks_send) simp_all
  with i show ?thesis by (simp add: clerks_ok_def start_put_def Let_def set_client_def applied_ids_def)
qed

lemma clerks_ok_retry_put:
  assumes ok: "clerks_ok P knows s" and i: "i < length (clients s)" and ph: "phase (clients s ! i) = Putting a R"
  shows "clerks_ok P knows (retry_put i a R s)"
proof -
  let ?c = "(clients s ! i)\<lparr>phase := Putting a (Suc R)\<rparr>" and ?cs = "(clients s)[i := (clients s ! i)\<lparr>phase := Putting a (Suc R)\<rparr>]"
  have cl: "clerks P knows (kvs s) (clients s) (requests s) (replies s) (applied_ids s)"
    using ok by (simp add: clerks_ok_def)
  have "request_ok (kvs s) ?cs q" if q: "q \<in> set (requests s)" for q
  proof -
    obtain j k r b where [simp]: "q = ((j, k, r), b)" by (metis prod.exhaust)
    have "request_ok (kvs s) (clients s) q" using cl q by (auto simp: clerks_def)
    with i ph show ?thesis by (cases "j = i") (auto simp: request_ok_def)
  qed
  moreover have "reply_ok (kvs s) ?cs (applied_ids s) q" if q: "q \<in> set (replies s)" for q
  proof -
    obtain j k r e where [simp]: "q = ((j, k, r), e)" by (metis prod.exhaust)
    have "reply_ok (kvs s) (clients s) (applied_ids s) q" using cl q by (auto simp: clerks_def)
    with i ph show ?thesis by (cases "j = i") (auto simp: reply_ok_def)
  qed
  moreover have "client_ok P knows (kvs s) (requests s) (applied_ids s) j (?cs ! j)" if "j < length (clients s)" for j
    using cl that i ph by (cases "j = i") (auto simp: clerks_def client_ok_def)
  ultimately have "clerks P knows (kvs s) ?cs (requests s) (replies s) (applied_ids s)"
    using cl i by (auto simp: clerks_def nth_list_update split: if_splits)
  moreover have "(i, opn (clients s ! i), Suc R) \<notin> fst ` set (requests s) \<union> fst ` set (replies s)"
    using clerks_keys(2)[OF cl, of i "opn (clients s ! i)" "Suc R"] ph by auto
  ultimately have "clerks P knows (kvs s) ?cs (requests s @ [((i, opn (?cs ! i), Suc R), a)]) (replies s) (applied_ids s)"
    using i by (intro clerks_send) simp_all
  with i show ?thesis by (simp add: clerks_ok_def retry_put_def Let_def set_client_def applied_ids_def)
qed

lemma serve_put_cases:
  assumes ok: "clerks_ok P knows s" and n: "n < length (requests s)" and room: "room (kvs s)"
    and q: "requests s ! n = ((i, k, r), a)"
  obtains (stale) "stale (kvs s) a" and
      "serve_put n s = s\<lparr>requests := remove_nth n (requests s), replies := replies s @ [((i, k, r), ErrVersion)],
         nserved := Suc (nserved s)\<rparr>"
  | (current) R where "\<not> stale (kvs s) a" and "ver (kvs s) (pKey a) = pVersion a" and "phase (clients s ! i) = Putting a R"
      and "k = opn (clients s ! i)" and "i < length (clients s)" and "(i, k) \<notin> applied_ids s"
      and "prErr (snd (Put a (kvs s))) = OK" and "KvClients.stale (fst (Put a (kvs s))) a"
      and "serve_put n s = s\<lparr>kvs := fst (Put a (kvs s)), requests := remove_nth n (requests s),
         replies := replies s @ [((i, k, r), OK)],
         lin := lin s @ [\<lparr>lid = (i, k), ltime = now s, linp = put_input a, leff = EApplied\<rparr>],
         nserved := Suc (nserved s)\<rparr>"
proof -
  have cl: "clerks P knows (kvs s) (clients s) (requests s) (replies s) (applied_ids s)"
    using ok by (simp add: clerks_ok_def)
  have "((i, k, r), a) \<in> set (requests s)" using n q nth_mem by metis
  with cl show ?thesis
  proof (cases rule: request_cases)
    case stale
    then have "Put a (kvs s) = (kvs s, \<lparr>prErr = ErrVersion\<rparr>)" using Put_stale[of a "kvs s"]
      by (auto simp: KvClients.stale_def prod_eq_iff)
    with q stale that(1) show ?thesis by (simp add: serve_put_def)
  next
    case (current R)
    note put = Put_current[OF room current(2)]
    have "serve_put n s = s\<lparr>kvs := fst (Put a (kvs s)), requests := remove_nth n (requests s),
         replies := replies s @ [((i, k, r), OK)],
         lin := lin s @ [\<lparr>lid = (i, k), ltime = now s, linp = put_input a, leff = EApplied\<rparr>],
         nserved := Suc (nserved s)\<rparr>"
      using q put(1) by (simp add: serve_put_def case_prod_beta Let_def)
    with that(2) current put show ?thesis by auto
  qed
qed

lemma clerks_ok_serve_put:
  assumes ok: "clerks_ok P knows s" and n: "n < length (requests s)" and room: "room (kvs s)"
  shows "clerks_ok P knows (serve_put n s)"
proof -
  obtain i k r a where q: "requests s ! n = ((i, k, r), a)" by (metis prod.exhaust)
  have cl: "clerks P knows (kvs s) (clients s) (requests s) (replies s) (applied_ids s)"
    using ok by (simp add: clerks_ok_def)
  from ok n room q show ?thesis
  proof (cases rule: serve_put_cases)
    case stale
    with clerks_reply_stale[OF cl n q] show ?thesis by (simp add: clerks_ok_def applied_ids_def)
  next
    case (current R)
    with clerks_apply[OF cl n q current(1,3,4) Put_advances[OF room] current(8)] knows_mono Put_advances[OF room]
    have "clerks P knows (fst (Put a (kvs s))) (clients s) (remove_nth n (requests s)) (replies s @ [((i, k, r), OK)])
        (insert (i, k) (applied_ids s))" by blast
    with current(9) show ?thesis by (simp add: clerks_ok_def applied_ids_def)
  qed
qed

text \<open>What a clerk that returns knows about its operation.\<close>

lemma finish_put_facts:
  assumes ok: "clerks_ok P knows s" and i: "i < length (clients s)" and ph: "phase (clients s ! i) = Putting a R"
    and rep: "((i, opn (clients s ! i), r), err) \<in> set (replies s)"
  shows "stale (kvs s) a" and "r \<le> R"
    and "err = OK \<and> (i, opn (clients s ! i)) \<in> applied_ids s \<or> err = ErrVersion \<and> (R = 0 \<longrightarrow> (i, opn (clients s ! i)) \<notin> applied_ids s)"
    and "knows (kvs s) (prg (clients s ! i))" and "act P (prg (clients s ! i)) = ActPut a"
proof -
  have "reply_ok (kvs s) (clients s) (applied_ids s) ((i, opn (clients s ! i), r), err)"
    using ok rep by (auto simp: clerks_ok_def clerks_def)
  with ph show "stale (kvs s) a" "r \<le> R"
      "err = OK \<and> (i, opn (clients s ! i)) \<in> applied_ids s \<or> err = ErrVersion \<and> (R = 0 \<longrightarrow> (i, opn (clients s ! i)) \<notin> applied_ids s)"
    unfolding reply_ok_def prod.case by blast+
  show "knows (kvs s) (prg (clients s ! i))" "act P (prg (clients s ! i)) = ActPut a"
    using client_holds[OF ok i] ph by (auto simp: client_ok_def)
qed

lemma clerks_ok_finish_put:
  assumes ok: "clerks_ok P knows s" and i: "i < length (clients s)" and ph: "phase (clients s ! i) = Putting a R"
    and rep: "((i, opn (clients s ! i), r), err) \<in> set (replies s)"
  shows "clerks_ok P knows (finish_put P i a e s)"
proof -
  note f = finish_put_facts[OF ok i ph rep]
  have cl: "clerks P knows (kvs s) (clients s) (requests s) (replies s) (applied_ids s)"
    using ok by (simp add: clerks_ok_def)
  have st: "stale (kvs s) b" if "((i, k, r'), b) \<in> set (requests s)" for k r' b
    using request_cases[OF cl that] ph f(1) by (metis phase.inject(3))
  have "knows (kvs s) q" if "put_done P e (prg (clients s ! i)) = Some q" for q
    using knows_done[OF f(4,5)] f(1) that by (auto simp: stale_def)
  with f(4) have c: "client_ok P knows (kvs s) (requests s) ids i (resume (put_done P e (prg (clients s ! i))) (clients s ! i))" for ids
    by (intro client_ok_resume)
  show ?thesis
  proof (rule clerks_ok_client[OF ok i])
    let ?c = "resume (put_done P e (prg (clients s ! i))) (clients s ! i)"
    have [simp]: "opn ?c = opn (clients s ! i)" "\<not> putting (phase ?c)" by (auto simp: resume_def split: option.splits)
    show "applied_ids s \<subseteq> applied_ids (finish_put P i a e s)"
        "applied_ids (finish_put P i a e s) \<subseteq> insert (i, opn ?c) (applied_ids s)"
      by (auto simp: finish_put_def Let_def set_client_def applied_ids_def)
    show "clients (finish_put P i a e s) = (clients s)[i := ?c]" "kvs (finish_put P i a e s) = kvs s"
        "requests (finish_put P i a e s) = requests s" "replies (finish_put P i a e s) = replies s"
      by (simp_all add: finish_put_def Let_def set_client_def)
    show "opn (clients s ! i) \<le> opn ?c" "putting (phase ?c) \<longrightarrow> opn (clients s ! i) < opn ?c" by simp_all
    show "client_ok P knows (kvs s) (requests s) (applied_ids (finish_put P i a e s)) i ?c" by (rule c)
  qed (use st in blast)
qed

lemma clerks_ok_exec:
  assumes ok: "clerks_ok P knows s" and e: "cexec P e s = Some t" and room: "room (kvs s)"
  shows "clerks_ok P knows t"
  using e
proof (cases rule: cexec_cases)
  case (tick d)
  with ok show ?thesis by (simp add: clerks_ok_def applied_ids_def)
next
  case (lose n m)
  have cl: "clerks P knows (kvs s) (clients s) (requests s) (replies s) (applied_ids s)"
    using ok by (simp add: clerks_ok_def)
  have "distinct (map fst (remove_nth n (requests s)) @ map fst (remove_nth m (replies s)))"
  proof -
    have d: "distinct (map fst (requests s))" "distinct (map fst (replies s))"
      "fst ` set (requests s) \<inter> fst ` set (replies s) = {}" using cl by (auto simp: clerks_def)
    have "fst ` set (remove_nth n (requests s)) \<inter> fst ` set (remove_nth m (replies s)) = {}"
      using d(3) image_mono[OF remove_nth_subset, of fst n "requests s"]
        image_mono[OF remove_nth_subset, of fst m "replies s"] by blast
    with remove_nth_distinct[OF d(1)] remove_nth_distinct[OF d(2)] show ?thesis by simp
  qed
  with lose clerks_subset[OF cl remove_nth_subset remove_nth_subset] show ?thesis
    by (simp add: clerks_ok_def applied_ids_def)
next
  case (poll i inp)
  then show ?thesis using clerks_ok_poll[OF ok] by simp
next
  case (start_get i key)
  then show ?thesis using clerks_ok_start_get[OF ok] by simp
next
  case (start_put i a)
  then show ?thesis using clerks_ok_start_put[OF ok] by simp
next
  case (answer_get i key)
  then show ?thesis using clerks_ok_answer_get[OF ok] by simp
next
  case (finish_get i key r)
  then show ?thesis using clerks_ok_finish_get[OF ok] by simp
next
  case (retry_put i a r)
  then show ?thesis using clerks_ok_retry_put[OF ok] by simp
next
  case (serve_put n)
  then show ?thesis using clerks_ok_serve_put[OF ok _ room] by simp
next
  case (finish_put i a r err)
  then show ?thesis using clerks_ok_finish_put[OF ok] by simp
qed

text \<open>What a step does to the server, the clients and the operations that took effect.\<close>

lemma client_cases:
  assumes ok: "clerks_ok P knows s" and room: "room (kvs s)" and e: "cexec P e s = Some t"
  obtains (other) "kvs t = kvs s" "clients t = clients s" "applied_ids t = applied_ids s" "retried t = retried s"
      "oplog t = oplog s"
  | (poll) i inp where "i < length (clients s)" "phase (clients s ! i) = Ready" "knows (kvs s) (prg (clients s ! i))"
      "act P (prg (clients s ! i)) = ActPoll" "kvs t = kvs s"
      "clients t = (clients s)[i := resume (polled P inp (prg (clients s ! i))) (clients s ! i)]"
      "applied_ids t = applied_ids s" "retried t = retried s" "oplog t = oplog s"
  | (start) i ph where "i < length (clients s)" "phase (clients s ! i) = Ready" "kvs t = kvs s"
      "(\<exists>key. act P (prg (clients s ! i)) = ActGet key \<and> ph = Reading key)
       \<or> (\<exists>a. act P (prg (clients s ! i)) = ActPut a \<and> ph = Putting a 0)"
      "clients t = (clients s)[i := (clients s ! i)\<lparr>phase := ph, opn := Suc (opn (clients s ! i)), started := now s\<rparr>]"
      "(i, Suc (opn (clients s ! i))) \<notin> applied_ids s"
      "applied_ids t = applied_ids s" "retried t = retried s" "oplog t = oplog s"
  | (answer) i key where "i < length (clients s)" "phase (clients s ! i) = Reading key" "kvs t = kvs s"
      "act P (prg (clients s ! i)) = ActGet key" "knows (kvs s) (prg (clients s ! i))"
      "clients t = (clients s)[i := (clients s ! i)\<lparr>phase := Got key (Get \<lparr>gKey = key\<rparr> (kvs s))\<rparr>]"
      "applied_ids t = insert (i, opn (clients s ! i)) (applied_ids s)" "retried t = retried s" "oplog t = oplog s"
  | (got) i key r where "i < length (clients s)" "phase (clients s ! i) = Got key r" "kvs t = kvs s"
      "act P (prg (clients s ! i)) = ActGet key" "knows (kvs s) (prg (clients s ! i))" "grVersion r \<le> ver (kvs s) key"
      "clients t = (clients s)[i := resume (got P r (prg (clients s ! i))) (clients s ! i)]"
      "applied_ids t = applied_ids s" "retried t = retried s" "length (oplog t) = Suc (length (oplog s))"
  | (retry) i a R where "i < length (clients s)" "phase (clients s ! i) = Putting a R" "kvs t = kvs s"
      "clients t = (clients s)[i := (clients s ! i)\<lparr>phase := Putting a (Suc R)\<rparr>]"
      "applied_ids t = applied_ids s" "retried t" "oplog t = oplog s"
  | (served) i a R where "i < length (clients s)" "phase (clients s ! i) = Putting a R"
      "act P (prg (clients s ! i)) = ActPut a" "ver (kvs s) (pKey a) = pVersion a"
      "(i, opn (clients s ! i)) \<notin> applied_ids s" "prErr (snd (Put a (kvs s))) = OK"
      "kvs t = fst (Put a (kvs s))" "clients t = clients s"
      "applied_ids t = insert (i, opn (clients s ! i)) (applied_ids s)" "retried t = retried s" "oplog t = oplog s"
  | (returned) i a R err where "i < length (clients s)" "phase (clients s ! i) = Putting a R" "kvs t = kvs s"
      "act P (prg (clients s ! i)) = ActPut a" "knows (kvs s) (prg (clients s ! i))" "stale (kvs s) a"
      "err = OK \<and> (i, opn (clients s ! i)) \<in> applied_ids s
       \<or> err = ErrVersion \<and> (i, opn (clients s ! i)) \<notin> applied_ids s \<or> err = ErrMaybe \<and> R > 0"
      "clients t = (clients s)[i := resume (put_done P err (prg (clients s ! i))) (clients s ! i)]"
      "applied_ids t = insert (i, opn (clients s ! i)) (applied_ids s)" "retried t = retried s"
      "length (oplog t) = Suc (length (oplog s))"
  using e
proof (cases rule: cexec_cases)
  case (poll i inp)
  then show ?thesis using client_holds[OF ok poll(1)]
    by (intro that(2)[of i inp]) (simp_all add: client_ok_def set_client_def applied_ids_def)
next
  case (start_get i key)
  then show ?thesis using inv_ids[OF ok, of i "Suc (opn (clients s ! i))"]
    by (intro that(3)[of i "Reading key"]) (auto simp: start_get_def Let_def set_client_def applied_ids_def)
next
  case (start_put i a)
  then show ?thesis using inv_ids[OF ok, of i "Suc (opn (clients s ! i))"]
    by (intro that(3)[of i "Putting a 0"]) (auto simp: start_put_def Let_def set_client_def applied_ids_def)
next
  case (answer_get i key)
  then show ?thesis using client_holds[OF ok answer_get(1)]
    by (intro that(4)[of i key]) (simp_all add: client_ok_def answer_get_def Let_def set_client_def applied_ids_def)
next
  case (finish_get i key r)
  then show ?thesis using client_holds[OF ok finish_get(1)]
    by (intro that(5)[of i key r]) (simp_all add: client_ok_def finish_get_def Let_def set_client_def applied_ids_def)
next
  case (retry_put i a r)
  then show ?thesis by (intro that(6)[of i a r]) (simp_all add: retry_put_def Let_def set_client_def applied_ids_def)
next
  case (serve_put n)
  obtain i k r a where q: "requests s ! n = ((i, k, r), a)" by (metis prod.exhaust)
  from ok serve_put(1) room q show ?thesis
  proof (cases rule: serve_put_cases)
    case stale
    with serve_put(2) show ?thesis by (intro that(1)) (simp_all add: applied_ids_def)
  next
    case (current R)
    then show ?thesis using client_holds[OF ok current(5)] serve_put(2)
      by (intro that(7)[of i a R]) (simp_all add: client_ok_def applied_ids_def)
  qed
next
  case (finish_put i a r err)
  note f = finish_put_facts[OF ok finish_put(1,2,3)]
  have "Put_result r err = OK \<and> (i, opn (clients s ! i)) \<in> applied_ids s
      \<or> Put_result r err = ErrVersion \<and> (i, opn (clients s ! i)) \<notin> applied_ids s \<or> Put_result r err = ErrMaybe \<and> r > 0"
    using f(3) by (auto simp: Put_result_def)
  moreover have "applied_ids t = insert (i, opn (clients s ! i)) (applied_ids s)"
    unfolding finish_put(4) by (force simp: finish_put_def Let_def set_client_def applied_ids_def applied_def)
  ultimately show ?thesis using finish_put f
    by (intro that(8)[of i a r "Put_result r err"]) (simp_all add: finish_put_def Let_def set_client_def)
qed (intro that(1), simp_all add: applied_ids_def)+

end

text \<open>The versions stay below their wrap-around as long as fewer than \<open>2 ^ 63\<close> requests were served.\<close>

definition counted :: "'p csys \<Rightarrow> bool" where
  "counted s \<longleftrightarrow> (\<forall>k. unat (ver (kvs s) k) \<le> Suc (nserved s))"

lemma counted_room: "counted s \<Longrightarrow> nserved s < 2 ^ 63 \<Longrightarrow> room (kvs s)"
proof (unfold room_def, intro allI)
  fix k assume c: "counted s" and n: "nserved s < 2 ^ 63"
  have "unat (ver (kvs s) k) \<le> Suc (nserved s)" using c by (simp add: counted_def)
  with n show "unat (ver (kvs s) k) + 1 < 2 ^ 64" by simp
qed

lemma cexec_served:
  assumes "cexec P e s = Some t"
  shows "nserved s \<le> nserved t" and "(\<And>n. e \<noteq> CServe n) \<Longrightarrow> kvs t = kvs s"
proof -
  show "nserved s \<le> nserved t" using assms
    by (cases rule: cexec_cases) (auto simp: set_client_def start_get_def start_put_def answer_get_def finish_get_def
        retry_put_def finish_put_def serve_put_def Let_def split: prod.splits)
  show "kvs t = kvs s" if "\<And>n. e \<noteq> CServe n" using assms that
    by (cases e) (auto simp: set_client_def start_get_def start_put_def answer_get_def finish_get_def
        retry_put_def finish_put_def Let_def split: prod.splits if_splits action.splits phase.splits)
qed

lemma counted_exec:
  assumes "cexec P e s = Some t" and "counted s" and "nserved s < 2 ^ 63"
  shows "counted t"
proof (cases "\<exists>n. e = CServe n")
  case True
  then obtain n where n: "n < length (requests s)" "t = serve_put n s" using assms(1) by (auto split: if_splits)
  obtain x a where q: "requests s ! n = (x, a)" by fastforce
  have t: "kvs t = fst (Put a (kvs s))" "nserved t = Suc (nserved s)"
    using n q by (auto simp: serve_put_def Let_def case_prod_beta)
  have "room (kvs s)" using counted_room assms(2,3) by blast
  then have "unat (ver (kvs t) k) \<le> unat (ver (kvs s) k) + 1" for k
    using Put_ver(2)[of "kvs s" k a] unfolding t room_def by blast
  moreover have "unat (ver (kvs s) k) \<le> Suc (nserved s)" for k using assms(2) by (simp add: counted_def)
  ultimately have "unat (ver (kvs t) k) \<le> Suc (nserved t)" for k using t(2) by (metis Suc_eq_plus1 Suc_le_mono order_trans)
  then show ?thesis by (simp add: counted_def)
next
  case False
  with cexec_served[OF assms(1)] have "kvs t = kvs s" "nserved s \<le> nserved t" by auto
  with assms(2) show ?thesis unfolding counted_def by (metis Suc_le_mono order_trans)
qed

end
