(* ===== verification/KvLinear.thy ===== *)
theory KvLinear
  imports KvClients
begin

text \<open>
  Linearizability of the key/value server as its clients see it: the operations that the test harness
  logs, with the times of their calls and returns, can be put into one order that respects these times
  and that the reference model of the checker (\<^verbatim>\<open>models1/kv.go\<close>) accepts, key by key.

  A Get takes effect when the server answers it, a Put that is applied when it is applied, and a Put that
  is not applied when it returns: the server is then past its version for good.
\<close>

section \<open>The specification\<close>

definition io :: "KvInput \<times> opinfo \<Rightarrow> Operation" where
  "io op = (fst op, opOut (snd op))"

text \<open>Neither order of two operations contradicts their times unless one returned before the other began.\<close>

definition linearizable :: "(KvInput \<times> opinfo) list \<Rightarrow> bool" where
  "linearizable h \<longleftrightarrow>
     (\<exists>h'. mset h' = mset h \<and> sorted_wrt (\<lambda>x y. \<not> opReturn (snd y) < opCall (snd x)) h'
        \<and> accepts KvModel_Init (map io h'))"

text \<open>What \<^verbatim>\<open>porcupine.CheckOperations\<close> decides: every part of the partition is linearizable.\<close>

definition CheckOperations :: "(KvInput \<times> opinfo) list \<Rightarrow> bool" where
  "CheckOperations h \<longleftrightarrow> (\<forall>part \<in> set (KvModel_Partition h). linearizable part)"

section \<open>Effects in order\<close>

definition args_of :: "KvInput \<Rightarrow> PutArgs" where
  "args_of inp = \<lparr>pKey = kiKey inp, pValue = kiValue inp, pVersion = kiVersion inp\<rparr>"

lemma args_of_put [simp]: "args_of (put_input a) = a"
  by (simp add: args_of_def put_input_def)

definition lin_step :: "lop \<Rightarrow> KVServer \<Rightarrow> KVServer option" where
  "lin_step l kv =
     (case leff l of
        EGet r \<Rightarrow> if kiOp (linp l) = 0 \<and> Get \<lparr>gKey = kiKey (linp l)\<rparr> kv = r then Some kv else None
      | EApplied \<Rightarrow> if kiOp (linp l) = 1 \<and> prErr (snd (Put (args_of (linp l)) kv)) = OK
                    then Some (fst (Put (args_of (linp l)) kv)) else None
      | ERefused \<Rightarrow> if kiOp (linp l) = 1 \<and> ver kv (kiKey (linp l)) \<noteq> kiVersion (linp l) then Some kv else None)"

fun lin_run :: "lop list \<Rightarrow> KVServer \<Rightarrow> KVServer option" where
  "lin_run [] kv = Some kv"
| "lin_run (l # ls) kv = do { kv' \<leftarrow> lin_step l kv; lin_run ls kv' }"

lemma lin_run_snoc: "lin_run (ls @ [l]) kv = do { kv' \<leftarrow> lin_run ls kv; lin_step l kv' }"
  by (induction ls arbitrary: kv) (auto split: bind_splits)

fun matches :: "effect \<Rightarrow> KvOutput \<Rightarrow> bool" where
  "matches (EGet r) out \<longleftrightarrow> koValue out = grValue r"
| "matches EApplied out \<longleftrightarrow> koErr out = OK \<or> koErr out = ErrMaybe"
| "matches ERefused out \<longleftrightarrow> koErr out = ErrVersion \<or> koErr out = ErrMaybe"

lemma lin_step_model:
  assumes "lin_step l kv = Some kv'" and "matches (leff l) out"
  shows "KvModel_Step (kv_abs kv (kiKey (linp l))) (linp l) out = (True, Some (kv_abs kv' (kiKey (linp l))))"
    and "k \<noteq> kiKey (linp l) \<Longrightarrow> kv_abs kv' k = kv_abs kv k"
  using assms
  by (auto simp: lin_step_def KvModel_Step_def kv_abs_def Get_def Put_def args_of_def ver_def2
      split: effect.splits if_split_asm option.splits)

lemma lin_accepted:
  assumes "lin_run ls kv = Some kv'" and "\<forall>l \<in> set ls. matches (leff l) (out l)"
  shows "accepts (kv_abs kv k) (map (\<lambda>l. (linp l, out l)) (filter (\<lambda>l. kiKey (linp l) = k) ls))"
  using assms
proof (induction ls arbitrary: kv)
  case (Cons l ls)
  then obtain kv1 where kv1: "lin_step l kv = Some kv1" "lin_run ls kv1 = Some kv'" by (auto simp: bind_Some_iff)
  have IH: "accepts (kv_abs kv1 k) (map (\<lambda>l. (linp l, out l)) (filter (\<lambda>l. kiKey (linp l) = k) ls))"
    using Cons.IH[OF kv1(2)] Cons.prems(2) by simp
  have m: "matches (leff l) (out l)" using Cons.prems(2) by simp
  show ?case
  proof (cases "kiKey (linp l) = k")
    case True
    with lin_step_model(1)[OF kv1(1) m] IH show ?thesis by simp
  next
    case False
    with lin_step_model(2)[OF kv1(1) m, of k] IH show ?thesis by simp
  qed
qed simp

section \<open>The invariant\<close>

definition lop_ok :: "'p client list \<Rightarrow> (nat \<times> nat) set \<Rightarrow> lop \<Rightarrow> bool" where
  "lop_ok cs logged l =
     (case lid l of (i, k) \<Rightarrow>
        i < length cs \<and> k \<le> opn (cs ! i)
        \<and> (k \<noteq> opn (cs ! i) \<longrightarrow> (i, k) \<in> logged)
        \<and> (k = opn (cs ! i) \<longrightarrow>
             (case phase (cs ! i) of
                Reading key \<Rightarrow> False
              | Got key r \<Rightarrow> linp l = get_input key \<and> leff l = EGet r \<and> started (cs ! i) \<le> ltime l
              | Putting a R \<Rightarrow> linp l = put_input a \<and> leff l = EApplied \<and> started (cs ! i) \<le> ltime l
              | _ \<Rightarrow> (i, k) \<in> logged)))"

definition busy :: "phase \<Rightarrow> bool" where
  "busy p \<longleftrightarrow> p \<noteq> Ready \<and> p \<noteq> Failed"

definition logged_ok :: "'p client list \<Rightarrow> lop list \<Rightarrow> (nat \<times> nat) \<times> KvInput \<times> opinfo \<Rightarrow> bool" where
  "logged_ok cs ls e =
     (case e of ((i, k), inp, info) \<Rightarrow>
        i < length cs \<and> k \<le> opn (cs ! i) \<and> (busy (phase (cs ! i)) \<longrightarrow> k \<noteq> opn (cs ! i))
        \<and> (\<exists>l \<in> set ls. lid l = (i, k) \<and> linp l = inp \<and> opCall info \<le> ltime l \<and> ltime l \<le> opReturn info
             \<and> matches (leff l) (opOut info)))"

definition clock_ok :: "nat \<Rightarrow> (nat \<times> nat) set \<Rightarrow> nat \<Rightarrow> 'p client \<Rightarrow> bool" where
  "clock_ok t ids i c \<longleftrightarrow> started c \<le> t \<and> (\<forall>key r. phase c = Got key r \<longrightarrow> (i, opn c) \<in> ids)"

lemma clock_ok_mono: "clock_ok t ids i c \<Longrightarrow> t \<le> t' \<Longrightarrow> ids \<subseteq> ids' \<Longrightarrow> clock_ok t' ids' i c"
  by (auto simp: clock_ok_def)

definition history :: "KVServer \<Rightarrow> 'p csys \<Rightarrow> bool" where
  "history kv0 s \<longleftrightarrow>
     lin_run (lin s) kv0 = Some (kvs s)
     \<and> sorted (map ltime (lin s)) \<and> (\<forall>l \<in> set (lin s). ltime l \<le> now s)
     \<and> distinct (map lid (lin s)) \<and> distinct (map fst (oplog s))
     \<and> (\<forall>l \<in> set (lin s). lop_ok (clients s) (fst ` set (oplog s)) l)
     \<and> (\<forall>e \<in> set (oplog s). logged_ok (clients s) (lin s) e)
     \<and> (\<forall>i < length (clients s). clock_ok (now s) (lid ` set (lin s)) i (clients s ! i))"

lemma history_clock: "history kv0 s \<Longrightarrow> i < length (clients s) \<Longrightarrow> clock_ok (now s) (lid ` set (lin s)) i (clients s ! i)"
  by (simp add: history_def)


lemma lop_ok_other:
  assumes "lop_ok cs logged l" and "fst (lid l) \<noteq> i" and "logged \<subseteq> logged'"
  shows "lop_ok (cs[i := c]) logged' l"
  using assms by (auto simp: lop_ok_def split: phase.splits prod.splits)

lemma logged_ok_other:
  assumes "logged_ok cs ls e" and "fst (fst e) \<noteq> i" and "set ls \<subseteq> set ls'"
  shows "logged_ok (cs[i := c]) ls' e"
  using assms unfolding logged_ok_def by (auto split: prod.splits)

lemma logged_ok_same:
  assumes "logged_ok cs ls e" and "i < length cs" and "opn (cs ! i) \<le> opn c"
    and "busy (phase c) \<longrightarrow> busy (phase (cs ! i)) \<or> opn (cs ! i) < opn c" and "set ls \<subseteq> set ls'"
  shows "logged_ok (cs[i := c]) ls' e"
proof (cases "fst (fst e) = i")
  case True
  then obtain k inp info where e: "e = ((i, k), inp, info)" by (metis prod.exhaust fst_conv)
  with assms show ?thesis unfolding logged_ok_def by (auto simp: e)
next
  case False
  with assms(1,5) show ?thesis by (intro logged_ok_other)
qed

lemma history_client:
  assumes h: "history kv0 s" and i: "i < length (clients s)"
    and c: "opn c = Suc (opn (clients s ! i)) \<and> \<not> busy (phase (clients s ! i)) \<and> started c = now s
              \<and> (\<forall>key r. phase c \<noteq> Got key r) \<or>
            opn c = opn (clients s ! i) \<and> started c = started (clients s ! i)
              \<and> (\<not> busy (phase c) \<and> \<not> busy (phase (clients s ! i))
                 \<or> (\<exists>a R R'. phase (clients s ! i) = Putting a R \<and> phase c = Putting a R'))"
    and t: "kvs t = kvs s" "now t = now s" "lin t = lin s" "oplog t = oplog s" "clients t = (clients s)[i := c]"
  shows "history kv0 t"
proof -
  have "lop_ok ((clients s)[i := c]) (fst ` set (oplog s)) l" if l: "l \<in> set (lin s)" for l
  proof -
    have ok: "lop_ok (clients s) (fst ` set (oplog s)) l" using h l by (auto simp: history_def)
    show ?thesis
    proof (cases "fst (lid l) = i")
      case True
      then obtain k where lid: "lid l = (i, k)" by (metis prod.collapse)
      from c show ?thesis
      proof
        assume new: "opn c = Suc (opn (clients s ! i)) \<and> \<not> busy (phase (clients s ! i)) \<and> started c = now s
              \<and> (\<forall>key r. phase c \<noteq> Got key r)"
        with ok i have "(i, k) \<in> fst ` set (oplog s)" "k \<le> opn (clients s ! i)"
          by (auto simp: lop_ok_def lid busy_def split: phase.splits)
        with new i show ?thesis by (auto simp: lop_ok_def lid split: phase.splits)
      next
        assume "opn c = opn (clients s ! i) \<and> started c = started (clients s ! i)
              \<and> (\<not> busy (phase c) \<and> \<not> busy (phase (clients s ! i))
                 \<or> (\<exists>a R R'. phase (clients s ! i) = Putting a R \<and> phase c = Putting a R'))"
        with ok i show ?thesis by (auto simp: lop_ok_def lid busy_def split: phase.splits)
      qed
    qed (use ok in \<open>auto intro: lop_ok_other\<close>)
  qed
  moreover have "logged_ok ((clients s)[i := c]) (lin s) e" if "e \<in> set (oplog s)" for e
    using h that c i by (intro logged_ok_same) (auto simp: history_def busy_def)
  moreover have "clock_ok (now s) (lid ` set (lin s)) j ((clients s)[i := c] ! j)" if "j < length (clients s)" for j
    using history_clock[OF h that] c i by (cases "j = i") (auto simp: clock_ok_def busy_def)
  ultimately show ?thesis using h unfolding history_def t by simp
qed

lemma history_append:
  assumes h: "history kv0 s" and "ltime l = now s" and "lid l \<notin> lid ` set (lin s)" and "lin_step l (kvs s) = Some kv"
  shows "lin_run (lin s @ [l]) kv0 = Some kv" and "sorted (map ltime (lin s @ [l]))"
    and "\<forall>l \<in> set (lin s @ [l]). ltime l \<le> now s" and "distinct (map lid (lin s @ [l]))"
  using assms by (auto simp: history_def lin_run_snoc sorted_append)

lemma history_finish:
  assumes h: "history kv0 s" and i: "i < length (clients s)" and b: "busy (phase (clients s ! i))"
    and c: "opn c = opn (clients s ! i)" "started c = started (clients s ! i)" "\<not> busy (phase c)"
    and t: "kvs t = kvs s" "now t = now s" "clients t = (clients s)[i := c]"
      "oplog t = oplog s @ [((i, opn (clients s ! i)), op)]"
    and ls: "lin t = lin s \<or> (\<exists>l. lin t = lin s @ [l] \<and> lid l = (i, opn (clients s ! i)) \<and> lid l \<notin> lid ` set (lin s)
        \<and> ltime l = now s \<and> lin_step l (kvs s) = Some (kvs s))"
    and op: "\<exists>l \<in> set (lin t). lid l = (i, opn (clients s ! i)) \<and> linp l = fst op \<and> opCall (snd op) \<le> ltime l
        \<and> ltime l \<le> opReturn (snd op) \<and> matches (leff l) (opOut (snd op))"
  shows "history kv0 t"
proof -
  let ?x = "(i, opn (clients s ! i))" and ?cs = "(clients s)[i := c]"
  let ?done = "insert ?x (fst ` set (oplog s))"
  have run: "lin_run (lin t) kv0 = Some (kvs s)" "sorted (map ltime (lin t))" "\<forall>l \<in> set (lin t). ltime l \<le> now s"
    "distinct (map lid (lin t))"
    using ls h history_append[OF h] by (auto simp: history_def)
  have sub: "set (lin s) \<subseteq> set (lin t)" using ls by auto
  have "lop_ok ?cs ?done l" if l: "l \<in> set (lin t)" for l
  proof (cases "lid l = ?x")
    case True
    with i c show ?thesis by (auto simp: lop_ok_def busy_def split: phase.splits)
  next
    case False
    then have "l \<in> set (lin s)" using l ls by auto
    then have ok: "lop_ok (clients s) (fst ` set (oplog s)) l" using h by (auto simp: history_def)
    show ?thesis
    proof (cases "fst (lid l) = i")
      case True
      then obtain k where lid: "lid l = (i, k)" by (metis prod.collapse)
      with ok False i c(1) show ?thesis by (auto simp: lop_ok_def)
    qed (use ok in \<open>auto intro: lop_ok_other\<close>)
  qed
  moreover have "logged_ok ?cs (lin t) e" if "e \<in> set (oplog s)" for e
    using h that c i sub by (intro logged_ok_same) (auto simp: history_def)
  moreover have "logged_ok ?cs (lin t) (?x, op)"
    using i c op unfolding logged_ok_def by (auto simp: case_prod_beta)
  moreover have "?x \<notin> fst ` set (oplog s)"
  proof
    assume "?x \<in> fst ` set (oplog s)"
    then obtain e where "(?x, e) \<in> set (oplog s)" by auto
    then have "logged_ok (clients s) (lin s) (?x, e)" using h by (auto simp: history_def)
    with b show False by (auto simp: logged_ok_def case_prod_beta)
  qed
  moreover have "clock_ok (now s) (lid ` set (lin t)) j (?cs ! j)" if "j < length (clients s)" for j
    using clock_ok_mono[OF history_clock[OF h that] order_refl image_mono[OF sub]] c i
    by (cases "j = i") (auto simp: clock_ok_def busy_def)
  ultimately show ?thesis using h run unfolding history_def t by auto
qed


text \<open>An effect of the operation in progress, of a Get or of a Put.\<close>

lemma history_effect:
  assumes h: "history kv0 s" and i: "i < length (clients s)"
    and c: "opn c = opn (clients s ! i)" "started c = started (clients s ! i)" "busy (phase (clients s ! i))" "busy (phase c)"
    and l: "lid l = (i, opn (clients s ! i))" "ltime l = now s" "lid l \<notin> lid ` set (lin s)"
      "lin_step l (kvs s) = Some kv"
    and ok: "(\<exists>key r. phase c = Got key r \<and> linp l = get_input key \<and> leff l = EGet r) \<or>
             (\<exists>a R. phase c = Putting a R \<and> linp l = put_input a \<and> leff l = EApplied)"
    and t: "kvs t = kv" "now t = now s" "lin t = lin s @ [l]" "oplog t = oplog s" "clients t = (clients s)[i := c]"
  shows "history kv0 t"
proof -
  let ?cs = "(clients s)[i := c]"
  have st: "started (clients s ! i) \<le> now s" using history_clock[OF h i] by (simp add: clock_ok_def)
  have "lop_ok ?cs (fst ` set (oplog s)) l" using i c l(1,2) ok st by (auto simp: lop_ok_def)
  moreover have "lop_ok ?cs (fst ` set (oplog s)) m" if m: "m \<in> set (lin s)" for m
  proof -
    have okm: "lop_ok (clients s) (fst ` set (oplog s)) m" using h m by (auto simp: history_def)
    show ?thesis
    proof (cases "fst (lid m) = i")
      case True
      then obtain k where lid: "lid m = (i, k)" by (metis prod.collapse)
      have "k \<noteq> opn (clients s ! i)" using l(1,3) lid m by (metis imageI)
      with okm lid i c(1) show ?thesis by (auto simp: lop_ok_def)
    qed (use okm in \<open>auto intro: lop_ok_other\<close>)
  qed
  moreover have "logged_ok ?cs (lin s @ [l]) e" if "e \<in> set (oplog s)" for e
    using h that c i by (intro logged_ok_same) (auto simp: history_def)
  moreover have "clock_ok (now s) (lid ` set (lin s @ [l])) j (?cs ! j)" if "j < length (clients s)" for j
    using history_clock[OF h that] c(1,2) i l(1) by (cases "j = i") (auto simp: clock_ok_def)
  ultimately show ?thesis using h history_append[OF h l(2,3,4)] unfolding history_def t by auto
qed

context client_program
begin

lemma history_exec:
  assumes h: "history kv0 s" and ok: "clerks_ok P knows s" and e: "cexec P e s = Some t" and room: "room (kvs s)"
  shows "history kv0 t"
  using e
proof (cases rule: cexec_cases)
  case (tick d)
  with h show ?thesis unfolding history_def by (auto intro: clock_ok_mono trans_le_add1)
next
  case (poll i inp)
  then show ?thesis
    by (intro history_client[OF h poll(1), where c = "resume (polled P inp (prg (clients s ! i))) (clients s ! i)"])
      (auto simp: set_client_def resume_def busy_def split: option.splits)
next
  case (start_get i key)
  then show ?thesis
    by (intro history_client[OF h start_get(1), where c = "(clients s ! i)\<lparr>phase := Reading key,
          opn := Suc (opn (clients s ! i)), started := now s\<rparr>"])
      (simp_all add: start_get_def Let_def set_client_def busy_def)
next
  case (start_put i a)
  then show ?thesis
    by (intro history_client[OF h start_put(1), where c = "(clients s ! i)\<lparr>phase := Putting a 0,
          opn := Suc (opn (clients s ! i)), started := now s\<rparr>"])
      (simp_all add: start_put_def Let_def set_client_def busy_def)
next
  case (retry_put i a r)
  then show ?thesis
    by (intro history_client[OF h retry_put(1), where c = "(clients s ! i)\<lparr>phase := Putting a (Suc r)\<rparr>"])
      (simp_all add: retry_put_def Let_def set_client_def)
next
  case (lose n m)
  with h show ?thesis by (simp add: history_def)
next
  case (answer_get i key)
  have "(i, opn (clients s ! i)) \<notin> lid ` set (lin s)"
  proof
    assume "(i, opn (clients s ! i)) \<in> lid ` set (lin s)"
    then obtain l where "l \<in> set (lin s)" "lid l = (i, opn (clients s ! i))" by force
    moreover from this have "lop_ok (clients s) (fst ` set (oplog s)) l" using h by (auto simp: history_def)
    ultimately show False using answer_get(2) by (auto simp: lop_ok_def)
  qed
  with answer_get show ?thesis unfolding answer_get(3) answer_get_def Let_def
    by (intro history_effect[OF h answer_get(1), where l = "\<lparr>lid = (i, opn (clients s ! i)), ltime = now s,
          linp = get_input key, leff = EGet (Get \<lparr>gKey = key\<rparr> (kvs s))\<rparr>" and kv = "kvs s"
          and c = "(clients s ! i)\<lparr>phase := Got key (Get \<lparr>gKey = key\<rparr> (kvs s))\<rparr>"])
      (auto simp: set_client_def busy_def lin_step_def get_input_def)
next
  case (serve_put n)
  obtain i k r a where q: "requests s ! n = ((i, k, r), a)" by (metis prod.exhaust)
  from ok serve_put(1) room q show ?thesis
  proof (cases rule: serve_put_cases)
    case stale
    with h serve_put show ?thesis by (simp add: history_def)
  next
    case (current R)
    with serve_put(2) show ?thesis
      by (intro history_effect[OF h current(5), where l = "\<lparr>lid = (i, k), ltime = now s, linp = put_input a, leff = EApplied\<rparr>"
          and kv = "fst (Put a (kvs s))" and c = "clients s ! i"])
        (auto simp: busy_def lin_step_def applied_ids_def, simp_all add: put_input_def)
  qed
next
  case (finish_get i key r)
  let ?c = "resume (got P r (prg (clients s ! i))) (clients s ! i)"
  have "(i, opn (clients s ! i)) \<in> lid ` set (lin s)"
    using history_clock[OF h finish_get(1)] finish_get(2) by (simp add: clock_ok_def)
  then obtain l where l: "l \<in> set (lin s)" "lid l = (i, opn (clients s ! i))" by force
  then have "lop_ok (clients s) (fst ` set (oplog s)) l" "ltime l \<le> now s" using h by (auto simp: history_def)
  with l finish_get(2) have "linp l = get_input key" "leff l = EGet r" "started (clients s ! i) \<le> ltime l" "ltime l \<le> now s"
    by (auto simp: lop_ok_def)
  with l finish_get(2) show ?thesis unfolding finish_get(3) finish_get_def Let_def
    by (intro history_finish[OF h finish_get(1), where c = ?c and op = "log_Get key r (started (clients s ! i)) (now s) i"])
      (auto simp: set_client_def busy_def resume_def log_Get_def split: option.splits)
next
  case (finish_put i a r err)
  let ?c = "resume (put_done P (Put_result r err) (prg (clients s ! i))) (clients s ! i)"
    and ?x = "(i, opn (clients s ! i))" and ?op = "log_Put a (Put_result r err) (started (clients s ! i)) (now s) i"
  note f = finish_put_facts[OF ok finish_put(1-3)]
  have st: "started (clients s ! i) \<le> now s" using history_clock[OF h finish_put(1)] by (simp add: clock_ok_def)
  have c: "opn ?c = opn (clients s ! i)" "started ?c = started (clients s ! i)" "\<not> busy (phase ?c)"
    by (auto simp: resume_def busy_def split: option.splits)
  have b: "busy (phase (clients s ! i))" using finish_put(2) by (simp add: busy_def)
  have t: "kvs t = kvs s" "now t = now s" "clients t = (clients s)[i := ?c]" "oplog t = oplog s @ [(?x, ?op)]"
    "lin t = (if ?x \<in> applied_ids s then lin s
              else lin s @ [\<lparr>lid = ?x, ltime = now s, linp = put_input a, leff = ERefused\<rparr>])"
    by (simp_all add: finish_put(4) finish_put_def Let_def set_client_def applied_iff)
  show ?thesis
  proof (cases "?x \<in> applied_ids s")
    case True
    then obtain l where l: "l \<in> set (lin s)" "lid l = ?x" by (force simp: applied_ids_def)
    then have "lop_ok (clients s) (fst ` set (oplog s)) l" "ltime l \<le> now s" using h by (auto simp: history_def)
    with l finish_put(2) have "linp l = put_input a" "leff l = EApplied" "started (clients s ! i) \<le> ltime l" "ltime l \<le> now s"
      by (auto simp: lop_ok_def)
    moreover have "Put_result r err = OK \<or> Put_result r err = ErrMaybe"
      using f(3) True by (auto simp: Put_result_def)
    ultimately show ?thesis using l True t
      by (intro history_finish[OF h finish_put(1) b c]) (auto simp: log_Put_def)
  next
    case False
    have "Put_result r err = ErrVersion \<or> Put_result r err = ErrMaybe"
      using f(3) False by (auto simp: Put_result_def)
    moreover have "lin_step \<lparr>lid = ?x, ltime = now s, linp = put_input a, leff = ERefused\<rparr> (kvs s) = Some (kvs s)"
      using f(1) by (auto simp: lin_step_def put_input_def stale_def)
    ultimately show ?thesis using False t st
      by (intro history_finish[OF h finish_put(1) b c]) (auto simp: log_Put_def applied_ids_def)
  qed
qed

definition sound :: "KVServer \<Rightarrow> 'p csys \<Rightarrow> bool" where
  "sound kv0 s \<longleftrightarrow> counted s \<and> clerks_ok P knows s \<and> history kv0 s"

lemma sound_exec:
  assumes "sound kv0 s" and "cexec P e s = Some t" and "nserved t < 2 ^ 63"
  shows "sound kv0 t" and "room (kvs s)"
proof -
  have n: "nserved s < 2 ^ 63" using cexec_served(1)[OF assms(2)] assms(3) by linarith
  then show room: "room (kvs s)" using counted_room assms(1) by (auto simp: sound_def)
  show "sound kv0 t"
    using assms counted_exec[OF assms(2) _ n] clerks_ok_exec[OF _ assms(2) room] history_exec[OF _ _ assms(2) room]
    by (auto simp: sound_def)
qed

lemma sound_boot:
  assumes "\<And>k. unat (ver kv0 k) \<le> 1" and "\<And>p. p \<in> set ps \<Longrightarrow> knows kv0 p"
  shows "sound kv0 (csys_boot kv0 ps)"
  using assms
  by (auto simp: sound_def csys_boot_def counted_def clerks_ok_def clerks_def applied_ids_def client_ok_def history_def
      clock_ok_def)

text \<open>An invariant of the clients that relies on what the clerks promise.\<close>

lemma sound_invariant:
  assumes "csys_reach P kv0 ps s" and "nserved s < 2 ^ 63"
    and "\<And>k. unat (ver kv0 k) \<le> 1" and "\<And>p. p \<in> set ps \<Longrightarrow> knows kv0 p"
    and "I (csys_boot kv0 ps)"
    and "\<And>s t e. sound kv0 s \<Longrightarrow> room (kvs s) \<Longrightarrow> nserved t < 2 ^ 63 \<Longrightarrow> I s \<Longrightarrow> cexec P e s = Some t \<Longrightarrow> I t"
  shows "sound kv0 s \<and> I s"
proof -
  have "nserved s < 2 ^ 63 \<longrightarrow> sound kv0 s \<and> I s" using assms(1)
  proof (rule csys.reach_invariant)
    fix s assume "csys_init kv0 ps s"
    with sound_boot[OF assms(3,4)] assms(5) show "nserved s < 2 ^ 63 \<longrightarrow> sound kv0 s \<and> I s"
      by (simp add: csys_init_def)
  next
    fix s t assume IH: "nserved s < 2 ^ 63 \<longrightarrow> sound kv0 s \<and> I s" and "csys_step P s t"
    then obtain e where e: "cexec P e s = Some t" by (auto simp: csys_step_def)
    show "nserved t < 2 ^ 63 \<longrightarrow> sound kv0 t \<and> I t"
    proof
      assume n: "nserved t < 2 ^ 63"
      then have "nserved s < 2 ^ 63" using cexec_served(1)[OF e] by linarith
      with IH sound_exec[OF _ e n] assms(6)[OF _ _ n _ e] show "sound kv0 t \<and> I t" by blast
    qed
  qed
  with assms(2) show ?thesis by simp
qed

lemma reach_sound:
  assumes "csys_reach P kv0 ps s" and "nserved s < 2 ^ 63"
    and "\<And>k. unat (ver kv0 k) \<le> 1" and "\<And>p. p \<in> set ps \<Longrightarrow> knows kv0 p"
  shows "sound kv0 s"
  using sound_invariant[OF assms, of "\<lambda>s. True"] by simp

end

section \<open>Complete histories\<close>

definition quiet :: "'p csys \<Rightarrow> bool" where
  "quiet s \<longleftrightarrow> (\<forall>c \<in> set (clients s). \<not> busy (phase c))"

lemma quiet_ids:
  assumes "history kv0 s" and "quiet s"
  shows "lid ` set (lin s) = fst ` set (oplog s)"
proof
  show "lid ` set (lin s) \<subseteq> fst ` set (oplog s)"
  proof
    fix x assume "x \<in> lid ` set (lin s)"
    then obtain l where l: "l \<in> set (lin s)" "lid l = x" by auto
    then have "lop_ok (clients s) (fst ` set (oplog s)) l" using assms(1) by (auto simp: history_def)
    moreover obtain i k where x: "x = (i, k)" by fastforce
    ultimately have "i < length (clients s)" and ok: "lop_ok (clients s) (fst ` set (oplog s)) l"
      using l by (auto simp: lop_ok_def)
    then have "\<not> busy (phase (clients s ! i))" using assms(2) by (auto simp: quiet_def)
    with ok l x show "x \<in> fst ` set (oplog s)"
      by (cases "phase (clients s ! i)") (auto simp: lop_ok_def busy_def)
  qed
  show "fst ` set (oplog s) \<subseteq> lid ` set (lin s)"
  proof
    fix x assume "x \<in> fst ` set (oplog s)"
    then obtain e where "(x, e) \<in> set (oplog s)" by auto
    then have "logged_ok (clients s) (lin s) (x, e)" using assms(1) by (auto simp: history_def)
    then show "x \<in> lid ` set (lin s)" by (force simp: logged_ok_def case_prod_beta)
  qed
qed

text \<open>The logged operation of an effect.\<close>

definition op_of :: "'p csys \<Rightarrow> lop \<Rightarrow> KvInput \<times> opinfo" where
  "op_of s l = the (map_of (oplog s) (lid l))"

lemma op_of_facts:
  assumes h: "history kv0 s" and "quiet s" and l: "l \<in> set (lin s)"
  shows "fst (op_of s l) = linp l" and "matches (leff l) (opOut (snd (op_of s l)))"
    and "opCall (snd (op_of s l)) \<le> ltime l" and "ltime l \<le> opReturn (snd (op_of s l))"
proof -
  have "lid l \<in> fst ` set (oplog s)" using quiet_ids[OF assms(1,2)] l by auto
  then obtain e where e: "(lid l, e) \<in> set (oplog s)" by auto
  moreover have "distinct (map fst (oplog s))" using h by (simp add: history_def)
  ultimately have op: "op_of s l = e" by (simp add: op_of_def)
  have "logged_ok (clients s) (lin s) (lid l, e)" using h e by (auto simp: history_def)
  then obtain m where m: "m \<in> set (lin s)" "lid m = lid l" "linp m = fst e" "opCall (snd e) \<le> ltime m"
      "ltime m \<le> opReturn (snd e)" "matches (leff m) (opOut (snd e))"
    by (auto simp: logged_ok_def case_prod_beta)
  have "distinct (map lid (lin s))" using h by (simp add: history_def)
  with m(1,2) l have "m = l" by (auto simp: distinct_map inj_on_def)
  with m op show "fst (op_of s l) = linp l" "matches (leff l) (opOut (snd (op_of s l)))"
    "opCall (snd (op_of s l)) \<le> ltime l" "ltime l \<le> opReturn (snd (op_of s l))" by auto
qed

lemma op_of_mset:
  assumes h: "history kv0 s" and "quiet s"
  shows "mset (map (op_of s) (lin s)) = mset (map snd (oplog s))"
proof -
  have d: "distinct (map lid (lin s))" "distinct (map fst (oplog s))" using h by (auto simp: history_def)
  have "mset (map lid (lin s)) = mset (map fst (oplog s))"
    using d quiet_ids[OF assms] by (intro set_eq_iff_mset_eq_distinct[THEN iffD1]) auto
  then have "image_mset (\<lambda>x. the (map_of (oplog s) x)) (mset (map lid (lin s)))
      = image_mset (\<lambda>x. the (map_of (oplog s) x)) (mset (map fst (oplog s)))" by simp
  then have "mset (map (op_of s) (lin s)) = mset (map (\<lambda>e. the (map_of (oplog s) (fst e))) (oplog s))"
    by (simp add: op_of_def[abs_def] multiset.map_comp comp_def flip: mset_map)
  moreover have "map (\<lambda>e. the (map_of (oplog s) (fst e))) (oplog s) = map snd (oplog s)"
    using d(2) by (intro map_cong refl) (auto simp: map_of_is_SomeI)
  ultimately show ?thesis by (simp only:)
qed

lemma history_linearizable:
  assumes h: "history MakeKVServer s" and q: "quiet s"
  shows "CheckOperations (map snd (oplog s))"
  unfolding CheckOperations_def
proof
  fix part assume "part \<in> set (KvModel_Partition (map snd (oplog s)))"
  then obtain k where part: "part = filter (\<lambda>v. kiKey (fst v) = k) (map snd (oplog s))"
    by (auto simp: Partition_eq)
  let ?ls = "filter (\<lambda>l. kiKey (linp l) = k) (lin s)"
  let ?h = "map (op_of s) ?ls"
  have "?h = filter (\<lambda>v. kiKey (fst v) = k) (map (op_of s) (lin s))"
  proof -
    have "filter (\<lambda>l. kiKey (linp l) = k) (lin s) = filter (\<lambda>l. kiKey (fst (op_of s l)) = k) (lin s)"
      using op_of_facts(1)[OF h q] by (intro filter_cong) auto
    then show ?thesis by (simp add: filter_map comp_def)
  qed
  then have "mset ?h = mset part" using op_of_mset[OF h q] part by (metis mset_filter)
  moreover have "sorted_wrt (\<lambda>x y. \<not> opReturn (snd y) < opCall (snd x)) ?h"
  proof -
    have "sorted (map ltime ?ls)" using h by (simp add: history_def sorted_filter)
    then have "sorted_wrt (\<lambda>l m. ltime l \<le> ltime m) ?ls" by (simp add: sorted_map)
    then have "sorted_wrt (\<lambda>l m. \<not> opReturn (snd (op_of s m)) < opCall (snd (op_of s l))) ?ls"
    proof (rule sorted_wrt_mono_rel[rotated])
      fix l m assume "l \<in> set ?ls" "m \<in> set ?ls" "ltime l \<le> ltime m"
      with op_of_facts(3)[OF h q, of l] op_of_facts(4)[OF h q, of m]
      show "\<not> opReturn (snd (op_of s m)) < opCall (snd (op_of s l))" by auto
    qed
    then show ?thesis by (simp add: sorted_wrt_map)
  qed
  moreover have "accepts KvModel_Init (map io ?h)"
  proof -
    have "lin_run (lin s) MakeKVServer = Some (kvs s)" using h by (simp add: history_def)
    from lin_accepted[OF this, of "\<lambda>l. opOut (snd (op_of s l))" k] op_of_facts(2)[OF h q]
    have "accepts (kv_abs MakeKVServer k) (map (\<lambda>l. (linp l, opOut (snd (op_of s l)))) ?ls)" by blast
    moreover have "map (\<lambda>l. (linp l, opOut (snd (op_of s l)))) ?ls = map io ?h"
      using op_of_facts(1)[OF h q] by (auto simp: io_def)
    moreover have "kv_abs MakeKVServer k = KvModel_Init"
      by (simp add: kv_abs_def MakeKVServer_def KvModel_Init_def)
    ultimately show ?thesis by simp
  qed
  ultimately show "linearizable part" unfolding linearizable_def by blast
qed

end
