(* ===== verification/KvTest.thy ===== *)
theory KvTest
  imports KvLinear
begin

text \<open>
  The clients of the key/value tests and their checks (\<^verbatim>\<open>kvtest1/kvtest.go\<close>).

  \<open>put_prog\<close> is \<open>OneClientPut\<close> with \<open>OnePut\<close>: clients that overwrite keys, each remembering the
  version it saw last.  \<open>append_prog\<close> is \<open>OneClientAppend\<close>: clients that append to one list.  Both are
  instances of \<open>client_program\<close>; every history they log is linearizable, no client fails, and at the end
  \<open>CheckPutConcurrent\<close> and \<open>CheckAppends\<close> succeed, with lost, delayed and resent messages.  JSON is a
  pair of functions, of which the checks need the round trip.
\<close>

section \<open>Overwriting clients\<close>

record ClntRes =
  Nok :: int
  Nmaybe :: int

record EntryV =
  evId :: int
  evV :: Tversion

datatype put_pc = UPoll | UPut string Tversion | UGet string Tversion Err | UDone

record put_client =
  cli :: int
  ka :: "string list"
  verm :: "string \<Rightarrow> Tversion"
  res :: ClntRes
  upc :: put_pc

definition put_start :: "string list \<Rightarrow> nat \<Rightarrow> put_client" where
  "put_start keys i =
     \<lparr>cli = int i, ka = keys, verm = (\<lambda>_. 0), res = \<lparr>Nok = 0, Nmaybe = 0\<rparr>, upc = UPoll\<rparr>"

fun put_act :: "(EntryV \<Rightarrow> string) \<Rightarrow> put_client \<Rightarrow> action" where
  "put_act enc c =
     (case upc c of
        UPoll \<Rightarrow> ActPoll
      | UPut k v \<Rightarrow> ActPut \<lparr>pKey = k, pValue = enc \<lparr>evId = cli c, evV = v\<rparr>, pVersion = v\<rparr>
      | UGet k v err \<Rightarrow> ActGet k
      | UDone \<Rightarrow> ActStop)"

text \<open>The \<^verbatim>\<open>select\<close> of \<open>OneClientPut\<close>: \<open>k := ka[0]\<close>, or \<open>ka[rand.Int()%len(ka)]\<close>.\<close>

fun put_polled :: "bool \<Rightarrow> nat option \<Rightarrow> put_client \<Rightarrow> put_client option" where
  "put_polled randomkeys None c = Some (c\<lparr>upc := UDone\<rparr>)"
| "put_polled randomkeys (Some r) c =
     (if ka c = [] then None
      else let k = (if randomkeys then ka c ! (r mod length (ka c)) else ka c ! 0) in
           Some (c\<lparr>upc := UPut k (verm c k)\<rparr>))"

text \<open>\<open>OnePut\<close> after its Put, and after its Get.\<close>

definition OnePut_put :: "Err \<Rightarrow> put_client \<Rightarrow> put_client option" where
  "OnePut_put err c =
     (case upc c of
        UPut k v \<Rightarrow> if \<not> (err = OK \<or> err = ErrVersion \<or> err = ErrMaybe) then None
                    else Some (c\<lparr>upc := UGet k v err\<rparr>)
      | _ \<Rightarrow> None)"

definition GetJson :: "(string \<Rightarrow> 'v option) \<Rightarrow> GetReply \<Rightarrow> ('v \<times> Tversion) option" where
  "GetJson dec r =
     (if grErr r = OK
      then (case dec (grValue r) of None \<Rightarrow> None | Some v \<Rightarrow> Some (v, grVersion r))
      else None)"

definition OnePut_got :: "(string \<Rightarrow> EntryV option) \<Rightarrow> GetReply \<Rightarrow> put_client \<Rightarrow> put_client option" where
  "OnePut_got dec r c =
     (case upc c of
        UGet k v err \<Rightarrow> do {
          (e, ver0) \<leftarrow> GetJson dec r;
          if err = OK \<and> ver0 = v + 1 \<and> (evId e \<noteq> cli c \<and> evV e \<noteq> v) then None
          else if err = OK
          then Some (c\<lparr>verm := (verm c)(k := ver0), res := (res c)\<lparr>Nok := Nok (res c) + 1\<rparr>, upc := UPoll\<rparr>)
          else if err = ErrMaybe
          then Some (c\<lparr>verm := (verm c)(k := ver0), res := (res c)\<lparr>Nmaybe := Nmaybe (res c) + 1\<rparr>, upc := UPoll\<rparr>)
          else Some (c\<lparr>upc := UPut k ver0\<rparr>)
        }
      | _ \<Rightarrow> None)"

definition put_prog :: "(EntryV \<Rightarrow> string) \<Rightarrow> (string \<Rightarrow> EntryV option) \<Rightarrow> bool \<Rightarrow> put_client prog" where
  "put_prog enc dec randomkeys =
     \<lparr>act = put_act enc, polled = put_polled randomkeys, got = OnePut_got dec, put_done = OnePut_put\<rparr>"

text \<open>The check at the end: \<open>None\<close> is \<^verbatim>\<open>ts.Fatalf\<close>.\<close>

definition CheckPutConcurrent :: "(string \<Rightarrow> EntryV option) \<Rightarrow> string \<Rightarrow> ClntRes list \<Rightarrow> ClntRes \<Rightarrow> bool \<Rightarrow> KVServer
    \<Rightarrow> ClntRes option" where
  "CheckPutConcurrent dec key rs res0 isReliable kv = do {
     (e, ver0) \<leftarrow> GetJson dec (Get \<lparr>gKey = key\<rparr> kv);
     let res1 = foldl (\<lambda>x r. \<lparr>Nok = Nok x + Nok r, Nmaybe = Nmaybe x + Nmaybe r\<rparr>) res0 rs;
     if isReliable
     then (if ver0 \<noteq> of_int (Nok res1) then None else Some res1)
     else (if ver0 > of_int (Nok res1 + Nmaybe res1) then None else Some res1)
   }"

section \<open>Appending clients\<close>

record EntryN =
  enId :: int
  enN :: int

datatype append_pc = APoll | AGet | APut "EntryN list" Tversion | ADone

record append_client =
  ame :: int
  ai :: int
  nok :: int
  nmay :: int
  apc :: append_pc

definition append_start :: "nat \<Rightarrow> append_client" where
  "append_start i = \<lparr>ame = int i, ai = 0, nok = 0, nmay = 0, apc = APoll\<rparr>"

fun append_act :: "(EntryN list \<Rightarrow> string) \<Rightarrow> append_client \<Rightarrow> action" where
  "append_act enc c =
     (case apc c of
        APoll \<Rightarrow> ActPoll
      | AGet \<Rightarrow> ActGet ''k''
      | APut es v \<Rightarrow> ActPut \<lparr>pKey = ''k'', pValue = enc es, pVersion = v\<rparr>
      | ADone \<Rightarrow> ActStop)"

fun append_polled :: "nat option \<Rightarrow> append_client \<Rightarrow> append_client option" where
  "append_polled None c = Some (c\<lparr>apc := ADone\<rparr>)"
| "append_polled (Some r) c = Some (c\<lparr>apc := AGet\<rparr>)"

definition append_got :: "(string \<Rightarrow> EntryN list option) \<Rightarrow> GetReply \<Rightarrow> append_client \<Rightarrow> append_client option" where
  "append_got dec r c = do {
     (es, v) \<leftarrow> GetJson dec r;
     Some (c\<lparr>apc := APut (es @ [\<lparr>enId = ame c, enN = ai c\<rparr>]) v\<rparr>)
   }"

definition append_put :: "Err \<Rightarrow> append_client \<Rightarrow> append_client option" where
  "append_put err c =
     (if err = OK then Some (c\<lparr>nok := nok c + 1, ai := ai c + 1, apc := APoll\<rparr>)
      else if err = ErrMaybe then Some (c\<lparr>nmay := nmay c + 1, ai := ai c + 1, apc := APoll\<rparr>)
      else Some (c\<lparr>apc := AGet\<rparr>))"

definition append_prog :: "(EntryN list \<Rightarrow> string) \<Rightarrow> (string \<Rightarrow> EntryN list option) \<Rightarrow> append_client prog" where
  "append_prog enc dec =
     \<lparr>act = append_act enc, polled = append_polled, got = append_got dec, put_done = append_put\<rparr>"

text \<open>
  \<open>CheckAppends\<close>.  The maps \<open>expect\<close> and \<open>skipped\<close> have a key for each client and for each identifier
  that occurs; a missing key reads 0.
\<close>

fun appends_loop :: "EntryN list \<Rightarrow> (int \<Rightarrow> int) \<Rightarrow> (int \<Rightarrow> int) \<Rightarrow> ((int \<Rightarrow> int) \<times> (int \<Rightarrow> int)) option" where
  "appends_loop [] expect skipped = Some (expect, skipped)"
| "appends_loop (e # es) expect skipped =
     (if expect (enId e) > enN e then None
      else if expect (enId e) = enN e then appends_loop es (expect(enId e := expect (enId e) + 1)) skipped
      else let s = enN e - expect (enId e) in
           appends_loop es (expect(enId e := enN e + 1)) (skipped(enId e := skipped (enId e) + s)))"

definition CheckAppends :: "EntryN list \<Rightarrow> nat \<Rightarrow> ClntRes list \<Rightarrow> Tversion \<Rightarrow> unit option" where
  "CheckAppends es nclnt rs v = do {
     (expect, skipped) \<leftarrow> appends_loop es (\<lambda>_. 0) (\<lambda>_. 0);
     if int (length es) + 1 \<noteq> sint v then None
     else if list_all (\<lambda>c. case go_nth rs c of
               None \<Rightarrow> False
             | Some r \<Rightarrow> \<not> skipped c > Nmaybe r \<and> \<not> expect c > Nok r + Nmaybe r)
             (map int [0..<nclnt] @ map enId es)
     then Some () else None
   }"

section \<open>The versions the clients know\<close>

definition put_knows :: "KVServer \<Rightarrow> put_client \<Rightarrow> bool" where
  "put_knows kv c \<longleftrightarrow>
     (\<forall>k. verm c k \<le> ver kv k)
     \<and> (case upc c of UPut k v \<Rightarrow> v \<le> ver kv k | UGet k v err \<Rightarrow> v < ver kv k | _ \<Rightarrow> True)"

definition append_knows :: "KVServer \<Rightarrow> append_client \<Rightarrow> bool" where
  "append_knows kv c \<longleftrightarrow> (case apc c of APut es v \<Rightarrow> v \<le> ver kv ''k'' | _ \<Rightarrow> True)"

lemma GetJson_Some: "GetJson dec r = Some (v, n) \<longleftrightarrow> grErr r = OK \<and> dec (grValue r) = Some v \<and> grVersion r = n"
  by (auto simp: GetJson_def split: option.splits)

lemma OnePut_got_cases:
  assumes "OnePut_got dec r c = Some d"
  obtains (counted) k v err n rs where "upc c = UGet k v err" "grErr r = OK" "grVersion r = n" "err = OK \<or> err = ErrMaybe"
      "d = c\<lparr>verm := (verm c)(k := n), res := rs, upc := UPoll\<rparr>"
      "rs = (if err = OK then (res c)\<lparr>Nok := Nok (res c) + 1\<rparr> else (res c)\<lparr>Nmaybe := Nmaybe (res c) + 1\<rparr>)"
  | (again) k v err n where "upc c = UGet k v err" "grErr r = OK" "grVersion r = n" "err \<noteq> OK" "err \<noteq> ErrMaybe"
      "d = c\<lparr>upc := UPut k n\<rparr>"
proof (cases "upc c")
  case (UGet k v err)
  with assms obtain e n where g: "GetJson dec r = Some (e, n)"
    by (auto simp: OnePut_got_def bind_Some_iff)
  then have r: "grErr r = OK" "grVersion r = n" by (auto simp: GetJson_Some)
  show ?thesis
  proof (cases "err = OK \<or> err = ErrMaybe")
    case True
    with assms UGet g show ?thesis
      by (intro counted[OF UGet r True _ refl]) (auto simp: OnePut_got_def split: if_splits)
  next
    case False
    with assms UGet g show ?thesis
      by (intro again[OF UGet r]) (auto simp: OnePut_got_def)
  qed
qed (use assms in \<open>auto simp: OnePut_got_def\<close>)

interpretation puts: client_program "put_prog enc dec randomkeys" put_knows for enc dec randomkeys
proof unfold_locales
  fix kv kv' c assume "put_knows kv c" and "\<And>k. ver kv k \<le> ver kv' k"
  then show "put_knows kv' c"
    unfolding put_knows_def by (auto split: put_pc.splits) (meson order_trans order_less_le_trans)+
next
  fix kv c d inp
  assume "put_knows kv c" and "act (put_prog enc dec randomkeys) c = ActPoll"
    and "polled (put_prog enc dec randomkeys) inp c = Some d"
  then show "put_knows kv d"
    by (cases inp) (auto simp: put_prog_def put_knows_def Let_def split: if_splits put_pc.splits)
next
  fix kv c d key r
  assume k: "put_knows kv c" and a: "act (put_prog enc dec randomkeys) c = ActGet key"
    and v: "grVersion r \<le> ver kv key" and g: "got (put_prog enc dec randomkeys) r c = Some d"
  have "OnePut_got dec r c = Some d" using g by (simp add: put_prog_def)
  then show "put_knows kv d"
    by (cases rule: OnePut_got_cases) (use k a v in \<open>auto simp: put_prog_def put_knows_def\<close>)
next
  fix kv c a
  assume "put_knows kv c" and "act (put_prog enc dec randomkeys) c = ActPut a"
  then show "pVersion a \<le> ver kv (pKey a)"
    by (auto simp: put_prog_def put_knows_def split: put_pc.splits)
next
  fix kv c a err d
  assume "put_knows kv c" and "act (put_prog enc dec randomkeys) c = ActPut a" and "pVersion a < ver kv (pKey a)"
    and "put_done (put_prog enc dec randomkeys) err c = Some d"
  then show "put_knows kv d"
    by (auto simp: put_prog_def put_knows_def OnePut_put_def split: put_pc.splits if_splits)
qed

interpretation appends: client_program "append_prog enc dec" append_knows for enc dec
proof unfold_locales
  fix kv kv' c assume "append_knows kv c" and "\<And>k. ver kv k \<le> ver kv' k"
  then show "append_knows kv' c"
    unfolding append_knows_def by (auto split: append_pc.splits) (meson order_trans)
next
  fix kv c d inp
  assume "append_knows kv c" and "act (append_prog enc dec) c = ActPoll" and "polled (append_prog enc dec) inp c = Some d"
  then show "append_knows kv d"
    by (cases inp) (auto simp: append_prog_def append_knows_def)
next
  fix kv c d key r
  assume "append_knows kv c" and "act (append_prog enc dec) c = ActGet key" and "grVersion r \<le> ver kv key"
    and "got (append_prog enc dec) r c = Some d"
  then show "append_knows kv d"
    by (auto simp: append_prog_def append_knows_def append_got_def GetJson_Some bind_Some_iff split: append_pc.splits)
next
  fix kv c a
  assume "append_knows kv c" and "act (append_prog enc dec) c = ActPut a"
  then show "pVersion a \<le> ver kv (pKey a)"
    by (auto simp: append_prog_def append_knows_def split: append_pc.splits)
next
  fix kv c a err d
  assume "append_knows kv c" and "act (append_prog enc dec) c = ActPut a" and "pVersion a < ver kv (pKey a)"
    and "put_done (append_prog enc dec) err c = Some d"
  then show "append_knows kv d"
    by (auto simp: append_prog_def append_knows_def append_put_def split: if_splits)
qed

section \<open>A run of the overwriting clients\<close>

text \<open>A codec to run the tests with: numbers in unary, each closed by a comma.\<close>

definition unary :: "int \<Rightarrow> string" where
  "unary i = (if i < 0 then ''-'' else '''') @ replicate (nat \<bar>i\<bar>) CHR ''1'' @ '',''"

fun unary_ints :: "int \<Rightarrow> int \<Rightarrow> string \<Rightarrow> int list" where
  "unary_ints sign acc [] = []"
| "unary_ints sign acc (c # s) =
     (if c = CHR '','' then (sign * acc) # unary_ints 1 0 s
      else if c = CHR ''-'' then unary_ints (- 1) acc s
      else unary_ints sign (acc + 1) s)"

definition plain_enc :: "EntryV \<Rightarrow> string" where
  "plain_enc e = unary (evId e) @ unary (uint (evV e))"

definition plain_dec :: "string \<Rightarrow> EntryV option" where
  "plain_dec s = (case unary_ints 1 0 s of [a, b] \<Rightarrow> Some \<lparr>evId = a, evV = of_int b\<rparr> | _ \<Rightarrow> None)"

lemma unary_ints_replicate: "unary_ints sign acc (replicate n CHR ''1'' @ '','' @ s) = sign * (acc + int n) # unary_ints 1 0 s"
  by (induction n arbitrary: acc) (auto simp: algebra_simps)

lemma unary_ints_unary: "unary_ints 1 0 (unary i @ s) = i # unary_ints 1 0 s"
  using unary_ints_replicate[of 1 0] unary_ints_replicate[of "- 1" 0] by (simp add: unary_def)

lemma plain_roundtrip: "plain_dec (plain_enc e) = Some e"
  using unary_ints_unary[of "uint (evV e)" "[]"] by (simp add: plain_dec_def plain_enc_def unary_ints_unary)

lemma crun_reach:
  assumes "crun P es (csys_boot kv ps) = Some s"
  shows "csys_reach P kv ps s"
proof -
  have "(csys_step P)\<^sup>*\<^sup>* s t" if "crun P es s = Some t" for s t
    using that
  proof (induction es arbitrary: s)
    case (Cons e es)
    then obtain u where "cexec P e s = Some u" "crun P es u = Some t" by (auto simp: bind_Some_iff)
    with Cons.IH show ?case by (meson csys_step_def converse_rtranclp_into_rtranclp)
  qed simp
  from csys.reach_run[OF csys.reach_init this[OF assms]] show ?thesis by (simp add: csys_init_def)
qed

text \<open>
  Two clients.  The reply to the first Put of client 0 is lost, so that its resend is refused and it
  returns ErrMaybe; client 1 is refused once and then succeeds.
\<close>

definition put_run :: "put_client csys option" where
  "put_run =
     crun (put_prog plain_enc plain_dec False)
       [CStep 0 (Some 0), CStep 0 None, CStep 1 (Some 0), CStep 1 None, CTick 1, CServe 0, CLoseReply 0, CServe 0, CReply 0,
        CTick 1, CTimeout 0, CServe 0, CReply 1, CStep 0 None, CAnswer 0, CReturn 0, CStep 0 None,
        CStep 1 None, CAnswer 1, CReturn 1, CStep 1 None, CServe 0, CTick 1, CReply 2, CStep 1 None, CAnswer 1, CReturn 1,
        CStep 1 None]
       (csys_boot MakeKVServer (map (put_start [''k'']) [0..<2]))"

definition put_view :: "put_client csys \<Rightarrow> nat \<times> nat \<times> bool \<times> bool \<times> bool \<times> int list \<times> int list" where
  "put_view s =
     (nserved s, length (oplog s), quiet s, list_all (\<lambda>c. upc (prg c) = UDone) (clients s), kvdata (kvs s) ''k'' \<noteq> None,
      map (Nok \<circ> res \<circ> prg) (clients s), map (Nmaybe \<circ> res \<circ> prg) (clients s))"

lemma put_run_view: "map_option put_view put_run = Some (4, 6, True, True, True, [0, 1], [1, 0])"
  by code_simp

lemma put_run_state:
  obtains s where "put_run = Some s" and "put_view s = (4, 6, True, True, True, [0, 1], [1, 0])"
    and "csys_reach (put_prog plain_enc plain_dec False) MakeKVServer (map (put_start [''k'']) [0..<2]) s"
  using put_run_view crun_reach[OF put_run_def[symmetric, THEN trans]] by (auto simp only: map_option_eq_Some)
section \<open>Linearizability of the histories\<close>

lemma put_clients_sound:
  assumes "csys_reach (put_prog enc dec randomkeys) MakeKVServer (map (put_start keys) [0..<n]) s" and "nserved s < 2 ^ 63"
  shows "puts.sound enc dec randomkeys MakeKVServer s"
  using assms by (rule puts.reach_sound) (auto simp: ver_def2 MakeKVServer_def put_knows_def put_start_def)

text \<open>
  C4. Whatever the network loses, delays or delivers twice, the operations that the overwriting clients
  of a test log against a fresh server pass the linearizability check: key by key there is an order of
  the logged Gets and Puts that respects their calls and returns and that the reference model accepts.
\<close>

theorem put_test_linearizable:
  assumes "csys_reach (put_prog enc dec randomkeys) MakeKVServer (map (put_start keys) [0..<n]) s"
    and "nserved s < 2 ^ 63" and "quiet s"
  shows "CheckOperations (map snd (oplog s))"
  using put_clients_sound[OF assms(1,2)] history_linearizable[OF _ assms(3)] by (simp add: puts.sound_def)

theorem put_test_linearizable_witness:
  "case put_run of None \<Rightarrow> False
   | Some s \<Rightarrow> length (oplog s) = 6 \<and> quiet s \<and> nserved s = 4 \<and> CheckOperations (map snd (oplog s))"
proof -
  obtain s where s: "put_run = Some s" "put_view s = (4, 6, True, True, True, [0, 1], [1, 0])"
      "csys_reach (put_prog plain_enc plain_dec False) MakeKVServer (map (put_start [''k'']) [0..<2]) s" by (rule put_run_state)
  from put_test_linearizable[OF s(3)] s(2) show ?thesis unfolding s(1) by (simp add: put_view_def)
qed

section \<open>The overwriting clients pass their check\<close>

text \<open>
  What the clients write can be read back, and the version inside a value is the version it was put over.
\<close>

definition value_ok :: "(string \<Rightarrow> EntryV option) \<Rightarrow> string \<Rightarrow> Tversion \<Rightarrow> bool" where
  "value_ok dec val v = (case dec val of None \<Rightarrow> False | Some e \<Rightarrow> evV e = v - 1)"

definition values_ok :: "(string \<Rightarrow> EntryV option) \<Rightarrow> KVServer \<Rightarrow> bool" where
  "values_ok dec kv \<longleftrightarrow> (\<forall>k e. kvdata kv k = Some e \<longrightarrow> value_ok dec (elValue e) (elVersion e))"

definition put_client_ok :: "string \<Rightarrow> (string \<Rightarrow> EntryV option) \<Rightarrow> put_client client \<Rightarrow> bool" where
  "put_client_ok key dec c \<longleftrightarrow>
     phase c \<noteq> Failed \<and> ka (prg c) = [key]
     \<and> (case upc (prg c) of UPut k v \<Rightarrow> k = key | UGet k v err \<Rightarrow> k = key \<and> err \<in> {OK, ErrVersion, ErrMaybe} | _ \<Rightarrow> True)
     \<and> (\<forall>k r. phase c = Got k r \<longrightarrow> grErr r = OK \<and> value_ok dec (grValue r) (grVersion r))"

text \<open>The Puts that the results of a client account for, and the one that may be on its way.\<close>

definition credit :: "put_client \<Rightarrow> int" where
  "credit c = Nok (res c) + Nmaybe (res c)
     + (case upc c of UGet k v err \<Rightarrow> of_bool (err = OK \<or> err = ErrMaybe) | _ \<Rightarrow> 0)"

definition pending :: "(nat \<times> nat) set \<Rightarrow> nat \<Rightarrow> 'p client \<Rightarrow> int" where
  "pending ids i c = of_bool (putting (phase c) \<and> (i, opn c) \<in> ids)"

definition total :: "(nat \<times> nat) set \<Rightarrow> put_client client list \<Rightarrow> int" where
  "total ids cs = (\<Sum>i < length cs. credit (prg (cs ! i)) + pending ids i (cs ! i))"

definition sure :: "put_client client \<Rightarrow> bool" where
  "sure c \<longleftrightarrow> Nmaybe (res (prg c)) = 0 \<and> (\<forall>k v. upc (prg c) \<noteq> UGet k v ErrMaybe) \<and> (\<forall>A R. phase c = Putting A R \<longrightarrow> R = 0)"

definition put_counts :: "string \<Rightarrow> put_client csys \<Rightarrow> bool" where
  "put_counts key s \<longleftrightarrow>
     int (unat (ver (kvs s) key)) \<le> total (applied_ids s) (clients s)
     \<and> (\<not> retried s \<longrightarrow> int (unat (ver (kvs s) key)) = total (applied_ids s) (clients s) \<and> (\<forall>c \<in> set (clients s). sure c))
     \<and> (\<Sum>i < length (clients s). credit (prg (clients s ! i))) \<le> int (length (oplog s))"

lemma sum_nth_update:
  fixes f g :: "nat \<Rightarrow> 'a \<Rightarrow> int"
  assumes "i < length cs" and "\<And>j. j < length cs \<Longrightarrow> j \<noteq> i \<Longrightarrow> g j (cs ! j) = f j (cs ! j)"
  shows "(\<Sum>j < length cs. g j (cs[i := c] ! j)) = (\<Sum>j < length cs. f j (cs ! j)) - f i (cs ! i) + g i c"
proof -
  have "(\<Sum>j \<in> {..<length cs} - {i}. g j (cs[i := c] ! j)) = (\<Sum>j \<in> {..<length cs} - {i}. f j (cs ! j))"
    using assms(2) by (intro sum.cong) auto
  with assms(1) show ?thesis
    using sum.remove[of "{..<length cs}" i "\<lambda>j. g j (cs[i := c] ! j)"] sum.remove[of "{..<length cs}" i "\<lambda>j. f j (cs ! j)"]
    by simp
qed

lemma total_update:
  assumes "i < length cs" and "ids' = ids \<or> ids' = insert (i, opn (cs ! i)) ids"
  shows "total ids' (cs[i := c]) =
     total ids cs - (credit (prg (cs ! i)) + pending ids i (cs ! i)) + (credit (prg c) + pending ids' i c)"
  using assms sum_nth_update[of i cs "\<lambda>j c. credit (prg c) + pending ids' j c" "\<lambda>j c. credit (prg c) + pending ids j c" c]
  by (auto simp: total_def pending_def)

lemma credit_sum_update:
  assumes "i < length cs"
  shows "(\<Sum>j < length cs. credit (prg (cs[i := c] ! j))) = (\<Sum>j < length cs. credit (prg (cs ! j))) - credit (prg (cs ! i)) + credit (prg c)"
  using sum_nth_update[OF assms, of "\<lambda>j c. credit (prg c)" "\<lambda>j c. credit (prg c)" c] by simp

lemma total_insert:
  assumes "i < length cs" and "putting (phase (cs ! i))" and "(i, opn (cs ! i)) \<notin> ids"
  shows "total (insert (i, opn (cs ! i)) ids) cs = total ids cs + 1"
  using total_update[of i cs "insert (i, opn (cs ! i)) ids" ids "cs ! i"] assms by (simp add: pending_def)

text \<open>The values, and that no client fails.\<close>

definition put_safe :: "string \<Rightarrow> (string \<Rightarrow> EntryV option) \<Rightarrow> put_client csys \<Rightarrow> bool" where
  "put_safe key dec s \<longleftrightarrow> values_ok dec (kvs s) \<and> (\<forall>i < length (clients s). put_client_ok key dec (clients s ! i))"

lemma values_ok_Put:
  assumes "values_ok dec kv" and "prErr (snd (Put a kv)) = OK" and "value_ok dec (pValue a) (pVersion a + 1)"
  shows "values_ok dec (fst (Put a kv))"
  using assms by (auto simp: values_ok_def Put_def split: option.splits if_splits)

lemma Get_present: "values_ok dec kv \<Longrightarrow> v < ver kv k \<Longrightarrow>
    grErr (Get \<lparr>gKey = k\<rparr> kv) = OK \<and> value_ok dec (grValue (Get \<lparr>gKey = k\<rparr> kv)) (grVersion (Get \<lparr>gKey = k\<rparr> kv))"
  by (auto simp: Get_def values_ok_def ver_def2 split: option.splits)

lemma put_act_simps:
  "act (put_prog enc dec randomkeys) c = ActPut a \<longleftrightarrow>
     (\<exists>k v. upc c = UPut k v \<and> a = \<lparr>pKey = k, pValue = enc \<lparr>evId = cli c, evV = v\<rparr>, pVersion = v\<rparr>)"
  "act (put_prog enc dec randomkeys) c = ActGet k \<longleftrightarrow> (\<exists>v err. upc c = UGet k v err)"
  "act (put_prog enc dec randomkeys) c = ActPoll \<longleftrightarrow> upc c = UPoll"
  by (auto simp: put_prog_def split: put_pc.splits)

lemma polled_returns:
  assumes "ka p = [key]"
  obtains q where "polled (put_prog enc dec randomkeys) inp p = Some q" and "ka q = [key]" and "res q = res p"
    and "upc q = UDone \<or> (\<exists>v. upc q = UPut key v)"
  using assms by (cases inp) (auto simp: put_prog_def Let_def)

lemma OnePut_got_returns:
  assumes "upc p = UGet k v err" and "grErr r = OK" and "value_ok dec (grValue r) (grVersion r)"
  obtains q where "OnePut_got dec r p = Some q" and "ka q = ka p"
    and "err = OK \<and> upc q = UPoll \<and> res q = (res p)\<lparr>Nok := Nok (res p) + 1\<rparr>
       \<or> err \<noteq> OK \<and> err = ErrMaybe \<and> upc q = UPoll \<and> res q = (res p)\<lparr>Nmaybe := Nmaybe (res p) + 1\<rparr>
       \<or> err \<noteq> OK \<and> err \<noteq> ErrMaybe \<and> (\<exists>v'. upc q = UPut k v') \<and> res q = res p"
proof -
  obtain e where e: "dec (grValue r) = Some e" "evV e = grVersion r - 1"
    using assms(3) by (auto simp: value_ok_def split: option.splits)
  with assms have g: "GetJson dec r = Some (e, grVersion r)" by (simp add: GetJson_def)
  show ?thesis
    by (rule that[of "the (OnePut_got dec r p)"]) (use assms(1) e g in \<open>auto simp: OnePut_got_def\<close>)
qed

lemma put_safe_update:
  assumes "put_safe key dec s" and "kvs t = kvs s" and "clients t = (clients s)[i := c]" and "put_client_ok key dec c"
  shows "put_safe key dec t"
  unfolding put_safe_def assms(2,3)
proof (intro conjI allI impI)
  fix j assume "j < length ((clients s)[i := c])"
  then show "put_client_ok key dec ((clients s)[i := c] ! j)"
    using assms(1,4) by (cases "j = i") (auto simp: put_safe_def)
qed (use assms(1) in \<open>simp add: put_safe_def\<close>)

lemma put_safe_exec:
  assumes rt: "\<And>e. dec (enc e) = Some e" and ok: "clerks_ok (put_prog enc dec randomkeys) put_knows s"
    and room: "room (kvs s)" and I: "put_safe key dec s" and e: "cexec (put_prog enc dec randomkeys) e s = Some t"
  shows "put_safe key dec t"
  using ok room e
proof (cases rule: puts.client_cases)
  case other
  with I show ?thesis by (simp add: put_safe_def)
next
  case (poll i inp)
  then have c: "put_client_ok key dec (clients s ! i)" using I by (simp add: put_safe_def)
  then have "ka (prg (clients s ! i)) = [key]" by (simp add: put_client_ok_def)
  then obtain q where "polled (put_prog enc dec randomkeys) inp (prg (clients s ! i)) = Some q" "ka q = [key]"
      "upc q = UDone \<or> (\<exists>v. upc q = UPut key v)" by (rule polled_returns)
  then show ?thesis by (intro put_safe_update[OF I poll(5,6)]) (auto simp: put_client_ok_def resume_def)
next
  case (start i ph)
  then have "put_client_ok key dec (clients s ! i)" using I by (simp add: put_safe_def)
  with start show ?thesis by (intro put_safe_update[OF I start(3,5)]) (auto simp: put_client_ok_def)
next
  case (answer i key')
  then obtain v err where u: "upc (prg (clients s ! i)) = UGet key' v err" by (auto simp: put_act_simps)
  with answer(5) have "v < ver (kvs s) key'" by (simp add: put_knows_def)
  with I have "grErr (Get \<lparr>gKey = key'\<rparr> (kvs s)) = OK"
      "value_ok dec (grValue (Get \<lparr>gKey = key'\<rparr> (kvs s))) (grVersion (Get \<lparr>gKey = key'\<rparr> (kvs s)))"
    using Get_present[of dec "kvs s" v key'] by (auto simp: put_safe_def)
  moreover have "put_client_ok key dec (clients s ! i)" using I answer(1) by (simp add: put_safe_def)
  ultimately show ?thesis by (intro put_safe_update[OF I answer(3,6)]) (auto simp: put_client_ok_def)
next
  case (got i key' r)
  then obtain v err where u: "upc (prg (clients s ! i)) = UGet key' v err" by (auto simp: put_act_simps)
  have c: "put_client_ok key dec (clients s ! i)" using I got(1) by (simp add: put_safe_def)
  then have "grErr r = OK" "value_ok dec (grValue r) (grVersion r)" using got(2) by (auto simp: put_client_ok_def)
  from OnePut_got_returns[OF u this] obtain q where "OnePut_got dec r (prg (clients s ! i)) = Some q"
      "ka q = ka (prg (clients s ! i))" "upc q = UPoll \<or> (\<exists>v'. upc q = UPut key' v')" by metis
  with c u show ?thesis
    by (intro put_safe_update[OF I got(3,7)]) (auto simp: put_client_ok_def resume_def put_prog_def)
next
  case (retry i a R)
  then have "put_client_ok key dec (clients s ! i)" using I by (simp add: put_safe_def)
  then show ?thesis by (intro put_safe_update[OF I retry(3,4)]) (auto simp: put_client_ok_def)
next
  case (served i a R)
  then have "value_ok dec (pValue a) (pVersion a + 1)" using rt by (auto simp: put_act_simps value_ok_def)
  with served I show ?thesis using values_ok_Put[of dec "kvs s" a] by (simp add: put_safe_def)
next
  case (returned i a R err)
  then obtain k v where u: "upc (prg (clients s ! i)) = UPut k v" by (auto simp: put_act_simps)
  have c: "put_client_ok key dec (clients s ! i)" using I returned(1) by (simp add: put_safe_def)
  have "err \<in> {OK, ErrVersion, ErrMaybe}" using returned(7) by auto
  with c u show ?thesis
    by (intro put_safe_update[OF I returned(3,8)]) (auto simp: put_client_ok_def resume_def put_prog_def OnePut_put_def)
qed

text \<open>The counts.\<close>

lemma put_counts_update:
  assumes I: "put_counts key s" and i: "i < length (clients s)" and t: "kvs t = kvs s" "clients t = (clients s)[i := c]"
    and ids: "applied_ids t = applied_ids s \<or> applied_ids t = insert (i, opn (clients s ! i)) (applied_ids s)"
    and r: "retried s \<longrightarrow> retried t"
    and w: "credit (prg (clients s ! i)) + pending (applied_ids s) i (clients s ! i) \<le> credit (prg c) + pending (applied_ids t) i c"
    and w': "\<not> retried t \<Longrightarrow> sure (clients s ! i) \<Longrightarrow> sure c \<and>
      credit (prg c) + pending (applied_ids t) i c = credit (prg (clients s ! i)) + pending (applied_ids s) i (clients s ! i)"
    and l: "credit (prg c) - credit (prg (clients s ! i)) \<le> int (length (oplog t)) - int (length (oplog s))"
  shows "put_counts key t"
proof -
  note tot = total_update[OF i ids, of c] and cred = credit_sum_update[OF i, of c]
  have "int (unat (ver (kvs s) key)) = total (applied_ids s) (clients s) \<and> (\<forall>c \<in> set (clients s). sure c)" if "\<not> retried t"
    using I r that by (auto simp: put_counts_def)
  moreover have "sure d" if "d \<in> set ((clients s)[i := c])" "\<forall>c \<in> set (clients s). sure c" "\<not> retried t" for d
    using that w'[OF that(3)] i set_update_subset_insert[of "clients s" i c] by auto
  ultimately show ?thesis using I w w' l i unfolding put_counts_def t tot length_list_update cred
    by (auto simp: put_counts_def)
qed

lemma put_counts_exec:
  assumes ok: "clerks_ok (put_prog enc dec randomkeys) put_knows s"
    and room: "room (kvs s)" and safe: "put_safe key dec s" and I: "put_counts key s"
    and e: "cexec (put_prog enc dec randomkeys) e s = Some t"
  shows "put_counts key t"
  using ok room e
proof (cases rule: puts.client_cases)
  case other
  with I show ?thesis by (simp add: put_counts_def)
next
  case (poll i inp)
  then have "ka (prg (clients s ! i)) = [key]" using safe by (simp add: put_safe_def put_client_ok_def)
  then obtain q where "polled (put_prog enc dec randomkeys) inp (prg (clients s ! i)) = Some q"
      "res q = res (prg (clients s ! i))" "upc q = UDone \<or> (\<exists>v. upc q = UPut key v)" by (rule polled_returns)
  with poll show ?thesis
    by (intro put_counts_update[OF I poll(1,5,6)])
      (auto simp: credit_def pending_def sure_def resume_def put_act_simps)
next
  case (start i ph)
  then show ?thesis
    by (intro put_counts_update[OF I start(1,3,5)]) (auto simp: credit_def pending_def sure_def)
next
  case (answer i key')
  then show ?thesis
    by (intro put_counts_update[OF I answer(1,3,6)]) (auto simp: credit_def pending_def sure_def)
next
  case (got i key' r)
  then obtain v err where u: "upc (prg (clients s ! i)) = UGet key' v err" by (auto simp: put_act_simps)
  have "put_client_ok key dec (clients s ! i)" using safe got(1) by (simp add: put_safe_def)
  then have "grErr r = OK" "value_ok dec (grValue r) (grVersion r)" using got(2) by (auto simp: put_client_ok_def)
  from OnePut_got_returns[OF u this] obtain q where q: "OnePut_got dec r (prg (clients s ! i)) = Some q"
    "err = OK \<and> upc q = UPoll \<and> res q = (res (prg (clients s ! i)))\<lparr>Nok := Nok (res (prg (clients s ! i))) + 1\<rparr>
       \<or> err \<noteq> OK \<and> err = ErrMaybe \<and> upc q = UPoll \<and> res q = (res (prg (clients s ! i)))\<lparr>Nmaybe := Nmaybe (res (prg (clients s ! i))) + 1\<rparr>
       \<or> err \<noteq> OK \<and> err \<noteq> ErrMaybe \<and> (\<exists>v'. upc q = UPut key' v') \<and> res q = res (prg (clients s ! i))" by metis
  have g: "got (put_prog enc dec randomkeys) r (prg (clients s ! i)) = Some q" using q(1) by (simp add: put_prog_def)
  have "credit q = credit (prg (clients s ! i))" using q(2) u by (auto simp: credit_def)
  moreover have "Nmaybe (res q) = 0 \<and> (\<forall>k v. upc q \<noteq> UGet k v ErrMaybe)" if "sure (clients s ! i)"
    using q(2) u that by (auto simp: sure_def)
  ultimately show ?thesis using got(2,8,9,10) g
    by (intro put_counts_update[OF I got(1,3,7)]) (simp_all add: pending_def sure_def resume_def)
next
  case (retry i a R)
  then show ?thesis
    by (intro put_counts_update[OF I retry(1,3,4)]) (auto simp: credit_def pending_def sure_def)
next
  case (served i a R)
  have a: "pKey a = key"
    using served(1,3) safe by (auto simp: put_act_simps put_safe_def put_client_ok_def)
  have "unat (ver (kvs s) key) + 1 < 2 ^ 64" using room by (simp add: room_def)
  then have "unat (ver (kvs t) key) = Suc (unat (ver (kvs s) key))"
    using Put_applied(1)[OF served(6)] a served(4,7) by simp
  moreover have "total (applied_ids t) (clients t) = total (applied_ids s) (clients s) + 1"
    using total_insert[OF served(1) _ served(5)] served(2,8,9) by simp
  ultimately show ?thesis using I served(8,10,11) by (auto simp: put_counts_def)
next
  case (returned i a R err)
  then obtain k v where u: "upc (prg (clients s ! i)) = UPut k v" by (auto simp: put_act_simps)
  have d: "put_done (put_prog enc dec randomkeys) err (prg (clients s ! i)) = Some ((prg (clients s ! i))\<lparr>upc := UGet k v err\<rparr>)"
    using returned(7) u by (auto simp: put_prog_def OnePut_put_def)
  from returned(7) show ?thesis
    using returned(1-3,8-11) u d
    by (intro put_counts_update[OF I returned(1,3,8)]) (auto simp: credit_def pending_def sure_def resume_def)
qed

lemma put_test_invariant:
  assumes "\<And>e. dec (enc e) = Some e"
    and "csys_reach (put_prog enc dec randomkeys) MakeKVServer (map (put_start [key]) [0..<n]) s"
    and "nserved s < 2 ^ 63"
  shows "clerks_ok (put_prog enc dec randomkeys) put_knows s \<and> put_safe key dec s \<and> put_counts key s"
proof -
  have "puts.sound enc dec randomkeys MakeKVServer s \<and> (put_safe key dec s \<and> put_counts key s)"
  proof (rule puts.sound_invariant[OF assms(2,3)])
    show "put_safe key dec (csys_boot MakeKVServer (map (put_start [key]) [0..<n]))
        \<and> put_counts key (csys_boot MakeKVServer (map (put_start [key]) [0..<n]))"
      by (auto simp: put_safe_def put_counts_def csys_boot_def put_start_def MakeKVServer_def values_ok_def
          put_client_ok_def ver_def2 total_def credit_def pending_def sure_def)
  next
    fix s t e
    assume "puts.sound enc dec randomkeys MakeKVServer s" "room (kvs s)" "put_safe key dec s \<and> put_counts key s"
      "cexec (put_prog enc dec randomkeys) e s = Some t"
    then show "put_safe key dec t \<and> put_counts key t"
      using put_safe_exec[OF assms(1)] put_counts_exec by (auto simp: puts.sound_def)
  qed (auto simp: ver_def2 MakeKVServer_def put_knows_def put_start_def)
  then show ?thesis by (simp add: puts.sound_def)
qed

lemma word_at_most:
  fixes v :: Tversion
  assumes "int (unat v) \<le> n" and "n < 2 ^ 63"
  shows "\<not> of_int n < v"
proof -
  have "0 \<le> n" using assms(1) by linarith
  then have "uint (of_int n :: Tversion) = n" using assms(2) by (simp add: uint_word_of_int)
  with assms(1) show ?thesis by (simp add: word_less_def)
qed

lemma res_sum:
  "foldl (\<lambda>x r. \<lparr>Nok = Nok x + Nok r, Nmaybe = Nmaybe x + Nmaybe r\<rparr>) x rs =
     \<lparr>Nok = Nok x + sum_list (map Nok rs), Nmaybe = Nmaybe x + sum_list (map Nmaybe rs)\<rparr>"
  by (induction rs arbitrary: x) auto

lemma stopped_ready:
  assumes "clerks_ok (put_prog enc dec randomkeys) put_knows s" and "i < length (clients s)"
    and "upc (prg (clients s ! i)) = UDone"
  shows "phase (clients s ! i) = Ready \<or> phase (clients s ! i) = Failed"
  using puts.client_holds[OF assms(1,2)] assms(3)
  by (cases "phase (clients s ! i)") (auto simp: client_ok_def put_prog_def)

lemma total_stopped:
  assumes "clerks_ok (put_prog enc dec randomkeys) put_knows s" and "list_all (\<lambda>c. upc (prg c) = UDone) (clients s)"
  shows "total ids (clients s) = sum_list (map (Nok \<circ> res \<circ> prg) (clients s)) + sum_list (map (Nmaybe \<circ> res \<circ> prg) (clients s))"
    and "(\<Sum>i < length (clients s). credit (prg (clients s ! i))) = total ids (clients s)"
proof -
  have u: "upc (prg (clients s ! i)) = UDone" if "i < length (clients s)" for i
    using assms(2) that by (simp add: list_all_length)
  then have p: "pending ids i (clients s ! i) = 0" if "i < length (clients s)" for i
    using stopped_ready[OF assms(1) that] that by (auto simp: pending_def)
  show "(\<Sum>i < length (clients s). credit (prg (clients s ! i))) = total ids (clients s)"
    using p by (simp add: total_def)
  show "total ids (clients s) = sum_list (map (Nok \<circ> res \<circ> prg) (clients s)) + sum_list (map (Nmaybe \<circ> res \<circ> prg) (clients s))"
    using u p by (simp add: total_def credit_def sum_list_sum_nth atLeast0LessThan sum.distrib)
qed

text \<open>
  C32. The check at the end of the overwriting test succeeds.  Whatever the network does, no client
  stops with an error; and once every client has stopped and the key exists, \<open>CheckPutConcurrent\<close>
  accepts their results: the server's version is at most the number of Puts that returned OK or ErrMaybe,
  and exactly the number that returned OK when no call had to be resent.
\<close>

theorem put_test_passes:
  assumes "\<And>e. dec (enc e) = Some e"
    and "csys_reach (put_prog enc dec randomkeys) MakeKVServer (map (put_start [key]) [0..<n]) s"
    and "nserved s < 2 ^ 63" and "length (oplog s) < 2 ^ 63"
  shows "list_all (\<lambda>c. phase c \<noteq> Failed) (clients s)
    \<and> (list_all (\<lambda>c. upc (prg c) = UDone) (clients s) \<longrightarrow> kvdata (kvs s) key \<noteq> None \<longrightarrow> (reliable \<longrightarrow> \<not> retried s)
       \<longrightarrow> CheckPutConcurrent dec key (map (res \<circ> prg) (clients s)) \<lparr>Nok = 0, Nmaybe = 0\<rparr> reliable (kvs s) \<noteq> None)"
proof (intro conjI impI)
  note inv = put_test_invariant[OF assms(1-3)]
  show "list_all (\<lambda>c. phase c \<noteq> Failed) (clients s)"
    using inv by (simp add: put_safe_def put_client_ok_def list_all_length)
  assume stop: "list_all (\<lambda>c. upc (prg c) = UDone) (clients s)" and key: "kvdata (kvs s) key \<noteq> None"
    and rel: "reliable \<longrightarrow> \<not> retried s"
  let ?ok = "sum_list (map (Nok \<circ> res \<circ> prg) (clients s))" and ?may = "sum_list (map (Nmaybe \<circ> res \<circ> prg) (clients s))"
  have tot: "total ids (clients s) = ?ok + ?may" "(\<Sum>i < length (clients s). credit (prg (clients s ! i))) = ?ok + ?may" for ids
    using total_stopped[OF _ stop] inv by auto
  obtain el where el: "kvdata (kvs s) key = Some el" using key by auto
  have "value_ok dec (elValue el) (elVersion el)" using inv el by (simp add: put_safe_def values_ok_def)
  with el obtain e where e: "GetJson dec (Get \<lparr>gKey = key\<rparr> (kvs s)) = Some (e, ver (kvs s) key)"
    by (auto simp: value_ok_def GetJson_Some Get_def ver_def2 split: option.splits)
  have sure: "?may = 0 \<and> int (unat (ver (kvs s) key)) = ?ok" if "\<not> retried s"
  proof -
    have "map (Nmaybe \<circ> res \<circ> prg) (clients s) = map (\<lambda>_. 0) (clients s)"
      using inv that by (simp add: put_counts_def sure_def)
    then have "?may = 0" by (metis sum_list_0)
    with inv that tot(1) show ?thesis by (simp add: put_counts_def)
  qed
  have "int (unat (ver (kvs s) key)) \<le> ?ok + ?may" "?ok + ?may < 2 ^ 63"
    using inv tot assms(4) by (auto simp: put_counts_def)
  then have "\<not> of_int (?ok + ?may) < ver (kvs s) key"
    by (rule word_at_most)
  moreover have "ver (kvs s) key = of_int ?ok" if "\<not> retried s"
  proof -
    have "of_int (int (unat v)) = v" for v :: Tversion by simp
    with sure[OF that] show ?thesis by metis
  qed
  ultimately show "CheckPutConcurrent dec key (map (res \<circ> prg) (clients s)) \<lparr>Nok = 0, Nmaybe = 0\<rparr> reliable (kvs s) \<noteq> None"
    using rel e by (simp add: CheckPutConcurrent_def res_sum o_assoc Let_def)
qed

theorem put_test_passes_witness:
  "case put_run of None \<Rightarrow> False
   | Some s \<Rightarrow> map (Nok \<circ> res \<circ> prg) (clients s) = [0, 1] \<and> map (Nmaybe \<circ> res \<circ> prg) (clients s) = [1, 0]
      \<and> list_all (\<lambda>c. phase c \<noteq> Failed) (clients s)
      \<and> CheckPutConcurrent plain_dec ''k'' (map (res \<circ> prg) (clients s)) \<lparr>Nok = 0, Nmaybe = 0\<rparr> False (kvs s) \<noteq> None"
proof -
  obtain s where s: "put_run = Some s" "put_view s = (4, 6, True, True, True, [0, 1], [1, 0])"
      "csys_reach (put_prog plain_enc plain_dec False) MakeKVServer (map (put_start [''k'']) [0..<2]) s" by (rule put_run_state)
  from put_test_passes[OF plain_roundtrip s(3), where reliable = False] s(2) show ?thesis unfolding s(1) by (simp add: put_view_def)
qed

end
