(* ===== verification/KvAppend.thy ===== *)
theory KvAppend
  imports KvTest
begin

text \<open>
  The appending clients of the key/value tests (\<open>OneClientAppend\<close> of \<^verbatim>\<open>kvtest1/kvtest.go\<close>) and their
  check: the list that the server stores has, for every client, entries with increasing numbers, and
  a number is missing only where a Put returned ErrMaybe.
\<close>

section \<open>The check\<close>

definition mine :: "EntryN list \<Rightarrow> int \<Rightarrow> int list" where
  "mine es c = map enN (filter (\<lambda>e. enId e = c) es)"

definition next_of :: "int \<Rightarrow> int list \<Rightarrow> int" where
  "next_of x ns = (if ns = [] then x else last ns + 1)"

lemma mine_simps [simp]:
  "mine [] c = []"
  "mine (e # es) c = (if enId e = c then enN e # mine es c else mine es c)"
  "mine (es @ es') c = mine es c @ mine es' c"
  by (simp_all add: mine_def)

text \<open>
  On increasing numbers the loop of \<open>CheckAppends\<close> ends with the number each client would use next, and
  with the count of the numbers it left out.
\<close>

lemma appends_loop_increasing:
  assumes "\<And>c. sorted_wrt (<) (mine es c)" and "\<And>c n. n \<in> set (mine es c) \<Longrightarrow> expect c \<le> n"
  shows "\<exists>skipped'. appends_loop es expect skipped = Some (\<lambda>c. next_of (expect c) (mine es c), skipped')
    \<and> (\<forall>c. skipped' c = skipped c + (next_of (expect c) (mine es c) - expect c - int (length (mine es c))))"
  using assms
proof (induction es arbitrary: expect skipped)
  case Nil
  then show ?case by (simp add: next_of_def)
next
  case (Cons e es)
  let ?ex = "expect(enId e := enN e + 1)" and ?sk = "skipped(enId e := skipped (enId e) + (enN e - expect (enId e)))"
  have le: "expect (enId e) \<le> enN e" using Cons.prems(2)[of "enN e" "enId e"] by simp
  have sorted: "sorted_wrt (<) (mine es c)" for c using Cons.prems(1)[of c] by (simp split: if_splits)
  have "?ex c \<le> n" if "n \<in> set (mine es c)" for c n
    using Cons.prems(1)[of c] Cons.prems(2)[of n c] that by (auto split: if_splits)
  from Cons.IH[where expect = ?ex and skipped = ?sk, OF sorted this] obtain sk where
    sk: "appends_loop es ?ex ?sk = Some (\<lambda>c. next_of (?ex c) (mine es c), sk)"
      "\<forall>c. sk c = ?sk c + (next_of (?ex c) (mine es c) - ?ex c - int (length (mine es c)))" by blast
  have nx: "next_of (?ex c) (mine es c) = next_of (expect c) (mine (e # es) c)" for c
    by (simp add: next_of_def)
  have "appends_loop (e # es) expect skipped = appends_loop es ?ex ?sk"
    using le by (auto simp: Let_def fun_upd_idem)
  with sk show ?case unfolding nx by (intro exI[of _ sk]) auto
qed

section \<open>The invariant\<close>

definition stored :: "(EntryN list \<Rightarrow> string) \<Rightarrow> EntryN list \<Rightarrow> KVServer \<Rightarrow> bool" where
  "stored enc es kv \<longleftrightarrow>
     kvdata kv ''k'' = Some \<lparr>elValue = enc es, elVersion = of_nat (Suc (length es))\<rparr> \<and> Suc (length es) < 2 ^ 64"

definition entries_ok :: "EntryN list \<Rightarrow> append_client \<Rightarrow> bool" where
  "entries_ok es p \<longleftrightarrow>
     nok p + nmay p = ai p \<and> 0 \<le> ai p
     \<and> sorted_wrt (<) (mine es (ame p))
     \<and> (\<forall>n \<in> set (mine es (ame p)). 0 \<le> n \<and> n \<le> ai p)
     \<and> nok p \<le> int (length (filter (\<lambda>n. n < ai p) (mine es (ame p))))"

definition prefix_ok :: "(EntryN list \<Rightarrow> string) \<Rightarrow> EntryN list \<Rightarrow> append_client client \<Rightarrow> bool" where
  "prefix_ok enc es c \<longleftrightarrow>
     (\<forall>k r. phase c = Got k r \<longrightarrow> grErr r = OK
        \<and> (\<exists>m \<le> length es. grValue r = enc (take m es) \<and> grVersion r = of_nat (Suc m)))
     \<and> (\<forall>xs v. apc (prg c) = APut xs v \<longrightarrow>
          (\<exists>m \<le> length es. xs = take m es @ [\<lparr>enId = ame (prg c), enN = ai (prg c)\<rparr>] \<and> v = of_nat (Suc m)))"

definition append_client_ok :: "(EntryN list \<Rightarrow> string) \<Rightarrow> EntryN list \<Rightarrow> (nat \<times> nat) set \<Rightarrow> nat \<Rightarrow> append_client client \<Rightarrow> bool" where
  "append_client_ok enc es ids i c \<longleftrightarrow>
     phase c \<noteq> Failed \<and> ame (prg c) = int i \<and> entries_ok es (prg c) \<and> prefix_ok enc es c
     \<and> (ai (prg c) \<in> set (mine es (int i)) \<longleftrightarrow> putting (phase c) \<and> (i, opn c) \<in> ids)"

definition append_inv :: "(EntryN list \<Rightarrow> string) \<Rightarrow> EntryN list \<Rightarrow> append_client csys \<Rightarrow> bool" where
  "append_inv enc es s \<longleftrightarrow>
     stored enc es (kvs s)
     \<and> (\<forall>e \<in> set es. 0 \<le> enId e \<and> enId e < int (length (clients s)))
     \<and> (\<forall>i < length (clients s). append_client_ok enc es (applied_ids s) i (clients s ! i))"

lemma append_act_simps:
  "act (append_prog enc dec) p = ActPut a \<longleftrightarrow> (\<exists>xs v. apc p = APut xs v \<and> a = \<lparr>pKey = ''k'', pValue = enc xs, pVersion = v\<rparr>)"
  "act (append_prog enc dec) p = ActGet k \<longleftrightarrow> apc p = AGet \<and> k = ''k''"
  "act (append_prog enc dec) p = ActPoll \<longleftrightarrow> apc p = APoll"
  by (auto simp: append_prog_def split: append_pc.splits)

lemma append_inv_client:
  assumes I: "append_inv enc es s" and t: "kvs t = kvs s" "clients t = (clients s)[i := c]"
    and ids: "applied_ids t = applied_ids s \<or> applied_ids t = insert (i, opn (clients s ! i)) (applied_ids s)"
    and c: "append_client_ok enc es (applied_ids t) i c"
  shows "append_inv enc es t"
  unfolding append_inv_def t
proof (intro conjI allI impI)
  fix j assume j: "j < length ((clients s)[i := c])"
  show "append_client_ok enc es (applied_ids t) j ((clients s)[i := c] ! j)"
  proof (cases "j = i")
    case True
    with c j show ?thesis by simp
  next
    case False
    moreover have "append_client_ok enc es (applied_ids s) j (clients s ! j)" using I j by (simp add: append_inv_def)
    ultimately show ?thesis using ids by (auto simp: append_client_ok_def)
  qed
qed (use I in \<open>auto simp: append_inv_def\<close>)

text \<open>A client that moves without touching its entries.\<close>

lemma append_client_ok_move:
  assumes "append_client_ok enc es ids i c" and "phase d \<noteq> Failed" and "prefix_ok enc es d"
    and "ame (prg d) = ame (prg c)" "ai (prg d) = ai (prg c)" "nok (prg d) = nok (prg c)" "nmay (prg d) = nmay (prg c)"
    and "putting (phase d) \<and> (i, opn d) \<in> ids' \<longleftrightarrow> putting (phase c) \<and> (i, opn c) \<in> ids"
  shows "append_client_ok enc es ids' i d"
proof -
  have "entries_ok es (prg d)" using assms(1,4-7) by (auto simp: append_client_ok_def entries_ok_def)
  with assms show ?thesis by (auto simp: append_client_ok_def)
qed

lemma stored_Get: "stored enc es kv \<Longrightarrow>
    Get \<lparr>gKey = ''k''\<rparr> kv = \<lparr>grValue = enc es, grVersion = of_nat (Suc (length es)), grErr = OK\<rparr>"
  by (simp add: stored_def Get_def)

lemma append_got_returns:
  assumes "\<And>xs. dec (enc xs) = Some xs" and "grErr r = OK" and "grValue r = enc xs"
  shows "got (append_prog enc dec) r p = Some (p\<lparr>apc := APut (xs @ [\<lparr>enId = ame p, enN = ai p\<rparr>]) (grVersion r)\<rparr>)"
  using assms by (simp add: append_prog_def append_got_def GetJson_def)

lemma append_put_returns:
  "put_done (append_prog enc dec) err p = Some (if err = OK then p\<lparr>nok := nok p + 1, ai := ai p + 1, apc := APoll\<rparr>
     else if err = ErrMaybe then p\<lparr>nmay := nmay p + 1, ai := ai p + 1, apc := APoll\<rparr> else p\<lparr>apc := AGet\<rparr>)"
  by (simp add: append_prog_def append_put_def)

section \<open>Entries\<close>

lemma filter_next:
  assumes "sorted_wrt (<) ns" and "\<forall>n \<in> set ns. n \<le> (x :: int)"
  shows "length (filter (\<lambda>n. n < x + 1) ns) = length ns"
    and "length (filter (\<lambda>n. n < x) ns) + of_bool (x \<in> set ns) = length ns"
proof -
  have "filter (\<lambda>n. n < x + 1) ns = ns" using assms(2) by (intro filter_True) auto
  then show "length (filter (\<lambda>n. n < x + 1) ns) = length ns" by simp
  have "distinct ns" using assms(1) by (simp add: strict_sorted_iff)
  then have "length (filter (\<lambda>n. n = x) ns) = of_bool (x \<in> set ns)"
    by (induction ns) auto
  moreover have "filter (\<lambda>n. \<not> n < x) ns = filter (\<lambda>n. n = x) ns" using assms(2) by (intro filter_cong) auto
  ultimately show "length (filter (\<lambda>n. n < x) ns) + of_bool (x \<in> set ns) = length ns"
    using sum_length_filter_compl[of "\<lambda>n. n < x" ns] by simp
qed

text \<open>The client turns to its next number; the entry counts as its own when it is there.\<close>

lemma entries_ok_next:
  assumes "entries_ok es p" and "ame q = ame p" and "ai q = ai p + 1"
    and "nok q = nok p + 1 \<and> nmay q = nmay p \<and> ai p \<in> set (mine es (ame p)) \<or> nok q = nok p \<and> nmay q = nmay p + 1"
  shows "entries_ok es q" and "ai q \<notin> set (mine es (ame q))"
proof -
  note e = assms(1)[unfolded entries_ok_def]
  have len: "length (filter (\<lambda>n. n < ai p) (mine es (ame p))) + of_bool (ai p \<in> set (mine es (ame p))) = length (mine es (ame p))"
    "length (filter (\<lambda>n. n < ai p + 1) (mine es (ame p))) = length (mine es (ame p))"
    using filter_next[of "mine es (ame p)" "ai p"] e by auto
  show "entries_ok es q" using e assms(2-4) len by (auto simp: entries_ok_def split: if_splits)
  show "ai q \<notin> set (mine es (ame q))" using e assms(2,3) by auto
qed

lemma entries_ok_own:
  assumes "entries_ok es p" and "ai p \<notin> set (mine es (ame p))"
  shows "entries_ok (es @ [\<lparr>enId = ame p, enN = ai p\<rparr>]) p"
proof -
  have "n < ai p" if "n \<in> set (mine es (ame p))" for n
    using assms that by (metis entries_ok_def order_le_imp_less_or_eq)
  with assms(1) show ?thesis by (simp add: entries_ok_def sorted_wrt_append)
qed

lemma entries_ok_other: "entries_ok es p \<Longrightarrow> enId e \<noteq> ame p \<Longrightarrow> entries_ok (es @ [e]) p"
  by (simp add: entries_ok_def)

lemma prefix_ok_append: "prefix_ok enc es c \<Longrightarrow> prefix_ok enc (es @ [e]) c"
  unfolding prefix_ok_def
proof (elim conjE, intro conjI allI impI)
  fix k r
  assume "\<forall>k r. phase c = Got k r \<longrightarrow> grErr r = OK
      \<and> (\<exists>m \<le> length es. grValue r = enc (take m es) \<and> grVersion r = of_nat (Suc m))" and "phase c = Got k r"
  then obtain m where "grErr r = OK" "m \<le> length es" "grValue r = enc (take m es)" "grVersion r = of_nat (Suc m)" by blast
  then show "grErr r = OK" "\<exists>m \<le> length (es @ [e]). grValue r = enc (take m (es @ [e])) \<and> grVersion r = of_nat (Suc m)"
    by (auto intro!: exI[of _ m])
next
  fix xs v
  assume "\<forall>xs v. apc (prg c) = APut xs v \<longrightarrow>
      (\<exists>m \<le> length es. xs = take m es @ [\<lparr>enId = ame (prg c), enN = ai (prg c)\<rparr>] \<and> v = of_nat (Suc m))" and "apc (prg c) = APut xs v"
  then obtain m where "m \<le> length es" "xs = take m es @ [\<lparr>enId = ame (prg c), enN = ai (prg c)\<rparr>]" "v = of_nat (Suc m)" by blast
  then show "\<exists>m \<le> length (es @ [e]). xs = take m (es @ [e]) @ [\<lparr>enId = ame (prg c), enN = ai (prg c)\<rparr>] \<and> v = of_nat (Suc m)"
    by (auto intro!: exI[of _ m])
qed

lemma unat_of_nat_small: "k < 2 ^ 64 \<Longrightarrow> unat (of_nat k :: Tversion) = k"
  by (simp add: unat_of_nat)

lemma sint_of_nat_small: "k < 2 ^ 63 \<Longrightarrow> sint (of_nat k :: Tversion) = int k"
  by (simp add: signed_of_nat signed_take_bit_int_eq_self)

text \<open>A Put that is applied adds one entry at the end.\<close>

lemma served_entry:
  assumes "stored enc es kv" and "prefix_ok enc es c" and "act (append_prog enc dec) (prg c) = ActPut a"
    and "ver kv (pKey a) = pVersion a" and "prErr (snd (Put a kv)) = OK" and "room kv"
  shows "stored enc (es @ [\<lparr>enId = ame (prg c), enN = ai (prg c)\<rparr>]) (fst (Put a kv))"
proof -
  obtain xs v where a: "apc (prg c) = APut xs v" "a = \<lparr>pKey = ''k'', pValue = enc xs, pVersion = v\<rparr>"
    using assms(3) by (auto simp: append_act_simps)
  then obtain m where m: "m \<le> length es" "xs = take m es @ [\<lparr>enId = ame (prg c), enN = ai (prg c)\<rparr>]" "v = of_nat (Suc m)"
    using assms(2) unfolding prefix_ok_def by blast
  have v: "ver kv ''k'' = of_nat (Suc (length es))" and l: "Suc (length es) < 2 ^ 64"
    using assms(1) by (auto simp: stored_def ver_def2)
  note u = unat_of_nat_small
  have "unat (of_nat (Suc m) :: Tversion) = unat (of_nat (Suc (length es)) :: Tversion)"
    using assms(4) v a m(3) by simp
  then have "m = length es" using u[of "Suc m"] u[of "Suc (length es)"] l m(1) by simp
  moreover have "unat (ver kv ''k'') + 1 < 2 ^ 64" using assms(6) by (simp add: room_def)
  then have "Suc (Suc (length es)) < 2 ^ 64" unfolding v u[OF l] by simp
  ultimately show ?thesis using assms(1,4) a m v by (simp add: stored_def Put_def add.commute)
qed

section \<open>Every step\<close>

lemma append_inv_served:
  assumes I: "append_inv enc es s" and room: "room (kvs s)" and i: "i < length (clients s)" and ph: "phase (clients s ! i) = Putting a R"
    and a: "act (append_prog enc dec) (prg (clients s ! i)) = ActPut a" "ver (kvs s) (pKey a) = pVersion a"
      "prErr (snd (Put a (kvs s))) = OK"
    and new: "(i, opn (clients s ! i)) \<notin> applied_ids s"
    and t: "kvs t = fst (Put a (kvs s))" "clients t = clients s" "applied_ids t = insert (i, opn (clients s ! i)) (applied_ids s)"
  shows "append_inv enc (es @ [\<lparr>enId = int i, enN = ai (prg (clients s ! i))\<rparr>]) t"
proof -
  let ?e = "\<lparr>enId = int i, enN = ai (prg (clients s ! i))\<rparr>"
  have c: "append_client_ok enc es (applied_ids s) j (clients s ! j)" if "j < length (clients s)" for j
    using I that by (simp add: append_inv_def)
  have "stored enc (es @ [?e]) (kvs t)"
    using served_entry[OF _ _ a room, of es] I c[OF i] t(1)
    by (simp add: append_inv_def append_client_ok_def)
  moreover have "append_client_ok enc (es @ [?e]) (applied_ids t) j (clients s ! j)" if j: "j < length (clients s)" for j
  proof (cases "j = i")
    case True
    have "entries_ok (es @ [?e]) (prg (clients s ! i))"
      using entries_ok_own[of es "prg (clients s ! i)"] c[OF i] new by (simp add: append_client_ok_def)
    with True c[OF i] ph t(3) prefix_ok_append show ?thesis by (simp add: append_client_ok_def)
  next
    case False
    then have "entries_ok (es @ [?e]) (prg (clients s ! j))"
      using c[OF j] by (intro entries_ok_other) (auto simp: append_client_ok_def)
    with False c[OF j] t(3) prefix_ok_append show ?thesis by (auto simp: append_client_ok_def)
  qed
  ultimately show ?thesis using I i t(2) by (auto simp: append_inv_def)
qed

lemma append_exec:
  assumes rt: "\<And>xs. dec (enc xs) = Some xs" and ok: "clerks_ok (append_prog enc dec) append_knows s"
    and room: "room (kvs s)" and I: "append_inv enc es s" and e: "cexec (append_prog enc dec) e s = Some t"
  shows "\<exists>es. append_inv enc es t"
proof -
  have c: "append_client_ok enc es (applied_ids s) i (clients s ! i)" if "i < length (clients s)" for i
    using I that by (simp add: append_inv_def)
  from ok room e show ?thesis
  proof (cases rule: appends.client_cases)
    case other
    with I show ?thesis by (auto simp: append_inv_def)
  next
    case (poll i inp)
    have "append_client_ok enc es (applied_ids t) i (resume (polled (append_prog enc dec) inp (prg (clients s ! i))) (clients s ! i))"
      using poll(2,7) by (intro append_client_ok_move[OF c[OF poll(1)]]; cases inp)
        (auto simp: append_prog_def resume_def prefix_ok_def)
    then show ?thesis using append_inv_client[OF I poll(5,6)] poll(7) by blast
  next
    case (start i ph)
    have "append_client_ok enc es (applied_ids t) i
        ((clients s ! i)\<lparr>phase := ph, opn := Suc (opn (clients s ! i)), started := now s\<rparr>)"
      using start(2,4,6,7) c[OF start(1)] by (intro append_client_ok_move[OF c[OF start(1)]])
        (auto simp: append_client_ok_def prefix_ok_def)
    then show ?thesis using append_inv_client[OF I start(3,5)] start(7) by blast
  next
    case (answer i key)
    then have [simp]: "key = ''k''" "apc (prg (clients s ! i)) = AGet" by (auto simp: append_act_simps)
    have "Get \<lparr>gKey = ''k''\<rparr> (kvs s) = \<lparr>grValue = enc es, grVersion = of_nat (Suc (length es)), grErr = OK\<rparr>"
      using I stored_Get by (simp add: append_inv_def)
    then have "append_client_ok enc es (applied_ids t) i ((clients s ! i)\<lparr>phase := Got key (Get \<lparr>gKey = key\<rparr> (kvs s))\<rparr>)"
      using answer(2) by (intro append_client_ok_move[OF c[OF answer(1)]]) (auto simp: prefix_ok_def intro!: exI[of _ "length es"])
    then show ?thesis using append_inv_client[OF I answer(3,6)] answer(7) by blast
  next
    case (got i key r)
    then obtain m where m: "grErr r = OK" "m \<le> length es" "grValue r = enc (take m es)" "grVersion r = of_nat (Suc m)"
      using c[OF got(1)] unfolding append_client_ok_def prefix_ok_def by blast
    note g = append_got_returns[OF rt m(1,3), of "prg (clients s ! i)"]
    have "append_client_ok enc es (applied_ids t) i (resume (got (append_prog enc dec) r (prg (clients s ! i))) (clients s ! i))"
      unfolding g using got(2,8) m by (intro append_client_ok_move[OF c[OF got(1)]]) (auto simp: resume_def prefix_ok_def)
    then show ?thesis using append_inv_client[OF I got(3,7)] got(8) by blast
  next
    case (retry i a R)
    have "append_client_ok enc es (applied_ids t) i ((clients s ! i)\<lparr>phase := Putting a (Suc R)\<rparr>)"
      using retry(2,5) c[OF retry(1)] by (intro append_client_ok_move[OF c[OF retry(1)]])
        (auto simp: append_client_ok_def prefix_ok_def)
    then show ?thesis using append_inv_client[OF I retry(3,4)] retry(5) by blast
  next
    case (served i a R)
    then show ?thesis using append_inv_served[OF I room served(1-4,6,5,7-9)] by blast
  next
    case (returned i a R err)
    note ci = c[OF returned(1), unfolded append_client_ok_def]
    let ?p = "prg (clients s ! i)"
    let ?c = "resume (put_done (append_prog enc dec) err ?p) (clients s ! i)"
    have own: "err = OK \<Longrightarrow> ai ?p \<in> set (mine es (ame ?p))" "err = ErrVersion \<Longrightarrow> ai ?p \<notin> set (mine es (int i))"
      using ci returned(2,7) by auto
    have "append_client_ok enc es (applied_ids t) i ?c"
    proof (cases "err = ErrVersion")
      case True
      then show ?thesis using own(2) ci returned(2) unfolding append_put_returns
        by (intro append_client_ok_move[OF c[OF returned(1)]]) (auto simp: resume_def prefix_ok_def)
    next
      case False
      obtain q where q: "put_done (append_prog enc dec) err ?p = Some q" "ame q = ame ?p" "ai q = ai ?p + 1" "apc q = APoll"
          "nok q = nok ?p + 1 \<and> nmay q = nmay ?p \<and> ai ?p \<in> set (mine es (ame ?p)) \<or> nok q = nok ?p \<and> nmay q = nmay ?p + 1"
        unfolding append_put_returns using False returned(7) own(1) by (cases "err = OK") auto
      have "entries_ok es q" "ai q \<notin> set (mine es (ame q))" using entries_ok_next[OF _ q(2,3,5)] ci by auto
      then show ?thesis using ci q(2,4) unfolding q(1) by (simp add: append_client_ok_def resume_def prefix_ok_def)
    qed
    then show ?thesis using append_inv_client[OF I returned(3,8)] returned(9) by blast
  qed
qed

section \<open>The appending clients pass their check\<close>

lemma cexec_nclients: "cexec P e s = Some t \<Longrightarrow> length (clients t) = length (clients s)"
  by (erule cexec_cases) (auto simp: set_client_def start_get_def start_put_def answer_get_def finish_get_def
      retry_put_def finish_put_def serve_put_def Let_def split: prod.splits)

definition append_server :: "(EntryN list \<Rightarrow> string) \<Rightarrow> KVServer" where
  "append_server enc = fst (Put \<lparr>pKey = ''k'', pValue = enc [], pVersion = 0\<rparr> MakeKVServer)"

lemma append_test_invariant:
  assumes "\<And>xs. dec (enc xs) = Some xs"
    and "csys_reach (append_prog enc dec) (append_server enc) (map append_start [0..<n]) s" and "nserved s < 2 ^ 63"
  shows "appends.sound enc dec (append_server enc) s \<and> ((\<exists>es. append_inv enc es s) \<and> length (clients s) = n)"
proof (rule appends.sound_invariant[OF assms(2,3)])
  have "append_inv enc [] (csys_boot (append_server enc) (map append_start [0..<n]))"
    by (simp add: append_inv_def append_client_ok_def stored_def entries_ok_def prefix_ok_def csys_boot_def append_server_def
        append_start_def Put_def MakeKVServer_def)
  then show "(\<exists>es. append_inv enc es (csys_boot (append_server enc) (map append_start [0..<n])))
      \<and> length (clients (csys_boot (append_server enc) (map append_start [0..<n]))) = n"
    by (auto simp: csys_boot_def)
next
  fix s t e
  assume "appends.sound enc dec (append_server enc) s" "room (kvs s)" "(\<exists>es. append_inv enc es s) \<and> length (clients s) = n"
    and e: "cexec (append_prog enc dec) e s = Some t"
  then show "(\<exists>es. append_inv enc es t) \<and> length (clients t) = n"
    using append_exec[OF assms(1) _ _ _ e] cexec_nclients[OF e] by (auto simp: appends.sound_def)
next
  show "unat (ver (append_server enc) k) \<le> 1" for k
    by (simp add: append_server_def Put_def MakeKVServer_def ver_def2)
qed (auto simp: append_knows_def append_start_def)

lemma mine_stranger: "\<forall>e \<in> set es. enId e \<noteq> c \<Longrightarrow> mine es c = []"
  by (simp add: mine_def filter_empty_conv)

text \<open>What the check compares for one client that has stopped.\<close>

lemma entries_ok_stopped:
  assumes "entries_ok es p" and "ai p \<notin> set (mine es (ame p))"
  shows "next_of 0 (mine es (ame p)) \<le> nok p + nmay p"
    and "next_of 0 (mine es (ame p)) - int (length (mine es (ame p))) \<le> nmay p"
proof -
  note e = assms(1)[unfolded entries_ok_def]
  have "n < ai p" if "n \<in> set (mine es (ame p))" for n using e assms(2) that by (metis order_le_imp_less_or_eq)
  then have "last (mine es (ame p)) < ai p" if "mine es (ame p) \<noteq> []" using that last_in_set by blast
  then show le: "next_of 0 (mine es (ame p)) \<le> nok p + nmay p" using e by (auto simp: next_of_def)
  have "nok p \<le> int (length (mine es (ame p)))"
    using filter_next(2)[of "mine es (ame p)" "ai p"] e assms(2) by auto
  with le show "next_of 0 (mine es (ame p)) - int (length (mine es (ame p))) \<le> nmay p" by linarith
qed

lemma CheckAppends_passes:
  assumes "\<forall>e \<in> set es. 0 \<le> enId e \<and> enId e < int (length ps)"
    and "\<And>i. i < length ps \<Longrightarrow> ame (ps ! i) = int i \<and> entries_ok es (ps ! i) \<and> ai (ps ! i) \<notin> set (mine es (int i))"
    and "sint v = int (length es) + 1"
  shows "CheckAppends es (length ps) (map (\<lambda>p. \<lparr>Nok = nok p, Nmaybe = nmay p\<rparr>) ps) v = Some ()"
proof -
  have "sorted_wrt (<) (mine es c) \<and> (\<forall>n \<in> set (mine es c). 0 \<le> n)" for c
  proof (cases "\<exists>i < length ps. c = int i")
    case True
    with assms(2) show ?thesis by (metis entries_ok_def)
  next
    case False
    then have "\<forall>e \<in> set es. enId e \<noteq> c" using assms(1) by (metis zero_le_imp_eq_int of_nat_less_iff)
    then show ?thesis by (simp add: mine_stranger)
  qed
  then obtain sk where loop: "appends_loop es (\<lambda>_. 0) (\<lambda>_. 0) = Some (\<lambda>c. next_of 0 (mine es c), sk)"
      "\<And>c. sk c = next_of 0 (mine es c) - int (length (mine es c))"
    using appends_loop_increasing[of es "\<lambda>_. 0" "\<lambda>_. 0"] by auto
  have "(case go_nth (map (\<lambda>p. \<lparr>Nok = nok p, Nmaybe = nmay p\<rparr>) ps) c of None \<Rightarrow> False
      | Some r \<Rightarrow> \<not> sk c > Nmaybe r \<and> \<not> next_of 0 (mine es c) > Nok r + Nmaybe r)"
    if "0 \<le> c" "c < int (length ps)" for c
  proof -
    obtain i where i: "c = int i" "i < length ps" using \<open>0 \<le> c\<close> \<open>c < int (length ps)\<close> by (metis zero_le_imp_eq_int of_nat_less_iff)
    with assms(2)[OF i(2)] entries_ok_stopped[of es "ps ! i"] loop(2)[of c] show ?thesis by (simp add: go_nth_def)
  qed
  moreover have "0 \<le> c \<and> c < int (length ps)" if "c \<in> set (map int [0..<length ps] @ map enId es)" for c
    using that assms(1) by auto
  ultimately have "list_all (\<lambda>c. case go_nth (map (\<lambda>p. \<lparr>Nok = nok p, Nmaybe = nmay p\<rparr>) ps) c of None \<Rightarrow> False
      | Some r \<Rightarrow> \<not> sk c > Nmaybe r \<and> \<not> next_of 0 (mine es c) > Nok r + Nmaybe r) (map int [0..<length ps] @ map enId es)"
    unfolding list_all_iff by blast
  with assms(3) loop(1) show ?thesis by (simp add: CheckAppends_def)
qed

lemma append_stopped_ready:
  assumes "clerks_ok (append_prog enc dec) append_knows s" and "i < length (clients s)"
    and "apc (prg (clients s ! i)) = ADone"
  shows "\<not> putting (phase (clients s ! i))"
  using appends.client_holds[OF assms(1,2)] assms(3)
  by (cases "phase (clients s ! i)") (auto simp: client_ok_def append_prog_def)

text \<open>
  C33. The check at the end of the appending test succeeds.  Clients append numbered entries to one list,
  reading it and putting it back under the version they read.  Whatever the network does, no client
  stops with an error, and once all have stopped the list the server stores passes \<open>CheckAppends\<close>: it
  has as many entries as Puts were applied, each client's entries have increasing numbers, none is
  there twice, no more numbers are missing than Puts of that client returned ErrMaybe, and none is beyond
  the client's count.
\<close>

theorem append_test_passes:
  assumes rt: "\<And>xs. dec (enc xs) = Some xs"
    and reach: "csys_reach (append_prog enc dec) (append_server enc) (map append_start [0..<n]) s" and small: "nserved s < 2 ^ 62"
  shows "list_all (\<lambda>c. phase c \<noteq> Failed) (clients s)
    \<and> (list_all (\<lambda>c. apc (prg c) = ADone) (clients s) \<longrightarrow>
         (case GetJson dec (Get \<lparr>gKey = ''k''\<rparr> (kvs s)) of
            None \<Rightarrow> False
          | Some (es, v) \<Rightarrow>
              CheckAppends es n (map (\<lambda>c. \<lparr>Nok = nok (prg c), Nmaybe = nmay (prg c)\<rparr>) (clients s)) v = Some ()))"
proof -
  have "nserved s < 2 ^ 63" using small by simp
  from append_test_invariant[OF rt reach this] obtain es where
    snd: "clerks_ok (append_prog enc dec) append_knows s" "counted s" and I: "append_inv enc es s" and n: "length (clients s) = n"
    by (auto simp: appends.sound_def)
  have c: "append_client_ok enc es (applied_ids s) i (clients s ! i)" if "i < n" for i
    using I n that by (simp add: append_inv_def)
  have st: "stored enc es (kvs s)" using I by (simp add: append_inv_def)
  then have g: "GetJson dec (Get \<lparr>gKey = ''k''\<rparr> (kvs s)) = Some (es, of_nat (Suc (length es)))"
    using rt by (simp add: stored_Get GetJson_def)
  have "unat (ver (kvs s) ''k'') = Suc (length es)" using st unat_of_nat_small[of "Suc (length es)"] by (simp add: stored_def ver_def2)
  moreover have "unat (ver (kvs s) ''k'') \<le> Suc (nserved s)" using snd(2) by (simp add: counted_def)
  ultimately have "Suc (length es) < 2 ^ 63" using small by simp
  then have v: "sint (of_nat (Suc (length es)) :: Tversion) = int (length es) + 1"
    using sint_of_nat_small[of "Suc (length es)"] by simp
  have "CheckAppends es n (map (\<lambda>c. \<lparr>Nok = nok (prg c), Nmaybe = nmay (prg c)\<rparr>) (clients s)) (of_nat (Suc (length es))) = Some ()"
    if stop: "list_all (\<lambda>c. apc (prg c) = ADone) (clients s)"
  proof -
    have "\<not> putting (phase (clients s ! i))" if "i < n" for i
      using append_stopped_ready[OF snd(1)] stop n that by (simp add: list_all_length)
    with c have "ame (prg (clients s ! i)) = int i \<and> entries_ok es (prg (clients s ! i))
        \<and> ai (prg (clients s ! i)) \<notin> set (mine es (int i))" if "i < n" for i
      using that by (simp add: append_client_ok_def)
    with CheckAppends_passes[of es "map prg (clients s)", OF _ _ v] I n show ?thesis by (simp add: append_inv_def o_def)
  qed
  with g c n show ?thesis by (simp add: list_all_length append_client_ok_def)
qed

section \<open>A run of the appending clients\<close>

definition plain_encs :: "EntryN list \<Rightarrow> string" where
  "plain_encs es = concat (map (\<lambda>e. unary (enId e) @ unary (enN e)) es)"

fun pair_up :: "int list \<Rightarrow> EntryN list" where
  "pair_up (a # b # xs) = \<lparr>enId = a, enN = b\<rparr> # pair_up xs"
| "pair_up xs = []"

definition plain_decs :: "string \<Rightarrow> EntryN list option" where
  "plain_decs s = Some (pair_up (unary_ints 1 0 s))"

lemma plain_roundtrips: "plain_decs (plain_encs es) = Some es"
proof -
  have "pair_up (unary_ints 1 0 (plain_encs es)) = es"
    by (induction es) (simp_all add: plain_encs_def unary_ints_unary)
  then show ?thesis by (simp add: plain_decs_def)
qed

text \<open>
  Both clients read the empty list.  The Put of client 0 is applied and its reply lost; client 1 is
  refused, reads again and succeeds.  Client 0 resends and gets ErrMaybe; then it appends once more.
\<close>

definition append_run :: "append_client csys option" where
  "append_run =
     crun (append_prog plain_encs plain_decs)
       [CStep 0 (Some 0), CStep 0 None, CAnswer 0, CReturn 0, CStep 1 (Some 0), CStep 1 None, CAnswer 1, CReturn 1,
        CStep 0 None, CStep 1 None, CServe 0, CLoseReply 0, CServe 0, CReply 0,
        CStep 1 None, CAnswer 1, CReturn 1, CStep 1 None, CServe 0, CReply 1, CStep 1 None,
        CTimeout 0, CServe 0, CReply 2, CStep 0 (Some 0), CStep 0 None, CAnswer 0, CReturn 0, CStep 0 None, CServe 0, CReply 3,
        CStep 0 None]
       (csys_boot (append_server plain_encs) (map append_start [0..<2]))"

definition append_view :: "append_client csys \<Rightarrow> nat \<times> bool \<times> int list \<times> int list \<times> (int \<times> int) list option" where
  "append_view s =
     (nserved s, list_all (\<lambda>c. apc (prg c) = ADone) (clients s), map (nok \<circ> prg) (clients s), map (nmay \<circ> prg) (clients s),
      map_option (map (\<lambda>e. (enId e, enN e)) \<circ> fst) (GetJson plain_decs (Get \<lparr>gKey = ''k''\<rparr> (kvs s))))"

lemma append_run_view:
  "map_option append_view append_run = Some (5, True, [1, 1], [1, 0], Some [(0, 0), (1, 0), (0, 1)])"
  by code_simp

theorem append_test_passes_witness:
  "case append_run of None \<Rightarrow> False
   | Some s \<Rightarrow> map (nok \<circ> prg) (clients s) = [1, 1] \<and> map (nmay \<circ> prg) (clients s) = [1, 0]
      \<and> (case GetJson plain_decs (Get \<lparr>gKey = ''k''\<rparr> (kvs s)) of
           None \<Rightarrow> False
         | Some (es, v) \<Rightarrow> map (\<lambda>e. (enId e, enN e)) es = [(0, 0), (1, 0), (0, 1)]
             \<and> CheckAppends es 2 (map (\<lambda>c. \<lparr>Nok = nok (prg c), Nmaybe = nmay (prg c)\<rparr>) (clients s)) v = Some ())"
proof -
  obtain s where s: "append_run = Some s" "append_view s = (5, True, [1, 1], [1, 0], Some [(0, 0), (1, 0), (0, 1)])"
    using append_run_view by (auto simp only: map_option_eq_Some)
  have reach: "csys_reach (append_prog plain_encs plain_decs) (append_server plain_encs) (map append_start [0..<2]) s"
    using s(1) unfolding append_run_def by (rule crun_reach)
  from append_test_passes[OF plain_roundtrips reach] s(2) show ?thesis unfolding s(1)
    by (auto simp: append_view_def split: option.splits)
qed

end
