(* ===== verification/GoLib.thy ===== *)
theory GoLib
  imports Prelude "HOL-Library.Word" "HOL-Library.List_Lexorder" "HOL-Library.Char_ord"
    "HOL-Library.Multiset"
begin

text \<open>
  What the programs use of Go's standard library on strings: \<^verbatim>\<open>hash/fnv\<close>, \<^verbatim>\<open>strconv.Itoa\<close>,
  \<^verbatim>\<open>strings.FieldsFunc\<close>, \<^verbatim>\<open>strings.Join\<close> and \<^verbatim>\<open>path/filepath.Base\<close>.  Strings are sequences of
  bytes; \<^verbatim>\<open>unicode.IsLetter\<close> is given for ASCII text.
\<close>

unbundle bit_operations_syntax

section \<open>Hashing\<close>

text \<open>The 32-bit FNV-1a hash.\<close>

definition fnv32a :: "string \<Rightarrow> 32 word" where
  "fnv32a key = foldl (\<lambda>h c. (h XOR of_char c) * 16777619) 2166136261 key"

section \<open>Decimal numbers\<close>

fun itoa_nat :: "nat \<Rightarrow> string" where
  "itoa_nat n = (if n < 10 then [char_of (48 + n)] else itoa_nat (n div 10) @ [char_of (48 + n mod 10)])"

declare itoa_nat.simps [simp del]

definition Itoa :: "int \<Rightarrow> string" where
  "Itoa i = (if i < 0 then ''-'' @ itoa_nat (nat (- i)) else itoa_nat (nat i))"

fun atoi_digits :: "nat \<Rightarrow> string \<Rightarrow> nat" where
  "atoi_digits acc [] = acc"
| "atoi_digits acc (c # cs) = atoi_digits (acc * 10 + (of_char c - 48)) cs"

lemma atoi_append: "atoi_digits acc (xs @ ys) = atoi_digits (atoi_digits acc xs) ys"
  by (induction xs arbitrary: acc) auto

lemma atoi_itoa: "atoi_digits 0 (itoa_nat n) = n"
proof (induction n rule: itoa_nat.induct)
  case (1 n)
  have digit: "of_char (char_of (48 + d) :: char) = 48 + d" if "d < 10" for d :: nat
    using that by (simp add: of_char_of)
  show ?case
  proof (cases "n < 10")
    case True
    then show ?thesis by (subst itoa_nat.simps) (simp add: digit)
  next
    case False
    have "n mod 10 < 10" by simp
    note d = digit[OF this]
    from False 1 show ?thesis by (subst itoa_nat.simps) (simp add: atoi_append d)
  qed
qed

lemma itoa_inj: "itoa_nat m = itoa_nat n \<longleftrightarrow> m = n"
  by (metis atoi_itoa)

section \<open>Words\<close>

definition isLetter :: "char \<Rightarrow> bool" where
  "isLetter c \<longleftrightarrow> (let n = of_char c :: nat in 65 \<le> n \<and> n \<le> 90 \<or> 97 \<le> n \<and> n \<le> 122)"

text \<open>\<open>FieldsFunc\<close>: the maximal runs of characters that are not separators; \<open>acc\<close> is the current one.\<close>

fun fields_loop :: "(char \<Rightarrow> bool) \<Rightarrow> string \<Rightarrow> string \<Rightarrow> string list" where
  "fields_loop f acc [] = (if acc = [] then [] else [acc])"
| "fields_loop f acc (c # cs) =
     (if f c then (if acc = [] then fields_loop f [] cs else acc # fields_loop f [] cs)
      else fields_loop f (acc @ [c]) cs)"

definition FieldsFunc :: "(char \<Rightarrow> bool) \<Rightarrow> string \<Rightarrow> string list" where
  "FieldsFunc f s = fields_loop f [] s"

lemma fields_loop_words:
  assumes "\<forall>c \<in> set acc. \<not> f c" and "w \<in> set (fields_loop f acc s)"
  shows "w \<noteq> [] \<and> (\<forall>c \<in> set w. \<not> f c)"
  using assms
proof (induction s arbitrary: acc)
  case Nil
  then show ?case by (cases "acc = []") simp_all
next
  case (Cons c cs)
  show ?case
  proof (cases "f c")
    case True
    with Cons.prems(2) have "w = acc \<and> acc \<noteq> [] \<or> w \<in> set (fields_loop f [] cs)"
      by (cases "acc = []") simp_all
    moreover have ?thesis if "w \<in> set (fields_loop f [] cs)"
      by (rule Cons.IH[OF _ that]) simp
    ultimately show ?thesis using Cons.prems(1) by blast
  next
    case False
    then have "w \<in> set (fields_loop f (acc @ [c]) cs)" using Cons.prems(2) by simp
    moreover have "\<forall>c \<in> set (acc @ [c]). \<not> f c" using False Cons.prems(1) by simp
    ultimately show ?thesis by (rule Cons.IH[rotated])
  qed
qed

lemma fields_loop_chars:
  assumes "\<forall>c \<in> set acc. \<not> f c"
  shows "concat (fields_loop f acc s) = acc @ filter (\<lambda>c. \<not> f c) s"
  using assms by (induction s arbitrary: acc) auto

fun StrJoin :: "string list \<Rightarrow> string \<Rightarrow> string" where
  "StrJoin [] sep = []"
| "StrJoin [s] sep = s"
| "StrJoin (s # ss) sep = s @ sep @ StrJoin ss sep"

section \<open>Paths\<close>

text \<open>\<open>filepath.Base\<close> of a path that is not empty and does not end in a slash.\<close>

definition Base :: "string \<Rightarrow> string" where
  "Base path = rev (takeWhile (\<lambda>c. c \<noteq> CHR ''/'') (rev path))"

end
