(* ===== verification/LabRpc.thy ===== *)
theory LabRpc
  imports Prelude "HOL-Library.Word"
begin

text \<open>
  The simulated network of \<^verbatim>\<open>labrpc/labrpc.go\<close>: client end-points, the network with its switches,
  servers with their services, and the life of one RPC.

  Names are strings and encoded values are sequences of bytes.  \<^verbatim>\<open>*Server\<close> pointers are addresses into a
  heap of server objects, since \<open>isServerDead\<close> compares pointers.  A server object has a state of
  type \<open>'s\<close>; a method maps the encoded arguments and that state to a new state and the encoded
  reply, and runs atomically.  \<^verbatim>\<open>log.Fatal\<close>, nil dereferences and slice errors are \<open>None\<close>.  The
  random decisions of \<open>processReq\<close> are arguments; its pauses only choose among interleavings.
\<close>

type_synonym bytes = string

record reqMsg =
  rqEndname :: string
  rqSvcMeth :: string
  rqArgs :: bytes

record replyMsg =
  rmOk :: bool
  rmReply :: bytes

abbreviation no_reply :: replyMsg where
  "no_reply \<equiv> \<lparr>rmOk = False, rmReply = []\<rparr>"

section \<open>Servers and services\<close>

type_synonym 's meth = "bytes \<Rightarrow> 's \<Rightarrow> 's \<times> bytes"

record 's Service =
  svcName :: string
  svcMethods :: "string \<rightharpoonup> 's meth"

text \<open>What reflection tells of a method: the package path is empty for an exported one.\<close>

record 's method_info =
  mName :: string
  mPkgPath :: string
  mNumIn :: nat
  mIn2Ptr :: bool
  mNumOut :: nat
  mFunc :: "'s meth"

definition MakeService :: "string \<Rightarrow> 's method_info list \<Rightarrow> 's Service" where
  "MakeService tname ms =
     \<lparr>svcName = tname,
      svcMethods = fold (\<lambda>m tab.
        if mPkgPath m \<noteq> [] \<or> mNumIn m \<noteq> 3 \<or> \<not> mIn2Ptr m \<or> mNumOut m \<noteq> 0 then tab
        else tab(mName m \<mapsto> mFunc m)) ms Map.empty\<rparr>"

record 's Server =
  rcvr :: 's
  services :: "string \<rightharpoonup> 's Service"
  scount :: int
  dispatchf :: "(string \<Rightarrow> bytes \<Rightarrow> 's \<Rightarrow> 's \<times> bytes \<times> bool) option"

definition MakeServer :: "'s \<Rightarrow> 's Server" where
  "MakeServer s = \<lparr>rcvr = s, services = Map.empty, scount = 0, dispatchf = None\<rparr>"

definition SetDispatch :: "(string \<Rightarrow> bytes \<Rightarrow> 's \<Rightarrow> 's \<times> bytes \<times> bool) \<Rightarrow> 's Server \<Rightarrow> 's Server" where
  "SetDispatch f rs = rs\<lparr>dispatchf := Some f\<rparr>"

definition AddService :: "'s Service \<Rightarrow> 's Server \<Rightarrow> 's Server" where
  "AddService svc rs = rs\<lparr>services := (services rs)(svcName svc \<mapsto> svc)\<rparr>"

text \<open>\<open>dot := strings.LastIndex(s, ".")\<close>, \<open>s[:dot]\<close> and \<open>s[dot+1:]\<close>: a panic when there is no dot.\<close>

definition split_method :: "string \<Rightarrow> (string \<times> string) option" where
  "split_method s =
     (if CHR ''.'' \<in> set s
      then Some (rev (tl (dropWhile (\<lambda>c. c \<noteq> CHR ''.'') (rev s))),
                 rev (takeWhile (\<lambda>c. c \<noteq> CHR ''.'') (rev s)))
      else None)"

definition Service_dispatch :: "string \<Rightarrow> reqMsg \<Rightarrow> 's Service \<Rightarrow> 's \<Rightarrow> ('s \<times> replyMsg) option" where
  "Service_dispatch methname req svc s =
     (case svcMethods svc methname of
        None \<Rightarrow> None
      | Some f \<Rightarrow> (case f (rqArgs req) s of (s', b) \<Rightarrow> Some (s', \<lparr>rmOk = True, rmReply = b\<rparr>)))"

definition Server_dispatch :: "reqMsg \<Rightarrow> 's Server \<Rightarrow> ('s Server \<times> replyMsg) option" where
  "Server_dispatch req rs = do {
     let rs = rs\<lparr>scount := scount rs + 1\<rparr>;
     (serviceName, methodName) \<leftarrow> split_method (rqSvcMeth req);
     (case dispatchf rs of
        Some f \<Rightarrow>
          (case f (rqSvcMeth req) (rqArgs req) (rcvr rs) of
             (s, rep, good) \<Rightarrow> Some (rs\<lparr>rcvr := s\<rparr>, \<lparr>rmOk = good, rmReply = rep\<rparr>))
      | None \<Rightarrow> do {
          svc \<leftarrow> services rs serviceName;
          (s, r) \<leftarrow> Service_dispatch methodName req svc (rcvr rs);
          Some (rs\<lparr>rcvr := s\<rparr>, r)
        })
   }"

definition Server_Dispatch :: "string \<Rightarrow> string \<Rightarrow> bytes \<Rightarrow> 's Server \<Rightarrow> ('s Server \<times> bytes \<times> bool) option"
  where
  "Server_Dispatch svcMeth clnt b rs = do {
     (rs, rep) \<leftarrow> Server_dispatch \<lparr>rqEndname = clnt, rqSvcMeth = svcMeth, rqArgs = b\<rparr> rs;
     Some (rs, rmReply rep, rmOk rep)
   }"

section \<open>The network\<close>

text \<open>An end-point; with a \<open>callf\<close>, as in a daemon, a call goes to that function instead of the network.\<close>

record ClientEnd =
  ceName :: string
  callf :: "(string \<Rightarrow> string \<Rightarrow> bytes \<Rightarrow> bytes \<times> bool) option"

definition SetCall :: "(string \<Rightarrow> string \<Rightarrow> bytes \<Rightarrow> bytes \<times> bool) \<Rightarrow> ClientEnd \<Rightarrow> ClientEnd" where
  "SetCall f e = e\<lparr>callf := Some f\<rparr>"

definition Call_callf :: "(string \<Rightarrow> string \<Rightarrow> bytes \<Rightarrow> bytes \<times> bool) \<Rightarrow> ClientEnd \<Rightarrow> string \<Rightarrow> bytes \<Rightarrow> bool \<times> bytes"
  where
  "Call_callf f e svcMeth b =
     (case f (ceName e) svcMeth b of (rep, good) \<Rightarrow> if \<not> good then (False, []) else (True, rep))"

record Network =
  reliable :: bool
  longDelays :: bool
  longReordering :: bool
  ends :: "string \<rightharpoonup> ClientEnd"
  enabled :: "string \<rightharpoonup> bool"
  servers :: "string \<rightharpoonup> nat option"
  connections :: "string \<rightharpoonup> string option"
  closed :: bool
  ncount :: "32 word"
  nbytes :: "64 word"

definition MakeNetwork :: Network where
  "MakeNetwork =
     \<lparr>reliable = True, longDelays = False, longReordering = False, ends = Map.empty, enabled = Map.empty,
      servers = Map.empty, connections = Map.empty, closed = False, ncount = 0, nbytes = 0\<rparr>"

text \<open>The loop of \<open>MakeNetwork\<close> counts a request before it starts \<open>processReq\<close>.\<close>

definition count_request :: "reqMsg \<Rightarrow> Network \<Rightarrow> Network" where
  "count_request xreq rn =
     rn\<lparr>ncount := ncount rn + 1, nbytes := nbytes rn + of_nat (length (rqArgs xreq))\<rparr>"

text \<open>Closing a closed channel is a panic.\<close>

definition Cleanup :: "Network \<Rightarrow> Network option" where
  "Cleanup rn = (if closed rn then None else Some (rn\<lparr>closed := True\<rparr>))"

definition Reliable :: "bool \<Rightarrow> Network \<Rightarrow> Network" where
  "Reliable yes rn = rn\<lparr>reliable := yes\<rparr>"

definition LongReordering :: "bool \<Rightarrow> Network \<Rightarrow> Network" where
  "LongReordering yes rn = rn\<lparr>longReordering := yes\<rparr>"

definition LongDelays :: "bool \<Rightarrow> Network \<Rightarrow> Network" where
  "LongDelays yes rn = rn\<lparr>longDelays := yes\<rparr>"

definition IsReliable :: "Network \<Rightarrow> bool" where
  "IsReliable rn = reliable rn"

definition IsLongDelays :: "Network \<Rightarrow> bool" where
  "IsLongDelays rn = longDelays rn"

text \<open>A Go map lookup gives the zero value (\<^verbatim>\<open>false\<close>, \<^verbatim>\<open>nil\<close>) for a missing key.\<close>

definition is_enabled :: "string \<Rightarrow> Network \<Rightarrow> bool" where
  "is_enabled e rn = (case enabled rn e of None \<Rightarrow> False | Some b \<Rightarrow> b)"

definition server_at :: "string \<Rightarrow> Network \<Rightarrow> nat option" where
  "server_at name rn = (case servers rn name of None \<Rightarrow> None | Some p \<Rightarrow> p)"

definition connection :: "string \<Rightarrow> Network \<Rightarrow> string option" where
  "connection e rn = (case connections rn e of None \<Rightarrow> None | Some p \<Rightarrow> p)"

definition readEndnameInfo :: "string \<Rightarrow> Network \<Rightarrow> bool \<times> string option \<times> nat option \<times> bool \<times> bool" where
  "readEndnameInfo e rn =
     (let servername = connection e rn;
          server = (case servername of None \<Rightarrow> None | Some name \<Rightarrow> server_at name rn)
      in (is_enabled e rn, servername, server, reliable rn, longReordering rn))"

definition isServerDead :: "string \<Rightarrow> string \<Rightarrow> nat \<Rightarrow> Network \<Rightarrow> bool" where
  "isServerDead e servername server rn \<longleftrightarrow>
     is_enabled e rn = False \<or> server_at servername rn \<noteq> Some server"

definition MakeEnd :: "string \<Rightarrow> Network \<Rightarrow> Network option" where
  "MakeEnd e rn =
     (if ends rn e \<noteq> None then None
      else Some (rn\<lparr>ends := (ends rn)(e \<mapsto> \<lparr>ceName = e, callf = None\<rparr>), enabled := (enabled rn)(e \<mapsto> False),
                    connections := (connections rn)(e \<mapsto> None)\<rparr>))"

definition LookupEnd :: "string \<Rightarrow> Network \<Rightarrow> ClientEnd option" where
  "LookupEnd e rn = ends rn e"

definition DeleteEnd :: "string \<Rightarrow> Network \<Rightarrow> Network option" where
  "DeleteEnd e rn =
     (if ends rn e = None then None
      else Some (rn\<lparr>ends := (ends rn)(e := None), enabled := (enabled rn)(e := None),
                    connections := (connections rn)(e := None)\<rparr>))"

definition AddServer :: "string \<Rightarrow> nat \<Rightarrow> Network \<Rightarrow> Network" where
  "AddServer servername rs rn = rn\<lparr>servers := (servers rn)(servername \<mapsto> Some rs)\<rparr>"

definition DeleteServer :: "string \<Rightarrow> Network \<Rightarrow> Network" where
  "DeleteServer servername rn = rn\<lparr>servers := (servers rn)(servername \<mapsto> None)\<rparr>"

definition Connect :: "string \<Rightarrow> string \<Rightarrow> Network \<Rightarrow> Network" where
  "Connect e servername rn = rn\<lparr>connections := (connections rn)(e \<mapsto> Some servername)\<rparr>"

definition Enable :: "string \<Rightarrow> bool \<Rightarrow> Network \<Rightarrow> Network" where
  "Enable e b rn = rn\<lparr>enabled := (enabled rn)(e \<mapsto> b)\<rparr>"

text \<open>\<open>GetCount\<close> dereferences the pointer of the server table.\<close>

definition Network_GetCount :: "string \<Rightarrow> Network \<Rightarrow> (nat \<Rightarrow> 's Server) \<Rightarrow> int option" where
  "Network_GetCount servername rn heap =
     (case server_at servername rn of None \<Rightarrow> None | Some p \<Rightarrow> Some (scount (heap p)))"

definition GetTotalCount :: "Network \<Rightarrow> int" where
  "GetTotalCount rn = sint (ncount rn)"

definition GetTotalBytes :: "Network \<Rightarrow> int" where
  "GetTotalBytes rn = sint (nbytes rn)"

definition Server_GetCount :: "'s Server \<Rightarrow> int" where
  "Server_GetCount rs = scount rs"

section \<open>The life of an RPC\<close>

text \<open>
  Where the goroutine of \<open>processReq\<close> is: the request was taken from \<^verbatim>\<open>endCh\<close>; it waits for the
  handler, with what it read of the network; it has a reply for the caller; the caller has it.
\<close>

datatype rpc_pc =
    PSent
  | PWait string nat bool bool
  | PReply replyMsg
  | PDone replyMsg

text \<open>The goroutine that runs the handler: not started, started on a server, finished.\<close>

datatype handler_pc = HNone | HRun nat | HDone nat replyMsg

record rpc =
  rreq :: reqMsg
  rpc :: rpc_pc
  rhandler :: handler_pc

text \<open>The first half of \<open>processReq\<close>; \<open>drop\<close> is the outcome of \<^verbatim>\<open>(rand.Int()%1000) < 100\<close>.\<close>

definition processReq_start :: "bool \<Rightarrow> reqMsg \<Rightarrow> Network \<Rightarrow> rpc_pc \<times> handler_pc" where
  "processReq_start dropped req rn =
     (case readEndnameInfo (rqEndname req) rn of
        (True, Some servername, Some server, rel, lre) \<Rightarrow>
          if \<not> rel \<and> dropped then (PReply no_reply, HNone)
          else (PWait servername server rel lre, HRun server)
      | _ \<Rightarrow> (PReply no_reply, HNone))"

text \<open>
  One round of the waiting loop that finds no reply after 100 ms, and what follows the loop when the
  handler's reply came.  \<open>delayed\<close> is the outcome of \<^verbatim>\<open>rand.Intn(900) < 600\<close>: the reply is then sent
  later, by a timer, which is the same to the caller.
\<close>

definition processReq_poll :: "reqMsg \<Rightarrow> string \<Rightarrow> nat \<Rightarrow> bool \<Rightarrow> bool \<Rightarrow> Network \<Rightarrow> rpc_pc" where
  "processReq_poll req servername server rel lre rn =
     (if isServerDead (rqEndname req) servername server rn then PReply no_reply
      else PWait servername server rel lre)"

definition processReq_finish :: "bool \<Rightarrow> bool \<Rightarrow> reqMsg \<Rightarrow> string \<Rightarrow> nat \<Rightarrow> bool \<Rightarrow> bool \<Rightarrow> replyMsg \<Rightarrow> Network
    \<Rightarrow> rpc_pc \<times> Network" where
  "processReq_finish dropped delayed req servername server rel lre r rn =
     (if isServerDead (rqEndname req) servername server rn then (PReply no_reply, rn)
      else if \<not> rel \<and> dropped then (PReply no_reply, rn)
      else if lre \<and> delayed then (PReply r, rn\<lparr>nbytes := nbytes rn + of_nat (length (rmReply r))\<rparr>)
      else (PReply r, rn\<lparr>nbytes := nbytes rn + of_nat (length (rmReply r))\<rparr>))"

text \<open>
  The whole system: the network, the heap of server objects with its next free address, the RPCs by
  number, and the handler executions so far, for the record.
\<close>

record 's netsys =
  net :: Network
  heap :: "nat \<Rightarrow> 's Server"
  brk :: nat
  rpcs :: "nat \<rightharpoonup> rpc"
  execs :: "(nat \<times> nat \<times> replyMsg) list"

datatype 's net_event =
    NReliable bool | NLongReordering bool | NLongDelays bool
  | NMakeEnd string | NDeleteEnd string | NConnect string string | NEnable string bool
  | NAddServer string "'s Server" | NDeleteServer string | NCleanup
  | NCall nat reqMsg
  | NProcess nat bool
  | NHandle nat
  | NPoll nat
  | NFinish nat bool bool
  | NDeliver nat

definition set_rpc :: "nat \<Rightarrow> rpc \<Rightarrow> 's netsys \<Rightarrow> 's netsys" where
  "set_rpc i r s = s\<lparr>rpcs := (rpcs s)(i \<mapsto> r)\<rparr>"

text \<open>
  \<open>ClientEnd.Call\<close> (and \<open>Forward\<close>): with the network closed the call returns at once; otherwise the
  request is handed over, and the caller waits for the one message on its reply channel.
\<close>

definition Call_start :: "nat \<Rightarrow> reqMsg \<Rightarrow> 's netsys \<Rightarrow> 's netsys option" where
  "Call_start i req s =
     (if rpcs s i \<noteq> None then None
      else if closed (net s) then Some (set_rpc i \<lparr>rreq = req, rpc = PDone no_reply, rhandler = HNone\<rparr> s)
      else Some (set_rpc i \<lparr>rreq = req, rpc = PSent, rhandler = HNone\<rparr>
                   (s\<lparr>net := count_request req (net s)\<rparr>)))"

definition Call_recv :: "replyMsg \<Rightarrow> bool \<times> bytes" where
  "Call_recv r = (if rmOk r then (True, rmReply r) else (False, []))"

fun net_exec :: "'s net_event \<Rightarrow> 's netsys \<Rightarrow> 's netsys option" where
  "net_exec (NReliable b) s = Some (s\<lparr>net := Reliable b (net s)\<rparr>)"
| "net_exec (NLongReordering b) s = Some (s\<lparr>net := LongReordering b (net s)\<rparr>)"
| "net_exec (NLongDelays b) s = Some (s\<lparr>net := LongDelays b (net s)\<rparr>)"
| "net_exec (NMakeEnd e) s = do { rn \<leftarrow> MakeEnd e (net s); Some (s\<lparr>net := rn\<rparr>) }"
| "net_exec (NDeleteEnd e) s = do { rn \<leftarrow> DeleteEnd e (net s); Some (s\<lparr>net := rn\<rparr>) }"
| "net_exec (NConnect e name) s = Some (s\<lparr>net := Connect e name (net s)\<rparr>)"
| "net_exec (NEnable e b) s = Some (s\<lparr>net := Enable e b (net s)\<rparr>)"
| "net_exec (NAddServer name rs) s =
     Some (s\<lparr>net := AddServer name (brk s) (net s), heap := (heap s)(brk s := rs), brk := brk s + 1\<rparr>)"
| "net_exec (NDeleteServer name) s = Some (s\<lparr>net := DeleteServer name (net s)\<rparr>)"
| "net_exec NCleanup s = do { rn \<leftarrow> Cleanup (net s); Some (s\<lparr>net := rn\<rparr>) }"
| "net_exec (NCall i req) s = Call_start i req s"
| "net_exec (NProcess i dropped) s = do {
     r \<leftarrow> rpcs s i;
     (case rpc r of
        PSent \<Rightarrow> (case processReq_start dropped (rreq r) (net s) of
                     (p, h) \<Rightarrow> Some (set_rpc i (r\<lparr>rpc := p, rhandler := h\<rparr>) s))
      | _ \<Rightarrow> None)
   }"
| "net_exec (NHandle i) s = do {
     r \<leftarrow> rpcs s i;
     (case rhandler r of
        HRun server \<Rightarrow> do {
          (rs, rep) \<leftarrow> Server_dispatch (rreq r) (heap s server);
          Some (set_rpc i (r\<lparr>rhandler := HDone server rep\<rparr>)
                  (s\<lparr>heap := (heap s)(server := rs), execs := execs s @ [(i, server, rep)]\<rparr>))
        }
      | _ \<Rightarrow> None)
   }"
| "net_exec (NPoll i) s = do {
     r \<leftarrow> rpcs s i;
     (case rpc r of
        PWait name server rel lre \<Rightarrow>
          Some (set_rpc i (r\<lparr>rpc := processReq_poll (rreq r) name server rel lre (net s)\<rparr>) s)
      | _ \<Rightarrow> None)
   }"
| "net_exec (NFinish i dropped delayed) s = do {
     r \<leftarrow> rpcs s i;
     (case (rpc r, rhandler r) of
        (PWait name server rel lre, HDone _ rep) \<Rightarrow>
          (case processReq_finish dropped delayed (rreq r) name server rel lre rep (net s) of
             (p, rn) \<Rightarrow> Some (set_rpc i (r\<lparr>rpc := p\<rparr>) (s\<lparr>net := rn\<rparr>)))
      | _ \<Rightarrow> None)
   }"
| "net_exec (NDeliver i) s = do {
     r \<leftarrow> rpcs s i;
     (case rpc r of
        PReply rep \<Rightarrow> Some (set_rpc i (r\<lparr>rpc := PDone rep\<rparr>) s)
      | _ \<Rightarrow> None)
   }"

definition net_boot :: "(nat \<Rightarrow> 's Server) \<Rightarrow> 's netsys" where
  "net_boot h = \<lparr>net = MakeNetwork, heap = h, brk = 0, rpcs = Map.empty, execs = []\<rparr>"

definition net_init :: "'s netsys \<Rightarrow> bool" where
  "net_init s \<longleftrightarrow> (\<exists>h. s = net_boot h)"

definition net_step :: "'s netsys \<Rightarrow> 's netsys \<Rightarrow> bool" where
  "net_step s t \<longleftrightarrow> (\<exists>ev. net_exec ev s = Some t)"

interpretation network: transition_system net_init net_step
  by unfold_locales (auto simp: net_init_def)

end
