(* ===== verification/TesterNet.thy ===== *)
theory TesterNet
  imports LabRpc GoLib Persister
begin

text \<open>
  How the tester builds and cuts the network: the servers of a group (\<^verbatim>\<open>tester1/srv.go\<close>,
  \<^verbatim>\<open>tester1/group.go\<close>), their daemons (\<^verbatim>\<open>tester1/daemonclnt.go\<close>, \<^verbatim>\<open>tester1/daemonsrv.go\<close>) and the
  clients (\<^verbatim>\<open>tester1/clnts.go\<close>).

  The operations act on the \<open>Network\<close> of \<open>LabRpc\<close>.  \<^verbatim>\<open>Randstring\<close> is an argument: the list of the
  names it gives out.  A daemon is a process that owns a persister; the tester sees only that.
\<close>

section \<open>Servers and their daemons\<close>

definition ServerName :: "int \<Rightarrow> int \<Rightarrow> string" where
  "ServerName gid i = ''server-'' @ Itoa gid @ ''-'' @ Itoa i"

record ('r, 'b) TServer =
  saved :: "('r, 'b) Persister option"
  endNames :: "string list"
  dc :: "('r, 'b) Persister option"

text \<open>The loop of \<open>makeServer\<close>: end \<open>j\<close> leads to server \<open>j\<close> of the group.\<close>

fun makeServer_loop :: "int \<Rightarrow> int \<Rightarrow> string list \<Rightarrow> Network \<Rightarrow> Network option" where
  "makeServer_loop gid j [] rn = Some rn"
| "makeServer_loop gid j (e # es) rn = do {
     rn \<leftarrow> MakeEnd e rn;
     makeServer_loop gid (j + 1) es (Connect e (ServerName gid j) rn)
   }"

definition makeServer :: "int \<Rightarrow> string list \<Rightarrow> Network \<Rightarrow> (('r, 'b) TServer \<times> Network) option" where
  "makeServer gid names rn = do {
     rn \<leftarrow> makeServer_loop gid 0 names rn;
     Some (\<lparr>saved = None, endNames = names, dc = None\<rparr>, rn)
   }"

definition startServer :: "int \<Rightarrow> string list \<Rightarrow> ('r, 'b) TServer \<Rightarrow> Network
    \<Rightarrow> (('r, 'b) TServer \<times> Network) option" where
  "startServer gid names s rn = do {
     (srv, rn) \<leftarrow> makeServer gid names rn;
     Some (srv\<lparr>saved := Some (case saved s of None \<Rightarrow> MakePersister | Some p \<Rightarrow> p)\<rparr>, rn)
   }"

text \<open>
  \<open>DaemonClnt.init\<close> sends what it reads from the persister, and \<open>DaemonSrv.Init\<close> saves it into a new
  one; \<open>CheckpointPersister\<close> on the daemon's side copies the persister and \<open>checkpointPersister\<close> on
  the tester's side saves what it gets into a new one.
\<close>

definition daemon_init :: "('r, 'b) Persister \<Rightarrow> ('r, 'b) Persister" where
  "daemon_init p = Save (ReadRaftState p) (ReadSnapshot p) MakePersister"

definition checkpointPersister :: "('r, 'b) Persister \<Rightarrow> ('r, 'b) Persister" where
  "checkpointPersister d = (let p = Checkpoint d in Save (ReadRaftState p) (ReadSnapshot p) MakePersister)"

definition shutdownServer :: "('r, 'b) TServer \<Rightarrow> ('r, 'b) TServer" where
  "shutdownServer s =
     (case dc s of
        None \<Rightarrow> s
      | Some d \<Rightarrow> s\<lparr>saved := Some (checkpointPersister d), dc := None\<rparr>)"

definition raftSize :: "('r list \<Rightarrow> int) \<Rightarrow> ('r, 'b) TServer \<Rightarrow> int option" where
  "raftSize size_of s =
     (case dc s of
        Some d \<Rightarrow> Some (RaftStateSize size_of d)
      | None \<Rightarrow> (case saved s of None \<Rightarrow> None | Some p \<Rightarrow> Some (RaftStateSize size_of p)))"

definition snapshotSize :: "('b list \<Rightarrow> int) \<Rightarrow> ('r, 'b) TServer \<Rightarrow> int option" where
  "snapshotSize size_of s =
     (case dc s of
        Some d \<Rightarrow> Some (SnapshotSize size_of d)
      | None \<Rightarrow> (case saved s of None \<Rightarrow> None | Some p \<Rightarrow> Some (SnapshotSize size_of p)))"

text \<open>\<open>Server.connect\<close> and \<open>Server.disconnect\<close>: the outgoing ends.\<close>

fun Server_connect :: "bool list \<Rightarrow> string list \<Rightarrow> int list \<Rightarrow> Network \<Rightarrow> Network option" where
  "Server_connect conn names [] rn = Some rn"
| "Server_connect conn names (j # js) rn = do {
     c \<leftarrow> go_nth conn j;
     (if c then do { e \<leftarrow> go_nth names j; Server_connect conn names js (Enable e True rn) }
      else Server_connect conn names js rn)
   }"

fun Server_disconnect :: "string list \<Rightarrow> int list \<Rightarrow> Network \<Rightarrow> Network option" where
  "Server_disconnect names [] rn = Some rn"
| "Server_disconnect names (j # js) rn = do {
     e \<leftarrow> go_nth names j;
     Server_disconnect names js (Enable e False rn)
   }"

section \<open>Groups\<close>

record ('r, 'b) ServerGrp =
  srvs :: "('r, 'b) TServer list"
  servernames :: "string list"
  grpgid :: int
  connected :: "bool list"

fun makeSrvGrp_loop :: "int \<Rightarrow> string list list \<Rightarrow> Network \<Rightarrow> (('r, 'b) TServer list \<times> Network) option" where
  "makeSrvGrp_loop gid [] rn = Some ([], rn)"
| "makeSrvGrp_loop gid (names # nss) rn = do {
     (s, rn) \<leftarrow> makeServer gid names rn;
     (ss, rn) \<leftarrow> makeSrvGrp_loop gid nss rn;
     Some (s # ss, rn)
   }"

text \<open>\<open>names\<close> holds the \<open>n\<close> lists of \<open>n\<close> end names.\<close>

definition makeSrvGrp :: "int \<Rightarrow> string list list \<Rightarrow> Network \<Rightarrow> (('r, 'b) ServerGrp \<times> Network) option" where
  "makeSrvGrp gid names rn = do {
     (ss, rn) \<leftarrow> makeSrvGrp_loop gid names rn;
     Some (\<lparr>srvs = ss, servernames = map (\<lambda>i. ServerName gid (int i)) [0 ..< length names], grpgid = gid,
            connected = replicate (length names) False\<rparr>, rn)
   }"

definition grp_all :: "('r, 'b) ServerGrp \<Rightarrow> int list" where
  "grp_all sg = map int [0 ..< length (srvs sg)]"

definition SrvNamesTo :: "int list \<Rightarrow> ('r, 'b) ServerGrp \<Rightarrow> string list option" where
  "SrvNamesTo to sg = those (map (go_nth (servernames sg)) to)"

text \<open>The incoming ends: the loops over \<open>to\<close> and \<open>from\<close> in \<open>connect\<close> and \<open>disconnect\<close>.\<close>

fun enable_incoming :: "bool list \<Rightarrow> ('r, 'b) TServer list \<Rightarrow> int \<Rightarrow> int list \<Rightarrow> Network \<Rightarrow> Network option" where
  "enable_incoming conn ss i [] rn = Some rn"
| "enable_incoming conn ss i (j # js) rn = do {
     c \<leftarrow> go_nth conn j;
     (if c then do {
        s \<leftarrow> go_nth ss j;
        e \<leftarrow> go_nth (endNames s) i;
        enable_incoming conn ss i js (Enable e True rn)
      }
      else enable_incoming conn ss i js rn)
   }"

fun disable_incoming :: "('r, 'b) TServer list \<Rightarrow> int \<Rightarrow> int list \<Rightarrow> Network \<Rightarrow> Network option" where
  "disable_incoming ss i [] rn = Some rn"
| "disable_incoming ss i (j # js) rn = do {
     s \<leftarrow> go_nth ss j;
     e \<leftarrow> go_nth (endNames s) i;
     disable_incoming ss i js (Enable e False rn)
   }"

definition grp_connect :: "int \<Rightarrow> int list \<Rightarrow> ('r, 'b) ServerGrp \<Rightarrow> Network
    \<Rightarrow> (('r, 'b) ServerGrp \<times> Network) option" where
  "grp_connect i to sg rn = do {
     conn \<leftarrow> go_set (connected sg) i True;
     let sg = sg\<lparr>connected := conn\<rparr>;
     s \<leftarrow> go_nth (srvs sg) i;
     rn \<leftarrow> Server_connect conn (endNames s) to rn;
     rn \<leftarrow> enable_incoming conn (srvs sg) i to rn;
     Some (sg, rn)
   }"

definition grp_disconnect :: "int \<Rightarrow> int list \<Rightarrow> ('r, 'b) ServerGrp \<Rightarrow> Network
    \<Rightarrow> (('r, 'b) ServerGrp \<times> Network) option" where
  "grp_disconnect i from sg rn = do {
     conn \<leftarrow> go_set (connected sg) i False;
     let sg = sg\<lparr>connected := conn\<rparr>;
     s \<leftarrow> go_nth (srvs sg) i;
     rn \<leftarrow> Server_disconnect (endNames s) from rn;
     rn \<leftarrow> disable_incoming (srvs sg) i from rn;
     Some (sg, rn)
   }"

definition ConnectOne :: "int \<Rightarrow> ('r, 'b) ServerGrp \<Rightarrow> Network \<Rightarrow> (('r, 'b) ServerGrp \<times> Network) option" where
  "ConnectOne i sg rn = grp_connect i (grp_all sg) sg rn"

definition DisconnectAll :: "int \<Rightarrow> ('r, 'b) ServerGrp \<Rightarrow> Network \<Rightarrow> (('r, 'b) ServerGrp \<times> Network) option" where
  "DisconnectAll i sg rn = grp_disconnect i (grp_all sg) sg rn"

fun ConnectAll_loop :: "int list \<Rightarrow> ('r, 'b) ServerGrp \<Rightarrow> Network \<Rightarrow> (('r, 'b) ServerGrp \<times> Network) option" where
  "ConnectAll_loop [] sg rn = Some (sg, rn)"
| "ConnectAll_loop (i # js) sg rn = do {
     (sg, rn) \<leftarrow> ConnectOne i sg rn;
     ConnectAll_loop js sg rn
   }"

definition ConnectAll :: "('r, 'b) ServerGrp \<Rightarrow> Network \<Rightarrow> (('r, 'b) ServerGrp \<times> Network) option" where
  "ConnectAll sg rn = ConnectAll_loop (grp_all sg) sg rn"

text \<open>
  \<open>StartServer\<close>: \<open>names\<close> are the fresh end names, \<open>ptr\<close> is the new \<^verbatim>\<open>labrpc\<close> server object, and
  \<open>started\<close> is false when the process cannot be started, in which case the error is returned.
\<close>

definition StartServer :: "int \<Rightarrow> string list \<Rightarrow> nat \<Rightarrow> bool \<Rightarrow> ('r, 'b) ServerGrp \<Rightarrow> Network
    \<Rightarrow> (('r, 'b) ServerGrp \<times> Network \<times> bool) option" where
  "StartServer i names ptr started sg rn = do {
     s \<leftarrow> go_nth (srvs sg) i;
     (srv, rn) \<leftarrow> startServer (grpgid sg) names s rn;
     ss \<leftarrow> go_set (srvs sg) i srv;
     let sg = sg\<lparr>srvs := ss\<rparr>;
     (if \<not> started then Some (sg, rn, False)
      else do {
        p \<leftarrow> saved srv;
        ss \<leftarrow> go_set (srvs sg) i (srv\<lparr>dc := Some (daemon_init p)\<rparr>);
        Some (sg\<lparr>srvs := ss\<rparr>, AddServer (ServerName (grpgid sg) i) ptr rn, True)
      })
   }"

definition ShutdownServer :: "int \<Rightarrow> ('r, 'b) ServerGrp \<Rightarrow> Network \<Rightarrow> (('r, 'b) ServerGrp \<times> Network) option" where
  "ShutdownServer i sg rn = do {
     (sg, rn) \<leftarrow> grp_disconnect i (grp_all sg) sg rn;
     let rn = DeleteServer (ServerName (grpgid sg) i) rn;
     s \<leftarrow> go_nth (srvs sg) i;
     ss \<leftarrow> go_set (srvs sg) i (shutdownServer s);
     Some (sg\<lparr>srvs := ss\<rparr>, rn)
   }"

fun Kill :: "int list \<Rightarrow> ('r, 'b) ServerGrp \<Rightarrow> Network \<Rightarrow> (('r, 'b) ServerGrp \<times> Network) option" where
  "Kill [] sg rn = Some (sg, rn)"
| "Kill (i # js) sg rn = do {
     (sg, rn) \<leftarrow> ShutdownServer i sg rn;
     Kill js sg rn
   }"

definition Shutdown :: "('r, 'b) ServerGrp \<Rightarrow> Network \<Rightarrow> (('r, 'b) ServerGrp \<times> Network) option" where
  "Shutdown sg rn = Kill (grp_all sg) sg rn"

text \<open>\<open>StartSrvs\<close>, with the fresh names, the address and the outcome for each start, and \<open>StartServers\<close>.\<close>

fun StartSrvs :: "(int \<times> string list \<times> nat \<times> bool) list \<Rightarrow> ('r, 'b) ServerGrp \<Rightarrow> Network
    \<Rightarrow> (('r, 'b) ServerGrp \<times> Network) option" where
  "StartSrvs [] sg rn = Some (sg, rn)"
| "StartSrvs ((i, names, ptr, started) # rest) sg rn = do {
     (sg, rn, _) \<leftarrow> StartServer i names ptr started sg rn;
     StartSrvs rest sg rn
   }"

definition StartServers :: "(string list \<times> nat \<times> bool) list \<Rightarrow> ('r, 'b) ServerGrp \<Rightarrow> Network
    \<Rightarrow> (('r, 'b) ServerGrp \<times> Network) option" where
  "StartServers starts sg rn = do {
     (sg, rn) \<leftarrow> StartSrvs (zip (grp_all sg) starts) sg rn;
     ConnectAll sg rn
   }"

text \<open>The maximum of the state sizes over the servers.\<close>

fun max_size :: "int \<Rightarrow> int option list \<Rightarrow> int option" where
  "max_size acc [] = Some acc"
| "max_size acc (x # xs) = do { n \<leftarrow> x; max_size (if n > acc then n else acc) xs }"

definition RaftSize :: "('r list \<Rightarrow> int) \<Rightarrow> ('r, 'b) ServerGrp \<Rightarrow> int option" where
  "RaftSize size_of sg = max_size 0 (map (raftSize size_of) (srvs sg))"

definition grp_SnapshotSize :: "('b list \<Rightarrow> int) \<Rightarrow> ('r, 'b) ServerGrp \<Rightarrow> int option" where
  "grp_SnapshotSize size_of sg = max_size 0 (map (snapshotSize size_of) (srvs sg))"

text \<open>The groups of a test, by their number.\<close>

type_synonym ('r, 'b) groups = "int \<rightharpoonup> ('r, 'b) ServerGrp"

definition MakeGroup :: "int \<Rightarrow> string list list \<Rightarrow> ('r, 'b) groups \<Rightarrow> Network \<Rightarrow> (('r, 'b) groups \<times> Network) option"
  where
  "MakeGroup gid names gs rn = do {
     (sg, rn) \<leftarrow> makeSrvGrp gid names rn;
     Some (gs(gid \<mapsto> sg), rn)
   }"

definition delete_group :: "int \<Rightarrow> ('r, 'b) groups \<Rightarrow> ('r, 'b) groups" where
  "delete_group gid gs = gs(gid := None)"

text \<open>The loop of \<open>Groups.cleanup\<close>, with the order of the map.\<close>

fun groups_cleanup :: "int list \<Rightarrow> ('r, 'b) groups \<Rightarrow> Network \<Rightarrow> (('r, 'b) groups \<times> Network) option" where
  "groups_cleanup [] gs rn = Some (gs, rn)"
| "groups_cleanup (gid # gids) gs rn = do {
     sg \<leftarrow> gs gid;
     (sg, rn) \<leftarrow> Shutdown sg rn;
     groups_cleanup gids (gs(gid \<mapsto> sg)) rn
   }"

section \<open>Partitions\<close>

text \<open>The loop of \<open>MakePartition\<close> fills two arrays of fixed length, which start with zeroes.\<close>

fun MakePartition_loop :: "int \<Rightarrow> int list \<Rightarrow> int \<Rightarrow> int list \<Rightarrow> int list \<Rightarrow> (int list \<times> int list) option" where
  "MakePartition_loop l [] j p1 p2 = Some (p1, p2)"
| "MakePartition_loop l (i # js) j p1 p2 =
     (if i \<noteq> l then
        (if j < int (length p1) then do { p1 \<leftarrow> go_set p1 j i; MakePartition_loop l js (j + 1) p1 p2 }
         else do { p2 \<leftarrow> go_set p2 (j - int (length p1)) i; MakePartition_loop l js (j + 1) p1 p2 })
      else MakePartition_loop l js j p1 p2)"

definition MakePartition :: "int \<Rightarrow> nat \<Rightarrow> (int list \<times> int list) option" where
  "MakePartition l n = do {
     (p1, p2) \<leftarrow> MakePartition_loop l (map int [0 ..< n]) 0 (replicate (n div 2 + 1) 0) (replicate (n div 2) 0);
     p2 \<leftarrow> go_set p2 (int (length p2) - 1) l;
     Some (p1, p2)
   }"

fun Partition_loop :: "int list \<Rightarrow> int list \<Rightarrow> int list \<Rightarrow> ('r, 'b) ServerGrp \<Rightarrow> Network
    \<Rightarrow> (('r, 'b) ServerGrp \<times> Network) option" where
  "Partition_loop others mine [] sg rn = Some (sg, rn)"
| "Partition_loop others mine (i # js) sg rn = do {
     (sg, rn) \<leftarrow> grp_disconnect i others sg rn;
     (sg, rn) \<leftarrow> grp_connect i mine sg rn;
     Partition_loop others mine js sg rn
   }"

definition Partition :: "int list \<Rightarrow> int list \<Rightarrow> ('r, 'b) ServerGrp \<Rightarrow> Network
    \<Rightarrow> (('r, 'b) ServerGrp \<times> Network) option" where
  "Partition p1 p2 sg rn = do {
     (sg, rn) \<leftarrow> Partition_loop p2 p1 p1 sg rn;
     Partition_loop p1 p2 p2 sg rn
   }"

section \<open>Clients\<close>

text \<open>A client's ends by server name, and the servers it may talk to (\<open>None\<close>: all of them).\<close>

record Clnt =
  cends :: "string \<rightharpoonup> string"
  csrvs :: "string list option"

definition makeClntTo :: "string list option \<Rightarrow> Clnt" where
  "makeClntTo ss = \<lparr>cends = Map.empty, csrvs = ss\<rparr>"

definition allowedL :: "string \<Rightarrow> Clnt \<Rightarrow> bool" where
  "allowedL server clnt = (case csrvs clnt of None \<Rightarrow> True | Some ss \<Rightarrow> server \<in> set ss)"

definition Clnt_makeEnd :: "string \<Rightarrow> string \<Rightarrow> Clnt \<Rightarrow> Network \<Rightarrow> (Clnt \<times> Network \<times> string) option" where
  "Clnt_makeEnd name server clnt rn =
     (case cends clnt server of
        Some e \<Rightarrow> Some (clnt, rn, e)
      | None \<Rightarrow> do {
          rn \<leftarrow> MakeEnd name rn;
          let rn = Connect name server rn;
          let rn = (if allowedL server clnt then Enable name True rn else Enable name False rn);
          Some (clnt\<lparr>cends := (cends clnt)(server \<mapsto> name)\<rparr>, rn, name)
        })"

text \<open>The loops over the ends, with the order of the map as an argument.\<close>

definition Clnt_ConnectAll :: "string list \<Rightarrow> Clnt \<Rightarrow> Network \<Rightarrow> Clnt \<times> Network" where
  "Clnt_ConnectAll order clnt rn =
     (clnt\<lparr>csrvs := None\<rparr>,
      fold (\<lambda>server rn. case cends clnt server of None \<Rightarrow> rn | Some e \<Rightarrow> Enable e True rn) order rn)"

definition ConnectTo :: "string list \<Rightarrow> string list \<Rightarrow> Clnt \<Rightarrow> Network \<Rightarrow> Clnt \<times> Network" where
  "ConnectTo order ss clnt rn =
     (let clnt = clnt\<lparr>csrvs := Some ss\<rparr>
      in (clnt, fold (\<lambda>server rn. case cends clnt server of
                         None \<Rightarrow> rn
                       | Some e \<Rightarrow> if allowedL server clnt then Enable e True rn else rn) order rn))"

definition Clnt_Disconnect :: "string list \<Rightarrow> string \<Rightarrow> Clnt \<Rightarrow> Network \<Rightarrow> Network" where
  "Clnt_Disconnect order srv clnt rn =
     fold (\<lambda>server rn. case cends clnt server of
              None \<Rightarrow> rn
            | Some e \<Rightarrow> if server = srv then Enable e False rn else rn) order rn"

definition Clnt_DisconnectAll :: "string list \<Rightarrow> Clnt \<Rightarrow> Network \<Rightarrow> Clnt \<times> Network" where
  "Clnt_DisconnectAll order clnt rn =
     (clnt\<lparr>csrvs := Some []\<rparr>,
      fold (\<lambda>server rn. case cends clnt server of None \<Rightarrow> rn | Some e \<Rightarrow> Enable e False rn) order rn)"

fun Clnt_remove :: "string list \<Rightarrow> Network \<Rightarrow> Network option" where
  "Clnt_remove [] rn = Some rn"
| "Clnt_remove (e # es) rn = do { rn \<leftarrow> DeleteEnd e rn; Clnt_remove es rn }"

text \<open>The clients of a test; a client is named by the address it was allocated at.\<close>

type_synonym clerks = "nat \<rightharpoonup> Clnt"

definition Clnts_makeEnd :: "string \<Rightarrow> string \<Rightarrow> Network \<Rightarrow> Network option" where
  "Clnts_makeEnd name servername rn = do {
     rn \<leftarrow> MakeEnd name rn;
     Some (Enable name True (Connect name servername rn))
   }"

definition MakeClientTo :: "nat \<Rightarrow> string list option \<Rightarrow> clerks \<Rightarrow> clerks" where
  "MakeClientTo c ss clnts = clnts(c \<mapsto> makeClntTo ss)"

definition DeleteClient :: "string list \<Rightarrow> nat \<Rightarrow> clerks \<Rightarrow> Network \<Rightarrow> (clerks \<times> Network) option" where
  "DeleteClient order c clnts rn =
     (case clnts c of
        None \<Rightarrow> Some (clnts, rn)
      | Some clnt \<Rightarrow> do {
          rn \<leftarrow> Clnt_remove (map (\<lambda>server. the (cends clnt server)) order) rn;
          Some (clnts(c := None), rn)
        })"

section \<open>The command line of a daemon\<close>

definition daemon_options :: "bool \<Rightarrow> string list" where
  "daemon_options useRSM = (if useRSM then [''--raft-state-machine''] else [])"

text \<open>What \<open>runDaemon\<close> passes after the program name.\<close>

definition daemon_args :: "string list \<Rightarrow> bool \<Rightarrow> int \<Rightarrow> int \<Rightarrow> string list \<Rightarrow> string \<Rightarrow> string list" where
  "daemon_args pargs useRSM gid srv names testerEnd =
     pargs @ daemon_options useRSM
     @ [Itoa gid, Itoa srv, Itoa (int (length names)), testerEnd] @ names"

text \<open>\<^verbatim>\<open>strconv.Atoi\<close> on a decimal number with an optional minus sign.\<close>

definition isDigit :: "char \<Rightarrow> bool" where
  "isDigit c \<longleftrightarrow> (let n = of_char c :: nat in 48 \<le> n \<and> n \<le> 57)"

definition Atoi :: "string \<Rightarrow> int option" where
  "Atoi s =
     (case s of
        [] \<Rightarrow> None
      | c # cs \<Rightarrow>
          if c = CHR ''-'' then (if cs \<noteq> [] \<and> list_all isDigit cs then Some (- int (atoi_digits 0 cs)) else None)
          else if list_all isDigit s then Some (int (atoi_digits 0 s)) else None)"

text \<open>The loop that skips optional arguments; \<open>args[0]\<close> of an empty argument is a panic.\<close>

fun skip_options :: "nat \<Rightarrow> nat \<Rightarrow> string list \<Rightarrow> nat option" where
  "skip_options i s [] = Some s"
| "skip_options i s (a # as) =
     (if a = [] then None
      else if hd a = CHR ''-'' then skip_options (i + 1) (i + 1) as
      else Some s)"

text \<open>
  The parsing of \<open>InitDaemon\<close>: a bad number is the error that is returned (\<open>Inl\<close>), an index or
  slice out of range is a panic (\<open>None\<close>).
\<close>

definition InitDaemon_parse :: "string list \<Rightarrow> (string + int \<times> int \<times> string \<times> string list) option" where
  "InitDaemon_parse args = do {
     s \<leftarrow> skip_options 0 0 args;
     a0 \<leftarrow> go_nth args (int s);
     (case Atoi a0 of
        None \<Rightarrow> Some (Inl a0)
      | Some gid \<Rightarrow> do {
          a1 \<leftarrow> go_nth args (int s + 1);
          (case Atoi a1 of
             None \<Rightarrow> Some (Inl a1)
           | Some sid \<Rightarrow> do {
               a2 \<leftarrow> go_nth args (int s + 2);
               (case Atoi a2 of
                  None \<Rightarrow> Some (Inl a2)
                | Some nsrv \<Rightarrow> do {
                    testerEnd \<leftarrow> go_nth args (int s + 3);
                    rest \<leftarrow> go_from args (int s + 4);
                    names \<leftarrow> go_upto rest nsrv;
                    Some (Inr (gid, sid, testerEnd, names))
                  })
             })
        })
   }"

end
