(* ===== verification/TesterNetProps.thy ===== *)
theory TesterNetProps
  imports TesterNet
begin

text \<open>
  The tester cuts the network where it says: partitions isolate their sides, a killed server is
  unreachable and comes back with its stable storage, and a daemon reads its command line back.
\<close>

section \<open>Single operations\<close>

definition grp_wf :: "('r, 'b) ServerGrp \<Rightarrow> bool" where
  "grp_wf sg \<longleftrightarrow> length (connected sg) = length (srvs sg)
     \<and> (\<forall>s \<in> set (srvs sg). length (endNames s) = length (srvs sg))
     \<and> distinct (concat (map endNames (srvs sg)))"

definition end_of :: "('r, 'b) ServerGrp \<Rightarrow> nat \<Rightarrow> nat \<Rightarrow> string" where
  "end_of sg a b = endNames (srvs sg ! a) ! b"

definition linked :: "('r, 'b) ServerGrp \<Rightarrow> Network \<Rightarrow> nat \<Rightarrow> nat \<Rightarrow> bool" where
  "linked sg rn a b = is_enabled (end_of sg a b) rn"

lemma is_enabled_Enable [simp]: "is_enabled x (Enable e b rn) = (if x = e then b else is_enabled x rn)"
  by (simp add: is_enabled_def Enable_def)

lemma go_nth_nat [simp]: "go_nth xs (int i) = (if i < length xs then Some (xs ! i) else None)"
  by (simp add: go_nth_def)

lemma go_set_nat [simp]: "go_set xs (int i) v = (if i < length xs then Some (xs[i := v]) else None)"
  by (simp add: go_set_def)

lemma concat_distinct_nth:
  assumes "distinct (concat xss)" "a < length xss" "a' < length xss" "b < length (xss ! a)" "b' < length (xss ! a')"
    and "xss ! a ! b = xss ! a' ! b'"
  shows "a = a' \<and> b = b'"
  using assms
proof (induction xss arbitrary: a a')
  case (Cons xs xss)
  have dj: "set xs \<inter> set (concat xss) = {}" "distinct xs" using Cons.prems(1) by auto
  have inn: "xss ! c ! d \<in> set (concat xss)" if "c < length xss" "d < length (xss ! c)" for c d
    unfolding set_concat by (rule UN_I[of "xss ! c"]) (use that in simp_all)
  show ?case
  proof (cases a; cases a')
    fix c c' assume "a = Suc c" "a' = Suc c'"
    then show ?thesis using Cons.IH[of c c'] Cons.prems by simp
  next
    fix c' assume "a = 0" "a' = Suc c'"
    then have b: "b < length xs" and "xs ! b \<in> set (concat xss)" using inn[of c' b'] Cons.prems(3-6) by simp_all
    with nth_mem[OF b] show ?thesis using dj(1) by blast
  next
    fix c assume "a = Suc c" "a' = 0"
    then have "xs ! b' \<in> set xs" "xs ! b' \<in> set (concat xss)" using inn[of c b] Cons.prems(2,4-6) by simp_all
    then show ?thesis using dj(1) by blast
  next
    assume "a = 0" "a' = 0"
    then show ?thesis using Cons.prems dj(2) by (simp add: nth_eq_iff_index_eq)
  qed
qed simp

lemma end_of_inject:
  assumes "grp_wf sg" "a < length (srvs sg)" "b < length (srvs sg)" "a' < length (srvs sg)" "b' < length (srvs sg)"
  shows "end_of sg a b = end_of sg a' b' \<longleftrightarrow> a = a' \<and> b = b'"
  using assms concat_distinct_nth[of "map endNames (srvs sg)" a a' b b']
  by (auto simp: grp_wf_def end_of_def)

text \<open>All four loops switch the ends that a list of servers selects.\<close>

lemma is_enabled_fold:
  "is_enabled x (fold (\<lambda>j rn. if P j then Enable (f j) v rn else rn) js rn) =
   (if \<exists>j \<in> set js. P j \<and> f j = x then v else is_enabled x rn)"
  by (induction js arbitrary: rn) auto

lemma is_enabled_fold_True:
  "is_enabled x (fold (\<lambda>j rn. if P j then Enable (f j) True rn else rn) js rn) \<longleftrightarrow>
   (\<exists>j \<in> set js. P j \<and> f j = x) \<or> is_enabled x rn"
  by (auto simp: is_enabled_fold)

lemma Server_connect_effect:
  assumes "\<forall>j \<in> set js. j < length conn \<and> j < length names"
  shows "Server_connect conn names (map int js) rn =
    Some (fold (\<lambda>j rn. if conn ! j then Enable (names ! j) True rn else rn) js rn)"
  using assms by (induction js arbitrary: rn) auto

lemma Server_disconnect_effect:
  assumes "\<forall>j \<in> set js. j < length names"
  shows "Server_disconnect names (map int js) rn =
    Some (fold (\<lambda>j rn. if True then Enable (names ! j) False rn else rn) js rn)"
  using assms by (induction js arbitrary: rn) auto

lemma enable_incoming_effect:
  assumes "\<forall>j \<in> set js. j < length conn \<and> j < length ss \<and> i < length (endNames (ss ! j))"
  shows "enable_incoming conn ss (int i) (map int js) rn =
    Some (fold (\<lambda>j rn. if conn ! j then Enable (endNames (ss ! j) ! i) True rn else rn) js rn)"
  using assms by (induction js arbitrary: rn) auto

lemma disable_incoming_effect:
  assumes "\<forall>j \<in> set js. j < length ss \<and> i < length (endNames (ss ! j))"
  shows "disable_incoming ss (int i) (map int js) rn =
    Some (fold (\<lambda>j rn. if True then Enable (endNames (ss ! j) ! i) False rn else rn) js rn)"
  using assms by (induction js arbitrary: rn) auto

text \<open>What one \<open>connect\<close> and one \<open>disconnect\<close> do to the links of the group.\<close>

lemma grp_connect_effect:
  assumes wf: "grp_wf sg" and i: "i < length (srvs sg)" and js: "\<forall>j \<in> set js. j < length (srvs sg)"
  shows "\<exists>sg' rn'. grp_connect (int i) (map int js) sg rn = Some (sg', rn') \<and> grp_wf sg'
    \<and> srvs sg' = srvs sg \<and> connected sg' = (connected sg)[i := True]
    \<and> (\<forall>a < length (srvs sg). \<forall>b < length (srvs sg). linked sg' rn' a b \<longleftrightarrow>
         a = i \<and> b \<in> set js \<and> connected sg' ! b \<or> b = i \<and> a \<in> set js \<and> connected sg' ! a \<or> linked sg rn a b)"
proof -
  let ?n = "length (srvs sg)" let ?conn = "(connected sg)[i := True]"
  let ?sg = "sg\<lparr>connected := ?conn\<rparr>"
  have len: "length (connected sg) = ?n" "\<And>j. j < ?n \<Longrightarrow> length (endNames (srvs sg ! j)) = ?n"
    using wf by (auto simp: grp_wf_def)
  have "\<forall>j \<in> set js. j < length ?conn \<and> j < length (endNames (srvs sg ! i))" using len i js by simp
  then obtain rn1 where
      1: "Server_connect ?conn (endNames (srvs sg ! i)) (map int js) rn = Some rn1"
    and e1: "\<And>x. is_enabled x rn1 \<longleftrightarrow> (\<exists>j \<in> set js. ?conn ! j \<and> endNames (srvs sg ! i) ! j = x) \<or> is_enabled x rn"
    by (simp add: Server_connect_effect is_enabled_fold_True)
  have "\<forall>j \<in> set js. j < length ?conn \<and> j < length (srvs sg) \<and> i < length (endNames (srvs sg ! j))" using len i js by simp
  then obtain rn2 where
      2: "enable_incoming ?conn (srvs sg) (int i) (map int js) rn1 = Some rn2"
    and e2: "\<And>x. is_enabled x rn2 \<longleftrightarrow> (\<exists>j \<in> set js. ?conn ! j \<and> endNames (srvs sg ! j) ! i = x) \<or> is_enabled x rn1"
    by (simp add: enable_incoming_effect is_enabled_fold_True)
  have wf': "grp_wf ?sg" using wf by (simp add: grp_wf_def)
  have run: "grp_connect (int i) (map int js) sg rn = Some (?sg, rn2)"
    using 1 2 i len by (simp add: grp_connect_def)
  have eq: "end_of ?sg a b = end_of sg a b" for a b by (simp add: end_of_def)
  have out: "linked ?sg rn2 a b \<longleftrightarrow>
      (\<exists>j \<in> set js. ?conn ! j \<and> end_of sg j i = end_of sg a b) \<or> (\<exists>j \<in> set js. ?conn ! j \<and> end_of sg i j = end_of sg a b)
      \<or> linked sg rn a b" for a b
    unfolding linked_def eq e2 e1 by (simp add: end_of_def)
  have "linked ?sg rn2 a b \<longleftrightarrow>
         a = i \<and> b \<in> set js \<and> ?conn ! b \<or> b = i \<and> a \<in> set js \<and> ?conn ! a \<or> linked sg rn a b"
    if "a < ?n" "b < ?n" for a b
    unfolding out using end_of_inject[OF wf _ i that] end_of_inject[OF wf i _ that] js by blast
  then show ?thesis using run wf' by fastforce
qed

lemma grp_disconnect_effect:
  assumes wf: "grp_wf sg" and i: "i < length (srvs sg)" and js: "\<forall>j \<in> set js. j < length (srvs sg)"
  shows "\<exists>sg' rn'. grp_disconnect (int i) (map int js) sg rn = Some (sg', rn') \<and> grp_wf sg'
    \<and> srvs sg' = srvs sg \<and> connected sg' = (connected sg)[i := False] \<and> grpgid sg' = grpgid sg
    \<and> (\<forall>a < length (srvs sg). \<forall>b < length (srvs sg). linked sg' rn' a b \<longleftrightarrow>
         \<not> (a = i \<and> b \<in> set js) \<and> \<not> (b = i \<and> a \<in> set js) \<and> linked sg rn a b)"
proof -
  let ?n = "length (srvs sg)" let ?conn = "(connected sg)[i := False]"
  let ?sg = "sg\<lparr>connected := ?conn\<rparr>"
  have len: "length (connected sg) = ?n" "\<And>j. j < ?n \<Longrightarrow> length (endNames (srvs sg ! j)) = ?n"
    using wf by (auto simp: grp_wf_def)
  have "\<forall>j \<in> set js. j < length (endNames (srvs sg ! i))" using len i js by simp
  then obtain rn1 where
      1: "Server_disconnect (endNames (srvs sg ! i)) (map int js) rn = Some rn1"
    and e1: "\<And>x. is_enabled x rn1 \<longleftrightarrow> (\<forall>j \<in> set js. endNames (srvs sg ! i) ! j \<noteq> x) \<and> is_enabled x rn"
    by (simp add: Server_disconnect_effect is_enabled_fold[where P = "\<lambda>_. True", simplified])
  have "\<forall>j \<in> set js. j < length (srvs sg) \<and> i < length (endNames (srvs sg ! j))" using len i js by simp
  then obtain rn2 where
      2: "disable_incoming (srvs sg) (int i) (map int js) rn1 = Some rn2"
    and e2: "\<And>x. is_enabled x rn2 \<longleftrightarrow> (\<forall>j \<in> set js. endNames (srvs sg ! j) ! i \<noteq> x) \<and> is_enabled x rn1"
    by (simp add: disable_incoming_effect is_enabled_fold[where P = "\<lambda>_. True", simplified])
  have wf': "grp_wf ?sg" using wf by (simp add: grp_wf_def)
  have run: "grp_disconnect (int i) (map int js) sg rn = Some (?sg, rn2)"
    using 1 2 i len by (simp add: grp_disconnect_def)
  have eq: "end_of ?sg a b = end_of sg a b" for a b by (simp add: end_of_def)
  have out: "linked ?sg rn2 a b \<longleftrightarrow>
      (\<forall>j \<in> set js. end_of sg j i \<noteq> end_of sg a b) \<and> (\<forall>j \<in> set js. end_of sg i j \<noteq> end_of sg a b)
      \<and> linked sg rn a b" for a b
    unfolding linked_def eq e2 e1 by (simp add: end_of_def)
  have "linked ?sg rn2 a b \<longleftrightarrow>
         \<not> (a = i \<and> b \<in> set js) \<and> \<not> (b = i \<and> a \<in> set js) \<and> linked sg rn a b"
    if "a < ?n" "b < ?n" for a b
    unfolding out using end_of_inject[OF wf _ i that] end_of_inject[OF wf i _ that] js by blast
  then show ?thesis using run wf' by fastforce
qed

section \<open>Partitions\<close>

text \<open>One side of the partition, when \<open>ds\<close> of its servers are done.\<close>

definition side_done :: "nat list \<Rightarrow> nat list \<Rightarrow> ('r, 'b) ServerGrp \<Rightarrow> Network \<Rightarrow> bool" where
  "side_done ds others sg rn \<longleftrightarrow>
     (\<forall>a \<in> set ds. connected sg ! a) \<and> (\<forall>a \<in> set ds. \<forall>b \<in> set ds. linked sg rn a b)
     \<and> (\<forall>a \<in> set ds. \<forall>b \<in> set others. \<not> linked sg rn a b \<and> \<not> linked sg rn b a)"

lemma Partition_round:
  assumes wf: "grp_wf sg" and n: "n = length (srvs sg)" and i: "i < n" "i \<in> set mine"
    and lim: "\<forall>j \<in> set mine. j < n" "\<forall>j \<in> set others. j < n" and dj: "set mine \<inter> set others = {}"
    and ds: "set ds \<subseteq> set mine" "side_done ds others sg rn"
  obtains sg1 rn1 sg2 rn2 where
    "grp_disconnect (int i) (map int others) sg rn = Some (sg1, rn1)"
    "grp_connect (int i) (map int mine) sg1 rn1 = Some (sg2, rn2)"
    "grp_wf sg2" "srvs sg2 = srvs sg" "side_done (ds @ [i]) others sg2 rn2"
    "\<And>a b. a < n \<Longrightarrow> b < n \<Longrightarrow> a \<noteq> i \<Longrightarrow> b \<noteq> i \<Longrightarrow> linked sg2 rn2 a b = linked sg rn a b"
    "\<And>a b. a \<in> set others \<Longrightarrow> b \<in> set mine \<Longrightarrow> linked sg2 rn2 a b \<Longrightarrow> linked sg rn a b"
    "\<And>a. a < n \<Longrightarrow> a \<noteq> i \<Longrightarrow> connected sg2 ! a = connected sg ! a"
proof -
  obtain sg1 rn1 where 1: "grp_disconnect (int i) (map int others) sg rn = Some (sg1, rn1)" "grp_wf sg1"
      "srvs sg1 = srvs sg" "connected sg1 = (connected sg)[i := False]"
    and l1: "\<And>a b. a < n \<Longrightarrow> b < n \<Longrightarrow> linked sg1 rn1 a b \<longleftrightarrow>
       \<not> (a = i \<and> b \<in> set others) \<and> \<not> (b = i \<and> a \<in> set others) \<and> linked sg rn a b"
    using grp_disconnect_effect[OF wf, of i others rn] i(1) lim(2) n by auto
  obtain sg2 rn2 where 2: "grp_connect (int i) (map int mine) sg1 rn1 = Some (sg2, rn2)" "grp_wf sg2"
      "srvs sg2 = srvs sg1" "connected sg2 = (connected sg1)[i := True]"
    and l2: "\<And>a b. a < n \<Longrightarrow> b < n \<Longrightarrow> linked sg2 rn2 a b \<longleftrightarrow>
       a = i \<and> b \<in> set mine \<and> connected sg2 ! b \<or> b = i \<and> a \<in> set mine \<and> connected sg2 ! a \<or> linked sg1 rn1 a b"
    using grp_connect_effect[OF 1(2), of i mine rn1] i(1) lim(1) n 1(3) by auto
  have len: "length (connected sg) = n" using wf n by (simp add: grp_wf_def)
  have ci: "connected sg2 ! i" and co: "\<And>a. a < n \<Longrightarrow> a \<noteq> i \<Longrightarrow> connected sg2 ! a = connected sg ! a"
    using 2(4) 1(4) len i(1) by simp_all
  have io: "i \<notin> set others" using dj i(2) by blast
  have "side_done (ds @ [i]) others sg2 rn2"
    unfolding side_done_def
  proof (intro conjI ballI)
    fix a assume a: "a \<in> set (ds @ [i])"
    then have an: "a < n" using ds(1) lim(1) i(1) by auto
    show ca: "connected sg2 ! a" using a ci co[OF an] ds(2) by (cases "a = i") (auto simp: side_done_def)
    fix b assume "b \<in> set (ds @ [i])"
    then show "linked sg2 rn2 a b"
      using a an ci ca co[of b] l1[OF an, of b] l2[OF an, of b] ds lim i io dj
      by (cases "a = i"; cases "b = i") (auto simp: side_done_def)
  next
    fix a b assume a: "a \<in> set (ds @ [i])" and b: "b \<in> set others"
    then have n: "a < n" "b < n" "b \<notin> set mine" "b \<noteq> i" using ds(1) lim i dj by auto
    show "\<not> linked sg2 rn2 a b" "\<not> linked sg2 rn2 b a"
      using l1[OF n(1,2)] l2[OF n(1,2)] l1[OF n(2,1)] l2[OF n(2,1)] n a b ds(2) by (auto simp: side_done_def)
  qed
  moreover have "linked sg2 rn2 a b = linked sg rn a b" if "a < n" "b < n" "a \<noteq> i" "b \<noteq> i" for a b
    using l1[OF that(1,2)] l2[OF that(1,2)] that by simp
  moreover have "linked sg rn a b" if "a \<in> set others" "b \<in> set mine" "linked sg2 rn2 a b" for a b
  proof -
    have "a < n" "b < n" "a \<notin> set mine" "a \<noteq> i" using that lim dj io by auto
    then show ?thesis using l1[of a b] l2[of a b] that(3) by auto
  qed
  ultimately show ?thesis using that[OF 1(1) 2(1) 2(2)] 1(3) 2(3) co by simp
qed

lemma Partition_loop_side:
  assumes "grp_wf sg" "n = length (srvs sg)" "\<forall>j \<in> set mine. j < n" "\<forall>j \<in> set others. j < n"
    and "set mine \<inter> set others = {}" "set js \<subseteq> set mine" "set ds \<subseteq> set mine" "side_done ds others sg rn"
  shows "\<exists>sg' rn'. Partition_loop (map int others) (map int mine) (map int js) sg rn = Some (sg', rn')
    \<and> grp_wf sg' \<and> srvs sg' = srvs sg \<and> side_done (ds @ js) others sg' rn'
    \<and> (\<forall>a \<in> {..<n} - set js. \<forall>b \<in> {..<n} - set js. linked sg' rn' a b = linked sg rn a b)
    \<and> (\<forall>a \<in> {..<n} - set js. connected sg' ! a = connected sg ! a)"
  using assms
proof (induction js arbitrary: ds sg rn)
  case Nil
  then show ?case by simp
next
  case (Cons i js)
  have i: "i < n" "i \<in> set mine" using Cons.prems by auto
  obtain sg1 rn1 sg2 rn2 where
    s: "grp_disconnect (int i) (map int others) sg rn = Some (sg1, rn1)"
      "grp_connect (int i) (map int mine) sg1 rn1 = Some (sg2, rn2)"
      "grp_wf sg2" "srvs sg2 = srvs sg" "side_done (ds @ [i]) others sg2 rn2"
    and l: "\<And>a b. a < n \<Longrightarrow> b < n \<Longrightarrow> a \<noteq> i \<Longrightarrow> b \<noteq> i \<Longrightarrow> linked sg2 rn2 a b = linked sg rn a b"
      "\<And>a. a < n \<Longrightarrow> a \<noteq> i \<Longrightarrow> connected sg2 ! a = connected sg ! a"
    using Partition_round[OF Cons.prems(1,2) i Cons.prems(3-5,7,8)] by metis
  have "\<exists>sg' rn'. Partition_loop (map int others) (map int mine) (map int js) sg2 rn2 = Some (sg', rn')
    \<and> grp_wf sg' \<and> srvs sg' = srvs sg2 \<and> side_done ((ds @ [i]) @ js) others sg' rn'
    \<and> (\<forall>a \<in> {..<n} - set js. \<forall>b \<in> {..<n} - set js. linked sg' rn' a b = linked sg2 rn2 a b)
    \<and> (\<forall>a \<in> {..<n} - set js. connected sg' ! a = connected sg2 ! a)"
    using Cons.prems s i by (intro Cons.IH) auto
  then obtain sg' rn' where t: "Partition_loop (map int others) (map int mine) (map int js) sg2 rn2 = Some (sg', rn')"
    "grp_wf sg'" "srvs sg' = srvs sg2" "side_done (ds @ i # js) others sg' rn'"
    "\<forall>a \<in> {..<n} - set js. \<forall>b \<in> {..<n} - set js. linked sg' rn' a b = linked sg2 rn2 a b"
    "\<forall>a \<in> {..<n} - set js. connected sg' ! a = connected sg2 ! a"
    by auto
  show ?case using s(1,2,4) t l by (intro exI[of _ sg'] exI[of _ rn']) simp
qed

lemma Partition_sides:
  assumes wf: "grp_wf sg" and n: "n = length (srvs sg)" and lim: "\<forall>j \<in> set p1. j < n" "\<forall>j \<in> set p2. j < n"
    and dj: "set p1 \<inter> set p2 = {}"
  shows "\<exists>sg' rn'. Partition (map int p1) (map int p2) sg rn = Some (sg', rn')
    \<and> grp_wf sg' \<and> srvs sg' = srvs sg \<and> side_done p1 p2 sg' rn' \<and> side_done p2 p1 sg' rn'"
proof -
  obtain sg1 rn1 where 1: "Partition_loop (map int p2) (map int p1) (map int p1) sg rn = Some (sg1, rn1)"
    "grp_wf sg1" "srvs sg1 = srvs sg" "side_done p1 p2 sg1 rn1"
    using Partition_loop_side[OF wf n lim dj subset_refl, of "[]" rn] by (auto simp: side_done_def)
  have dj': "set p2 \<inter> set p1 = {}" using dj by blast
  have n1: "n = length (srvs sg1)" using n 1(3) by simp
  obtain sg2 rn2 where 2: "Partition_loop (map int p1) (map int p2) (map int p2) sg1 rn1 = Some (sg2, rn2)"
    "side_done p2 p1 sg2 rn2" "grp_wf sg2" "srvs sg2 = srvs sg"
    and l: "\<forall>a \<in> {..<n} - set p2. \<forall>b \<in> {..<n} - set p2. linked sg2 rn2 a b = linked sg1 rn1 a b"
      "\<forall>a \<in> {..<n} - set p2. connected sg2 ! a = connected sg1 ! a"
    using Partition_loop_side[OF 1(2) n1 lim(2,1) dj' subset_refl, of "[]" rn1] 1(3) by (auto simp: side_done_def)
  have sub: "set p1 \<subseteq> {..<n} - set p2" using dj lim by auto
  have "side_done p1 p2 sg2 rn2" unfolding side_done_def
  proof (intro conjI ballI)
    fix a assume a: "a \<in> set p1"
    then show "connected sg2 ! a" using l(2) sub 1(4) by (auto simp: side_done_def)
    fix b assume b: "b \<in> set p1"
    then have "linked sg2 rn2 a b = linked sg1 rn1 a b" using a l(1) sub by blast
    then show "linked sg2 rn2 a b" using a b 1(4) by (simp add: side_done_def)
  next
    fix a b assume "a \<in> set p1" "b \<in> set p2"
    then show "\<not> linked sg2 rn2 a b" "\<not> linked sg2 rn2 b a" using 2(2) by (auto simp: side_done_def)
  qed
  then show ?thesis using 1(1) 2 by (simp add: Partition_def)
qed

text \<open>\<open>MakePartition\<close> writes the servers other than \<open>l\<close> one after the other into both arrays.\<close>

lemma MakePartition_loop_fill:
  assumes "k + length (filter (\<lambda>i. i \<noteq> l) xs) \<le> length p1 + length p2"
  shows "\<exists>p1' p2'. MakePartition_loop l xs (int k) p1 p2 = Some (p1', p2') \<and> length p1' = length p1 \<and> length p2' = length p2
    \<and> p1' @ p2' = take k (p1 @ p2) @ filter (\<lambda>i. i \<noteq> l) xs
        @ drop (k + length (filter (\<lambda>i. i \<noteq> l) xs)) (p1 @ p2)"
  using assms
proof (induction xs arbitrary: k p1 p2)
  case (Cons x xs)
  show ?case
  proof (cases "x = l")
    case True
    then show ?thesis using Cons.IH[of k p1 p2] Cons.prems by simp
  next
    case False
    let ?ys = "filter (\<lambda>i. i \<noteq> l) xs"
    have k: "k < length p1 + length p2" and le: "Suc k + length ?ys \<le> length p1 + length p2" using Cons.prems False by simp_all
    have upd: "take (Suc k) zs @ ws = take k (p1 @ p2) @ x # ws" "drop (Suc k + m) zs = drop (Suc k + m) (p1 @ p2)"
      if "zs = (p1 @ p2)[k := x]" for zs ws m
      using that k by (simp_all add: take_Suc_conv_app_nth)
    have suc: "int k + 1 = int (Suc k)" by simp
    define q1 q2 where "q1 = (if k < length p1 then p1[k := x] else p1)"
      and "q2 = (if k < length p1 then p2 else p2[k - length p1 := x])"
    have run: "MakePartition_loop l (x # xs) (int k) p1 p2 = MakePartition_loop l xs (int (Suc k)) q1 q2"
      using False k unfolding q1_def q2_def suc[symmetric] by (auto simp: go_set_def nat_diff_distrib)
    have eq: "q1 @ q2 = (p1 @ p2)[k := x]" and len: "length q1 = length p1" "length q2 = length p2"
      by (simp_all add: q1_def q2_def list_update_append)
    obtain p1' p2' where p: "MakePartition_loop l xs (int (Suc k)) q1 q2 = Some (p1', p2')"
      "length p1' = length p1" "length p2' = length p2"
      "p1' @ p2' = take (Suc k) (q1 @ q2) @ ?ys @ drop (Suc k + length ?ys) (q1 @ q2)"
      using Cons.IH[of "Suc k" q1 q2] le unfolding len by blast
    have "p1' @ p2' = take k (p1 @ p2) @ (x # ?ys) @ drop (k + length (x # ?ys)) (p1 @ p2)"
      unfolding p(4) upd[OF eq] by simp
    then show ?thesis using run p(1-3) False by simp
  qed
qed (simp del: take_append drop_append)

lemma filter_servers:
  assumes "l < n"
  shows "length (filter (\<lambda>i. i \<noteq> int l) (map int [0 ..< n])) = n - 1"
    and "mset (int l # filter (\<lambda>i. i \<noteq> int l) (map int [0 ..< n])) = mset (map int [0 ..< n])"
proof -
  have d: "distinct (map int [0 ..< n])" by (simp add: distinct_map)
  have "int l \<in> set (map int [0 ..< n])" using assms by simp
  with d show m: "mset (int l # filter (\<lambda>i. i \<noteq> int l) (map int [0 ..< n])) = mset (map int [0 ..< n])"
    by (intro set_eq_iff_mset_eq_distinct[THEN iffD1]) auto
  have "length (int l # filter (\<lambda>i. i \<noteq> int l) (map int [0 ..< n])) = length (map int [0 ..< n])"
    using m by (rule mset_eq_length)
  then show "length (filter (\<lambda>i. i \<noteq> int l) (map int [0 ..< n])) = n - 1"
    unfolding length_Cons length_map length_upt by linarith
qed

lemma MakePartition_shape:
  assumes "k = n div 2" "0 < k" "l < n"
  obtains p1 p2 where "MakePartition (int l) n = Some (p1, butlast p2 @ [int l])" "length p1 = k + 1" "length p2 = k"
    "p1 @ p2 = filter (\<lambda>i. i \<noteq> int l) (map int [0 ..< n]) @ replicate (2 * k + 2 - n) 0"
proof -
  let ?ys = "filter (\<lambda>i. i \<noteq> int l) (map int [0 ..< n])"
  have ly: "length ?ys = n - 1" by (rule filter_servers(1)[OF assms(3)])
  have n: "n - 1 \<le> 2 * k" "0 < n" using assms by auto
  obtain p1 p2 where p: "MakePartition_loop (int l) (map int [0 ..< n]) (int 0) (replicate (k + 1) 0) (replicate k 0) = Some (p1, p2)"
    "length p1 = k + 1" "length p2 = k"
    "p1 @ p2 = take 0 (replicate (k + 1) 0 @ replicate k 0) @ ?ys @ drop (0 + length ?ys) (replicate (k + 1) 0 @ replicate k 0)"
    using MakePartition_loop_fill[of 0 "int l" "map int [0 ..< n]" "replicate (k + 1) 0" "replicate k 0"] ly n by auto
  have ne: "p2 \<noteq> []" using p(3) assms(2) by auto
  then have lst: "p2[k - 1 := int l] = butlast p2 @ [int l]"
    using p(3) by (metis append_butlast_last_id length_butlast list_update_length)
  have run: "MakePartition (int l) n = Some (p1, p2[k - 1 := int l])"
    using p(1-3) assms(1,2) ne by (simp add: MakePartition_def go_set_def nat_diff_distrib)
  have "p1 @ p2 = ?ys @ drop (n - 1) (replicate (2 * k + 1) 0)"
    using p(4) unfolding ly replicate_add[symmetric] by (simp add: mult_2)
  moreover have "drop (n - 1) (replicate (2 * k + 1) (0 :: int)) = replicate (2 * k + 2 - n) 0"
    unfolding drop_replicate using n by (intro arg_cong[where f = "\<lambda>m. replicate m 0"]) simp
  ultimately have "p1 @ p2 = ?ys @ replicate (2 * k + 2 - n) 0" by simp
  then show ?thesis using that run p(2,3) unfolding lst by blast
qed

lemma filter_zero_first: "0 < l \<Longrightarrow> l < n \<Longrightarrow> \<exists>ys. filter (\<lambda>i. i \<noteq> int l) (map int [0 ..< n]) = 0 # ys"
  by (cases n) (simp_all add: upt_conv_Cons del: upt_Suc)

section \<open>Restarting a server\<close>

lemma makeServer_names: "makeServer gid names rn = Some (srv, rn') \<Longrightarrow> endNames srv = names \<and> saved srv = None"
  by (auto simp: makeServer_def elim!: bindE)

lemma Read_daemon [simp]:
  "ReadRaftState (daemon_init p) = ReadRaftState p" "ReadSnapshot (daemon_init p) = ReadSnapshot p"
  "ReadRaftState (checkpointPersister p) = ReadRaftState p" "ReadSnapshot (checkpointPersister p) = ReadSnapshot p"
  by (simp_all add: daemon_init_def checkpointPersister_def ReadRaftState_def ReadSnapshot_def Save_def
      Checkpoint_def MakePersister_def)

section \<open>The command line\<close>

lemma itoa_digits: "list_all isDigit (itoa_nat n)"
proof (induction n rule: itoa_nat.induct)
  case (1 n)
  have dig: "isDigit (char_of (48 + d))" if "d < 10" for d :: nat
    using that by (simp add: isDigit_def of_char_of)
  show ?case
  proof (cases "n < 10")
    case True
    then show ?thesis using dig[of n] by (simp add: itoa_nat.simps[of n])
  next
    case False
    have "n mod 10 < 10" by simp
    from dig[OF this] False 1 show ?thesis by (simp add: itoa_nat.simps[of n])
  qed
qed

lemma itoa_nonempty: "itoa_nat n \<noteq> []"
  by (simp add: itoa_nat.simps[of n])

lemma itoa_no_minus: "hd (itoa_nat n) \<noteq> CHR ''-''"
proof -
  have "isDigit (hd (itoa_nat n))" using itoa_digits itoa_nonempty by (metis list_all_iff hd_in_set)
  then show ?thesis by (auto simp: isDigit_def)
qed

lemma Atoi_Itoa: "0 \<le> i \<Longrightarrow> Atoi (Itoa i) = Some i"
  using itoa_no_minus[of "nat i"] itoa_nonempty[of "nat i"] itoa_digits[of "nat i"] atoi_itoa[of "nat i"]
  by (auto simp: Atoi_def Itoa_def split: list.splits)

lemma skip_options_prefix:
  assumes "list_all (\<lambda>a. a \<noteq> [] \<and> hd a = CHR ''-'') opts" "b \<noteq> []" "hd b \<noteq> CHR ''-''"
  shows "skip_options i i (opts @ b # rest) = Some (i + length opts)"
  using assms by (induction opts arbitrary: i) auto

section \<open>Properties\<close>

text \<open>
  C30. \<open>Partition\<close> isolates: afterwards two servers of the same side can call each other, in both
  directions, and two servers of different sides cannot, whatever was connected before.
\<close>

theorem Partition_isolates:
  assumes "grp_wf sg" and "\<forall>j \<in> set p1 \<union> set p2. j < length (srvs sg)" and "set p1 \<inter> set p2 = {}"
    and "a \<in> set p1 \<union> set p2" "b \<in> set p1 \<union> set p2"
  shows "\<exists>sg' rn'. Partition (map int p1) (map int p2) sg rn = Some (sg', rn')
    \<and> (linked sg' rn' a b \<longleftrightarrow> (a \<in> set p1 \<longleftrightarrow> b \<in> set p1))"
proof -
  obtain sg' rn' where run: "Partition (map int p1) (map int p2) sg rn = Some (sg', rn')"
    and sides: "side_done p1 p2 sg' rn'" "side_done p2 p1 sg' rn'"
    using Partition_sides[OF assms(1) refl _ _ assms(3), of rn] assms(2) by blast
  have "linked sg' rn' a b \<longleftrightarrow> (a \<in> set p1 \<longleftrightarrow> b \<in> set p1)"
    using sides assms(3-5) unfolding side_done_def by blast
  then show ?thesis using run by blast
qed

definition demo_grp :: "(nat, nat) ServerGrp" where
  "demo_grp = \<lparr>srvs = [\<lparr>saved = None, endNames = [''a'', ''b'', ''c''], dc = Some MakePersister\<rparr>,
       \<lparr>saved = None, endNames = [''d'', ''e'', ''f''], dc = None\<rparr>, \<lparr>saved = None, endNames = [''g'', ''h'', ''i''], dc = None\<rparr>],
     servernames = [''server-0-0'', ''server-0-1'', ''server-0-2''], grpgid = 0, connected = [False, True, True]\<rparr>"

theorem Partition_isolates_witness:
  "\<exists>sg' rn'. Partition [0, 2] [1] demo_grp MakeNetwork = Some (sg', rn') \<and> linked sg' rn' 2 0"
  using Partition_isolates[of demo_grp "[0, 2]" "[1]" 2 0 MakeNetwork]
  by (simp add: grp_wf_def demo_grp_def)

text \<open>
  \<open>MakePartition\<close> on a group with an odd number of servers, three or more, puts every server on one
  side: a majority, and a minority with the given leader in it.
\<close>

theorem MakePartition_majority:
  assumes "odd n" "1 < n" "l < n"
  shows "\<exists>p1 p2. MakePartition (int l) n = Some (p1, p2) \<and> length p1 = n div 2 + 1 \<and> length p2 = n div 2
    \<and> mset (p1 @ p2) = mset (map int [0 ..< n]) \<and> int l \<in> set p2"
proof -
  let ?ys = "filter (\<lambda>i. i \<noteq> int l) (map int [0 ..< n])"
  obtain p1 p2 where p: "MakePartition (int l) n = Some (p1, butlast p2 @ [int l])" "length p1 = n div 2 + 1"
    "length p2 = n div 2" "p1 @ p2 = ?ys @ replicate (2 * (n div 2) + 2 - n) 0"
    using MakePartition_shape[OF refl, of n l] assms(2,3) by auto
  have "2 * (n div 2) + 2 - n = 1" using assms(1) by (simp add: odd_two_times_div_two_nat)
  then have "butlast (p1 @ p2) = ?ys" using p(4) by simp
  moreover have "p2 \<noteq> []" using p(3) assms(2) by auto
  ultimately have "p1 @ butlast p2 = ?ys" by (simp add: butlast_append)
  then have "mset (p1 @ butlast p2 @ [int l]) = mset (int l # ?ys)" by (metis append_assoc mset_append mset_rev rev.simps(2) rev_append union_commute)
  then show ?thesis using p(1-3) filter_servers(2)[OF assms(3)] \<open>p2 \<noteq> []\<close> assms(2)
    by (intro exI[of _ p1] exI[of _ "butlast p2 @ [int l]"]) simp
qed

theorem MakePartition_majority_witness:
  "\<exists>p1 p2. MakePartition 1 5 = Some (p1, p2) \<and> length p1 = 3 \<and> mset (p1 @ p2) = mset (map int [0 ..< 5])"
  using MakePartition_majority[of 5 1] by (simp del: upt_rec_numeral) fastforce

text \<open>
  On a group with an even number of servers, four or more, \<open>MakePartition\<close> does not give a partition:
  when the leader is not server 0, that server is on both sides.
\<close>

theorem MakePartition_even_overlap:
  assumes "even n" "4 \<le> n" "0 < l" "l < n"
  shows "\<exists>p1 p2. MakePartition (int l) n = Some (p1, p2) \<and> 0 \<in> set p1 \<and> 0 \<in> set p2"
proof -
  let ?ys = "filter (\<lambda>i. i \<noteq> int l) (map int [0 ..< n])"
  obtain p1 p2 where p: "MakePartition (int l) n = Some (p1, butlast p2 @ [int l])" "length p1 = n div 2 + 1"
    "length p2 = n div 2" "p1 @ p2 = ?ys @ replicate (2 * (n div 2) + 2 - n) 0"
    using MakePartition_shape[OF refl, of n l] assms(2,4) by auto
  have two: "2 * (n div 2) + 2 - n = 2" using assms(1) by simp
  obtain ys where ys: "?ys = 0 # ys" using filter_zero_first[OF assms(3,4)] by blast
  have "hd (p1 @ p2) = 0" using p(4) ys by simp
  moreover have "p1 \<noteq> []" using p(2) by auto
  ultimately have "0 \<in> set p1" by (metis hd_append2 hd_in_set)
  moreover have "p1 @ p2 = (?ys @ [0]) @ [0]" using p(4) two by (simp add: eval_nat_numeral)
  then have "butlast (p1 @ p2) = ?ys @ [0]" by (simp only: butlast_snoc)
  moreover have "2 \<le> length p2" using p(3) assms(2) by simp
  then have ne: "p2 \<noteq> []" "butlast p2 \<noteq> []" by (auto simp flip: length_greater_0_conv)
  ultimately have "p1 @ butlast p2 = ?ys @ [0]" by (simp add: butlast_append)
  then have "last (butlast p2) = 0" using ne(2) by (metis last_appendR last_snoc)
  then have "0 \<in> set (butlast p2)" using ne(2) by (metis last_in_set)
  then show ?thesis using p(1) \<open>0 \<in> set p1\<close> by auto
qed

theorem MakePartition_even_overlap_witness:
  "\<exists>p1 p2. MakePartition 3 4 = Some (p1, p2) \<and> 0 \<in> set p1 \<and> 0 \<in> set p2"
  using MakePartition_even_overlap[of 4 3] by simp



text \<open>
  A daemon reads its command line back: group, server number, the tester's end and the end names
  that \<open>runDaemon\<close> passes are those that \<open>InitDaemon\<close> parses, if every program argument is an option.
\<close>

theorem daemon_args_roundtrip:
  assumes "list_all (\<lambda>a. a \<noteq> [] \<and> hd a = CHR ''-'') pargs" and "0 \<le> gid" "0 \<le> srv"
  shows "InitDaemon_parse (daemon_args pargs useRSM gid srv names testerEnd) = Some (Inr (gid, srv, testerEnd, names))"
proof -
  let ?opts = "pargs @ daemon_options useRSM"
  have opts: "list_all (\<lambda>a. a \<noteq> [] \<and> hd a = CHR ''-'') ?opts" using assms(1) by (simp add: daemon_options_def)
  have "Itoa gid \<noteq> []" "hd (Itoa gid) \<noteq> CHR ''-''"
    using assms(2) itoa_no_minus[of "nat gid"] itoa_nonempty[of "nat gid"] by (simp_all add: Itoa_def)
  note skip = skip_options_prefix[OF opts this, of 0]
  have nth: "go_nth (?opts @ a # b # c # t # names) (int (length ?opts)) = Some a"
    "go_nth (?opts @ a # b # c # t # names) (int (length ?opts) + 1) = Some b"
    "go_nth (?opts @ a # b # c # t # names) (int (length ?opts) + 2) = Some c"
    "go_nth (?opts @ a # b # c # t # names) (int (length ?opts) + 3) = Some t"
    "go_from (?opts @ a # b # c # t # names) (int (length ?opts) + 4) = Some names" for a b c t
    by (simp_all add: go_nth_def go_from_def nat_add_distrib nth_append eval_nat_numeral)
  have up: "go_upto names (int (length names)) = Some names" by (simp add: go_upto_def)
  show ?thesis unfolding InitDaemon_parse_def daemon_args_def
    using skip[of "Itoa srv # Itoa (int (length names)) # testerEnd # names"] nth up assms(2,3) by (simp add: Atoi_Itoa)
qed

theorem daemon_args_roundtrip_witness:
  "InitDaemon_parse (daemon_args [''--max-raft-state=1''] False 0 2 [''x'', ''y'', ''z''] ''t'') = Some (Inr (0, 2, ''t'', [''x'', ''y'', ''z'']))"
  using daemon_args_roundtrip[of "[''--max-raft-state=1'']" 0 2 False "[''x'', ''y'', ''z'']" "''t''"] by simp

end
