(* ===== verification/KvHarness.thy ===== *)
theory KvHarness
  imports KvClerk GoLib TesterNetProps
begin

text \<open>
  The rest of the key/value test harness (\<^verbatim>\<open>kvtest1/kvtest.go\<close>): Puts that are repeated until one
  returns OK, keys and spread Puts, and the thread that repartitions the servers.

  A Put of the harness is the clerk's with its own list of attempts.
\<close>

section \<open>Repeated Puts\<close>

text \<open>\<open>None\<close> is \<^verbatim>\<open>ts.Fatalf\<close> or a loop that has not ended.\<close>

fun PutAtLeastOnce :: "string \<Rightarrow> string \<Rightarrow> attempt list list \<Rightarrow> Tversion \<Rightarrow> KVServer \<Rightarrow> Tversion option \<times> KVServer" where
  "PutAtLeastOnce key value [] v kv = (None, kv)"
| "PutAtLeastOnce key value (as # ass) v kv =
     (let (r, kv1, _) = clerk_Put \<lparr>pKey = key, pValue = value, pVersion = v\<rparr> 0 as kv 0 in
      case r of
        None \<Rightarrow> (None, kv1)
      | Some err \<Rightarrow>
          if err = OK then (Some (v + 1), kv1)
          else if err = ErrMaybe \<or> err = ErrVersion then PutAtLeastOnce key value ass (v + 1) kv1
          else if v \<noteq> 0 then (None, kv1)
          else PutAtLeastOnce key value ass v kv1)"

text \<open>\<open>PutAtLeastOnceJson\<close> counts in \<open>ver\<close>, but every Put is over version 0.\<close>

fun PutAtLeastOnceJson :: "string \<Rightarrow> string \<Rightarrow> attempt list list \<Rightarrow> Tversion \<Rightarrow> KVServer \<Rightarrow> Tversion option \<times> KVServer" where
  "PutAtLeastOnceJson key value [] v kv = (None, kv)"
| "PutAtLeastOnceJson key value (as # ass) v kv =
     (let (r, kv1, _) = clerk_Put \<lparr>pKey = key, pValue = value, pVersion = 0\<rparr> 0 as kv 0 in
      case r of
        None \<Rightarrow> (None, kv1)
      | Some err \<Rightarrow> if err \<noteq> ErrMaybe then (Some v, kv1) else PutAtLeastOnceJson key value ass (v + 1) kv1)"

section \<open>Keys\<close>

definition MakeKeys :: "nat \<Rightarrow> string list" where
  "MakeKeys n = map (\<lambda>i. ''k'' @ Itoa (int i)) [0..<n]"

definition CheckGet :: "string \<Rightarrow> string \<Rightarrow> Tversion \<Rightarrow> KVServer \<Rightarrow> bool" where
  "CheckGet key value version kv =
     (let r = Get \<lparr>gKey = key\<rparr> kv in
      if grErr r \<noteq> OK then False
      else if grValue r \<noteq> value \<or> grVersion r \<noteq> version then False
      else True)"

text \<open>\<open>SpreadPutsSize\<close> with the strings that \<open>Randstring\<close> returns, while nothing is lost.\<close>

definition SpreadPutsSize :: "string list \<Rightarrow> KVServer \<Rightarrow> (string list \<times> string list) option \<times> KVServer" where
  "SpreadPutsSize va kv =
     (let keys = MakeKeys (length va);
          kv1 = foldl (\<lambda>kv i. fst (Put \<lparr>pKey = keys ! i, pValue = va ! i, pVersion = 0\<rparr> kv)) kv [0..<length va]
      in (if list_all (\<lambda>i. CheckGet (keys ! i) (va ! i) 1 kv1) [0..<length va] then Some (keys, va) else None, kv1))"

section \<open>Repartitioning\<close>

text \<open>One round of \<open>Partitioner\<close> with its random numbers, and rounds until the signal comes.\<close>

definition Partitioner_round :: "int list \<Rightarrow> ('r, 'b) ServerGrp \<Rightarrow> Network \<Rightarrow> (('r, 'b) ServerGrp \<times> Network) option" where
  "Partitioner_round rand sg rn = do {
     let a = map (\<lambda>i. rand ! nat i mod 2) (grp_all sg);
     let pa = (\<lambda>i. filter (\<lambda>j. a ! nat j = i) (grp_all sg));
     Partition (pa 0) (pa 1) sg rn
   }"

fun Partitioner :: "int list list \<Rightarrow> ('r, 'b) ServerGrp \<Rightarrow> Network \<Rightarrow> (('r, 'b) ServerGrp \<times> Network) option" where
  "Partitioner [] sg rn = Some (sg, rn)"
| "Partitioner (rand # rands) sg rn = do {
     (sg, rn) \<leftarrow> Partitioner_round rand sg rn;
     Partitioner rands sg rn
   }"

section \<open>A key with one writer\<close>

definition elsewhere :: "string \<Rightarrow> attempt list \<Rightarrow> bool" where
  "elsewhere key as \<longleftrightarrow> list_all (\<lambda>a. list_all (\<lambda>p. pKey p \<noteq> key) (others a)) as"

text \<open>Some attempt is answered; the first one that arrives is.\<close>

definition answers :: "attempt list \<Rightarrow> bool" where
  "answers as \<longleftrightarrow> list_ex (\<lambda>a. arrives a \<and> answered a) as"

definition undisturbed :: "attempt list \<Rightarrow> bool" where
  "undisturbed as = (case dropWhile (\<lambda>a. \<not> arrives a) as of [] \<Rightarrow> False | a # _ \<Rightarrow> answered a)"

lemma exec_puts_elsewhere: "list_all (\<lambda>p. pKey p \<noteq> key) ps \<Longrightarrow> kvdata (exec_puts ps kv) key = kvdata kv key"
proof (induction ps arbitrary: kv)
  case (Cons p ps)
  have "kvdata (fst (Put p kv)) key = kvdata kv key"
    using Cons.prems by (auto simp: Put_def split: option.splits)
  with Cons show ?case by (simp add: exec_puts_def)
qed (simp add: exec_puts_def)

lemma ver_eq: "kvdata kv k = kvdata kv' k \<Longrightarrow> ver kv k = ver kv' k"
  by (simp add: ver_def2)

lemma Put_refused:
  assumes "kvdata kv (pKey args) = Some e" and "elVersion e \<noteq> pVersion args"
  shows "Put args kv = (kv, \<lparr>prErr = ErrVersion\<rparr>)"
  using assms by (simp add: Put_def)

lemma Put_accepted:
  assumes "ver kv (pKey args) = pVersion args"
  obtains kv' where "Put args kv = (kv', \<lparr>prErr = OK\<rparr>)"
    and "kvdata kv' (pKey args) = Some \<lparr>elValue = pValue args, elVersion = pVersion args + 1\<rparr>"
  using assms by (auto simp: Put_def ver_def2 split: option.splits)

text \<open>A request that the server is past stays without effect.\<close>

lemma clerk_Put_refused:
  assumes "elsewhere (pKey args) as" and "answers as" and "kvdata kv (pKey args) = Some e" and "elVersion e \<noteq> pVersion args"
  shows "\<exists>r kv'. clerk_Put args n as kv cnt = (Some r, kv', cnt) \<and> r \<in> {ErrVersion, ErrMaybe}
    \<and> (0 < n \<longrightarrow> r = ErrMaybe) \<and> kvdata kv' (pKey args) = Some e"
  using assms
proof (induction as arbitrary: n kv)
  case (Cons a as)
  let ?kv = "exec_puts (others a) kv"
  have k: "kvdata ?kv (pKey args) = Some e"
    using Cons.prems exec_puts_elsewhere[of "pKey args" "others a" kv] by (simp add: elsewhere_def)
  note p = Put_refused[OF k Cons.prems(4)]
  show ?case
  proof (cases "arrives a \<and> answered a")
    case True
    with k p show ?thesis by (auto simp: Let_def)
  next
    case False
    then have "answers as" using Cons.prems(2) by (auto simp: answers_def)
    with Cons.IH[where n = "n + 1" and kv = ?kv] Cons.prems k obtain r kv' where
      "clerk_Put args (n + 1) as ?kv cnt = (Some r, kv', cnt)" "r = ErrMaybe" "kvdata kv' (pKey args) = Some e"
      by (auto simp: elsewhere_def)
    with False p show ?thesis by (cases "arrives a") (auto simp: Let_def)
  qed
qed (simp add: answers_def)

text \<open>A request for the current version is applied.\<close>

lemma clerk_Put_accepted:
  assumes "elsewhere (pKey args) as" and "answers as" and "ver kv (pKey args) = pVersion args"
  shows "\<exists>kv' c. clerk_Put args n as kv cnt = (Some (if undisturbed as then OK else ErrMaybe), kv', c)
    \<and> kvdata kv' (pKey args) = Some \<lparr>elValue = pValue args, elVersion = pVersion args + 1\<rparr>"
  using assms
proof (induction as arbitrary: n kv cnt)
  case (Cons a as)
  let ?kv = "exec_puts (others a) kv"
  have "kvdata ?kv (pKey args) = kvdata kv (pKey args)"
    using Cons.prems exec_puts_elsewhere[of "pKey args" "others a" kv] by (simp add: elsewhere_def)
  then have v: "ver ?kv (pKey args) = pVersion args" using Cons.prems(3) ver_eq[of ?kv "pKey args" kv] by simp
  have e: "elsewhere (pKey args) as" using Cons.prems(1) by (simp add: elsewhere_def)
  show ?case
  proof (cases "arrives a")
    case False
    then have "answers as" using Cons.prems(2) by (simp add: answers_def)
    from Cons.IH[where n = "n + 1" and cnt = cnt, OF e this v] False show ?thesis by (simp add: Let_def undisturbed_def)
  next
    case True
    obtain kv1 where p: "Put args ?kv = (kv1, \<lparr>prErr = OK\<rparr>)"
        "kvdata kv1 (pKey args) = Some \<lparr>elValue = pValue args, elVersion = pVersion args + 1\<rparr>"
      using v by (rule Put_accepted)
    show ?thesis
    proof (cases "answered a")
      case True
      with \<open>arrives a\<close> p show ?thesis by (simp add: Let_def undisturbed_def)
    next
      case False
      then have "answers as" using Cons.prems(2) by (simp add: answers_def)
      moreover have "elVersion \<lparr>elValue = pValue args, elVersion = pVersion args + 1\<rparr> \<noteq> pVersion args" by simp
      ultimately obtain kv' where "clerk_Put args (n + 1) as kv1 (Suc cnt) = (Some ErrMaybe, kv', Suc cnt)"
          "kvdata kv' (pKey args) = Some \<lparr>elValue = pValue args, elVersion = pVersion args + 1\<rparr>"
        using clerk_Put_refused[where n = "n + 1" and cnt = "Suc cnt", OF e _ p(2)] by auto
      with False \<open>arrives a\<close> p(1) show ?thesis by (simp add: Let_def undisturbed_def)
    qed
  qed
qed (simp add: answers_def)

section \<open>Spread keys\<close>

lemma MakeKeys_distinct: "distinct (MakeKeys n)"
  by (auto simp: MakeKeys_def distinct_map inj_on_def Itoa_def itoa_inj)

lemma spread_step:
  assumes "distinct keys" and "n \<le> length keys" and "\<And>i. i < length keys \<Longrightarrow> kvdata kv (keys ! i) = None"
  shows "i < length keys \<Longrightarrow>
    kvdata (foldl (\<lambda>kv i. fst (Put \<lparr>pKey = keys ! i, pValue = va ! i, pVersion = 0\<rparr> kv)) kv [0..<n]) (keys ! i) =
      (if i < n then Some \<lparr>elValue = va ! i, elVersion = 1\<rparr> else None)"
  using assms(2)
proof (induction n arbitrary: i)
  case 0
  then show ?case using assms(3) by simp
next
  case (Suc n)
  then have "keys ! i = keys ! n \<longleftrightarrow> i = n" using assms(1) by (simp add: nth_eq_iff_index_eq)
  with Suc show ?case by (auto simp: Put_def)
qed

text \<open>On a server that has none of the keys, the Gets find what the Puts have written.\<close>

theorem SpreadPuts_checked:
  assumes "\<And>k. k \<in> set (MakeKeys (length va)) \<Longrightarrow> kvdata kv k = None"
  shows "fst (SpreadPutsSize va kv) = Some (MakeKeys (length va), va)"
proof -
  have "kvdata kv (MakeKeys (length va) ! i) = None" if "i < length (MakeKeys (length va))" for i
    using assms that by simp
  from spread_step[OF MakeKeys_distinct _ this, of "length va"] show ?thesis
    by (auto simp: SpreadPutsSize_def CheckGet_def Get_def list_all_iff MakeKeys_def Let_def)
qed

section \<open>Rounds of partitions\<close>

lemma Partitioner_round_sides:
  assumes "grp_wf sg"
  shows "\<exists>sg' rn'. Partitioner_round rand sg rn = Some (sg', rn') \<and> grp_wf sg' \<and> srvs sg' = srvs sg
    \<and> (\<forall>i < length (srvs sg). \<forall>j < length (srvs sg). linked sg' rn' i j \<longleftrightarrow> rand ! i mod 2 = rand ! j mod 2)"
proof -
  define p where "p b = filter (\<lambda>i. rand ! i mod 2 = b) [0..<length (srvs sg)]" for b :: int
  have all: "filter (\<lambda>j. map (\<lambda>i. rand ! nat i mod 2) (grp_all sg) ! nat j = b) (grp_all sg) = map int (p b)" for b
    by (auto simp: grp_all_def p_def filter_map o_def intro!: map_cong filter_cong)
  have two: "rand ! i mod 2 = 0 \<or> rand ! i mod 2 = 1" for i by presburger
  have lim: "\<forall>j \<in> set (p b). j < length (srvs sg)" for b by (simp add: p_def)
  have dj: "set (p 0) \<inter> set (p 1) = {}" by (auto simp: p_def)
  obtain sg' rn' where "Partition (map int (p 0)) (map int (p 1)) sg rn = Some (sg', rn')" "grp_wf sg'" "srvs sg' = srvs sg"
    and sides: "side_done (p 0) (p 1) sg' rn'" "side_done (p 1) (p 0) sg' rn'"
    using Partition_sides[OF assms refl lim lim dj, of rn] by blast
  moreover have "linked sg' rn' i j \<longleftrightarrow> rand ! i mod 2 = rand ! j mod 2" if "i < length (srvs sg)" "j < length (srvs sg)" for i j
  proof -
    have m: "k \<in> set (p b) \<longleftrightarrow> rand ! k mod 2 = b" if "k < length (srvs sg)" for k b using that by (auto simp: p_def)
    obtain x y where x: "rand ! i mod 2 = x" "x = 0 \<or> x = 1" and y: "rand ! j mod 2 = y" "y = 0 \<or> y = 1"
      using two by blast
    have "i \<in> set (p x)" "j \<in> set (p y)" using m that x(1) y(1) by auto
    with x(2) y(2) sides show ?thesis unfolding x(1) y(1) by (elim disjE) (simp_all add: side_done_def)
  qed
  ultimately show ?thesis by (simp add: Partitioner_round_def all Let_def)
qed

text \<open>
  The thread that repartitions the servers: after any rounds, two servers can call each other exactly
  when the last round drew the same side for them, whatever the earlier rounds did.
\<close>

theorem Partitioner_sides:
  assumes "grp_wf sg"
  shows "\<exists>sg' rn'. Partitioner (rands @ [rand]) sg rn = Some (sg', rn')
    \<and> (\<forall>i < length (srvs sg). \<forall>j < length (srvs sg). linked sg' rn' i j \<longleftrightarrow> rand ! i mod 2 = rand ! j mod 2)"
  using assms
proof (induction rands arbitrary: sg rn)
  case Nil
  then show ?case using Partitioner_round_sides[of sg rand rn] by auto
next
  case (Cons r rands)
  then obtain sg1 rn1 where 1: "Partitioner_round r sg rn = Some (sg1, rn1)" "grp_wf sg1" "srvs sg1 = srvs sg"
    using Partitioner_round_sides[of sg r rn] by auto
  with Cons.IH[OF 1(2), of rn1] show ?case by simp
qed

theorem Partitioner_sides_witness:
  "\<exists>sg' rn'. Partitioner ([[7, 7, 8], [4, 9, 2]]) demo_grp MakeNetwork = Some (sg', rn')
    \<and> linked sg' rn' 0 2 \<and> \<not> linked sg' rn' 0 1"
proof -
  have n: "length (srvs demo_grp) = 3" "grp_wf demo_grp" by (simp_all add: demo_grp_def grp_wf_def)
  from Partitioner_sides[OF n(2), of "[[7, 7, 8]]" "[4, 9, 2]" MakeNetwork] obtain sg' rn' where
    run: "Partitioner [[7, 7, 8], [4, 9, 2]] demo_grp MakeNetwork = Some (sg', rn')"
    and l: "\<forall>i < 3. \<forall>j < 3. linked sg' rn' i j \<longleftrightarrow> [4, 9, 2::int] ! i mod 2 = [4, 9, 2] ! j mod 2"
    unfolding n(1) by auto
  have "linked sg' rn' 0 2" "\<not> linked sg' rn' 0 1" using l by simp_all
  with run show ?thesis by blast
qed

section \<open>Puts that are repeated\<close>

text \<open>
  \<open>PutAtLeastOnce\<close> on a key that nobody else writes, started with the key's version: if every Put is
  answered in the end and one of them gets the answer to the first request that arrives, the loop ends
  with the first such Put, the server holds the value, and its version is the one that is returned.
\<close>

theorem PutAtLeastOnce_ends:
  assumes "list_all (elsewhere key) ass" and "list_all answers ass" and "list_ex undisturbed ass" and "ver kv key = v"
  shows "\<exists>kv'. PutAtLeastOnce key value ass v kv = (Some (v + of_nat (Suc (length (takeWhile (\<lambda>as. \<not> undisturbed as) ass)))), kv')
    \<and> kvdata kv' key = Some \<lparr>elValue = value, elVersion = v + of_nat (Suc (length (takeWhile (\<lambda>as. \<not> undisturbed as) ass)))\<rparr>"
  using assms
proof (induction ass arbitrary: v kv)
  case (Cons as ass)
  let ?a = "\<lparr>pKey = key, pValue = value, pVersion = v\<rparr>"
  obtain kv1 c where put: "clerk_Put ?a 0 as kv 0 = (Some (if undisturbed as then OK else ErrMaybe), kv1, c)"
      "kvdata kv1 key = Some \<lparr>elValue = value, elVersion = v + 1\<rparr>"
    using clerk_Put_accepted[of ?a as kv 0 0] Cons.prems by auto
  show ?case
  proof (cases "undisturbed as")
    case True
    with put show ?thesis by simp
  next
    case False
    have "ver kv1 key = v + 1" using put(2) by (simp add: ver_def2)
    with Cons.IH[of kv1 "v + 1"] Cons.prems False obtain kv' where
      "PutAtLeastOnce key value ass (v + 1) kv1 = (Some (v + 1 + of_nat (Suc (length (takeWhile (\<lambda>as. \<not> undisturbed as) ass)))), kv')"
      "kvdata kv' key = Some \<lparr>elValue = value, elVersion = v + 1 + of_nat (Suc (length (takeWhile (\<lambda>as. \<not> undisturbed as) ass)))\<rparr>"
      by auto
    with put False show ?thesis by (simp add: add.assoc)
  qed
qed simp

text \<open>The reply to the first request of the first Put is lost.\<close>

theorem PutAtLeastOnce_ends_witness:
  "\<exists>kv'. PutAtLeastOnce ''k'' ''v'' [[Attempt [] True False, Attempt [] True True], [Attempt [] False False, Attempt [] True True]] 0 MakeKVServer
      = (Some 2, kv') \<and> kvdata kv' ''k'' = Some \<lparr>elValue = ''v'', elVersion = 2\<rparr>"
  using PutAtLeastOnce_ends[of "''k''" "[[Attempt [] True False, Attempt [] True True], [Attempt [] False False, Attempt [] True True]]"
      MakeKVServer 0 "''v''"]
  by (simp add: elsewhere_def answers_def undisturbed_def MakeKVServer_def ver_def2 del: PutAtLeastOnce.simps)

text \<open>
  The variant for JSON passes version 0 to every Put: on a key that exists it writes nothing, however
  often it tries, and still returns.
\<close>

theorem PutAtLeastOnceJson_writes_nothing:
  assumes "list_all (elsewhere key) ass" and "list_all answers ass" and "kvdata kv key = Some e" and "elVersion e \<noteq> 0"
  shows "kvdata (snd (PutAtLeastOnceJson key value ass v kv)) key = Some e"
  using assms
proof (induction ass arbitrary: v kv)
  case (Cons as ass)
  obtain r kv1 where put: "clerk_Put \<lparr>pKey = key, pValue = value, pVersion = 0\<rparr> 0 as kv 0 = (Some r, kv1, 0)"
      "kvdata kv1 key = Some e"
    using clerk_Put_refused[of "\<lparr>pKey = key, pValue = value, pVersion = 0\<rparr>" as kv e 0 0] Cons.prems by auto
  with Cons show ?case by simp
qed simp

end
