(* ===== verification/KvLock.thy ===== *)
theory KvLock
  imports KvClerk "HOL-Library.Multiset"
begin

text \<open>
  The lock of \<^verbatim>\<open>src/src/kvsrv1/lock/lock.go\<close>, used by any number of clients through clerks and an
  unreliable network, and mutual exclusion.

  The decisions of Acquire and Release after each clerk operation are functions; the step
  relation interleaves them with the operations of the server.  A Get of the clerk is the read at
  the moment of its execution followed, later, by the decision.  A Put is any number of copies of
  one request: the client is answered by one of them, and copies may be lost or arrive at any
  later time, also after the operation has returned.
\<close>

section \<open>The lock\<close>

record Lock =
  lockname :: string
  lkversion :: Tversion
  lockToken :: string

definition lockReleaseValue :: string where
  "lockReleaseValue = ''release''"

text \<open>\<^verbatim>\<open>kvtest.RandValue\<close>, with the numbers that \<^verbatim>\<open>rand.Int63()\<close> returns.\<close>

definition letterBytes :: string where
  "letterBytes = ''abcdefghijklmnopqrstuvwxyzABCDEFGHIJKLMNOPQRSTUVWXYZ''"

definition RandValue :: "nat list \<Rightarrow> string" where
  "RandValue rnd = map (\<lambda>r. letterBytes ! (r mod length letterBytes)) rnd"

definition MakeLock :: "string \<Rightarrow> nat list \<Rightarrow> Lock" where
  "MakeLock name rnd = \<lparr>lockname = name, lkversion = 0, lockToken = RandValue rnd\<rparr>"

datatype lock_next = Return | Loop | DoPut Tversion

text \<open>After the Get of \<open>Acquire\<close>, and after its Put.\<close>

definition Acquire_got :: "Lock \<Rightarrow> GetReply \<Rightarrow> lock_next" where
  "Acquire_got lk r =
     (if grErr r = OK
      then (if grValue r = lockToken lk then Return
            else if grValue r \<noteq> lockReleaseValue then Loop
            else DoPut (grVersion r))
      else if grErr r \<noteq> ErrNoKey then Loop
      else DoPut (grVersion r))"

definition Acquire_put :: "Lock \<Rightarrow> Tversion \<Rightarrow> Err \<Rightarrow> Lock \<times> lock_next" where
  "Acquire_put lk curVersion err =
     (if err = ErrNoKey then (lk\<lparr>lkversion := 0\<rparr>, Loop)
      else if err = OK then (lk\<lparr>lkversion := curVersion\<rparr>, Return)
      else (lk, Loop))"

text \<open>The same for \<open>Release\<close>.\<close>

definition Release_got :: "Lock \<Rightarrow> GetReply \<Rightarrow> lock_next" where
  "Release_got lk r =
     (if grErr r = OK
      then (if grValue r = lockReleaseValue then Return
            else if grValue r \<noteq> lockToken lk then Return
            else DoPut (grVersion r))
      else if grErr r = ErrNoKey then Return
      else Loop)"

definition Release_put :: "Lock \<Rightarrow> Tversion \<Rightarrow> Err \<Rightarrow> Lock \<times> lock_next" where
  "Release_put lk curVersion err =
     (if err = ErrNoKey then (lk\<lparr>lkversion := 0\<rparr>, Loop)
      else if err = OK then (lk\<lparr>lkversion := curVersion\<rparr>, Return)
      else (lk, Loop))"

section \<open>Clients, server and network\<close>

datatype lpc =
  Idle
| AcqGet | AcqGot GetReply | AcqPut Tversion
| Held
| RelGet | RelGot GetReply | RelPut Tversion

record lclient =
  lpc :: lpc
  opn :: nat
  lk :: Lock

record lsys =
  lname :: string
  ncl :: nat
  lserver :: KVServer
  cl :: "nat \<Rightarrow> lclient"
  reqs :: "(nat \<times> nat \<times> PutArgs) multiset"
  reps :: "(nat \<times> nat \<times> Err) multiset"

fun acq_next :: "lock_next \<Rightarrow> lclient \<Rightarrow> lclient" where
  "acq_next Return c = c\<lparr>lpc := Held\<rparr>"
| "acq_next Loop c = c\<lparr>lpc := AcqGet\<rparr>"
| "acq_next (DoPut n) c = c\<lparr>lpc := AcqPut n, opn := Suc (opn c)\<rparr>"

fun rel_next :: "lock_next \<Rightarrow> lclient \<Rightarrow> lclient" where
  "rel_next Return c = c\<lparr>lpc := Idle\<rparr>"
| "rel_next Loop c = c\<lparr>lpc := RelGet\<rparr>"
| "rel_next (DoPut n) c = c\<lparr>lpc := RelPut n, opn := Suc (opn c)\<rparr>"

text \<open>The Put request of a client that is in a Put.\<close>

fun put_args :: "lclient \<Rightarrow> PutArgs option" where
  "put_args c =
     (case lpc c of
        AcqPut n \<Rightarrow> Some \<lparr>pKey = lockname (lk c), pValue = lockToken (lk c), pVersion = n\<rparr>
      | RelPut n \<Rightarrow> Some \<lparr>pKey = lockname (lk c), pValue = lockReleaseValue, pVersion = n\<rparr>
      | _ \<Rightarrow> None)"

text \<open>The answer as the clerk passes it on: a resent request turns \<open>ErrVersion\<close> into \<open>ErrMaybe\<close>.\<close>

definition clerk_err :: "bool \<Rightarrow> Err \<Rightarrow> Err" where
  "clerk_err resent err = (if resent \<and> err = ErrVersion then ErrMaybe else err)"

definition got :: "nat \<Rightarrow> lclient \<Rightarrow> lsys \<Rightarrow> lsys" where
  "got i c s = s\<lparr>cl := (cl s)(i := c)\<rparr>"

inductive lock_step :: "lsys \<Rightarrow> lsys \<Rightarrow> bool" where
  acquire: "i < ncl s \<Longrightarrow> lpc (cl s i) = Idle \<Longrightarrow> lock_step s (got i ((cl s i)\<lparr>lpc := AcqGet\<rparr>) s)"
| acq_get: "lpc (cl s i) = AcqGet \<Longrightarrow>
    lock_step s (got i ((cl s i)\<lparr>lpc := AcqGot (Get \<lparr>gKey = lockname (lk (cl s i))\<rparr> (lserver s))\<rparr>) s)"
| acq_decide: "lpc (cl s i) = AcqGot r \<Longrightarrow>
    lock_step s (got i (acq_next (Acquire_got (lk (cl s i)) r) (cl s i)) s)"
| release: "lpc (cl s i) = Held \<Longrightarrow> lock_step s (got i ((cl s i)\<lparr>lpc := RelGet\<rparr>) s)"
| rel_get: "lpc (cl s i) = RelGet \<Longrightarrow>
    lock_step s (got i ((cl s i)\<lparr>lpc := RelGot (Get \<lparr>gKey = lockname (lk (cl s i))\<rparr> (lserver s))\<rparr>) s)"
| rel_decide: "lpc (cl s i) = RelGot r \<Longrightarrow>
    lock_step s (got i (rel_next (Release_got (lk (cl s i)) r) (cl s i)) s)"
| send: "put_args (cl s i) = Some a \<Longrightarrow>
    lock_step s (s\<lparr>reqs := add_mset (i, opn (cl s i), a) (reqs s)\<rparr>)"
| serve: "(i, k, a) \<in># reqs s \<Longrightarrow> unat (ver (lserver s) (lname s)) + 1 < 2 ^ 64 \<Longrightarrow>
    Put a (lserver s) = (kv, reply) \<Longrightarrow>
    lock_step s (s\<lparr>lserver := kv, reqs := reqs s - {#(i, k, a)#},
                   reps := add_mset (i, k, prErr reply) (reps s)\<rparr>)"
| lose: "R \<subseteq># reqs s \<Longrightarrow> P \<subseteq># reps s \<Longrightarrow> lock_step s (s\<lparr>reqs := R, reps := P\<rparr>)"
| acq_done: "(i, opn (cl s i), err) \<in># reps s \<Longrightarrow> lpc (cl s i) = AcqPut n \<Longrightarrow>
    Acquire_put (lk (cl s i)) n (clerk_err resent err) = (l, nx) \<Longrightarrow>
    lock_step s (got i (acq_next nx ((cl s i)\<lparr>lk := l\<rparr>)) s)"
| rel_done: "(i, opn (cl s i), err) \<in># reps s \<Longrightarrow> lpc (cl s i) = RelPut n \<Longrightarrow>
    Release_put (lk (cl s i)) n (clerk_err resent err) = (l, nx) \<Longrightarrow>
    lock_step s (got i (rel_next nx ((cl s i)\<lparr>lk := l\<rparr>)) s)"
| other_key: "pKey a \<noteq> lname s \<Longrightarrow> lock_step s (s\<lparr>lserver := fst (Put a (lserver s))\<rparr>)"

text \<open>All clients use one lock name, and their tokens, eight random letters each, differ.\<close>

definition lock_boot :: "string \<Rightarrow> nat \<Rightarrow> (nat \<Rightarrow> nat list) \<Rightarrow> lsys" where
  "lock_boot name n rnd =
     \<lparr>lname = name, ncl = n, lserver = MakeKVServer,
      cl = (\<lambda>i. \<lparr>lpc = Idle, opn = 0, lk = MakeLock name (rnd i)\<rparr>), reqs = {#}, reps = {#}\<rparr>"

inductive lock_init :: "lsys \<Rightarrow> bool" where
  "inj_on (\<lambda>i. RandValue (rnd i)) {..<n} \<Longrightarrow> (\<And>i. length (rnd i) = 8) \<Longrightarrow>
   lock_init (lock_boot name n rnd)"

interpretation lock: transition_system lock_init lock_step
proof
  have "lock_init (lock_boot ''l'' 1 (\<lambda>_. replicate 8 0))"
    by (rule lock_init.intros) (simp_all add: inj_on_def)
  then show "\<exists>s. lock_init s" ..
qed

section \<open>The invariant\<close>

abbreviation cur :: "lsys \<Rightarrow> Tversion" where
  "cur s \<equiv> ver (lserver s) (lname s)"

abbreviation owner :: "lsys \<Rightarrow> string \<Rightarrow> bool" where
  "owner s v \<equiv> map_option elValue (kvdata (lserver s) (lname s)) = Some v"

abbreviation token :: "lsys \<Rightarrow> nat \<Rightarrow> string" where
  "token s i \<equiv> lockToken (lk (cl s i))"

definition free :: "lsys \<Rightarrow> bool" where
  "free s \<longleftrightarrow> owner s lockReleaseValue \<or> kvdata (lserver s) (lname s) = None"

text \<open>A reading of the key that may be old: still true when the version has not moved.\<close>

definition reading :: "lsys \<Rightarrow> GetReply \<Rightarrow> bool" where
  "reading s r \<longleftrightarrow> grVersion r \<le> cur s \<and> (grVersion r = cur s \<longrightarrow> r = Get \<lparr>gKey = lname s\<rparr> (lserver s))"

definition client_ok :: "lsys \<Rightarrow> nat \<Rightarrow> bool" where
  "client_ok s i \<longleftrightarrow>
     (case lpc (cl s i) of
        AcqGot r \<Rightarrow> reading s r \<and> (grErr r = OK \<and> grValue r = token s i \<longrightarrow> owner s (token s i))
      | AcqPut n \<Rightarrow> n \<le> cur s \<and> (n = cur s \<longrightarrow> free s)
      | Held \<Rightarrow> owner s (token s i)
      | RelGot r \<Rightarrow> reading s r
      | RelPut n \<Rightarrow> n \<le> cur s \<and> (n = cur s \<longrightarrow> owner s (token s i))
      | _ \<Rightarrow> True)"

definition req_ok :: "lsys \<Rightarrow> nat \<times> nat \<times> PutArgs \<Rightarrow> bool" where
  "req_ok s = (\<lambda>(i, k, a). pKey a = lname s \<and> pVersion a \<le> cur s \<and> k \<le> opn (cl s i) \<and>
     (k = opn (cl s i) \<longrightarrow> put_args (cl s i) = None \<or> put_args (cl s i) = Some a) \<and>
     (pVersion a = cur s \<longrightarrow> k = opn (cl s i) \<and> put_args (cl s i) = Some a))"

definition rep_ok :: "lsys \<Rightarrow> nat \<times> nat \<times> Err \<Rightarrow> bool" where
  "rep_ok s = (\<lambda>(i, k, err). k \<le> opn (cl s i) \<and>
     (k = opn (cl s i) \<longrightarrow> (\<forall>a. put_args (cl s i) = Some a \<longrightarrow> pVersion a < cur s) \<and>
        (\<forall>n. lpc (cl s i) = AcqPut n \<and> err = OK \<longrightarrow> owner s (token s i))))"

definition lock_inv :: "lsys \<Rightarrow> bool" where
  "lock_inv s \<longleftrightarrow>
     (\<forall>i. lockname (lk (cl s i)) = lname s \<and> length (token s i) = 8) \<and>
     inj_on (token s) {..<ncl s} \<and>
     (\<forall>i. lpc (cl s i) \<noteq> Idle \<longrightarrow> i < ncl s) \<and>
     (\<forall>i. client_ok s i) \<and> (\<forall>r \<in># reqs s. req_ok s r) \<and> (\<forall>r \<in># reps s. rep_ok s r)"

lemma token_not_release: "lock_inv s \<Longrightarrow> token s i \<noteq> lockReleaseValue"
  by (auto simp: lock_inv_def lockReleaseValue_def dest: arg_cong[of _ _ length])

lemma got_simps [simp]:
  "lname (got i c s) = lname s" "ncl (got i c s) = ncl s" "lserver (got i c s) = lserver s"
  "reqs (got i c s) = reqs s" "reps (got i c s) = reps s" "cl (got i c s) = (cl s)(i := c)"
  by (simp_all add: got_def)

text \<open>Requests of a client that is in no Put, or whose Put has been answered, are stale.\<close>

definition answered_op :: "lsys \<Rightarrow> nat \<Rightarrow> bool" where
  "answered_op s i \<longleftrightarrow> put_args (cl s i) = None \<or> (\<exists>err. (i, opn (cl s i), err) \<in># reps s)"

lemma stale_requests:
  assumes "lock_inv s" and "answered_op s i" and "(i, k, a) \<in># reqs s"
  shows "pVersion a < cur s"
proof (rule ccontr)
  assume n: "\<not> pVersion a < cur s"
  have "req_ok s (i, k, a)" using assms(1,3) by (auto simp: lock_inv_def)
  with n have eq: "pVersion a = cur s" and p: "put_args (cl s i) = Some a"
    by (auto simp: req_ok_def simp del: put_args.simps)
  with assms(2) obtain err where "(i, opn (cl s i), err) \<in># reps s"
    by (auto simp: answered_op_def simp del: put_args.simps)
  with assms(1) have "rep_ok s (i, opn (cl s i), err)" by (auto simp: lock_inv_def)
  with p eq show False by (auto simp: rep_ok_def simp del: put_args.simps)
qed

lemma client_step:
  assumes inv: "lock_inv s" and i: "i < ncl s" and st: "answered_op s i"
    and lk: "lockname (lk c) = lockname (lk (cl s i))" "lockToken (lk c) = token s i"
    and op: "opn c = Suc (opn (cl s i)) \<or> opn c = opn (cl s i) \<and> put_args c = None"
    and ok: "client_ok (got i c s) i"
  shows "lock_inv (got i c s)"
proof -
  have tok: "token (got i c s) = token s" using lk(2) by auto
  have "client_ok (got i c s) j" for j
    using inv ok by (cases "j = i") (auto simp: lock_inv_def client_ok_def reading_def free_def split: lpc.splits)
  moreover have "req_ok (got i c s) r" if r: "r \<in># reqs s" for r
  proof -
    obtain j k a where [simp]: "r = (j, k, a)" by (cases r)
    have q: "req_ok s (j, k, a)" using inv r by (auto simp: lock_inv_def)
    show ?thesis
    proof (cases "j = i")
      case True
      with stale_requests[OF inv st] r have "pVersion a < cur s" by simp
      then have ne: "pVersion a \<noteq> cur s" by simp
      from q True have k: "k \<le> opn (cl s i)" "pKey a = lname s" "pVersion a \<le> cur s"
        by (simp_all add: req_ok_def del: put_args.simps)
      from op show ?thesis
        by (elim disjE) (use True k ne in \<open>simp_all add: req_ok_def del: put_args.simps\<close>)
    next
      case False
      with q show ?thesis by (simp add: req_ok_def del: put_args.simps)
    qed
  qed
  moreover have "rep_ok (got i c s) r" if r: "r \<in># reps s" for r
  proof -
    obtain j k e where [simp]: "r = (j, k, e)" by (cases r)
    have "rep_ok s (j, k, e)" using inv r by (auto simp: lock_inv_def)
    moreover have "\<forall>n. lpc c \<noteq> AcqPut n" if "put_args c = None" using that by auto
    ultimately show ?thesis using op by (auto simp: rep_ok_def simp del: put_args.simps)
  qed
  ultimately show ?thesis using inv i lk tok by (auto simp: lock_inv_def)
qed

lemma inv_client: "lock_inv s \<Longrightarrow> client_ok s i"
  by (simp add: lock_inv_def)

lemma inv_active: "lock_inv s \<Longrightarrow> lpc (cl s i) \<noteq> Idle \<Longrightarrow> i < ncl s"
  by (auto simp: lock_inv_def)

lemma inv_name: "lock_inv s \<Longrightarrow> lockname (lk (cl s i)) = lname s"
  by (auto simp: lock_inv_def)

lemma idle_answered: "put_args (cl s i) = None \<Longrightarrow> answered_op s i"
  by (simp add: answered_op_def)

lemma reading_now: "reading s (Get \<lparr>gKey = lname s\<rparr> (lserver s))"
  by (auto simp: reading_def Get_def ver_def2 split: option.splits)

lemma get_owner:
  "grErr (Get \<lparr>gKey = lname s\<rparr> (lserver s)) = OK \<Longrightarrow>
   owner s (grValue (Get \<lparr>gKey = lname s\<rparr> (lserver s)))"
  by (auto simp: Get_def split: option.splits)

lemma got_reading [simp]: "reading (got i c s) r = reading s r" "free (got i c s) = free s"
  by (simp_all add: reading_def free_def)

lemma step_reads:
  assumes "lock_inv s" and "lock_step s t"
    and "\<exists>i. t = got i ((cl s i)\<lparr>lpc := AcqGet\<rparr>) s \<and> i < ncl s \<and> lpc (cl s i) = Idle \<or>
         t = got i ((cl s i)\<lparr>lpc := AcqGot (Get \<lparr>gKey = lname s\<rparr> (lserver s))\<rparr>) s \<and> lpc (cl s i) = AcqGet \<or>
         t = got i ((cl s i)\<lparr>lpc := RelGet\<rparr>) s \<and> lpc (cl s i) = Held \<or>
         t = got i ((cl s i)\<lparr>lpc := RelGot (Get \<lparr>gKey = lname s\<rparr> (lserver s))\<rparr>) s \<and> lpc (cl s i) = RelGet"
  shows "lock_inv t"
proof -
  from assms(3) obtain i c where t: "t = got i c s" and lk: "lk c = lk (cl s i)" and op: "opn c = opn (cl s i)"
    and none: "put_args (cl s i) = None" "put_args c = None" and n: "i < ncl s"
    and pc: "lpc c \<in> {AcqGet, RelGet, AcqGot (Get \<lparr>gKey = lname s\<rparr> (lserver s)),
                       RelGot (Get \<lparr>gKey = lname s\<rparr> (lserver s))}"
    using inv_active[OF assms(1)] by (elim exE disjE conjE) (auto simp: fun_eq_iff)
  show ?thesis unfolding t
  proof (rule client_step[OF assms(1) n idle_answered[OF none(1)]])
    show "client_ok (got i c s) i"
      using pc lk reading_now[of s] get_owner[of s] by (auto simp: client_ok_def)
  qed (use lk op none in auto)
qed

lemma acq_decide_inv:
  assumes inv: "lock_inv s" and pc: "lpc (cl s i) = AcqGot r"
  shows "lock_inv (got i (acq_next (Acquire_got (lk (cl s i)) r) (cl s i)) s)"
proof -
  have ok: "reading s r" "grErr r = OK \<and> grValue r = token s i \<longrightarrow> owner s (token s i)"
    using inv_client[OF inv, of i] pc by (auto simp: client_ok_def)
  have fr: "free s" if "grVersion r = cur s" "grErr r = OK" "grValue r = lockReleaseValue"
    using ok(1) that get_owner[of s] by (auto simp: reading_def free_def)
  have fr': "free s" if "grVersion r = cur s" "grErr r = ErrNoKey"
    using ok(1) that by (auto simp: reading_def free_def Get_def split: option.splits)
  show ?thesis
    by (rule client_step[OF inv inv_active[OF inv] idle_answered])
      (use pc ok fr fr' in \<open>auto simp: Acquire_got_def client_ok_def reading_def\<close>)
qed

lemma rel_decide_inv:
  assumes inv: "lock_inv s" and pc: "lpc (cl s i) = RelGot r"
  shows "lock_inv (got i (rel_next (Release_got (lk (cl s i)) r) (cl s i)) s)"
proof -
  have ok: "reading s r" using inv_client[OF inv, of i] pc by (simp add: client_ok_def)
  have "owner s (token s i)" if "grVersion r = cur s" "grErr r = OK" "grValue r = token s i"
    using ok that get_owner[of s] by (auto simp: reading_def)
  then show ?thesis
    by (intro client_step[OF inv inv_active[OF inv] idle_answered])
      (use pc ok in \<open>auto simp: Release_got_def client_ok_def reading_def\<close>)
qed

lemma acq_done_inv:
  assumes inv: "lock_inv s" and rep: "(i, opn (cl s i), err) \<in># reps s" and pc: "lpc (cl s i) = AcqPut n"
    and nx: "Acquire_put (lk (cl s i)) n (clerk_err resent err) = (l, nx)"
  shows "lock_inv (got i (acq_next nx ((cl s i)\<lparr>lk := l\<rparr>)) s)"
proof -
  have "rep_ok s (i, opn (cl s i), err)" using inv rep by (auto simp: lock_inv_def)
  with pc have own: "owner s (token s i)" if "err = OK" using that by (auto simp: rep_ok_def)
  have l: "lockname l = lockname (lk (cl s i))" "lockToken l = token s i"
    and nx': "nx = Loop \<or> nx = Return \<and> err = OK"
    using nx by (auto simp: Acquire_put_def clerk_err_def split: if_split_asm)
  show ?thesis
    by (rule client_step[OF inv inv_active[OF inv]])
      (use pc l nx' own rep in \<open>auto simp: client_ok_def answered_op_def\<close>)
qed

lemma rel_done_inv:
  assumes inv: "lock_inv s" and rep: "(i, opn (cl s i), err) \<in># reps s" and pc: "lpc (cl s i) = RelPut n"
    and nx: "Release_put (lk (cl s i)) n (clerk_err resent err) = (l, nx)"
  shows "lock_inv (got i (rel_next nx ((cl s i)\<lparr>lk := l\<rparr>)) s)"
proof -
  have l: "lockname l = lockname (lk (cl s i))" "lockToken l = token s i" and nx': "nx = Loop \<or> nx = Return"
    using nx by (auto simp: Release_put_def split: if_split_asm)
  show ?thesis
    by (rule client_step[OF inv inv_active[OF inv]])
      (use pc l nx' rep in \<open>auto simp: client_ok_def answered_op_def\<close>)
qed

lemma send_inv:
  assumes inv: "lock_inv s" and a: "put_args (cl s i) = Some a"
  shows "lock_inv (s\<lparr>reqs := add_mset (i, opn (cl s i), a) (reqs s)\<rparr>)"
proof -
  have "pKey a = lname s" "pVersion a \<le> cur s"
    using a inv_name[OF inv, of i] inv_client[OF inv, of i]
    by (auto simp: client_ok_def split: lpc.splits)
  then have "req_ok s (i, opn (cl s i), a)" using a by (auto simp: req_ok_def simp del: put_args.simps)
  with inv show ?thesis
    by (simp add: lock_inv_def client_ok_def reading_def free_def req_ok_def rep_ok_def del: put_args.simps
        split: lpc.splits)
qed

lemma lose_inv:
  assumes inv: "lock_inv s" and "R \<subseteq># reqs s" and "P \<subseteq># reps s"
  shows "lock_inv (s\<lparr>reqs := R, reps := P\<rparr>)"
proof -
  have "\<forall>r \<in># R. req_ok s r" "\<forall>r \<in># P. rep_ok s r"
    using inv mset_subset_eqD[OF assms(2)] mset_subset_eqD[OF assms(3)] by (auto simp: lock_inv_def)
  with inv show ?thesis
    by (simp add: lock_inv_def client_ok_def reading_def free_def req_ok_def rep_ok_def del: put_args.simps
        split: lpc.splits)
qed

text \<open>A step of the server that leaves the key of the lock alone.\<close>

lemma same_key_inv:
  assumes inv: "lock_inv s" and "kvdata kv (lname s) = kvdata (lserver s) (lname s)"
  shows "lock_inv (s\<lparr>lserver := kv\<rparr>)"
proof -
  have "ver kv (lname s) = cur s" "Get \<lparr>gKey = lname s\<rparr> kv = Get \<lparr>gKey = lname s\<rparr> (lserver s)"
    using assms(2) by (simp_all add: ver_def2 Get_def)
  with assms show ?thesis
    by (simp add: lock_inv_def client_ok_def reading_def free_def req_ok_def rep_ok_def del: put_args.simps
        split: lpc.splits)
qed

text \<open>
  A request that takes effect.  It carries the current version, so it belongs to a client in the
  Put it describes, and the key is free or the client's own: nobody else's claim is lost.
\<close>

lemma serve_effective:
  assumes inv: "lock_inv s" and r: "(i, k, a) \<in># reqs s"
    and ov: "unat (cur s) + 1 < 2 ^ 64" and put: "Put a (lserver s) = (kv, reply)" and ok: "prErr reply = OK"
  defines "t \<equiv> s\<lparr>lserver := kv, reqs := reqs s - {#(i, k, a)#}, reps := add_mset (i, k, OK) (reps s)\<rparr>"
  shows "lock_inv t"
proof -
  have ra: "req_ok s (i, k, a)" using inv r by (auto simp: lock_inv_def)
  then have key: "pKey a = lname s" by (auto simp: req_ok_def)
  have "unat (ver (lserver s) (pKey a)) + 1 < 2 ^ 64" "prErr (snd (Put a (lserver s))) = OK"
    using ov key put ok by simp_all
  note app = Put_applied[OF this(2,1)]
  have va: "pVersion a = cur s" using app(2) key by simp
  then have k: "k = opn (cl s i)" and pa: "put_args (cl s i) = Some a" using ra by (auto simp: req_ok_def)
  have t [simp]: "cl t = cl s" "lname t = lname s" "ncl t = ncl s" "reps t = add_mset (i, k, OK) (reps s)"
    "reqs t = reqs s - {#(i, k, a)#}" by (simp_all add: t_def)
  have cur: "cur s < cur t" using app(1) va put key by (simp add: t_def word_less_nat_alt)
  have le: "n < cur t" if "n \<le> cur s" for n using cur that by (rule le_less_trans[rotated])
  have val: "owner t (pValue a)"
    using put key ok by (auto simp: t_def Put_def split: option.splits if_split_asm)
  have "(\<exists>n. lpc (cl s i) = AcqPut n \<and> pValue a = token s i) \<or> (\<exists>n. lpc (cl s i) = RelPut n)"
    using pa by (auto split: lpc.splits)
  moreover have "(\<exists>n. lpc (cl s i) = AcqPut n) \<longrightarrow> free s" "(\<exists>n. lpc (cl s i) = RelPut n) \<longrightarrow> owner s (token s i)"
    using pa va inv_client[OF inv, of i] by (auto simp: client_ok_def)
  moreover have act: "i < ncl s" using pa inv_active[OF inv, of i] by (auto split: lpc.splits)
  ultimately have lost: "j = i \<and> (\<exists>n. lpc (cl s i) = RelPut n)" if "owner s (token s j)" "j < ncl s" for j
    using that token_not_release[OF inv, of j] inv
    by (auto simp: free_def lock_inv_def inj_on_def)
  have "client_ok t j" for j
    using inv_client[OF inv, of j] lost[of j] le inv_active[OF inv, of j]
    by (fastforce simp: client_ok_def reading_def split: lpc.splits)
  moreover have "req_ok t q" if "q \<in># reqs t" for q
  proof -
    have "req_ok s q" using inv that by (auto simp: lock_inv_def dest: in_diffD)
    then show ?thesis using le by (fastforce simp: req_ok_def simp del: put_args.simps split: prod.splits)
  qed
  moreover have "rep_ok t q" if "q \<in># reps t" for q
  proof (cases "q = (i, k, OK)")
    case True
    have "owner t (token s i)" if "lpc (cl s i) = AcqPut n" for n
      using val pa that by auto
    with True k pa va cur show ?thesis by (auto simp: rep_ok_def simp del: put_args.simps)
  next
    case False
    obtain j m e where q: "q = (j, m, e)" by (cases q)
    with False that have "rep_ok s (j, m, e)" using inv by (auto simp: lock_inv_def)
    moreover have False if "lpc (cl s j) = AcqPut n" "owner s (token s j)" for n
      using lost[OF that(2)] that(1) inv_active[OF inv, of j] by auto
    ultimately show ?thesis using cur q by (fastforce simp: rep_ok_def simp del: put_args.simps)
  qed
  ultimately show ?thesis using inv by (simp add: lock_inv_def)
qed

lemma serve_refused:
  assumes inv: "lock_inv s" and r: "(i, k, a) \<in># reqs s"
    and put: "Put a (lserver s) = (kv, reply)" and no: "prErr reply \<noteq> OK"
  shows "lock_inv (s\<lparr>lserver := kv, reqs := reqs s - {#(i, k, a)#}, reps := add_mset (i, k, prErr reply) (reps s)\<rparr>)"
proof -
  have ra: "req_ok s (i, k, a)" using inv r by (auto simp: lock_inv_def)
  have kv: "kv = lserver s" using put no by (auto simp: Put_def split: option.splits if_split_asm)
  have "prErr (snd (Put a (lserver s))) \<noteq> OK" using put no by simp
  then have "pVersion a \<noteq> cur s"
    using ra unfolding Put_store kv.ok_iff_version by (auto simp: req_ok_def)
  with ra have lt: "pVersion a < cur s" and k: "k \<le> opn (cl s i)" by (auto simp: req_ok_def)
  have "rep_ok s (i, k, prErr reply)"
    using ra lt k no by (auto simp: rep_ok_def req_ok_def simp del: put_args.simps)
  moreover have "\<forall>q \<in># reqs s - {#(i, k, a)#}. req_ok s q"
    using inv by (auto simp: lock_inv_def dest: in_diffD)
  ultimately show ?thesis using inv unfolding kv
    by (simp add: lock_inv_def client_ok_def reading_def free_def req_ok_def rep_ok_def del: put_args.simps
        split: lpc.splits)
qed

lemma lock_inv_step:
  assumes "lock_inv s" and "lock_step s t"
  shows "lock_inv t"
  using assms(2)
proof (cases rule: lock_step.cases)
  case (acquire i)
  then show ?thesis by (intro step_reads[OF assms]) blast
next
  case (acq_get i)
  then show ?thesis using inv_name[OF assms(1), of i] by (intro step_reads[OF assms]) auto
next
  case (acq_decide i r)
  then show ?thesis using acq_decide_inv[OF assms(1)] by simp
next
  case (release i)
  then show ?thesis by (intro step_reads[OF assms]) blast
next
  case (rel_get i)
  then show ?thesis using inv_name[OF assms(1), of i] by (intro step_reads[OF assms]) auto
next
  case (rel_decide i r)
  then show ?thesis using rel_decide_inv[OF assms(1)] by simp
next
  case (send i a)
  then show ?thesis using send_inv[OF assms(1)] by (simp del: put_args.simps)
next
  case (serve i k a kv reply)
  then show ?thesis
    using serve_effective[OF assms(1) serve(2,3,4)] serve_refused[OF assms(1) serve(2,4)]
    by (cases "prErr reply = OK") simp_all
next
  case (lose R P)
  then show ?thesis using lose_inv[OF assms(1)] by simp
next
  case (acq_done i err n resent l nx)
  then show ?thesis using acq_done_inv[OF assms(1)] by simp
next
  case (rel_done i err n resent l nx)
  then show ?thesis using rel_done_inv[OF assms(1)] by simp
next
  case (other_key a)
  then have "kvdata (fst (Put a (lserver s))) (lname s) = kvdata (lserver s) (lname s)"
    by (auto simp: Put_def split: option.splits)
  then show ?thesis using same_key_inv[OF assms(1)] other_key by simp
qed

lemma lock_inv_init: "lock_init s \<Longrightarrow> lock_inv s"
  by (induction rule: lock_init.induct)
    (auto simp: lock_inv_def lock_boot_def MakeLock_def RandValue_def client_ok_def inj_on_def)

lemma lock_inv_reach: "lock.reach s \<Longrightarrow> lock_inv s"
  by (rule lock.reach_invariant) (auto intro: lock_inv_init lock_inv_step)

section \<open>Mutual exclusion\<close>

text \<open>
  C17. Mutual exclusion: in every reachable state of any number of clients at most one client is
  between the return of its Acquire and its call of Release, and the server holds its token,
  whatever requests and replies were lost, duplicated by resending, or delayed.
\<close>

theorem mutual_exclusion:
  assumes "lock.reach s" and "lpc (cl s i) = Held" and "lpc (cl s j) = Held"
  shows "i = j \<and> map_option elValue (kvdata (lserver s) (lname s)) = Some (lockToken (lk (cl s i)))"
proof -
  have inv: "lock_inv s" by (rule lock_inv_reach[OF assms(1)])
  have "owner s (token s i)" "owner s (token s j)"
    using inv_client[OF inv, of i] inv_client[OF inv, of j] assms(2,3) by (auto simp: client_ok_def)
  moreover have "i < ncl s" "j < ncl s" using inv_active[OF inv] assms(2,3) by auto
  ultimately show ?thesis using inv by (auto simp: lock_inv_def inj_on_def)
qed

definition demo_locks :: lsys where
  "demo_locks = lock_boot ''l'' 2 (\<lambda>i. replicate 8 i)"

definition demo_acq :: PutArgs where
  "demo_acq = \<lparr>pKey = ''l'', pValue = RandValue (replicate 8 0), pVersion = 0\<rparr>"

lemma demo_held:
  "\<exists>s. lock.reach s \<and> lpc (cl s 0) = Held \<and> ncl s = 2"
proof -
  have i: "lock_init demo_locks" unfolding demo_locks_def
  proof (rule lock_init.intros)
    have "{..<2::nat} = {0, 1}" by auto
    then show "inj_on (\<lambda>i. RandValue (replicate 8 i)) {..<2::nat}"
      by (simp add: RandValue_def letterBytes_def)
  qed simp
  define c0 where "c0 = cl demo_locks 0"
  define s1 where "s1 = got 0 (c0\<lparr>lpc := AcqGet\<rparr>) demo_locks"
  define s2 where "s2 = got 0 (c0\<lparr>lpc := AcqGot (Get \<lparr>gKey = ''l''\<rparr> MakeKVServer)\<rparr>) s1"
  define s3 where "s3 = got 0 (c0\<lparr>lpc := AcqPut 0, opn := 1\<rparr>) s2"
  define s4 where "s4 = s3\<lparr>reqs := {#(0, 1, demo_acq)#}\<rparr>"
  define s5 where "s5 = s4\<lparr>lserver := fst (Put demo_acq MakeKVServer), reqs := {#}, reps := {#(0, 1, OK)#}\<rparr>"
  define s6 where "s6 = got 0 (c0\<lparr>lpc := Held, opn := 1, lk := (lk c0)\<lparr>lkversion := 0\<rparr>\<rparr>) s5"
  note states = s6_def s5_def s4_def s3_def s2_def s1_def c0_def demo_locks_def lock_boot_def MakeLock_def
  have r0: "lock.reach demo_locks" using i by (rule lock.reach_init)
  have "lock_step demo_locks s1"
    using lock_step.acquire[of 0 demo_locks] by (simp add: states got_def)
  then have r1: "lock.reach s1" by (rule lock.reach_step[OF r0])
  have "lock_step s1 s2" using lock_step.acq_get[of s1 0] by (simp add: states got_def)
  then have r2: "lock.reach s2" by (rule lock.reach_step[OF r1])
  have "lock_step s2 s3"
    using lock_step.acq_decide[of s2 0 "Get \<lparr>gKey = ''l''\<rparr> MakeKVServer"]
    by (simp add: states got_def Acquire_got_def Get_def MakeKVServer_def)
  then have r3: "lock.reach s3" by (rule lock.reach_step[OF r2])
  have "lock_step s3 s4" using lock_step.send[of s3 0 demo_acq] by (simp add: states got_def demo_acq_def)
  then have r4: "lock.reach s4" by (rule lock.reach_step[OF r3])
  have "lock_step s4 s5"
    using lock_step.serve[of 0 1 demo_acq s4 "fst (Put demo_acq MakeKVServer)" "\<lparr>prErr = OK\<rparr>"]
    by (simp add: states got_def demo_acq_def Put_def MakeKVServer_def ver_def2)
  then have r5: "lock.reach s5" by (rule lock.reach_step[OF r4])
  have "lock_step s5 s6"
    using lock_step.acq_done[of 0 s5 OK 0 False "(lk c0)\<lparr>lkversion := 0\<rparr>" Return]
    by (simp add: states got_def Acquire_put_def clerk_err_def)
  then have "lock.reach s6" by (rule lock.reach_step[OF r5])
  moreover have "lpc (cl s6 0) = Held" "ncl s6 = 2" by (simp_all add: states)
  ultimately show ?thesis by blast
qed

theorem mutual_exclusion_witness:
  "\<exists>s. lock.reach s \<and> {i. lpc (cl s i) = Held} = {0} \<and> ncl s = 2"
proof -
  from demo_held obtain s where s: "lock.reach s" "lpc (cl s 0) = Held" "ncl s = 2" by blast
  then have "{i. lpc (cl s i) = Held} = {0}" using mutual_exclusion[OF s(1), of _ 0] by auto
  with s show ?thesis by blast
qed

end
