(* ===== verification/ShardCfg.thy ===== *)
theory ShardCfg
  imports GoLib "HOL-Library.AList"
begin

text \<open>
  Shard configurations, \<^verbatim>\<open>src/src/shardkv1/shardcfg/shardcfg.go\<close>: the assignment of shards to
  groups, joining, leaving and rebalancing.

  \<open>Shards\<close> is a list of length \<open>NShards\<close>.  The map \<open>Groups\<close> is an association list with distinct
  keys; the order in which Go iterates over a map is the order of the list, so what is proved for
  every list holds for every order.  \<^verbatim>\<open>log.Fatalf\<close> is \<open>None\<close>.  The rebalancing loop is a
  partial function: that it ends is a theorem.
\<close>

type_synonym Tgid = int
type_synonym Tshid = nat
type_synonym Tnum = int

definition NShards :: nat where
  "NShards = 12"

definition NumFirst :: Tnum where
  "NumFirst = 1"

definition Key2Shard :: "string \<Rightarrow> Tshid" where
  "Key2Shard key = unat (fnv32a key) mod NShards"

record ShardConfig =
  Num :: Tnum
  Shards :: "Tgid list"
  Groups :: "(Tgid \<times> string list) list"

definition MakeShardConfig :: ShardConfig where
  "MakeShardConfig = \<lparr>Num = 0, Shards = replicate NShards 0, Groups = []\<rparr>"

definition CopyConfig :: "ShardConfig \<Rightarrow> ShardConfig" where
  "CopyConfig cfg = MakeShardConfig\<lparr>Num := Num cfg, Shards := Shards cfg,
     Groups := map (\<lambda>(k, srvs). (k, srvs)) (Groups cfg)\<rparr>"

abbreviation gids :: "ShardConfig \<Rightarrow> Tgid list" where
  "gids c \<equiv> map fst (Groups c)"

section \<open>Rebalancing\<close>

text \<open>One round of the loop in \<open>analyze\<close>; the state is mg, mn, lg, ln.\<close>

definition analyze_group :: "(Tgid \<Rightarrow> int) \<Rightarrow> Tgid \<times> int \<times> Tgid \<times> int \<Rightarrow> Tgid \<Rightarrow> Tgid \<times> int \<times> Tgid \<times> int" where
  "analyze_group counts = (\<lambda>(mg, mn, lg, ln) g.
     (if counts g > mn then g else mg, if counts g > mn then counts g else mn,
      if counts g < ln then g else lg, if counts g < ln then counts g else ln))"

definition analyze :: "ShardConfig \<Rightarrow> Tgid \<times> int \<times> Tgid \<times> int" where
  "analyze c =
     (let counts = (\<lambda>g. int (count_list (Shards c) g));
          groups = sort (gids c)
      in foldl (analyze_group counts) (-1, -1, -1, 257) groups)"

definition least_loaded :: "ShardConfig \<Rightarrow> Tgid" where
  "least_loaded c = (case analyze c of (_, _, lg, _) \<Rightarrow> lg)"

text \<open>The first loop of \<open>Rebalance\<close>, from shard \<open>s\<close> on.\<close>

fun assign_loop :: "nat list \<Rightarrow> ShardConfig \<Rightarrow> ShardConfig" where
  "assign_loop [] c = c"
| "assign_loop (s # ss) c =
     (if map_of (Groups c) (Shards c ! s) = None
      then assign_loop ss (c\<lparr>Shards := (Shards c)[s := least_loaded c]\<rparr>)
      else assign_loop ss c)"

fun move_one :: "Tgid \<Rightarrow> Tgid \<Rightarrow> Tgid list \<Rightarrow> Tgid list" where
  "move_one mg lg [] = []"
| "move_one mg lg (g # gs) = (if g = mg then lg # gs else g # move_one mg lg gs)"

partial_function (option) balance_loop :: "ShardConfig \<Rightarrow> ShardConfig option" where
  "balance_loop c =
     (case analyze c of (mg, mn, lg, ln) \<Rightarrow>
        if mn < ln + 2 then Some c
        else balance_loop (c\<lparr>Shards := move_one mg lg (Shards c)\<rparr>))"

definition Rebalance :: "ShardConfig \<Rightarrow> ShardConfig option" where
  "Rebalance c =
     (if length (Groups c) < 1 then Some (c\<lparr>Shards := map (\<lambda>_. 0) (Shards c)\<rparr>)
      else balance_loop (assign_loop [0..<length (Shards c)] c))"

section \<open>Joining and leaving\<close>

text \<open>The loop of \<open>Join\<close>; \<open>Inl\<close> is its early return.\<close>

fun Join_loop :: "(Tgid \<times> string list) list \<Rightarrow> bool \<Rightarrow> ShardConfig \<Rightarrow>
    (ShardConfig + (ShardConfig \<times> bool)) option" where
  "Join_loop [] changed cfg = Some (Inr (cfg, changed))"
| "Join_loop ((gid, servers) # rest) changed cfg =
     (if map_of (Groups cfg) gid \<noteq> None then Some (Inl cfg)
      else if \<exists>(xgid, xservers) \<in> set (Groups cfg). \<exists>s1 \<in> set xservers. s1 \<in> set servers then None
      else Join_loop rest True (cfg\<lparr>Groups := AList.update gid servers (Groups cfg)\<rparr>))"

definition Join :: "(Tgid \<times> string list) list \<Rightarrow> ShardConfig \<Rightarrow> (ShardConfig \<times> bool) option" where
  "Join servers cfg =
     (case Join_loop servers False cfg of
        None \<Rightarrow> None
      | Some (Inl cfg') \<Rightarrow> Some (cfg', False)
      | Some (Inr (cfg', changed)) \<Rightarrow>
          (if \<not> changed then None else Some (cfg'\<lparr>Num := Num cfg' + 1\<rparr>, True)))"

fun Leave_loop :: "Tgid list \<Rightarrow> bool \<Rightarrow> ShardConfig \<Rightarrow> ShardConfig + (ShardConfig \<times> bool)" where
  "Leave_loop [] changed cfg = Inr (cfg, changed)"
| "Leave_loop (gid # rest) changed cfg =
     (if map_of (Groups cfg) gid = None then Inl cfg
      else Leave_loop rest True (cfg\<lparr>Groups := AList.delete gid (Groups cfg)\<rparr>))"

definition Leave :: "Tgid list \<Rightarrow> ShardConfig \<Rightarrow> (ShardConfig \<times> bool) option" where
  "Leave gs cfg =
     (case Leave_loop gs False cfg of
        Inl cfg' \<Rightarrow> Some (cfg', False)
      | Inr (cfg', changed) \<Rightarrow>
          (if \<not> changed then None else Some (cfg'\<lparr>Num := Num cfg' + 1\<rparr>, True)))"

definition JoinBalance :: "(Tgid \<times> string list) list \<Rightarrow> ShardConfig \<Rightarrow> (ShardConfig \<times> bool) option" where
  "JoinBalance servers cfg =
     (case Join servers cfg of
        None \<Rightarrow> None
      | Some (cfg', ok) \<Rightarrow>
          (if \<not> ok then Some (cfg', False)
           else case Rebalance cfg' of None \<Rightarrow> None | Some cfg'' \<Rightarrow> Some (cfg'', True)))"

definition LeaveBalance :: "Tgid list \<Rightarrow> ShardConfig \<Rightarrow> (ShardConfig \<times> bool) option" where
  "LeaveBalance gs cfg =
     (case Leave gs cfg of
        None \<Rightarrow> None
      | Some (cfg', ok) \<Rightarrow>
          (if \<not> ok then Some (cfg', False)
           else case Rebalance cfg' of None \<Rightarrow> None | Some cfg'' \<Rightarrow> Some (cfg'', True)))"

section \<open>Queries\<close>

definition GidServers :: "Tshid \<Rightarrow> ShardConfig \<Rightarrow> Tgid \<times> string list option" where
  "GidServers sh cfg = (let gid = Shards cfg ! sh in (gid, map_of (Groups cfg) gid))"

definition IsMember :: "Tgid \<Rightarrow> ShardConfig \<Rightarrow> bool" where
  "IsMember gid cfg \<longleftrightarrow> list_ex (\<lambda>g. g = gid) (Shards cfg)"

text \<open>\<open>CheckConfig\<close>: false where the code calls \<open>fatalf\<close>.\<close>

definition CheckConfig :: "Tgid list \<Rightarrow> ShardConfig \<Rightarrow> bool" where
  "CheckConfig groups cfg \<longleftrightarrow>
     length (Groups cfg) = length groups \<and>
     list_all (\<lambda>g. map_of (Groups cfg) g \<noteq> None) groups \<and>
     (length groups > 0 \<longrightarrow> list_all (\<lambda>g. map_of (Groups cfg) g \<noteq> None) (Shards cfg)) \<and>
     (let counts = (\<lambda>g. int (count_list (Shards cfg) g));
          minc = foldl (\<lambda>m g. if counts g < m then counts g else m) 257 (gids cfg);
          maxc = foldl (\<lambda>m g. if counts g > m then counts g else m) 0 (gids cfg)
      in \<not> maxc > minc + 1)"

section \<open>The loads of the groups\<close>

abbreviation load :: "ShardConfig \<Rightarrow> Tgid \<Rightarrow> int" where
  "load c g \<equiv> int (count_list (Shards c) g)"

text \<open>A configuration as the service has it: twelve shards, distinct groups.\<close>

definition wf_cfg :: "ShardConfig \<Rightarrow> bool" where
  "wf_cfg c \<longleftrightarrow> length (Shards c) = NShards \<and> distinct (gids c)"

lemma analyze_loop:
  assumes "foldl (analyze_group f) (mg, mn, lg, ln) gs = (mg', mn', lg', ln')"
  shows "(\<forall>g \<in> set gs. ln' \<le> f g \<and> f g \<le> mn') \<and> ln' \<le> ln \<and> mn \<le> mn' \<and>
     ((lg', ln') = (lg, ln) \<or> lg' \<in> set gs \<and> ln' = f lg' \<and> ln' < ln) \<and>
     ((mg', mn') = (mg, mn) \<or> mg' \<in> set gs \<and> mn' = f mg' \<and> mn < mn')"
  using assms
proof (induction gs arbitrary: mg mn lg ln)
  case (Cons g gs)
  define mg1 mn1 lg1 ln1 where "mg1 = (if f g > mn then g else mg)" and "mn1 = (if f g > mn then f g else mn)"
    and "lg1 = (if f g < ln then g else lg)" and "ln1 = (if f g < ln then f g else ln)"
  have "foldl (analyze_group f) (mg1, mn1, lg1, ln1) gs = (mg', mn', lg', ln')"
    using Cons.prems by (simp add: analyze_group_def mg1_def mn1_def lg1_def ln1_def)
  note IH = Cons.IH[OF this]
  have "ln1 \<le> f g" "f g \<le> mn1" "ln1 \<le> ln" "mn \<le> mn1" by (auto simp: ln1_def mn1_def)
  moreover have "(lg1, ln1) = (lg, ln) \<or> lg1 = g \<and> ln1 = f g \<and> ln1 < ln"
    "(mg1, mn1) = (mg, mn) \<or> mg1 = g \<and> mn1 = f g \<and> mn < mn1"
    by (auto simp: ln1_def lg1_def mn1_def mg1_def)
  ultimately show ?case using IH by (auto 0 4)
qed simp

lemma analyze_bounds:
  assumes "analyze c = (mg, mn, lg, ln)" and "Groups c \<noteq> []" and "length (Shards c) = NShards"
  shows "\<forall>g \<in> set (gids c). ln \<le> load c g \<and> load c g \<le> mn"
    and "lg \<in> set (gids c)" "ln = load c lg" "mg \<in> set (gids c)" "mn = load c mg"
proof -
  have loop: "foldl (analyze_group (load c)) (-1, -1, -1, 257) (sort (gids c)) = (mg, mn, lg, ln)"
    using assms(1) by (simp add: analyze_def)
  note bounds = analyze_loop[OF loop]
  show all: "\<forall>g \<in> set (gids c). ln \<le> load c g \<and> load c g \<le> mn" using bounds by simp
  obtain g where g: "g \<in> set (gids c)" using assms(2) by (cases "Groups c") auto
  have "load c g \<le> 12" using count_le_length[of "Shards c" g] assms(3) by (simp add: NShards_def)
  with all g have "ln \<noteq> 257" "mn \<noteq> -1" by force+
  with bounds show "lg \<in> set (gids c)" "ln = load c lg" "mg \<in> set (gids c)" "mn = load c mg" by auto
qed

section \<open>Termination and balance\<close>

lemma move_one_length [simp]: "length (move_one mg lg xs) = length xs"
  by (induction xs) auto

lemma move_one_count:
  assumes "mg \<in> set xs" and "mg \<noteq> lg"
  shows "int (count_list (move_one mg lg xs) g) =
     int (count_list xs g) - (if g = mg then 1 else 0) + (if g = lg then 1 else 0)"
  using assms by (induction xs) auto

lemma move_one_set: "set (move_one mg lg xs) \<subseteq> insert lg (set xs)"
  by (induction xs) auto

definition disorder :: "ShardConfig \<Rightarrow> nat" where
  "disorder c = (\<Sum>g \<in> set (gids c). (count_list (Shards c) g)\<^sup>2)"

text \<open>Moving a shard between groups whose loads differ by two or more reduces the disorder.\<close>

lemma move_reduces:
  assumes c: "analyze c = (mg, mn, lg, ln)" and "Groups c \<noteq> []" and "length (Shards c) = NShards"
    and gap: "ln + 2 \<le> mn"
  defines "c' \<equiv> c\<lparr>Shards := move_one mg lg (Shards c)\<rparr>"
  shows "disorder c' < disorder c"
proof -
  note b = analyze_bounds[OF assms(1-3)]
  have ne: "mg \<noteq> lg" using b gap by auto
  have "mg \<in> set (Shards c)" using b(3,5) gap by (metis count_list_0_iff int_ops(1) le_add_same_cancel2 not_numeral_le_zero of_nat_0_le_iff order_trans)
  note cnt = move_one_count[OF this ne]
  let ?S = "set (gids c) - {mg, lg}" and ?f = "\<lambda>c g. (count_list (Shards c) g)\<^sup>2"
  have split: "(\<Sum>g \<in> set (gids c). h g) = h mg + h lg + (\<Sum>g \<in> ?S. h g)" for h :: "int \<Rightarrow> nat"
    using b(2,4) ne by (simp add: sum.remove[of _ mg] sum.remove[of _ lg] Diff_insert2[symmetric] insert_commute)
  have gids: "gids c' = gids c" by (simp add: c'_def)
  have rest: "(\<Sum>g \<in> ?S. ?f c' g) = (\<Sum>g \<in> ?S. ?f c g)"
  proof (intro sum.cong refl)
    fix g assume "g \<in> ?S"
    then have "g \<noteq> mg" "g \<noteq> lg" by auto
    with cnt[of g] show "?f c' g = ?f c g" by (simp add: c'_def)
  qed
  obtain m l where m: "count_list (Shards c) mg = m" "count_list (Shards c) lg = l" by simp
  have m': "count_list (Shards c') mg = m - 1" "count_list (Shards c') lg = l + 1"
    using cnt[of mg] cnt[of lg] ne m by (auto simp: c'_def)
  have "l + 2 \<le> m" using gap b m by simp
  then obtain d where d: "m = l + 2 + d" using le_Suc_ex by blast
  have "(m - 1)\<^sup>2 + (l + 1)\<^sup>2 < m\<^sup>2 + l\<^sup>2"
    unfolding d by (simp add: power2_eq_square algebra_simps)
  then show ?thesis unfolding disorder_def gids split rest m m' by simp
qed

definition balanced :: "ShardConfig \<Rightarrow> bool" where
  "balanced c \<longleftrightarrow> (\<forall>g \<in> set (gids c). \<forall>h \<in> set (gids c). load c g \<le> load c h + 1)"

definition assigned :: "ShardConfig \<Rightarrow> bool" where
  "assigned c \<longleftrightarrow> set (Shards c) \<subseteq> set (gids c)"

lemma balance_loop_ends:
  assumes "Groups c \<noteq> []" and "length (Shards c) = NShards" and "assigned c"
  shows "\<exists>c'. balance_loop c = Some c' \<and> Groups c' = Groups c \<and> Num c' = Num c \<and>
     length (Shards c') = NShards \<and> assigned c' \<and> balanced c'"
  using assms
proof (induction c rule: measure_induct_rule[of disorder])
  case (less c)
  obtain mg mn lg ln where an: "analyze c = (mg, mn, lg, ln)" by (metis prod_cases4)
  note b = analyze_bounds[OF an less.prems(1,2)]
  show ?case
  proof (cases "mn < ln + 2")
    case True
    then have "balance_loop c = Some c" by (simp add: balance_loop.simps[of c] an)
    moreover have "balanced c" unfolding balanced_def
    proof (intro ballI)
      fix g h assume gh: "g \<in> set (gids c)" "h \<in> set (gids c)"
      have "load c g \<le> mn" "ln \<le> load c h" using b(1) gh by blast+
      with True show "load c g \<le> load c h + 1" by linarith
    qed
    ultimately show ?thesis using less.prems by auto
  next
    case False
    let ?c = "c\<lparr>Shards := move_one mg lg (Shards c)\<rparr>"
    have "disorder ?c < disorder c" using move_reduces[OF an less.prems(1,2)] False by simp
    moreover have "assigned ?c"
      using less.prems(3) b(2) move_one_set[of mg lg "Shards c"] by (auto simp: assigned_def)
    ultimately have "\<exists>c'. balance_loop ?c = Some c' \<and> Groups c' = Groups ?c \<and> Num c' = Num ?c \<and>
       length (Shards c') = NShards \<and> assigned c' \<and> balanced c'"
      using less.prems by (intro less.IH) auto
    then show ?thesis using False by (simp add: balance_loop.simps[of c] an)
  qed
qed

lemma assign_loop_frame:
  "Groups (assign_loop ss c) = Groups c" "Num (assign_loop ss c) = Num c"
  "length (Shards (assign_loop ss c)) = length (Shards c)"
  by (induction ss arbitrary: c) auto

lemma assign_loop_assigned:
  assumes "Groups c \<noteq> []" and "length (Shards c) = NShards" and "k \<le> NShards"
    and "\<forall>s < k. Shards c ! s \<in> set (gids c)"
  shows "assigned (assign_loop [k..<NShards] c)"
  using assms
proof (induction "NShards - k" arbitrary: k c)
  case 0
  then have "k = NShards" by simp
  with 0 show ?case by (auto simp: assigned_def in_set_conv_nth)
next
  case (Suc d)
  have k: "k < NShards" using Suc(2) by simp
  then have upt: "[k..<NShards] = k # [Suc k..<NShards]" by (simp add: upt_rec)
  obtain mg mn lg ln where an: "analyze c = (mg, mn, lg, ln)" by (metis prod_cases4)
  have lg: "least_loaded c \<in> set (gids c)"
    using analyze_bounds(2)[OF an Suc.prems(1,2)] by (simp add: least_loaded_def an)
  show ?case
  proof (cases "map_of (Groups c) (Shards c ! k) = None")
    case True
    let ?c = "c\<lparr>Shards := (Shards c)[k := least_loaded c]\<rparr>"
    have "assigned (assign_loop [Suc k..<NShards] ?c)"
      using Suc.prems k Suc(2) lg by (intro Suc.hyps(1)) (auto simp: nth_list_update less_Suc_eq)
    then show ?thesis unfolding upt using True by simp
  next
    case False
    then have "Shards c ! k \<in> set (gids c)" by (auto simp: map_of_eq_None_iff)
    then have "assigned (assign_loop [Suc k..<NShards] c)"
      using Suc.prems k Suc(2) by (intro Suc.hyps(1)) (auto simp: less_Suc_eq)
    then show ?thesis unfolding upt using False by auto
  qed
qed

lemma assign_loop_id: "assigned c \<Longrightarrow> \<forall>s \<in> set ss. s < length (Shards c) \<Longrightarrow> assign_loop ss c = c"
  by (induction ss) (auto simp: assigned_def map_of_eq_None_iff dest: nth_mem)

lemma Rebalance_ends:
  assumes "Groups c \<noteq> []" and "length (Shards c) = NShards"
  shows "\<exists>c'. Rebalance c = Some c' \<and> Groups c' = Groups c \<and> Num c' = Num c \<and>
     length (Shards c') = NShards \<and> assigned c' \<and> balanced c'"
proof -
  let ?a = "assign_loop [0..<NShards] c"
  have "assigned ?a" by (rule assign_loop_assigned[OF assms]) simp_all
  moreover have "Groups ?a \<noteq> []" "length (Shards ?a) = NShards"
    using assms by (simp_all add: assign_loop_frame)
  ultimately show ?thesis
    using balance_loop_ends[of ?a] assms by (auto simp: Rebalance_def assign_loop_frame Suc_le_eq)
qed

lemma foldl_min: "foldl (\<lambda>m g. if f g < m then f g else m) a gs \<le> (x :: int) \<longleftrightarrow> a \<le> x \<or> (\<exists>g \<in> set gs. f g \<le> x)"
  by (induction gs arbitrary: a) (auto, (linarith+)?)

lemma foldl_max: "foldl (\<lambda>m g. if f g > m then f g else m) a gs \<le> (x :: int) \<longleftrightarrow> a \<le> x \<and> (\<forall>g \<in> set gs. f g \<le> x)"
  by (induction gs arbitrary: a) auto

lemma CheckConfigI:
  assumes "balanced c" and "assigned c" and "length (Shards c) = NShards"
  shows "CheckConfig (gids c) c"
proof -
  let ?mn = "foldl (\<lambda>m g. if load c g < m then load c g else m) 257 (gids c)"
    and ?mx = "foldl (\<lambda>m g. if load c g > m then load c g else m) 0 (gids c)"
  have le: "load c g \<le> 12" for g using count_le_length[of "Shards c" g] assms(3) by (simp add: NShards_def)
  have "257 \<le> ?mn \<or> (\<exists>h \<in> set (gids c). load c h \<le> ?mn)"
    using foldl_min[of "load c" 257 "gids c" ?mn] by blast
  then have "\<forall>g \<in> set (gids c). load c g \<le> ?mn + 1"
  proof (elim disjE bexE; intro ballI)
    fix g assume "257 \<le> ?mn"
    with le[of g] show "load c g \<le> ?mn + 1" by linarith
  next
    fix g h assume "h \<in> set (gids c)" "load c h \<le> ?mn" "g \<in> set (gids c)"
    with assms(1) have "load c g \<le> load c h + 1" by (auto simp: balanced_def)
    with \<open>load c h \<le> ?mn\<close> show "load c g \<le> ?mn + 1" by linarith
  qed
  moreover have "0 \<le> ?mn" using foldl_min[of "load c" 257 "gids c" "-1"] by auto
  ultimately have "?mx \<le> ?mn + 1" by (subst foldl_max) simp
  then show ?thesis using assms(2)
    by (auto simp: CheckConfig_def Let_def list_all_iff assigned_def map_of_eq_None_iff)
qed

lemma wf_update:
  assumes "wf_cfg c" and "map_of (Groups c) gid = None"
  shows "wf_cfg (c\<lparr>Groups := AList.update gid srvs (Groups c)\<rparr>)"
    "set (map fst (AList.update gid srvs (Groups c))) = insert gid (set (gids c))"
  using assms distinct_update[of "Groups c" gid srvs] dom_update[of gid srvs "Groups c"]
  by (auto simp: wf_cfg_def dom_map_of_conv_image_fst update_keys)

lemma Join_loop_facts:
  assumes "Join_loop servers changed cfg = Some (Inr (cfg', ch))" and "wf_cfg cfg"
  shows "wf_cfg cfg' \<and> Num cfg' = Num cfg \<and> Shards cfg' = Shards cfg \<and>
     set (gids cfg') = set (gids cfg) \<union> fst ` set servers"
  using assms
proof (induction servers arbitrary: changed cfg)
  case (Cons p servers)
  obtain gid srvs where p: "p = (gid, srvs)" by (cases p)
  from Cons.prems(1) have none: "map_of (Groups cfg) gid = None"
    and loop: "Join_loop servers True (cfg\<lparr>Groups := AList.update gid srvs (Groups cfg)\<rparr>) = Some (Inr (cfg', ch))"
    by (auto simp: p split: if_split_asm)
  from Cons.IH[OF loop wf_update(1)[OF Cons.prems(2) none]] wf_update(2)[OF Cons.prems(2) none]
  show ?case by (auto simp: p simp del: set_map)
qed auto

lemma Rebalance_correct_lemma:
  assumes "wf_cfg c"
  shows "\<exists>c'. Rebalance c = Some c' \<and> wf_cfg c' \<and> Groups c' = Groups c \<and> Num c' = Num c \<and>
     CheckConfig (gids c) c' \<and> (Groups c = [] \<longrightarrow> set (Shards c') = {0})"
proof (cases "Groups c = []")
  case True
  moreover have "Shards c \<noteq> []" using assms by (auto simp: wf_cfg_def NShards_def)
  ultimately show ?thesis using assms
    by (auto simp: Rebalance_def wf_cfg_def CheckConfig_def image_constant_conv)
next
  case False
  from Rebalance_ends[OF False] assms obtain c' where c': "Rebalance c = Some c'" "Groups c' = Groups c"
    "Num c' = Num c" "length (Shards c') = NShards" "assigned c'" "balanced c'"
    by (auto simp: wf_cfg_def)
  with CheckConfigI[OF c'(6,5,4)] assms False show ?thesis by (auto simp: wf_cfg_def)
qed

section \<open>Properties\<close>

text \<open>
  C21. Rebalancing ends, and its result passes \<open>CheckConfig\<close>: every shard is assigned to an
  existing group and the loads of any two groups differ by at most one; groups and number are
  unchanged, and without groups all shards are unassigned.
\<close>

theorem Rebalance_correct:
  assumes "wf_cfg c"
  shows "\<exists>c'. Rebalance c = Some c' \<and> wf_cfg c' \<and> Groups c' = Groups c \<and> Num c' = Num c \<and>
     CheckConfig (gids c) c' \<and> (Groups c = [] \<longrightarrow> set (Shards c') = {0})"
  using assms by (rule Rebalance_correct_lemma)

definition demo_cfg :: ShardConfig where
  "demo_cfg = MakeShardConfig\<lparr>Shards := replicate 11 1 @ [7], Groups := [(1, [''a'']), (2, [''b'']), (3, [''c''])]\<rparr>"

theorem Rebalance_correct_witness:
  "\<exists>c'. Rebalance demo_cfg = Some c' \<and> CheckConfig [1, 2, 3] c'"
proof -
  have "wf_cfg demo_cfg" by (simp add: demo_cfg_def wf_cfg_def NShards_def)
  from Rebalance_correct[OF this] show ?thesis by (auto simp: demo_cfg_def)
qed

text \<open>
  Rebalancing moves nothing when nothing is wrong: a configuration whose shards are assigned
  to existing groups with loads that differ by at most one is left as it is.
\<close>

theorem Rebalance_stable:
  assumes "wf_cfg c" and "Groups c \<noteq> []"
    and "list_all (\<lambda>g. map_of (Groups c) g \<noteq> None) (Shards c)"
    and "\<forall>g \<in> set (gids c). \<forall>h \<in> set (gids c). count_list (Shards c) g \<le> count_list (Shards c) h + 1"
  shows "Rebalance c = Some c"
proof -
  have len: "length (Shards c) = NShards" using assms(1) by (simp add: wf_cfg_def)
  have "assigned c" using assms(3) by (auto simp: assigned_def list_all_iff map_of_eq_None_iff)
  then have id: "assign_loop [0..<length (Shards c)] c = c" by (rule assign_loop_id) simp
  obtain mg mn lg ln where an: "analyze c = (mg, mn, lg, ln)" by (metis prod_cases4)
  note b = analyze_bounds[OF an assms(2) len]
  have "count_list (Shards c) mg \<le> count_list (Shards c) lg + 1" using assms(4) b(2,4) by blast
  then have "mn < ln + 2" using b(3,5) by simp
  then show ?thesis using assms(2) id by (simp add: Rebalance_def balance_loop.simps[of c] an Suc_le_eq)
qed

theorem Rebalance_stable_witness:
  "Rebalance (demo_cfg\<lparr>Shards := [1, 2, 3, 1, 2, 3, 1, 2, 3, 1, 2, 3]\<rparr>) =
     Some (demo_cfg\<lparr>Shards := [1, 2, 3, 1, 2, 3, 1, 2, 3, 1, 2, 3]\<rparr>)"
  by (rule Rebalance_stable) (simp_all add: demo_cfg_def wf_cfg_def NShards_def)

text \<open>
  C22. A successful join ends with a checked configuration: it has the old and the new groups,
  the next number, and its shards are assigned and balanced over all of them.
\<close>

theorem JoinBalance_correct:
  assumes "wf_cfg cfg" and "JoinBalance servers cfg = Some (cfg', True)"
  shows "wf_cfg cfg' \<and> Num cfg' = Num cfg + 1 \<and> set (gids cfg') = set (gids cfg) \<union> fst ` set servers \<and>
     CheckConfig (gids cfg') cfg'"
proof -
  from assms(2) obtain cfg1 where j: "Join servers cfg = Some (cfg1, True)" and r: "Rebalance cfg1 = Some cfg'"
    by (auto simp: JoinBalance_def split: option.splits prod.splits if_split_asm)
  from j obtain cfg0 where l: "Join_loop servers False cfg = Some (Inr (cfg0, True))"
    and c1: "cfg1 = cfg0\<lparr>Num := Num cfg0 + 1\<rparr>"
    by (auto simp: Join_def split: option.splits sum.splits prod.splits if_split_asm)
  note facts = Join_loop_facts[OF l assms(1)]
  have "wf_cfg cfg1" using facts by (auto simp: c1 wf_cfg_def)
  from Rebalance_correct_lemma[OF this] r obtain
    "wf_cfg cfg'" "Groups cfg' = Groups cfg1" "Num cfg' = Num cfg1" "CheckConfig (gids cfg1) cfg'" by auto
  with facts c1 show ?thesis by simp
qed

theorem JoinBalance_correct_witness:
  "\<exists>cfg'. JoinBalance [(9, [''d''])] demo_cfg = Some (cfg', True) \<and> CheckConfig (gids cfg') cfg'"
proof -
  have wf: "wf_cfg demo_cfg" by (simp add: demo_cfg_def wf_cfg_def NShards_def)
  have "Join [(9, [''d''])] demo_cfg = Some (demo_cfg\<lparr>Num := 1, Groups := Groups demo_cfg @ [(9, [''d''])]\<rparr>, True)"
    by (simp add: Join_def demo_cfg_def MakeShardConfig_def)
  moreover have "wf_cfg (demo_cfg\<lparr>Num := 1, Groups := Groups demo_cfg @ [(9, [''d''])]\<rparr>)"
    using wf by (simp add: wf_cfg_def demo_cfg_def)
  ultimately obtain cfg' where "JoinBalance [(9, [''d''])] demo_cfg = Some (cfg', True)"
    using Rebalance_correct_lemma by (fastforce simp: JoinBalance_def)
  with JoinBalance_correct[OF wf this] show ?thesis by blast
qed

end
