(* ===== verification/MapReduce.thy ===== *)
theory MapReduce
  imports GoLib "HOL-Library.AList"
begin

text \<open>
  The MapReduce of \<^verbatim>\<open>mr/coordinator.go\<close>, \<^verbatim>\<open>mr/worker.go\<close> and \<^verbatim>\<open>mr/rpc.go\<close>, the sequential
  program of \<^verbatim>\<open>main/mrsequential.go\<close> and the applications of \<^verbatim>\<open>mrapps\<close>.

  A Go map is an association list with distinct keys; the order in which \<^verbatim>\<open>range\<close> visits it is an
  argument of the operation.  Times are integers (nanoseconds) and \<open>now\<close> is the clock reading of
  the call.  The working directory holds the intermediate files, whose content is the decoded JSON
  value, and the output files, whose content is the sequence of \<^verbatim>\<open>Fprintf\<close> writes.  A temporary
  file is seen by no one until \<^verbatim>\<open>os.Rename\<close> gives it its name, so only the rename is modelled.
  The plugin functions \<open>mapf\<close> and \<open>reducef\<close> and the contents \<open>input\<close> of the input files are
  arguments, and so is \<open>sorter\<close>, which stands for \<^verbatim>\<open>sort.Sort(ByKey(_))\<close>: an unstable sort, of which
  only the laws of the locale \<open>key_sort\<close> are used.
\<close>

unbundle bit_operations_syntax

section \<open>Key/value pairs and the loops both programs share\<close>

record KeyValue =
  Key :: string
  Val :: string

type_synonym mapf = "string \<Rightarrow> string \<Rightarrow> KeyValue list"
type_synonym reducef = "string \<Rightarrow> string list \<Rightarrow> string"
type_synonym sorter = "KeyValue list \<Rightarrow> KeyValue list"

text \<open>The reference instance of \<^verbatim>\<open>sort.Sort(ByKey(_))\<close>.\<close>

definition ByKey_sort :: sorter where
  "ByKey_sort kvs = sort_key Key kvs"

definition ihash :: "string \<Rightarrow> int" where
  "ihash key = uint (fnv32a key AND 0x7fffffff)"

definition out_line :: "string \<Rightarrow> string \<Rightarrow> string" where
  "out_line key output = key @ '' '' @ output @ [CHR 0x0A]"

text \<open>The loop over the sorted pairs: one call of \<open>reducef\<close> for each run of equal keys.\<close>

function reduce_loop :: "reducef \<Rightarrow> KeyValue list \<Rightarrow> string list" where
  "reduce_loop reducef [] = []"
| "reduce_loop reducef (kv # kvs) =
     (let same = takeWhile (\<lambda>x. Key x = Key kv) kvs;
          values = map Val (kv # same);
          output = reducef (Key kv) values
      in out_line (Key kv) output # reduce_loop reducef (dropWhile (\<lambda>x. Key x = Key kv) kvs))"
  by pat_completeness auto
termination
  by (relation "measure (\<lambda>(_, kvs). length kvs)") (auto simp: le_imp_less_Suc length_dropWhile_le)

section \<open>The RPCs and the coordinator\<close>

datatype TaskPhase = MapPhase | ReducePhase | DonePhase | WaitPhase

record GetTaskReply =
  rTaskPhase :: TaskPhase
  rFilename :: string
  rNReduce :: int
  rReduceTaskID :: int

record TaskCompleteArgs =
  aTaskPhase :: TaskPhase
  aFilename :: string
  aReduceTaskID :: int

datatype AssignmentState = Idle | InProgress | Completed

record TaskStatus =
  tstate :: AssignmentState
  startTime :: int

record Coordinator =
  taskPhase :: TaskPhase
  nReduce :: int
  filesStatus :: "(string \<times> TaskStatus) list"
  reduceTaskStatus :: "(int \<times> TaskStatus) list"

abbreviation idle_status :: TaskStatus where
  "idle_status \<equiv> \<lparr>tstate = Idle, startTime = 0\<rparr>"

definition Init :: "int \<Rightarrow> string list \<Rightarrow> Coordinator" where
  "Init n files =
     \<lparr>taskPhase = MapPhase, nReduce = n,
      filesStatus = fold (\<lambda>file m. AList.update file idle_status m) files [],
      reduceTaskStatus = fold (\<lambda>i m. AList.update (int i) idle_status m) [0 ..< nat n] []\<rparr>"

text \<open>A task that may be handed out: idle, or in progress for more than ten seconds.\<close>

definition available :: "int \<Rightarrow> TaskStatus \<Rightarrow> bool" where
  "available now st \<longleftrightarrow>
     tstate st = Idle \<or> tstate st = InProgress \<and> now - startTime st > 10 * 1000000000"

text \<open>The loops \<open>for k, st := range status\<close> of \<open>GetTask\<close>: the flag \<open>complete\<close> and the task chosen.\<close>

fun scan_tasks :: "int \<Rightarrow> ('k \<times> TaskStatus) list \<Rightarrow> 'k list \<Rightarrow> bool \<Rightarrow> bool \<times> 'k option" where
  "scan_tasks now status [] complete = (complete, None)"
| "scan_tasks now status (k # ks) complete =
     (case map_of status k of
        None \<Rightarrow> scan_tasks now status ks complete
      | Some st \<Rightarrow>
          let complete' = complete \<and> tstate st = Completed
          in if available now st then (complete', Some k) else scan_tasks now status ks complete')"

text \<open>\<open>status[k].state = v\<close> through the pointer of the map: a panic when the key is missing.\<close>

definition set_status :: "('k \<times> TaskStatus) list \<Rightarrow> 'k \<Rightarrow> (TaskStatus \<Rightarrow> TaskStatus)
    \<Rightarrow> ('k \<times> TaskStatus) list option" where
  "set_status status k f =
     (case map_of status k of None \<Rightarrow> None | Some st \<Rightarrow> Some (AList.update k (f st) status))"

text \<open>The block of \<open>GetTask\<close> for the map phase, then the one for the reduce phase.\<close>

definition GetTask_map :: "string list \<Rightarrow> int \<Rightarrow> Coordinator \<times> GetTaskReply
    \<Rightarrow> (Coordinator \<times> GetTaskReply) option" where
  "GetTask_map order now = (\<lambda>(c, reply).
     if taskPhase c = MapPhase then
       case scan_tasks now (filesStatus c) order True of (complete, chosen) \<Rightarrow>
         let reply = reply\<lparr>rFilename := (case chosen of None \<Rightarrow> rFilename reply | Some f \<Rightarrow> f)\<rparr>
         in if complete then Some (c\<lparr>taskPhase := ReducePhase\<rparr>, reply)
            else if length (rFilename reply) = 0 then Some (c, reply\<lparr>rTaskPhase := WaitPhase\<rparr>)
            else do {
              m \<leftarrow> set_status (filesStatus c) (rFilename reply)
                     (\<lambda>st. st\<lparr>tstate := InProgress, startTime := now\<rparr>);
              Some (c\<lparr>filesStatus := m\<rparr>, reply)
            }
     else Some (c, reply))"

definition GetTask_reduce :: "int list \<Rightarrow> int \<Rightarrow> Coordinator \<times> GetTaskReply
    \<Rightarrow> (Coordinator \<times> GetTaskReply) option" where
  "GetTask_reduce order now = (\<lambda>(c, reply).
     if taskPhase c = ReducePhase then
       case scan_tasks now (reduceTaskStatus c) order True of (complete, chosen) \<Rightarrow>
         let reply = reply\<lparr>rReduceTaskID := (case chosen of None \<Rightarrow> - 1 | Some i \<Rightarrow> i)\<rparr>
         in if complete then Some (c\<lparr>taskPhase := DonePhase\<rparr>, reply)
            else if rReduceTaskID reply = - 1 then Some (c, reply\<lparr>rTaskPhase := WaitPhase\<rparr>)
            else do {
              m \<leftarrow> set_status (reduceTaskStatus c) (rReduceTaskID reply)
                     (\<lambda>st. st\<lparr>tstate := InProgress, startTime := now\<rparr>);
              Some (c\<lparr>reduceTaskStatus := m\<rparr>, reply)
            }
     else Some (c, reply))"

definition GetTask :: "string list \<Rightarrow> int list \<Rightarrow> int \<Rightarrow> Coordinator
    \<Rightarrow> (Coordinator \<times> GetTaskReply) option" where
  "GetTask forder rorder now c = do {
     p \<leftarrow> GetTask_map forder now
            (c, \<lparr>rTaskPhase = MapPhase, rFilename = '''', rNReduce = 0, rReduceTaskID = 0\<rparr>);
     (c, reply) \<leftarrow> GetTask_reduce rorder now p;
     let reply = (if rTaskPhase reply \<noteq> WaitPhase then reply\<lparr>rTaskPhase := taskPhase c\<rparr> else reply);
     Some (c, reply\<lparr>rNReduce := nReduce c\<rparr>)
   }"

definition TaskComplete :: "TaskCompleteArgs \<Rightarrow> Coordinator \<Rightarrow> Coordinator option" where
  "TaskComplete args c = do {
     c \<leftarrow> (if aTaskPhase args = MapPhase
            then do {
              m \<leftarrow> set_status (filesStatus c) (aFilename args) (\<lambda>st. st\<lparr>tstate := Completed\<rparr>);
              Some (c\<lparr>filesStatus := m\<rparr>)
            }
            else Some c);
     (if aTaskPhase args = ReducePhase
      then do {
        m \<leftarrow> set_status (reduceTaskStatus c) (aReduceTaskID args) (\<lambda>st. st\<lparr>tstate := Completed\<rparr>);
        Some (c\<lparr>reduceTaskStatus := m\<rparr>)
      }
      else Some c)
   }"

definition Done :: "Coordinator \<Rightarrow> bool" where
  "Done c \<longleftrightarrow> taskPhase c = DonePhase"

section \<open>The worker\<close>

text \<open>
  The names of the intermediate and output files, and the test of \<^verbatim>\<open>filepath.Glob\<close> for the pattern
  \<^verbatim>\<open>map-out-*-<id>\<close>: the star stands for any characters but a slash, which no name of the directory
  contains.
\<close>

definition mapOutName :: "string \<Rightarrow> nat \<Rightarrow> string" where
  "mapOutName filename idx = ''map-out-'' @ Base filename @ ''-'' @ itoa_nat idx"

definition redOutName :: "int \<Rightarrow> string" where
  "redOutName reduceTaskID = ''mr-out-'' @ Itoa reduceTaskID"

definition Glob_match :: "int \<Rightarrow> string \<Rightarrow> bool" where
  "Glob_match reduceTaskID name \<longleftrightarrow>
     (let pre = ''map-out-''; suf = ''-'' @ Itoa reduceTaskID
      in length pre + length suf \<le> length name \<and> take (length pre) name = pre
         \<and> drop (length name - length suf) name = suf)"

text \<open>
  \<open>writeFileForMap\<close>: the split of the pairs over the reduce tasks (a division by zero or a negative
  slice length is a panic), and one round of the loop that writes the files.
\<close>

definition kvSplit :: "int \<Rightarrow> KeyValue list \<Rightarrow> KeyValue list list option" where
  "kvSplit n kva =
     (if n < 0 \<or> n = 0 \<and> kva \<noteq> [] then None
      else Some (foldl (\<lambda>split kv. let idx = nat (ihash (Key kv) mod n) in split[idx := split ! idx @ [kv]])
                   (replicate (nat n) []) kva))"

type_synonym mapdir = "(string \<times> KeyValue list) list"

definition writeMapOut :: "string \<Rightarrow> nat \<Rightarrow> KeyValue list \<Rightarrow> mapdir \<Rightarrow> mapdir" where
  "writeMapOut filename idx kvList dir = AList.update (mapOutName filename idx) kvList dir"

text \<open>\<open>readKeyValueFromFile\<close>: the pairs of the matching files, in the lexical order of \<open>Glob\<close>.\<close>

definition readKeyValueFromFile :: "int \<Rightarrow> mapdir \<Rightarrow> KeyValue list" where
  "readKeyValueFromFile reduceTaskID dir =
     concat (map (\<lambda>f. the (map_of dir f)) (sort (filter (Glob_match reduceTaskID) (map fst dir))))"

text \<open>
  A worker process: about to call \<open>GetTask\<close>; holding a task; in the loop of \<open>writeFileForMap\<close> at an
  index; with the pairs of a reduce task in memory; about to call \<open>TaskComplete\<close>; not running.
\<close>

datatype Worker =
    WAsk
  | WTask GetTaskReply
  | WWrite GetTaskReply nat "KeyValue list list"
  | WReduce GetTaskReply "KeyValue list"
  | WReport TaskCompleteArgs
  | WExit

record mrsys =
  coord :: Coordinator
  workers :: "nat \<Rightarrow> Worker"
  mapOuts :: mapdir
  redOuts :: "(string \<times> string list) list"

definition Worker_got :: "GetTaskReply \<Rightarrow> Worker" where
  "Worker_got taskInfo =
     (if rTaskPhase taskInfo = WaitPhase then WAsk
      else if rTaskPhase taskInfo = DonePhase then WExit
      else WTask taskInfo)"

text \<open>The map branch: \<open>readFile\<close> is fatal on an unreadable file; then \<open>mapf\<close> and the split.\<close>

definition Worker_map :: "mapf \<Rightarrow> (string \<Rightarrow> string option) \<Rightarrow> GetTaskReply \<Rightarrow> Worker" where
  "Worker_map mapf input taskInfo =
     (case input (rFilename taskInfo) of
        None \<Rightarrow> WExit
      | Some content \<Rightarrow>
          (case kvSplit (rNReduce taskInfo) (mapf (rFilename taskInfo) content) of
             None \<Rightarrow> WExit
           | Some split \<Rightarrow> WWrite taskInfo 0 split))"

text \<open>
  One round of the writing loop; \<open>ok\<close> is false when the operating system reports an error, and then
  the worker asks for another task.
\<close>

definition Worker_write :: "bool \<Rightarrow> GetTaskReply \<Rightarrow> nat \<Rightarrow> KeyValue list list \<Rightarrow> mapdir \<Rightarrow> Worker \<times> mapdir"
  where
  "Worker_write ok taskInfo idx split dir =
     (if idx < length split then
        if ok then (WWrite taskInfo (idx + 1) split, writeMapOut (rFilename taskInfo) idx (split ! idx) dir)
        else (WAsk, dir)
      else (WReport \<lparr>aTaskPhase = rTaskPhase taskInfo, aFilename = rFilename taskInfo,
                     aReduceTaskID = 0\<rparr>, dir))"

definition Worker_reduce :: "sorter \<Rightarrow> reducef \<Rightarrow> GetTaskReply \<Rightarrow> KeyValue list
    \<Rightarrow> (string \<times> string list) list \<Rightarrow> Worker \<times> (string \<times> string list) list" where
  "Worker_reduce sorter reducef taskInfo kvs outs =
     (WReport \<lparr>aTaskPhase = rTaskPhase taskInfo, aFilename = '''', aReduceTaskID = rReduceTaskID taskInfo\<rparr>,
      AList.update (redOutName (rReduceTaskID taskInfo)) (reduce_loop reducef (sorter kvs)) outs)"

section \<open>The distributed job\<close>

text \<open>
  One event is one atomic action of a worker or a handler call at the coordinator.  A call may fail
  before or after the handler ran; a process may stop at any moment and a new one may start.
\<close>

datatype mr_event =
    EStart nat
  | ECrash nat
  | EGetTask nat "string list" "int list" int bool
  | EMap nat
  | EWrite nat bool
  | ERead nat bool
  | EReduce nat bool
  | EComplete nat
  | ELost nat

definition set_worker :: "nat \<Rightarrow> Worker \<Rightarrow> mrsys \<Rightarrow> mrsys" where
  "set_worker w x s = s\<lparr>workers := (workers s)(w := x)\<rparr>"

fun mr_exec :: "mapf \<Rightarrow> reducef \<Rightarrow> sorter \<Rightarrow> (string \<Rightarrow> string option) \<Rightarrow> mr_event \<Rightarrow> mrsys \<Rightarrow> mrsys option"
  where
  "mr_exec mapf reducef sorter input (EStart w) s =
     (if workers s w = WExit then Some (set_worker w WAsk s) else None)"
| "mr_exec mapf reducef sorter input (ECrash w) s = Some (set_worker w WExit s)"
| "mr_exec mapf reducef sorter input (EGetTask w forder rorder now ok) s =
     (if workers s w = WAsk \<and> mset forder = mset (map fst (filesStatus (coord s)))
         \<and> mset rorder = mset (map fst (reduceTaskStatus (coord s)))
      then do {
        (c, reply) \<leftarrow> GetTask forder rorder now (coord s);
        Some (set_worker w (if ok then Worker_got reply else WExit) (s\<lparr>coord := c\<rparr>))
      }
      else None)"
| "mr_exec mapf reducef sorter input (EMap w) s =
     (case workers s w of
        WTask taskInfo \<Rightarrow>
          (if rTaskPhase taskInfo = MapPhase then Some (set_worker w (Worker_map mapf input taskInfo) s)
           else None)
      | _ \<Rightarrow> None)"
| "mr_exec mapf reducef sorter input (EWrite w ok) s =
     (case workers s w of
        WWrite taskInfo idx split \<Rightarrow>
          (case Worker_write ok taskInfo idx split (mapOuts s) of
             (x, dir) \<Rightarrow> Some (set_worker w x (s\<lparr>mapOuts := dir\<rparr>)))
      | _ \<Rightarrow> None)"
| "mr_exec mapf reducef sorter input (ERead w ok) s =
     (case workers s w of
        WTask taskInfo \<Rightarrow>
          (if rTaskPhase taskInfo = ReducePhase then
             Some (set_worker w (if ok then WReduce taskInfo
                                   (readKeyValueFromFile (rReduceTaskID taskInfo) (mapOuts s)) else WAsk) s)
           else None)
      | _ \<Rightarrow> None)"
| "mr_exec mapf reducef sorter input (EReduce w ok) s =
     (case workers s w of
        WReduce taskInfo kvs \<Rightarrow>
          (if ok then
             (case Worker_reduce sorter reducef taskInfo kvs (redOuts s) of
                (x, outs) \<Rightarrow> Some (set_worker w x (s\<lparr>redOuts := outs\<rparr>)))
           else Some (set_worker w WAsk s))
      | _ \<Rightarrow> None)"
| "mr_exec mapf reducef sorter input (EComplete w) s =
     (case workers s w of
        WReport args \<Rightarrow> do {
          c \<leftarrow> TaskComplete args (coord s);
          Some (set_worker w WAsk (s\<lparr>coord := c\<rparr>))
        }
      | _ \<Rightarrow> None)"
| "mr_exec mapf reducef sorter input (ELost w) s =
     (case workers s w of
        WReport args \<Rightarrow> Some (set_worker w WAsk s)
      | WAsk \<Rightarrow> Some (set_worker w WExit s)
      | _ \<Rightarrow> None)"

text \<open>\<open>MakeCoordinator\<close> in a working directory without output of an earlier job.\<close>

definition MakeCoordinator :: "string list \<Rightarrow> int \<Rightarrow> mrsys" where
  "MakeCoordinator files n =
     \<lparr>coord = Init n files, workers = (\<lambda>_. WExit), mapOuts = [], redOuts = []\<rparr>"

definition mr_init :: "string list \<Rightarrow> int \<Rightarrow> mrsys \<Rightarrow> bool" where
  "mr_init files n s \<longleftrightarrow> s = MakeCoordinator files n"

definition mr_step :: "mapf \<Rightarrow> reducef \<Rightarrow> sorter \<Rightarrow> (string \<Rightarrow> string option) \<Rightarrow> mrsys \<Rightarrow> mrsys \<Rightarrow> bool"
  where
  "mr_step mapf reducef sorter input s t \<longleftrightarrow> (\<exists>ev. mr_exec mapf reducef sorter input ev s = Some t)"

interpretation mr: transition_system "mr_init files n" "mr_step mapf reducef sorter input"
  for files n mapf reducef sorter input
  by unfold_locales (simp add: mr_init_def)

text \<open>The output of the job: the lines of the files \<^verbatim>\<open>mr-out-0\<close>, \<^verbatim>\<open>mr-out-1\<close>, and so on.\<close>

definition job_output :: "int \<Rightarrow> mrsys \<Rightarrow> string list" where
  "job_output n s = concat (map (\<lambda>r. case map_of (redOuts s) (redOutName (int r)) of
                                       None \<Rightarrow> [] | Some ls \<Rightarrow> ls) [0 ..< nat n])"

section \<open>The sequential program\<close>

fun seq_intermediate :: "mapf \<Rightarrow> (string \<Rightarrow> string option) \<Rightarrow> string list \<Rightarrow> KeyValue list option" where
  "seq_intermediate mapf input [] = Some []"
| "seq_intermediate mapf input (filename # fs) = do {
     content \<leftarrow> input filename;
     rest \<leftarrow> seq_intermediate mapf input fs;
     Some (mapf filename content @ rest)
   }"

definition mrsequential :: "mapf \<Rightarrow> reducef \<Rightarrow> sorter \<Rightarrow> (string \<Rightarrow> string option) \<Rightarrow> string list
    \<Rightarrow> string list option" where
  "mrsequential mapf reducef sorter input files =
     (if files = [] then None
      else do {
        intermediate \<leftarrow> seq_intermediate mapf input files;
        Some (reduce_loop reducef (sorter intermediate))
      })"

section \<open>The applications\<close>

definition wc_Map :: mapf where
  "wc_Map filename contents =
     map (\<lambda>w. \<lparr>Key = w, Val = ''1''\<rparr>) (FieldsFunc (\<lambda>r. \<not> isLetter r) contents)"

definition wc_Reduce :: reducef where
  "wc_Reduce key values = Itoa (int (length values))"

text \<open>The indexer: \<open>order\<close> is the order in which \<^verbatim>\<open>range\<close> visits the set of words.\<close>

definition indexer_Map :: "(string list \<Rightarrow> string list) \<Rightarrow> mapf" where
  "indexer_Map order document value =
     map (\<lambda>w. \<lparr>Key = w, Val = document\<rparr>) (order (remdups (FieldsFunc (\<lambda>x. \<not> isLetter x) value)))"

definition indexer_Reduce :: reducef where
  "indexer_Reduce key values =
     (let values = sort values in Itoa (int (length values)) @ '' '' @ StrJoin values '','')"

text \<open>\<^verbatim>\<open>crash.go\<close> and \<^verbatim>\<open>nocrash.go\<close>; \<open>maybeCrash\<close> is the event \<open>ECrash\<close>.\<close>

definition crash_Map :: mapf where
  "crash_Map filename contents =
     [\<lparr>Key = ''a'', Val = filename\<rparr>, \<lparr>Key = ''b'', Val = Itoa (int (length filename))\<rparr>,
      \<lparr>Key = ''c'', Val = Itoa (int (length contents))\<rparr>, \<lparr>Key = ''d'', Val = ''xyzzy''\<rparr>]"

definition crash_Reduce :: reducef where
  "crash_Reduce key values = StrJoin (sort values) '' ''"

end
