(* ===== verification/MrFacts.thy ===== *)
theory MrFacts
  imports MapReduce
begin

text \<open>
  Facts about the operations of \<open>MapReduce\<close>: what the reduce loop prints, how the pairs are split
  and found again through the file names, and what the handlers of the coordinator change.
\<close>

section \<open>The reduce loop\<close>

locale key_sort =
  fixes sorter :: sorter
  assumes sorter_mset: "mset (sorter kvs) = mset kvs"
    and sorter_sorted: "sorted (map Key (sorter kvs))"

locale order_free =
  fixes reducef :: reducef
  assumes reducef_mset: "mset vs = mset ws \<Longrightarrow> reducef k vs = reducef k ws"

definition vals_of :: "string \<Rightarrow> KeyValue list \<Rightarrow> string list" where
  "vals_of k kvs = map Val (filter (\<lambda>x. Key x = k) kvs)"

definition lines_of :: "reducef \<Rightarrow> KeyValue list \<Rightarrow> string multiset" where
  "lines_of reducef kvs =
     image_mset (\<lambda>k. out_line k (reducef k (vals_of k kvs))) (mset_set (Key ` set kvs))"

lemma takeWhile_eq_filter_sorted:
  fixes f :: "'a \<Rightarrow> 'b :: linorder"
  assumes "sorted (map f (x # xs))"
  shows "takeWhile (\<lambda>y. f y = f x) xs = filter (\<lambda>y. f y = f x) xs"
    and "dropWhile (\<lambda>y. f y = f x) xs = filter (\<lambda>y. f y \<noteq> f x) xs"
  using assms
proof (induction xs)
  case (Cons y ys)
  have ne: "\<forall>z \<in> set ys. f z \<noteq> f x" if "f y \<noteq> f x" "sorted (map f (x # y # ys))"
    using that by fastforce
  {
    case 1
    then show ?case using Cons.IH ne by (cases "f y = f x") (simp_all add: filter_empty_conv)
  next
    case 2
    then show ?case using Cons.IH ne by (cases "f y = f x") simp_all
  }
qed simp_all

lemma reduce_loop_lines:
  assumes "sorted (map Key kvs)"
  shows "mset (reduce_loop reducef kvs) = lines_of reducef kvs"
  using assms
proof (induction reducef kvs rule: reduce_loop.induct)
  case (1 reducef)
  then show ?case by (simp add: lines_of_def)
next
  case (2 reducef kv kvs)
  let ?ks = "filter (\<lambda>x. Key x \<noteq> Key kv) kvs"
  note tw = takeWhile_eq_filter_sorted[where f = Key, OF 2(2)]
  have "sorted (map Key ?ks)" using 2(2) by (simp add: sorted_filter)
  then have IH: "mset (reduce_loop reducef ?ks) = lines_of reducef ?ks"
    using 2(1)[OF refl refl refl] tw by simp
  have keys: "Key ` set (kv # kvs) = insert (Key kv) (Key ` set ?ks)" by auto
  have vals: "vals_of k (kv # kvs) = vals_of k ?ks" if "k \<in> Key ` set ?ks" for k
    using that by (auto simp: vals_of_def intro!: arg_cong[where f = "map Val"] filter_cong)
  have "lines_of reducef (kv # kvs) =
      {#out_line (Key kv) (reducef (Key kv) (vals_of (Key kv) (kv # kvs)))#} + lines_of reducef ?ks"
    unfolding lines_of_def keys
    by (subst mset_set.insert) (auto simp: vals intro!: image_mset_cong)
  then show ?case using IH tw by (simp add: vals_of_def)
qed

lemma vals_of_mset: "mset kvs = mset kvs' \<Longrightarrow> mset (vals_of k kvs) = mset (vals_of k kvs')"
  by (simp add: vals_of_def mset_filter)

context order_free
begin

lemma lines_of_cong:
  assumes "mset kvs = mset kvs'"
  shows "lines_of reducef kvs = lines_of reducef kvs'"
proof -
  have "set kvs = set kvs'" using assms by (rule mset_eq_setD)
  moreover have "reducef k (vals_of k kvs) = reducef k (vals_of k kvs')" for k
    by (rule reducef_mset) (rule vals_of_mset[OF assms])
  ultimately show ?thesis by (simp add: lines_of_def)
qed

end

locale mr_app = key_sort sorter + order_free reducef for sorter reducef
begin

lemma sorted_reduce_lines:
  assumes "mset kvs = mset kvs'"
  shows "mset (reduce_loop reducef (sorter kvs)) = lines_of reducef kvs'"
  using reduce_loop_lines[OF sorter_sorted] lines_of_cong sorter_mset assms by metis

end

lemma image_mset_Sum: "finite A \<Longrightarrow> image_mset f (\<Sum>r\<in>A. M r) = (\<Sum>r\<in>A. image_mset f (M r))"
  by (induction A rule: finite_induct) auto

lemma mset_concat_sum: "mset (concat (map g [0 ..< m])) = (\<Sum>r = 0..<m. mset (g r))"
  by (induction m) auto

text \<open>Splitting the pairs by their keys splits the lines.\<close>

lemma lines_of_split:
  fixes h :: "string \<Rightarrow> nat"
  assumes "\<And>k. h k < n"
  shows "lines_of reducef kvs = (\<Sum>r<n. lines_of reducef (filter (\<lambda>x. h (Key x) = r) kvs))"
proof -
  let ?K = "Key ` set kvs" and ?line = "\<lambda>k. out_line k (reducef k (vals_of k kvs))"
  have keys: "Key ` set (filter (\<lambda>x. h (Key x) = r) kvs) = {k \<in> ?K. h k = r}" for r by auto
  have vals: "vals_of k (filter (\<lambda>x. h (Key x) = r) kvs) = vals_of k kvs" if "h k = r" for k r
    unfolding vals_of_def filter_filter using that
    by (intro arg_cong[where f = "map Val"] filter_cong) auto
  have part: "lines_of reducef (filter (\<lambda>x. h (Key x) = r) kvs) =
      image_mset ?line (mset_set {k \<in> ?K. h k = r})" for r
    unfolding lines_of_def keys
    by (rule image_mset_cong) (simp add: vals)
  have "mset_set ?K = (\<Sum>r<n. mset_set {k \<in> ?K. h k = r})"
  proof (rule multiset_eqI)
    fix k
    have "(\<Sum>r<n. count (mset_set {k \<in> ?K. h k = r}) k) = (\<Sum>r<n. if r = h k then (if k \<in> ?K then 1 else 0) else 0)"
      by (rule sum.cong) (auto simp: count_mset_set')
    also have "\<dots> = (if k \<in> ?K then 1 else 0)" using assms[of k] by simp
    finally show "count (mset_set ?K) k = count (\<Sum>r<n. mset_set {k \<in> ?K. h k = r}) k"
      by (simp add: count_sum count_mset_set')
  qed
  then show ?thesis unfolding part by (simp add: lines_of_def image_mset_Sum)
qed

section \<open>The split and the file names\<close>

definition part :: "int \<Rightarrow> nat \<Rightarrow> KeyValue list \<Rightarrow> KeyValue list" where
  "part n r kvs = filter (\<lambda>x. nat (ihash (Key x) mod n) = r) kvs"

lemma split_foldl:
  assumes "0 < n" "length acc = nat n"
  shows "length (foldl (\<lambda>split kv. let idx = nat (ihash (Key kv) mod n) in split[idx := split ! idx @ [kv]]) acc kvs) = nat n
     \<and> (\<forall>i<nat n. foldl (\<lambda>split kv. let idx = nat (ihash (Key kv) mod n) in split[idx := split ! idx @ [kv]]) acc kvs ! i
              = acc ! i @ filter (\<lambda>x. nat (ihash (Key x) mod n) = i) kvs)"
  using assms(2)
proof (induction kvs arbitrary: acc)
  case (Cons kv kvs)
  let ?idx = "nat (ihash (Key kv) mod n)"
  have "length (acc[?idx := acc ! ?idx @ [kv]]) = nat n" using Cons.prems by simp
  note IH = Cons.IH[OF this]
  have "?idx < nat n" using assms(1) by simp
  with IH Cons.prems show ?case by (simp add: Let_def nth_list_update)
qed simp

lemma kvSplit_part:
  assumes "0 < n"
  shows "kvSplit n kva = Some (map (\<lambda>r. part n r kva) [0 ..< nat n])"
proof -
  note sf = split_foldl[OF assms, of "replicate (nat n) []" kva]
  show ?thesis using assms sf unfolding kvSplit_def part_def
    by (auto intro!: nth_equalityI)
qed

lemma itoa_no_dash: "c \<in> set (itoa_nat n) \<Longrightarrow> c \<noteq> CHR ''-''"
proof (induction n rule: itoa_nat.induct)
  case (1 n)
  have dig: "char_of (48 + d) \<noteq> CHR ''-''" if "d < 10" for d :: nat
  proof
    assume "char_of (48 + d) = CHR ''-''"
    then have "of_char (char_of (48 + d) :: char) = (of_char (CHR ''-'') :: nat)" by simp
    with that show False by (simp add: of_char_of)
  qed
  show ?case
  proof (cases "n < 10")
    case True
    then show ?thesis using 1(2) dig[of n] by (simp add: itoa_nat.simps[of n])
  next
    case False
    have "n mod 10 < 10" by simp
    from dig[OF this] False 1 show ?thesis by (auto simp: itoa_nat.simps[of n])
  qed
qed

lemma last_field:
  assumes "\<forall>c \<in> set s. c \<noteq> d"
  shows "takeWhile (\<lambda>c. c \<noteq> d) (rev (xs @ d # s)) = rev s"
proof -
  have "takeWhile (\<lambda>c. c \<noteq> d) (rev s @ d # rev xs) = rev s @ takeWhile (\<lambda>c. c \<noteq> d) (d # rev xs)"
    using assms by (intro takeWhile_append2) simp
  then show ?thesis by simp
qed

lemma mapOutName_inject: "mapOutName f i = mapOutName g j \<longleftrightarrow> Base f = Base g \<and> i = j"
proof
  assume eq: "mapOutName f i = mapOutName g j"
  have field: "takeWhile (\<lambda>c. c \<noteq> CHR ''-'') (rev (mapOutName f i)) = rev (itoa_nat i)" for f i
    unfolding mapOutName_def using last_field[of "itoa_nat i" "CHR ''-''" "''map-out-'' @ Base f"]
    by (simp add: itoa_no_dash)
  from field[of f i] field[of g j] eq have "i = j" by (simp add: itoa_inj)
  with eq show "Base f = Base g \<and> i = j" by (simp add: mapOutName_def)
qed (simp add: mapOutName_def)

lemma Glob_match_mapOutName: "Glob_match (int r) (mapOutName f i) \<longleftrightarrow> i = r"
proof
  assume "Glob_match (int r) (mapOutName f i)"
  then have suf: "drop (length (mapOutName f i) - length (''-'' @ itoa_nat r)) (mapOutName f i)
      = ''-'' @ itoa_nat r"
    by (simp add: Glob_match_def Itoa_def Let_def)
  obtain xs where "mapOutName f i = xs @ CHR ''-'' # itoa_nat r"
    using append_take_drop_id[of "length (mapOutName f i) - length (''-'' @ itoa_nat r)" "mapOutName f i"]
    unfolding suf by (metis append_Cons append_Nil)
  then have "takeWhile (\<lambda>c. c \<noteq> CHR ''-'') (rev (mapOutName f i)) = rev (itoa_nat r)"
    using last_field[of "itoa_nat r" "CHR ''-''"] by (simp add: itoa_no_dash)
  moreover have "takeWhile (\<lambda>c. c \<noteq> CHR ''-'') (rev (mapOutName f i)) = rev (itoa_nat i)"
    unfolding mapOutName_def using last_field[of "itoa_nat i" "CHR ''-''" "''map-out-'' @ Base f"]
    by (simp add: itoa_no_dash)
  ultimately show "i = r" by (simp add: itoa_inj)
next
  assume "i = r"
  then show "Glob_match (int r) (mapOutName f i)"
    by (simp add: Glob_match_def Itoa_def Let_def mapOutName_def eval_nat_numeral)
qed

lemma redOutName_inject: "redOutName (int i) = redOutName (int j) \<longleftrightarrow> i = j"
  by (simp add: redOutName_def Itoa_def itoa_inj)

section \<open>The coordinator\<close>

definition completed :: "('k \<times> TaskStatus) list \<Rightarrow> 'k \<Rightarrow> bool" where
  "completed status k \<longleftrightarrow> (case map_of status k of None \<Rightarrow> False | Some st \<Rightarrow> tstate st = Completed)"

lemma scan_tasks_result:
  assumes "scan_tasks now status ks complete = (complete', chosen)"
  shows "complete' \<Longrightarrow> complete \<and> chosen = None \<and> (\<forall>k st. k \<in> set ks \<longrightarrow> map_of status k = Some st \<longrightarrow> tstate st = Completed)"
    and "chosen = Some k \<Longrightarrow> \<exists>st. map_of status k = Some st \<and> available now st"
  using assms
proof (induction ks arbitrary: complete)
  case (Cons x xs)
  {
    case 1
    then show ?case using Cons.IH(1)
      by (cases "map_of status x") (auto simp: Let_def available_def split: if_split_asm)
  next
    case 2
    then show ?case using Cons.IH(2)
      by (cases "map_of status x") (auto simp: Let_def split: if_split_asm)
  }
qed auto

lemma scan_tasks_complete:
  assumes "scan_tasks now status ks True = (True, chosen)" and "mset ks = mset (map fst status)"
    and "k \<in> fst ` set status"
  shows "completed status k"
proof -
  obtain st where "map_of status k = Some st" using assms(3) by (metis map_of_eq_None_iff option.exhaust)
  moreover have "k \<in> set ks" using assms(3) mset_eq_setD[OF assms(2)] by simp
  ultimately show ?thesis using scan_tasks_result(1)[OF assms(1)] by (simp add: completed_def)
qed

lemma set_status_facts:
  assumes "set_status status k f = Some m"
  obtains st where "map_of status k = Some st" "map_of m = (map_of status)(k \<mapsto> f st)"
    "map fst m = map fst status"
proof -
  obtain st where st: "map_of status k = Some st" "m = AList.update k (f st) status"
    using assms by (auto simp: set_status_def split: option.splits)
  then have "k \<in> set (map fst status)" by (metis map_of_eq_None_iff option.distinct(1) set_map)
  then show ?thesis using that[of st] st by (simp add: AList.update_keys AList.update_conv')
qed

lemma set_status_keys: "set_status status k f = Some m \<Longrightarrow> map fst m = map fst status"
  by (rule set_status_facts)

lemma set_status_defined:
  assumes "k \<in> fst ` set status"
  shows "\<exists>m. set_status status k f = Some m"
proof -
  obtain st where "map_of status k = Some st" using assms by (metis map_of_eq_None_iff option.exhaust)
  then show ?thesis by (simp add: set_status_def)
qed

lemma set_status_InProgress:
  assumes "set_status status k (\<lambda>st. st\<lparr>tstate := InProgress, startTime := now\<rparr>) = Some m"
    and "\<exists>st. map_of status k = Some st \<and> available now st"
  shows "completed m = completed status"
proof -
  obtain st where st: "map_of status k = Some st"
    "map_of m = (map_of status)(k \<mapsto> st\<lparr>tstate := InProgress, startTime := now\<rparr>)"
    using set_status_facts[OF assms(1)] by blast
  have "tstate st \<noteq> Completed" using assms(2) st(1) by (auto simp: available_def)
  then show ?thesis using st by (auto simp: completed_def fun_eq_iff)
qed

lemma set_status_Completed:
  assumes "set_status status k (\<lambda>st. st\<lparr>tstate := Completed\<rparr>) = Some m"
  shows "completed m = (completed status)(k := True)"
  by (rule set_status_facts[OF assms]) (simp add: completed_def fun_eq_iff)

definition coord_inv :: "string list \<Rightarrow> int \<Rightarrow> Coordinator \<Rightarrow> bool" where
  "coord_inv files n c \<longleftrightarrow>
     distinct (map fst (filesStatus c)) \<and> fst ` set (filesStatus c) = set files
     \<and> distinct (map fst (reduceTaskStatus c)) \<and> fst ` set (reduceTaskStatus c) = int ` {..<nat n}
     \<and> nReduce c = n \<and> taskPhase c \<noteq> WaitPhase
     \<and> (taskPhase c \<noteq> MapPhase \<longrightarrow> (\<forall>f \<in> set files. completed (filesStatus c) f))
     \<and> (taskPhase c = DonePhase \<longrightarrow> (\<forall>r < nat n. completed (reduceTaskStatus c) (int r)))"

lemma fold_update_keys:
  "fst ` set (fold (\<lambda>k m. AList.update (g k) v m) ks al) = fst ` set al \<union> g ` set ks"
  by (induction ks arbitrary: al) (auto simp: AList.dom_update)

lemma fold_update_distinct:
  "distinct (map fst al) \<Longrightarrow> distinct (map fst (fold (\<lambda>k m. AList.update (g k) v m) ks al))"
  by (induction ks arbitrary: al) (auto intro: AList.distinct_update)

lemma coord_inv_Init: "coord_inv files n (Init n files)"
  unfolding coord_inv_def Init_def
  using fold_update_keys[of "\<lambda>x. x" idle_status files "[]"] fold_update_distinct[of "[]" "\<lambda>x. x" idle_status files]
    fold_update_keys[of int idle_status "[0 ..< nat n]" "[]"] fold_update_distinct[of "[]" int idle_status "[0 ..< nat n]"]
  by (simp add: atLeast0LessThan)

lemma coord_inv_cong:
  assumes "coord_inv files n c" and "map fst (filesStatus c') = map fst (filesStatus c)"
    and "map fst (reduceTaskStatus c') = map fst (reduceTaskStatus c)" and "nReduce c' = nReduce c"
    and "taskPhase c' = taskPhase c"
    and "\<And>f. completed (filesStatus c) f \<Longrightarrow> completed (filesStatus c') f"
    and "\<And>r. completed (reduceTaskStatus c) r \<Longrightarrow> completed (reduceTaskStatus c') r"
  shows "coord_inv files n c'"
proof -
  have keys: "fst ` set (filesStatus c') = fst ` set (filesStatus c)"
    "fst ` set (reduceTaskStatus c') = fst ` set (reduceTaskStatus c)"
    by (metis assms(2) set_map) (metis assms(3) set_map)
  show ?thesis using assms(1,6,7) unfolding coord_inv_def keys assms(2-5) by simp
qed

text \<open>What one block of \<open>GetTask\<close> does: the next phase, a wait, or the assignment of one task.\<close>

lemma GetTask_map_cases:
  assumes "GetTask_map order now (c, reply) = Some (c', reply')" and "rFilename reply = []"
    and "taskPhase c = MapPhase"
  obtains (complete) ch where "scan_tasks now (filesStatus c) order True = (True, ch)"
      "c' = c\<lparr>taskPhase := ReducePhase\<rparr>" "rTaskPhase reply' = rTaskPhase reply"
    | (wait) "c' = c" "rTaskPhase reply' = WaitPhase"
    | (assign) f m where "\<exists>st. map_of (filesStatus c) f = Some st \<and> available now st"
      "set_status (filesStatus c) f (\<lambda>st. st\<lparr>tstate := InProgress, startTime := now\<rparr>) = Some m"
      "c' = c\<lparr>filesStatus := m\<rparr>" "rFilename reply' = f" "rTaskPhase reply' = rTaskPhase reply"
proof -
  obtain cm ch where sc: "scan_tasks now (filesStatus c) order True = (cm, ch)" by fastforce
  show ?thesis
  proof (cases cm)
    case True
    with assms sc show ?thesis by (intro complete[of ch]) (auto simp: GetTask_map_def Let_def)
  next
    case ncm: False
    show ?thesis
    proof (cases ch)
      case None
      with assms sc ncm show ?thesis by (intro wait) (auto simp: GetTask_map_def Let_def)
    next
      case (Some f)
      note av = scan_tasks_result(2)[OF sc Some]
      show ?thesis
      proof (cases "f = []")
        case True
        with assms sc ncm Some show ?thesis by (intro wait) (auto simp: GetTask_map_def Let_def)
      next
        case False
        with assms sc ncm Some av show ?thesis
          by (auto simp: GetTask_map_def Let_def elim!: bindE intro: assign)
      qed
    qed
  qed
qed

lemma GetTask_reduce_cases:
  assumes "GetTask_reduce order now (c, reply) = Some (c', reply')" and "taskPhase c = ReducePhase"
  obtains (complete) ch where "scan_tasks now (reduceTaskStatus c) order True = (True, ch)"
      "c' = c\<lparr>taskPhase := DonePhase\<rparr>" "rTaskPhase reply' = rTaskPhase reply"
    | (wait) "c' = c" "rTaskPhase reply' = WaitPhase"
    | (assign) i m where "\<exists>st. map_of (reduceTaskStatus c) i = Some st \<and> available now st"
      "set_status (reduceTaskStatus c) i (\<lambda>st. st\<lparr>tstate := InProgress, startTime := now\<rparr>) = Some m"
      "c' = c\<lparr>reduceTaskStatus := m\<rparr>" "rReduceTaskID reply' = i" "rTaskPhase reply' = rTaskPhase reply"
proof -
  obtain cm ch where sc: "scan_tasks now (reduceTaskStatus c) order True = (cm, ch)" by fastforce
  show ?thesis
  proof (cases cm)
    case True
    with assms sc show ?thesis by (intro complete[of ch]) (auto simp: GetTask_reduce_def Let_def)
  next
    case ncm: False
    show ?thesis
    proof (cases ch)
      case None
      with assms sc ncm show ?thesis by (intro wait) (auto simp: GetTask_reduce_def Let_def)
    next
      case (Some i)
      note av = scan_tasks_result(2)[OF sc Some]
      show ?thesis
      proof (cases "i = - 1")
        case True
        with assms sc ncm Some show ?thesis by (intro wait) (auto simp: GetTask_reduce_def Let_def)
      next
        case False
        with assms sc ncm Some av show ?thesis
          by (auto simp: GetTask_reduce_def Let_def elim!: bindE intro: assign)
      qed
    qed
  qed
qed

lemma coord_inv_assign_file:
  assumes "coord_inv files n c" and "\<exists>st. map_of (filesStatus c) f = Some st \<and> available now st"
    and "set_status (filesStatus c) f (\<lambda>st. st\<lparr>tstate := InProgress, startTime := now\<rparr>) = Some m"
  shows "coord_inv files n (c\<lparr>filesStatus := m\<rparr>)" "completed m = completed (filesStatus c)" "f \<in> set files"
proof -
  show eq: "completed m = completed (filesStatus c)" by (rule set_status_InProgress[OF assms(3,2)])
  obtain st where st: "map_of (filesStatus c) f = Some st" "map fst m = map fst (filesStatus c)"
    using set_status_keys[OF assms(3)] assms(2) by blast
  then show "coord_inv files n (c\<lparr>filesStatus := m\<rparr>)" by (intro coord_inv_cong[OF assms(1)]) (simp_all add: eq)
  have "f \<in> fst ` set (filesStatus c)" using map_of_SomeD[OF st(1)] by force
  then show "f \<in> set files" using assms(1) by (simp add: coord_inv_def)
qed

lemma coord_inv_assign_reduce:
  assumes "coord_inv files n c" and "\<exists>st. map_of (reduceTaskStatus c) i = Some st \<and> available now st"
    and "set_status (reduceTaskStatus c) i (\<lambda>st. st\<lparr>tstate := InProgress, startTime := now\<rparr>) = Some m"
  shows "coord_inv files n (c\<lparr>reduceTaskStatus := m\<rparr>)" "completed m = completed (reduceTaskStatus c)"
    "i \<in> int ` {..<nat n}"
proof -
  show eq: "completed m = completed (reduceTaskStatus c)" by (rule set_status_InProgress[OF assms(3,2)])
  obtain st where st: "map_of (reduceTaskStatus c) i = Some st" "map fst m = map fst (reduceTaskStatus c)"
    using set_status_keys[OF assms(3)] assms(2) by blast
  then show "coord_inv files n (c\<lparr>reduceTaskStatus := m\<rparr>)" by (intro coord_inv_cong[OF assms(1)]) (simp_all add: eq)
  have "i \<in> fst ` set (reduceTaskStatus c)" using map_of_SomeD[OF st(1)] by force
  then show "i \<in> int ` {..<nat n}" using assms(1) by (simp add: coord_inv_def)
qed

lemma GetTask_map_inv:
  assumes inv: "coord_inv files n c" and ord: "mset order = mset (map fst (filesStatus c))"
    and q: "GetTask_map order now (c, reply) = Some (c', reply')"
    and r0: "rTaskPhase reply = MapPhase" "rFilename reply = []"
  shows "coord_inv files n c' \<and> completed (filesStatus c') = completed (filesStatus c)
    \<and> reduceTaskStatus c' = reduceTaskStatus c
    \<and> (taskPhase c' = MapPhase \<longrightarrow> rTaskPhase reply' \<noteq> WaitPhase \<longrightarrow> rFilename reply' \<in> set files)
    \<and> (taskPhase c' \<noteq> MapPhase \<longrightarrow> rTaskPhase reply' = MapPhase)"
proof (cases "taskPhase c = MapPhase")
  case True
  show ?thesis using q r0(2) True
  proof (cases rule: GetTask_map_cases)
    case (complete ch)
    then have "\<forall>f \<in> set files. completed (filesStatus c) f"
      using scan_tasks_complete[OF complete(1) ord] inv by (simp add: coord_inv_def)
    then show ?thesis using complete(2,3) inv r0 by (simp add: coord_inv_def)
  next
    case wait
    then show ?thesis using inv True by simp
  next
    case (assign f m)
    note a = coord_inv_assign_file[OF inv assign(1,2)]
    show ?thesis using a assign(3-5) True by simp
  qed
next
  case False
  then show ?thesis using q inv r0 by (auto simp: GetTask_map_def)
qed

lemma GetTask_reduce_inv:
  assumes inv: "coord_inv files n c" and ord: "mset order = mset (map fst (reduceTaskStatus c))"
    and q: "GetTask_reduce order now (c, reply) = Some (c', reply')"
  shows "coord_inv files n c' \<and> completed (reduceTaskStatus c') = completed (reduceTaskStatus c)
    \<and> filesStatus c' = filesStatus c
    \<and> (taskPhase c' = ReducePhase \<longrightarrow> rTaskPhase reply' \<noteq> WaitPhase \<longrightarrow>
        rReduceTaskID reply' \<in> int ` {..<nat n})
    \<and> (taskPhase c \<noteq> ReducePhase \<longrightarrow> c' = c \<and> reply' = reply)
    \<and> (taskPhase c = ReducePhase \<longrightarrow> taskPhase c' \<noteq> MapPhase)"
proof (cases "taskPhase c = ReducePhase")
  case True
  show ?thesis using q True
  proof (cases rule: GetTask_reduce_cases)
    case (complete ch)
    have "completed (reduceTaskStatus c) (int r)" if "r < nat n" for r
      using scan_tasks_complete[OF complete(1) ord] inv that by (simp add: coord_inv_def)
    then show ?thesis using complete(2,3) inv True by (simp add: coord_inv_def)
  next
    case wait
    then show ?thesis using inv True by simp
  next
    case (assign i m)
    note a = coord_inv_assign_reduce[OF inv assign(1,2)]
    show ?thesis using a assign(3-5) True by simp
  qed
next
  case False
  then show ?thesis using q inv by (auto simp: GetTask_reduce_def)
qed

lemma GetTask_inv:
  assumes inv: "coord_inv files n c" and ford: "mset forder = mset (map fst (filesStatus c))"
    and rord: "mset rorder = mset (map fst (reduceTaskStatus c))"
    and q: "GetTask forder rorder now c = Some (c', reply)"
  shows "coord_inv files n c' \<and> completed (filesStatus c') = completed (filesStatus c)
    \<and> completed (reduceTaskStatus c') = completed (reduceTaskStatus c)
    \<and> (rTaskPhase reply = MapPhase \<longrightarrow> rFilename reply \<in> set files)
    \<and> (rTaskPhase reply = ReducePhase \<longrightarrow> taskPhase c' \<noteq> MapPhase \<and> rReduceTaskID reply \<in> int ` {..<nat n})
    \<and> rNReduce reply = n"
proof -
  let ?r0 = "\<lparr>rTaskPhase = MapPhase, rFilename = '''', rNReduce = 0, rReduceTaskID = 0\<rparr>"
  obtain c1 r1 r2 where 1: "GetTask_map forder now (c, ?r0) = Some (c1, r1)"
    and 2: "GetTask_reduce rorder now (c1, r1) = Some (c', r2)"
    and r: "reply = (if rTaskPhase r2 \<noteq> WaitPhase then r2\<lparr>rTaskPhase := taskPhase c'\<rparr> else r2)\<lparr>rNReduce := nReduce c'\<rparr>"
    using q by (auto simp: GetTask_def Let_def elim!: bindE)
  note m = GetTask_map_inv[OF inv ford 1]
  have rord': "mset rorder = mset (map fst (reduceTaskStatus c1))" using m rord by simp
  have inv1: "coord_inv files n c1" using m by simp
  note d = GetTask_reduce_inv[OF inv1 rord' 2]
  have ph: "taskPhase c' = MapPhase \<Longrightarrow> taskPhase c1 = MapPhase \<and> c' = c1 \<and> r2 = r1"
    using d by (cases "taskPhase c1 = ReducePhase") auto
  have fn: "rTaskPhase reply = MapPhase \<Longrightarrow> rFilename reply \<in> set files"
    using ph m r by (auto split: if_split_asm)
  have rd: "rTaskPhase reply = ReducePhase \<Longrightarrow> taskPhase c' \<noteq> MapPhase \<and> rReduceTaskID reply \<in> int ` {..<nat n}"
    using d r by (auto split: if_split_asm)
  have "nReduce c' = n" using d by (simp add: coord_inv_def)
  then have "rNReduce reply = n" using r by simp
  then show ?thesis using m d fn rd by simp
qed

text \<open>\<open>GetTask\<close> never panics: the task it writes to was found in the map.\<close>

lemma GetTask_map_total: "rFilename reply = [] \<Longrightarrow> GetTask_map order now (c, reply) \<noteq> None"
proof -
  assume r: "rFilename reply = []"
  obtain cm ch where sc: "scan_tasks now (filesStatus c) order True = (cm, ch)" by fastforce
  show ?thesis
  proof (cases ch)
    case (Some f)
    obtain st where "map_of (filesStatus c) f = Some st" using scan_tasks_result(2)[OF sc Some] by blast
    then show ?thesis using sc r Some by (simp add: GetTask_map_def Let_def set_status_def)
  qed (use sc r in \<open>simp add: GetTask_map_def Let_def\<close>)
qed

lemma GetTask_reduce_total: "GetTask_reduce order now (c, reply) \<noteq> None"
proof -
  obtain cm ch where sc: "scan_tasks now (reduceTaskStatus c) order True = (cm, ch)" by fastforce
  show ?thesis
  proof (cases ch)
    case (Some i)
    obtain st where "map_of (reduceTaskStatus c) i = Some st" using scan_tasks_result(2)[OF sc Some] by blast
    then show ?thesis using sc Some by (simp add: GetTask_reduce_def Let_def set_status_def)
  qed (use sc in \<open>simp add: GetTask_reduce_def Let_def\<close>)
qed

lemma GetTask_total: "GetTask forder rorder now c \<noteq> None"
proof -
  obtain c1 r1 where "GetTask_map forder now
      (c, \<lparr>rTaskPhase = MapPhase, rFilename = '''', rNReduce = 0, rReduceTaskID = 0\<rparr>) = Some (c1, r1)"
    using GetTask_map_total[of "\<lparr>rTaskPhase = MapPhase, rFilename = '''', rNReduce = 0, rReduceTaskID = 0\<rparr>"]
    by fastforce
  moreover obtain c2 r2 where "GetTask_reduce rorder now (c1, r1) = Some (c2, r2)"
    using GetTask_reduce_total by fastforce
  ultimately show ?thesis by (simp add: GetTask_def Let_def)
qed

lemma TaskComplete_map:
  assumes inv: "coord_inv files n c" and a: "aTaskPhase args = MapPhase" "aFilename args \<in> set files"
  shows "\<exists>c'. TaskComplete args c = Some c' \<and> coord_inv files n c'
    \<and> completed (filesStatus c') = (completed (filesStatus c))(aFilename args := True)
    \<and> reduceTaskStatus c' = reduceTaskStatus c \<and> taskPhase c' = taskPhase c"
proof -
  have k: "aFilename args \<in> fst ` set (filesStatus c)" using inv a(2) by (simp add: coord_inv_def)
  obtain m where m: "set_status (filesStatus c) (aFilename args) (\<lambda>st. st\<lparr>tstate := Completed\<rparr>) = Some m"
    using set_status_defined[OF k] by blast
  note cm = set_status_Completed[OF m]
  have "map fst m = map fst (filesStatus c)" by (rule set_status_keys[OF m])
  then have "coord_inv files n (c\<lparr>filesStatus := m\<rparr>)"
    by (intro coord_inv_cong[OF inv]) (simp_all add: cm)
  then show ?thesis using m a(1) cm by (simp add: TaskComplete_def)
qed

lemma TaskComplete_reduce:
  assumes inv: "coord_inv files n c" and a: "aTaskPhase args = ReducePhase" "aReduceTaskID args \<in> int ` {..<nat n}"
  shows "\<exists>c'. TaskComplete args c = Some c' \<and> coord_inv files n c'
    \<and> completed (reduceTaskStatus c') = (completed (reduceTaskStatus c))(aReduceTaskID args := True)
    \<and> filesStatus c' = filesStatus c \<and> taskPhase c' = taskPhase c"
proof -
  have k: "aReduceTaskID args \<in> fst ` set (reduceTaskStatus c)" using inv a(2) by (simp add: coord_inv_def)
  obtain m where m: "set_status (reduceTaskStatus c) (aReduceTaskID args) (\<lambda>st. st\<lparr>tstate := Completed\<rparr>) = Some m"
    using set_status_defined[OF k] by blast
  note cm = set_status_Completed[OF m]
  have "map fst m = map fst (reduceTaskStatus c)" by (rule set_status_keys[OF m])
  then have "coord_inv files n (c\<lparr>reduceTaskStatus := m\<rparr>)"
    by (intro coord_inv_cong[OF inv]) (simp_all add: cm)
  then show ?thesis using m a(1) cm by (simp add: TaskComplete_def)
qed

lemma GetTask_phase:
  assumes "GetTask forder rorder now c = Some (c', reply)" and "taskPhase c \<noteq> MapPhase"
  shows "taskPhase c' \<noteq> MapPhase"
proof -
  obtain r1 r2 where q: "GetTask_reduce rorder now (c, r1) = Some (c', r2)"
    using assms by (auto simp: GetTask_def GetTask_map_def Let_def elim!: bindE)
  show ?thesis
  proof (cases "taskPhase c = ReducePhase")
    case True
    show ?thesis using q True by (rule GetTask_reduce_cases) (simp_all add: True)
  next
    case False
    with q assms(2) show ?thesis by (simp add: GetTask_reduce_def)
  qed
qed

lemma fold_idle_not_completed:
  assumes "\<And>k. \<not> completed al k"
  shows "\<not> completed (fold (\<lambda>k m. AList.update (g k) idle_status m) ks al) k"
  using assms
  by (induction ks arbitrary: al) (auto simp: completed_def AList.update_conv' split: option.splits)

lemma Init_not_completed:
  "\<not> completed (filesStatus (Init n files)) f" "\<not> completed (reduceTaskStatus (Init n files)) i"
  unfolding Init_def
  using fold_idle_not_completed[of "[]" "\<lambda>x. x" files f] fold_idle_not_completed[of "[]" int "[0 ..< nat n]" i]
  by (simp_all add: completed_def)

end
