(* ===== verification/MrProps.thy ===== *)
theory MrProps
  imports MrFacts
begin

text \<open>
  The distributed MapReduce computes what the sequential program computes.  The invariant says that
  every file under an intermediate or output name has the right content, that a task marked
  \<open>Completed\<close> has its files, and what each worker holds.
\<close>

section \<open>The invariant\<close>

definition wanted :: "mapf \<Rightarrow> (string \<Rightarrow> string option) \<Rightarrow> int \<Rightarrow> string \<Rightarrow> nat \<Rightarrow> KeyValue list" where
  "wanted mapf input n f r = part n r (mapf f (the (input f)))"

definition pairs :: "mapf \<Rightarrow> (string \<Rightarrow> string option) \<Rightarrow> int \<Rightarrow> string list \<Rightarrow> nat \<Rightarrow> KeyValue list" where
  "pairs mapf input n files r = concat (map (\<lambda>f. wanted mapf input n f r) files)"

definition written :: "mapf \<Rightarrow> (string \<Rightarrow> string option) \<Rightarrow> int \<Rightarrow> mrsys \<Rightarrow> string \<Rightarrow> nat \<Rightarrow> bool" where
  "written mapf input n s f k \<longleftrightarrow> input f \<noteq> None
     \<and> (\<forall>i<k. map_of (mapOuts s) (mapOutName f i) = Some (wanted mapf input n f i))"

definition mapdir_ok :: "mapf \<Rightarrow> (string \<Rightarrow> string option) \<Rightarrow> int \<Rightarrow> string list \<Rightarrow> mrsys \<Rightarrow> bool" where
  "mapdir_ok mapf input n files s \<longleftrightarrow> distinct (map fst (mapOuts s))
     \<and> (\<forall>name kvs. map_of (mapOuts s) name = Some kvs \<longrightarrow>
          (\<exists>f \<in> set files. \<exists>i < nat n. name = mapOutName f i \<and> kvs = wanted mapf input n f i))"

text \<open>The files of one reduce task hold the pairs of that task.\<close>

lemma read_pairs:
  assumes ok: "mapdir_ok mapf input n files s" and all: "\<forall>f \<in> set files. written mapf input n s f (nat n)"
    and d: "distinct files" "inj_on Base (set files)" and r: "r < nat n"
  shows "mset (readKeyValueFromFile (int r) (mapOuts s)) = mset (pairs mapf input n files r)"
proof -
  let ?names = "filter (Glob_match (int r)) (map fst (mapOuts s))"
  have there: "map_of (mapOuts s) (mapOutName f r) = Some (wanted mapf input n f r)" if "f \<in> set files" for f
    using all r that by (simp add: written_def)
  have "set ?names = (\<lambda>f. mapOutName f r) ` set files"
  proof (intro set_eqI iffI)
    fix x assume x: "x \<in> set ?names"
    then have "x \<in> fst ` set (mapOuts s)" by auto
    then obtain kvs where "map_of (mapOuts s) x = Some kvs" by (metis map_of_eq_None_iff option.exhaust)
    then obtain f i where "f \<in> set files" "x = mapOutName f i" using ok unfolding mapdir_ok_def by blast
    then show "x \<in> (\<lambda>f. mapOutName f r) ` set files" using x Glob_match_mapOutName by auto
  next
    fix x assume "x \<in> (\<lambda>f. mapOutName f r) ` set files"
    then obtain f where f: "f \<in> set files" "x = mapOutName f r" by auto
    with there[OF f(1)] have "x \<in> fst ` set (mapOuts s)" by (metis map_of_eq_None_iff option.distinct(1))
    then show "x \<in> set ?names" using f Glob_match_mapOutName by auto
  qed
  moreover have "distinct ?names" using ok by (simp add: mapdir_ok_def)
  moreover have dn: "distinct (map (\<lambda>f. mapOutName f r) files)"
    using d by (auto simp: distinct_map inj_on_def mapOutName_inject)
  ultimately have names: "mset ?names = mset (map (\<lambda>f. mapOutName f r) files)"
    by (metis list.set_map set_eq_iff_mset_eq_distinct)
  have cat: "mset (concat (map g xs)) = sum_mset (image_mset (\<lambda>x. mset (g x)) (mset xs))"
    for g :: "'b \<Rightarrow> 'c list" and xs
    by (induction xs) auto
  have "mset (readKeyValueFromFile (int r) (mapOuts s)) =
      sum_mset (image_mset (\<lambda>x. mset (the (map_of (mapOuts s) x))) (mset (map (\<lambda>f. mapOutName f r) files)))"
    unfolding readKeyValueFromFile_def cat mset_sort names ..
  also have "\<dots> = sum_mset (image_mset (\<lambda>f. mset (wanted mapf input n f r)) (mset files))"
    using there by (auto simp: multiset.map_comp comp_def intro!: arg_cong[where f = sum_mset] image_mset_cong)
  finally show ?thesis unfolding pairs_def cat .
qed

context mr_app
begin

definition reduced :: "mapf \<Rightarrow> (string \<Rightarrow> string option) \<Rightarrow> int \<Rightarrow> string list \<Rightarrow> mrsys \<Rightarrow> nat \<Rightarrow> bool" where
  "reduced mapf input n files s r \<longleftrightarrow>
     (\<exists>kvs. mset kvs = mset (pairs mapf input n files r)
        \<and> map_of (redOuts s) (redOutName (int r)) = Some (reduce_loop reducef (sorter kvs)))"

definition worker_ok :: "mapf \<Rightarrow> (string \<Rightarrow> string option) \<Rightarrow> int \<Rightarrow> string list \<Rightarrow> mrsys \<Rightarrow> Worker \<Rightarrow> bool" where
  "worker_ok mapf input n files s x \<longleftrightarrow> (case x of
       WAsk \<Rightarrow> True
     | WTask t \<Rightarrow> rNReduce t = n
         \<and> (rTaskPhase t = MapPhase \<and> rFilename t \<in> set files
            \<or> rTaskPhase t = ReducePhase \<and> taskPhase (coord s) \<noteq> MapPhase \<and> rReduceTaskID t \<in> int ` {..<nat n})
     | WWrite t idx split \<Rightarrow> rTaskPhase t = MapPhase \<and> rFilename t \<in> set files
         \<and> split = map (wanted mapf input n (rFilename t)) [0 ..< nat n] \<and> idx \<le> nat n
         \<and> written mapf input n s (rFilename t) idx
     | WReduce t kvs \<Rightarrow> rTaskPhase t = ReducePhase
         \<and> (\<exists>r < nat n. rReduceTaskID t = int r \<and> mset kvs = mset (pairs mapf input n files r))
     | WReport a \<Rightarrow>
         aTaskPhase a = MapPhase \<and> aFilename a \<in> set files \<and> written mapf input n s (aFilename a) (nat n)
         \<or> aTaskPhase a = ReducePhase
           \<and> (\<exists>r < nat n. aReduceTaskID a = int r \<and> reduced mapf input n files s r)
     | WExit \<Rightarrow> True)"

definition mr_inv :: "mapf \<Rightarrow> (string \<Rightarrow> string option) \<Rightarrow> int \<Rightarrow> string list \<Rightarrow> mrsys \<Rightarrow> bool" where
  "mr_inv mapf input n files s \<longleftrightarrow>
     coord_inv files n (coord s) \<and> mapdir_ok mapf input n files s
     \<and> (\<forall>f \<in> set files. completed (filesStatus (coord s)) f \<longrightarrow> written mapf input n s f (nat n))
     \<and> (\<forall>r < nat n. completed (reduceTaskStatus (coord s)) (int r) \<longrightarrow> reduced mapf input n files s r)
     \<and> (\<forall>w. worker_ok mapf input n files s (workers s w))"

text \<open>Every step keeps the phase past the map phase and the files that were written.\<close>

definition grows :: "mapf \<Rightarrow> (string \<Rightarrow> string option) \<Rightarrow> int \<Rightarrow> string list \<Rightarrow> mrsys \<Rightarrow> mrsys \<Rightarrow> bool" where
  "grows mapf input n files s t \<longleftrightarrow>
     (taskPhase (coord s) \<noteq> MapPhase \<longrightarrow> taskPhase (coord t) \<noteq> MapPhase)
     \<and> (\<forall>f \<in> set files. \<forall>k \<le> nat n. written mapf input n s f k \<longrightarrow> written mapf input n t f k)
     \<and> (\<forall>r. reduced mapf input n files s r \<longrightarrow> reduced mapf input n files t r)"

lemma written_cong: "mapOuts t = mapOuts s \<Longrightarrow> written mapf input n t = written mapf input n s"
  by (simp add: written_def fun_eq_iff)

lemma reduced_cong: "redOuts t = redOuts s \<Longrightarrow> reduced mapf input n files t = reduced mapf input n files s"
  by (simp add: reduced_def fun_eq_iff)

lemma mapdir_cong: "mapOuts t = mapOuts s \<Longrightarrow> mapdir_ok mapf input n files t = mapdir_ok mapf input n files s"
  by (simp add: mapdir_ok_def)

lemma grows_same:
  assumes "mapOuts t = mapOuts s" "redOuts t = redOuts s"
    and "taskPhase (coord s) \<noteq> MapPhase \<Longrightarrow> taskPhase (coord t) \<noteq> MapPhase"
  shows "grows mapf input n files s t"
  using assms by (simp add: grows_def written_cong[OF assms(1)] reduced_cong[OF assms(2)])

lemma written_mono: "written mapf input n s f k \<Longrightarrow> j \<le> k \<Longrightarrow> written mapf input n s f j"
  by (auto simp: written_def)

lemma worker_ok_grows:
  assumes "worker_ok mapf input n files s x" and "grows mapf input n files s t"
  shows "worker_ok mapf input n files t x"
  using assms by (auto simp: worker_ok_def grows_def split: Worker.splits)

text \<open>One step changes one worker; what is left to show is listed in the premises.\<close>

lemma mr_inv_step:
  assumes inv: "mr_inv mapf input n files s" and g: "grows mapf input n files s t"
    and w: "workers t = (workers s)(w := x)" and x: "worker_ok mapf input n files t x"
    and c: "coord_inv files n (coord t)" and d: "mapdir_ok mapf input n files t"
    and f: "\<And>f. f \<in> set files \<Longrightarrow> completed (filesStatus (coord t)) f \<Longrightarrow>
              completed (filesStatus (coord s)) f \<or> written mapf input n t f (nat n)"
    and r: "\<And>r. r < nat n \<Longrightarrow> completed (reduceTaskStatus (coord t)) (int r) \<Longrightarrow>
              completed (reduceTaskStatus (coord s)) (int r) \<or> reduced mapf input n files t r"
  shows "mr_inv mapf input n files t"
proof -
  have "worker_ok mapf input n files t (workers t v)" for v
    using inv worker_ok_grows[OF _ g] w x by (auto simp: mr_inv_def)
  moreover have "written mapf input n t f (nat n)"
    if "f \<in> set files" "completed (filesStatus (coord t)) f" for f
    using f[OF that] inv g that(1) by (auto simp: mr_inv_def grows_def)
  moreover have "reduced mapf input n files t r"
    if "r < nat n" "completed (reduceTaskStatus (coord t)) (int r)" for r
    using r[OF that] inv g that(1) by (auto simp: mr_inv_def grows_def)
  ultimately show ?thesis using c d by (simp add: mr_inv_def)
qed

lemma mr_inv_worker:
  assumes "mr_inv mapf input n files s" and "worker_ok mapf input n files s x"
  shows "mr_inv mapf input n files (set_worker w x s)"
proof -
  let ?t = "set_worker w x s"
  have same: "mapOuts ?t = mapOuts s" "redOuts ?t = redOuts s" "coord ?t = coord s"
    by (simp_all add: set_worker_def)
  have g: "grows mapf input n files s ?t" by (rule grows_same) (simp_all add: same)
  show ?thesis
  proof (rule mr_inv_step[OF assms(1) g])
    show "workers ?t = (workers s)(w := x)" by (simp add: set_worker_def)
    show "worker_ok mapf input n files ?t x" by (rule worker_ok_grows[OF assms(2) g])
  qed (use assms(1) in \<open>simp_all add: mr_inv_def same mapdir_cong[OF same(1)]\<close>)
qed

lemma mr_inv_coord:
  assumes inv: "mr_inv mapf input n files s" and c: "coord_inv files n c"
    and ph: "taskPhase (coord s) \<noteq> MapPhase \<Longrightarrow> taskPhase c \<noteq> MapPhase"
    and f: "\<And>f. f \<in> set files \<Longrightarrow> completed (filesStatus c) f \<Longrightarrow>
              completed (filesStatus (coord s)) f \<or> written mapf input n s f (nat n)"
    and r: "\<And>r. r < nat n \<Longrightarrow> completed (reduceTaskStatus c) (int r) \<Longrightarrow>
              completed (reduceTaskStatus (coord s)) (int r) \<or> reduced mapf input n files s r"
  shows "mr_inv mapf input n files (s\<lparr>coord := c\<rparr>)"
proof -
  let ?t = "s\<lparr>coord := c\<rparr>"
  have g: "grows mapf input n files s ?t" by (rule grows_same) (simp_all add: ph)
  have w: "written mapf input n ?t = written mapf input n s" by (rule written_cong) simp
  have e: "reduced mapf input n files ?t = reduced mapf input n files s" by (rule reduced_cong) simp
  have m: "mapdir_ok mapf input n files ?t = mapdir_ok mapf input n files s" by (rule mapdir_cong) simp
  have "worker_ok mapf input n files ?t (workers s 0)"
    using inv by (intro worker_ok_grows[OF _ g]) (simp add: mr_inv_def)
  then show ?thesis using inv c f r by (intro mr_inv_step[OF inv g, of 0 "workers s 0"]) (simp_all add: mr_inv_def w e m)
qed

lemma mr_inv_init: "mr_inv mapf input n files (MakeCoordinator files n)"
  using coord_inv_Init Init_not_completed
  by (simp add: mr_inv_def MakeCoordinator_def mapdir_ok_def worker_ok_def)

section \<open>The steps\<close>

lemma mr_inv_GetTask:
  assumes inv: "mr_inv mapf input n files s"
    and o1: "mset forder = mset (map fst (filesStatus (coord s)))"
    and o2: "mset rorder = mset (map fst (reduceTaskStatus (coord s)))"
    and q: "GetTask forder rorder now (coord s) = Some (c, reply)"
  shows "mr_inv mapf input n files (set_worker w (if ok then Worker_got reply else WExit) (s\<lparr>coord := c\<rparr>))"
proof -
  have ci: "coord_inv files n (coord s)" using inv by (simp add: mr_inv_def)
  note gi = GetTask_inv[OF ci o1 o2 q]
  have inv': "mr_inv mapf input n files (s\<lparr>coord := c\<rparr>)"
    by (rule mr_inv_coord[OF inv]) (use gi GetTask_phase[OF q] in simp_all)
  have "taskPhase c \<noteq> WaitPhase" using gi by (simp add: coord_inv_def)
  then have "worker_ok mapf input n files (s\<lparr>coord := c\<rparr>) (if ok then Worker_got reply else WExit)"
    using gi by (cases "rTaskPhase reply") (auto simp: worker_ok_def Worker_got_def)
  then show ?thesis by (rule mr_inv_worker[OF inv'])
qed

lemma mr_inv_Map:
  assumes inv: "mr_inv mapf input n files s" and n: "0 < n"
    and w: "workers s w = WTask t" "rTaskPhase t = MapPhase"
  shows "mr_inv mapf input n files (set_worker w (Worker_map mapf input t) s)"
proof -
  have t: "rNReduce t = n" "rFilename t \<in> set files"
    using inv w by (auto simp: mr_inv_def worker_ok_def dest!: spec[where x = w])
  have "worker_ok mapf input n files s (Worker_map mapf input t)"
    using t w(2) n
    by (auto simp: Worker_map_def worker_ok_def kvSplit_part wanted_def written_def split: option.splits)
  then show ?thesis by (rule mr_inv_worker[OF inv])
qed

lemma mr_inv_Write:
  assumes inv: "mr_inv mapf input n files s" and b: "inj_on Base (set files)"
    and w: "workers s w = WWrite t idx split"
    and q: "Worker_write ok t idx split (mapOuts s) = (x, dir)"
  shows "mr_inv mapf input n files (set_worker w x (s\<lparr>mapOuts := dir\<rparr>))"
proof -
  let ?f = "rFilename t"
  have t: "rTaskPhase t = MapPhase" "?f \<in> set files" "split = map (wanted mapf input n ?f) [0 ..< nat n]"
    "idx \<le> nat n" "written mapf input n s ?f idx"
    using inv w by (auto simp: mr_inv_def worker_ok_def dest!: spec[where x = w])
  show ?thesis
  proof (cases "idx < nat n \<and> ok")
    case False
    then have "dir = mapOuts s" and "worker_ok mapf input n files s x"
      using q t by (auto simp: Worker_write_def worker_ok_def split: if_split_asm dest: written_mono)
    then show ?thesis using mr_inv_worker[OF inv] by simp
  next
    case True
    let ?t = "s\<lparr>mapOuts := dir\<rparr>" let ?u = "set_worker w x ?t"
    have x: "x = WWrite t (idx + 1) split"
      and dir: "map_of dir = (map_of (mapOuts s))(mapOutName ?f idx \<mapsto> wanted mapf input n ?f idx)"
      and dd: "distinct (map fst (mapOuts s)) \<Longrightarrow> distinct (map fst dir)"
      using q t True by (auto simp: Worker_write_def writeMapOut_def AList.update_conv' intro: AList.distinct_update)
    have wr: "written mapf input n ?u f k" if "f \<in> set files" "written mapf input n s f k" for f k
      using that t(2) b unfolding written_def set_worker_def
      by (auto simp: dir mapOutName_inject inj_on_def)
    have g: "grows mapf input n files s ?u"
      using wr by (simp add: grows_def set_worker_def reduced_def)
    have "written mapf input n ?u ?f (idx + 1)"
      using wr[OF t(2,5)] unfolding written_def set_worker_def by (auto simp: dir less_Suc_eq)
    then have ok: "worker_ok mapf input n files ?u x" using t x True by (simp add: worker_ok_def)
    have "mapdir_ok mapf input n files s" using inv by (simp add: mr_inv_def)
    then have "mapdir_ok mapf input n files ?u"
      unfolding mapdir_ok_def set_worker_def using dd t(2) True by (auto simp: dir)
    then show ?thesis using inv
      by (intro mr_inv_step[OF inv g _ ok]) (simp_all add: set_worker_def mr_inv_def)
  qed
qed

lemma mr_inv_Read:
  assumes inv: "mr_inv mapf input n files s" and d: "distinct files" "inj_on Base (set files)"
    and w: "workers s w = WTask t" "rTaskPhase t = ReducePhase"
  shows "mr_inv mapf input n files
    (set_worker w (if ok then WReduce t (readKeyValueFromFile (rReduceTaskID t) (mapOuts s)) else WAsk) s)"
proof -
  obtain r where r: "rReduceTaskID t = int r" "r < nat n" and ph: "taskPhase (coord s) \<noteq> MapPhase"
    using inv w by (auto simp: mr_inv_def worker_ok_def dest!: spec[where x = w])
  have "\<forall>f \<in> set files. written mapf input n s f (nat n)"
    using inv ph by (auto simp: mr_inv_def coord_inv_def)
  moreover have "mapdir_ok mapf input n files s" using inv by (simp add: mr_inv_def)
  ultimately have "mset (readKeyValueFromFile (int r) (mapOuts s)) = mset (pairs mapf input n files r)"
    using read_pairs d r(2) by blast
  then have "worker_ok mapf input n files s
      (if ok then WReduce t (readKeyValueFromFile (rReduceTaskID t) (mapOuts s)) else WAsk)"
    using r w(2) by (auto simp: worker_ok_def)
  then show ?thesis by (rule mr_inv_worker[OF inv])
qed

lemma mr_inv_Reduce:
  assumes inv: "mr_inv mapf input n files s" and w: "workers s w = WReduce t kvs"
    and q: "Worker_reduce sorter reducef t kvs (redOuts s) = (x, outs)"
  shows "mr_inv mapf input n files (set_worker w x (s\<lparr>redOuts := outs\<rparr>))"
proof -
  obtain r where t: "rTaskPhase t = ReducePhase" "r < nat n" "rReduceTaskID t = int r"
    "mset kvs = mset (pairs mapf input n files r)"
    using inv w by (auto simp: mr_inv_def worker_ok_def dest!: spec[where x = w])
  let ?u = "set_worker w x (s\<lparr>redOuts := outs\<rparr>)"
  have x: "x = WReport \<lparr>aTaskPhase = ReducePhase, aFilename = [], aReduceTaskID = int r\<rparr>"
    and outs: "map_of outs = (map_of (redOuts s))(redOutName (int r) \<mapsto> reduce_loop reducef (sorter kvs))"
    using q t by (auto simp: Worker_reduce_def AList.update_conv')
  have new: "reduced mapf input n files ?u r"
    using t(4) by (auto simp: reduced_def set_worker_def outs)
  have "reduced mapf input n files ?u i" if "reduced mapf input n files s i" for i
    using that new by (cases "i = r") (auto simp: reduced_def set_worker_def outs redOutName_inject)
  then have g: "grows mapf input n files s ?u" by (simp add: grows_def set_worker_def written_def)
  have ok: "worker_ok mapf input n files ?u x" using new t x by (simp add: worker_ok_def)
  show ?thesis using inv
    by (intro mr_inv_step[OF inv g _ ok]) (simp_all add: set_worker_def mr_inv_def mapdir_ok_def)
qed

lemma mr_inv_Complete:
  assumes inv: "mr_inv mapf input n files s" and w: "workers s w = WReport a"
  shows "\<exists>c. TaskComplete a (coord s) = Some c \<and> mr_inv mapf input n files (s\<lparr>coord := c\<rparr>)"
proof -
  have ci: "coord_inv files n (coord s)" using inv by (simp add: mr_inv_def)
  have "worker_ok mapf input n files s (WReport a)" using inv w unfolding mr_inv_def by metis
  then consider
      (m) "aTaskPhase a = MapPhase" "aFilename a \<in> set files" "written mapf input n s (aFilename a) (nat n)"
    | (r) r where "aTaskPhase a = ReducePhase" "r < nat n" "aReduceTaskID a = int r" "reduced mapf input n files s r"
    by (auto simp: worker_ok_def)
  then show ?thesis
  proof cases
    case m
    obtain c where c: "TaskComplete a (coord s) = Some c" "coord_inv files n c" "taskPhase c = taskPhase (coord s)"
      "completed (filesStatus c) = (completed (filesStatus (coord s)))(aFilename a := True)"
      "reduceTaskStatus c = reduceTaskStatus (coord s)"
      using TaskComplete_map[OF ci m(1,2)] by blast
    have "mr_inv mapf input n files (s\<lparr>coord := c\<rparr>)"
      by (rule mr_inv_coord[OF inv c(2)]) (use c m(3) in \<open>auto split: if_split_asm\<close>)
    then show ?thesis using c(1) by blast
  next
    case (r r)
    have i: "aReduceTaskID a \<in> int ` {..<nat n}" using r(2,3) by simp
    obtain c where c: "TaskComplete a (coord s) = Some c" "coord_inv files n c" "taskPhase c = taskPhase (coord s)"
      "completed (reduceTaskStatus c) = (completed (reduceTaskStatus (coord s)))(aReduceTaskID a := True)"
      "filesStatus c = filesStatus (coord s)"
      using TaskComplete_reduce[OF ci r(1) i] by blast
    have "mr_inv mapf input n files (s\<lparr>coord := c\<rparr>)"
      by (rule mr_inv_coord[OF inv c(2)]) (use c r(3,4) in \<open>auto split: if_split_asm\<close>)
    then show ?thesis using c(1) by blast
  qed
qed

lemma mr_inv_exec:
  assumes inv: "mr_inv mapf input n files s" and h: "0 < n" "distinct files" "inj_on Base (set files)"
    and q: "mr_exec mapf reducef sorter input ev s = Some t"
  shows "mr_inv mapf input n files t"
proof (cases ev)
  case (EStart w)
  then show ?thesis using q mr_inv_worker[OF inv, of WAsk w] by (auto simp: worker_ok_def split: if_split_asm)
next
  case (ECrash w)
  then show ?thesis using q mr_inv_worker[OF inv, of WExit w] by (auto simp: worker_ok_def)
next
  case (EGetTask w forder rorder now ok)
  then obtain c reply where o: "mset forder = mset (map fst (filesStatus (coord s)))"
      "mset rorder = mset (map fst (reduceTaskStatus (coord s)))"
    and g: "GetTask forder rorder now (coord s) = Some (c, reply)"
    and t: "t = set_worker w (if ok then Worker_got reply else WExit) (s\<lparr>coord := c\<rparr>)"
    using q by (auto elim!: bindE split: if_split_asm)
  show ?thesis unfolding t by (rule mr_inv_GetTask[OF inv o g])
next
  case (EMap w)
  then show ?thesis using q mr_inv_Map[OF inv h(1)] by (auto split: Worker.splits if_split_asm)
next
  case (EWrite w ok)
  then show ?thesis using q mr_inv_Write[OF inv h(3)] by (auto split: Worker.splits prod.splits)
next
  case (ERead w ok)
  then obtain u where u: "workers s w = WTask u" "rTaskPhase u = ReducePhase"
    and t: "t = set_worker w (if ok then WReduce u (readKeyValueFromFile (rReduceTaskID u) (mapOuts s)) else WAsk) s"
    using q by (auto split: Worker.splits if_split_asm)
  show ?thesis unfolding t by (rule mr_inv_Read[OF inv h(2,3) u])
next
  case (EReduce w ok)
  then show ?thesis using q mr_inv_Reduce[OF inv] mr_inv_worker[OF inv, of WAsk w]
    by (auto simp: worker_ok_def split: Worker.splits prod.splits if_split_asm)
next
  case (EComplete w)
  then obtain a c where a: "workers s w = WReport a" "TaskComplete a (coord s) = Some c"
    and t: "t = set_worker w WAsk (s\<lparr>coord := c\<rparr>)"
    using q by (auto elim!: bindE split: Worker.splits)
  have "mr_inv mapf input n files (s\<lparr>coord := c\<rparr>)" using mr_inv_Complete[OF inv a(1)] a(2) by simp
  then show ?thesis unfolding t by (rule mr_inv_worker) (simp add: worker_ok_def)
next
  case (ELost w)
  then show ?thesis using q mr_inv_worker[OF inv, of WAsk w] mr_inv_worker[OF inv, of WExit w]
    by (auto simp: worker_ok_def split: Worker.splits)
qed

lemma mr_inv_reach:
  assumes "mr.reach files n mapf reducef sorter input s" and h: "0 < n" "distinct files" "inj_on Base (set files)"
  shows "mr_inv mapf input n files s"
  using assms(1)
proof (rule mr.reach_invariant)
  fix s assume "mr_init files n s"
  then show "mr_inv mapf input n files s" by (simp add: mr_init_def mr_inv_init)
next
  fix s t assume "mr_inv mapf input n files s" "mr_step mapf reducef sorter input s t"
  then show "mr_inv mapf input n files t" using mr_inv_exec h unfolding mr_step_def by blast
qed

section \<open>The output\<close>

lemma pairs_part: "pairs mapf input n files r = part n r (concat (map (\<lambda>f. mapf f (the (input f))) files))"
  by (induction files) (auto simp: pairs_def part_def wanted_def)

lemma seq_intermediate_all:
  assumes "\<forall>f \<in> set files. input f \<noteq> None"
  shows "seq_intermediate mapf input files = Some (concat (map (\<lambda>f. mapf f (the (input f))) files))"
  using assms by (induction files) auto

lemma job_output_lines:
  assumes inv: "mr_inv mapf input n files s" and d: "Done (coord s)" and n: "0 < n"
  shows "mset (job_output n s) = lines_of reducef (concat (map (\<lambda>f. mapf f (the (input f))) files))"
proof -
  let ?all = "concat (map (\<lambda>f. mapf f (the (input f))) files)"
  let ?out = "\<lambda>r. case map_of (redOuts s) (redOutName (int r)) of None \<Rightarrow> [] | Some ls \<Rightarrow> ls"
  have out: "mset (?out r) = lines_of reducef (part n r ?all)" if "r < nat n" for r
  proof -
    have "reduced mapf input n files s r" using inv d that by (auto simp: mr_inv_def coord_inv_def Done_def)
    then obtain kvs where kvs: "mset kvs = mset (pairs mapf input n files r)"
      and ls: "map_of (redOuts s) (redOutName (int r)) = Some (reduce_loop reducef (sorter kvs))"
      by (auto simp: reduced_def)
    show ?thesis using sorted_reduce_lines[OF kvs] ls by (simp add: pairs_part)
  qed
  have "mset (job_output n s) = (\<Sum>r<nat n. mset (?out r))"
    unfolding job_output_def by (simp add: mset_concat_sum lessThan_atLeast0)
  also have "\<dots> = (\<Sum>r<nat n. lines_of reducef (filter (\<lambda>x. nat (ihash (Key x) mod n) = r) ?all))"
    by (rule sum.cong) (simp_all add: out part_def)
  also have "\<dots> = lines_of reducef ?all"
    using n by (intro lines_of_split[symmetric]) simp
  finally show ?thesis .
qed

lemma job_correct:
  assumes "mr.reach files n mapf reducef sorter input s" and h: "0 < n" "distinct files" "inj_on Base (set files)"
    and "files \<noteq> []" and d: "Done (coord s)"
  shows "\<exists>out. mrsequential mapf reducef sorter input files = Some out \<and> mset (job_output n s) = mset out"
proof -
  note inv = mr_inv_reach[OF assms(1) h]
  have "\<forall>f \<in> set files. input f \<noteq> None"
    using inv d by (auto simp: mr_inv_def coord_inv_def Done_def written_def)
  then have "mrsequential mapf reducef sorter input files =
      Some (reduce_loop reducef (sorter (concat (map (\<lambda>f. mapf f (the (input f))) files))))"
    using assms(5) by (simp add: mrsequential_def seq_intermediate_all)
  then show ?thesis using job_output_lines[OF inv d h(1)] sorted_reduce_lines[OF refl] by simp
qed

end

section \<open>The applications\<close>

interpretation ByKey: key_sort ByKey_sort
  by unfold_locales (simp_all add: ByKey_sort_def)

interpretation wc: mr_app ByKey_sort wc_Reduce
proof unfold_locales
  fix vs ws :: "string list" and k
  assume "mset vs = mset ws"
  then have "length vs = length ws" by (rule mset_eq_length)
  then show "wc_Reduce k vs = wc_Reduce k ws" by (simp add: wc_Reduce_def)
qed

lemma sort_mset_eq: "mset vs = mset ws \<Longrightarrow> sort vs = sort (ws :: string list)"
  by (metis mset_sort properties_for_sort sorted_sort)

interpretation indexer: mr_app ByKey_sort indexer_Reduce
proof unfold_locales
  fix vs ws :: "string list" and k
  assume "mset vs = mset ws"
  from sort_mset_eq[OF this] show "indexer_Reduce k vs = indexer_Reduce k ws" unfolding indexer_Reduce_def by simp
qed

interpretation crash: mr_app ByKey_sort crash_Reduce
proof unfold_locales
  fix vs ws :: "string list" and k
  assume "mset vs = mset ws"
  from sort_mset_eq[OF this] show "crash_Reduce k vs = crash_Reduce k ws" by (simp add: crash_Reduce_def)
qed

text \<open>The words of the input files, and how often each occurs.\<close>

definition input_words :: "(string \<Rightarrow> string option) \<Rightarrow> string list \<Rightarrow> string list" where
  "input_words input files = concat (map (\<lambda>f. FieldsFunc (\<lambda>r. \<not> isLetter r) (the (input f))) files)"

lemma wc_pairs: "concat (map (\<lambda>f. wc_Map f (the (input f))) files) = map (\<lambda>w. \<lparr>Key = w, Val = ''1''\<rparr>) (input_words input files)"
  by (induction files) (simp_all add: input_words_def wc_Map_def)

lemma wc_lines:
  "lines_of wc_Reduce (map (\<lambda>w. \<lparr>Key = w, Val = ''1''\<rparr>) ws) =
     image_mset (\<lambda>w. out_line w (Itoa (int (count_list ws w)))) (mset_set (set ws))"
proof -
  have "length (vals_of k (map (\<lambda>w. \<lparr>Key = w, Val = ''1''\<rparr>) ws)) = count_list ws k" for k
    by (induction ws) (auto simp: vals_of_def)
  then show ?thesis by (simp add: lines_of_def wc_Reduce_def image_image)
qed

section \<open>A small job\<close>

fun mr_run :: "mapf \<Rightarrow> reducef \<Rightarrow> (string \<Rightarrow> string option) \<Rightarrow> mr_event list \<Rightarrow> mrsys \<Rightarrow> mrsys option" where
  "mr_run mapf reducef input [] s = Some s"
| "mr_run mapf reducef input (ev # evs) s =
     (case mr_exec mapf reducef ByKey_sort input ev s of
        None \<Rightarrow> None
      | Some t \<Rightarrow> mr_run mapf reducef input evs t)"

lemma mr_run_reach:
  assumes "mr_run mapf reducef input evs s = Some t" "mr.reach files n mapf reducef ByKey_sort input s"
  shows "mr.reach files n mapf reducef ByKey_sort input t"
  using assms
proof (induction evs arbitrary: s)
  case (Cons ev evs)
  then obtain u where u: "mr_exec mapf reducef ByKey_sort input ev s = Some u" "mr_run mapf reducef input evs u = Some t"
    by (auto split: option.splits)
  then have "mr_step mapf reducef ByKey_sort input s u" unfolding mr_step_def by blast
  then show ?case using Cons.IH[OF u(2)] Cons.prems(2) mr.reach_step by blast
qed simp

text \<open>Two files and two reduce tasks; worker 0 crashes in the middle of a map task, and worker 1 does
  it again after the ten seconds.\<close>

definition demo_input :: "string \<Rightarrow> string option" where
  "demo_input f = (if f = ''d/a'' then Some ''to be or not to be'' else if f = ''d/b'' then Some ''to do'' else None)"

definition demo_events :: "string \<Rightarrow> string \<Rightarrow> mr_event list" where
  "demo_events f g =
     [EStart 0, EGetTask 0 [f, g] [0, 1] 1 True, EMap 0, EWrite 0 True, ECrash 0,
      EStart 1, EGetTask 1 [f, g] [0, 1] 2 True, EMap 1, EWrite 1 True, EWrite 1 True, EWrite 1 True, EComplete 1,
      EGetTask 1 [f, g] [0, 1] 20000000000 True, EMap 1, EWrite 1 True, EWrite 1 True, EWrite 1 True, EComplete 1,
      EGetTask 1 [f, g] [0, 1] 20000000001 True, ERead 1 True, EReduce 1 True, EComplete 1,
      EGetTask 1 [f, g] [0, 1] 20000000002 True, ERead 1 True, EReduce 1 True, EComplete 1,
      EGetTask 1 [f, g] [0, 1] 20000000003 True]"

abbreviation demo_run :: "mrsys option" where
  "demo_run \<equiv> mr_run wc_Map wc_Reduce demo_input (demo_events ''d/a'' ''d/b'') (MakeCoordinator [''d/a'', ''d/b''] 2)"

lemma demo_done:
  "case demo_run of None \<Rightarrow> False | Some s \<Rightarrow> Done (coord s) \<and> length (job_output 2 s) = 5"
  by code_simp

lemma demo_reached:
  obtains s where "mr.reach [''d/a'', ''d/b''] 2 wc_Map wc_Reduce ByKey_sort demo_input s"
    "Done (coord s)" "length (job_output 2 s) = 5"
proof -
  obtain s where s: "demo_run = Some s" "Done (coord s)" "length (job_output 2 s) = 5"
    using demo_done by (cases demo_run) auto
  have "mr.reach [''d/a'', ''d/b''] 2 wc_Map wc_Reduce ByKey_sort demo_input (MakeCoordinator [''d/a'', ''d/b''] 2)"
    by (rule mr.reach_init) (simp add: mr_init_def)
  then show ?thesis using that mr_run_reach[OF s(1)] s(2,3) by blast
qed

lemma demo_bases: "inj_on Base (set [''d/a'', ''d/b''])"
  by (simp add: inj_on_def Base_def)

section \<open>Properties\<close>



text \<open>
  C24. The coordinator never panics: every \<open>GetTask\<close> returns, and every report a worker is about to
  make names a task the coordinator knows.  A reduce task is handed out only when all map tasks are
  completed, and the job is done only when all reduce tasks are.
\<close>

theorem coordinator_safe:
  assumes "mr.reach files n mapf reducef ByKey_sort input s" and "0 < n" "distinct files" "inj_on Base (set files)"
    and "\<And>k vs ws. mset vs = mset ws \<Longrightarrow> reducef k vs = reducef k ws"
  shows "GetTask forder rorder now (coord s) \<noteq> None
    \<and> (workers s w = WReport args \<longrightarrow> TaskComplete args (coord s) \<noteq> None)
    \<and> (taskPhase (coord s) \<noteq> MapPhase \<longrightarrow> (\<forall>f \<in> set files. completed (filesStatus (coord s)) f))
    \<and> (Done (coord s) \<longrightarrow> (\<forall>r < nat n. completed (reduceTaskStatus (coord s)) (int r)))"
proof -
  have app: "mr_app ByKey_sort reducef" using assms(5) by unfold_locales
  note inv = mr_app.mr_inv_reach[OF app assms(1-4)]
  have ci: "coord_inv files n (coord s)" using inv by (simp add: mr_app.mr_inv_def[OF app])
  have "TaskComplete args (coord s) \<noteq> None" if "workers s w = WReport args"
    using mr_app.mr_inv_Complete[OF app inv that] by auto
  then show ?thesis using GetTask_total ci by (auto simp: coord_inv_def Done_def)
qed

theorem coordinator_safe_witness:
  "\<exists>s. mr.reach [''d/a'', ''d/b''] 2 wc_Map wc_Reduce ByKey_sort demo_input s \<and> Done (coord s)
     \<and> completed (filesStatus (coord s)) ''d/a'' \<and> completed (filesStatus (coord s)) ''d/b''
     \<and> completed (reduceTaskStatus (coord s)) 0 \<and> completed (reduceTaskStatus (coord s)) 1"
proof -
  obtain s where s: "mr.reach [''d/a'', ''d/b''] 2 wc_Map wc_Reduce ByKey_sort demo_input s"
    "Done (coord s)" "length (job_output 2 s) = 5" by (rule demo_reached)
  have "taskPhase (coord s) \<noteq> MapPhase" using s(2) by (simp add: Done_def)
  moreover have "distinct [''d/a'', ''d/b'']" "(0::int) < 2" by simp_all
  note safe = coordinator_safe[OF s(1) this(2,1) demo_bases wc.reducef_mset]
  ultimately have "\<forall>f \<in> {''d/a'', ''d/b''}. completed (filesStatus (coord s)) f"
    "\<forall>r < nat 2. completed (reduceTaskStatus (coord s)) (int r)"
    using safe s(2) by simp_all
  then have "completed (filesStatus (coord s)) ''d/a'' \<and> completed (filesStatus (coord s)) ''d/b''"
    and r: "\<And>r. r < 2 \<Longrightarrow> completed (reduceTaskStatus (coord s)) (int r)" by simp_all
  then show ?thesis using r[of 0] r[of 1] s(1,2) by auto
qed



text \<open>
  Two input files with the same base name overwrite each other's intermediate files: there is a
  run that ends with the job done and an output that differs from the sequential program's.
\<close>

theorem base_name_clash:
  "\<exists>s out. mr.reach [''x/a'', ''y/a''] 2 wc_Map wc_Reduce ByKey_sort (\<lambda>f. if f = ''x/a'' then Some ''to'' else Some ''be'') s
     \<and> Done (coord s)
     \<and> mrsequential wc_Map wc_Reduce ByKey_sort (\<lambda>f. if f = ''x/a'' then Some ''to'' else Some ''be'') [''x/a'', ''y/a''] = Some out
     \<and> mset (job_output 2 s) \<noteq> mset out"
proof -
  let ?in = "\<lambda>f. if f = ''x/a'' then Some ''to'' else Some ''be''"
  let ?fs = "[''x/a'', ''y/a'']"
  let ?run = "mr_run wc_Map wc_Reduce ?in (demo_events ''x/a'' ''y/a'') (MakeCoordinator ?fs 2)"
  have "case ?run of None \<Rightarrow> False | Some s \<Rightarrow> Done (coord s) \<and> length (job_output 2 s) = 1" by code_simp
  then obtain s where s: "?run = Some s" "Done (coord s)" "length (job_output 2 s) = 1" by (cases ?run) auto
  have "case mrsequential wc_Map wc_Reduce ByKey_sort ?in ?fs of None \<Rightarrow> False | Some out \<Rightarrow> length out = 2" by code_simp
  then obtain out where out: "mrsequential wc_Map wc_Reduce ByKey_sort ?in ?fs = Some out" "length out = 2"
    by (cases "mrsequential wc_Map wc_Reduce ByKey_sort ?in ?fs") auto
  have "mr.reach ?fs 2 wc_Map wc_Reduce ByKey_sort ?in (MakeCoordinator ?fs 2)"
    by (rule mr.reach_init) (simp add: mr_init_def)
  then have "mr.reach ?fs 2 wc_Map wc_Reduce ByKey_sort ?in s" by (rule mr_run_reach[OF s(1)])
  moreover have "mset (job_output 2 s) \<noteq> mset out" using s(3) out(2) mset_eq_length by fastforce
  ultimately show ?thesis using s(2) out(1) by blast
qed

end
