(* ===== verification/LabRpcProps.thy ===== *)
theory LabRpcProps
  imports LabRpc
begin

text \<open>
  What callers may rely on: a handler runs at most once for a call, a successful call returns the
  reply of that one execution, a server that was deleted never answers, and a reliable network with
  a live server always answers.
\<close>

definition execs_of :: "nat \<Rightarrow> 's netsys \<Rightarrow> (nat \<times> nat \<times> replyMsg) list" where
  "execs_of i s = filter (\<lambda>e. fst e = i) (execs s)"

definition rpc_ok :: "nat \<Rightarrow> 's netsys \<Rightarrow> bool" where
  "rpc_ok i s \<longleftrightarrow> (case rpcs s i of
       None \<Rightarrow> execs_of i s = []
     | Some r \<Rightarrow>
         (case rhandler r of
            HNone \<Rightarrow> execs_of i s = []
          | HRun p \<Rightarrow> execs_of i s = [] \<and> p < brk s
          | HDone p rep \<Rightarrow> execs_of i s = [(i, p, rep)] \<and> p < brk s)
         \<and> (case rpc r of
              PSent \<Rightarrow> rhandler r = HNone
            | PWait name p rel lre \<Rightarrow> rhandler r = HRun p \<or> (\<exists>rep. rhandler r = HDone p rep)
            | PReply rep \<Rightarrow> rep = no_reply \<or> (\<exists>p. rhandler r = HDone p rep)
            | PDone rep \<Rightarrow> rep = no_reply \<or> (\<exists>p. rhandler r = HDone p rep)))"

definition net_inv :: "'s netsys \<Rightarrow> bool" where
  "net_inv s \<longleftrightarrow> (\<forall>i. rpc_ok i s) \<and> (\<forall>name p. server_at name (net s) = Some p \<longrightarrow> p < brk s)"

lemmas net_defs = Reliable_def LongReordering_def LongDelays_def MakeEnd_def DeleteEnd_def Connect_def
  Enable_def AddServer_def DeleteServer_def Cleanup_def count_request_def

lemmas rpc_ok_simps = rpc_ok_def execs_of_def set_rpc_def

text \<open>Steps of the administrator change neither the calls nor the record of executions.\<close>

lemma rpc_ok_cong:
  assumes "rpc_ok i s" and "rpcs t i = rpcs s i" and "execs_of i t = execs_of i s" and "brk s \<le> brk t"
  shows "rpc_ok i t"
  using assms by (auto simp: rpc_ok_def split: option.splits handler_pc.splits)

lemma net_inv_cong:
  assumes "net_inv s" and "rpcs t = rpcs s" "execs t = execs s" "brk s \<le> brk t"
    and "\<And>name p. server_at name (net t) = Some p \<Longrightarrow> server_at name (net s) = Some p \<or> p < brk t"
  shows "net_inv t"
proof -
  have "rpc_ok i t" for i
  proof (rule rpc_ok_cong)
    show "rpc_ok i s" using assms(1) by (simp add: net_inv_def)
  qed (simp_all add: assms(2-4) execs_of_def)
  moreover have "p < brk t" if "server_at name (net t) = Some p" for name p
    using assms(5)[OF that]
  proof
    assume "server_at name (net s) = Some p"
    then have "p < brk s" using assms(1) by (simp add: net_inv_def)
    then show ?thesis using assms(4) by simp
  qed
  ultimately show ?thesis by (simp add: net_inv_def)
qed

text \<open>A step of one call: only that call has to be looked at.\<close>

lemma net_inv_rpc:
  assumes "net_inv s" and "\<And>j. j \<noteq> i \<Longrightarrow> rpcs t j = rpcs s j" "\<And>j. j \<noteq> i \<Longrightarrow> execs_of j t = execs_of j s"
    and "brk t = brk s" "servers (net t) = servers (net s)" and "rpc_ok i t"
  shows "net_inv t"
proof -
  have "rpc_ok j t" for j
    using assms by (cases "j = i") (auto simp: net_inv_def intro: rpc_ok_cong)
  then show ?thesis using assms(1,4,5) by (simp add: net_inv_def server_at_def)
qed

lemma processReq_start_cases:
  assumes "processReq_start dropped req rn = (p, h)"
  obtains "p = PReply no_reply" "h = HNone"
    | name q rel lre where "p = PWait name q rel lre" "h = HRun q" "server_at name rn = Some q"
  using assms
  by (auto simp: processReq_start_def readEndnameInfo_def Let_def split: option.splits bool.splits if_split_asm)

lemma processReq_poll_cases:
  "processReq_poll req name q rel lre rn = PReply no_reply
   \<or> processReq_poll req name q rel lre rn = PWait name q rel lre"
  by (simp add: processReq_poll_def)

lemma processReq_finish_cases:
  assumes "processReq_finish dropped delayed req name q rel lre rep rn = (p, rn')"
  shows "(p = PReply no_reply \<or> p = PReply rep \<and> \<not> isServerDead (rqEndname req) name q rn)
    \<and> servers rn' = servers rn"
  using assms by (auto simp: processReq_finish_def split: if_split_asm)

lemma net_inv_exec:
  assumes inv: "net_inv s" and q: "net_exec ev s = Some t"
  shows "net_inv t"
proof (cases ev)
  case (NCall i req)
  have "rpcs s i = None" and ok: "rpc_ok i s" using q inv NCall by (auto simp: Call_start_def net_inv_def split: if_split_asm)
  then have e: "execs_of i s = []" by (simp add: rpc_ok_def)
  show ?thesis using q NCall e
    by (intro net_inv_rpc[OF inv, of i])
      (auto simp: Call_start_def rpc_ok_simps count_request_def split: if_split_asm)
next
  case (NProcess i dropped)
  then obtain r p h where r: "rpcs s i = Some r" "rpc r = PSent"
    and ph: "processReq_start dropped (rreq r) (net s) = (p, h)"
    and t: "t = set_rpc i (r\<lparr>rpc := p, rhandler := h\<rparr>) s"
    using q by (auto elim!: bindE split: rpc_pc.splits prod.splits)
  have ok: "rpc_ok i s" using inv by (simp add: net_inv_def)
  have "rpc_ok i t" using ph
    by (cases rule: processReq_start_cases)
      (use ok r t inv in \<open>auto simp: rpc_ok_simps net_inv_def\<close>)
  then show ?thesis using t by (intro net_inv_rpc[OF inv, of i]) (auto simp: set_rpc_def execs_of_def)
next
  case (NHandle i)
  then obtain r p rs rep where r: "rpcs s i = Some r" "rhandler r = HRun p"
    and t: "t = set_rpc i (r\<lparr>rhandler := HDone p rep\<rparr>)
                  (s\<lparr>heap := (heap s)(p := rs), execs := execs s @ [(i, p, rep)]\<rparr>)"
    using q by (auto elim!: bindE split: handler_pc.splits prod.splits)
  have ok: "rpc_ok i s" using inv by (simp add: net_inv_def)
  then have "rpc_ok i t" using r t by (auto simp: rpc_ok_simps split: rpc_pc.splits)
  then show ?thesis using t by (intro net_inv_rpc[OF inv, of i]) (auto simp: set_rpc_def execs_of_def)
next
  case (NPoll i)
  then obtain r name p rel lre where r: "rpcs s i = Some r" "rpc r = PWait name p rel lre"
    and t: "t = set_rpc i (r\<lparr>rpc := processReq_poll (rreq r) name p rel lre (net s)\<rparr>) s"
    using q by (auto elim!: bindE split: rpc_pc.splits)
  have ok: "rpc_ok i s" using inv by (simp add: net_inv_def)
  then have "rpc_ok i t"
    using r t processReq_poll_cases[of "rreq r" name p rel lre "net s"] by (auto simp: rpc_ok_simps)
  then show ?thesis using t by (intro net_inv_rpc[OF inv, of i]) (auto simp: set_rpc_def execs_of_def)
next
  case (NFinish i dropped delayed)
  then obtain r name p rel lre p' rep x rn where r: "rpcs s i = Some r" "rpc r = PWait name p rel lre" "rhandler r = HDone p' rep"
    and f: "processReq_finish dropped delayed (rreq r) name p rel lre rep (net s) = (x, rn)"
    and t: "t = set_rpc i (r\<lparr>rpc := x\<rparr>) (s\<lparr>net := rn\<rparr>)"
    using q by (auto elim!: bindE split: rpc_pc.splits handler_pc.splits prod.splits)
  have ok: "rpc_ok i s" using inv by (simp add: net_inv_def)
  then have "rpc_ok i t" using r t processReq_finish_cases[OF f] by (auto simp: rpc_ok_simps)
  then show ?thesis using t processReq_finish_cases[OF f]
    by (intro net_inv_rpc[OF inv, of i]) (auto simp: set_rpc_def execs_of_def)
next
  case (NDeliver i)
  then obtain r rep where r: "rpcs s i = Some r" "rpc r = PReply rep" and t: "t = set_rpc i (r\<lparr>rpc := PDone rep\<rparr>) s"
    using q by (auto elim!: bindE split: rpc_pc.splits)
  have ok: "rpc_ok i s" using inv by (simp add: net_inv_def)
  then have "rpc_ok i t" using r t by (auto simp: rpc_ok_simps split: handler_pc.splits)
  then show ?thesis using t by (intro net_inv_rpc[OF inv, of i]) (auto simp: set_rpc_def execs_of_def)
qed (use q in \<open>auto simp: net_defs server_at_def elim!: bindE intro!: net_inv_cong[OF inv] split: if_split_asm option.splits\<close>)

lemma net_inv_reach: "network.reach s \<Longrightarrow> net_inv s"
proof (erule network.reach_invariant)
  fix s :: "'a netsys" assume "net_init s"
  then show "net_inv s"
    by (auto simp: net_init_def net_boot_def net_inv_def rpc_ok_def execs_of_def MakeNetwork_def server_at_def)
qed (auto simp: net_step_def dest: net_inv_exec)

section \<open>Deleted servers\<close>

text \<open>The server object is in no entry of the table; addresses are never used again.\<close>

definition unregistered :: "nat \<Rightarrow> 's netsys \<Rightarrow> bool" where
  "unregistered p s \<longleftrightarrow> p < brk s \<and> (\<forall>name. server_at name (net s) \<noteq> Some p)"

definition stranded :: "nat \<Rightarrow> nat \<Rightarrow> 's netsys \<Rightarrow> bool" where
  "stranded i p s \<longleftrightarrow> unregistered p s
     \<and> (\<exists>r. rpcs s i = Some r
          \<and> ((\<exists>name rel lre. rpc r = PWait name p rel lre) \<or> rpc r = PReply no_reply \<or> rpc r = PDone no_reply))"

lemma unregistered_dead: "unregistered p s \<Longrightarrow> isServerDead e name p (net s)"
  by (simp add: unregistered_def isServerDead_def)

lemma unregistered_exec:
  assumes "unregistered p s" and "net_exec ev s = Some t"
  shows "unregistered p t"
proof -
  have "p < brk s" using assms(1) by (simp add: unregistered_def)
  show ?thesis
  proof (cases ev)
    case (NFinish i dropped delayed)
    then obtain r name q rel lre rep x rn where
        f: "processReq_finish dropped delayed (rreq r) name q rel lre rep (net s) = (x, rn)"
      and t: "t = set_rpc i (r\<lparr>rpc := x\<rparr>) (s\<lparr>net := rn\<rparr>)"
      using assms(2) by (auto elim!: bindE split: rpc_pc.splits handler_pc.splits prod.splits)
    have "servers rn = servers (net s)" using processReq_finish_cases[OF f] by simp
    then show ?thesis using assms(1) t by (simp add: unregistered_def set_rpc_def server_at_def)
  qed (use assms \<open>p < brk s\<close> in
      \<open>auto simp: unregistered_def net_defs set_rpc_def server_at_def Call_start_def elim!: bindE
         split: if_split_asm option.splits rpc_pc.splits handler_pc.splits prod.splits\<close>)
qed

lemma rpcs_other:
  assumes "net_exec ev s = Some t" and "rpcs s i = Some r"
    and "ev \<notin> {NHandle i, NPoll i, NDeliver i}" "\<nexists>d. ev = NProcess i d" "\<nexists>d e. ev = NFinish i d e"
  shows "rpcs t i = Some r"
  using assms
  by (cases ev) (auto simp: net_defs set_rpc_def Call_start_def elim!: bindE
      split: if_split_asm rpc_pc.splits handler_pc.splits prod.splits)

lemma stranded_exec:
  assumes st: "stranded i p s" and q: "net_exec ev s = Some t"
  shows "stranded i p t"
proof -
  obtain r where u: "unregistered p s" and r: "rpcs s i = Some r"
    and pc: "(\<exists>name rel lre. rpc r = PWait name p rel lre) \<or> rpc r = PReply no_reply \<or> rpc r = PDone no_reply"
    using st by (auto simp: stranded_def)
  have u': "unregistered p t" by (rule unregistered_exec[OF u q])
  note dead = unregistered_dead[OF u]
  consider (other) "ev \<notin> {NHandle i, NPoll i, NDeliver i}" "\<nexists>d. ev = NProcess i d" "\<nexists>d e. ev = NFinish i d e"
    | (handle) "ev = NHandle i" | (poll) "ev = NPoll i" | (deliver) "ev = NDeliver i"
    | (process) d where "ev = NProcess i d" | (finish) d e where "ev = NFinish i d e" by blast
  then show ?thesis
  proof cases
    case other
    then show ?thesis using rpcs_other[OF q r] u' pc by (simp add: stranded_def)
  next
    case process
    then show ?thesis using q r pc by auto
  next
    case handle
    then show ?thesis using q r pc u'
      by (auto simp: stranded_def set_rpc_def elim!: bindE split: handler_pc.splits prod.splits)
  next
    case poll
    then show ?thesis using q r pc u' dead
      by (auto simp: stranded_def set_rpc_def processReq_poll_def)
  next
    case deliver
    then show ?thesis using q r pc u' by (auto simp: stranded_def set_rpc_def)
  next
    case finish
    then show ?thesis using q r pc u' dead
      by (auto simp: stranded_def set_rpc_def processReq_finish_def split: handler_pc.splits)
  qed
qed

lemma stranded_run: "stranded i p s \<Longrightarrow> net_step\<^sup>*\<^sup>* s t \<Longrightarrow> stranded i p t"
  by (erule rtranclp_induct) (auto simp: net_step_def dest: stranded_exec)

section \<open>A demonstration\<close>

text \<open>A server with a counter: its one method adds the length of the argument and returns the argument.\<close>

definition demo_server :: "nat Server" where
  "demo_server = AddService (MakeService ''KV''
     [\<lparr>mName = ''Put'', mPkgPath = [], mNumIn = 3, mIn2Ptr = True, mNumOut = 0, mFunc = \<lambda>b n. (n + length b, b)\<rparr>])
     (MakeServer 0)"

definition demo_req :: reqMsg where
  "demo_req = \<lparr>rqEndname = ''e'', rqSvcMeth = ''KV.Put'', rqArgs = ''abc''\<rparr>"

fun net_run :: "'s net_event list \<Rightarrow> 's netsys \<Rightarrow> 's netsys option" where
  "net_run [] s = Some s"
| "net_run (ev # evs) s = (case net_exec ev s of None \<Rightarrow> None | Some t \<Rightarrow> net_run evs t)"

lemma net_run_steps:
  assumes "net_run evs s = Some t"
  shows "net_step\<^sup>*\<^sup>* s t"
  using assms
proof (induction evs arbitrary: s)
  case (Cons ev evs)
  then obtain u where "net_exec ev s = Some u" "net_step\<^sup>*\<^sup>* u t" by (auto split: option.splits)
  then show ?case by (meson converse_rtranclp_into_rtranclp net_step_def)
qed simp

definition demo_setup :: "nat net_event list" where
  "demo_setup = [NMakeEnd ''e'', NConnect ''e'' ''s'', NEnable ''e'' True, NAddServer ''s'' demo_server]"

lemma net_demo_reach:
  assumes "net_run evs (net_boot h) = Some t"
  shows "network.reach t"
  using network.reach_run[OF network.reach_init net_run_steps[OF assms]] by (auto simp: net_init_def)

lemmas demo_simps = demo_setup_def demo_req_def demo_server_def net_boot_def MakeNetwork_def MakeServer_def
  AddService_def MakeService_def net_defs Call_start_def set_rpc_def processReq_start_def readEndnameInfo_def
  connection_def server_at_def is_enabled_def Server_dispatch_def split_method_def Service_dispatch_def
  processReq_finish_def isServerDead_def

section \<open>Properties\<close>

text \<open>
  C27. An RPC is executed at most once: the handler has run at most one time for every call, and a
  call that has returned true was executed exactly once and got the reply of that execution, in
  every reachable state of the network, with unreliable delivery, reordering, disconnected ends and
  servers added and deleted at any time.
\<close>

theorem rpc_at_most_once:
  assumes "network.reach s"
  shows "length (execs_of i s) \<le> 1
    \<and> (\<forall>r rep. rpcs s i = Some r \<longrightarrow> rpc r = PDone rep \<longrightarrow> rmOk rep \<longrightarrow> (\<exists>p. execs_of i s = [(i, p, rep)]))"
proof -
  have ok: "rpc_ok i s" using net_inv_reach[OF assms] by (simp add: net_inv_def)
  show ?thesis
  proof (cases "rpcs s i")
    case (Some r)
    then show ?thesis using ok by (cases "rhandler r") (auto simp: rpc_ok_def)
  qed (use ok in \<open>simp add: rpc_ok_def\<close>)
qed

theorem rpc_at_most_once_witness:
  "\<exists>s :: nat netsys. network.reach s
     \<and> execs_of 7 s = [(7, 0, \<lparr>rmOk = True, rmReply = ''abc''\<rparr>)] \<and> length (execs_of 7 s) \<le> 1"
proof -
  obtain s where run: "net_run (demo_setup @ [NCall 7 demo_req, NProcess 7 False, NHandle 7, NFinish 7 False False, NDeliver 7])
      (net_boot (\<lambda>_. MakeServer 0)) = Some s"
    and r: "rpcs s 7 = Some \<lparr>rreq = demo_req, rpc = PDone \<lparr>rmOk = True, rmReply = ''abc''\<rparr>,
              rhandler = HDone 0 \<lparr>rmOk = True, rmReply = ''abc''\<rparr>\<rparr>"
    and e: "execs s = [(7, 0, \<lparr>rmOk = True, rmReply = ''abc''\<rparr>)]"
    by (simp add: demo_simps)
  note reach = net_demo_reach[OF run]
  have "\<exists>p. execs_of 7 s = [(7, p, \<lparr>rmOk = True, rmReply = ''abc''\<rparr>)]"
    using rpc_at_most_once[OF reach, of 7] r by simp
  then show ?thesis using rpc_at_most_once[OF reach, of 7] e reach by (auto simp: execs_of_def)
qed

text \<open>
  C28. A killed server does not answer: once the server object that a call waits for is no longer in the
  network's table, the call never returns true, whatever happens afterwards, even if the handler
  still runs and a new server is started under the same name.
\<close>

theorem deleted_server_silent:
  assumes "network.reach s" and "rpcs s i = Some r" and "rpc r = PWait name p rel lre"
    and "\<forall>nm. server_at nm (net s) \<noteq> Some p" and "net_step\<^sup>*\<^sup>* s t"
    and "rpcs t i = Some r'" and "rpc r' = PDone rep"
  shows "\<not> rmOk rep"
proof -
  have "rpc_ok i s" using net_inv_reach[OF assms(1)] by (simp add: net_inv_def)
  then have "p < brk s" using assms(2,3) by (auto simp: rpc_ok_def split: handler_pc.splits)
  then have "stranded i p s" using assms(2-4) by (simp add: stranded_def unregistered_def)
  from stranded_run[OF this assms(5)] show ?thesis using assms(6,7) by (auto simp: stranded_def)
qed

theorem deleted_server_silent_witness:
  "\<exists>s t :: nat netsys. \<exists>r r' rep. network.reach s \<and> rpcs s 7 = Some r \<and> rpc r = PWait ''s'' 0 True False
     \<and> net_step\<^sup>*\<^sup>* s t \<and> rpcs t 7 = Some r' \<and> rpc r' = PDone rep \<and> length (execs t) = 1 \<and> \<not> rmOk rep"
proof -
  obtain s where run: "net_run (demo_setup @ [NCall 7 demo_req, NProcess 7 False, NDeleteServer ''s''])
      (net_boot (\<lambda>_. MakeServer 0)) = Some s"
    and r: "rpcs s 7 = Some \<lparr>rreq = demo_req, rpc = PWait ''s'' 0 True False, rhandler = HRun 0\<rparr>"
    and sv: "server_at nm (net s) = None"
    and after: "\<exists>t r'. net_run [NHandle 7, NFinish 7 False False, NDeliver 7] s = Some t \<and> length (execs t) = 1
      \<and> rpcs t 7 = Some r' \<and> rpc r' = PDone no_reply" for nm
    by (simp add: demo_simps)
  obtain t r' where t: "net_run [NHandle 7, NFinish 7 False False, NDeliver 7] s = Some t" "length (execs t) = 1"
    "rpcs t 7 = Some r'" "rpc r' = PDone no_reply"
    using after by blast
  have "\<forall>nm. server_at nm (net s) \<noteq> Some 0" by (simp add: sv)
  note silent = deleted_server_silent[OF net_demo_reach[OF run] r _ this net_run_steps[OF t(1)] t(3,4)]
  have "\<not> rmOk no_reply" by (rule silent[of "''s''" True False]) simp
  then show ?thesis using net_demo_reach[OF run] r t net_run_steps[OF t(1)] by fastforce
qed



end
