(* ===== verification/Demux.thy ===== *)
theory Demux
  imports Prelude LabRpc "HOL-Library.AList" "HOL-Library.Word"
begin

text \<open>
  The transport that carries the tester's calls to a server daemon over a socket
  (\<^verbatim>\<open>tester1/demux\<close>): the framing of messages in a byte stream (\<open>transport.go\<close>), the table of
  outstanding calls (\<open>callmap.go\<close>), the client that matches replies with calls by a tag
  (\<open>dmxclnt.go\<close>) and the server that runs one goroutine per request (\<open>dmxsrv.go\<close>).

  The two directions of the socket are byte streams.  The goroutines are small state machines: a call
  is an element of the list \<open>callers\<close> with its program counter, a request at the server an element of
  \<open>handlers\<close>, and the two reader loops are fields of the connection.  An event is one atomic piece
  of one goroutine, between two operations on a mutex, a channel or the socket; it is a partial
  function on connections, \<open>None\<close> when that goroutine cannot take it.  Reads and writes of the socket
  may fail at any time; a write that fails may leave a part of its frame in the stream.
\<close>

section \<open>Frames\<close>

type_synonym Ttag = "32 word"

record msg =
  Tag :: Ttag
  Data :: bytes
  Ok :: bool

text \<open>
  \<^verbatim>\<open>labrpc.Marshall\<close> and \<open>Unmarshall\<close> hand a value to the gob package; the encodings of the two types
  that cross the socket are parameters, of which the code relies on the round trip.
\<close>

record codec =
  marshal :: "msg \<Rightarrow> bytes"
  unmarshal :: "bytes \<Rightarrow> msg"
  marshalInit :: "string \<Rightarrow> bytes"
  unmarshalInit :: "bytes \<Rightarrow> string"

definition codec_ok :: "codec \<Rightarrow> bool" where
  "codec_ok M \<longleftrightarrow> (\<forall>m. unmarshal M (marshal M m) = m) \<and> (\<forall>c. unmarshalInit M (marshalInit M c) = c)"

text \<open>\<^verbatim>\<open>binary.LittleEndian\<close> on a \<^verbatim>\<open>uint32\<close>.\<close>

fun put_bytes :: "nat \<Rightarrow> nat \<Rightarrow> bytes" where
  "put_bytes 0 n = []"
| "put_bytes (Suc k) n = char_of n # put_bytes k (n div 256)"

fun get_bytes :: "bytes \<Rightarrow> nat" where
  "get_bytes [] = 0"
| "get_bytes (c # cs) = of_char c + 256 * get_bytes cs"

definition PutUint32 :: "32 word \<Rightarrow> bytes" where
  "PutUint32 w = put_bytes 4 (unat w)"

definition GetUint32 :: "bytes \<Rightarrow> 32 word" where
  "GetUint32 b = of_nat (get_bytes b)"

text \<open>
  The bytes that \<open>WriteCall\<close> hands to the socket, and what \<open>ReadCall\<close> takes from it: \<open>None\<close> is a read
  that waits for more bytes.
\<close>

definition WriteCall :: "codec \<Rightarrow> Ttag \<Rightarrow> bytes \<Rightarrow> bool \<Rightarrow> bytes" where
  "WriteCall M tag d ok =
     (let b = marshal M \<lparr>Tag = tag, Data = d, Ok = ok\<rparr> in PutUint32 (of_nat (length b)) @ b)"

definition ReadCall :: "codec \<Rightarrow> bytes \<Rightarrow> (msg \<times> bytes) option" where
  "ReadCall M bs =
     (if length bs < 4 then None
      else let nbyte = unat (GetUint32 (take 4 bs)); r = drop 4 bs in
        if length r < nbyte then None
        else Some (unmarshal M (take nbyte r), drop nbyte r))"

section \<open>The table of outstanding calls\<close>

text \<open>A channel is the number of the call that waits on it.\<close>

record callMap =
  cmClosed :: bool
  calls :: "(Ttag \<times> nat) list"

definition newCallMap :: callMap where
  "newCallMap = \<lparr>cmClosed = False, calls = []\<rparr>"

definition cm_close :: "callMap \<Rightarrow> callMap" where
  "cm_close cm = cm\<lparr>cmClosed := True\<rparr>"

definition isClosed :: "callMap \<Rightarrow> bool" where
  "isClosed cm = cmClosed cm"

definition cm_put :: "Ttag \<Rightarrow> nat \<Rightarrow> callMap \<Rightarrow> callMap option" where
  "cm_put tag ch cm = (if cmClosed cm then None else Some (cm\<lparr>calls := AList.update tag ch (calls cm)\<rparr>))"

definition cm_remove :: "Ttag \<Rightarrow> callMap \<Rightarrow> (nat \<times> callMap) option" where
  "cm_remove tag cm =
     (case map_of (calls cm) tag of
        Some ch \<Rightarrow> Some (ch, cm\<lparr>calls := AList.delete tag (calls cm)\<rparr>)
      | None \<Rightarrow> None)"

text \<open>The tags in the order in which the range over the map gives them: any order.\<close>

definition outstanding :: "Ttag list \<Rightarrow> callMap \<Rightarrow> bool" where
  "outstanding ts cm \<longleftrightarrow> mset ts = mset (map fst (calls cm))"

section \<open>The goroutines\<close>

record reply =
  rep :: bytes
  rok :: bool
  rerr :: "string option"

text \<open>
  Where a \<open>SendReceive\<close> is: it has its tag; its channel is in the table; the request is written, or
  the write failed, and it waits on the channel; it has returned.
\<close>

datatype call_pc = CTagged | CRegistered | CWaiting | CReturned reply

record call =
  creq :: bytes
  ctag :: Ttag
  cpc :: call_pc

text \<open>
  The client's reader: in \<open>ReadCall\<close>; sending a reply on the channel of a call, with what follows it
  (the loop again, or the rest of the outstanding tags); after the table was closed; failing the
  outstanding calls (it has returned when none is left); in \<^verbatim>\<open>log.Fatalf\<close>.
\<close>

datatype creader_pc =
    RReading
  | RDeliver nat reply "Ttag list option"
  | RClosing
  | RDraining "Ttag list"
  | RFatal

text \<open>The goroutine of a request at the server, and the server's reader.\<close>

datatype hpc = HServing | HReplying bytes bool | HWritten bytes bool

record handler =
  htag :: Ttag
  hreq :: bytes
  hpc :: hpc

datatype sreader_pc = SNew | SReading | SStopped | SFatal

text \<open>
  A connection: the client, the two streams with the sticky error of each \<^verbatim>\<open>bufio.Writer\<close>, and the
  server with the state of its \<open>ServerI\<close>.  \<open>served\<close> is the order in which the handlers ran.
\<close>

record 'st conn =
  callmap :: callMap
  nextTag :: Ttag
  clntEnd :: string
  callers :: "call list"
  creader :: creader_pc
  c2s :: bytes
  cbroken :: bool
  s2c :: bytes
  sbroken :: bool
  sreader :: sreader_pc
  sclosed :: bool
  peer :: string
  handlers :: "handler list"
  srvstate :: 'st
  served :: "nat list"

section \<open>The client\<close>

definition NewDemuxClnt :: "codec \<Rightarrow> string \<Rightarrow> 'st \<Rightarrow> 'st conn" where
  "NewDemuxClnt M clnt st =
     \<lparr>callmap = newCallMap, nextTag = 1, clntEnd = clnt, callers = [], creader = RReading,
      c2s = WriteCall M 0 (marshalInit M clnt) True, cbroken = False, s2c = [], sbroken = False,
      sreader = SNew, sclosed = False, peer = [], handlers = [], srvstate = st, served = []\<rparr>"

definition set_caller :: "nat \<Rightarrow> call_pc \<Rightarrow> 'st conn \<Rightarrow> 'st conn" where
  "set_caller k p s = s\<lparr>callers := (callers s)[k := (callers s ! k)\<lparr>cpc := p\<rparr>]\<rparr>"

text \<open>\<open>SendReceive\<close>, in four pieces: the tag, the entry in the table, the write, the reply.\<close>

definition SendReceive_tag :: "bytes \<Rightarrow> 'st conn \<Rightarrow> 'st conn" where
  "SendReceive_tag b s =
     s\<lparr>nextTag := nextTag s + 1,
       callers := callers s @ [\<lparr>creq = b, ctag = nextTag s, cpc = CTagged\<rparr>]\<rparr>"

definition SendReceive_put :: "nat \<Rightarrow> 'st conn \<Rightarrow> 'st conn" where
  "SendReceive_put k s =
     (case cm_put (ctag (callers s ! k)) k (callmap s) of
        None \<Rightarrow> set_caller k (CReturned \<lparr>rep = [], rok = False, rerr = Some ''conn closed''\<rparr>) s
      | Some cm \<Rightarrow> set_caller k CRegistered (s\<lparr>callmap := cm\<rparr>))"

text \<open>
  The bytes of a write that reach the stream: all of them, or the first \<open>n\<close> when the write fails
  there; after a failed write no more bytes are accepted.
\<close>

definition stream_write :: "nat option \<Rightarrow> bytes \<Rightarrow> bytes \<times> bool \<Rightarrow> (bytes \<times> bool) option" where
  "stream_write fault frame w =
     (case (w, fault) of
        ((bs, broken), None) \<Rightarrow> if broken then None else Some (bs @ frame, False)
      | ((bs, broken), Some n) \<Rightarrow>
          if broken then Some (bs, True)
          else if n < length frame then Some (bs @ take n frame, True) else None)"

definition SendReceive_write :: "codec \<Rightarrow> nat \<Rightarrow> nat option \<Rightarrow> 'st conn \<Rightarrow> 'st conn option" where
  "SendReceive_write M k fault s = do {
     (bs, broken) \<leftarrow> stream_write fault (WriteCall M (ctag (callers s ! k)) (creq (callers s ! k)) True)
                       (c2s s, cbroken s);
     Some (set_caller k CWaiting (s\<lparr>c2s := bs, cbroken := broken\<rparr>))
   }"

text \<open>\<open>DemuxClnt.reply\<close>, up to the send on the channel.\<close>

definition dmx_reply :: "Ttag \<Rightarrow> reply \<Rightarrow> Ttag list option \<Rightarrow> 'st conn \<Rightarrow> 'st conn" where
  "dmx_reply t r after s =
     (case cm_remove t (callmap s) of
        Some (k, cm) \<Rightarrow> s\<lparr>callmap := cm, creader := RDeliver k r after\<rparr>
      | None \<Rightarrow> s\<lparr>creader := RFatal\<rparr>)"

definition reader_read :: "codec \<Rightarrow> 'st conn \<Rightarrow> 'st conn option" where
  "reader_read M s = do {
     (m, bs) \<leftarrow> ReadCall M (s2c s);
     Some (dmx_reply (Tag m) \<lparr>rep = Data m, rok = Ok m, rerr = None\<rparr> None (s\<lparr>s2c := bs\<rparr>))
   }"

definition fail_reply :: reply where
  "fail_reply = \<lparr>rep = [], rok = False, rerr = Some ''reader reply fail''\<rparr>"

definition Close :: "'st conn \<Rightarrow> 'st conn" where
  "Close s = (if isClosed (callmap s) then s else s\<lparr>callmap := cm_close (callmap s)\<rparr>)"

section \<open>The server\<close>

definition NewDemuxSrv :: "codec \<Rightarrow> 'st conn \<Rightarrow> 'st conn option" where
  "NewDemuxSrv M s = do {
     (m, bs) \<leftarrow> ReadCall M (c2s s);
     Some (s\<lparr>c2s := bs, peer := unmarshalInit M (Data m), sreader := SReading\<rparr>)
   }"

definition setClosed :: "'st conn \<Rightarrow> 'st conn" where
  "setClosed s = s\<lparr>sclosed := True\<rparr>"

definition set_handler :: "nat \<Rightarrow> hpc \<Rightarrow> 'st conn \<Rightarrow> 'st conn" where
  "set_handler j p s = s\<lparr>handlers := (handlers s)[j := (handlers s ! j)\<lparr>hpc := p\<rparr>]\<rparr>"

definition srv_read :: "codec \<Rightarrow> 'st conn \<Rightarrow> 'st conn option" where
  "srv_read M s = do {
     (m, bs) \<leftarrow> ReadCall M (c2s s);
     Some (s\<lparr>c2s := bs, handlers := handlers s @ [\<lparr>htag = Tag m, hreq = Data m, hpc = HServing\<rparr>]\<rparr>)
   }"

definition srv_read_err :: "bool \<Rightarrow> 'st conn \<Rightarrow> 'st conn" where
  "srv_read_err eof s = (if eof then setClosed s else s)\<lparr>sreader := SStopped\<rparr>"

type_synonym 'st serve = "string \<Rightarrow> bytes \<Rightarrow> 'st \<Rightarrow> ('st \<times> bytes \<times> bool) option"

text \<open>The goroutine of a request: \<open>ServeRequest\<close>, then the write of the reply.\<close>

definition srv_serve :: "'st serve \<Rightarrow> nat \<Rightarrow> 'st conn \<Rightarrow> 'st conn option" where
  "srv_serve ServeRequest j s = do {
     (st, b, ok) \<leftarrow> ServeRequest (peer s) (hreq (handlers s ! j)) (srvstate s);
     Some (set_handler j (HReplying b ok) (s\<lparr>srvstate := st, served := served s @ [j]\<rparr>))
   }"

definition srv_write :: "codec \<Rightarrow> nat \<Rightarrow> bytes \<Rightarrow> bool \<Rightarrow> nat option \<Rightarrow> 'st conn \<Rightarrow> 'st conn option" where
  "srv_write M j b ok fault s = do {
     (bs, broken) \<leftarrow> stream_write fault (WriteCall M (htag (handlers s ! j)) b ok) (s2c s, sbroken s);
     Some (set_handler j (HWritten b ok) (s\<lparr>s2c := bs, sbroken := broken\<rparr>))
   }"

section \<open>The connection as a transition system\<close>

datatype conn_event =
    ECall bytes
  | EPut nat
  | EWrite nat "nat option"
  | ERead
  | EReadErr
  | EOutstanding "Ttag list"
  | EDrain
  | EDeliver
  | EClose
  | SInit
  | SInitErr
  | SRead
  | SReadErr bool
  | SServe nat
  | SWrite nat "nat option"
  | SClose

definition caller_at :: "'st conn \<Rightarrow> nat \<Rightarrow> call_pc \<Rightarrow> bool" where
  "caller_at s k p \<longleftrightarrow> k < length (callers s) \<and> cpc (callers s ! k) = p"

fun conn_exec :: "codec \<Rightarrow> 'st serve \<Rightarrow> conn_event \<Rightarrow> 'st conn \<Rightarrow> 'st conn option" where
  "conn_exec M S (ECall b) s = Some (SendReceive_tag b s)"
| "conn_exec M S (EPut k) s = (if caller_at s k CTagged then Some (SendReceive_put k s) else None)"
| "conn_exec M S (EWrite k fault) s =
     (if caller_at s k CRegistered then SendReceive_write M k fault s else None)"
| "conn_exec M S ERead s = (if creader s = RReading then reader_read M s else None)"
| "conn_exec M S EReadErr s =
     (if creader s = RReading then Some (s\<lparr>callmap := cm_close (callmap s), creader := RClosing\<rparr>) else None)"
| "conn_exec M S (EOutstanding ts) s =
     (if creader s = RClosing \<and> outstanding ts (callmap s) then Some (s\<lparr>creader := RDraining ts\<rparr>) else None)"
| "conn_exec M S EDrain s =
     (case creader s of
        RDraining (t # ts) \<Rightarrow> Some (dmx_reply t fail_reply (Some ts) s)
      | _ \<Rightarrow> None)"
| "conn_exec M S EDeliver s =
     (case creader s of
        RDeliver k r after \<Rightarrow>
          if caller_at s k CWaiting
          then Some (set_caller k (CReturned r)
                       (s\<lparr>creader := (case after of None \<Rightarrow> RReading | Some ts \<Rightarrow> RDraining ts)\<rparr>))
          else None
      | _ \<Rightarrow> None)"
| "conn_exec M S EClose s = Some (Close s)"
| "conn_exec M S SInit s = (if sreader s = SNew then NewDemuxSrv M s else None)"
| "conn_exec M S SInitErr s = (if sreader s = SNew then Some (s\<lparr>sreader := SFatal\<rparr>) else None)"
| "conn_exec M S SRead s = (if sreader s = SReading then srv_read M s else None)"
| "conn_exec M S (SReadErr eof) s = (if sreader s = SReading then Some (srv_read_err eof s) else None)"
| "conn_exec M S (SServe j) s =
     (if j < length (handlers s) \<and> hpc (handlers s ! j) = HServing then srv_serve S j s else None)"
| "conn_exec M S (SWrite j fault) s =
     (if j < length (handlers s)
      then (case hpc (handlers s ! j) of HReplying b ok \<Rightarrow> srv_write M j b ok fault s | _ \<Rightarrow> None)
      else None)"
| "conn_exec M S SClose s = Some (setClosed s)"

fun conn_run :: "codec \<Rightarrow> 'st serve \<Rightarrow> conn_event list \<Rightarrow> 'st conn \<Rightarrow> 'st conn option" where
  "conn_run M S [] s = Some s"
| "conn_run M S (e # es) s = do { t \<leftarrow> conn_exec M S e s; conn_run M S es t }"

definition conn_init :: "codec \<Rightarrow> 'st \<Rightarrow> 'st conn \<Rightarrow> bool" where
  "conn_init M st s \<longleftrightarrow> (\<exists>clnt. s = NewDemuxClnt M clnt st)"

definition conn_step :: "codec \<Rightarrow> 'st serve \<Rightarrow> 'st conn \<Rightarrow> 'st conn \<Rightarrow> bool" where
  "conn_step M S s t \<longleftrightarrow> (\<exists>e. conn_exec M S e s = Some t)"

interpretation conn: transition_system "conn_init M st" "conn_step M S" for M S st
  by unfold_locales (auto simp: conn_init_def)

end
