(* ===== verification/DemuxProps.thy ===== *)
theory DemuxProps
  imports Demux
begin

text \<open>
  What the socket transport promises: the frames of a stream are read back one by one, whole or not
  at all (\<open>carries\<close>); the reply of a call is the one its own request got, however the calls, the
  goroutines of the server and the faults of the socket interleave (\<open>matched\<close>); and a broken
  connection leaves no call waiting.
\<close>

section \<open>Frames\<close>

lemma length_put_bytes [simp]: "length (put_bytes k n) = k"
  by (induction k n rule: put_bytes.induct) auto

lemma get_put_bytes: "get_bytes (put_bytes k n) = n mod 256 ^ k"
proof (induction k n rule: put_bytes.induct)
  case (2 k n)
  have "n mod (256 * 256 ^ k) = 256 * (n div 256 mod 256 ^ k) + n mod 256"
    by (rule mod_mult2_eq)
  with 2 show ?case by simp
qed simp

lemma GetUint32_PutUint32 [simp]: "GetUint32 (PutUint32 w) = w"
proof -
  have "unat w < 2 ^ 32" using unsigned_less[of w] by simp
  then show ?thesis by (simp add: GetUint32_def PutUint32_def get_put_bytes)
qed

lemma length_PutUint32 [simp]: "length (PutUint32 w) = 4"
  by (simp add: PutUint32_def)

definition frame :: "codec \<Rightarrow> msg \<Rightarrow> bytes" where
  "frame M m = WriteCall M (Tag m) (Data m) (Ok m)"

text \<open>The length of a message goes into its frame as a \<^verbatim>\<open>uint32\<close>.\<close>

definition fits :: "codec \<Rightarrow> msg \<Rightarrow> bool" where
  "fits M m \<longleftrightarrow> length (marshal M m) < 2 ^ 32"

lemma frame_eq: "frame M m = PutUint32 (of_nat (length (marshal M m))) @ marshal M m"
  by (cases m) (simp add: frame_def WriteCall_def Let_def)

lemma length_frame: "length (frame M m) = 4 + length (marshal M m)"
  by (simp add: frame_eq)

lemma frame_header: "fits M m \<Longrightarrow> unat (GetUint32 (take 4 (frame M m))) = length (marshal M m)"
  by (simp add: frame_eq fits_def unat_of_nat)

lemma ReadCall_frame:
  assumes "codec_ok M" and "fits M m"
  shows "ReadCall M (frame M m @ bs) = Some (m, bs)"
  using assms frame_header[OF assms(2)] unfolding ReadCall_def
  by (simp add: frame_eq Let_def codec_ok_def)

lemma ReadCall_partial:
  assumes "fits M m" and "n < length (frame M m)"
  shows "ReadCall M (take n (frame M m)) = None"
proof (cases "n < 4")
  case False
  then have "take 4 (take n (frame M m)) = take 4 (frame M m)" by (simp add: min_def)
  with False assms frame_header[OF assms(1)] show ?thesis
    by (simp add: ReadCall_def Let_def length_frame)
qed (simp add: ReadCall_def assms)

lemma ReadCall_Nil [simp]: "ReadCall M [] = None"
  by (simp add: ReadCall_def)

text \<open>
  A stream carries the messages whose frames are complete in it; a broken one may end in a part of
  a frame.
\<close>

definition frames :: "codec \<Rightarrow> msg list \<Rightarrow> bytes" where
  "frames M ms = concat (map (frame M) ms)"

lemma frames_simps [simp]:
  "frames M [] = []" "frames M (m # ms) = frame M m @ frames M ms"
  "frames M (ms @ ns) = frames M ms @ frames M ns"
  by (simp_all add: frames_def)

definition carries :: "codec \<Rightarrow> bytes \<times> bool \<Rightarrow> msg list \<Rightarrow> bool" where
  "carries M w ms \<longleftrightarrow> (\<forall>m \<in> set ms. fits M m) \<and>
     (\<exists>m n. fits M m \<and> n < length (frame M m) \<and> fst w = frames M ms @ take n (frame M m)
        \<and> (snd w \<or> n = 0))"

lemma carries_empty:
  assumes "fits M m" and "list_all (fits M) ms"
  shows "carries M (frames M ms, False) ms"
  using assms unfolding carries_def list_all_iff
  by (auto intro!: exI[of _ m] exI[of _ 0] simp: length_frame)

lemma carries_read:
  assumes "codec_ok M" and "carries M (bs, broken) ms" and "ReadCall M bs = Some (m, bs')"
  obtains ms' where "ms = m # ms'" and "carries M (bs', broken) ms'"
proof (cases ms)
  case Nil
  with assms(2) ReadCall_partial have "ReadCall M bs = None" by (auto simp: carries_def)
  with assms(3) show ?thesis by simp
next
  case (Cons m1 ms1)
  with assms(2) obtain ma n where tail: "fits M m1" "fits M ma" "n < length (frame M ma)"
      "bs = frame M m1 @ frames M ms1 @ take n (frame M ma)" "broken \<or> n = 0" "\<forall>m \<in> set ms1. fits M m"
    by (auto simp: carries_def)
  with ReadCall_frame[OF assms(1)] assms(3) have "m = m1" "bs' = frames M ms1 @ take n (frame M ma)"
    by auto
  with tail Cons that show ?thesis unfolding carries_def by auto
qed

lemma carries_write:
  assumes "carries M (bs, broken) ms" and "fits M m"
    and "stream_write fault (frame M m) (bs, broken) = Some (bs', broken')"
  shows "carries M (bs', broken') (case fault of None \<Rightarrow> ms @ [m] | Some n \<Rightarrow> ms)"
proof (cases "broken \<or> fault = None")
  case True
  with assms show ?thesis
    by (auto simp: stream_write_def carries_def length_frame split: if_splits option.splits)
next
  case False
  with assms obtain n where "fault = Some n" "n < length (frame M m)" "bs' = bs @ take n (frame M m)"
      "broken'" "\<not> broken"
    by (auto simp: stream_write_def split: if_splits)
  with assms(1,2) show ?thesis by (auto simp: carries_def)
qed


text \<open>Reading a stream to its end: the loop of both readers, with the messages as its result.\<close>

fun read_all :: "codec \<Rightarrow> nat \<Rightarrow> bytes \<Rightarrow> msg list \<times> bytes" where
  "read_all M 0 bs = ([], bs)"
| "read_all M (Suc n) bs =
     (case ReadCall M bs of
        None \<Rightarrow> ([], bs)
      | Some (m, bs') \<Rightarrow> (case read_all M n bs' of (ms, r) \<Rightarrow> (m # ms, r)))"

lemma read_all_frames:
  assumes "codec_ok M" and "fits M m" and "n < length (frame M m)"
  shows "list_all (fits M) ms \<Longrightarrow> length ms \<le> k
    \<Longrightarrow> read_all M k (frames M ms @ take n (frame M m)) = (ms, take n (frame M m))"
proof (induction ms arbitrary: k)
  case Nil
  then show ?case using ReadCall_partial[OF assms(2,3)] by (cases k) auto
next
  case (Cons m1 ms)
  then obtain k' where "k = Suc k'" by (cases k) auto
  with Cons ReadCall_frame[OF assms(1)] show ?case by auto
qed

lemma length_frames: "length ms \<le> length (frames M ms)"
  by (induction ms) (auto simp: length_frame)

text \<open>
  C40. The frames of a stream are read back: the messages that were written come out one after the
  other, each whole and in order, and the part of a frame that follows them yields nothing until it is
  complete.
\<close>

theorem frames_roundtrip:
  assumes "codec_ok M" and "list_all (fits M) ms" and "fits M m" and "n < length (frame M m)"
    and "bs = concat (map (\<lambda>m. WriteCall M (Tag m) (Data m) (Ok m)) ms) @ take n (WriteCall M (Tag m) (Data m) (Ok m))"
  shows "read_all M (length bs) bs = (ms, take n (WriteCall M (Tag m) (Data m) (Ok m)))"
proof -
  have bs: "bs = frames M ms @ take n (frame M m)" using assms(5) by (simp add: frames_def frame_def [abs_def])
  have "length ms \<le> length bs" using length_frames[of ms M] by (simp add: bs)
  then show ?thesis using read_all_frames[OF assms(1,3,4,2)] by (simp add: bs frame_def)
qed

text \<open>An encoding that the two hypotheses admit.\<close>

definition plain_codec :: codec where
  "plain_codec = \<lparr>
     marshal = (\<lambda>m. PutUint32 (Tag m) @ (if Ok m then CHR ''1'' else CHR ''0'') # Data m),
     unmarshal = (\<lambda>b. \<lparr>Tag = GetUint32 (take 4 b), Data = drop 5 b, Ok = (b ! 4 = CHR ''1'')\<rparr>),
     marshalInit = (\<lambda>c. c), unmarshalInit = (\<lambda>b. b)\<rparr>"

lemma plain_codec_ok: "codec_ok plain_codec"
  by (simp add: codec_ok_def plain_codec_def nth_append)

theorem frames_roundtrip_witness:
  "read_all plain_codec (length (WriteCall plain_codec 7 ''hi'' True @ WriteCall plain_codec 8 ''x'' False @ take 6 (WriteCall plain_codec 9 ''yz'' True)))
     (WriteCall plain_codec 7 ''hi'' True @ WriteCall plain_codec 8 ''x'' False @ take 6 (WriteCall plain_codec 9 ''yz'' True))
   = ([\<lparr>Tag = 7, Data = ''hi'', Ok = True\<rparr>, \<lparr>Tag = 8, Data = ''x'', Ok = False\<rparr>], take 6 (WriteCall plain_codec 9 ''yz'' True))"
  using frames_roundtrip[OF plain_codec_ok, of "[\<lparr>Tag = 7, Data = ''hi'', Ok = True\<rparr>, \<lparr>Tag = 8, Data = ''x'', Ok = False\<rparr>]"
      "\<lparr>Tag = 9, Data = ''yz'', Ok = True\<rparr>" 6 _, OF _ _ _ refl]
  by (simp add: fits_def length_frame plain_codec_def)

section \<open>Calls and replies\<close>

text \<open>
  The invariant of a connection, in parts; each names the pieces of the connection it is about.
  \<open>qs\<close> are the requests in the stream to the server and \<open>rs\<close> the replies in the stream back.
\<close>

definition sent :: "call_pc \<Rightarrow> bool" where
  "sent p \<longleftrightarrow> p \<noteq> CTagged \<and> p \<noteq> CRegistered"

definition registered :: "call_pc \<Rightarrow> bool" where
  "registered p \<longleftrightarrow> p = CRegistered \<or> p = CWaiting"

definition written :: "hpc \<Rightarrow> bool" where
  "written p \<longleftrightarrow> (\<exists>b ok. p = HWritten b ok)"

lemmas pc_simps = sent_def registered_def written_def

text \<open>A request that was written by a call, and a reply that was written by the handler of a tag.\<close>

definition posted :: "call list \<Rightarrow> Ttag \<Rightarrow> bytes \<Rightarrow> bool" where
  "posted cs t b \<longleftrightarrow> (\<exists>c \<in> set cs. ctag c = t \<and> creq c = b \<and> sent (cpc c))"

definition answered :: "handler list \<Rightarrow> Ttag \<Rightarrow> reply \<Rightarrow> bool" where
  "answered hs t r \<longleftrightarrow> rerr r = None \<and> (\<exists>h \<in> set hs. htag h = t \<and> hpc h = HWritten (rep r) (rok r))"

definition streams_ok :: "call list \<Rightarrow> handler list \<Rightarrow> msg list \<Rightarrow> msg list \<Rightarrow> bool" where
  "streams_ok cs hs qs rs \<longleftrightarrow>
     distinct (map Tag qs @ map htag hs) \<and> distinct (map Tag rs)
     \<and> (\<forall>m \<in> set qs. posted cs (Tag m) (Data m))
     \<and> (\<forall>h \<in> set hs. posted cs (htag h) (hreq h))
     \<and> (\<forall>m \<in> set rs. answered hs (Tag m) \<lparr>rep = Data m, rok = Ok m, rerr = None\<rparr>)"

text \<open>The tags in use: on their way to the server, at a handler that has not replied, on their way back.\<close>

definition inflight :: "handler list \<Rightarrow> msg list \<Rightarrow> msg list \<Rightarrow> Ttag set" where
  "inflight hs qs rs = Tag ` set qs \<union> Tag ` set rs \<union> htag ` {h \<in> set hs. \<not> written (hpc h)}"

definition reading :: "creader_pc \<Rightarrow> bool" where
  "reading p \<longleftrightarrow> p = RReading \<or> (\<exists>k r. p = RDeliver k r None)"

definition live_ok :: "creader_pc \<Rightarrow> (Ttag \<times> nat) list \<Rightarrow> handler list \<Rightarrow> msg list \<Rightarrow> msg list \<Rightarrow> bool" where
  "live_ok p tab hs qs rs \<longleftrightarrow> (reading p \<longrightarrow> inflight hs qs rs \<subseteq> fst ` set tab)"

definition table_ok :: "call list \<Rightarrow> (Ttag \<times> nat) list \<Rightarrow> bool" where
  "table_ok cs tab \<longleftrightarrow> distinct (map fst tab) \<and>
     (\<forall>t k. (t, k) \<in> set tab \<longrightarrow> k < length cs \<and> ctag (cs ! k) = t \<and> registered (cpc (cs ! k)))"

definition waiting_ok :: "call list \<Rightarrow> (Ttag \<times> nat) list \<Rightarrow> creader_pc \<Rightarrow> bool" where
  "waiting_ok cs tab p \<longleftrightarrow>
     (\<forall>k < length cs. registered (cpc (cs ! k)) \<longrightarrow>
        (ctag (cs ! k), k) \<in> set tab \<or> (\<exists>r after. p = RDeliver k r after))"

definition returned_ok :: "call list \<Rightarrow> handler list \<Rightarrow> bool" where
  "returned_ok cs hs \<longleftrightarrow>
     (\<forall>c \<in> set cs. \<forall>r. cpc c = CReturned r \<longrightarrow> rerr r = None \<longrightarrow> answered hs (ctag c) r)"

definition reader_ok :: "creader_pc \<Rightarrow> callMap \<Rightarrow> call list \<Rightarrow> handler list \<Rightarrow> bool" where
  "reader_ok p cm cs hs \<longleftrightarrow>
     (case p of
        RReading \<Rightarrow> True
      | RClosing \<Rightarrow> cmClosed cm
      | RDraining ts \<Rightarrow> cmClosed cm \<and> outstanding ts cm
      | RDeliver k r after \<Rightarrow>
          k < length cs \<and> ctag (cs ! k) \<notin> fst ` set (calls cm)
          \<and> (case after of
               None \<Rightarrow> cpc (cs ! k) = CWaiting \<and> answered hs (ctag (cs ! k)) r
             | Some ts \<Rightarrow> registered (cpc (cs ! k)) \<and> rerr r \<noteq> None \<and> cmClosed cm \<and> outstanding ts cm)
      | RFatal \<Rightarrow> False)"

definition matched :: "'st conn \<Rightarrow> msg list \<Rightarrow> msg list \<Rightarrow> bool" where
  "matched s qs rs \<longleftrightarrow>
     streams_ok (callers s) (handlers s) qs rs
     \<and> live_ok (creader s) (calls (callmap s)) (handlers s) qs rs
     \<and> table_ok (callers s) (calls (callmap s))
     \<and> waiting_ok (callers s) (calls (callmap s)) (creader s)
     \<and> returned_ok (callers s) (handlers s)
     \<and> reader_ok (creader s) (callmap s) (callers s) (handlers s)"

text \<open>The tags of the calls are different as long as there are fewer than \<open>2 ^ 32 - 1\<close> of them.\<close>

definition tags_ok :: "'st conn \<Rightarrow> bool" where
  "tags_ok s \<longleftrightarrow> nextTag s = of_nat (Suc (length (callers s)))
     \<and> (\<forall>k < length (callers s). ctag (callers s ! k) = of_nat (Suc k))"

lemma tags_ok_distinct:
  assumes "tags_ok s" and "length (callers s) < 2 ^ 32 - 1"
  shows "distinct (map ctag (callers s))"
proof -
  have "i = k" if "i < length (callers s)" "k < length (callers s)"
    "ctag (callers s ! i) = ctag (callers s ! k)" for i k
  proof -
    have "unat (of_nat (Suc i) :: 32 word) = unat (of_nat (Suc k) :: 32 word)"
      using assms(1) that by (simp add: tags_ok_def)
    with assms(2) that show ?thesis by (simp add: unat_of_nat del: of_nat_Suc)
  qed
  then show ?thesis by (auto simp: distinct_conv_nth)
qed

subsection \<open>A call that moves on\<close>

definition pc_set :: "call list \<Rightarrow> nat \<Rightarrow> call_pc \<Rightarrow> call list" where
  "pc_set cs k p = cs[k := (cs ! k)\<lparr>cpc := p\<rparr>]"

lemma set_caller_eq: "set_caller k p s = s\<lparr>callers := pc_set (callers s) k p\<rparr>"
  by (simp add: set_caller_def pc_set_def)

lemma length_pc_set [simp]: "length (pc_set cs k p) = length cs"
  by (simp add: pc_set_def)

lemma nth_pc_set:
  "k < length cs \<Longrightarrow> pc_set cs k p ! i = (if i = k then (cs ! k)\<lparr>cpc := p\<rparr> else cs ! i)"
  by (simp add: pc_set_def)

lemma ctag_pc_set [simp]: "map ctag (pc_set cs k p) = map ctag cs"
  by (cases "k < length cs") (auto simp: pc_set_def map_update list_update_same_conv not_less list_update_beyond)

lemma set_pc_set: "set (pc_set cs k p) \<subseteq> insert ((cs ! k)\<lparr>cpc := p\<rparr>) (set cs)"
  by (simp add: pc_set_def set_update_subset_insert)

lemma posted_pc_set:
  assumes "posted cs t b" and "k < length cs" and "sent (cpc (cs ! k)) \<longrightarrow> sent p"
  shows "posted (pc_set cs k p) t b"
proof -
  from assms(1) obtain i where i: "i < length cs" "ctag (cs ! i) = t" "creq (cs ! i) = b" "sent (cpc (cs ! i))"
    by (auto simp: posted_def in_set_conv_nth)
  let ?c = "pc_set cs k p ! i"
  have "ctag ?c = t" "creq ?c = b" "sent (cpc ?c)" using i assms(2,3) by (auto simp: nth_pc_set)
  moreover have "?c \<in> set (pc_set cs k p)" using i by simp
  ultimately show ?thesis unfolding posted_def by blast
qed

lemma streams_ok_callers:
  assumes "streams_ok cs hs qs rs" and "\<And>t b. posted cs t b \<Longrightarrow> posted cs' t b"
  shows "streams_ok cs' hs qs rs"
  using assms by (auto simp: streams_ok_def)

lemma returned_ok_pc_set:
  assumes "returned_ok cs hs" and "k < length cs"
    and "\<And>r. p = CReturned r \<Longrightarrow> rerr r = None \<Longrightarrow> answered hs (ctag (cs ! k)) r"
  shows "returned_ok (pc_set cs k p) hs"
  using assms set_pc_set[of cs k p] by (fastforce simp: returned_ok_def)


subsection \<open>The steps of the client\<close>

lemma matched_tag:
  assumes "matched s qs rs"
  shows "matched (SendReceive_tag b s) qs rs"
proof -
  let ?cs = "callers s @ [\<lparr>creq = b, ctag = nextTag s, cpc = CTagged\<rparr>]"
  have "streams_ok ?cs (handlers s) qs rs"
    using assms by (auto simp: matched_def posted_def intro: streams_ok_callers)
  moreover have "table_ok ?cs (calls (callmap s))"
    using assms by (auto simp: matched_def table_ok_def nth_append less_SucI)
  moreover have "waiting_ok ?cs (calls (callmap s)) (creader s)"
    using assms by (auto simp: matched_def waiting_ok_def nth_append less_Suc_eq pc_simps)
  moreover have "returned_ok ?cs (handlers s)"
    using assms by (auto simp: matched_def returned_ok_def)
  moreover have "reader_ok (creader s) (callmap s) ?cs (handlers s)"
    using assms by (auto simp: matched_def reader_ok_def nth_append split: creader_pc.splits option.splits)
  ultimately show ?thesis using assms by (simp add: matched_def SendReceive_tag_def)
qed

lemma update_fresh: "t \<notin> fst ` set al \<Longrightarrow> AList.update t k al = al @ [(t, k)]"
  by (induction al) auto

lemma table_ok_owner:
  assumes "table_ok cs tab" and "distinct (map ctag cs)" and "k < length cs" and "ctag (cs ! k) \<in> fst ` set tab"
  shows "(ctag (cs ! k), k) \<in> set tab" and "registered (cpc (cs ! k))"
proof -
  from assms(4) obtain i where i: "(ctag (cs ! k), i) \<in> set tab" by auto
  with assms(1) have "i < length cs" "ctag (cs ! i) = ctag (cs ! k)" "registered (cpc (cs ! i))"
    by (auto simp: table_ok_def)
  with assms(2,3) have "i = k" by (auto simp: distinct_conv_nth)
  with i \<open>registered (cpc (cs ! i))\<close> show "(ctag (cs ! k), k) \<in> set tab" "registered (cpc (cs ! k))"
    by auto
qed

lemma matched_put:
  assumes m: "matched s qs rs" and dist: "distinct (map ctag (callers s))" and at: "caller_at s k CTagged"
  shows "matched (SendReceive_put k s) qs rs"
proof -
  let ?t = "ctag (callers s ! k)"
  have k: "k < length (callers s)" and pc: "cpc (callers s ! k) = CTagged" using at by (auto simp: caller_at_def)
  have fresh: "?t \<notin> fst ` set (calls (callmap s))"
    using table_ok_owner(2)[OF _ dist k] m pc by (auto simp: matched_def pc_simps)
  have streams: "streams_ok (pc_set (callers s) k p) (handlers s) qs rs" for p
    using m k pc by (auto simp: matched_def pc_simps intro!: streams_ok_callers[of "callers s"] posted_pc_set)
  have returned: "returned_ok (pc_set (callers s) k p) (handlers s)"
    if "\<And>r. p = CReturned r \<Longrightarrow> rerr r \<noteq> None" for p
    using m k that by (auto simp: matched_def intro: returned_ok_pc_set)
  show ?thesis
  proof (cases "cmClosed (callmap s)")
    case True
    let ?p = "CReturned \<lparr>rep = [], rok = False, rerr = Some ''conn closed''\<rparr>"
    have "table_ok (pc_set (callers s) k ?p) (calls (callmap s))"
      using m k pc by (fastforce simp: matched_def table_ok_def nth_pc_set pc_simps)
    moreover have "waiting_ok (pc_set (callers s) k ?p) (calls (callmap s)) (creader s)"
      using m k pc by (auto simp: matched_def waiting_ok_def nth_pc_set pc_simps)
    moreover have "reader_ok (creader s) (callmap s) (pc_set (callers s) k ?p) (handlers s)"
      using m k pc
      by (auto simp: matched_def reader_ok_def nth_pc_set pc_simps split: creader_pc.splits option.splits)
    moreover have "returned_ok (pc_set (callers s) k ?p) (handlers s)" by (rule returned) simp
    ultimately show ?thesis using m streams True
      by (simp add: matched_def SendReceive_put_def cm_put_def set_caller_eq)
  next
    case False
    let ?tab = "calls (callmap s) @ [(?t, k)]"
    have "table_ok (pc_set (callers s) k CRegistered) ?tab"
      using m k pc fresh by (auto simp: matched_def table_ok_def nth_pc_set pc_simps)
    moreover have "waiting_ok (pc_set (callers s) k CRegistered) ?tab (creader s)"
      using m k by (auto simp: matched_def waiting_ok_def nth_pc_set)
    moreover have "reader_ok (creader s) (callmap s\<lparr>calls := ?tab\<rparr>) (pc_set (callers s) k CRegistered) (handlers s)"
      using m k pc False dist
      by (auto simp: matched_def reader_ok_def nth_pc_set pc_simps distinct_conv_nth
          split: creader_pc.splits option.splits)
    moreover have "live_ok (creader s) ?tab (handlers s) qs rs" using m by (auto simp: matched_def live_ok_def)
    moreover have "returned_ok (pc_set (callers s) k CRegistered) (handlers s)" by (rule returned) simp
    ultimately show ?thesis using streams False fresh
      by (simp add: matched_def SendReceive_put_def cm_put_def set_caller_eq update_fresh)
  qed
qed


lemma posted_unique:
  assumes "distinct (map ctag cs)" and "k < length cs" and "posted cs (ctag (cs ! k)) b"
  shows "sent (cpc (cs ! k))" and "creq (cs ! k) = b"
proof -
  from assms(3) obtain i where "i < length cs" "ctag (cs ! i) = ctag (cs ! k)" "creq (cs ! i) = b" "sent (cpc (cs ! i))"
    by (auto simp: posted_def in_set_conv_nth)
  with assms(1,2) have "i = k" by (auto simp: distinct_conv_nth)
  with \<open>creq (cs ! i) = b\<close> \<open>sent (cpc (cs ! i))\<close> show "sent (cpc (cs ! k))" "creq (cs ! k) = b" by auto
qed

lemma table_ok_pc_set:
  assumes "table_ok cs tab" and "k < length cs" and "ctag (cs ! k) \<notin> fst ` set tab \<or> registered p"
  shows "table_ok (pc_set cs k p) tab"
  using assms by (force simp: table_ok_def nth_pc_set)

lemma matched_write:
  assumes m: "matched s qs rs" and dist: "distinct (map ctag (callers s))" and at: "caller_at s k CRegistered"
    and q: "q = \<lparr>Tag = ctag (callers s ! k), Data = creq (callers s ! k), Ok = True\<rparr>"
    and qs': "qs' = (case fault of None \<Rightarrow> qs @ [q] | Some n \<Rightarrow> qs)"
  shows "matched (set_caller k CWaiting (s\<lparr>c2s := bs, cbroken := broken\<rparr>)) qs' rs"
proof -
  let ?cs = "pc_set (callers s) k CWaiting"
  have k: "k < length (callers s)" and pc: "cpc (callers s ! k) = CRegistered" using at by (auto simp: caller_at_def)
  have old: "streams_ok ?cs (handlers s) qs rs"
    using m k pc by (auto simp: matched_def pc_simps intro!: streams_ok_callers[of "callers s"] posted_pc_set)
  have "\<not> posted (callers s) (ctag (callers s ! k)) b" for b
    using posted_unique(1)[OF dist k, of b] pc by (auto simp: pc_simps)
  with m have new: "Tag q \<notin> Tag ` set qs" "Tag q \<notin> htag ` set (handlers s)"
    by (auto simp: matched_def streams_ok_def q)
  have "posted ?cs (Tag q) (Data q)"
    unfolding posted_def q using k nth_mem[of k ?cs]
    by (intro bexI[of _ "?cs ! k"]) (auto simp: nth_pc_set[OF k] pc_simps)
  then have "streams_ok ?cs (handlers s) qs' rs"
    using old new by (auto simp: streams_ok_def qs' split: option.splits)
  moreover have "Tag q \<in> fst ` set (calls (callmap s))" if "reading (creader s)"
    using m k pc that
    by (force simp: matched_def waiting_ok_def reader_ok_def reading_def pc_simps q)
  then have "live_ok (creader s) (calls (callmap s)) (handlers s) qs' rs"
    using m by (auto simp: matched_def live_ok_def inflight_def qs' split: option.splits)
  moreover have "waiting_ok ?cs (calls (callmap s)) (creader s)"
    using m k pc by (auto simp: matched_def waiting_ok_def nth_pc_set pc_simps)
  moreover have "table_ok ?cs (calls (callmap s))"
    using m k by (auto simp: matched_def pc_simps intro: table_ok_pc_set)
  moreover have "returned_ok ?cs (handlers s)" using m k by (auto simp: matched_def intro: returned_ok_pc_set)
  moreover have "reader_ok (creader s) (callmap s) ?cs (handlers s)"
    using m k pc
    by (auto simp: matched_def reader_ok_def nth_pc_set pc_simps split: creader_pc.splits option.splits)
  ultimately show ?thesis by (simp add: matched_def set_caller_eq)
qed

lemma set_delete: "set (AList.delete t al) = {x \<in> set al. fst x \<noteq> t}"
  by (auto simp: AList.delete_eq)

lemma keys_delete: "fst ` set (AList.delete t al) = fst ` set al - {t}"
  by (auto simp: set_delete image_iff)

lemma mset_delete:
  assumes "distinct (map fst al)" and "t \<in> fst ` set al"
  shows "mset (map fst al) = add_mset t (mset (map fst (AList.delete t al)))"
  using assms
proof (induction al)
  case (Cons x al)
  show ?case
  proof (cases "fst x = t")
    case True
    with Cons.prems(1) have "t \<notin> fst ` set al" by auto
    then have "AList.delete t al = al" by simp
    with True show ?thesis by auto
  qed (use Cons in auto)
qed simp

lemma table_ok_delete: "table_ok cs tab \<Longrightarrow> table_ok cs (AList.delete t tab)"
  by (auto simp: table_ok_def set_delete distinct_map_filter AList.delete_eq)

lemma table_ok_lookup:
  assumes "table_ok cs tab" and "t \<in> fst ` set tab"
  obtains k where "map_of tab t = Some k" and "k < length cs" and "ctag (cs ! k) = t"
    and "registered (cpc (cs ! k))" and "(t, k) \<in> set tab"
proof -
  from assms(2) obtain k where "map_of tab t = Some k" using map_of_eq_None_iff[of tab t] by (cases "map_of tab t") auto
  with assms(1) map_of_SomeD that show ?thesis by (fastforce simp: table_ok_def)
qed

lemma waiting_ok_delete:
  assumes "waiting_ok cs tab p" and "\<And>k r after. p \<noteq> RDeliver k r after" and "ctag (cs ! k) = t"
    and "distinct (map ctag cs)" and "k < length cs"
  shows "waiting_ok cs (AList.delete t tab) (RDeliver k r after)"
  using assms by (auto simp: waiting_ok_def set_delete distinct_conv_nth)

lemma matched_read:
  assumes m: "matched s qs (r # rs)" and dist: "distinct (map ctag (callers s))" and "creader s = RReading"
  shows "matched (dmx_reply (Tag r) \<lparr>rep = Data r, rok = Ok r, rerr = None\<rparr> None (s\<lparr>s2c := bs\<rparr>)) qs rs"
proof -
  let ?tab = "calls (callmap s)" and ?r = "\<lparr>rep = Data r, rok = Ok r, rerr = None\<rparr>"
  have live: "inflight (handlers s) qs (r # rs) \<subseteq> fst ` set ?tab" and tab: "table_ok (callers s) ?tab"
    and st: "streams_ok (callers s) (handlers s) qs (r # rs)"
    using m assms(3) by (auto simp: matched_def live_ok_def reading_def)
  from live have "Tag r \<in> fst ` set ?tab" by (auto simp: inflight_def)
  from table_ok_lookup[OF tab this] obtain k where k: "map_of ?tab (Tag r) = Some k" "k < length (callers s)"
      "ctag (callers s ! k) = Tag r" "registered (cpc (callers s ! k))" by metis
  from st obtain h where h: "h \<in> set (handlers s)" "htag h = Tag r" "hpc h = HWritten (Data r) (Ok r)"
      "posted (callers s) (Tag r) (hreq h)"
    by (force simp: streams_ok_def answered_def)
  with k posted_unique(1)[OF dist k(2)] have "cpc (callers s ! k) = CWaiting" by (auto simp: pc_simps)
  then have "reader_ok (RDeliver k ?r None) (callmap s\<lparr>calls := AList.delete (Tag r) ?tab\<rparr>) (callers s) (handlers s)"
    using k h by (auto simp: reader_ok_def set_delete answered_def)
  note reader = this
  have "g = h" if "g \<in> set (handlers s)" "htag g = Tag r" for g
    using st h that by (auto simp: streams_ok_def distinct_map inj_on_def)
  then have "Tag r \<notin> htag ` {h \<in> set (handlers s). \<not> written (hpc h)}" using h(3) by (auto simp: written_def)
  then have "Tag r \<notin> inflight (handlers s) qs rs"
    using st h(1) imageI[OF h(1), of htag] by (auto simp: inflight_def streams_ok_def h(2))
  moreover have "inflight (handlers s) qs rs \<subseteq> inflight (handlers s) qs (r # rs)" by (auto simp: inflight_def)
  ultimately have "live_ok (RDeliver k ?r None) (AList.delete (Tag r) ?tab) (handlers s) qs rs"
    using live by (simp add: live_ok_def keys_delete) blast
  moreover have "waiting_ok (callers s) (AList.delete (Tag r) ?tab) (RDeliver k ?r None)"
    using m k dist assms(3) by (auto simp: matched_def intro!: waiting_ok_delete[of _ _ RReading])
  moreover have "streams_ok (callers s) (handlers s) qs rs" using st by (auto simp: streams_ok_def)
  ultimately show ?thesis
    using m k tab reader by (simp add: matched_def dmx_reply_def cm_remove_def table_ok_delete)
qed

lemma matched_drain:
  assumes m: "matched s qs rs" and dist: "distinct (map ctag (callers s))" and rd: "creader s = RDraining (t # ts)"
  shows "matched (dmx_reply t fail_reply (Some ts) s) qs rs"
proof -
  let ?tab = "calls (callmap s)"
  have tab: "table_ok (callers s) ?tab" and out: "mset (t # ts) = mset (map fst ?tab)" "cmClosed (callmap s)"
    using m rd by (auto simp: matched_def reader_ok_def outstanding_def)
  have t: "t \<in> fst ` set ?tab" using mset_eq_setD[OF out(1)] by auto
  from table_ok_lookup[OF tab t] obtain k where k: "map_of ?tab t = Some k" "k < length (callers s)"
      "ctag (callers s ! k) = t" "registered (cpc (callers s ! k))" by metis
  have "mset ts = mset (map fst (AList.delete t ?tab))"
    using mset_delete[OF _ t] tab out(1) by (simp add: table_ok_def)
  then have "reader_ok (RDeliver k fail_reply (Some ts)) (callmap s\<lparr>calls := AList.delete t ?tab\<rparr>) (callers s) (handlers s)"
    using k out(2) by (auto simp: reader_ok_def set_delete outstanding_def fail_reply_def)
  moreover have "waiting_ok (callers s) (AList.delete t ?tab) (RDeliver k fail_reply (Some ts))"
    using m k dist rd by (auto simp: matched_def intro!: waiting_ok_delete[of _ _ "RDraining (t # ts)"])
  ultimately show ?thesis
    using m k tab by (simp add: matched_def dmx_reply_def cm_remove_def table_ok_delete live_ok_def reading_def)
qed

lemma matched_deliver:
  assumes m: "matched s qs rs" and rd: "creader s = RDeliver k r after" and at: "caller_at s k CWaiting"
  shows "matched (set_caller k (CReturned r)
           (s\<lparr>creader := (case after of None \<Rightarrow> RReading | Some ts \<Rightarrow> RDraining ts)\<rparr>)) qs rs"
proof -
  let ?cs = "pc_set (callers s) k (CReturned r)" and ?p = "case after of None \<Rightarrow> RReading | Some ts \<Rightarrow> RDraining ts"
  have k: "k < length (callers s)" and pc: "cpc (callers s ! k) = CWaiting" using at by (auto simp: caller_at_def)
  have "streams_ok ?cs (handlers s) qs rs"
    using m k by (auto simp: matched_def pc_simps intro!: streams_ok_callers[of "callers s"] posted_pc_set)
  moreover have "live_ok ?p (calls (callmap s)) (handlers s) qs rs"
    using m rd by (auto simp: matched_def live_ok_def reading_def split: option.splits)
  moreover have "table_ok ?cs (calls (callmap s))"
    using m k rd by (auto simp: matched_def reader_ok_def intro!: table_ok_pc_set)
  moreover have "waiting_ok ?cs (calls (callmap s)) ?p"
    using m k rd by (auto simp: matched_def waiting_ok_def nth_pc_set pc_simps)
  moreover have "returned_ok ?cs (handlers s)"
    using m k rd by (auto simp: matched_def reader_ok_def intro!: returned_ok_pc_set split: option.splits)
  moreover have "reader_ok ?p (callmap s) ?cs (handlers s)"
    using m rd by (auto simp: matched_def reader_ok_def split: option.splits)
  ultimately show ?thesis by (simp add: matched_def set_caller_eq)
qed


lemma matched_readerr:
  "matched s qs rs \<Longrightarrow> creader s = RReading
   \<Longrightarrow> matched (s\<lparr>callmap := cm_close (callmap s), creader := RClosing\<rparr>) qs rs"
  by (auto simp: matched_def cm_close_def live_ok_def reading_def reader_ok_def waiting_ok_def)

lemma matched_outstanding:
  "matched s qs rs \<Longrightarrow> creader s = RClosing \<Longrightarrow> outstanding ts (callmap s)
   \<Longrightarrow> matched (s\<lparr>creader := RDraining ts\<rparr>) qs rs"
  by (auto simp: matched_def live_ok_def reading_def reader_ok_def waiting_ok_def)

lemma matched_close: "matched s qs rs \<Longrightarrow> matched (Close s) qs rs"
  by (auto simp: matched_def Close_def cm_close_def reader_ok_def outstanding_def
      split: creader_pc.splits option.splits)

subsection \<open>The steps of the server\<close>

definition hpc_set :: "handler list \<Rightarrow> nat \<Rightarrow> hpc \<Rightarrow> handler list" where
  "hpc_set hs j p = hs[j := (hs ! j)\<lparr>hpc := p\<rparr>]"

lemma set_handler_eq: "set_handler j p s = s\<lparr>handlers := hpc_set (handlers s) j p\<rparr>"
  by (simp add: set_handler_def hpc_set_def)

lemma length_hpc_set [simp]: "length (hpc_set hs j p) = length hs"
  by (simp add: hpc_set_def)

lemma nth_hpc_set:
  "j < length hs \<Longrightarrow> hpc_set hs j p ! i = (if i = j then (hs ! j)\<lparr>hpc := p\<rparr> else hs ! i)"
  by (simp add: hpc_set_def)

lemma htag_hpc_set: "j < length hs \<Longrightarrow> map htag (hpc_set hs j p) = map htag hs"
  by (simp add: hpc_set_def map_update list_update_same_conv)

lemma set_hpc_set: "set (hpc_set hs j p) \<subseteq> insert ((hs ! j)\<lparr>hpc := p\<rparr>) (set hs)"
  by (simp add: hpc_set_def set_update_subset_insert)

lemma answered_hpc_set:
  assumes "answered hs t r" and "j < length hs" and "\<not> written (hpc (hs ! j))"
  shows "answered (hpc_set hs j p) t r"
proof -
  from assms(1) obtain i where i: "i < length hs" "htag (hs ! i) = t" "hpc (hs ! i) = HWritten (rep r) (rok r)"
    by (auto simp: answered_def in_set_conv_nth)
  with assms(3) have "i \<noteq> j" by (auto simp: written_def)
  with assms(2) have "hpc_set hs j p ! i = hs ! i" by (simp add: nth_hpc_set)
  with i nth_mem[of i "hpc_set hs j p"] assms(1) show ?thesis by (auto simp: answered_def)
qed

lemma answered_append: "answered hs t r \<Longrightarrow> answered (hs @ hs') t r"
  by (auto simp: answered_def)

text \<open>More answers break nothing on the client's side.\<close>

lemma client_mono:
  assumes "\<And>t r. answered hs t r \<Longrightarrow> answered hs' t r"
  shows "returned_ok cs hs \<Longrightarrow> returned_ok cs hs'" and "reader_ok p cm cs hs \<Longrightarrow> reader_ok p cm cs hs'"
  using assms by (auto simp: returned_ok_def reader_ok_def split: creader_pc.splits option.splits)

lemma matched_srv_read:
  assumes "matched s (q # qs) rs"
  shows "matched (s\<lparr>c2s := bs, handlers := handlers s @ [\<lparr>htag = Tag q, hreq = Data q, hpc = HServing\<rparr>]\<rparr>) qs rs"
proof -
  let ?hs = "handlers s @ [\<lparr>htag = Tag q, hreq = Data q, hpc = HServing\<rparr>]"
  have "streams_ok (callers s) ?hs qs rs"
    using assms by (auto simp: matched_def streams_ok_def answered_append)
  moreover have "inflight ?hs qs rs \<subseteq> inflight (handlers s) (q # qs) rs"
    by (auto simp: inflight_def)
  then have "live_ok (creader s) (calls (callmap s)) ?hs qs rs"
    using assms by (auto simp: matched_def live_ok_def)
  ultimately show ?thesis
    using assms client_mono[of "handlers s" ?hs, OF answered_append] by (simp add: matched_def)
qed

lemma matched_set_handler:
  assumes m: "matched s qs rs" and j: "j < length (handlers s)" "\<not> written (hpc (handlers s ! j))"
    and rs': "\<not> written p \<and> rs' = rs \<or>
              (\<exists>b ok. p = HWritten b ok \<and> (rs' = rs \<or> rs' = rs @ [\<lparr>Tag = htag (handlers s ! j), Data = b, Ok = ok\<rparr>]))"
  shows "matched (set_handler j p s) qs rs'"
proof -
  let ?hs = "hpc_set (handlers s) j p" and ?t = "htag (handlers s ! j)"
  have st: "streams_ok (callers s) (handlers s) qs rs" using m by (simp add: matched_def)
  have ans: "answered (handlers s) t r \<Longrightarrow> answered ?hs t r" for t r
    using j by (rule_tac answered_hpc_set)
  have "?t \<notin> Tag ` set rs"
  proof
    assume "?t \<in> Tag ` set rs"
    then obtain h where "h \<in> set (handlers s)" "htag h = ?t" "written (hpc h)"
      using st by (fastforce simp: streams_ok_def answered_def written_def)
    then obtain i where "i < length (handlers s)" "htag (handlers s ! i) = ?t" "written (hpc (handlers s ! i))"
      by (auto simp: in_set_conv_nth)
    moreover from this st j(1) have "i = j" by (auto simp: streams_ok_def distinct_conv_nth[of "map htag _"])
    ultimately show False using j by simp
  qed
  moreover have "answered ?hs ?t \<lparr>rep = b, rok = ok, rerr = None\<rparr>" if "p = HWritten b ok" for b ok
    using nth_mem[of j ?hs] j that
    by (auto simp: answered_def nth_hpc_set[OF j(1)] intro!: bexI[of _ "(handlers s ! j)\<lparr>hpc := p\<rparr>"])
  moreover have "posted (callers s) (htag h) (hreq h)" if "h \<in> set ?hs" for h
    using st set_hpc_set[of "handlers s" j p] nth_mem[OF j(1)] that by (auto simp: streams_ok_def)
  then have "streams_ok (callers s) ?hs qs rs"
    using st ans htag_hpc_set[OF j(1), of p] set_map[of htag ?hs] set_map[of htag "handlers s"]
    by (auto simp: streams_ok_def simp del: set_map)
  ultimately have "streams_ok (callers s) ?hs qs rs'"
    using rs' by (auto simp: streams_ok_def)
  moreover have "inflight ?hs qs rs' \<subseteq> inflight (handlers s) qs rs"
    using rs' set_hpc_set[of "handlers s" j p] nth_mem[OF j(1)] j(2)
    by (fastforce simp: inflight_def)
  then have "live_ok (creader s) (calls (callmap s)) ?hs qs rs'" using m by (auto simp: matched_def live_ok_def)
  ultimately show ?thesis using m client_mono[of "handlers s" ?hs, OF ans] by (simp add: matched_def set_handler_eq)
qed


section \<open>The invariant of a connection\<close>

text \<open>
  Every message that was sent fits its length field, and the tags have not wrapped around.  Both only
  get harder to satisfy as a connection runs.
\<close>

definition hello :: "codec \<Rightarrow> 'st conn \<Rightarrow> msg" where
  "hello M s = \<lparr>Tag = 0, Data = marshalInit M (clntEnd s), Ok = True\<rparr>"

definition requests :: "'st conn \<Rightarrow> msg list" where
  "requests s = map (\<lambda>c. \<lparr>Tag = ctag c, Data = creq c, Ok = True\<rparr>) (callers s)"

definition reply_msg :: "handler \<Rightarrow> msg option" where
  "reply_msg h =
     (case hpc h of
        HServing \<Rightarrow> None
      | HReplying b ok \<Rightarrow> Some \<lparr>Tag = htag h, Data = b, Ok = ok\<rparr>
      | HWritten b ok \<Rightarrow> Some \<lparr>Tag = htag h, Data = b, Ok = ok\<rparr>)"

definition small :: "codec \<Rightarrow> 'st conn \<Rightarrow> bool" where
  "small M s \<longleftrightarrow> length (callers s) < 2 ^ 32 - 1 \<and> fits M (hello M s) \<and> list_all (fits M) (requests s)
     \<and> list_all (\<lambda>h. pred_option (fits M) (reply_msg h)) (handlers s)"

lemma pc_set_requests:
  "map (\<lambda>c. \<lparr>Tag = ctag c, Data = creq c, Ok = True\<rparr>) (pc_set cs k p)
   = map (\<lambda>c. \<lparr>Tag = ctag c, Data = creq c, Ok = True\<rparr>) cs"
  by (cases "k < length cs") (auto simp: pc_set_def map_update list_update_same_conv not_less list_update_beyond)

lemma small_hpc_set:
  assumes "list_all (\<lambda>h. pred_option (fits M) (reply_msg h)) (hpc_set hs j p)" and "j < length hs"
    and "pred_option (fits M) (reply_msg ((hs ! j)\<lparr>hpc := p\<rparr>)) \<Longrightarrow> pred_option (fits M) (reply_msg (hs ! j))"
  shows "list_all (\<lambda>h. pred_option (fits M) (reply_msg h)) hs"
  unfolding list_all_length
proof (intro allI impI)
  fix i assume "i < length hs"
  with assms(1) have "pred_option (fits M) (reply_msg (hpc_set hs j p ! i))"
    by (simp add: list_all_length)
  with assms(2,3) show "pred_option (fits M) (reply_msg (hs ! i))"
    by (cases "i = j") (auto simp: nth_hpc_set)
qed

lemmas client_defs = SendReceive_tag_def SendReceive_put_def SendReceive_write_def cm_put_def
  reader_read_def dmx_reply_def Close_def set_caller_eq
lemmas server_defs = NewDemuxSrv_def srv_read_def srv_read_err_def setClosed_def srv_serve_def srv_write_def
  set_handler_eq

lemma small_exec:
  assumes "conn_exec M S e s = Some t" and "small M t"
  shows "small M s"
proof (cases e)
  case (SServe j)
  with assms obtain st b ok where j: "j < length (handlers s)" "hpc (handlers s ! j) = HServing"
    and t: "t = set_handler j (HReplying b ok) (s\<lparr>srvstate := st, served := served s @ [j]\<rparr>)"
    by (auto simp: srv_serve_def bind_Some_iff split: if_splits)
  from j have "reply_msg (handlers s ! j) = None" by (simp add: reply_msg_def)
  with assms(2) j(1) show ?thesis
    unfolding t small_def by (auto simp: requests_def hello_def set_handler_eq intro: small_hpc_set)
next
  case (SWrite j fault)
  with assms obtain b ok bs br where j: "j < length (handlers s)" "hpc (handlers s ! j) = HReplying b ok"
    and t: "t = set_handler j (HWritten b ok) (s\<lparr>s2c := bs, sbroken := br\<rparr>)"
    by (auto simp: srv_write_def bind_Some_iff split: if_splits hpc.splits)
  from j have "reply_msg ((handlers s ! j)\<lparr>hpc := HWritten b ok\<rparr>) = reply_msg (handlers s ! j)"
    by (simp add: reply_msg_def)
  with assms(2) j(1) show ?thesis
    unfolding t small_def by (auto simp: requests_def hello_def set_handler_eq intro: small_hpc_set)
qed (use assms in \<open>auto simp: small_def requests_def hello_def client_defs server_defs pc_set_requests
        bind_Some_iff split: if_splits option.splits creader_pc.splits list.splits\<close>)

lemma tags_ok_exec:
  assumes "conn_exec M S e s = Some t" and "tags_ok s"
  shows "tags_ok t"
proof -
  have keep: "ctag (pc_set cs k p ! i) = ctag (cs ! i)" if "i < length cs" for cs k p i
    using that ctag_pc_set[of cs k p] nth_map[of i "pc_set cs k p" ctag] nth_map[of i cs ctag] by simp
  show ?thesis
    using assms by (cases e) (auto simp: tags_ok_def client_defs server_defs keep nth_append less_Suc_eq
        bind_Some_iff split: if_splits option.splits creader_pc.splits list.splits hpc.splits)
qed

definition fresh_srv :: "'st conn \<Rightarrow> bool" where
  "fresh_srv s \<longleftrightarrow> sreader s = SNew \<or> sreader s = SFatal"

definition greeting :: "codec \<Rightarrow> 'st conn \<Rightarrow> msg list" where
  "greeting M s = (if fresh_srv s then [hello M s] else [])"

lemma greeting_cong: "fresh_srv t = fresh_srv s \<Longrightarrow> clntEnd t = clntEnd s \<Longrightarrow> greeting M t = greeting M s"
  by (simp add: greeting_def hello_def)

definition conn_inv :: "codec \<Rightarrow> 'st conn \<Rightarrow> bool" where
  "conn_inv M s \<longleftrightarrow> (\<exists>qs rs. carries M (c2s s, cbroken s) (greeting M s @ qs)
     \<and> carries M (s2c s, sbroken s) rs \<and> matched s qs rs)"


lemma requests_fit:
  assumes "small M s" and "k < length (callers s)"
  shows "fits M \<lparr>Tag = ctag (callers s ! k), Data = creq (callers s ! k), Ok = True\<rparr>"
  using assms by (auto simp: small_def requests_def list_all_iff)

lemma conn_invI:
  assumes "carries M (c2s s, cbroken s) (greeting M s @ qs)"
    and "carries M (s2c s, sbroken s) rs" and "matched s qs rs"
  shows "conn_inv M s"
  using assms unfolding conn_inv_def by blast

lemma conn_inv_same:
  assumes "conn_inv M s" and "\<And>qs rs. matched s qs rs \<Longrightarrow> matched t qs rs"
    and "c2s t = c2s s" and "cbroken t = cbroken s" and "s2c t = s2c s" and "sbroken t = sbroken s"
    and "fresh_srv t = fresh_srv s" and "clntEnd t = clntEnd s"
  shows "conn_inv M t"
proof -
  obtain qs rs where "carries M (c2s s, cbroken s) (greeting M s @ qs)"
    "carries M (s2c s, sbroken s) rs" "matched s qs rs" using assms(1) by (auto simp: conn_inv_def)
  with assms(2-) show ?thesis by (intro conn_invI[of M t qs rs]) (simp_all add: greeting_cong[of t s])
qed

lemma conn_inv_write:
  assumes inv: "conn_inv M s" and "small M s" and dist: "distinct (map ctag (callers s))"
    and at: "caller_at s k CRegistered" and w: "SendReceive_write M k fault s = Some t"
  shows "conn_inv M t"
proof -
  let ?q = "\<lparr>Tag = ctag (callers s ! k), Data = creq (callers s ! k), Ok = True\<rparr>"
  obtain qs rs where q: "carries M (c2s s, cbroken s) (greeting M s @ qs)"
    "carries M (s2c s, sbroken s) rs" "matched s qs rs" using inv by (auto simp: conn_inv_def)
  obtain bs br where sw: "stream_write fault (frame M ?q) (c2s s, cbroken s) = Some (bs, br)"
    and t: "t = set_caller k CWaiting (s\<lparr>c2s := bs, cbroken := br\<rparr>)"
    using w by (auto simp: SendReceive_write_def frame_def bind_Some_iff)
  have "carries M (bs, br) (greeting M s @ (case fault of None \<Rightarrow> qs @ [?q] | Some n \<Rightarrow> qs))"
    using carries_write[OF q(1) requests_fit[OF assms(2)] sw] at
    by (auto simp: caller_at_def split: option.splits if_splits)
  moreover have "matched t (case fault of None \<Rightarrow> qs @ [?q] | Some n \<Rightarrow> qs) rs"
    unfolding t by (rule matched_write[OF q(3) dist at refl refl])
  ultimately show ?thesis
    using q(2) by (auto simp: conn_inv_def t set_caller_eq greeting_def fresh_srv_def hello_def)
qed

lemma conn_inv_srv_write:
  assumes inv: "conn_inv M s" and "small M s" and j: "j < length (handlers s)" "hpc (handlers s ! j) = HReplying b ok"
    and w: "srv_write M j b ok fault s = Some t"
  shows "conn_inv M t"
proof -
  let ?r = "\<lparr>Tag = htag (handlers s ! j), Data = b, Ok = ok\<rparr>"
  obtain qs rs where q: "carries M (c2s s, cbroken s) (greeting M s @ qs)"
    "carries M (s2c s, sbroken s) rs" "matched s qs rs" using inv by (auto simp: conn_inv_def)
  obtain bs br where sw: "stream_write fault (frame M ?r) (s2c s, sbroken s) = Some (bs, br)"
    and t: "t = set_handler j (HWritten b ok) (s\<lparr>s2c := bs, sbroken := br\<rparr>)"
    using w by (auto simp: srv_write_def frame_def bind_Some_iff)
  have "pred_option (fits M) (reply_msg (handlers s ! j))" using assms(2) j(1) by (auto simp: small_def list_all_length)
  with j(2) have "fits M ?r" by (simp add: reply_msg_def)
  with carries_write[OF q(2) _ sw] have "carries M (bs, br) (case fault of None \<Rightarrow> rs @ [?r] | Some n \<Rightarrow> rs)" by simp
  moreover have "matched (set_handler j (HWritten b ok) s) qs (case fault of None \<Rightarrow> rs @ [?r] | Some n \<Rightarrow> rs)"
    using q(3) j by (auto simp: written_def intro!: matched_set_handler split: option.splits)
  then have "matched t qs (case fault of None \<Rightarrow> rs @ [?r] | Some n \<Rightarrow> rs)"
    by (simp add: t matched_def set_handler_eq)
  ultimately show ?thesis using q(1) by (auto simp: conn_inv_def t set_handler_eq greeting_def fresh_srv_def hello_def)
qed

lemma conn_inv_srv_read:
  assumes ok: "codec_ok M" and inv: "conn_inv M s" and pc: "sreader s = SReading" and r: "srv_read M s = Some t"
  shows "conn_inv M t"
proof -
  obtain qs rs where q: "carries M (c2s s, cbroken s) qs" "carries M (s2c s, sbroken s) rs" "matched s qs rs"
    using inv pc by (auto simp: conn_inv_def greeting_def fresh_srv_def)
  obtain m bs where m: "ReadCall M (c2s s) = Some (m, bs)"
    and t: "t = s\<lparr>c2s := bs, handlers := handlers s @ [\<lparr>htag = Tag m, hreq = Data m, hpc = HServing\<rparr>]\<rparr>"
    using r by (auto simp: srv_read_def bind_Some_iff)
  from carries_read[OF ok q(1) m] obtain qs' where "qs = m # qs'" "carries M (bs, cbroken s) qs'" .
  with q(2,3) matched_srv_read[of s m qs' rs bs] pc show ?thesis
    by (intro conn_invI[of M t qs' rs]) (simp_all add: t greeting_def fresh_srv_def)
qed

lemma conn_inv_srv_init:
  assumes ok: "codec_ok M" and inv: "conn_inv M s" and pc: "sreader s = SNew" and r: "NewDemuxSrv M s = Some t"
  shows "conn_inv M t" and "peer t = clntEnd s"
proof -
  obtain qs rs where q: "carries M (c2s s, cbroken s) (hello M s # qs)" "carries M (s2c s, sbroken s) rs" "matched s qs rs"
    using inv pc by (auto simp: conn_inv_def greeting_def fresh_srv_def)
  obtain m bs where m: "ReadCall M (c2s s) = Some (m, bs)"
    and t: "t = s\<lparr>c2s := bs, peer := unmarshalInit M (Data m), sreader := SReading\<rparr>"
    using r by (auto simp: NewDemuxSrv_def bind_Some_iff)
  from carries_read[OF ok q(1) m] have "m = hello M s" "carries M (bs, cbroken s) qs" by auto
  with q(2,3) ok show "conn_inv M t" "peer t = clntEnd s"
    by (auto simp: t conn_inv_def greeting_def fresh_srv_def matched_def hello_def codec_ok_def)
qed

lemma conn_inv_read:
  assumes ok: "codec_ok M" and inv: "conn_inv M s" and dist: "distinct (map ctag (callers s))"
    and pc: "creader s = RReading" and r: "reader_read M s = Some t"
  shows "conn_inv M t"
proof -
  obtain qs rs where q: "carries M (c2s s, cbroken s) (greeting M s @ qs)"
    "carries M (s2c s, sbroken s) rs" "matched s qs rs" using inv by (auto simp: conn_inv_def)
  obtain m bs where m: "ReadCall M (s2c s) = Some (m, bs)"
    and t: "t = dmx_reply (Tag m) \<lparr>rep = Data m, rok = Ok m, rerr = None\<rparr> None (s\<lparr>s2c := bs\<rparr>)"
    using r by (auto simp: reader_read_def bind_Some_iff)
  from carries_read[OF ok q(2) m] obtain rs' where "rs = m # rs'" and bs: "carries M (bs, sbroken s) rs'" .
  with matched_read[OF _ dist pc] q(3) have "matched t qs rs'" by (simp add: t)
  moreover have "c2s t = c2s s" "cbroken t = cbroken s" "s2c t = bs" "sbroken t = sbroken s"
    "greeting M t = greeting M s"
    by (auto simp: t dmx_reply_def fresh_srv_def intro!: greeting_cong split: option.splits)
  ultimately show ?thesis using q(1) bs by (intro conn_invI[of M t qs rs']) simp_all
qed

lemma conn_inv_exec:
  assumes ok: "codec_ok M" and e: "conn_exec M S e s = Some t" and inv: "conn_inv M s" and "small M s" and "tags_ok s"
  shows "conn_inv M t"
proof -
  have dist: "distinct (map ctag (callers s))" using tags_ok_distinct assms by (auto simp: small_def)
  have same: "(\<And>qs rs. matched s qs rs \<Longrightarrow> matched t qs rs) \<Longrightarrow> c2s t = c2s s \<Longrightarrow> cbroken t = cbroken s \<Longrightarrow> s2c t = s2c s
    \<Longrightarrow> sbroken t = sbroken s \<Longrightarrow> fresh_srv t = fresh_srv s \<Longrightarrow> clntEnd t = clntEnd s \<Longrightarrow> conn_inv M t"
    by (rule conn_inv_same[OF inv])
  show ?thesis
  proof (cases e)
    case (ECall b)
    with e show ?thesis using matched_tag[of s] by (intro same) (auto simp: fresh_srv_def SendReceive_tag_def)
  next
    case (EPut k)
    with e have t: "t = SendReceive_put k s" and at: "caller_at s k CTagged" by (auto split: if_splits)
    show ?thesis using matched_put[OF _ dist at]
      by (intro same) (simp_all add: t, auto simp: SendReceive_put_def fresh_srv_def set_caller_eq split: option.splits)
  next
    case EDrain
    with e obtain x ts where rd: "creader s = RDraining (x # ts)" and t: "t = dmx_reply x fail_reply (Some ts) s"
      by (auto split: creader_pc.splits list.splits)
    show ?thesis using matched_drain[OF _ dist rd]
      by (intro same) (simp_all add: t, auto simp: dmx_reply_def fresh_srv_def split: option.splits)
  next
    case EDeliver
    with e show ?thesis using matched_deliver[of s]
      by (intro same) (auto simp: fresh_srv_def set_caller_eq split: if_splits option.splits creader_pc.splits)
  next
    case EReadErr
    with e show ?thesis using matched_readerr[of s] by (intro same) (auto simp: fresh_srv_def split: if_splits)
  next
    case (EOutstanding ts)
    with e show ?thesis using matched_outstanding[of s] by (intro same) (auto simp: fresh_srv_def split: if_splits)
  next
    case EClose
    with e show ?thesis using matched_close[of s] by (intro same) (auto simp: fresh_srv_def Close_def split: if_splits)
  next
    case (SServe j)
    with e obtain st b ok where j: "j < length (handlers s)" "hpc (handlers s ! j) = HServing"
      and t: "t = set_handler j (HReplying b ok) (s\<lparr>srvstate := st, served := served s @ [j]\<rparr>)"
      by (auto simp: srv_serve_def bind_Some_iff split: if_splits)
    have "matched s qs rs \<Longrightarrow> matched (set_handler j (HReplying b ok) s) qs rs" for qs rs
      using j by (auto simp: written_def intro!: matched_set_handler)
    then show ?thesis by (intro same) (auto simp: t fresh_srv_def set_handler_eq matched_def)
  next
    case (EWrite k fault)
    with e show ?thesis using conn_inv_write[OF inv \<open>small M s\<close> dist] by (auto split: if_splits)
  next
    case ERead
    with e show ?thesis using conn_inv_read[OF ok inv dist] by (auto split: if_splits)
  next
    case SInit
    with e show ?thesis using conn_inv_srv_init(1)[OF ok inv] by (auto split: if_splits)
  next
    case SRead
    with e show ?thesis using conn_inv_srv_read[OF ok inv] by (auto split: if_splits)
  next
    case (SWrite j fault)
    with e show ?thesis using conn_inv_srv_write[OF inv \<open>small M s\<close>] by (auto split: if_splits hpc.splits)
  qed (use e in \<open>auto intro!: conn_inv_same[OF inv] simp: fresh_srv_def server_defs matched_def split: if_splits\<close>)
qed


section \<open>The order of the handlers\<close>

text \<open>The server's requests run one after the other, as the reference for what the replies are.\<close>

fun serve_all :: "'st serve \<Rightarrow> (string \<times> bytes) list \<Rightarrow> 'st \<Rightarrow> ('st \<times> (bytes \<times> bool) list) option" where
  "serve_all S [] st = Some (st, [])"
| "serve_all S ((c, r) # rs) st = do {
     (st1, b, ok) \<leftarrow> S c r st;
     (st2, out) \<leftarrow> serve_all S rs st1;
     Some (st2, (b, ok) # out)
   }"

lemma serve_all_snoc:
  "serve_all S rs st = Some (st1, out) \<Longrightarrow> S c r st1 = Some (st2, b, ok)
   \<Longrightarrow> serve_all S (rs @ [(c, r)]) st = Some (st2, out @ [(b, ok)])"
  by (induction S rs st arbitrary: out rule: serve_all.induct) (auto simp: bind_Some_iff)

definition outcome :: "handler \<Rightarrow> bytes \<times> bool" where
  "outcome h = (case hpc h of HServing \<Rightarrow> ([], False) | HReplying b ok \<Rightarrow> (b, ok) | HWritten b ok \<Rightarrow> (b, ok))"

definition sequenced :: "'st serve \<Rightarrow> 'st \<Rightarrow> 'st conn \<Rightarrow> bool" where
  "sequenced S st s \<longleftrightarrow> distinct (served s) \<and> set (served s) \<subseteq> {..<length (handlers s)}
     \<and> (\<forall>j < length (handlers s). hpc (handlers s ! j) \<noteq> HServing \<longleftrightarrow> j \<in> set (served s))
     \<and> serve_all S (map (\<lambda>j. (clntEnd s, hreq (handlers s ! j))) (served s)) st
         = Some (srvstate s, map (\<lambda>j. outcome (handlers s ! j)) (served s))"

definition introduced :: "'st conn \<Rightarrow> bool" where
  "introduced s \<longleftrightarrow> (if fresh_srv s then handlers s = [] else peer s = clntEnd s)"

lemma sequenced_serve:
  assumes "sequenced S st s" and "j < length (handlers s)" and "hpc (handlers s ! j) = HServing"
    and "S (clntEnd s) (hreq (handlers s ! j)) (srvstate s) = Some (st1, b, ok)"
  shows "sequenced S st (set_handler j (HReplying b ok) (s\<lparr>srvstate := st1, served := served s @ [j]\<rparr>))"
proof -
  have j: "j \<notin> set (served s)" using assms(1-3) by (auto simp: sequenced_def)
  have "serve_all S (map (\<lambda>j. (clntEnd s, hreq (handlers s ! j))) (served s)) st
        = Some (srvstate s, map (\<lambda>j. outcome (handlers s ! j)) (served s))"
    using assms(1) by (simp add: sequenced_def)
  note run = serve_all_snoc[OF this assms(4)]
  let ?hs = "hpc_set (handlers s) j (HReplying b ok)"
  have "map (\<lambda>i. outcome (?hs ! i)) (served s) = map (\<lambda>i. outcome (handlers s ! i)) (served s)"
    using j assms(2) by (auto simp: nth_hpc_set)
  moreover have "hreq (?hs ! i) = hreq (handlers s ! i)" for i using assms(2) by (simp add: nth_hpc_set)
  moreover have "outcome (?hs ! j) = (b, ok)" using assms(2) by (simp add: nth_hpc_set outcome_def)
  ultimately show ?thesis using run j assms(1,2)
    by (simp add: sequenced_def set_handler_eq) (auto simp: nth_hpc_set)
qed

lemma sequenced_write:
  assumes "sequenced S st s" and "j < length (handlers s)" and "hpc (handlers s ! j) = HReplying b ok"
  shows "sequenced S st (set_handler j (HWritten b ok) (s\<lparr>s2c := bs, sbroken := br\<rparr>))"
proof -
  let ?hs = "hpc_set (handlers s) j (HWritten b ok)"
  have "hreq (?hs ! i) = hreq (handlers s ! i)" "outcome (?hs ! i) = outcome (handlers s ! i)"
    "hpc (?hs ! i) \<noteq> HServing \<longleftrightarrow> hpc (handlers s ! i) \<noteq> HServing" for i
    using assms(2,3) by (auto simp: nth_hpc_set outcome_def)
  then show ?thesis using assms(1) by (simp add: sequenced_def set_handler_eq)
qed

lemma sequenced_append:
  assumes "sequenced S st s" and "handlers t = handlers s @ [\<lparr>htag = g, hreq = r, hpc = HServing\<rparr>]"
    and "served t = served s" and "srvstate t = srvstate s" and "clntEnd t = clntEnd s"
  shows "sequenced S st t"
proof -
  have old: "handlers t ! j = handlers s ! j" if "j \<in> set (served s)" for j
    using that assms(1,2) by (auto simp: sequenced_def nth_append)
  have maps: "map (\<lambda>j. (clntEnd s, hreq (handlers t ! j))) (served s) = map (\<lambda>j. (clntEnd s, hreq (handlers s ! j))) (served s)"
    "map (\<lambda>j. outcome (handlers t ! j)) (served s) = map (\<lambda>j. outcome (handlers s ! j)) (served s)"
    using old by (auto intro!: map_cong)
  have "\<forall>j < length (handlers t). hpc (handlers t ! j) \<noteq> HServing \<longleftrightarrow> j \<in> set (served s)"
    using assms(1,2) by (auto simp: sequenced_def nth_append less_Suc_eq)
  moreover have "set (served s) \<subseteq> {..<length (handlers t)}" using assms(1,2) by (auto simp: sequenced_def)
  ultimately show ?thesis using assms(1) unfolding sequenced_def assms(3-5) maps by blast
qed

text \<open>What the other events leave alone.\<close>

lemma conn_exec_server:
  assumes "conn_exec M S e s = Some t"
    and "e \<noteq> SInit" and "e \<noteq> SRead" and "\<And>j. e \<noteq> SServe j" and "\<And>j fault. e \<noteq> SWrite j fault"
  shows "handlers t = handlers s" and "served t = served s" and "srvstate t = srvstate s"
    and "clntEnd t = clntEnd s" and "peer t = peer s" and "fresh_srv t = fresh_srv s"
  using assms by (cases e; auto simp: fresh_srv_def client_defs server_defs bind_Some_iff
      split: if_splits option.splits creader_pc.splits list.splits)+

lemma introduced_exec:
  assumes ok: "codec_ok M" and e: "conn_exec M S e s = Some t" and inv: "conn_inv M s" and intro: "introduced s"
  shows "introduced t"
proof (cases e)
  case SInit
  with e have "sreader s = SNew" "NewDemuxSrv M s = Some t" by (auto split: if_splits)
  moreover from this conn_inv_srv_init(2)[OF ok inv] have "peer t = clntEnd s" by simp
  ultimately show ?thesis
    by (auto simp: NewDemuxSrv_def bind_Some_iff introduced_def fresh_srv_def)
next
  case (SServe j)
  with e intro show ?thesis
    by (auto simp: srv_serve_def set_handler_eq introduced_def fresh_srv_def bind_Some_iff split: if_splits)
next
  case (SWrite j fault)
  with e intro show ?thesis
    by (auto simp: srv_write_def set_handler_eq introduced_def fresh_srv_def bind_Some_iff split: if_splits hpc.splits)
next
  case SRead
  with e intro show ?thesis
    by (auto simp: srv_read_def introduced_def fresh_srv_def bind_Some_iff split: if_splits)
qed (use conn_exec_server[OF e] intro in \<open>auto simp: introduced_def\<close>)

lemma sequenced_exec:
  assumes e: "conn_exec M S e s = Some t" and seq: "sequenced S st s" "introduced s"
  shows "sequenced S st t"
proof -
  show ?thesis
  proof (cases e)
    case SInit
    with e have "sreader s = SNew" "NewDemuxSrv M s = Some t" by (auto split: if_splits)
    then show ?thesis using seq
      by (auto simp: NewDemuxSrv_def bind_Some_iff sequenced_def introduced_def fresh_srv_def)
  next
    case SRead
    with e obtain m bs where "ReadCall M (c2s s) = Some (m, bs)" "sreader s = SReading"
        "t = s\<lparr>c2s := bs, handlers := handlers s @ [\<lparr>htag = Tag m, hreq = Data m, hpc = HServing\<rparr>]\<rparr>"
      by (auto simp: srv_read_def bind_Some_iff split: if_splits)
    with seq show ?thesis by (auto intro: sequenced_append)
  next
    case (SServe j)
    with e obtain st1 b ok where j: "j < length (handlers s)" "hpc (handlers s ! j) = HServing"
      and "S (peer s) (hreq (handlers s ! j)) (srvstate s) = Some (st1, b, ok)"
      and t: "t = set_handler j (HReplying b ok) (s\<lparr>srvstate := st1, served := served s @ [j]\<rparr>)"
      by (auto simp: srv_serve_def bind_Some_iff split: if_splits)
    with seq sequenced_serve[OF seq(1) j] show ?thesis
      by (auto simp: introduced_def fresh_srv_def set_handler_eq split: if_splits)
  next
    case (SWrite j fault)
    with e obtain b ok bs br where j: "j < length (handlers s)" "hpc (handlers s ! j) = HReplying b ok"
      and t: "t = set_handler j (HWritten b ok) (s\<lparr>s2c := bs, sbroken := br\<rparr>)"
      by (auto simp: srv_write_def bind_Some_iff split: if_splits hpc.splits)
    with seq sequenced_write[OF seq(1) j] show ?thesis
      by (auto simp: introduced_def fresh_srv_def set_handler_eq split: if_splits)
  qed (use conn_exec_server[OF e] seq in \<open>auto simp: sequenced_def\<close>)
qed


section \<open>Reachable connections\<close>

abbreviation conn_reach :: "codec \<Rightarrow> 'st serve \<Rightarrow> 'st \<Rightarrow> 'st conn \<Rightarrow> bool" where
  "conn_reach M S st \<equiv> transition_system.reach (conn_init M st) (conn_step M S)"

lemma conn_inv_new:
  assumes "fits M (hello M (NewDemuxClnt M clnt st))"
  shows "conn_inv M (NewDemuxClnt M clnt st)"
proof -
  let ?s = "NewDemuxClnt M clnt st"
  have "carries M (c2s ?s, cbroken ?s) [hello M ?s]" "carries M (s2c ?s, sbroken ?s) []"
    using carries_empty[of M "hello M ?s" "[hello M ?s]"] carries_empty[of M "hello M ?s" "[]"] assms
    by (auto simp: NewDemuxClnt_def frame_def hello_def)
  moreover have "matched ?s [] []"
    by (auto simp: NewDemuxClnt_def newCallMap_def matched_def streams_ok_def live_ok_def inflight_def table_ok_def
        waiting_ok_def returned_ok_def reader_ok_def)
  moreover have "greeting M ?s = [hello M ?s]" by (simp add: greeting_def fresh_srv_def NewDemuxClnt_def)
  ultimately show ?thesis by (intro conn_invI[of M ?s "[]" "[]"]) simp_all
qed

text \<open>A call that returned without an error has its own handler's reply.\<close>

lemma inv_replies:
  assumes "conn_inv M s" and "tags_ok s" and "small M s"
    and c: "c \<in> set (callers s)" "cpc c = CReturned r" "rerr r = None"
  obtains j where "j < length (handlers s)" and "hpc (handlers s ! j) \<noteq> HServing"
    and "htag (handlers s ! j) = ctag c" and "hreq (handlers s ! j) = creq c"
    and "outcome (handlers s ! j) = (rep r, rok r)"
proof -
  have dist: "distinct (map ctag (callers s))" using assms(2,3) tags_ok_distinct by (auto simp: small_def)
  obtain qs rs where m: "matched s qs rs" using assms(1) by (auto simp: conn_inv_def)
  then have "answered (handlers s) (ctag c) r" using c by (auto simp: matched_def returned_ok_def)
  then obtain j where j: "j < length (handlers s)" "htag (handlers s ! j) = ctag c"
      "hpc (handlers s ! j) = HWritten (rep r) (rok r)" by (auto simp: answered_def in_set_conv_nth)
  from c(1) obtain k where k: "k < length (callers s)" "c = callers s ! k" by (auto simp: in_set_conv_nth)
  have "posted (callers s) (ctag c) (hreq (handlers s ! j))"
    using m nth_mem[OF j(1)] j(2) by (fastforce simp: matched_def streams_ok_def)
  with posted_unique(2)[OF dist k(1)] k(2) have "hreq (handlers s ! j) = creq c" by simp
  with j show ?thesis by (intro that[of j]) (auto simp: outcome_def)
qed

lemma conn_invariant:
  assumes ok: "codec_ok M" and "conn_reach M S st s" and "small M s"
  shows "tags_ok s" and "conn_inv M s" and "sequenced S st s"
proof -
  let ?I = "\<lambda>s. small M s \<longrightarrow> tags_ok s \<and> conn_inv M s \<and> sequenced S st s \<and> introduced s"
  have "?I s" using assms(2)
  proof (rule conn.reach_invariant)
    fix s assume "conn_init M st s"
    then obtain clnt where s: "s = NewDemuxClnt M clnt st" by (auto simp: conn_init_def)
    show "?I s" using conn_inv_new[of M clnt st]
      by (auto simp: s small_def) (auto simp: NewDemuxClnt_def tags_ok_def sequenced_def introduced_def fresh_srv_def)
  next
    fix s t assume "?I s" and "conn_step M S s t"
    then show "?I t"
      using small_exec tags_ok_exec conn_inv_exec[OF ok] introduced_exec[OF ok] sequenced_exec
      unfolding conn_step_def by metis
  qed
  with assms(3) show "tags_ok s" and "conn_inv M s" and "sequenced S st s" by auto
qed

lemma conn_matched:
  assumes "codec_ok M" and "conn_reach M S st s" and "small M s"
  obtains qs rs where "matched s qs rs" and "distinct (map ctag (callers s))"
  using conn_invariant[OF assms] assms(3) tags_ok_distinct by (auto simp: conn_inv_def small_def)

text \<open>
  Calls over a socket are matched with their replies.  Whatever the interleaving of the calls, of
  the reader loops, of the server's goroutines and of failing reads and writes: the client's reader
  never finds a reply without a call (\<^verbatim>\<open>log.Fatalf\<close>); the server runs each request at most once, for
  a call that sent it; a call that returns without an error gets what the server's handler returned
  for this very request; and the replies are those of running the requests one after the other.  The
  assumptions are that gob decodes what it encoded, that no message is longer than its 32-bit length
  field can say, and that the 32-bit tags have not wrapped around.
\<close>

theorem demux_replies:
  assumes "codec_ok M" and "conn_reach M S st s" and "small M s"
  shows "creader s \<noteq> RFatal
    \<and> distinct (map ctag (callers s)) \<and> distinct (map htag (handlers s)) \<and> distinct (served s)
    \<and> (\<forall>h \<in> set (handlers s). \<exists>c \<in> set (callers s). ctag c = htag h \<and> creq c = hreq h)
    \<and> (\<forall>c \<in> set (callers s). \<forall>r. cpc c = CReturned r \<longrightarrow> rerr r = None \<longrightarrow>
         (\<exists>j \<in> set (served s). htag (handlers s ! j) = ctag c \<and> hreq (handlers s ! j) = creq c
            \<and> outcome (handlers s ! j) = (rep r, rok r)))
    \<and> serve_all S (map (\<lambda>j. (clntEnd s, hreq (handlers s ! j))) (served s)) st
        = Some (srvstate s, map (\<lambda>j. outcome (handlers s ! j)) (served s))"
proof -
  obtain qs rs where m: "matched s qs rs" and dist: "distinct (map ctag (callers s))"
    using conn_matched[OF assms] .
  note inv = conn_invariant[OF assms]
  have st: "streams_ok (callers s) (handlers s) qs rs" using m by (simp add: matched_def)
  have "\<exists>j \<in> set (served s). htag (handlers s ! j) = ctag c \<and> hreq (handlers s ! j) = creq c
          \<and> outcome (handlers s ! j) = (rep r, rok r)"
    if "c \<in> set (callers s)" "cpc c = CReturned r" "rerr r = None" for c r
    using inv_replies[OF inv(2,1) assms(3) that] inv(3) by (metis sequenced_def)
  moreover have "creader s \<noteq> RFatal" using m by (auto simp: matched_def reader_ok_def)
  moreover have "\<exists>c \<in> set (callers s). ctag c = htag h \<and> creq c = hreq h" if "h \<in> set (handlers s)" for h
    using st that by (auto simp: streams_ok_def posted_def)
  ultimately show ?thesis using dist st inv(3) by (simp add: sequenced_def streams_ok_def)
qed

section \<open>A broken connection\<close>

text \<open>
  Once the client's reader has left its loop, every step of the client brings it nearer to the state
  in which all calls have returned.
\<close>

fun call_work :: "call_pc \<Rightarrow> nat" where
  "call_work CTagged = 3"
| "call_work CRegistered = 2"
| "call_work CWaiting = 1"
| "call_work (CReturned r) = 0"

fun reader_work :: "(Ttag \<times> nat) list \<Rightarrow> creader_pc \<Rightarrow> nat" where
  "reader_work tab RClosing = 2 * length tab + 1"
| "reader_work tab (RDraining ts) = 2 * length ts"
| "reader_work tab (RDeliver k r (Some ts)) = 2 * length ts + 1"
| "reader_work tab p = 0"

definition work :: "'st conn \<Rightarrow> nat" where
  "work s = (\<Sum>c \<leftarrow> callers s. call_work (cpc c)) + reader_work (calls (callmap s)) (creader s)"

fun client_event :: "conn_event \<Rightarrow> bool" where
  "client_event (EPut k) \<longleftrightarrow> True"
| "client_event (EWrite k fault) \<longleftrightarrow> True"
| "client_event EReadErr \<longleftrightarrow> True"
| "client_event (EOutstanding ts) \<longleftrightarrow> True"
| "client_event EDrain \<longleftrightarrow> True"
| "client_event EDeliver \<longleftrightarrow> True"
| "client_event _ \<longleftrightarrow> False"

lemma work_pc_set:
  assumes "k < length cs" and "call_work p < call_work (cpc (cs ! k))"
  shows "(\<Sum>c \<leftarrow> pc_set cs k p. call_work (cpc c)) < (\<Sum>c \<leftarrow> cs. call_work (cpc c))"
  using assms
proof (induction cs arbitrary: k)
  case (Cons c cs)
  then show ?case by (cases k) (auto simp: pc_set_def)
qed simp

definition all_returned :: "'st conn \<Rightarrow> bool" where
  "all_returned s \<longleftrightarrow> (\<forall>c \<in> set (callers s). \<exists>r. cpc c = CReturned r)"

definition stopping :: "'st conn \<Rightarrow> bool" where
  "stopping s \<longleftrightarrow> \<not> reading (creader s)"

lemma not_returned_cases:
  assumes "\<not> all_returned s"
  obtains (tagged) k where "caller_at s k CTagged"
  | (registered) k where "caller_at s k CRegistered"
  | (waiting) k where "caller_at s k CWaiting" "\<And>k. k < length (callers s) \<Longrightarrow> sent (cpc (callers s ! k))"
proof -
  obtain k where k: "k < length (callers s)" "\<And>r. cpc (callers s ! k) \<noteq> CReturned r"
    using assms by (auto simp: all_returned_def in_set_conv_nth)
  show ?thesis
  proof (cases "\<exists>k < length (callers s). \<not> sent (cpc (callers s ! k))")
    case True
    then show ?thesis using that(1,2) by (auto simp: sent_def caller_at_def)
  next
    case False
    with k have "caller_at s k CWaiting" by (cases "cpc (callers s ! k)") (auto simp: caller_at_def sent_def)
    with False that(3) show ?thesis by blast
  qed
qed

lemma stopping_progress:
  assumes m: "matched s qs rs" and stop: "stopping s" and not: "\<not> all_returned s"
  shows "\<exists>e t. client_event e \<and> conn_exec M S e s = Some t \<and> work t < work s \<and> stopping t"
  using not
proof (cases rule: not_returned_cases)
  case (tagged k)
  have "cmClosed (callmap s)"
    using m stop by (auto simp: matched_def reader_ok_def stopping_def reading_def split: creader_pc.splits option.splits)
  with tagged stop have "conn_exec M S (EPut k) s = Some (SendReceive_put k s)" "work (SendReceive_put k s) < work s"
    "stopping (SendReceive_put k s)"
    using work_pc_set[of k "callers s"]
    by (auto simp: caller_at_def SendReceive_put_def cm_put_def set_caller_eq work_def stopping_def)
  then show ?thesis using client_event.simps(1) by blast
next
  case (registered k)
  obtain bs br where "stream_write (Some 0) (WriteCall M (ctag (callers s ! k)) (creq (callers s ! k)) True)
      (c2s s, cbroken s) = Some (bs, br)"
    by (cases "cbroken s") (auto simp: stream_write_def WriteCall_def Let_def PutUint32_def)
  then have "SendReceive_write M k (Some 0) s = Some (set_caller k CWaiting (s\<lparr>c2s := bs, cbroken := br\<rparr>))"
    by (simp add: SendReceive_write_def)
  moreover from registered stop have "work (set_caller k CWaiting (s\<lparr>c2s := bs, cbroken := br\<rparr>)) < work s"
    "stopping (set_caller k CWaiting (s\<lparr>c2s := bs, cbroken := br\<rparr>))"
    using work_pc_set[of k "callers s" CWaiting]
    by (auto simp: caller_at_def set_caller_eq work_def stopping_def)
  ultimately have "conn_exec M S (EWrite k (Some 0)) s = Some (set_caller k CWaiting (s\<lparr>c2s := bs, cbroken := br\<rparr>))"
    using registered by simp
  with \<open>work _ < work s\<close> \<open>stopping (set_caller _ _ _)\<close> show ?thesis using client_event.simps(2) by blast
next
  case (waiting k)
  show ?thesis
  proof (cases "creader s")
    case RClosing
    then have "conn_exec M S (EOutstanding (map fst (calls (callmap s)))) s
        = Some (s\<lparr>creader := RDraining (map fst (calls (callmap s)))\<rparr>)" by (simp add: outstanding_def)
    with RClosing show ?thesis
      by (intro exI[of _ "EOutstanding (map fst (calls (callmap s)))"] exI) (auto simp: work_def stopping_def reading_def outstanding_def)
  next
    case (RDraining ts)
    with m have ts: "outstanding ts (callmap s)" by (simp add: matched_def reader_ok_def)
    moreover have "(ctag (callers s ! k), k) \<in> set (calls (callmap s))"
      using m waiting RDraining by (auto simp: matched_def waiting_ok_def caller_at_def registered_def)
    then have "calls (callmap s) \<noteq> []" by auto
    ultimately obtain t ts' where cons: "ts = t # ts'" by (cases ts) (auto simp: outstanding_def)
    have "t \<in> fst ` set (calls (callmap s))"
      using ts mset_eq_setD[of ts "map fst (calls (callmap s))"] by (auto simp: outstanding_def cons)
    with m obtain i where "map_of (calls (callmap s)) t = Some i" by (auto simp: matched_def elim: table_ok_lookup)
    with RDraining cons show ?thesis
      by (intro exI[of _ EDrain] exI) (auto simp: dmx_reply_def cm_remove_def work_def stopping_def reading_def)
  next
    case (RDeliver i r after)
    with stop obtain ts where after: "after = Some ts" by (cases after) (auto simp: stopping_def reading_def)
    have "caller_at s i CWaiting"
      using m RDeliver after waiting(2)[of i] by (auto simp: matched_def reader_ok_def caller_at_def pc_simps)
    with RDeliver after show ?thesis using work_pc_set[of i "callers s" "CReturned r"]
      by (intro exI[of _ EDeliver] exI) (auto simp: work_def stopping_def reading_def set_caller_eq caller_at_def)
  qed (use stop m in \<open>auto simp: stopping_def reading_def matched_def reader_ok_def\<close>)
qed


lemma small_client:
  assumes "client_event e" and "conn_exec M S e s = Some t" and "small M s"
  shows "small M t" and "length (callers t) = length (callers s)"
  using assms by (cases e; auto simp: small_def requests_def hello_def client_defs server_defs pc_set_requests
        bind_Some_iff split: if_splits option.splits creader_pc.splits list.splits)+

lemma conn_run_append:
  "conn_run M S (es @ es') s = do { t \<leftarrow> conn_run M S es s; conn_run M S es' t }"
  by (induction es arbitrary: s) (auto split: option.splits bind_splits)

lemma conn_reach_exec: "conn_reach M S st s \<Longrightarrow> conn_exec M S e s = Some t \<Longrightarrow> conn_reach M S st t"
  by (rule conn.reach_step) (auto simp: conn_step_def)

lemma conn_run_reach:
  "conn_run M S es s = Some t \<Longrightarrow> conn_reach M S st s \<Longrightarrow> conn_reach M S st t"
  by (induction es arbitrary: s) (auto simp: bind_Some_iff intro: conn_reach_exec)

lemma stopping_returns:
  assumes "codec_ok M" and "conn_reach M S st s" and "small M s" and "stopping s"
  shows "\<exists>es t. list_all client_event es \<and> conn_run M S es s = Some t \<and> all_returned t
           \<and> length (callers t) = length (callers s)"
  using assms(2-)
proof (induction "work s" arbitrary: s rule: less_induct)
  case less
  show ?case
  proof (cases "all_returned s")
    case True
    then show ?thesis by (intro exI[of _ "[]"] exI[of _ s]) simp
  next
    case False
    obtain qs rs where "matched s qs rs" using conn_matched[OF assms(1) less.prems(1,2)] .
    from stopping_progress[OF this less.prems(3) False] obtain e t
      where e: "client_event e" "conn_exec M S e s = Some t" "work t < work s" "stopping t" by metis
    have "conn_reach M S st t" using conn_reach_exec[OF less.prems(1) e(2)] .
    from less.hyps[OF e(3) this small_client(1)[OF e(1,2) less.prems(2)] e(4)] obtain es u
      where u: "list_all client_event es" "conn_run M S es t = Some u" "all_returned u"
        "length (callers u) = length (callers t)" by metis
    with e small_client(2)[OF e(1,2) less.prems(2)] show ?thesis
      by (intro exI[of _ "e # es"] exI[of _ u]) simp
  qed
qed

lemma reading_stops:
  assumes m: "matched s qs rs" and "reading (creader s)"
  obtains es t where "list_all client_event es" and "conn_run M S es s = Some t" and "stopping t"
proof -
  have stop: "\<exists>t. conn_run M S [EReadErr] s = Some t \<and> stopping t" if "creader s = RReading" for s
    using that by (simp add: stopping_def reading_def)
  show ?thesis
  proof (cases "creader s = RReading")
    case True
    with stop that[of "[EReadErr]"] show ?thesis by auto
  next
    case False
    with assms(2) obtain k r where rd: "creader s = RDeliver k r None" by (auto simp: reading_def)
    with m have "caller_at s k CWaiting" by (simp add: matched_def reader_ok_def caller_at_def)
    with rd have "conn_run M S [EDeliver] s = Some (set_caller k (CReturned r) (s\<lparr>creader := RReading\<rparr>))" by simp
    moreover obtain t where "conn_run M S [EReadErr] (set_caller k (CReturned r) (s\<lparr>creader := RReading\<rparr>)) = Some t"
        "stopping t"
      using stop[of "set_caller k (CReturned r) (s\<lparr>creader := RReading\<rparr>)"] by (auto simp: set_caller_eq)
    ultimately show ?thesis using that[of "[EDeliver] @ [EReadErr]"] by (simp only: conn_run_append) simp
  qed
qed

lemma small_run:
  "list_all client_event es \<Longrightarrow> conn_run M S es s = Some t \<Longrightarrow> small M s
   \<Longrightarrow> small M t \<and> length (callers t) = length (callers s)"
proof (induction es arbitrary: s)
  case (Cons e es)
  then obtain u where "conn_exec M S e s = Some u" "conn_run M S es u = Some t" by (auto simp: bind_Some_iff)
  with Cons small_client[of e M S s u] show ?case by auto
qed simp

text \<open>
  C39. A broken connection leaves no call waiting.  From every reachable state of a connection, the
  client alone (its calls and its reader, with no help of the server, and with writes that fail) can
  bring every \<open>SendReceive\<close> that was started to its return: the calls in the table are answered with an
  error by the reader, and a call that comes too late is refused by the closed table.  No order of the
  operations loses a call between the table and the list of outstanding tags.
\<close>

theorem demux_no_hang:
  assumes "codec_ok M" and "conn_reach M S st s" and "small M s"
  shows "\<exists>es t. list_all client_event es \<and> conn_run M S es s = Some t \<and> all_returned t
           \<and> length (callers t) = length (callers s)"
proof (cases "stopping s")
  case True
  then show ?thesis using stopping_returns[OF assms] by blast
next
  case False
  obtain qs rs where "matched s qs rs" using conn_matched[OF assms] .
  with False obtain es t where t: "list_all client_event es" "conn_run M S es s = Some t" "stopping t"
    using reading_stops unfolding stopping_def by metis
  have t': "small M t" "length (callers t) = length (callers s)" using small_run[OF t(1,2) assms(3)] by auto
  from stopping_returns[OF assms(1) conn_run_reach[OF t(2) assms(2)] t'(1) t(3)] obtain es' u
    where "list_all client_event es'" "conn_run M S es' t = Some u" "all_returned u" "length (callers u) = length (callers t)"
    by metis
  with t t' show ?thesis by (intro exI[of _ "es @ es'"] exI[of _ u]) (simp add: conn_run_append)
qed


text \<open>
  A run with two calls whose replies come back in the other order, and a third call that the broken
  connection leaves between its tag and the table.  The server counts its requests and echoes them.
\<close>

definition counting :: "nat serve" where
  "counting c r n = Some (n + 1, r @ c, True)"

definition sample_events :: "conn_event list" where
  "sample_events =
     [ECall ''a'', ECall ''b'', EPut 1, EPut 0, EWrite 0 None, SInit, EWrite 1 None, SRead, SRead,
      SServe 1, SServe 0, SWrite 1 None, ERead, EDeliver, SWrite 0 None, ECall ''c'']"

definition sample_conn :: "nat conn" where
  "sample_conn = the (conn_run plain_codec counting sample_events (NewDemuxClnt plain_codec ''me'' 0))"

text \<open>What the run ends in.\<close>

definition conn_view :: "codec \<Rightarrow> 'st conn \<Rightarrow> msg option list \<times> msg list \<times> msg \<times> nat list \<times> call_pc list" where
  "conn_view M s = (map reply_msg (handlers s), requests s, hello M s, served s, map cpc (callers s))"

lemma sample_view:
  "map_option (conn_view plain_codec) (conn_run plain_codec counting sample_events (NewDemuxClnt plain_codec ''me'' 0))
   = Some ([Some \<lparr>Tag = 1, Data = ''ame'', Ok = True\<rparr>, Some \<lparr>Tag = 2, Data = ''bme'', Ok = True\<rparr>],
       [\<lparr>Tag = 1, Data = ''a'', Ok = True\<rparr>, \<lparr>Tag = 2, Data = ''b'', Ok = True\<rparr>, \<lparr>Tag = 3, Data = ''c'', Ok = True\<rparr>],
       \<lparr>Tag = 0, Data = ''me'', Ok = True\<rparr>, [1, 0],
       [CWaiting, CReturned \<lparr>rep = ''bme'', rok = True, rerr = None\<rparr>, CTagged])"
  by code_simp

lemma sample_conn_run:
  "conn_run plain_codec counting sample_events (NewDemuxClnt plain_codec ''me'' 0) = Some sample_conn"
  using sample_view unfolding sample_conn_def by auto

lemma sample_conn_view:
  "map reply_msg (handlers sample_conn)
     = [Some \<lparr>Tag = 1, Data = ''ame'', Ok = True\<rparr>, Some \<lparr>Tag = 2, Data = ''bme'', Ok = True\<rparr>]"
  "requests sample_conn
     = [\<lparr>Tag = 1, Data = ''a'', Ok = True\<rparr>, \<lparr>Tag = 2, Data = ''b'', Ok = True\<rparr>, \<lparr>Tag = 3, Data = ''c'', Ok = True\<rparr>]"
  "hello plain_codec sample_conn = \<lparr>Tag = 0, Data = ''me'', Ok = True\<rparr>"
  "served sample_conn = [1, 0]"
  "map cpc (callers sample_conn) = [CWaiting, CReturned \<lparr>rep = ''bme'', rok = True, rerr = None\<rparr>, CTagged]"
  using sample_view unfolding sample_conn_run conn_view_def by (simp_all only: option.map option.inject prod.inject)

lemma sample_conn_reach: "conn_reach plain_codec counting 0 sample_conn"
  by (rule conn_run_reach[OF sample_conn_run]) (auto intro!: conn.reach_init simp: conn_init_def)

lemma sample_conn_small: "small plain_codec sample_conn"
proof -
  have "length (callers sample_conn) = 3"
    using arg_cong[OF sample_conn_view(2), of length] by (simp add: requests_def)
  moreover have "list_all (\<lambda>h. pred_option (fits M) (reply_msg h)) hs = list_all (pred_option (fits M)) (map reply_msg hs)"
    for M hs by (simp add: list_all_iff)
  ultimately show ?thesis using sample_conn_view by (simp add: small_def fits_def plain_codec_def)
qed

theorem demux_replies_witness:
  "creader sample_conn \<noteq> RFatal \<and> served sample_conn = [1, 0]
   \<and> map cpc (callers sample_conn)
       = [CWaiting, CReturned \<lparr>rep = ''bme'', rok = True, rerr = None\<rparr>, CTagged]
   \<and> serve_all counting (map (\<lambda>j. (clntEnd sample_conn, hreq (handlers sample_conn ! j))) (served sample_conn)) 0
       = Some (srvstate sample_conn, map (\<lambda>j. outcome (handlers sample_conn ! j)) (served sample_conn))"
  using demux_replies[OF plain_codec_ok sample_conn_reach sample_conn_small] sample_conn_view(4,5) by blast

theorem demux_no_hang_witness:
  "\<exists>es t. list_all client_event es \<and> conn_run plain_codec counting es sample_conn = Some t \<and> all_returned t
     \<and> length (callers t) = length (callers sample_conn)"
  by (rule demux_no_hang[OF plain_codec_ok sample_conn_reach sample_conn_small])

end
