(* ===== verification/SockRpc.thy ===== *)
theory SockRpc
  imports DemuxProps
begin

text \<open>
  RPCs over a UNIX socket (\<^verbatim>\<open>tester1/sockrpc\<close>): the client that dials a socket and multiplexes its
  calls, and the server that accepts connections and dispatches every request of every connection to
  one \<^verbatim>\<open>labrpc.Server\<close>.  The connections are those of \<open>Demux\<close>; here they share the server object, and
  \<open>order\<close> records which request of which connection ran when.
\<close>

record RPCArgs =
  Method :: string
  Args :: bytes

text \<open>The gob encoding of \<open>RPCArgs\<close>.\<close>

record argcodec =
  marshalArgs :: "RPCArgs \<Rightarrow> bytes"
  unmarshalArgs :: "bytes \<Rightarrow> RPCArgs"

definition argcodec_ok :: "argcodec \<Rightarrow> bool" where
  "argcodec_ok A \<longleftrightarrow> (\<forall>r. unmarshalArgs A (marshalArgs A r) = r)"

definition SockName :: "string \<Rightarrow> string" where
  "SockName endName = ''/tmp/6.5840-'' @ endName"

section \<open>The client\<close>

text \<open>What \<open>RPC\<close> sends, and what it makes of the outcome of \<open>SendReceive\<close>.\<close>

definition RPC_request :: "argcodec \<Rightarrow> string \<Rightarrow> bytes \<Rightarrow> bytes" where
  "RPC_request A m args = marshalArgs A \<lparr>Method = m, Args = args\<rparr>"

definition RPC_result :: "reply \<Rightarrow> bytes \<times> bool" where
  "RPC_result r = (case rerr r of Some e \<Rightarrow> ([], False) | None \<Rightarrow> (rep r, rok r))"

text \<open>\<open>RPCMarshall\<close> decodes the reply into the caller's variable, which keeps its value otherwise.\<close>

definition RPCMarshall :: "('a \<Rightarrow> bytes) \<Rightarrow> (bytes \<Rightarrow> 'r) \<Rightarrow> (string \<Rightarrow> bytes \<Rightarrow> bytes \<times> bool)
    \<Rightarrow> string \<Rightarrow> 'a \<Rightarrow> 'r \<Rightarrow> 'r \<times> bool" where
  "RPCMarshall enc dec call m args reply =
     (case call m (enc args) of (b, ok) \<Rightarrow> if \<not> ok then (reply, ok) else (dec b, ok))"

text \<open>
  \<open>dial\<close>: at most 100 attempts; \<open>net.Dial\<close> is the outcome of the \<open>i\<close>-th one, an error or a connection.
\<close>

fun dial_loop :: "(nat \<Rightarrow> 'e + 'c) \<Rightarrow> nat \<Rightarrow> nat \<Rightarrow> 'e option \<Rightarrow> 'e option + 'c" where
  "dial_loop netDial i 0 r = Inl r"
| "dial_loop netDial i (Suc n) r =
     (case netDial i of Inr c \<Rightarrow> Inr c | Inl e \<Rightarrow> dial_loop netDial (Suc i) n (Some e))"

definition dial :: "(nat \<Rightarrow> 'e + 'c) \<Rightarrow> 'e option + 'c" where
  "dial netDial = dial_loop netDial 0 100 None"

text \<open>\<open>getDmx\<close>: \<^verbatim>\<open>log.Fatalf\<close> is \<open>None\<close>; writing the first message may fail.\<close>

definition getDmx :: "codec \<Rightarrow> string \<Rightarrow> (nat \<Rightarrow> 'e + unit) \<Rightarrow> bool \<Rightarrow> 'st \<Rightarrow> 'st conn option" where
  "getDmx M clnt netDial write_ok st =
     (case dial netDial of
        Inl e \<Rightarrow> None
      | Inr c \<Rightarrow> if write_ok then Some (NewDemuxClnt M clnt st) else None)"

section \<open>The server\<close>

record 's RPCSrv =
  sock :: string
  listening :: bool
  srv :: "'s Server"

definition NewRPCSrv :: "string \<Rightarrow> 's \<Rightarrow> 's RPCSrv" where
  "NewRPCSrv name s = \<lparr>sock = name, listening = True, srv = MakeServer s\<rparr>"

definition RPCSrv_Close :: "'s RPCSrv \<Rightarrow> 's RPCSrv" where
  "RPCSrv_Close rs = rs\<lparr>listening := False\<rparr>"

definition RPCSrv_AddService :: "string \<Rightarrow> 's method_info list \<Rightarrow> 's RPCSrv \<Rightarrow> 's RPCSrv" where
  "RPCSrv_AddService name ms rs = rs\<lparr>srv := AddService (MakeService name ms) (srv rs)\<rparr>"

definition ServeRequest :: "argcodec \<Rightarrow> 's Server serve" where
  "ServeRequest A clnt b rs =
     (let req = unmarshalArgs A b in Server_Dispatch (Method req) clnt (Args req) rs)"

section \<open>Connections of a server\<close>

record 's rpcsys =
  rpcsrv :: "'s RPCSrv"
  conns :: "'s Server conn list"
  order :: "(nat \<times> nat) list"

datatype rpc_event =
    RDial string "nat \<Rightarrow> string + unit" bool
  | RCall nat string bytes
  | RConn nat conn_event
  | RClose

fun is_call :: "conn_event \<Rightarrow> bool" where
  "is_call (ECall b) \<longleftrightarrow> True"
| "is_call _ \<longleftrightarrow> False"

text \<open>
  One step: a client dials and \<open>listen\<close> accepts; an \<open>RPC\<close> starts on a connection; a goroutine of a
  connection takes a step, on the shared server object; the listener is closed.
\<close>

fun rpc_exec :: "codec \<Rightarrow> argcodec \<Rightarrow> rpc_event \<Rightarrow> 's rpcsys \<Rightarrow> 's rpcsys option" where
  "rpc_exec M A (RDial clnt netDial write_ok) s =
     (if listening (rpcsrv s)
      then do { c \<leftarrow> getDmx M clnt netDial write_ok (srv (rpcsrv s)); Some (s\<lparr>conns := conns s @ [c]\<rparr>) }
      else None)"
| "rpc_exec M A (RCall i m args) s =
     (if i < length (conns s)
      then Some (s\<lparr>conns := (conns s)[i := SendReceive_tag (RPC_request A m args) (conns s ! i)]\<rparr>)
      else None)"
| "rpc_exec M A (RConn i e) s =
     (if i < length (conns s) \<and> \<not> is_call e
      then do {
        c \<leftarrow> conn_exec M (ServeRequest A) e ((conns s ! i)\<lparr>srvstate := srv (rpcsrv s)\<rparr>);
        Some (s\<lparr>rpcsrv := (rpcsrv s)\<lparr>srv := srvstate c\<rparr>, conns := (conns s)[i := c],
                order := (case e of SServe j \<Rightarrow> order s @ [(i, j)] | _ \<Rightarrow> order s)\<rparr>)
      }
      else None)"
| "rpc_exec M A RClose s = Some (s\<lparr>rpcsrv := RPCSrv_Close (rpcsrv s)\<rparr>)"

fun rpc_run :: "codec \<Rightarrow> argcodec \<Rightarrow> rpc_event list \<Rightarrow> 's rpcsys \<Rightarrow> 's rpcsys option" where
  "rpc_run M A [] s = Some s"
| "rpc_run M A (e # es) s = do { t \<leftarrow> rpc_exec M A e s; rpc_run M A es t }"

definition rpc_init :: "'s RPCSrv \<Rightarrow> 's rpcsys \<Rightarrow> bool" where
  "rpc_init R s \<longleftrightarrow> s = \<lparr>rpcsrv = R, conns = [], order = []\<rparr>"

definition rpc_step :: "codec \<Rightarrow> argcodec \<Rightarrow> 's rpcsys \<Rightarrow> 's rpcsys \<Rightarrow> bool" where
  "rpc_step M A s t \<longleftrightarrow> (\<exists>e. rpc_exec M A e s = Some t)"

interpretation rpcs: transition_system "rpc_init R" "rpc_step M A" for M A R
  by unfold_locales (auto simp: rpc_init_def)

abbreviation rpc_reach :: "codec \<Rightarrow> argcodec \<Rightarrow> 's RPCSrv \<Rightarrow> 's rpcsys \<Rightarrow> bool" where
  "rpc_reach M A R \<equiv> transition_system.reach (rpc_init R) (rpc_step M A)"

section \<open>Dialing\<close>

lemma dial_loop_sound: "dial_loop netDial i n r = Inr c \<Longrightarrow> \<exists>k. i \<le> k \<and> k < i + n \<and> netDial k = Inr c"
proof (induction n arbitrary: i r)
  case (Suc n)
  show ?case
  proof (cases "netDial i")
    case (Inl e)
    with Suc.prems Suc.IH[of "Suc i" "Some e"] show ?thesis by (auto intro: Suc_leD)
  next
    case (Inr d)
    with Suc.prems show ?thesis by (intro exI[of _ i]) auto
  qed
qed simp

lemma dial_loop_complete:
  "i \<le> k \<Longrightarrow> k < i + n \<Longrightarrow> netDial k = Inr c \<Longrightarrow> \<exists>c. dial_loop netDial i n r = Inr c"
proof (induction n arbitrary: i r)
  case (Suc n)
  then show ?case by (cases "k = i") (auto split: sum.splits)
qed simp

lemma dial_iff: "(\<exists>c. dial netDial = Inr c) \<longleftrightarrow> (\<exists>k < 100. \<exists>c. netDial k = Inr c)"
  using dial_loop_sound[of netDial 0 100 None] dial_loop_complete[of 0 _ 100 netDial _ None]
  by (fastforce simp: dial_def)

section \<open>The order of dispatch\<close>

text \<open>What a step of a connection does to its handlers, unless it runs one.\<close>

lemma conn_exec_handlers:
  assumes "conn_exec M S e s = Some t" and "\<And>j. e \<noteq> SServe j"
  shows "srvstate t = srvstate s" and "clntEnd t = clntEnd s" and "length (handlers s) \<le> length (handlers t)"
    and "\<And>j. j < length (handlers s) \<Longrightarrow> hreq (handlers t ! j) = hreq (handlers s ! j)
           \<and> outcome (handlers t ! j) = outcome (handlers s ! j)
           \<and> (hpc (handlers t ! j) = HServing \<longleftrightarrow> hpc (handlers s ! j) = HServing)"
    and "\<And>j. length (handlers s) \<le> j \<Longrightarrow> j < length (handlers t) \<Longrightarrow> hpc (handlers t ! j) = HServing"
  using assms by (cases e; auto simp: client_defs server_defs bind_Some_iff nth_append nth_hpc_set outcome_def
      split: if_splits option.splits creader_pc.splits list.splits hpc.splits)+


text \<open>The invariant of the server and its connections.\<close>

definition request_of :: "'s rpcsys \<Rightarrow> nat \<times> nat \<Rightarrow> string \<times> bytes" where
  "request_of s p = (case p of (i, j) \<Rightarrow> (clntEnd (conns s ! i), hreq (handlers (conns s ! i) ! j)))"

definition outcome_of :: "'s rpcsys \<Rightarrow> nat \<times> nat \<Rightarrow> bytes \<times> bool" where
  "outcome_of s p = (case p of (i, j) \<Rightarrow> outcome (handlers (conns s ! i) ! j))"

definition order_ok :: "argcodec \<Rightarrow> 's RPCSrv \<Rightarrow> 's rpcsys \<Rightarrow> bool" where
  "order_ok A R s \<longleftrightarrow> distinct (order s)
     \<and> (\<forall>i j. (i, j) \<in> set (order s) \<longleftrightarrow>
          i < length (conns s) \<and> j < length (handlers (conns s ! i)) \<and> hpc (handlers (conns s ! i) ! j) \<noteq> HServing)
     \<and> serve_all (ServeRequest A) (map (request_of s) (order s)) (srv R)
         = Some (srv (rpcsrv s), map (outcome_of s) (order s))"

definition conn_ok :: "codec \<Rightarrow> argcodec \<Rightarrow> 'st conn \<Rightarrow> bool" where
  "conn_ok M A c \<longleftrightarrow> tags_ok c \<and> conn_inv M c \<and> introduced c
     \<and> (\<forall>x \<in> set (callers c). \<exists>m args. creq x = RPC_request A m args)"

definition all_small :: "codec \<Rightarrow> 's rpcsys \<Rightarrow> bool" where
  "all_small M s \<longleftrightarrow> list_all (small M) (conns s)"

lemma order_ok_keep:
  assumes ok: "order_ok A R s" and "order t = order s" and "srv (rpcsrv t) = srv (rpcsrv s)"
    and len: "length (conns s) \<le> length (conns t)"
    and old: "\<And>i. i < length (conns s) \<Longrightarrow> clntEnd (conns t ! i) = clntEnd (conns s ! i)
       \<and> length (handlers (conns s ! i)) \<le> length (handlers (conns t ! i))"
    and h: "\<And>i j. i < length (conns s) \<Longrightarrow> j < length (handlers (conns s ! i)) \<Longrightarrow>
       hreq (handlers (conns t ! i) ! j) = hreq (handlers (conns s ! i) ! j)
       \<and> outcome (handlers (conns t ! i) ! j) = outcome (handlers (conns s ! i) ! j)
       \<and> (hpc (handlers (conns t ! i) ! j) = HServing \<longleftrightarrow> hpc (handlers (conns s ! i) ! j) = HServing)"
    and new: "\<And>i j. i < length (conns t) \<Longrightarrow> j < length (handlers (conns t ! i)) \<Longrightarrow>
       \<not> (i < length (conns s) \<and> j < length (handlers (conns s ! i))) \<Longrightarrow> hpc (handlers (conns t ! i) ! j) = HServing"
  shows "order_ok A R t"
proof -
  have "request_of t p = request_of s p" "outcome_of t p = outcome_of s p" if "p \<in> set (order s)" for p
    using ok old h that by (cases p; auto simp: order_ok_def request_of_def outcome_of_def)+
  then have maps: "map (request_of t) (order s) = map (request_of s) (order s)"
    "map (outcome_of t) (order s) = map (outcome_of s) (order s)" by auto
  have "(i, j) \<in> set (order s) \<longleftrightarrow>
      i < length (conns t) \<and> j < length (handlers (conns t ! i)) \<and> hpc (handlers (conns t ! i) ! j) \<noteq> HServing" for i j
  proof (cases "i < length (conns s) \<and> j < length (handlers (conns s ! i))")
    case True
    with ok old[of i] h[of i j] len show ?thesis by (auto simp: order_ok_def)
  next
    case False
    with ok new[of i j] show ?thesis by (auto simp: order_ok_def)
  qed
  with ok show ?thesis unfolding order_ok_def assms(2,3) maps by blast
qed


lemma srvstate_irrelevant [simp]:
  "small M (c\<lparr>srvstate := st\<rparr>) = small M c" "conn_inv M (c\<lparr>srvstate := st\<rparr>) = conn_inv M c"
  "tags_ok (c\<lparr>srvstate := st\<rparr>) = tags_ok c" "introduced (c\<lparr>srvstate := st\<rparr>) = introduced c"
  by (simp_all add: small_def requests_def hello_def conn_inv_def greeting_def fresh_srv_def matched_def tags_ok_def
      introduced_def)

lemma conn_exec_creq:
  assumes "conn_exec M S e s = Some t" and "\<not> is_call e"
  shows "map creq (callers t) = map creq (callers s)"
proof -
  have "map creq (pc_set cs k p) = map creq cs" for cs k p
    by (cases "k < length cs") (auto simp: pc_set_def map_update list_update_same_conv not_less list_update_beyond)
  with assms show ?thesis
    by (cases e) (auto simp: client_defs server_defs bind_Some_iff
        split: if_splits option.splits creader_pc.splits list.splits hpc.splits)
qed

lemma conn_ok_exec:
  assumes "codec_ok M" and "conn_exec M S e (c\<lparr>srvstate := st\<rparr>) = Some d" and "\<not> is_call e" and "conn_ok M A c"
    and "small M c"
  shows "conn_ok M A d"
proof -
  let ?c = "c\<lparr>srvstate := st\<rparr>"
  have "tags_ok ?c" "conn_inv M ?c" "introduced ?c" "small M ?c" using assms(4,5) by (simp_all add: conn_ok_def)
  then have "tags_ok d" "conn_inv M d" "introduced d"
    using tags_ok_exec[OF assms(2)] conn_inv_exec[OF assms(1,2)] introduced_exec[OF assms(1,2)] by auto
  moreover have "creq ` set (callers d) = creq ` set (callers c)"
    using arg_cong[OF conn_exec_creq[OF assms(2,3)], of set] by simp
  then have "\<exists>m args. creq x = RPC_request A m args" if "x \<in> set (callers d)" for x
    using that assms(4) unfolding conn_ok_def by (metis (no_types, lifting) imageE imageI)
  ultimately show ?thesis by (simp add: conn_ok_def)
qed


lemma order_ok_serve:
  assumes ok: "order_ok A R s" and i: "i < length (conns s)" and intro: "introduced (conns s ! i)"
    and e: "conn_exec M (ServeRequest A) (SServe j) ((conns s ! i)\<lparr>srvstate := srv (rpcsrv s)\<rparr>) = Some c"
  shows "order_ok A R (s\<lparr>rpcsrv := (rpcsrv s)\<lparr>srv := srvstate c\<rparr>, conns := (conns s)[i := c], order := order s @ [(i, j)]\<rparr>)"
    (is "order_ok A R ?t")
proof -
  let ?c = "conns s ! i" and ?hs = "handlers (conns s ! i)"
  from e obtain st b v where j: "j < length ?hs" "hpc (?hs ! j) = HServing"
    and r: "ServeRequest A (peer ?c) (hreq (?hs ! j)) (srv (rpcsrv s)) = Some (st, b, v)"
    and c: "handlers c = hpc_set ?hs j (HReplying b v)" "srvstate c = st" "clntEnd c = clntEnd ?c"
    by (auto simp: srv_serve_def set_handler_eq bind_Some_iff split: if_splits)
  have "peer ?c = clntEnd ?c" using intro j(1) by (auto simp: introduced_def split: if_splits)
  with r have req: "ServeRequest A (clntEnd ?c) (hreq (?hs ! j)) (srv (rpcsrv s)) = Some (st, b, v)" by simp
  have notin: "(i, j) \<notin> set (order s)" using ok j by (auto simp: order_ok_def)
  have "request_of ?t p = request_of s p" "outcome_of ?t p = outcome_of s p" if "p \<in> set (order s)" for p
    using notin that j(1) i
    by (cases p; auto simp: request_of_def outcome_of_def nth_list_update c nth_hpc_set)+
  then have "map (request_of ?t) (order s) = map (request_of s) (order s)"
    "map (outcome_of ?t) (order s) = map (outcome_of s) (order s)" by auto
  moreover have "request_of ?t (i, j) = (clntEnd ?c, hreq (?hs ! j))" "outcome_of ?t (i, j) = (b, v)"
    using i j(1) by (auto simp: request_of_def outcome_of_def c nth_hpc_set outcome_def)
  moreover have "serve_all (ServeRequest A) (map (request_of s) (order s) @ [(clntEnd ?c, hreq (?hs ! j))]) (srv R)
      = Some (st, map (outcome_of s) (order s) @ [(b, v)])"
    using ok req by (intro serve_all_snoc) (auto simp: order_ok_def)
  ultimately have "serve_all (ServeRequest A) (map (request_of ?t) (order ?t)) (srv R)
      = Some (srv (rpcsrv ?t), map (outcome_of ?t) (order ?t))" by (simp add: c del: map_eq_conv)
  moreover have "(k, l) \<in> set (order ?t) \<longleftrightarrow> k < length (conns ?t) \<and> l < length (handlers (conns ?t ! k))
      \<and> hpc (handlers (conns ?t ! k) ! l) \<noteq> HServing" for k l
    using ok i j by (auto simp: order_ok_def c nth_list_update nth_hpc_set split: if_splits)
  ultimately show ?thesis using ok notin unfolding order_ok_def by simp
qed

lemma order_ok_conn:
  assumes ok: "order_ok A R s" and i: "i < length (conns s)" and intro: "introduced (conns s ! i)"
    and e: "conn_exec M (ServeRequest A) e ((conns s ! i)\<lparr>srvstate := srv (rpcsrv s)\<rparr>) = Some c"
  shows "order_ok A R (s\<lparr>rpcsrv := (rpcsrv s)\<lparr>srv := srvstate c\<rparr>, conns := (conns s)[i := c],
           order := (case e of SServe j \<Rightarrow> order s @ [(i, j)] | _ \<Rightarrow> order s)\<rparr>)"
proof (cases "\<exists>j. e = SServe j")
  case True
  then show ?thesis using order_ok_serve[OF ok i intro] e by auto
next
  case False
  then have "(case e of SServe j \<Rightarrow> order s @ [(i, j)] | _ \<Rightarrow> order s) = order s" by (auto split: conn_event.splits)
  moreover have "order_ok A R (s\<lparr>rpcsrv := (rpcsrv s)\<lparr>srv := srvstate c\<rparr>, conns := (conns s)[i := c]\<rparr>)"
    using conn_exec_handlers[OF e] False i
    by (intro order_ok_keep[OF ok]) (auto simp: nth_list_update split: if_splits)
  ultimately show ?thesis by simp
qed


lemma conn_ok_call: "conn_ok M A c \<Longrightarrow> conn_ok M A (SendReceive_tag (RPC_request A m args) c)"
  using tags_ok_exec[of M _ "ECall (RPC_request A m args)" c] conn_inv_same[of M c "SendReceive_tag (RPC_request A m args) c"]
    matched_tag[of c]
  by (auto simp: conn_ok_def SendReceive_tag_def fresh_srv_def introduced_def)

lemma all_small_exec:
  assumes "rpc_exec M A e s = Some t" and "all_small M t"
  shows "all_small M s"
proof -
  have upd: "list_all (small M) cs" if "list_all (small M) (cs[i := d])" "i < length cs" "small M d \<Longrightarrow> small M (cs ! i)"
    for cs :: "'a Server conn list" and i d
    unfolding list_all_length
  proof (intro allI impI)
    fix k assume "k < length cs"
    with that(1) have "small M (cs[i := d] ! k)" by (simp add: list_all_length)
    with that(2,3) show "small M (cs ! k)" by (cases "k = i") auto
  qed
  show ?thesis
  proof (cases e)
    case (RCall i m args)
    with assms show ?thesis using small_exec[of M "ServeRequest A" "ECall (RPC_request A m args)" "conns s ! i"]
      by (auto simp: all_small_def split: if_splits intro: upd)
  next
    case (RConn i ev)
    with assms obtain c where "i < length (conns s)" "list_all (small M) ((conns s)[i := c])"
        "conn_exec M (ServeRequest A) ev ((conns s ! i)\<lparr>srvstate := srv (rpcsrv s)\<rparr>) = Some c"
      by (auto simp: all_small_def bind_Some_iff split: if_splits)
    then show ?thesis using upd small_exec[of M "ServeRequest A" ev "(conns s ! i)\<lparr>srvstate := srv (rpcsrv s)\<rparr>"]
      by (auto simp: all_small_def)
  qed (use assms in \<open>auto simp: all_small_def bind_Some_iff split: if_splits\<close>)
qed

lemma conn_ok_new:
  assumes "fits M (hello M (NewDemuxClnt M clnt st))"
  shows "conn_ok M A (NewDemuxClnt M clnt st)"
  using conn_inv_new[OF assms] by (simp add: conn_ok_def NewDemuxClnt_def tags_ok_def introduced_def fresh_srv_def)

lemma rpc_invariant:
  assumes ok: "codec_ok M" and "rpc_reach M A R s" and "all_small M s"
  shows "list_all (conn_ok M A) (conns s)" and "order_ok A R s"
proof -
  let ?I = "\<lambda>s. all_small M s \<longrightarrow> list_all (conn_ok M A) (conns s) \<and> order_ok A R s"
  have "?I s" using assms(2)
  proof (rule rpcs.reach_invariant)
    fix s :: "'a rpcsys" assume "rpc_init R s"
    then show "?I s" by (simp add: rpc_init_def order_ok_def)
  next
    fix s t :: "'a rpcsys" assume I: "?I s" and "rpc_step M A s t"
    then obtain e where e: "rpc_exec M A e s = Some t" by (auto simp: rpc_step_def)
    show "?I t"
    proof
      assume small: "all_small M t"
      from all_small_exec[OF e this] I have inv: "all_small M s" "list_all (conn_ok M A) (conns s)" "order_ok A R s" by auto
      show "list_all (conn_ok M A) (conns t) \<and> order_ok A R t"
      proof (cases e)
        case (RDial clnt netDial w)
        with e have t: "t = s\<lparr>conns := conns s @ [NewDemuxClnt M clnt (srv (rpcsrv s))]\<rparr>"
          by (auto simp: getDmx_def bind_Some_iff split: if_splits sum.splits)
        have "order_ok A R t"
          unfolding t by (rule order_ok_keep[OF inv(3)]) (auto simp: nth_append NewDemuxClnt_def)
        with inv(2) small conn_ok_new show ?thesis by (auto simp: t all_small_def small_def)
      next
        case (RCall i m args)
        with e have t: "t = s\<lparr>conns := (conns s)[i := SendReceive_tag (RPC_request A m args) (conns s ! i)]\<rparr>"
          and i: "i < length (conns s)" by (auto split: if_splits)
        have "order_ok A R t"
          unfolding t using i
          by (intro order_ok_keep[OF inv(3)]) (auto simp: nth_list_update SendReceive_tag_def split: if_splits)
        with inv(2) i conn_ok_call[of M A "conns s ! i" m args] show ?thesis
          by (auto simp: t list_all_length nth_list_update)
      next
        case (RConn i ev)
        with e obtain c where i: "i < length (conns s)" and ev: "\<not> is_call ev"
          and c: "conn_exec M (ServeRequest A) ev ((conns s ! i)\<lparr>srvstate := srv (rpcsrv s)\<rparr>) = Some c"
          and t: "t = s\<lparr>rpcsrv := (rpcsrv s)\<lparr>srv := srvstate c\<rparr>, conns := (conns s)[i := c],
                order := (case ev of SServe j \<Rightarrow> order s @ [(i, j)] | _ \<Rightarrow> order s)\<rparr>"
          by (auto simp: bind_Some_iff split: if_splits)
        have "conn_ok M A (conns s ! i)" "small M (conns s ! i)" using inv i by (auto simp: list_all_length all_small_def)
        with conn_ok_exec[OF ok c ev] order_ok_conn[OF inv(3) i _ c] inv(2) i show ?thesis
          by (auto simp: t list_all_length nth_list_update conn_ok_def)
      next
        case RClose
        with e inv show ?thesis
          by (auto simp: RPCSrv_Close_def order_ok_def request_of_def outcome_of_def cong: map_cong)
      qed
    qed
  qed
  with assms(3) show "list_all (conn_ok M A) (conns s)" and "order_ok A R s" by auto
qed



text \<open>A server with one method that counts its calls, and a client that calls it.\<close>

definition plain_args :: argcodec where
  "plain_args = \<lparr>
     marshalArgs = (\<lambda>r. replicate (length (Method r)) CHR ''1'' @ CHR ''0'' # Method r @ Args r),
     unmarshalArgs = (\<lambda>b. let n = length (takeWhile (\<lambda>c. c = CHR ''1'') b) in
        \<lparr>Method = take n (drop (Suc n) b), Args = drop n (drop (Suc n) b)\<rparr>)\<rparr>"

lemma plain_args_ok: "argcodec_ok plain_args"
  by (simp add: argcodec_ok_def plain_args_def takeWhile_append)

definition echo_srv :: "nat RPCSrv" where
  "echo_srv = RPCSrv_AddService ''S''
     [\<lparr>mName = ''Echo'', mPkgPath = [], mNumIn = 3, mIn2Ptr = True, mNumOut = 0, mFunc = (\<lambda>b n. (Suc n, ''re:'' @ b))\<rparr>]
     (NewRPCSrv ''s'' 0)"

definition rpc_sample_events :: "rpc_event list" where
  "rpc_sample_events =
     [RDial ''me'' (\<lambda>k. if k = 0 then Inl ''no such file'' else Inr ()) True, RCall 0 ''S.Echo'' ''x'',
      RConn 0 (EPut 0), RConn 0 (EWrite 0 None), RConn 0 SInit, RConn 0 SRead, RConn 0 (SServe 0),
      RConn 0 (SWrite 0 None), RConn 0 ERead, RConn 0 EDeliver]"

definition rpc_sample :: "nat rpcsys" where
  "rpc_sample = the (rpc_run plain_codec plain_args rpc_sample_events \<lparr>rpcsrv = echo_srv, conns = [], order = []\<rparr>)"

lemma rpc_sample_view:
  "map_option (\<lambda>s. (order s, map (conn_view plain_codec) (conns s), rcvr (srv (rpcsrv s))))
     (rpc_run plain_codec plain_args rpc_sample_events \<lparr>rpcsrv = echo_srv, conns = [], order = []\<rparr>)
   = Some ([(0, 0)], [([Some \<lparr>Tag = 1, Data = ''re:x'', Ok = True\<rparr>],
       [\<lparr>Tag = 1, Data = ''1111110S.Echox'', Ok = True\<rparr>], \<lparr>Tag = 0, Data = ''me'', Ok = True\<rparr>, [0],
       [CReturned \<lparr>rep = ''re:x'', rok = True, rerr = None\<rparr>])], 1)"
  by code_simp


lemma rpc_run_reach: "rpc_run M A es s = Some t \<Longrightarrow> rpc_reach M A R s \<Longrightarrow> rpc_reach M A R t"
proof (induction es arbitrary: s)
  case (Cons e es)
  then obtain u where "rpc_exec M A e s = Some u" "rpc_run M A es u = Some t" by (auto simp: bind_Some_iff)
  moreover from this have "rpc_step M A s u" by (auto simp: rpc_step_def)
  with Cons.prems(2) have "rpc_reach M A R u" by (rule rpcs.reach_step)
  ultimately show ?case using Cons.IH by blast
qed simp

lemma rpc_sample_run:
  "rpc_run plain_codec plain_args rpc_sample_events \<lparr>rpcsrv = echo_srv, conns = [], order = []\<rparr> = Some rpc_sample"
  using rpc_sample_view unfolding rpc_sample_def by auto

lemma rpc_sample_reach: "rpc_reach plain_codec plain_args echo_srv rpc_sample"
  by (rule rpc_run_reach[OF rpc_sample_run]) (rule rpcs.reach_init, simp add: rpc_init_def)

lemma rpc_sample_facts:
  "order rpc_sample = [(0, 0)]"
  "map (conn_view plain_codec) (conns rpc_sample) = [([Some \<lparr>Tag = 1, Data = ''re:x'', Ok = True\<rparr>],
       [\<lparr>Tag = 1, Data = ''1111110S.Echox'', Ok = True\<rparr>], \<lparr>Tag = 0, Data = ''me'', Ok = True\<rparr>, [0],
       [CReturned \<lparr>rep = ''re:x'', rok = True, rerr = None\<rparr>])]"
  using rpc_sample_view unfolding rpc_sample_run by (simp_all only: option.map option.inject prod.inject)

lemma view_small:
  assumes "conn_view M s = (reps, reqs, h, sv, pcs)" and "length pcs < 2 ^ 32 - 1"
    and "fits M h" and "list_all (fits M) reqs" and "list_all (pred_option (fits M)) reps"
  shows "small M s"
  using assms by (auto simp: conn_view_def small_def list_all_iff)

lemma rpc_sample_small: "all_small plain_codec rpc_sample"
proof -
  obtain c where c: "conns rpc_sample = [c]" using rpc_sample_facts(2) by (auto simp: map_eq_Cons_conv)
  with rpc_sample_facts(2) have "small plain_codec c"
    by (intro view_small) (simp, auto simp: fits_def plain_codec_def)
  with c show ?thesis by (simp add: all_small_def)
qed


end
