(* ===== verification/Daemon.thy ===== *)
theory Daemon
  imports TesterNet
begin

text \<open>
  Server daemons (\<^verbatim>\<open>tester1/daemonsrv.go\<close>) and the tester's side of them (\<^verbatim>\<open>tester1/daemonclnt.go\<close>): the
  RPCs that a daemon forwards to the tester, the RPCs of the tester on its control socket, and the start
  of a daemon, in which the main thread and two RPC handlers meet on one unbuffered channel.
\<close>

section \<open>Forwarding\<close>

record 'b ForwardArgs =
  fwMethod :: string
  fwEnd :: string
  fwArgs :: 'b
  fwId :: int

record 'b ForwardReply =
  fwRep :: "'b option"
  fwOk :: bool

text \<open>
  \<open>call\<close> is \<open>RPCMarshall\<close> to the tester: \<open>None\<close> when it returns false.  \<open>lookup\<close> is what \<open>end.Forward\<close> of the end
  with that name answers; an unknown name is a nil pointer.
\<close>

definition DaemonSrv_forward :: "('b ForwardArgs \<Rightarrow> 'b ForwardReply option) \<Rightarrow> string \<Rightarrow> string \<Rightarrow> 'b \<Rightarrow> int
    \<Rightarrow> ('b option \<times> bool) \<times> int" where
  "DaemonSrv_forward call end0 meth b did =
     (let args = \<lparr>fwMethod = meth, fwEnd = end0, fwArgs = b, fwId = did + 1\<rparr> in
      (case call args of None \<Rightarrow> (None, False) | Some reply \<Rightarrow> (fwRep reply, fwOk reply), did + 1))"

definition TesterRPC_Forward :: "(string \<rightharpoonup> (string \<Rightarrow> 'b \<Rightarrow> 'b option \<times> bool)) \<Rightarrow> 'b ForwardArgs \<Rightarrow> 'b ForwardReply option" where
  "TesterRPC_Forward lookup args = do {
     fw \<leftarrow> lookup (fwEnd args);
     let (rep, ok) = fw (fwMethod args) (fwArgs args);
     Some \<lparr>fwRep = rep, fwOk = ok\<rparr>
   }"

text \<open>A call of a server in a daemon gets what the tester's network answers, and a lost RPC is a lost call.\<close>

lemma forward_answer:
  assumes "lookup e = Some fw"
  shows "fst (DaemonSrv_forward (TesterRPC_Forward lookup) e meth b did) = fw meth b"
    and "fst (DaemonSrv_forward (\<lambda>_. None) e meth b did) = (None, False)"
  using assms by (simp_all add: DaemonSrv_forward_def TesterRPC_Forward_def case_prod_beta)

section \<open>The handlers of a daemon\<close>

record ('r, 'b) InitArgs =
  inRaftstate :: "'r list option"
  inSnapshot :: "'b list option"

record ('r, 'b, 'v) DaemonSrv =
  dpersister :: "('r, 'b) Persister option"
  drpcs :: "'v list option"
  drpcc_open :: bool
  drpcs_open :: bool

definition init_args :: "('r, 'b) Persister \<Rightarrow> ('r, 'b) InitArgs" where
  "init_args p = \<lparr>inRaftstate = ReadRaftState p, inSnapshot = ReadSnapshot p\<rparr>"

definition DaemonSrv_Init :: "('r, 'b) InitArgs \<Rightarrow> ('r, 'b) Persister" where
  "DaemonSrv_Init args = Save (inRaftstate args) (inSnapshot args) MakePersister"

text \<open>\<open>CheckpointPersister\<close> first closes the connection for forwarded calls and the listener of the server.\<close>

definition CheckpointPersister :: "('r, 'b, 'v) DaemonSrv \<Rightarrow> (('r, 'b, 'v) DaemonSrv \<times> ('r, 'b) InitArgs) option" where
  "CheckpointPersister ds = do {
     _ \<leftarrow> drpcs ds;
     ps \<leftarrow> dpersister ds;
     let p = Checkpoint ps;
     Some (ds\<lparr>drpcc_open := False, drpcs_open := False\<rparr>, \<lparr>inRaftstate = ReadRaftState p, inSnapshot = ReadSnapshot p\<rparr>)
   }"

definition StateSize :: "('r list \<Rightarrow> int) \<Rightarrow> ('b list \<Rightarrow> int) \<Rightarrow> ('r, 'b, 'v) DaemonSrv \<Rightarrow> (int \<times> int) option" where
  "StateSize rsize bsize ds = do {
     ps \<leftarrow> dpersister ds;
     Some (RaftStateSize rsize ps, SnapshotSize bsize ps)
   }"

lemma daemon_init_split: "daemon_init p = DaemonSrv_Init (init_args p)"
  by (simp add: daemon_init_def DaemonSrv_Init_def init_args_def)

lemma checkpoint_split:
  assumes "dpersister ds = Some p" and "drpcs ds = Some svcs"
  shows "map_option snd (CheckpointPersister ds) = Some (init_args p) \<and> checkpointPersister p = DaemonSrv_Init (init_args p)"
  using assms by (simp add: CheckpointPersister_def checkpointPersister_def DaemonSrv_Init_def init_args_def Let_def)

section \<open>The start of a daemon\<close>

text \<open>
  The main thread of \<open>InitDaemon\<close> after it has parsed its arguments: it waits for the persister, starts
  the server with \<open>mks\<close>, signals that it is initialized, and waits for the end.
\<close>

datatype ('r, 'b) main_pc = MWait | MStart "('r, 'b) Persister" | MSignal | MPark | MExit

datatype handler_pc = HIdle | HBlocked | HFinished

text \<open>The tester: \<open>init\<close>, then \<open>waitInit\<close>, then the server counts as started.\<close>

datatype tester_pc = TStart | TInit | TWait | TUp

record ('r, 'b, 'v) dstate =
  dsrv :: "('r, 'b, 'v) DaemonSrv"
  mpc :: "('r, 'b) main_pc"
  ipc :: handler_pc
  wpc :: handler_pc
  tpc :: tester_pc

definition daemon_new :: "('r, 'b, 'v) dstate" where
  "daemon_new = \<lparr>dsrv = \<lparr>dpersister = None, drpcs = None, drpcc_open = True, drpcs_open = False\<rparr>, mpc = MWait, ipc = HIdle, wpc = HIdle, tpc = TStart\<rparr>"

definition tester_step :: "('r, 'b, 'v) dstate \<Rightarrow> ('r, 'b, 'v) dstate option" where
  "tester_step s =
     (case tpc s of
        TStart \<Rightarrow> Some (s\<lparr>ipc := HBlocked, tpc := TInit\<rparr>)
      | TInit \<Rightarrow> if ipc s = HFinished then Some (s\<lparr>wpc := HBlocked, tpc := TWait\<rparr>) else None
      | TWait \<Rightarrow> if wpc s = HFinished then Some (s\<lparr>tpc := TUp\<rparr>) else None
      | TUp \<Rightarrow> None)"

definition main_start :: "(('r, 'b) Persister \<Rightarrow> 'v list) \<Rightarrow> ('r, 'b, 'v) dstate \<Rightarrow> ('r, 'b, 'v) dstate option" where
  "main_start mks s =
     (case mpc s of
        MStart p \<Rightarrow> Some (s\<lparr>dsrv := (dsrv s)\<lparr>dpersister := Some p, drpcs := Some (mks p), drpcs_open := True\<rparr>, mpc := MSignal\<rparr>)
      | _ \<Rightarrow> None)"

text \<open>
  The channel \<open>ds.ch\<close>: \<open>Init\<close> and the main thread send on it, the main thread and \<open>InitWait\<close> receive.  Any
  sender may meet any receiver.
\<close>

datatype devent = DTester | DMain | DInitToMain | DInitToWait | DMainToWait

fun dexec :: "(('r, 'b) Persister \<Rightarrow> 'v list) \<Rightarrow> ('r, 'b) Persister \<Rightarrow> devent \<Rightarrow> ('r, 'b, 'v) dstate \<Rightarrow> ('r, 'b, 'v) dstate option" where
  "dexec mks p0 DTester s = tester_step s"
| "dexec mks p0 DMain s = main_start mks s"
| "dexec mks p0 DInitToMain s =
     (if ipc s = HBlocked
      then (case mpc s of
              MWait \<Rightarrow> Some (s\<lparr>mpc := MStart (DaemonSrv_Init (init_args p0)), ipc := HFinished\<rparr>)
            | MPark \<Rightarrow> Some (s\<lparr>mpc := MExit, ipc := HFinished\<rparr>)
            | _ \<Rightarrow> None)
      else None)"
| "dexec mks p0 DInitToWait s =
     (if ipc s = HBlocked \<and> wpc s = HBlocked then Some (s\<lparr>ipc := HFinished, wpc := HFinished\<rparr>) else None)"
| "dexec mks p0 DMainToWait s =
     (if mpc s = MSignal \<and> wpc s = HBlocked then Some (s\<lparr>mpc := MPark, wpc := HFinished\<rparr>) else None)"

definition daemon_boot :: "('r, 'b, 'v) dstate \<Rightarrow> bool" where
  "daemon_boot s \<longleftrightarrow> s = daemon_new"

definition daemon_step :: "(('r, 'b) Persister \<Rightarrow> 'v list) \<Rightarrow> ('r, 'b) Persister \<Rightarrow> ('r, 'b, 'v) dstate \<Rightarrow> ('r, 'b, 'v) dstate \<Rightarrow> bool" where
  "daemon_step mks p0 s t \<longleftrightarrow> (\<exists>e. dexec mks p0 e s = Some t)"

interpretation daemon: transition_system daemon_boot "daemon_step mks p0" for mks p0
  by unfold_locales (auto simp: daemon_boot_def)

abbreviation daemon_reach where
  "daemon_reach mks p0 \<equiv> transition_system.reach daemon_boot (daemon_step mks p0)"

text \<open>The two handlers never wait at the same time, and the channel carries one thing at a time.\<close>

definition daemon_inv :: "(('r, 'b) Persister \<Rightarrow> 'v list) \<Rightarrow> ('r, 'b) Persister \<Rightarrow> ('r, 'b, 'v) dstate \<Rightarrow> bool" where
  "daemon_inv mks p0 s \<longleftrightarrow>
     (case tpc s of
        TStart \<Rightarrow> ipc s = HIdle \<and> wpc s = HIdle \<and> mpc s = MWait
      | TInit \<Rightarrow> wpc s = HIdle \<and> (ipc s = HBlocked \<and> mpc s = MWait \<or> ipc s = HFinished \<and> mpc s \<in> {MStart (daemon_init p0), MSignal})
      | TWait \<Rightarrow> ipc s = HFinished
          \<and> (wpc s = HBlocked \<and> mpc s \<in> {MStart (daemon_init p0), MSignal} \<or> wpc s = HFinished \<and> mpc s = MPark)
      | TUp \<Rightarrow> ipc s = HFinished \<and> wpc s = HFinished \<and> mpc s = MPark)
     \<and> (mpc s \<in> {MSignal, MPark} \<longrightarrow> dpersister (dsrv s) = Some (daemon_init p0) \<and> drpcs (dsrv s) = Some (mks (daemon_init p0)))"

lemma daemon_inv_exec:
  assumes "daemon_inv mks p0 s" and "dexec mks p0 e s = Some t"
  shows "daemon_inv mks p0 t"
  using assms
  by (cases e; cases "tpc s"; cases "mpc s")
    (simp_all add: daemon_inv_def tester_step_def main_start_def daemon_init_split split: if_splits, auto simp: daemon_init_split)

lemma daemon_inv_reach:
  assumes "daemon_reach mks p0 s"
  shows "daemon_inv mks p0 s"
  using assms
proof (rule daemon.reach_invariant)
  show "daemon_inv mks p0 s" if "daemon_boot s" for s
    using that by (simp add: daemon_boot_def daemon_new_def daemon_inv_def)
qed (auto simp: daemon_step_def intro: daemon_inv_exec)

text \<open>The steps that are left.\<close>

definition rank :: "('r, 'b, 'v) dstate \<Rightarrow> nat" where
  "rank s =
     (case tpc s of TStart \<Rightarrow> 3 | TInit \<Rightarrow> 2 | TWait \<Rightarrow> 1 | TUp \<Rightarrow> 0)
     + (case mpc s of MWait \<Rightarrow> 3 | MStart _ \<Rightarrow> 2 | MSignal \<Rightarrow> 1 | _ \<Rightarrow> 0)"

lemma rank_decreases:
  assumes "daemon_inv mks p0 s" and "dexec mks p0 e s = Some t"
  shows "rank t < rank s"
  using assms
  by (cases e; cases "tpc s"; cases "mpc s")
    (simp_all add: daemon_inv_def tester_step_def main_start_def rank_def split: if_splits, auto)

lemma daemon_progress:
  assumes "daemon_inv mks p0 s" and "tpc s \<noteq> TUp"
  shows "\<exists>e t. dexec mks p0 e s = Some t"
proof -
  have "tester_step s \<noteq> None \<or> main_start mks s \<noteq> None \<or> dexec mks p0 DInitToMain s \<noteq> None \<or> dexec mks p0 DMainToWait s \<noteq> None"
    using assms by (auto simp: daemon_inv_def tester_step_def main_start_def split: tester_pc.splits)
  then show ?thesis by (metis dexec.simps(1,2) option.exhaust)
qed

section \<open>Properties\<close>


fun drun :: "(('r, 'b) Persister \<Rightarrow> 'v list) \<Rightarrow> ('r, 'b) Persister \<Rightarrow> devent list \<Rightarrow> ('r, 'b, 'v) dstate \<Rightarrow> ('r, 'b, 'v) dstate option" where
  "drun mks p0 [] s = Some s"
| "drun mks p0 (e # es) s = do { s \<leftarrow> dexec mks p0 e s; drun mks p0 es s }"

lemma drun_reach: "daemon_reach mks p0 s \<Longrightarrow> drun mks p0 es s = Some t \<Longrightarrow> daemon_reach mks p0 t"
proof (induction es arbitrary: s)
  case (Cons e es)
  then obtain u where u: "dexec mks p0 e s = Some u" "drun mks p0 es u = Some t" by (auto simp: bind_Some_iff)
  then have "daemon_reach mks p0 u" using daemon.reach_step[OF Cons.prems(1)] by (auto simp: daemon_step_def)
  with Cons.IH u(2) show ?case by blast
qed simp

definition demo_daemon :: "(nat, nat, nat) dstate option" where
  "demo_daemon = drun (\<lambda>p. case ReadRaftState p of None \<Rightarrow> [] | Some xs \<Rightarrow> xs) (Save (Some [7]) None MakePersister)
     [DTester, DInitToMain, DMain, DTester, DMainToWait, DTester] daemon_new"


end
