(* ===== verification/Annot.thy ===== *)
theory Annot
  imports Prelude GoLib
begin

text \<open>
  The annotations of the tester (\<^verbatim>\<open>tester1/annotation.go\<close>): points and intervals for the visualiser of a
  test's history, and what the tester knows about disconnected and crashed servers, from which it draws
  the line of faults.

  The two global variables are the record \<open>astate\<close>; each operation holds the mutexes to its end and is a
  function on it, with the clock reading as an argument.  \<open>None\<close> is a panic: no test has begun, or a
  server number is out of range.
\<close>

section \<open>Annotations\<close>

record PAnnotation =
  aTag :: string
  aStart :: int
  aEnd :: int
  aDescription :: string
  aDetails :: string
  aBackgroundColor :: string

record Continuous =
  cstart :: int
  cdesp :: string
  cdetails :: string
  cbgcolor :: string

record Annotation =
  annotations :: "PAnnotation list"
  continuous :: "string \<rightharpoonup> Continuous"
  finalized :: bool

definition COLOR_INFO :: string where "COLOR_INFO = ''#FAFAFA''"
definition COLOR_NEUTRAL :: string where "COLOR_NEUTRAL = ''#FFECB3''"
definition COLOR_SUCCESS :: string where "COLOR_SUCCESS = ''#C8E6C9''"
definition COLOR_FAILURE :: string where "COLOR_FAILURE = ''#FFCDD2''"
definition COLOR_FAULT :: string where "COLOR_FAULT = ''#B3E5FC''"
definition COLOR_USER :: string where "COLOR_USER = ''#FFF176''"

definition TAG_CHECKER :: string where "TAG_CHECKER = ''$ Checker''"
definition TAG_PARTITION :: string where "TAG_PARTITION = ''$ Failure''"
definition TAG_INFO :: string where "TAG_INFO = ''$ Test Info''"

definition mkAnnotation :: Annotation where
  "mkAnnotation = \<lparr>annotations = [], continuous = Map.empty, finalized = False\<rparr>"

definition clear :: "Annotation \<Rightarrow> Annotation" where
  "clear an = an\<lparr>annotations := [], continuous := Map.empty, finalized := False\<rparr>"

text \<open>A point in time leaves \<^verbatim>\<open>End\<close> at 0.\<close>

definition annotatePointColor :: "int \<Rightarrow> string \<Rightarrow> string \<Rightarrow> string \<Rightarrow> string \<Rightarrow> Annotation \<Rightarrow> Annotation" where
  "annotatePointColor t tag desp details bgcolor an =
     an\<lparr>annotations := annotations an @
       [\<lparr>aTag = tag, aStart = t, aEnd = 0, aDescription = desp, aDetails = details, aBackgroundColor = bgcolor\<rparr>]\<rparr>"

definition annotateIntervalColor :: "int \<Rightarrow> string \<Rightarrow> int \<Rightarrow> string \<Rightarrow> string \<Rightarrow> string \<Rightarrow> Annotation \<Rightarrow> Annotation" where
  "annotateIntervalColor t tag start desp details bgcolor an =
     an\<lparr>annotations := annotations an @
       [\<lparr>aTag = tag, aStart = start, aEnd = t, aDescription = desp, aDetails = details, aBackgroundColor = bgcolor\<rparr>]\<rparr>"

definition close_cont :: "int \<Rightarrow> string \<Rightarrow> Continuous \<Rightarrow> PAnnotation" where
  "close_cont t tag cont =
     \<lparr>aTag = tag, aStart = cstart cont, aEnd = t, aDescription = cdesp cont, aDetails = cdetails cont,
      aBackgroundColor = cbgcolor cont\<rparr>"

definition annotateContinuousColor :: "int \<Rightarrow> string \<Rightarrow> string \<Rightarrow> string \<Rightarrow> string \<Rightarrow> Annotation \<Rightarrow> Annotation" where
  "annotateContinuousColor t tag desp details bgcolor an =
     (let new = \<lparr>cstart = t, cdesp = desp, cdetails = details, cbgcolor = bgcolor\<rparr> in
      case continuous an tag of
        None \<Rightarrow> an\<lparr>continuous := (continuous an)(tag \<mapsto> new)\<rparr>
      | Some cont \<Rightarrow> an\<lparr>annotations := annotations an @ [close_cont t tag cont],
                       continuous := (continuous an)(tag \<mapsto> new)\<rparr>)"

text \<open>
  When nothing is going on for the tag, the code falls through with the zero value of \<open>Continuous\<close>.
\<close>

definition annotateContinuousEnd :: "int \<Rightarrow> string \<Rightarrow> Annotation \<Rightarrow> Annotation" where
  "annotateContinuousEnd t tag an =
     (let cont = (case continuous an tag of
                    None \<Rightarrow> \<lparr>cstart = 0, cdesp = '''', cdetails = '''', cbgcolor = ''''\<rparr>
                  | Some cont \<Rightarrow> cont) in
      an\<lparr>annotations := annotations an @ [close_cont t tag cont], continuous := (continuous an)(tag := None)\<rparr>)"

text \<open>\<open>order\<close> is the order in which \<^verbatim>\<open>range an.continuous\<close> visits the tags.\<close>

definition finalize :: "int \<Rightarrow> string list \<Rightarrow> Annotation \<Rightarrow> PAnnotation list \<times> Annotation" where
  "finalize t order an =
     (annotations an @ concat (map (\<lambda>tag. case continuous an tag of None \<Rightarrow> [] | Some cont \<Rightarrow> [close_cont t tag cont]) order),
      an\<lparr>finalized := True\<rparr>)"

definition end_note :: "int \<Rightarrow> string \<Rightarrow> PAnnotation" where
  "end_note t end =
     \<lparr>aTag = TAG_INFO, aStart = t, aEnd = 0, aDescription = end, aDetails = end, aBackgroundColor = COLOR_INFO\<rparr>"

definition FinalizeAnnotations :: "int \<Rightarrow> int \<Rightarrow> string list \<Rightarrow> string \<Rightarrow> Annotation \<Rightarrow> PAnnotation list \<times> Annotation" where
  "FinalizeAnnotations t t' order end an = (let (x, an) = finalize t order an in (x @ [end_note t' end], an))"

text \<open>\<open>cleanup\<close>: the annotations that are written to the file, if any.  \<open>opened\<close> says whether the file opens.\<close>

definition an_cleanup :: "string \<Rightarrow> bool \<Rightarrow> bool \<Rightarrow> string \<Rightarrow> int \<Rightarrow> int \<Rightarrow> string list \<Rightarrow> Annotation
    \<Rightarrow> PAnnotation list option \<times> Annotation" where
  "an_cleanup enabled opened failed end t t' order an =
     (if enabled = ''never'' \<or> (\<not> failed \<and> enabled \<noteq> ''always'') \<or> finalized an then (None, clear an)
      else let (x, an) = finalize t order an in
           if x = [] then (None, an)
           else if \<not> opened then (None, an)
           else (Some (x @ [end_note t' end]), an))"

section \<open>The test framework\<close>

record CheckerBegin =
  ckts :: int
  ckdetails :: string

record FrameworkInfo =
  fnservers :: nat
  fconnected :: "bool list"
  fcrashed :: "bool list"
  ckbegin :: CheckerBegin

record astate =
  ann :: Annotation
  finfo :: "FrameworkInfo option"

definition mkFrameworkInfo :: "nat \<Rightarrow> FrameworkInfo" where
  "mkFrameworkInfo n =
     \<lparr>fnservers = n, fconnected = replicate n True, fcrashed = replicate n False, ckbegin = \<lparr>ckts = 0, ckdetails = ''''\<rparr>\<rparr>"

definition on_ann :: "(Annotation \<Rightarrow> Annotation) \<Rightarrow> astate \<Rightarrow> astate" where
  "on_ann f s = s\<lparr>ann := f (ann s)\<rparr>"

definition AnnotateInfo :: "int \<Rightarrow> string \<Rightarrow> string \<Rightarrow> astate \<Rightarrow> astate" where
  "AnnotateInfo t desp details = on_ann (annotatePointColor t TAG_INFO desp details COLOR_INFO)"

definition AnnotateInfoInterval :: "int \<Rightarrow> int \<Rightarrow> string \<Rightarrow> string \<Rightarrow> astate \<Rightarrow> astate" where
  "AnnotateInfoInterval t start desp details = on_ann (annotateIntervalColor t TAG_INFO start desp details COLOR_INFO)"

definition AnnotateTest :: "int \<Rightarrow> string \<Rightarrow> nat \<Rightarrow> astate \<Rightarrow> astate" where
  "AnnotateTest t desp n s =
     (let details = desp @ '' ('' @ Itoa (int n) @ '' servers)'';
          s1 = on_ann clear (s\<lparr>finfo := Some (mkFrameworkInfo n)\<rparr>)
      in AnnotateInfo t details details s1)"

definition AnnotateCheckerBegin :: "int \<Rightarrow> string \<Rightarrow> astate \<Rightarrow> astate option" where
  "AnnotateCheckerBegin t details s = do {
     fi \<leftarrow> finfo s;
     Some (s\<lparr>finfo := Some (fi\<lparr>ckbegin := \<lparr>ckts = t, ckdetails = details\<rparr>\<rparr>)\<rparr>)
   }"

text \<open>\<open>ckbegin\<close> is a copy of the field: setting its \<^verbatim>\<open>ts\<close> to 0 at the end has no effect.\<close>

definition AnnotateCheckerEnd :: "int \<Rightarrow> string \<Rightarrow> string \<Rightarrow> string \<Rightarrow> astate \<Rightarrow> astate option" where
  "AnnotateCheckerEnd t desp details color s = do {
     fi \<leftarrow> finfo s;
     let ck = ckbegin fi;
     if ckts ck = 0 then Some (on_ann (annotatePointColor t TAG_CHECKER desp details color) s)
     else Some (on_ann (annotateIntervalColor t TAG_CHECKER (ckts ck) desp (ckdetails ck @ '': '' @ details) color) s)
   }"

definition AnnotateCheckerSuccess :: "int \<Rightarrow> string \<Rightarrow> string \<Rightarrow> astate \<Rightarrow> astate option" where
  "AnnotateCheckerSuccess t desp details = AnnotateCheckerEnd t desp details COLOR_SUCCESS"

definition AnnotateCheckerFailure :: "int \<Rightarrow> string \<Rightarrow> string \<Rightarrow> astate \<Rightarrow> astate option" where
  "AnnotateCheckerFailure t desp details = AnnotateCheckerEnd t desp details COLOR_FAILURE"

definition AnnotateCheckerNeutral :: "int \<Rightarrow> string \<Rightarrow> string \<Rightarrow> astate \<Rightarrow> astate option" where
  "AnnotateCheckerNeutral t desp details = AnnotateCheckerEnd t desp details COLOR_NEUTRAL"

definition SetAnnotationFinalized :: "astate \<Rightarrow> astate" where
  "SetAnnotationFinalized = on_ann (\<lambda>an. an\<lparr>finalized := True\<rparr>)"

section \<open>Faults\<close>

text \<open>\<open>%v\<close> of a slice of ints.\<close>

fun spaced :: "int list \<Rightarrow> string" where
  "spaced [] = ''''"
| "spaced [i] = Itoa i"
| "spaced (i # is) = Itoa i @ '' '' @ spaced is"

definition show_ints :: "int list \<Rightarrow> string" where
  "show_ints is = ''['' @ spaced is @ '']''"

fun fault_loop :: "bool list \<Rightarrow> bool list \<Rightarrow> int \<Rightarrow> int list \<Rightarrow> int list \<Rightarrow> string \<Rightarrow> (int list \<times> int list \<times> string) option" where
  "fault_loop cr [] srv conn crashes b = Some (conn, crashes, b)"
| "fault_loop cr (c # cs) srv conn crashes b = do {
     x \<leftarrow> go_nth cr srv;
     if x then fault_loop cr cs (srv + 1) conn (crashes @ [srv]) b
     else if c then fault_loop cr cs (srv + 1) (conn @ [srv]) crashes b
     else fault_loop cr cs (srv + 1) conn crashes (b @ ''['' @ Itoa srv @ ''] '')
   }"

definition fault_text :: "bool list \<Rightarrow> bool list \<Rightarrow> string option" where
  "fault_text con cr = do {
     (conn, crashes, b) \<leftarrow> fault_loop cr con 0 [] [] ''partition = '';
     Some (b @ (if conn \<noteq> [] then show_ints conn else '''')
           @ (if crashes \<noteq> [] then '' / crash = '' @ show_ints crashes else ''''))
   }"

definition annotateFault :: "int \<Rightarrow> astate \<Rightarrow> astate option" where
  "annotateFault t s = do {
     fi \<leftarrow> finfo s;
     if fconnected fi = replicate (fnservers fi) True \<and> fcrashed fi = replicate (fnservers fi) False
     then Some (on_ann (annotateContinuousEnd t TAG_PARTITION) s)
     else do {
       text \<leftarrow> fault_text (fconnected fi) (fcrashed fi);
       Some (on_ann (annotateContinuousColor t TAG_PARTITION text text COLOR_FAULT) s)
     }
   }"

definition go_copy :: "'a list \<Rightarrow> 'a list \<Rightarrow> 'a list" where
  "go_copy dst src = take (length dst) src @ drop (length src) dst"

definition AnnotateConnection :: "int \<Rightarrow> bool list \<Rightarrow> astate \<Rightarrow> astate option" where
  "AnnotateConnection t connection s = do {
     fi \<leftarrow> finfo s;
     if fconnected fi = connection then Some s
     else annotateFault t (s\<lparr>finfo := Some (fi\<lparr>fconnected := go_copy (fconnected fi) connection\<rparr>)\<rparr>)
   }"

definition AnnotateTwoPartitions :: "int \<Rightarrow> int list \<Rightarrow> int list \<Rightarrow> astate \<Rightarrow> astate" where
  "AnnotateTwoPartitions t p1 p2 =
     (let text = ''partition = '' @ show_ints p1 @ '' '' @ show_ints p2 in
      on_ann (annotateContinuousColor t TAG_PARTITION text text COLOR_FAULT))"

definition AnnotateClearFailure :: "int \<Rightarrow> astate \<Rightarrow> astate option" where
  "AnnotateClearFailure t s = do {
     fi \<leftarrow> finfo s;
     let fi1 = fi\<lparr>fcrashed := map (\<lambda>_. False) (fcrashed fi), fconnected := map (\<lambda>_. True) (fconnected fi)\<rparr>;
     Some (on_ann (annotateContinuousEnd t TAG_PARTITION) (s\<lparr>finfo := Some fi1\<rparr>))
   }"

text \<open>The loops of \<open>AnnotateShutdown\<close> and \<open>AnnotateRestart\<close>; \<open>b\<close> is what becomes of \<^verbatim>\<open>crashed[srv]\<close>.\<close>

fun crash_loop :: "bool \<Rightarrow> int list \<Rightarrow> bool \<Rightarrow> bool list \<Rightarrow> (bool \<times> bool list) option" where
  "crash_loop b [] changed cr = Some (changed, cr)"
| "crash_loop b (srv # ids) changed cr = do {
     x \<leftarrow> go_nth cr srv;
     cr \<leftarrow> go_set cr srv b;
     crash_loop b ids (changed \<or> x \<noteq> b) cr
   }"

definition set_crashed :: "bool \<Rightarrow> int \<Rightarrow> int list \<Rightarrow> astate \<Rightarrow> astate option" where
  "set_crashed b t servers s = do {
     fi \<leftarrow> finfo s;
     (changed, cr) \<leftarrow> crash_loop b servers False (fcrashed fi);
     let s1 = s\<lparr>finfo := Some (fi\<lparr>fcrashed := cr\<rparr>)\<rparr>;
     if \<not> changed then Some s1 else annotateFault t s1
   }"

definition AnnotateShutdown :: "int \<Rightarrow> int list \<Rightarrow> astate \<Rightarrow> astate option" where
  "AnnotateShutdown = set_crashed True"

definition AnnotateRestart :: "int \<Rightarrow> int list \<Rightarrow> astate \<Rightarrow> astate option" where
  "AnnotateRestart = set_crashed False"

definition AnnotateShutdownAll :: "int \<Rightarrow> astate \<Rightarrow> astate option" where
  "AnnotateShutdownAll t s = do { fi \<leftarrow> finfo s; AnnotateShutdown t (map int [0..<fnservers fi]) s }"

definition AnnotateRestartAll :: "int \<Rightarrow> astate \<Rightarrow> astate option" where
  "AnnotateRestartAll t s = do { fi \<leftarrow> finfo s; AnnotateRestart t (map int [0..<fnservers fi]) s }"

section \<open>Users and daemons\<close>

definition AnnotatePoint :: "int \<Rightarrow> string \<Rightarrow> string \<Rightarrow> string \<Rightarrow> astate \<Rightarrow> astate" where
  "AnnotatePoint t tag desp details = on_ann (annotatePointColor t tag desp details COLOR_USER)"

definition AnnotateInterval :: "int \<Rightarrow> string \<Rightarrow> int \<Rightarrow> string \<Rightarrow> string \<Rightarrow> astate \<Rightarrow> astate" where
  "AnnotateInterval t tag start desp details = on_ann (annotateIntervalColor t tag start desp details COLOR_USER)"

definition AnnotateContinuous :: "int \<Rightarrow> string \<Rightarrow> string \<Rightarrow> string \<Rightarrow> astate \<Rightarrow> astate" where
  "AnnotateContinuous t tag desp details = on_ann (annotateContinuousColor t tag desp details COLOR_USER)"

definition AnnotateCheckerFailureBeforeExit :: "string \<Rightarrow> bool \<Rightarrow> int \<Rightarrow> int \<Rightarrow> int \<Rightarrow> string list \<Rightarrow> string \<Rightarrow> string \<Rightarrow> astate
    \<Rightarrow> (PAnnotation list option \<times> astate) option" where
  "AnnotateCheckerFailureBeforeExit enabled opened t t' t'' order desp details s = do {
     s \<leftarrow> AnnotateCheckerFailure t desp details s;
     let (file, an) = an_cleanup enabled opened True ''test failed'' t' t'' order (ann s);
     Some (file, s\<lparr>ann := an\<rparr>)
   }"

text \<open>
  The RPCs with which a daemon annotates (\<^verbatim>\<open>tester1/annotator.go\<close>).  An RPC is \<open>sent\<close> when it reaches the tester
  and \<open>answered\<close> when the reply comes back too.
\<close>

record PostAnnotatorPointArgs =
  ppTag :: string
  ppDesp :: string
  ppDetails :: string

record PostAnnotatorInfoIntervalArgs =
  piStart :: int
  piDesp :: string
  piDetails :: string

definition PostAnnotatorPoint_handler :: "int \<Rightarrow> PostAnnotatorPointArgs \<Rightarrow> astate \<Rightarrow> astate" where
  "PostAnnotatorPoint_handler t args = AnnotatePoint t (ppTag args) (ppDesp args) (ppDetails args)"

definition PostAnnotatorInfoInterval_handler :: "int \<Rightarrow> PostAnnotatorInfoIntervalArgs \<Rightarrow> astate \<Rightarrow> astate" where
  "PostAnnotatorInfoInterval_handler t args = AnnotateInfoInterval t (piStart args) (piDesp args) (piDetails args)"

definition Annotate :: "bool \<Rightarrow> int \<Rightarrow> string \<Rightarrow> string \<Rightarrow> string \<Rightarrow> astate \<Rightarrow> astate" where
  "Annotate sent t tag desp details s =
     (if sent then PostAnnotatorPoint_handler t \<lparr>ppTag = tag, ppDesp = desp, ppDetails = details\<rparr> s else s)"

definition GetAnnotatorTimestamp :: "bool \<Rightarrow> int \<Rightarrow> int" where
  "GetAnnotatorTimestamp answered t = (if answered then t else 0)"

definition PostAnnotatorInfoInterval :: "bool \<Rightarrow> int \<Rightarrow> int \<Rightarrow> string \<Rightarrow> string \<Rightarrow> astate \<Rightarrow> astate" where
  "PostAnnotatorInfoInterval sent t start desp details s =
     (if sent then PostAnnotatorInfoInterval_handler t \<lparr>piStart = start, piDesp = desp, piDetails = details\<rparr> s else s)"

end
