(* ===== verification/AnnotProps.thy ===== *)
theory AnnotProps
  imports Annot
begin

text \<open>
  What the visualiser shows of the faults of a test: the line of faults that the annotations draw is the
  history of the connected and crashed servers.  And where the annotations go wrong.
\<close>

section \<open>Runs\<close>

datatype aevent =
    AConnection "bool list"
  | AShutdown "int list"
  | AShutdownAll
  | ARestart "int list"
  | ARestartAll
  | AClearFailure
  | ACheckerBegin string
  | ACheckerEnd string string string
  | APoint string string string string
  | AInterval string int string string string
  | AContinuous string string string string
  | AContinuousEnd string

fun aexec :: "int \<Rightarrow> aevent \<Rightarrow> astate \<Rightarrow> astate option" where
  "aexec t (AConnection connection) s = AnnotateConnection t connection s"
| "aexec t (AShutdown servers) s = AnnotateShutdown t servers s"
| "aexec t AShutdownAll s = AnnotateShutdownAll t s"
| "aexec t (ARestart servers) s = AnnotateRestart t servers s"
| "aexec t ARestartAll s = AnnotateRestartAll t s"
| "aexec t AClearFailure s = AnnotateClearFailure t s"
| "aexec t (ACheckerBegin details) s = AnnotateCheckerBegin t details s"
| "aexec t (ACheckerEnd desp details color) s = AnnotateCheckerEnd t desp details color s"
| "aexec t (APoint tag desp details color) s = Some (on_ann (annotatePointColor t tag desp details color) s)"
| "aexec t (AInterval tag start desp details color) s = Some (on_ann (annotateIntervalColor t tag start desp details color) s)"
| "aexec t (AContinuous tag desp details color) s = Some (on_ann (annotateContinuousColor t tag desp details color) s)"
| "aexec t (AContinuousEnd tag) s = Some (on_ann (annotateContinuousEnd t tag) s)"

fun arun :: "(int \<times> aevent) list \<Rightarrow> astate \<Rightarrow> astate option" where
  "arun [] s = Some s"
| "arun ((t, e) # es) s = do { s \<leftarrow> aexec t e s; arun es s }"

text \<open>The annotations of users have other tags, and a connection vector has a place for every server.\<close>

fun proper :: "nat \<Rightarrow> aevent \<Rightarrow> bool" where
  "proper n (AConnection connection) \<longleftrightarrow> length connection = n"
| "proper n (APoint tag desp details color) \<longleftrightarrow> tag \<noteq> TAG_PARTITION"
| "proper n (AInterval tag start desp details color) \<longleftrightarrow> tag \<noteq> TAG_PARTITION"
| "proper n (AContinuous tag desp details color) \<longleftrightarrow> tag \<noteq> TAG_PARTITION"
| "proper n (AContinuousEnd tag) \<longleftrightarrow> tag \<noteq> TAG_PARTITION"
| "proper n e \<longleftrightarrow> True"

section \<open>The specification\<close>

text \<open>What is to be shown in a state: nothing when all is well.\<close>

definition healthy :: "FrameworkInfo \<Rightarrow> bool" where
  "healthy fi \<longleftrightarrow> fconnected fi = replicate (fnservers fi) True \<and> fcrashed fi = replicate (fnservers fi) False"

definition fault_shown :: "astate \<Rightarrow> string option" where
  "fault_shown s = do { fi \<leftarrow> finfo s; if healthy fi then None else fault_text (fconnected fi) (fcrashed fi) }"

definition faults :: "astate \<Rightarrow> (bool list \<times> bool list) option" where
  "faults s = map_option (\<lambda>fi. (fconnected fi, fcrashed fi)) (finfo s)"

text \<open>The moments at which a server is cut off, connected, stopped or started, and what is shown from then on.\<close>

fun fault_changes :: "(int \<times> aevent) list \<Rightarrow> astate \<Rightarrow> (int \<times> string option) list" where
  "fault_changes [] s = []"
| "fault_changes ((t, e) # es) s =
     (case aexec t e s of
        None \<Rightarrow> []
      | Some s' \<Rightarrow> (if faults s' = faults s then [] else [(t, fault_shown s')]) @ fault_changes es s')"

text \<open>The intervals between these moments, the last one up to \<open>t\<close>.\<close>

definition span :: "int \<Rightarrow> int \<Rightarrow> string option \<Rightarrow> (int \<times> int \<times> string) list" where
  "span a b v = (case v of None \<Rightarrow> [] | Some x \<Rightarrow> [(a, b, x)])"

fun spans :: "int \<Rightarrow> (int \<times> string option) list \<Rightarrow> (int \<times> int \<times> string) list" where
  "spans t [] = []"
| "spans t [(a, v)] = span a t v"
| "spans t ((a, v) # (b, w) # h) = span a b v @ spans t ((b, w) # h)"

lemma spans_snoc: "spans t (h @ [(b, w)]) = spans b h @ span b t w"
  by (induction b h rule: spans.induct) auto

section \<open>The line of faults\<close>

definition fault_line :: "PAnnotation list \<Rightarrow> (int \<times> int \<times> string) list" where
  "fault_line as =
     map (\<lambda>a. (aStart a, aEnd a, aDescription a)) (filter (\<lambda>a. aTag a = TAG_PARTITION \<and> aDescription a \<noteq> '''') as)"

lemma fault_line_append [simp]: "fault_line (as @ bs) = fault_line as @ fault_line bs"
  by (simp add: fault_line_def)

definition open_span :: "int \<Rightarrow> Annotation \<Rightarrow> (int \<times> int \<times> string) list" where
  "open_span t an = (case continuous an TAG_PARTITION of None \<Rightarrow> [] | Some c \<Rightarrow> [(cstart c, t, cdesp c)])"

definition line :: "int \<Rightarrow> Annotation \<Rightarrow> (int \<times> int \<times> string) list" where
  "line t an = fault_line (annotations an) @ open_span t an"

definition described :: "Annotation \<Rightarrow> bool" where
  "described an \<longleftrightarrow> (\<forall>c. continuous an TAG_PARTITION = Some c \<longrightarrow> cdesp c \<noteq> '''')"

lemma line_close:
  assumes "described an"
  shows "line t (annotateContinuousEnd b TAG_PARTITION an) = line b an"
  using assms
  by (auto simp: line_def annotateContinuousEnd_def open_span_def described_def fault_line_def close_cont_def Let_def
      split: option.splits)

lemma line_show:
  assumes "described an" and "x \<noteq> ''''"
  shows "line t (annotateContinuousColor b TAG_PARTITION x y z an) = line b an @ [(b, t, x)]"
    and "described (annotateContinuousColor b TAG_PARTITION x y z an)"
  using assms
  by (auto simp: line_def annotateContinuousColor_def open_span_def described_def fault_line_def close_cont_def Let_def
      split: option.splits)

text \<open>Annotations with other tags leave it alone.\<close>

definition aside :: "Annotation \<Rightarrow> Annotation \<Rightarrow> bool" where
  "aside an an' \<longleftrightarrow> continuous an' TAG_PARTITION = continuous an TAG_PARTITION
     \<and> fault_line (annotations an') = fault_line (annotations an)"

lemma aside_other:
  assumes "tag \<noteq> TAG_PARTITION"
  shows "aside an (annotatePointColor t tag desp details color an)"
    and "aside an (annotateIntervalColor t tag start desp details color an)"
    and "aside an (annotateContinuousColor t tag desp details color an)"
    and "aside an (annotateContinuousEnd t tag an)"
  using assms
  by (auto simp: aside_def annotatePointColor_def annotateIntervalColor_def annotateContinuousColor_def
      annotateContinuousEnd_def fault_line_def close_cont_def Let_def split: option.splits)

lemma other_tags: "TAG_CHECKER \<noteq> TAG_PARTITION" "TAG_INFO \<noteq> TAG_PARTITION"
  by (simp_all add: TAG_CHECKER_def TAG_PARTITION_def TAG_INFO_def)

section \<open>The text\<close>

lemma fault_loop_total:
  assumes "0 \<le> srv" and "srv + int (length cs) \<le> int (length cr)"
  shows "\<exists>conn' crashes' b'. fault_loop cr cs srv conn crashes b = Some (conn', crashes', b @ b')"
  using assms
proof (induction cs arbitrary: srv conn crashes b)
  case (Cons c cs)
  then have "go_nth cr srv = Some (cr ! nat srv)" by (simp add: go_nth_def)
  moreover note Cons.IH[of "srv + 1"] Cons.prems
  ultimately show ?case by (cases "cr ! nat srv"; cases c) (simp_all, metis append_assoc)
qed simp

lemma fault_text_total:
  assumes "length con \<le> length cr"
  obtains x where "fault_text con cr = Some x" and "x \<noteq> ''''"
  using fault_loop_total[of 0 con cr "[]" "[]" "''partition = ''"] assms that
  by (force simp: fault_text_def)

section \<open>Every operation keeps the line\<close>

definition sized :: "nat \<Rightarrow> FrameworkInfo \<Rightarrow> bool" where
  "sized n fi \<longleftrightarrow> fnservers fi = n \<and> length (fconnected fi) = n \<and> length (fcrashed fi) = n"

definition drawn :: "nat \<Rightarrow> (int \<times> string option) list \<Rightarrow> astate \<Rightarrow> bool" where
  "drawn n h s \<longleftrightarrow>
     (\<exists>fi. finfo s = Some fi \<and> sized n fi \<and> (healthy fi \<longrightarrow> continuous (ann s) TAG_PARTITION = None))
     \<and> described (ann s) \<and> (\<forall>t. line t (ann s) = spans t h)"

lemma drawn_aside:
  assumes "drawn n h s" and "aside (ann s) (ann s')" and "finfo s = Some fi" and "finfo s' = Some fi'"
    and "fnservers fi' = fnservers fi" "fconnected fi' = fconnected fi" "fcrashed fi' = fcrashed fi"
  shows "drawn n h s'" and "faults s' = faults s"
  using assms by (auto simp: drawn_def aside_def described_def line_def open_span_def faults_def sized_def healthy_def)

lemma fault_shown_sized:
  assumes "sized n fi" and "finfo s = Some fi"
  obtains "healthy fi" and "fault_shown s = None"
  | x where "\<not> healthy fi" and "fault_shown s = Some x" and "x \<noteq> ''''" and "fault_text (fconnected fi) (fcrashed fi) = Some x"
proof (cases "healthy fi")
  case False
  moreover obtain x where "fault_text (fconnected fi) (fcrashed fi) = Some x" "x \<noteq> ''''"
    using fault_text_total[of "fconnected fi" "fcrashed fi"] assms(1) by (auto simp: sized_def)
  ultimately show ?thesis using that(2) assms(2) by (simp add: fault_shown_def)
qed (use that(1) assms(2) in \<open>simp add: fault_shown_def\<close>)

text \<open>The end of an ongoing fault, also by \<open>AnnotateClearFailure\<close>.\<close>

lemma drawn_close:
  assumes "drawn n h s" and "finfo s' = Some fi" and "sized n fi" and "healthy fi"
    and "ann s' = annotateContinuousEnd t TAG_PARTITION (ann s)"
  shows "drawn n (h @ [(t, fault_shown s')]) s'"
proof -
  have "fault_shown s' = None" using assms(2,4) by (simp add: fault_shown_def)
  moreover have "continuous (ann s') TAG_PARTITION = None" using assms(5) by (simp add: annotateContinuousEnd_def Let_def)
  moreover have "line u (ann s') = spans t h" for u
    using assms(1,5) line_close[of "ann s" u t] by (simp add: drawn_def)
  ultimately show ?thesis using assms(2,3) by (simp add: drawn_def spans_snoc span_def described_def)
qed

lemma drawn_fault:
  assumes d: "drawn n h s" and s1: "finfo s1 = Some fi" "ann s1 = ann s" "sized n fi" and f: "annotateFault t s1 = Some s2"
  shows "drawn n (h @ [(t, fault_shown s2)]) s2"
  using s1(3,1)
proof (cases rule: fault_shown_sized)
  case 1
  with f s1 show ?thesis by (intro drawn_close[OF d]) (auto simp: annotateFault_def healthy_def on_ann_def)
next
  case (2 x)
  with f s1 have s2: "ann s2 = annotateContinuousColor t TAG_PARTITION x x COLOR_FAULT (ann s)" "finfo s2 = Some fi"
    by (auto simp: annotateFault_def healthy_def on_ann_def)
  moreover have "fault_shown s2 = Some x" using 2 s1(1) s2(2) by (simp add: fault_shown_def)
  moreover have "described (ann s)" "\<And>u. line u (ann s) = spans u h" using d by (auto simp: drawn_def)
  ultimately show ?thesis using line_show[of "ann s" x] 2(1,3) s1(3)
    by (simp add: drawn_def spans_snoc span_def)
qed

lemma crash_loop_facts:
  assumes "crash_loop b ids ch cr = Some (ch', cr')"
  shows "length cr' = length cr" and "j < length cr \<Longrightarrow> cr ! j = b \<Longrightarrow> cr' ! j = b" and "ch' \<longleftrightarrow> ch \<or> cr' \<noteq> cr"
proof -
  have "length cr' = length cr \<and> (\<forall>j < length cr. cr ! j = b \<longrightarrow> cr' ! j = b) \<and> (ch' \<longleftrightarrow> ch \<or> cr' \<noteq> cr)"
    using assms
  proof (induction ids arbitrary: ch cr)
    case (Cons i ids)
    then obtain k where k: "i = int k" "k < length cr"
      and run: "crash_loop b ids (ch \<or> cr ! k \<noteq> b) (cr[k := b]) = Some (ch', cr')"
      by (auto simp: bind_Some_iff go_simps dest: zero_le_imp_eq_int)
    note IH = Cons.IH[OF run]
    have keep: "cr' ! j = b" if "j < length cr" "cr ! j = b" for j
      using IH that by (cases "j = k") (auto simp: k)
    show ?case
    proof (cases "cr ! k = b")
      case True
      then have "cr[k := b] = cr" using list_update_id[of cr k] by simp
      with IH True keep show ?thesis by simp
    next
      case False
      have "cr' ! k = b" using IH k by simp
      with False have "cr' \<noteq> cr" by auto
      with IH False keep show ?thesis by simp
    qed
  qed simp
  then show "length cr' = length cr" "j < length cr \<Longrightarrow> cr ! j = b \<Longrightarrow> cr' ! j = b" "ch' \<longleftrightarrow> ch \<or> cr' \<noteq> cr"
    by blast+
qed

text \<open>The line after an operation: one more moment when the faults have changed.\<close>

definition later :: "int \<Rightarrow> astate \<Rightarrow> astate \<Rightarrow> (int \<times> string option) list" where
  "later t s s' = (if faults s' = faults s then [] else [(t, fault_shown s')])"

lemma annotateFault_finfo: "annotateFault t s = Some s' \<Longrightarrow> finfo s' = finfo s"
  by (auto simp: annotateFault_def on_ann_def bind_Some_iff split: if_splits)

lemma drawn_changed:
  assumes "drawn n h s" and "finfo s1 = Some fi" "ann s1 = ann s" "sized n fi" and "annotateFault t s1 = Some s2"
    and "faults s1 \<noteq> faults s"
  shows "drawn n (h @ later t s s2) s2"
proof -
  have "faults s2 = faults s1" using annotateFault_finfo[OF assms(5)] by (simp add: faults_def)
  with assms(6) drawn_fault[OF assms(1-5)] show ?thesis by (simp add: later_def)
qed

lemma drawn_same: "drawn n h s' \<Longrightarrow> faults s' = faults s \<Longrightarrow> drawn n (h @ later t s s') s'"
  by (simp add: later_def)

lemma drawn_crash:
  assumes d: "drawn n h s" and e: "set_crashed b t servers s = Some s'"
  shows "drawn n (h @ later t s s') s'"
proof -
  obtain fi where fi: "finfo s = Some fi" "sized n fi" using d by (auto simp: drawn_def)
  with e obtain ch cr where l: "crash_loop b servers False (fcrashed fi) = Some (ch, cr)"
    and s': "if \<not> ch then s' = s\<lparr>finfo := Some (fi\<lparr>fcrashed := cr\<rparr>)\<rparr>
       else annotateFault t (s\<lparr>finfo := Some (fi\<lparr>fcrashed := cr\<rparr>)\<rparr>) = Some s'"
    by (auto simp: set_crashed_def bind_Some_iff Let_def split: if_splits)
  note f = crash_loop_facts[OF l]
  show ?thesis
  proof (cases ch)
    case True
    with s' f(1,3) fi show ?thesis
      by (intro drawn_changed[OF d, of "s\<lparr>finfo := Some (fi\<lparr>fcrashed := cr\<rparr>)\<rparr>" "fi\<lparr>fcrashed := cr\<rparr>"])
        (simp_all add: sized_def faults_def)
  next
    case False
    with s' f(3) fi d show ?thesis by (intro drawn_same) (simp_all add: faults_def drawn_def)
  qed
qed

lemma drawn_exec:
  assumes d: "drawn n h s" and p: "proper n e" and e: "aexec t e s = Some s'"
  shows "drawn n (h @ later t s s') s'"
proof -
  obtain fi where fi: "finfo s = Some fi" "sized n fi" "healthy fi \<longrightarrow> continuous (ann s) TAG_PARTITION = None"
    using d by (auto simp: drawn_def)
  have keep: "drawn n (h @ later t s s') s'"
    if "aside (ann s) (ann s')" "finfo s' = Some fi'" "fnservers fi' = fnservers fi" "fconnected fi' = fconnected fi"
      "fcrashed fi' = fcrashed fi" for fi'
    using drawn_aside[OF d that(1) fi(1) that(2-5)] drawn_same by blast
  note aside = aside_other other_tags
  show ?thesis
  proof (cases e)
    case (AConnection connection)
    show ?thesis
    proof (cases "fconnected fi = connection")
      case True
      with AConnection e fi(1) d show ?thesis by (intro drawn_same) (simp_all add: AnnotateConnection_def)
    next
      case False
      have "go_copy (fconnected fi) connection = connection" using p AConnection fi(2) by (simp add: go_copy_def sized_def)
      with False AConnection e p fi show ?thesis
        by (intro drawn_changed[OF d, of "s\<lparr>finfo := Some (fi\<lparr>fconnected := connection\<rparr>)\<rparr>" "fi\<lparr>fconnected := connection\<rparr>"])
          (simp_all add: AnnotateConnection_def sized_def faults_def)
    qed
  next
    case AClearFailure
    let ?fi = "fi\<lparr>fcrashed := map (\<lambda>_. False) (fcrashed fi), fconnected := map (\<lambda>_. True) (fconnected fi)\<rparr>"
    have h: "healthy ?fi" "sized n ?fi" using fi(2) by (simp_all add: healthy_def sized_def map_replicate_const)
    have s': "finfo s' = Some ?fi" "ann s' = annotateContinuousEnd t TAG_PARTITION (ann s)"
      using AClearFailure e fi(1) by (auto simp: AnnotateClearFailure_def on_ann_def)
    show ?thesis
    proof (cases "faults s' = faults s")
      case False
      with drawn_close[OF d s'(1) h(2,1) s'(2)] show ?thesis by (simp add: later_def)
    next
      case True
      then have "healthy fi" using h(1) s'(1) fi(1) by (simp add: faults_def healthy_def)
      then have c: "continuous (ann s) TAG_PARTITION = None" using fi(3) by simp
      then have "line u (ann s') = line u (ann s)" for u
        using line_close[of "ann s" u t] s'(2) d by (simp add: drawn_def line_def open_span_def)
      moreover have "continuous (ann s') TAG_PARTITION = None" using s'(2) by (simp add: annotateContinuousEnd_def Let_def)
      ultimately show ?thesis using d s'(1) h(2) True by (simp add: later_def drawn_def described_def)
    qed
  next
    case (AShutdown servers)
    with e drawn_crash[OF d] show ?thesis by (simp add: AnnotateShutdown_def)
  next
    case AShutdownAll
    with e fi(1) drawn_crash[OF d] show ?thesis by (simp add: AnnotateShutdownAll_def AnnotateShutdown_def)
  next
    case (ARestart servers)
    with e drawn_crash[OF d] show ?thesis by (simp add: AnnotateRestart_def)
  next
    case ARestartAll
    with e fi(1) drawn_crash[OF d] show ?thesis by (simp add: AnnotateRestartAll_def AnnotateRestart_def)
  next
    case (ACheckerBegin details)
    with e fi(1) show ?thesis
      by (intro keep[of "fi\<lparr>ckbegin := \<lparr>ckts = t, ckdetails = details\<rparr>\<rparr>"]) (auto simp: AnnotateCheckerBegin_def aside_def)
  next
    case (ACheckerEnd desp details color)
    with e fi(1) show ?thesis
      by (intro keep[of fi]) (auto simp: AnnotateCheckerEnd_def on_ann_def Let_def aside split: if_splits)
  next
    case (APoint tag desp details color)
    with e p fi(1) show ?thesis by (intro keep[of fi]) (auto simp: on_ann_def aside)
  next
    case (AInterval tag start desp details color)
    with e p fi(1) show ?thesis by (intro keep[of fi]) (auto simp: on_ann_def aside)
  next
    case (AContinuous tag desp details color)
    with e p fi(1) show ?thesis by (intro keep[of fi]) (auto simp: on_ann_def aside)
  next
    case (AContinuousEnd tag)
    with e p fi(1) show ?thesis by (intro keep[of fi]) (auto simp: on_ann_def aside)
  qed
qed

lemma drawn_run:
  assumes "drawn n h s" and "arun es s = Some s'" and "list_all (proper n \<circ> snd) es"
  shows "drawn n (h @ fault_changes es s) s'"
  using assms
proof (induction es arbitrary: h s)
  case (Cons x es)
  obtain t e where x: "x = (t, e)" by fastforce
  with Cons.prems obtain s1 where s1: "aexec t e s = Some s1" "arun es s1 = Some s'" by (auto simp: bind_Some_iff)
  from Cons.IH[OF drawn_exec[OF Cons.prems(1) _ s1(1)] s1(2)] Cons.prems(3) x s1(1) show ?case
    by (simp add: later_def)
qed simp

lemma drawn_test: "drawn n [] (AnnotateTest t desp n s)"
  by (simp add: drawn_def AnnotateTest_def AnnotateInfo_def on_ann_def Let_def clear_def annotatePointColor_def mkFrameworkInfo_def
      sized_def described_def line_def open_span_def fault_line_def other_tags)

lemma finalize_line:
  assumes "distinct order" and "TAG_PARTITION \<in> set order \<or> continuous an TAG_PARTITION = None" and "described an"
  shows "fault_line (fst (finalize t order an)) = line t an"
proof -
  let ?f = "\<lambda>tag. case continuous an tag of None \<Rightarrow> [] | Some cont \<Rightarrow> [close_cont t tag cont]"
  have out: "fault_line (concat (map ?f tags)) = []" if "TAG_PARTITION \<notin> set tags" for tags
    using that by (induction tags) (auto simp: fault_line_def close_cont_def split: option.splits)
  have "fault_line (concat (map ?f order)) = open_span t an"
  proof (cases "TAG_PARTITION \<in> set order")
    case True
    then obtain xs ys where "order = xs @ TAG_PARTITION # ys" by (meson split_list)
    with assms(1) out[of xs] out[of ys] assms(3) show ?thesis
      by (auto simp: fault_line_def open_span_def described_def close_cont_def split: option.splits)
  next
    case False
    with out[OF False] assms(2) show ?thesis by (simp add: open_span_def)
  qed
  then show ?thesis by (simp add: finalize_def line_def)
qed

section \<open>Properties\<close>


definition fault_run :: "(int \<times> aevent) list" where
  "fault_run =
     [(10, AConnection [True, False, True]), (15, APoint ''x'' ''y'' ''z'' COLOR_USER), (20, AShutdown [0]), (25, AShutdown [0]),
      (30, AClearFailure), (35, ARestartAll)]"

definition new_test :: astate where
  "new_test = AnnotateTest 1 ''Test'' 3 \<lparr>ann = mkAnnotation, finfo = None\<rparr>"

lemma fault_run_changes:
  "fault_changes fault_run new_test =
     [(10, Some ''partition = [1] [0 2]''), (20, Some ''partition = [1] [2] / crash = [0]''), (30, None)]"
  by code_simp

lemma fault_run_returns: "arun fault_run new_test \<noteq> None"
  by code_simp


text \<open>
  \<open>AnnotateClearFailure\<close> while all is well records an interval without a text that begins at time 0: the
  end of a continuous annotation does not return when there is none.
\<close>

theorem clear_failure_spurious:
  assumes "finfo s \<noteq> None" and "continuous (ann s) TAG_PARTITION = None"
  shows "\<exists>s' a. AnnotateClearFailure t s = Some s' \<and> annotations (ann s') = annotations (ann s) @ [a]
    \<and> aTag a = TAG_PARTITION \<and> aStart a = 0 \<and> aEnd a = t \<and> aDescription a = ''''"
  using assms by (auto simp: AnnotateClearFailure_def on_ann_def annotateContinuousEnd_def close_cont_def Let_def)

text \<open>
  The end of a check does not forget its beginning: the next end that has no beginning of its own is
  drawn as an interval from there, not as a point.
\<close>

theorem checker_begin_kept:
  assumes "AnnotateCheckerBegin t0 begin_details s = Some s0" and "t0 \<noteq> 0"
    and "AnnotateCheckerEnd t1 desp1 details1 color1 s0 = Some s1" and "AnnotateCheckerEnd t2 desp2 details2 color2 s1 = Some s2"
  shows "map (\<lambda>a. (aStart a, aEnd a)) (drop (length (annotations (ann s))) (annotations (ann s2))) = [(t0, t1), (t0, t2)]"
  using assms
  by (auto simp: AnnotateCheckerBegin_def AnnotateCheckerEnd_def on_ann_def annotateIntervalColor_def Let_def bind_Some_iff)

text \<open>A file with the annotations is written only for a test that was not finalized before.\<close>

lemma cleanup_writes:
  assumes "an_cleanup enabled opened failed end t t' order an = (Some x, an')"
  shows "\<not> finalized an \<and> finalized an' \<and> enabled \<noteq> ''never'' \<and> (failed \<or> enabled = ''always'')
    \<and> x = fst (FinalizeAnnotations t t' order end an)"
  using assms
  by (auto simp: an_cleanup_def FinalizeAnnotations_def finalize_def Let_def split: if_splits)

end
