(* ===== verification/Config.thy ===== *)
theory Config
  imports TesterNetProps AnnotProps
begin

text \<open>
  The configuration of a test (\<^verbatim>\<open>tester1/config.go\<close>): the network with a first group of running servers
  and the clients, statistics, the time limit, and the clean-up.  A new configuration has all its servers
  running and every server able to call every other.
\<close>

section \<open>Configurations\<close>

definition GRP0 :: int where "GRP0 = 0"

record ('r, 'b) Config =
  cgroups :: "('r, 'b) groups"
  cclnts :: "clerks option"
  cnet :: Network
  cfgstart :: int
  ct0 :: int
  crpcs0 :: int
  cops :: "32 word"
  cfailed :: bool
  ctrpc :: bool

text \<open>
  \<open>names\<close> and \<open>starts\<close> hold what \<open>Randstring\<close> returns, the addresses of the new servers and whether their
  processes can be started; \<open>now\<close> is the clock; \<open>ctrpc\<close> says whether the tester listens for the RPCs of its
  daemons.
\<close>

definition MakeGroupStart :: "int \<Rightarrow> string list list \<Rightarrow> (string list \<times> nat \<times> bool) list \<Rightarrow> ('r, 'b) Config \<Rightarrow> ('r, 'b) Config option" where
  "MakeGroupStart gid names starts cfg = do {
     (gs, rn) \<leftarrow> MakeGroup gid names (cgroups cfg) (cnet cfg);
     sg \<leftarrow> gs gid;
     (sg, rn) \<leftarrow> StartServers starts sg rn;
     Some (cfg\<lparr>cgroups := gs(gid \<mapsto> sg), cnet := rn\<rparr>)
   }"

definition MakeConfig :: "string list list \<Rightarrow> (string list \<times> nat \<times> bool) list \<Rightarrow> bool \<Rightarrow> int \<Rightarrow> ('r, 'b) Config option" where
  "MakeConfig names starts rel now = do {
     let cfg = \<lparr>cgroups = Map.empty, cclnts = None, cnet = MakeNetwork, cfgstart = 0, ct0 = 0, crpcs0 = 0, cops = 0, cfailed = False, ctrpc = True\<rparr>;
     cfg \<leftarrow> MakeGroupStart GRP0 names starts cfg;
     Some (cfg\<lparr>cclnts := Some Map.empty, cfgstart := now, cnet := Reliable rel (cnet cfg)\<rparr>)
   }"

definition SetReliable :: "bool \<Rightarrow> ('r, 'b) Config \<Rightarrow> ('r, 'b) Config" where
  "SetReliable rel cfg = cfg\<lparr>cnet := Reliable rel (cnet cfg)\<rparr>"

definition SetLongReordering :: "bool \<Rightarrow> ('r, 'b) Config \<Rightarrow> ('r, 'b) Config" where
  "SetLongReordering longrel cfg = cfg\<lparr>cnet := LongReordering longrel (cnet cfg)\<rparr>"

definition SetLongDelays :: "bool \<Rightarrow> ('r, 'b) Config \<Rightarrow> ('r, 'b) Config" where
  "SetLongDelays longdel cfg = cfg\<lparr>cnet := LongDelays longdel (cnet cfg)\<rparr>"

definition ExitGroup :: "int \<Rightarrow> ('r, 'b) Config \<Rightarrow> ('r, 'b) Config option" where
  "ExitGroup gid cfg = do {
     sg \<leftarrow> cgroups cfg gid;
     (sg, rn) \<leftarrow> Shutdown sg (cnet cfg);
     Some (cfg\<lparr>cgroups := delete_group gid ((cgroups cfg)(gid \<mapsto> sg)), cnet := rn\<rparr>)
   }"

text \<open>Statistics.  \<open>End\<close> gives the numbers that are printed when the test did not fail.\<close>

definition Config_Begin :: "int \<Rightarrow> ('r, 'b) Config \<Rightarrow> ('r, 'b) Config" where
  "Config_Begin now cfg = cfg\<lparr>ct0 := now, crpcs0 := GetTotalCount (cnet cfg), cops := 0\<rparr>"

definition OpInc :: "('r, 'b) Config \<Rightarrow> ('r, 'b) Config" where
  "OpInc cfg = cfg\<lparr>cops := cops cfg + 1\<rparr>"

text \<open>Times are in seconds.\<close>

definition CheckTimeout :: "int \<Rightarrow> ('r, 'b) Config \<Rightarrow> ('r, 'b) Config" where
  "CheckTimeout now cfg = (if \<not> cfailed cfg \<and> now - cfgstart cfg > 120 then cfg\<lparr>cfailed := True\<rparr> else cfg)"

definition Config_End :: "int \<Rightarrow> ('r, 'b) Config \<Rightarrow> (('r, 'b) Config \<times> (int \<times> nat \<times> int \<times> int) option) option" where
  "Config_End now cfg = do {
     let cfg = CheckTimeout now cfg;
     if cfailed cfg then Some (cfg, None)
     else do {
       sg \<leftarrow> cgroups cfg GRP0;
       Some (cfg, Some (now - ct0 cfg, length (srvs sg), GetTotalCount (cnet cfg) - crpcs0 cfg, sint (cops cfg)))
     }
   }"

text \<open>\<open>Clnts.cleanup\<close>; \<open>order\<close> is the order of the map with the order of each client's ends.\<close>

fun Clnts_cleanup :: "(nat \<times> string list) list \<Rightarrow> clerks \<Rightarrow> Network \<Rightarrow> Network option" where
  "Clnts_cleanup [] clnts rn = Some rn"
| "Clnts_cleanup ((c, ord) # order) clnts rn = do {
     clnt \<leftarrow> clnts c;
     rn \<leftarrow> Clnt_remove (map (\<lambda>server. the (cends clnt server)) ord) rn;
     Clnts_cleanup order clnts rn
   }"

definition Config_Cleanup :: "(nat \<times> string list) list \<Rightarrow> int list \<Rightarrow> string \<Rightarrow> bool \<Rightarrow> int \<Rightarrow> int \<Rightarrow> string list
    \<Rightarrow> Annotation \<Rightarrow> ('r, 'b) Config \<Rightarrow> (('r, 'b) Config \<times> Annotation \<times> PAnnotation list option) option" where
  "Config_Cleanup corder gorder vis opened t t' aorder an cfg = do {
     clnts \<leftarrow> cclnts cfg;
     rn \<leftarrow> Clnts_cleanup corder clnts (cnet cfg);
     (gs, rn) \<leftarrow> groups_cleanup gorder (cgroups cfg) rn;
     rn \<leftarrow> Cleanup rn;
     let (file, an) = an_cleanup vis opened (cfailed cfg) (if cfailed cfg then ''test failed'' else ''test passed'') t t' aorder an;
     Some (cfg\<lparr>cclnts := None, cgroups := gs, cnet := rn, ctrpc := False\<rparr>, an, file)
   }"

text \<open>\<open>random_handles\<close>: a list of random numbers, the one at \<open>i\<close> below \<open>i + 1\<close>.\<close>

fun shuffle_loop :: "nat \<Rightarrow> nat list \<Rightarrow> 'a list \<Rightarrow> 'a list" where
  "shuffle_loop i [] sa = sa"
| "shuffle_loop i (j # js) sa = shuffle_loop (i + 1) js (sa[i := sa ! j, j := sa ! i])"

definition random_handles :: "nat list \<Rightarrow> 'a list \<Rightarrow> 'a list" where
  "random_handles js kvh = shuffle_loop 0 (take (length kvh) js) kvh"

lemma random_handles_permutes:
  assumes "\<And>i. i < length js \<Longrightarrow> js ! i \<le> i"
  shows "mset (random_handles js kvh) = mset kvh"
proof -
  have "mset (shuffle_loop i js sa) = mset sa" if "\<And>k. k < length js \<Longrightarrow> js ! k \<le> i + k" "i + length js \<le> length sa" for i js and sa :: "'a list"
    using that
  proof (induction js arbitrary: i sa)
    case (Cons j js)
    have j: "j < length sa" "i < length sa" using Cons.prems(1)[of 0] Cons.prems(2) by auto
    have "mset (shuffle_loop (i + 1) js (sa[i := sa ! j, j := sa ! i])) = mset (sa[i := sa ! j, j := sa ! i])"
    proof (rule Cons.IH)
      show "js ! k \<le> i + 1 + k" if "k < length js" for k using Cons.prems(1)[of "Suc k"] that by simp
    qed (use Cons.prems(2) in simp)
    with mset_swap[OF j(1,2)] mset_swap[OF j(2,1)] show ?case by (simp add: list_update_swap)
  qed simp
  from this[of "take (length kvh) js" 0 kvh] assms show ?thesis by (simp add: random_handles_def)
qed

section \<open>New groups\<close>

lemma makeServer_loop_ok:
  assumes "distinct es" and "\<forall>e \<in> set es. ends rn e = None"
  shows "\<exists>rn'. makeServer_loop gid j es rn = Some rn' \<and> dom (ends rn') = dom (ends rn) \<union> set es \<and> servers rn' = servers rn
    \<and> (\<forall>k < length es. connections rn' (es ! k) = Some (Some (ServerName gid (j + int k))))
    \<and> (\<forall>x. x \<notin> set es \<longrightarrow> connections rn' x = connections rn x)"
  using assms
proof (induction es arbitrary: j rn)
  case (Cons e es)
  define rn1 where "rn1 = Connect e (ServerName gid j) (rn\<lparr>ends := (ends rn)(e \<mapsto> \<lparr>ceName = e, callf = None\<rparr>),
      enabled := (enabled rn)(e \<mapsto> False), connections := (connections rn)(e \<mapsto> None)\<rparr>)"
  have new: "ends rn e = None" "e \<notin> set es" "\<forall>x \<in> set es. ends rn1 x = None" "distinct es"
    using Cons.prems by (auto simp: rn1_def Connect_def)
  from Cons.IH[OF new(4,3), of "j + 1"] obtain rn' where rn': "makeServer_loop gid (j + 1) es rn1 = Some rn'"
    "dom (ends rn') = dom (ends rn1) \<union> set es" "servers rn' = servers rn1"
    "\<forall>k < length es. connections rn' (es ! k) = Some (Some (ServerName gid (j + 1 + int k)))"
    "\<forall>x. x \<notin> set es \<longrightarrow> connections rn' x = connections rn1 x" by blast
  have "makeServer_loop gid j (e # es) rn = Some rn'" using rn'(1) new(1) by (simp add: MakeEnd_def rn1_def)
  moreover have "connections rn' ((e # es) ! k) = Some (Some (ServerName gid (j + int k)))" if "k < length (e # es)" for k
    using rn'(4,5) new(2) that by (cases k) (auto simp: rn1_def Connect_def ac_simps)
  moreover have "connections rn' x = connections rn x" if "x \<notin> set (e # es)" for x
    using rn'(5) that by (simp add: rn1_def Connect_def)
  moreover have "dom (ends rn') = dom (ends rn) \<union> set (e # es)" "servers rn' = servers rn"
    using rn'(2,3) by (auto simp: rn1_def Connect_def)
  ultimately show ?case by blast
qed simp

lemma makeSrvGrp_loop_ok:
  assumes "distinct (concat nss)" and "\<forall>e \<in> set (concat nss). ends rn e = None"
  shows "\<exists>rn'. makeSrvGrp_loop gid nss rn = Some (map (\<lambda>names. \<lparr>saved = None, endNames = names, dc = None\<rparr>) nss, rn')
    \<and> dom (ends rn') = dom (ends rn) \<union> set (concat nss)"
  using assms
proof (induction nss arbitrary: rn)
  case (Cons names nss)
  have "distinct names" "\<forall>e \<in> set names. ends rn e = None" using Cons.prems by auto
  from makeServer_loop_ok[OF this, of gid 0] obtain rn1 where 1: "makeServer_loop gid 0 names rn = Some rn1"
    "dom (ends rn1) = dom (ends rn) \<union> set names" by blast
  have "\<forall>e \<in> set (concat nss). ends rn1 e = None" "distinct (concat nss)" using Cons.prems 1(2) by auto
  from Cons.IH[OF this(2,1)] 1 show ?case by (auto simp: makeServer_def)
qed simp

lemma ServerName_inj: "ServerName gid (int i) = ServerName gid (int j) \<longleftrightarrow> i = j"
  by (simp add: ServerName_def Itoa_def itoa_inj)

text \<open>\<open>served gid rn i names ptr\<close>: the ends of server \<open>i\<close> lead to the servers of the group, and it is registered.\<close>

definition served :: "int \<Rightarrow> Network \<Rightarrow> nat \<Rightarrow> string list \<times> nat \<times> bool \<Rightarrow> bool" where
  "served gid rn i st \<longleftrightarrow>
     (case st of (names, ptr, ok) \<Rightarrow>
        servers rn (ServerName gid (int i)) = Some (Some ptr)
        \<and> (\<forall>k < length names. connections rn (names ! k) = Some (Some (ServerName gid (int k)))))"

definition running :: "string list \<times> nat \<times> bool \<Rightarrow> ('r, 'b) TServer" where
  "running st = \<lparr>saved = Some MakePersister, endNames = fst st, dc = Some (daemon_init MakePersister)\<rparr>"

lemma StartServer_ok:
  assumes "i < length (srvs sg)" and "saved (srvs sg ! i) = None" and "distinct names" and "\<forall>e \<in> set names. ends rn e = None"
  shows "\<exists>rn'. StartServer (int i) names ptr True sg rn = Some (sg\<lparr>srvs := (srvs sg)[i := running (names, ptr, True)]\<rparr>, rn', True)
    \<and> dom (ends rn') = dom (ends rn) \<union> set names \<and> served (grpgid sg) rn' i (names, ptr, True)
    \<and> (\<forall>j. j \<noteq> i \<longrightarrow> servers rn' (ServerName (grpgid sg) (int j)) = servers rn (ServerName (grpgid sg) (int j)))
    \<and> (\<forall>x. x \<notin> set names \<longrightarrow> connections rn' x = connections rn x)"
proof -
  from makeServer_loop_ok[OF assms(3,4), of "grpgid sg" 0] obtain rn1 where 1: "makeServer_loop (grpgid sg) 0 names rn = Some rn1"
    "dom (ends rn1) = dom (ends rn) \<union> set names" "servers rn1 = servers rn"
    "\<forall>k < length names. connections rn1 (names ! k) = Some (Some (ServerName (grpgid sg) (int k)))"
    "\<forall>x. x \<notin> set names \<longrightarrow> connections rn1 x = connections rn x" by auto
  then show ?thesis using assms(1,2)
    by (simp add: StartServer_def startServer_def makeServer_def running_def served_def AddServer_def ServerName_inj)
qed

lemma StartSrvs_ok:
  assumes "k + length sts = length (srvs sg)" and "\<forall>i. k \<le> i \<and> i < length (srvs sg) \<longrightarrow> saved (srvs sg ! i) = None"
    and "distinct (concat (map fst sts))" and "\<forall>e \<in> set (concat (map fst sts)). ends rn e = None" and "list_all (snd \<circ> snd) sts"
  shows "\<exists>rn'. StartSrvs (zip (map int [k..<length (srvs sg)]) sts) sg rn = Some (sg\<lparr>srvs := take k (srvs sg) @ map running sts\<rparr>, rn')
    \<and> (\<forall>i < length sts. served (grpgid sg) rn' (k + i) (sts ! i))
    \<and> (\<forall>j < k. servers rn' (ServerName (grpgid sg) (int j)) = servers rn (ServerName (grpgid sg) (int j)))
    \<and> (\<forall>x. x \<notin> set (concat (map fst sts)) \<longrightarrow> connections rn' x = connections rn x)"
  using assms
proof (induction sts arbitrary: k sg rn)
  case (Cons st sts)
  obtain names ptr where st: "st = (names, ptr, True)" using Cons.prems(5) by (cases st) auto
  have k: "k < length (srvs sg)" "saved (srvs sg ! k) = None" using Cons.prems(1,2) by auto
  define sg1 where "sg1 = sg\<lparr>srvs := (srvs sg)[k := running st]\<rparr>"
  have "distinct names" "\<forall>e \<in> set names. ends rn e = None" using Cons.prems(3,4) st by auto
  from StartServer_ok[OF k this, of ptr] obtain rn1 where 1: "StartServer (int k) names ptr True sg rn = Some (sg1, rn1, True)"
    "dom (ends rn1) = dom (ends rn) \<union> set names" "served (grpgid sg) rn1 k st"
    "\<And>j. j \<noteq> k \<Longrightarrow> servers rn1 (ServerName (grpgid sg) (int j)) = servers rn (ServerName (grpgid sg) (int j))"
    "\<And>x. x \<notin> set names \<Longrightarrow> connections rn1 x = connections rn x" unfolding st sg1_def by blast
  have fresh: "\<forall>e \<in> set (concat (map fst sts)). ends rn1 e = None"
    using Cons.prems(3,4) 1(2) st by auto
  have IH: "k + 1 + length sts = length (srvs sg1)" "\<forall>i. k + 1 \<le> i \<and> i < length (srvs sg1) \<longrightarrow> saved (srvs sg1 ! i) = None"
    "distinct (concat (map fst sts))" "list_all (snd \<circ> snd) sts"
    using Cons.prems st by (auto simp: sg1_def o_def)
  from Cons.IH[OF IH(1-3) fresh IH(4)] obtain rn' where
    2: "StartSrvs (zip (map int [k + 1..<length (srvs sg1)]) sts) sg1 rn1 = Some (sg1\<lparr>srvs := take (k + 1) (srvs sg1) @ map running sts\<rparr>, rn')"
      "\<And>i. i < length sts \<Longrightarrow> served (grpgid sg) rn' (k + 1 + i) (sts ! i)"
      "\<And>j. j < k + 1 \<Longrightarrow> servers rn' (ServerName (grpgid sg) (int j)) = servers rn1 (ServerName (grpgid sg) (int j))"
      "\<And>x. x \<notin> set (concat (map fst sts)) \<Longrightarrow> connections rn' x = connections rn1 x"
    by (auto simp: sg1_def)
  have run: "StartSrvs (zip (map int [k..<length (srvs sg)]) (st # sts)) sg rn = Some (sg\<lparr>srvs := take k (srvs sg) @ map running (st # sts)\<rparr>, rn')"
    using 1(1) 2(1) k(1) st by (simp add: upt_conv_Cons sg1_def take_Suc_conv_app_nth)
  have "set names \<inter> set (concat (map fst sts)) = {}" using Cons.prems(3) st by auto
  then have "served (grpgid sg) rn' k st"
    using 1(3) 2(3)[of k] 2(4) nth_mem[of _ names] unfolding st served_def prod.case by (metis disjoint_iff less_add_one)
  then have all: "served (grpgid sg) rn' (k + i) ((st # sts) ! i)" if "i < length (st # sts)" for i
    using 2(2)[of "i - 1"] that by (cases i) auto
  have "\<forall>j < k. servers rn' (ServerName (grpgid sg) (int j)) = servers rn (ServerName (grpgid sg) (int j))"
    using 2(3) 1(4) by simp
  moreover have "\<forall>x. x \<notin> set (concat (map fst (st # sts))) \<longrightarrow> connections rn' x = connections rn x"
    using 2(4) 1(5) st by auto
  ultimately show ?case using run all by blast
qed simp

section \<open>Everybody is connected\<close>

lemma grp_connect_frame:
  assumes "grp_connect i js sg rn = Some (sg', rn')"
  shows "connections rn' = connections rn \<and> servers rn' = servers rn \<and> grpgid sg' = grpgid sg"
proof -
  have 1: "connections r' = connections r \<and> servers r' = servers r" if "Server_connect conn names js r = Some r'" for conn names js r r'
    using that by (induction conn names js r rule: Server_connect.induct) (auto simp: bind_Some_iff Enable_def split: if_splits)
  have 2: "connections r' = connections r \<and> servers r' = servers r" if "enable_incoming conn ss i js r = Some r'" for conn ss i js r r'
    using that by (induction conn ss i js r rule: enable_incoming.induct) (auto simp: bind_Some_iff Enable_def split: if_splits)
  show ?thesis using assms by (auto simp: grp_connect_def bind_Some_iff Let_def dest!: 1 2)
qed

lemma ConnectAll_loop_links:
  assumes "grp_wf sg" and "\<forall>j \<in> set js. j < length (srvs sg)" and "\<forall>d \<in> D. d < length (srvs sg) \<and> connected sg ! d"
    and "\<forall>a \<in> D. \<forall>b \<in> D. linked sg rn a b"
  shows "\<exists>sg' rn'. ConnectAll_loop (map int js) sg rn = Some (sg', rn') \<and> srvs sg' = srvs sg \<and> grpgid sg' = grpgid sg
    \<and> connections rn' = connections rn \<and> servers rn' = servers rn
    \<and> (\<forall>a \<in> D \<union> set js. \<forall>b \<in> D \<union> set js. linked sg' rn' a b)"
  using assms
proof (induction js arbitrary: D sg rn)
  case (Cons i js)
  let ?all = "[0..<length (srvs sg)]"
  have i: "i < length (srvs sg)" using Cons.prems(2) by simp
  from grp_connect_effect[OF Cons.prems(1) i, of ?all rn] obtain sg1 rn1 where
    1: "grp_connect (int i) (map int ?all) sg rn = Some (sg1, rn1)" "grp_wf sg1" "srvs sg1 = srvs sg"
      "connected sg1 = (connected sg)[i := True]"
    and l: "\<And>a b. a < length (srvs sg) \<Longrightarrow> b < length (srvs sg) \<Longrightarrow> linked sg1 rn1 a b \<longleftrightarrow>
         a = i \<and> connected sg1 ! b \<or> b = i \<and> connected sg1 ! a \<or> linked sg rn a b" by auto
  have len: "length (connected sg) = length (srvs sg)" using Cons.prems(1) by (simp add: grp_wf_def)
  have D: "d < length (srvs sg1) \<and> connected sg1 ! d" if "d \<in> insert i D" for d
    using that Cons.prems(3) i len 1(3,4) by (cases "d = i") auto
  then have "linked sg1 rn1 a b" if "a \<in> insert i D" "b \<in> insert i D" for a b
    using that l[of a b] Cons.prems(4) 1(3) by auto
  with Cons.IH[OF 1(2), of "insert i D" rn1] D Cons.prems(2) 1(3) obtain sg' rn' where
    "ConnectAll_loop (map int js) sg1 rn1 = Some (sg', rn')" "srvs sg' = srvs sg1" "grpgid sg' = grpgid sg1"
    "connections rn' = connections rn1" "servers rn' = servers rn1"
    "\<forall>a \<in> insert i D \<union> set js. \<forall>b \<in> insert i D \<union> set js. linked sg' rn' a b" by auto
  then show ?case using 1(1,3) grp_connect_frame[OF 1(1)] by (simp add: ConnectOne_def grp_all_def)
qed simp

section \<open>Properties\<close>

text \<open>
  C37. A new test can begin: when the names that \<open>Randstring\<close> returns are different and the processes
  start, \<open>MakeConfig\<close> gives a group of running servers with empty storage, and every end that a server has
  for another one of the group, or for itself, is enabled and leads to that server's object.
\<close>

theorem MakeConfig_connected:
  assumes "length names = n" and "length starts = n" and "distinct (concat names @ concat (map fst starts))"
    and "list_all (\<lambda>(ns, ptr, ok). length ns = n \<and> ok) starts"
  shows "\<exists>(cfg :: ('r, 'b) Config) sg. MakeConfig names starts rel now = Some cfg \<and> cgroups cfg GRP0 = Some sg \<and> srvs sg = map running starts
    \<and> (\<forall>a < n. \<forall>b < n. linked sg (cnet cfg) a b
         \<and> connections (cnet cfg) (end_of sg a b) = Some (Some (ServerName GRP0 (int b)))
         \<and> servers (cnet cfg) (ServerName GRP0 (int b)) = Some (Some (fst (snd (starts ! b)))))"
proof -
  have "distinct (concat names)" "\<forall>e \<in> set (concat names). ends MakeNetwork e = None" using assms(3) by (simp_all add: MakeNetwork_def)
  from makeSrvGrp_loop_ok[OF this, of GRP0] obtain rn0 where 0:
    "makeSrvGrp_loop GRP0 names MakeNetwork = Some (map (\<lambda>names. \<lparr>saved = None, endNames = names, dc = None\<rparr>) names :: ('r, 'b) TServer list, rn0)"
    "dom (ends rn0) = set (concat names)" by (auto simp: MakeNetwork_def)
  define sg0 :: "('r, 'b) ServerGrp" where "sg0 = \<lparr>srvs = map (\<lambda>names. \<lparr>saved = None, endNames = names, dc = None\<rparr>) names,
      servernames = map (\<lambda>i. ServerName GRP0 (int i)) [0 ..< length names], grpgid = GRP0, connected = replicate (length names) False\<rparr>"
  have n: "length (srvs sg0) = n" "grpgid sg0 = GRP0" "connected sg0 = replicate n False" using assms(1) by (simp_all add: sg0_def)
  have fresh: "\<forall>e \<in> set (concat (map fst starts)). ends rn0 e = None"
  proof
    fix e assume "e \<in> set (concat (map fst starts))"
    then have "e \<notin> dom (ends rn0)" using 0(2) assms(3) by (auto simp del: set_concat)
    then show "ends rn0 e = None" by (simp add: domIff)
  qed
  have "list_all (snd \<circ> snd) starts" using assms(4) by (auto simp: list_all_iff)
  with StartSrvs_ok[of 0 starts sg0 rn0] assms fresh n obtain rn1 where
    1: "StartSrvs (zip (map int [0..<n]) starts) sg0 rn0 = Some (sg0\<lparr>srvs := map running starts\<rparr>, rn1)"
      "\<And>i. i < n \<Longrightarrow> served GRP0 rn1 i (starts ! i)" by (auto simp: sg0_def)
  define sg1 where "sg1 = sg0\<lparr>srvs := map running starts\<rparr>"
  have names: "length (fst (starts ! i)) = n" if "i < n" for i using assms(2,4) that by (auto simp: list_all_length case_prod_beta)
  have "grp_wf sg1" using assms(2,3,4) n by (auto simp: grp_wf_def sg1_def running_def o_def list_all_iff case_prod_beta)
  from ConnectAll_loop_links[OF this, of "[0..<n]" "{}" rn1] assms(2) obtain sg2 rn2 where
    2: "ConnectAll_loop (map int [0..<n]) sg1 rn1 = Some (sg2, rn2)" "srvs sg2 = map running starts"
      "connections rn2 = connections rn1" "servers rn2 = servers rn1" "\<And>a b. a < n \<Longrightarrow> b < n \<Longrightarrow> linked sg2 rn2 a b"
    by (auto simp: sg1_def)
  have run: "MakeConfig names starts rel now = Some \<lparr>cgroups = [GRP0 \<mapsto> sg2 :: ('r, 'b) ServerGrp], cclnts = Some Map.empty, cnet = Reliable rel rn2,
      cfgstart = now, ct0 = 0, crpcs0 = 0, cops = 0, cfailed = False, ctrpc = True\<rparr>"
    using 0(1) 1(1) 2(1) n assms(2)
    by (simp add: MakeConfig_def MakeGroupStart_def MakeGroup_def makeSrvGrp_def StartServers_def ConnectAll_def grp_all_def
        sg0_def[symmetric] sg1_def Let_def)
  have ends: "end_of sg2 a b = fst (starts ! a) ! b" if "a < n" for a b using that 2(2) assms(2) by (simp add: end_of_def running_def)
  have "linked sg2 (Reliable rel rn2) a b" if "a < n" "b < n" for a b
    using 2(5)[OF that] by (simp add: linked_def is_enabled_def Reliable_def)
  moreover have "connections (Reliable rel rn2) (end_of sg2 a b) = Some (Some (ServerName GRP0 (int b)))"
      "servers (Reliable rel rn2) (ServerName GRP0 (int b)) = Some (Some (fst (snd (starts ! b))))" if "a < n" "b < n" for a b
    using 2(3,4) 1(2)[OF that(1)] 1(2)[OF that(2)] ends[OF that(1)] names[OF that(1)] that
    by (simp_all add: Reliable_def served_def case_prod_beta)
  ultimately show ?thesis using run 2(2) by simp
qed

theorem MakeConfig_connected_witness:
  "\<exists>cfg sg. MakeConfig [[''a'', ''b''], [''c'', ''d'']] [([''e'', ''f''], 1, True), ([''g'', ''h''], 2, True)] True 5
      = Some (cfg :: (nat, nat) Config)
    \<and> cgroups cfg GRP0 = Some sg \<and> linked sg (cnet cfg) 0 1
    \<and> servers (cnet cfg) (ServerName GRP0 (int 1)) = Some (Some 2)"
proof -
  from MakeConfig_connected[of "[[''a'', ''b''], [''c'', ''d'']]" 2 "[([''e'', ''f''], 1, True), ([''g'', ''h''], 2, True)]" True 5]
  obtain cfg :: "(nat, nat) Config" and sg where
    c: "MakeConfig [[''a'', ''b''], [''c'', ''d'']] [([''e'', ''f''], 1, True), ([''g'', ''h''], 2, True)] True 5 = Some cfg"
      "cgroups cfg GRP0 = Some sg"
    and l: "\<forall>a < 2. \<forall>b < 2. linked sg (cnet cfg) a b
         \<and> connections (cnet cfg) (end_of sg a b) = Some (Some (ServerName GRP0 (int b)))
         \<and> servers (cnet cfg) (ServerName GRP0 (int b)) = Some (Some (fst (snd ([([''e'', ''f''], 1, True), ([''g'', ''h''], 2, True)] ! b))))"
    by auto
  from l[rule_format, of 0 1] c show ?thesis by auto
qed

end
