(* ===== verification/LabGob.thy ===== *)
theory LabGob
  imports Prelude
begin

text \<open>
  The checks of labgob (\<^verbatim>\<open>labgob/labgob.go\<close>): \<open>checkType\<close> walks over a type and everything it contains
  and reports the fields that gob would drop, once per type; \<open>checkDefault\<close> looks for values that are not
  default in the target of a decoder.

  The types of the program are a table, a type its index: types may contain themselves.  \<open>upper\<close> says of a
  field name whether its first rune is an upper-case letter.  Checks of different goroutines are taken one
  after the other.  The recursion over types has fuel, and it
  is proved how much is enough.
\<close>

section \<open>Types\<close>

datatype kind =
    KStruct "(string \<times> nat) list"
  | KElem nat
  | KMap nat nat
  | KOther

record gob_globals =
  errorCount :: int
  checked :: "nat list"
  reports :: "(nat \<times> string) list"

definition gob_init :: gob_globals where
  "gob_init = \<lparr>errorCount = 0, checked = [], reports = []\<rparr>"

definition complain :: "nat \<Rightarrow> string \<Rightarrow> gob_globals \<Rightarrow> gob_globals" where
  "complain t name g = g\<lparr>errorCount := errorCount g + 1, reports := reports g @ [(t, name)]\<rparr>"

text \<open>\<open>None\<close>: the fuel has run out.\<close>

function checkType :: "(string \<Rightarrow> bool) \<Rightarrow> kind list \<Rightarrow> nat \<Rightarrow> nat \<Rightarrow> gob_globals \<Rightarrow> gob_globals option"
  and checkFields :: "(string \<Rightarrow> bool) \<Rightarrow> kind list \<Rightarrow> nat \<Rightarrow> nat \<Rightarrow> (string \<times> nat) list \<Rightarrow> gob_globals \<Rightarrow> gob_globals option" where
  "checkType upper tys 0 t g = None"
| "checkType upper tys (Suc n) t g =
     (if t \<in> set (checked g) then Some g
      else let g = g\<lparr>checked := t # checked g\<rparr> in
           case tys ! t of
             KStruct fs \<Rightarrow> checkFields upper tys n t fs g
           | KElem e \<Rightarrow> checkType upper tys n e g
           | KMap e k \<Rightarrow> do { g \<leftarrow> checkType upper tys n e g; checkType upper tys n k g }
           | KOther \<Rightarrow> Some g)"
| "checkFields upper tys n t [] g = Some g"
| "checkFields upper tys n t ((name, ft) # fs) g = do {
     g \<leftarrow> checkType upper tys n ft (if upper name then g else complain t name g);
     checkFields upper tys n t fs g
   }"
  by pat_completeness auto
termination
  by (relation "measures [\<lambda>x. case x of Inl (_, _, n, _) \<Rightarrow> n | Inr (_, _, n, _) \<Rightarrow> n,
      \<lambda>x. case x of Inl _ \<Rightarrow> 0 | Inr (_, _, _, _, fs, _) \<Rightarrow> Suc (length fs)]") auto

definition checkValue :: "(string \<Rightarrow> bool) \<Rightarrow> kind list \<Rightarrow> nat \<Rightarrow> gob_globals \<Rightarrow> gob_globals option" where
  "checkValue upper tys t g = checkType upper tys (Suc (length tys)) t g"

section \<open>Values\<close>

datatype gvalue =
    VStruct "(string \<times> bool \<times> gvalue) list"
  | VPtr "gvalue option"
  | VBasic string bool
  | VOther

text \<open>
  A field has its name, whether it is embedded, and its value.  \<open>VBasic tn z\<close> is a number, string or Boolean
  of type \<open>tn\<close>; \<open>z\<close> says whether it is the zero value.  The warnings are the names that are printed.

  A value that reflection reached through a field that is not exported is read-only, and \<^verbatim>\<open>value.Interface()\<close>
  panics on it (\<open>None\<close>).  The mark of an ordinary field stays with everything below it, the mark of an embedded
  one is dropped at the next field: the two components of \<open>ro\<close>.
\<close>

definition field_ro :: "(string \<Rightarrow> bool) \<Rightarrow> bool \<times> bool \<Rightarrow> string \<Rightarrow> bool \<Rightarrow> bool \<times> bool" where
  "field_ro upper ro fname embedded = (fst ro \<or> \<not> upper fname \<and> \<not> embedded, \<not> upper fname \<and> embedded)"

fun checkDefault1 :: "(string \<Rightarrow> bool) \<Rightarrow> gvalue \<Rightarrow> bool \<times> bool \<Rightarrow> nat \<Rightarrow> string \<Rightarrow> int \<times> string list \<Rightarrow> (int \<times> string list) option" where
  "checkDefault1 upper v ro depth name (cnt, out) =
     (if depth > 3 then Some (cnt, out)
      else case v of
        VStruct fs \<Rightarrow>
          foldl (\<lambda>r (fname, embedded, vv). Option.bind r (\<lambda>st.
                   checkDefault1 upper vv (field_ro upper ro fname embedded) (depth + 1)
                     (if name \<noteq> '''' then name @ ''.'' @ fname else fname) st))
                (Some (cnt, out)) fs
      | VPtr None \<Rightarrow> Some (cnt, out)
      | VPtr (Some w) \<Rightarrow> checkDefault1 upper w ro (depth + 1) name (cnt, out)
      | VBasic tn z \<Rightarrow>
          if fst ro \<or> snd ro then None
          else if z then Some (cnt, out)
          else Some (cnt + 1, if cnt < 1 then out @ [if name = '''' then tn else name] else out)
      | VOther \<Rightarrow> Some (cnt, out))"

definition checkDefault :: "(string \<Rightarrow> bool) \<Rightarrow> gvalue option \<Rightarrow> int \<times> string list \<Rightarrow> (int \<times> string list) option" where
  "checkDefault upper value st =
     (case value of None \<Rightarrow> Some st | Some v \<Rightarrow> checkDefault1 upper v (False, False) 1 '''' st)"

section \<open>What is reported\<close>

fun succs :: "kind \<Rightarrow> nat set" where
  "succs (KStruct fs) = snd ` set fs"
| "succs (KElem e) = {e}"
| "succs (KMap e k) = {e, k}"
| "succs KOther = {}"

fun lowers :: "(string \<Rightarrow> bool) \<Rightarrow> kind \<Rightarrow> string list" where
  "lowers upper (KStruct fs) = filter (\<lambda>name. \<not> upper name) (map fst fs)"
| "lowers upper k = []"

definition wf_types :: "kind list \<Rightarrow> bool" where
  "wf_types tys \<longleftrightarrow> (\<forall>k \<in> set tys. succs k \<subseteq> {..<length tys})"

text \<open>The types that a type contains, directly or not.\<close>

definition contains :: "kind list \<Rightarrow> nat \<Rightarrow> nat set" where
  "contains tys t = {u. (t, u) \<in> {(a, b). b \<in> succs (tys ! a)}\<^sup>*}"

text \<open>
  One walk adds the types \<open>new\<close> with everything they contain, and reports their lower-case fields; \<open>own\<close> are
  the fields of a struct that is being walked.
\<close>

definition walked :: "(string \<Rightarrow> bool) \<Rightarrow> kind list \<Rightarrow> nat set \<Rightarrow> (nat \<times> string) list \<Rightarrow> gob_globals \<Rightarrow> gob_globals \<Rightarrow> bool" where
  "walked upper tys R own g g' \<longleftrightarrow>
     (\<exists>new. checked g' = new @ checked g \<and> distinct (checked g') \<and> set new \<subseteq> R
        \<and> (\<forall>u \<in> set new. succs (tys ! u) \<subseteq> set (checked g'))
        \<and> mset (reports g') = mset (reports g) + mset own + (\<Sum>u \<leftarrow> new. {#(u, name). name \<in># mset (lowers upper (tys ! u))#})
        \<and> errorCount g' - errorCount g = int (length (reports g')) - int (length (reports g)))"

lemma walked_refl: "distinct (checked g) \<Longrightarrow> walked upper tys R [] g g"
  by (auto simp: walked_def)

lemma walked_trans:
  assumes "walked upper tys R own g g1" and "walked upper tys R own' g1 g2"
  shows "walked upper tys R (own @ own') g g2"
proof -
  obtain new1 new2 where 1: "checked g1 = new1 @ checked g" "set new1 \<subseteq> R" "\<forall>u \<in> set new1. succs (tys ! u) \<subseteq> set (checked g1)"
    "mset (reports g1) = mset (reports g) + mset own + (\<Sum>u \<leftarrow> new1. {#(u, name). name \<in># mset (lowers upper (tys ! u))#})"
    "errorCount g1 - errorCount g = int (length (reports g1)) - int (length (reports g))"
    and 2: "checked g2 = new2 @ checked g1" "distinct (checked g2)" "set new2 \<subseteq> R" "\<forall>u \<in> set new2. succs (tys ! u) \<subseteq> set (checked g2)"
    "mset (reports g2) = mset (reports g1) + mset own' + (\<Sum>u \<leftarrow> new2. {#(u, name). name \<in># mset (lowers upper (tys ! u))#})"
    "errorCount g2 - errorCount g1 = int (length (reports g2)) - int (length (reports g1))"
    using assms unfolding walked_def by blast
  have "\<forall>u \<in> set (new2 @ new1). succs (tys ! u) \<subseteq> set (checked g2)" using 1(3) 2(1,4) by auto
  then show ?thesis unfolding walked_def using 1 2
    by (intro exI[of _ "new2 @ new1"]) (simp add: ac_simps)
qed

lemma walked_complain:
  assumes "walked upper tys R own (complain t name g) g'"
  shows "walked upper tys R ((t, name) # own) g g'"
proof -
  obtain new where n: "checked g' = new @ checked g" "distinct (checked g')" "set new \<subseteq> R"
    "\<forall>u \<in> set new. succs (tys ! u) \<subseteq> set (checked g')"
    "mset (reports g') = mset (reports g @ [(t, name)]) + mset own + (\<Sum>u \<leftarrow> new. {#(u, name). name \<in># mset (lowers upper (tys ! u))#})"
    "errorCount g' - (errorCount g + 1) = int (length (reports g')) - int (length (reports g @ [(t, name)]))"
    using assms by (auto simp: walked_def complain_def)
  then show ?thesis unfolding walked_def by (intro exI[of _ new]) simp
qed

text \<open>A type is done when everything it contains was walked.\<close>

lemma walked_done:
  assumes "walked upper tys R (map (Pair t) (lowers upper (tys ! t))) (g\<lparr>checked := t # checked g\<rparr>) g'"
    and "succs (tys ! t) \<subseteq> set (checked g')" and "t \<in> R"
  shows "walked upper tys R [] g g'" and "t \<in> set (checked g')"
proof -
  obtain new where n: "checked g' = new @ t # checked g" "distinct (checked g')" "set new \<subseteq> R"
    "\<forall>u \<in> set new. succs (tys ! u) \<subseteq> set (checked g')"
    "mset (reports g') = mset (reports g) + mset (map (Pair t) (lowers upper (tys ! t)))
       + (\<Sum>u \<leftarrow> new. {#(u, name). name \<in># mset (lowers upper (tys ! u))#})"
    "errorCount g' - errorCount g = int (length (reports g')) - int (length (reports g))"
    using assms(1) by (auto simp: walked_def)
  then show "t \<in> set (checked g')" by simp
  show "walked upper tys R [] g g'" unfolding walked_def
    using n assms(2,3) by (intro exI[of _ "new @ [t]"]) (simp add: ac_simps)
qed

section \<open>The walk ends\<close>

text \<open>\<open>R\<close> is a set of types that contains whatever its members contain.\<close>

definition closed_types :: "kind list \<Rightarrow> nat set \<Rightarrow> bool" where
  "closed_types tys R \<longleftrightarrow> R \<subseteq> {..<length tys} \<and> (\<forall>u \<in> R. succs (tys ! u) \<subseteq> R)"

definition fuelled :: "kind list \<Rightarrow> nat \<Rightarrow> gob_globals \<Rightarrow> bool" where
  "fuelled tys n g \<longleftrightarrow> distinct (checked g) \<and> set (checked g) \<subseteq> {..<length tys} \<and> length tys < n + length (checked g)"

lemma fuelled_pos: "fuelled tys n g \<Longrightarrow> 0 < n"
  using distinct_card[of "checked g"] card_mono[of "{..<length tys}" "set (checked g)"]
  by (auto simp: fuelled_def)

lemma fuelled_walked:
  assumes "fuelled tys n g" and "walked upper tys R own g g'" and "closed_types tys R"
  shows "fuelled tys n g'"
proof -
  obtain new where "checked g' = new @ checked g" "distinct (checked g')" "set new \<subseteq> R" using assms(2) by (auto simp: walked_def)
  moreover have "R \<subseteq> {..<length tys}" using assms(3) by (simp add: closed_types_def)
  ultimately have "set (checked g') \<subseteq> {..<length tys}" using assms(1) unfolding fuelled_def by auto
  with \<open>checked g' = new @ checked g\<close> \<open>distinct (checked g')\<close> assms(1) show ?thesis by (simp add: fuelled_def)
qed

lemma fuelled_mark:
  assumes "fuelled tys (Suc n) g" and "t < length tys" and "t \<notin> set (checked g)"
  shows "fuelled tys n (g\<lparr>checked := t # checked g\<rparr>)"
  using assms by (simp add: fuelled_def)

lemma fuelled_complain: "fuelled tys n (complain t name g) \<longleftrightarrow> fuelled tys n g"
  by (simp add: fuelled_def complain_def)

lemma walked_checked: "walked upper tys R own g g' \<Longrightarrow> set (checked g) \<subseteq> set (checked g')"
  by (auto simp: walked_def)

lemma check_walks:
  shows "closed_types tys R \<Longrightarrow> t \<in> R \<Longrightarrow> fuelled tys n g \<Longrightarrow>
      \<exists>g'. checkType upper tys n t g = Some g' \<and> walked upper tys R [] g g' \<and> t \<in> set (checked g')"
    and "closed_types tys R \<Longrightarrow> snd ` set fs \<subseteq> R \<Longrightarrow> fuelled tys n g \<Longrightarrow>
      \<exists>g'. checkFields upper tys n t fs g = Some g'
        \<and> walked upper tys R (map (Pair t) (filter (\<lambda>name. \<not> upper name) (map fst fs))) g g' \<and> snd ` set fs \<subseteq> set (checked g')"
proof (induction upper tys n t g and upper tys n t fs g rule: checkType_checkFields.induct)
  case (1 upper tys t g)
  then show ?case using fuelled_pos by blast
next
  case (2 upper tys n t g)
  show ?case
  proof (cases "t \<in> set (checked g)")
    case True
    with 2 show ?thesis by (simp add: walked_refl fuelled_def)
  next
    case False
    let ?g = "g\<lparr>checked := t # checked g\<rparr>"
    have t: "t < length tys" "succs (tys ! t) \<subseteq> R" using "2.prems" by (auto simp: closed_types_def)
    note f = fuelled_mark[OF "2.prems"(3) t(1) False]
    have fin: ?thesis if "checkType upper tys (Suc n) t g = Some g'" "succs (tys ! t) \<subseteq> set (checked g')"
        "walked upper tys R (map (Pair t) (lowers upper (tys ! t))) ?g g'" for g'
      using walked_done[OF that(3,2) "2.prems"(2)] that(1) by blast
    show ?thesis
    proof (cases "tys ! t")
      case (KStruct fs)
      with "2.IH"(1)[OF False refl KStruct "2.prems"(1) _ f] t(2) obtain g' where
        "checkFields upper tys n t fs ?g = Some g'" "snd ` set fs \<subseteq> set (checked g')"
        "walked upper tys R (map (Pair t) (filter (\<lambda>name. \<not> upper name) (map fst fs))) ?g g'" by auto
      with KStruct False show ?thesis by (intro fin[of g']) simp_all
    next
      case (KElem e)
      with "2.IH"(2)[OF False refl KElem "2.prems"(1) _ f] t(2) obtain g' where
        "checkType upper tys n e ?g = Some g'" "e \<in> set (checked g')" "walked upper tys R [] ?g g'" by auto
      with KElem False show ?thesis by (intro fin[of g']) simp_all
    next
      case (KMap e k)
      with "2.IH"(3)[OF False refl KMap "2.prems"(1) _ f] t(2) obtain g1 where
        1: "checkType upper tys n e ?g = Some g1" "e \<in> set (checked g1)" "walked upper tys R [] ?g g1" by auto
      have "fuelled tys n g1" using fuelled_walked[OF f 1(3) "2.prems"(1)] .
      with "2.IH"(4)[OF False refl KMap 1(1) "2.prems"(1)] t(2) KMap obtain g' where
        2: "checkType upper tys n k g1 = Some g'" "k \<in> set (checked g')" "walked upper tys R [] g1 g'" by auto
      have "e \<in> set (checked g')" using 1(2) walked_checked[OF 2(3)] by blast
      moreover have "walked upper tys R [] ?g g'" using walked_trans[OF 1(3) 2(3)] by simp
      ultimately show ?thesis using KMap False 1(1) 2(1,2) by (intro fin[of g']) simp_all
    next
      case KOther
      then show ?thesis using False f by (intro fin[of ?g]) (simp_all add: walked_refl fuelled_def)
    qed
  qed
next
  case (3 upper tys n t g)
  then show ?case by (simp add: walked_refl fuelled_def)
next
  case (4 upper tys n t name ft fs g)
  let ?g = "if upper name then g else complain t name g"
  have f: "fuelled tys n ?g" using "4.prems"(3) by (simp add: fuelled_complain)
  with "4.IH"(1) "4.prems" obtain g1 where
    1: "checkType upper tys n ft ?g = Some g1" "walked upper tys R [] ?g g1" "ft \<in> set (checked g1)" by auto
  have "fuelled tys n g1" using fuelled_walked[OF f 1(2) "4.prems"(1)] .
  with "4.IH"(2)[OF 1(1)] "4.prems"(1,2) obtain g' where
    2: "checkFields upper tys n t fs g1 = Some g'" "snd ` set fs \<subseteq> set (checked g')"
      "walked upper tys R (map (Pair t) (filter (\<lambda>name. \<not> upper name) (map fst fs))) g1 g'" by auto
  have w: "walked upper tys R (map (Pair t) (filter (\<lambda>name. \<not> upper name) (map fst fs))) ?g g'"
    using walked_trans[OF 1(2) 2(3)] by simp
  have "walked upper tys R (map (Pair t) (filter (\<lambda>name. \<not> upper name) (map fst ((name, ft) # fs)))) g g'"
    using w walked_complain[of upper tys R _ t name g g'] by (cases "upper name") simp_all
  moreover have "ft \<in> set (checked g')" using 1(3) walked_checked[OF 2(3)] by blast
  ultimately show ?case using 1(1) 2(1,2) by simp
qed

section \<open>All checks of a program\<close>

fun checkValues :: "(string \<Rightarrow> bool) \<Rightarrow> kind list \<Rightarrow> nat list \<Rightarrow> gob_globals \<Rightarrow> gob_globals option" where
  "checkValues upper tys [] g = Some g"
| "checkValues upper tys (t # ts) g = do { g \<leftarrow> checkValue upper tys t g; checkValues upper tys ts g }"

lemma checkValues_walk:
  assumes "closed_types tys R" and "set ts \<subseteq> R" and "fuelled tys (Suc (length tys)) g"
  shows "\<exists>g'. checkValues upper tys ts g = Some g' \<and> walked upper tys R [] g g' \<and> set ts \<subseteq> set (checked g')"
  using assms(2,3)
proof (induction ts arbitrary: g)
  case Nil
  then show ?case by (simp add: walked_refl fuelled_def)
next
  case (Cons t ts)
  then obtain g1 where 1: "checkValue upper tys t g = Some g1" "walked upper tys R [] g g1" "t \<in> set (checked g1)"
    using check_walks(1)[OF assms(1), of t "Suc (length tys)" g upper] by (auto simp: checkValue_def simp del: checkType.simps)
  from Cons.IH[OF _ fuelled_walked[OF Cons.prems(2) 1(2) assms(1)]] Cons.prems(1) obtain g' where
    2: "checkValues upper tys ts g1 = Some g'" "walked upper tys R [] g1 g'" "set ts \<subseteq> set (checked g')" by auto
  from 1 2 walked_trans[OF 1(2) 2(2)] walked_checked[OF 2(2)] show ?case by auto
qed

lemma contains_closed:
  assumes "wf_types tys" and "\<forall>t \<in> set ts. t < length tys"
  shows "closed_types tys (\<Union>t \<in> set ts. contains tys t)"
proof -
  have "u < length tys" if "(t, u) \<in> {(a, b). b \<in> succs (tys ! a)}\<^sup>*" "t < length tys" for t u
    using that
  proof (induction rule: rtrancl_induct)
    case (step y z)
    then have "succs (tys ! y) \<subseteq> {..<length tys}" using assms(1) by (simp add: wf_types_def)
    with step(2) show ?case by auto
  qed
  then show ?thesis using assms(2)
    by (force simp: closed_types_def contains_def intro: rtrancl_into_rtrancl)
qed

lemma contains_checked:
  assumes "t \<in> S" and "\<forall>u \<in> S. succs (tys ! u) \<subseteq> S"
  shows "contains tys t \<subseteq> S"
proof
  fix u assume "u \<in> contains tys t"
  then have "(t, u) \<in> {(a, b). b \<in> succs (tys ! a)}\<^sup>*" by (simp add: contains_def)
  then show "u \<in> S" using assms by (induction rule: rtrancl_induct) auto
qed

section \<open>Properties\<close>

text \<open>
  C35. The check of types ends, also on types that contain themselves, and it is complete and says nothing
  twice: after any sequence of checked values exactly the types that these values' types contain are
  marked as checked, and the reports are the lower-case fields of these types, each once.
\<close>

theorem labgob_reports_once:
  assumes "wf_types tys" and "list_all (\<lambda>t. t < length tys) ts"
  shows "\<exists>g. checkValues upper tys ts gob_init = Some g
    \<and> set (checked g) = (\<Union>t \<in> set ts. contains tys t)
    \<and> mset (reports g) = (\<Sum>u \<in> (\<Union>t \<in> set ts. contains tys t). {#(u, name). name \<in># mset (lowers upper (tys ! u))#})
    \<and> errorCount g = int (length (reports g))"
proof -
  let ?R = "\<Union>t \<in> set ts. contains tys t"
  have R: "closed_types tys ?R" using contains_closed[OF assms(1)] assms(2) by (simp add: list_all_iff)
  have "set ts \<subseteq> ?R" by (auto simp: contains_def)
  moreover have "fuelled tys (Suc (length tys)) gob_init" by (simp add: fuelled_def gob_init_def)
  ultimately obtain g where run: "checkValues upper tys ts gob_init = Some g" and w: "walked upper tys ?R [] gob_init g"
    and ts: "set ts \<subseteq> set (checked g)" using checkValues_walk[OF R] by blast
  have g: "distinct (checked g)" "set (checked g) \<subseteq> ?R" "\<forall>u \<in> set (checked g). succs (tys ! u) \<subseteq> set (checked g)"
    "mset (reports g) = (\<Sum>u \<leftarrow> checked g. {#(u, name). name \<in># mset (lowers upper (tys ! u))#})"
    "errorCount g = int (length (reports g))"
    using w by (auto simp: walked_def gob_init_def)
  have eq: "set (checked g) = ?R" using g(2) contains_checked[OF _ g(3)] ts by blast
  have "mset (reports g) = (\<Sum>u \<in> set (checked g). {#(u, name). name \<in># mset (lowers upper (tys ! u))#})"
    using g(1,4) by (simp add: sum_list_distinct_conv_sum_set)
  with run g(5) eq show ?thesis by simp
qed

text \<open>A list node that points to itself, with a field that gob would drop.\<close>

definition demo_types :: "kind list" where
  "demo_types = [KStruct [(''Key'', 3), (''next'', 1)], KElem 0, KMap 0 3, KOther]"

lemma demo_check:
  "map_option (\<lambda>g. (checked g, reports g)) (checkValues (\<lambda>name. name = ''Key'') demo_types [2, 1] gob_init) =
     Some ([1, 3, 0, 2], [(0, ''next'')])"
  by code_simp

theorem labgob_reports_once_witness:
  "\<exists>g. checkValues (\<lambda>name. name = ''Key'') demo_types [2, 1] gob_init = Some g \<and> errorCount g = 1
    \<and> reports g = [(0, ''next'')] \<and> contains demo_types 2 \<union> contains demo_types 1 = {0, 1, 2, 3}"
proof -
  obtain g where g: "checkValues (\<lambda>name. name = ''Key'') demo_types [2, 1] gob_init = Some g" "checked g = [1, 3, 0, 2]"
      "reports g = [(0, ''next'')]"
    using demo_check by auto
  have "wf_types demo_types" "list_all (\<lambda>t. t < length demo_types) [2, 1]" by (auto simp: wf_types_def demo_types_def)
  from labgob_reports_once[OF this, of "\<lambda>name. name = ''Key''"] g(1)
  have "set (checked g) = (\<Union>t \<in> set [2, 1]. contains demo_types t)" "errorCount g = int (length (reports g))" by auto
  with g show ?thesis by auto
qed

section \<open>Targets of a decoder\<close>

text \<open>The basic values a few levels down that are not the default, and whether one of the basic values is read-only.\<close>

fun nondefaults :: "gvalue \<Rightarrow> nat \<Rightarrow> nat" where
  "nondefaults v 0 = 0"
| "nondefaults (VStruct fs) (Suc n) = sum_list (map (\<lambda>(_, _, v). nondefaults v n) fs)"
| "nondefaults (VPtr None) (Suc n) = 0"
| "nondefaults (VPtr (Some v)) (Suc n) = nondefaults v n"
| "nondefaults (VBasic tn z) (Suc n) = of_bool (\<not> z)"
| "nondefaults VOther (Suc n) = 0"

fun hidden :: "(string \<Rightarrow> bool) \<Rightarrow> bool \<times> bool \<Rightarrow> gvalue \<Rightarrow> nat \<Rightarrow> bool" where
  "hidden upper ro v 0 \<longleftrightarrow> False"
| "hidden upper ro (VStruct fs) (Suc n) \<longleftrightarrow> list_ex (\<lambda>(fname, embedded, v). hidden upper (field_ro upper ro fname embedded) v n) fs"
| "hidden upper ro (VPtr None) (Suc n) \<longleftrightarrow> False"
| "hidden upper ro (VPtr (Some v)) (Suc n) \<longleftrightarrow> hidden upper ro v n"
| "hidden upper ro (VBasic tn z) (Suc n) \<longleftrightarrow> fst ro \<or> snd ro"
| "hidden upper ro VOther (Suc n) \<longleftrightarrow> False"

definition counted :: "bool \<Rightarrow> nat \<Rightarrow> int \<Rightarrow> (int \<times> string list) option \<Rightarrow> bool" where
  "counted bad n cnt r \<longleftrightarrow> (if bad then r = None else map_option fst r = Some (cnt + int n))"

lemma foldl_counted:
  assumes "\<And>st x. x \<in> set xs \<Longrightarrow> counted (P x) (c x) (fst st) (f st x)"
  shows "counted (list_ex P xs) (sum_list (map c xs)) (fst st) (foldl (\<lambda>r x. Option.bind r (\<lambda>st. f st x)) (Some st) xs)"
  using assms
proof (induction xs arbitrary: st)
  case (Cons x xs)
  have none: "foldl (\<lambda>r x. Option.bind r (\<lambda>st. f st x)) None ys = None" for ys by (induction ys) auto
  show ?case
  proof (cases "P x")
    case True
    with Cons.prems[of x st] none show ?thesis by (simp add: counted_def)
  next
    case False
    with Cons.prems[of x st] obtain st1 where 1: "f st x = Some st1" "fst st1 = fst st + int (c x)" by (auto simp: counted_def)
    from Cons.IH[of st1] Cons.prems 1 False show ?thesis by (auto simp: counted_def split: if_splits)
  qed
qed (simp add: counted_def)

theorem checkDefault_counts:
  "counted (hidden upper ro v (4 - depth)) (nondefaults v (4 - depth)) (fst st) (checkDefault1 upper v ro depth name st)"
proof (induction v arbitrary: ro depth name st)
  case (VStruct fs)
  obtain cnt out where [simp]: "st = (cnt, out)" by fastforce
  show ?case
  proof (cases "depth > 3")
    case False
    then have d: "4 - depth = Suc (4 - (depth + 1))" by simp
    let ?f = "\<lambda>st (fname, embedded, vv). checkDefault1 upper vv (field_ro upper ro fname embedded) (depth + 1)
        (if name \<noteq> '''' then name @ ''.'' @ fname else fname) st"
    have "counted ((\<lambda>(fname, embedded, v). hidden upper (field_ro upper ro fname embedded) v (4 - (depth + 1))) x)
        ((\<lambda>(_, _, v). nondefaults v (4 - (depth + 1))) x) (fst st) (?f st x)" if "x \<in> set fs" for st x
    proof -
      obtain fname embedded vv where x: "x = (fname, embedded, vv)" by (cases x) blast
      show ?thesis using VStruct.IH[OF that, of "(embedded, vv)" vv "field_ro upper ro fname embedded" "depth + 1" st] unfolding x
        by (simp del: checkDefault1.simps)
    qed
    from foldl_counted[where f = ?f, OF this, of fs "(cnt, out)"] False show ?thesis unfolding d
      by (simp add: checkDefault1.simps[of upper "VStruct fs"] case_prod_unfold del: checkDefault1.simps)
  qed (simp add: counted_def)
next
  case (VPtr w)
  obtain cnt out where [simp]: "st = (cnt, out)" by fastforce
  show ?case
  proof (cases "depth > 3 \<or> w = None")
    case True
    then show ?thesis by (cases "4 - depth") (auto simp: counted_def)
  next
    case False
    then obtain u where u: "w = Some u" "4 - depth = Suc (4 - (depth + 1))" by auto
    with False VPtr[of u ro "depth + 1" st name] show ?thesis unfolding u
      by (simp add: checkDefault1.simps[of upper "VPtr (Some u)"] del: checkDefault1.simps)
  qed
next
  case (VBasic tn z)
  then show ?case by (cases st; cases "4 - depth") (auto simp: counted_def)
next
  case VOther
  then show ?case by (cases st; cases "4 - depth") (auto simp: counted_def)
qed

text \<open>
  The warning about lower-case fields is followed by a panic: a target with a lower-case field of a basic
  type ends the program, whatever its value.
\<close>

theorem decode_lower_case_panics:
  assumes "\<not> upper name" and "(name, False, VBasic tn z) \<in> set fs"
  shows "checkDefault upper (Some (VPtr (Some (VStruct fs)))) st = None"
proof -
  have "hidden upper (False, False) (VPtr (Some (VStruct fs))) (4 - 1)"
    using assms by (force simp: numeral_3_eq_3 list_ex_iff field_ro_def)
  with checkDefault_counts[of upper "(False, False)" "VPtr (Some (VStruct fs))" 1 st "''''"] show ?thesis
    by (simp add: counted_def checkDefault_def del: checkDefault1.simps hidden.simps)
qed

end
