(* ===== verification/Spec2Isabelle.thy ===== *)
theory Spec2Isabelle
  imports RaftTests KvRaft KvAppend KvHarness KvLock ShardCfg MrProps LabRpcProps SockRpc Daemon Config LabGob
begin

text \<open>
  A verification of the Go programs of the repository: the MapReduce system, the Raft library and the
  services built on it, the single-server key/value store with its lock, the shard configurations,
  and the simulated network that connects them.

  \<^bold>\<open>How the source is read.\<close>  A struct is a record, an enumeration or tagged message a datatype, a
  handler or a critical section one function on the record.  Anything that ends the program (an index
  out of range, a nil dereference, \<^verbatim>\<open>log.Fatal\<close>) is \<open>None\<close> in an option type, written out with the
  slice operations of \<open>Prelude\<close>; errors that the code returns are values.  Go's \<^verbatim>\<open>int\<close> is \<open>int\<close> where
  it counts terms, indices and time; unsigned and atomic counters are words, and the theorems that
  need it say how many increments they allow (\<open>2 ^ 64\<close> puts to a key, \<open>2 ^ 48\<close> operations of a
  server).  Map iteration order, random numbers, clock readings, the outcome of I/O and the plugin
  functions are arguments.  Where goroutines and processes interleave, the code is cut at its lock
  boundaries, an \<open>event\<close> datatype names the pieces, an executable function gives their effect, and
  the step relation lets every event happen at any time.  Invariants of such a system are proved with
  the locales \<open>transition_system\<close> and \<open>observed_system\<close> of \<open>Prelude\<close>, which every system
  interprets.

  \<^bold>\<open>Raft\<close> (\<^verbatim>\<open>raft1/raft.go\<close>, \<^verbatim>\<open>tester1/persister.go\<close>).  \<open>Persister\<close>: stable storage and the labgob
  streams.  \<open>RaftNode\<close>: the state of a peer, persistence, elections and \<open>RequestVote\<close>.
  \<open>RaftReplication\<close>: \<open>AppendEntry\<close>, \<open>InstallSnapshot\<close>, \<open>Snapshot\<close>, \<open>Start\<close>, the ticker, the heartbeat, commit and
  the applier.  \<open>RaftLog\<close> and \<open>RaftFacts\<close>: lemmas on logs and on what each operation leaves alone.
  \<open>RaftCluster\<close>: all peers, with packets that are lost, delayed, duplicated by resending and
  reordered, and with crashes.  \<open>RaftElection\<close>: one vote per term and one leader per term.
  \<open>RaftLogInv\<close>: well-formed logs, and handlers that never panic.  \<open>RaftTree\<close>: the logs of all
  servers as paths in one tree of entries.  \<open>RaftGhost\<close>: history variables (who stored, won and voted
  what) and leader completeness.  \<open>RaftInv\<close>: the safety invariant and the rule for one event.
  \<open>RaftSteps\<close>, \<open>RaftSafety\<close>: every event keeps it, snapshots and crashes included.  \<open>RaftAgree\<close>: log
  matching, agreement of committed entries over time, and agreement of what is sent on \<^verbatim>\<open>applyCh\<close>.
  \<open>RaftApply\<close>: the applier and its condition variable.  \<open>RaftProps\<close>: the properties.
  \<open>RaftStream\<close>: what is sent on \<^verbatim>\<open>applyCh\<close> follows the sequence of committed commands without gaps, and
  every stored or transmitted snapshot is one of a prefix of this sequence.

  \<^bold>\<open>Services on Raft.\<close>  \<open>RaftService\<close>: the cluster together with the goroutines that read \<^verbatim>\<open>applyCh\<close> and
  call \<^verbatim>\<open>Snapshot\<close>, for any service; the contract of a service is the locale \<open>replicated_service\<close>, from which
  it follows that all servers execute one sequence of commands and that a restart succeeds.  It is
  interpreted twice.  \<open>RaftServer\<close>, \<open>RaftTests\<close>: the servers of the Raft tests (\<^verbatim>\<open>raft1/server.go\<close>) with the
  checks of the tester, which never fail in any run of the whole system.  \<open>KvRaft\<close>: the replicated
  key/value store, whose replicas agree and whose answers are those of one store.

  \<^bold>\<open>Key/value store\<close> (\<^verbatim>\<open>kvsrv1\<close>, \<^verbatim>\<open>models1/kv.go\<close>).  \<open>KvServer\<close>: the versioned store, an instance of the
  locale \<open>versioned_store\<close>.  \<open>KvModel\<close>: the reference model of the linearizability checker accepts the
  server's histories.  \<open>KvClerk\<close>: the clerks of the single server and of the replicated one
  (\<^verbatim>\<open>kvraft1/client.go\<close>), which resend over a lossy network; what OK, \<open>ErrVersion\<close> and \<open>ErrMaybe\<close> promise.
  \<open>KvLock\<close>: the lock of \<^verbatim>\<open>kvsrv1/lock\<close> and mutual exclusion.

  \<^bold>\<open>Key/value tests\<close> (\<^verbatim>\<open>kvtest1\<close>).  \<open>KvClients\<close>: any number of test clients, each a program over its own
  clerk, one server, and a network that loses, delays, reorders and resends; the log of operations.  What
  the clerks rely on in a program is the locale \<open>client_program\<close>: it never asks for a version from the
  future.  \<open>KvLinear\<close>: under that contract every complete log is linearizable, key by key, for the
  reference model.  \<open>KvTest\<close>, \<open>KvAppend\<close>: the overwriting and the appending clients, two instances of the
  locale, never fail and pass the checks at the end of their tests.  These theorems allow \<open>2 ^ 63\<close> requests
  (\<open>2 ^ 62\<close> for the appends, whose check reads the version as a signed number).  \<open>KvHarness\<close>: repeated
  Puts, spread keys and the thread that repartitions the servers.

  \<^bold>\<open>Replicated state machine\<close> (\<^verbatim>\<open>kvraft1/rsm/rsm.go\<close>, \<^verbatim>\<open>kvraft1/server.go\<close>).  \<open>Rsm\<close>: the reader, the
  snapshot goroutine, \<open>Submit\<close> and the key/value service.  \<open>RsmProps\<close>: replicas agree, for every
  instance of the locale \<open>state_machine\<close>; what \<open>Submit\<close> returns, and where it goes wrong.  \<open>KvRaft\<close> puts
  them on the Raft cluster.

  \<^bold>\<open>Shard configurations\<close> (\<^verbatim>\<open>shardkv1/shardcfg\<close>).  \<open>ShardCfg\<close>: rebalancing ends and is balanced; the loop is
  a \<open>partial_function\<close>, and that it returns is part of the theorem.

  \<^bold>\<open>MapReduce\<close> (\<^verbatim>\<open>mr\<close>, \<^verbatim>\<open>main/mrsequential.go\<close>, \<^verbatim>\<open>mrapps\<close>).  \<open>GoLib\<close>: the string functions of the Go
  library.  \<open>MapReduce\<close>: the coordinator, the workers with their files, and the sequential program.
  \<open>MrFacts\<close>, \<open>MrProps\<close>: when the job is done, its output is that of the sequential program, for every
  sort that meets \<open>key_sort\<close> and every application that meets \<open>order_free\<close>.

  \<^bold>\<open>Network and tester\<close> (\<^verbatim>\<open>labrpc\<close>, \<^verbatim>\<open>tester1\<close>).  \<open>LabRpc\<close>, \<open>LabRpcProps\<close>: ends, servers, services and the life
  of an RPC; calls are executed at most once and deleted servers do not answer.  \<open>TesterNet\<close>,
  \<open>TesterNetProps\<close>: groups of servers, partitions, daemons and clients on top of that network.
  \<open>Demux\<close>, \<open>DemuxProps\<close>: the connection between tester and daemon (\<^verbatim>\<open>tester1/demux\<close>), with frames in byte
  streams, the table of outstanding calls and every goroutine of both sides; frames are read back,
  calls get their own replies and a broken connection leaves no call waiting.  \<open>SockRpc\<close>: the RPC
  server over such connections (\<^verbatim>\<open>tester1/sockrpc\<close>), which dispatches each request at most once.
  \<open>Daemon\<close>: the start of a daemon, in which two RPC handlers and the main thread share one channel, and the
  calls it forwards.  \<open>Config\<close>: the configuration of a test, which starts with all servers running and
  connected.  \<open>Annot\<close>, \<open>AnnotProps\<close>: the annotations (\<^verbatim>\<open>tester1/annotation.go\<close>); the line of faults in the
  visualiser is the history of the faults.  \<open>LabGob\<close>: the checks of \<^verbatim>\<open>labgob/labgob.go\<close>; the walk over the
  types of a program has one unit of fuel more than there are types, which is proved to be enough.

  \<^bold>\<open>Not modelled.\<close>  The visualiser and its files, interrupts, process start-up, memory measurements, and
  the drivers of the individual tests: input, output and measurement.  The search of the linearizability
  checker is a library; \<open>KvLinear\<close> states what it decides.  The sharded key/value service consists of
  empty stubs.  JSON and gob are taken as inverse encodings of the values the code passes.

  \<^bold>\<open>What is left to do.\<close>  The heartbeat never panics; the appending and overwriting clients on the
  replicated store.
\<close>

end
